(* ===== verification/Go_Base.thy ===== *)
theory Go_Base
  imports Main "HOL-Library.Word" "HOL-Library.Multiset" "HOL-Library.AList"
    "HOL-Library.Char_ord" "HOL-Library.List_Lexorder" "HOL-Library.Product_Lexorder"
begin

text \<open>
  The prelude of the development: the parts of Go and of its standard library
  that the proxy's sources use, and the generic lemmas the component theories share.

  \<^item> Times and durations are integers in nanoseconds, as \<open>time.Duration\<close> is;
    \<open>wrap64\<close> is the two's complement wrap of \<open>int64\<close> arithmetic and is written
    where a value taken from outside the program can reach it.
  \<^item> Strings are byte strings (\<open>char list\<close>). Case folding and white space are the
    ASCII ones: a byte of a multi-byte UTF-8 sequence is neither a letter nor a space.
  \<^item> A fallible Go function returns an \<open>error + value\<close> sum, \<open>Inl\<close> for the error,
    or an option where the error carries nothing the caller looks at.
\<close>

section \<open>Collections of rewrite rules\<close>

named_theorems go_strings \<open>characterisations of the string functions\<close>
named_theorems time_consts \<open>unfolding of the duration constants\<close>

section \<open>Durations and machine integers\<close>

type_synonym duration = int
type_synonym time = int

definition millisecond :: duration where
  "millisecond = 1000000"

definition second :: duration where
  "second = 1000000000"

definition minute :: duration where
  "minute = 60 * second"

lemmas [time_consts] = millisecond_def second_def minute_def

definition wrap64 :: "int \<Rightarrow> int" where
  "wrap64 x = (x + 2 ^ 63) mod 2 ^ 64 - 2 ^ 63"

definition min_int64 :: int where
  "min_int64 = - (2 ^ 63)"

definition max_int64 :: int where
  "max_int64 = 2 ^ 63 - 1"

lemma wrap64_range: "min_int64 \<le> wrap64 x \<and> wrap64 x \<le> max_int64"
proof -
  have "0 \<le> (x + 2 ^ 63) mod 2 ^ 64" and "(x + 2 ^ 63) mod 2 ^ 64 < (2 ^ 64 :: int)"
    by simp_all
  then show ?thesis
    by (simp add: wrap64_def min_int64_def max_int64_def)
qed

lemma wrap64_id: "min_int64 \<le> x \<Longrightarrow> x \<le> max_int64 \<Longrightarrow> wrap64 x = x"
  by (simp add: wrap64_def min_int64_def max_int64_def)

section \<open>Package strings\<close>

definition hasPrefix :: "string \<Rightarrow> string \<Rightarrow> bool" where
  "hasPrefix s p \<longleftrightarrow> take (length p) s = p"

definition hasSuffix :: "string \<Rightarrow> string \<Rightarrow> bool" where
  "hasSuffix s p \<longleftrightarrow> hasPrefix (rev s) (rev p)"

definition trimPrefix :: "string \<Rightarrow> string \<Rightarrow> string" where
  "trimPrefix s p = (if hasPrefix s p then drop (length p) s else s)"

definition trimSuffix :: "string \<Rightarrow> string \<Rightarrow> string" where
  "trimSuffix s p = (if hasSuffix s p then take (length s - length p) s else s)"

definition cutPrefix :: "string \<Rightarrow> string \<Rightarrow> string option" where
  "cutPrefix s p = (if hasPrefix s p then Some (drop (length p) s) else None)"

lemma hasPrefix_iff [go_strings]: "hasPrefix s p \<longleftrightarrow> (\<exists>t. s = p @ t)"
  unfolding hasPrefix_def by (metis append_eq_conv_conj append_take_drop_id)

lemma hasSuffix_iff [go_strings]: "hasSuffix s p \<longleftrightarrow> (\<exists>t. s = t @ p)"
proof
  assume "hasSuffix s p"
  then obtain t where "rev s = rev p @ t"
    by (auto simp: hasSuffix_def hasPrefix_iff)
  then have "s = rev t @ p"
    by (metis rev_append rev_rev_ident)
  then show "\<exists>t. s = t @ p" ..
next
  assume "\<exists>t. s = t @ p"
  then show "hasSuffix s p"
    by (auto simp: hasSuffix_def hasPrefix_iff)
qed

lemma hasPrefix_refl [simp]: "hasPrefix s s"
  by (simp add: hasPrefix_def)

lemma hasPrefix_Nil [simp]: "hasPrefix s []"
  by (simp add: hasPrefix_def)

lemma hasPrefix_append [simp]: "hasPrefix (p @ t) p"
  by (simp add: hasPrefix_def)

lemma hasPrefix_trans: "hasPrefix a b \<Longrightarrow> hasPrefix b c \<Longrightarrow> hasPrefix a c"
  by (auto simp: hasPrefix_iff)

lemma hasPrefix_antisym: "hasPrefix a b \<Longrightarrow> length a \<le> length b \<Longrightarrow> a = b"
  by (auto simp: hasPrefix_iff)

text \<open>Two prefixes of one string are comparable.\<close>

lemma hasPrefix_comparable:
  assumes "hasPrefix s a" and "hasPrefix s b" and "length a \<le> length b"
  shows "hasPrefix b a"
proof -
  have "take (length a) s = a" and "take (length b) s = b"
    using assms by (simp_all add: hasPrefix_def)
  then have "take (length a) b = a"
    using assms(3) by (metis min.absorb1 take_take)
  then show ?thesis by (simp add: hasPrefix_def)
qed

text \<open>\<open>strings.Index\<close> of a non-empty separator, and \<open>strings.Cut\<close> at it.\<close>

fun indexOf :: "string \<Rightarrow> string \<Rightarrow> nat option" where
  "indexOf s sep =
     (if hasPrefix s sep then Some 0
      else case s of [] \<Rightarrow> None | _ # s' \<Rightarrow> map_option Suc (indexOf s' sep))"

declare indexOf.simps [simp del]

definition cut :: "string \<Rightarrow> string \<Rightarrow> string \<times> string \<times> bool" where
  "cut s sep = (case indexOf s sep of
       None \<Rightarrow> (s, [], False)
     | Some i \<Rightarrow> (take i s, drop (i + length sep) s, True))"

definition containsStr :: "string \<Rightarrow> string \<Rightarrow> bool" where
  "containsStr s sub \<longleftrightarrow> indexOf s sub \<noteq> None"

fun splitAt :: "char \<Rightarrow> string \<Rightarrow> string list" where
  "splitAt c [] = [[]]"
| "splitAt c (x # xs) =
     (if x = c then [] # splitAt c xs
      else case splitAt c xs of [] \<Rightarrow> [[x]] | w # ws \<Rightarrow> (x # w) # ws)"

fun joinWith :: "string \<Rightarrow> string list \<Rightarrow> string" where
  "joinWith sep [] = []"
| "joinWith sep [w] = w"
| "joinWith sep (w # v # vs) = w @ sep @ joinWith sep (v # vs)"

definition trimBy :: "(char \<Rightarrow> bool) \<Rightarrow> string \<Rightarrow> string" where
  "trimBy P s = rev (dropWhile P (rev (dropWhile P s)))"

definition isSpace :: "char \<Rightarrow> bool" where
  "isSpace c \<longleftrightarrow> c \<in> set [CHR '' '', CHR 0x09, CHR 0x0A, CHR 0x0B, CHR 0x0C, CHR 0x0D]"

definition trimSpace :: "string \<Rightarrow> string" where
  "trimSpace s = trimBy isSpace s"

definition trimChar :: "char \<Rightarrow> string \<Rightarrow> string" where
  "trimChar c s = trimBy (\<lambda>x. x = c) s"

definition lowerChar :: "char \<Rightarrow> char" where
  "lowerChar c = (let n = of_char c :: nat in if 65 \<le> n \<and> n \<le> 90 then char_of (n + 32) else c)"

definition upperChar :: "char \<Rightarrow> char" where
  "upperChar c = (let n = of_char c :: nat in if 97 \<le> n \<and> n \<le> 122 then char_of (n - 32) else c)"

definition toLower :: "string \<Rightarrow> string" where
  "toLower s = map lowerChar s"

definition equalFold :: "string \<Rightarrow> string \<Rightarrow> bool" where
  "equalFold a b \<longleftrightarrow> toLower a = toLower b"

subsection \<open>Facts about searching, cutting and joining\<close>

lemma indexOf_None_iff: "indexOf s sep = None \<longleftrightarrow> (\<nexists>u v. s = u @ sep @ v)"
proof (induction s)
  case Nil
  then show ?case by (auto simp: indexOf.simps[of "[]"] hasPrefix_iff)
next
  case (Cons c s)
  show ?case
  proof (cases "hasPrefix (c # s) sep")
    case True
    then show ?thesis
      by (simp add: indexOf.simps[of "c # s"]) (metis append_Nil hasPrefix_iff)
  next
    case False
    have "(\<exists>u v. c # s = u @ sep @ v) \<longleftrightarrow> (\<exists>u v. s = u @ sep @ v)"
      using False unfolding hasPrefix_iff
      by (metis append_Cons append_Nil append_eq_Cons_conv)
    then show ?thesis
      using False Cons.IH by (simp add: indexOf.simps[of "c # s"])
  qed
qed

text \<open>A string cut at a separator is the two parts around it, the first of which does not
  contain it.\<close>

lemma indexOf_append:
  assumes "\<And>u v. a @ butlast sep \<noteq> u @ sep @ v" and "sep \<noteq> []"
  shows "indexOf (a @ sep @ b) sep = Some (length a)"
  using assms(1)
proof (induction a)
  case Nil
  then show ?case by (simp add: indexOf.simps)
next
  case (Cons c a)
  have np: "\<not> hasPrefix (c # a @ sep @ b) sep"
  proof
    assume "hasPrefix (c # a @ sep @ b) sep"
    then obtain t where t: "(c # a @ sep) @ b = sep @ t"
      by (auto simp: hasPrefix_iff)
    have "length sep \<le> length (c # a @ butlast sep)" by simp
    then have "take (length sep) ((c # a @ butlast sep) @ [last sep] @ b) = take (length sep) (c # a @ butlast sep)"
      unfolding take_append by simp
    moreover have "(c # a @ butlast sep) @ [last sep] @ b = sep @ t"
      using t assms(2) by (metis append.assoc append_Cons append_butlast_last_id)
    ultimately have "take (length sep) (c # a @ butlast sep) = sep"
      by (metis append_eq_conv_conj)
    then have "(c # a) @ butlast sep = [] @ sep @ drop (length sep) (c # a @ butlast sep)"
      by (metis append_Cons append_Nil append_take_drop_id)
    then show False using Cons.prems by blast
  qed
  have "\<And>u v. a @ butlast sep \<noteq> u @ sep @ v"
    using Cons.prems by (metis append_Cons)
  then show ?case using np Cons.IH
    by (simp add: indexOf.simps[of "c # a @ sep @ b"])
qed

lemma indexOf_char_append:
  assumes "c \<notin> set a"
  shows "indexOf (a @ c # b) [c] = Some (length a)"
proof -
  have "\<And>u v. a @ butlast [c] \<noteq> u @ [c] @ v" using assms by auto
  then show ?thesis using indexOf_append[of a "[c]" b] by simp
qed

lemma cut_char_append: "c \<notin> set a \<Longrightarrow> cut (a @ c # b) [c] = (a, b, True)"
  by (simp add: cut_def indexOf_char_append)

lemma cut_char_absent:
  assumes "c \<notin> set s"
  shows "cut s [c] = (s, [], False)"
proof -
  have "indexOf s [c] = None"
    using assms by (auto simp: indexOf_None_iff)
  then show ?thesis by (simp add: cut_def)
qed

lemma splitAt_not_Nil [simp]: "splitAt c s \<noteq> []"
  by (cases s) (auto split: list.splits)

lemma splitAt_no_sep: "w \<in> set (splitAt c s) \<Longrightarrow> c \<notin> set w"
  by (induction c s arbitrary: w rule: splitAt.induct) (auto split: list.splits if_splits)

lemma joinWith_Cons: "ws \<noteq> [] \<Longrightarrow> joinWith sep (w # ws) = w @ sep @ joinWith sep ws"
  by (cases ws) auto

lemma join_splitAt: "joinWith [c] (splitAt c s) = s"
proof (induction s)
  case (Cons x xs)
  obtain w ws where ws: "splitAt c xs = w # ws"
    by (meson neq_Nil_conv splitAt_not_Nil)
  show ?case
  proof (cases "x = c")
    case True
    with Cons ws show ?thesis by simp
  next
    case False
    with Cons ws show ?thesis by (cases ws) auto
  qed
qed simp

section \<open>Package strconv\<close>

text \<open>\<open>strconv.Itoa\<close> and \<open>strconv.ParseInt(s, 10, 64)\<close> (which is also \<open>strconv.Atoi\<close> on a
  64-bit platform): an optional sign and decimal digits; an error on anything else and on a
  value outside \<open>int64\<close>.\<close>

definition digitChar :: "nat \<Rightarrow> char" where
  "digitChar d = char_of (48 + d)"

definition digitVal :: "char \<Rightarrow> nat option" where
  "digitVal c = (let n = of_char c :: nat in if 48 \<le> n \<and> n \<le> 57 then Some (n - 48) else None)"

fun natDigits :: "nat \<Rightarrow> string" where
  "natDigits n = (if n < 10 then [digitChar n] else natDigits (n div 10) @ [digitChar (n mod 10)])"

declare natDigits.simps [simp del]

definition itoa :: "int \<Rightarrow> string" where
  "itoa i = (if i < 0 then CHR ''-'' # natDigits (nat (- i)) else natDigits (nat i))"

fun digitsVal :: "nat \<Rightarrow> string \<Rightarrow> nat option" where
  "digitsVal acc [] = Some acc"
| "digitsVal acc (c # cs) =
     (case digitVal c of None \<Rightarrow> None | Some d \<Rightarrow> digitsVal (10 * acc + d) cs)"

definition parseDigits :: "string \<Rightarrow> nat option" where
  "parseDigits s = (if s = [] then None else digitsVal 0 s)"

definition parseInt :: "string \<Rightarrow> int option" where
  "parseInt s =
     (let neg = hasPrefix s ''-'';
          body = (if neg \<or> hasPrefix s ''+'' then tl s else s)
      in case parseDigits body of
           None \<Rightarrow> None
         | Some n \<Rightarrow>
             (let v = (if neg then - int n else int n)
              in if min_int64 \<le> v \<and> v \<le> max_int64 then Some v else None))"

lemma digitVal_digitChar: "d < 10 \<Longrightarrow> digitVal (digitChar d) = Some d"
  by (simp add: digitVal_def digitChar_def of_char_of Let_def)

lemma digitsVal_append:
  "digitsVal acc (xs @ ys) = Option.bind (digitsVal acc xs) (\<lambda>a. digitsVal a ys)"
  by (induction acc xs rule: digitsVal.induct) (auto split: option.splits)

lemma natDigits_not_Nil [simp]: "natDigits n \<noteq> []"
  by (subst natDigits.simps) simp

lemma digitsVal_natDigits: "digitsVal 0 (natDigits n) = Some n"
proof (induction n rule: natDigits.induct)
  case (1 n)
  show ?case
  proof (cases "n < 10")
    case True
    then show ?thesis by (simp add: natDigits.simps[of n] digitVal_digitChar)
  next
    case False
    then show ?thesis
      using "1.IH" by (simp add: natDigits.simps[of n] digitsVal_append digitVal_digitChar)
  qed
qed

lemma digitChar_all: "list_all (\<lambda>d. List.member ''0123456789'' (digitChar d)) [0..<10]"
  by code_simp

lemma digitChar_set: "d < 10 \<Longrightarrow> digitChar d \<in> set ''0123456789''"
  using digitChar_all by (simp only: list_all_iff List.member_iff) auto

lemma natDigits_chars: "set (natDigits n) \<subseteq> set ''0123456789''"
proof (induction n rule: natDigits.induct)
  case (1 n)
  then show ?case
    using digitChar_set[of n] digitChar_set[of "n mod 10"]
    by (cases "n < 10") (simp_all add: natDigits.simps[of n])
qed

lemma parseInt_natDigits:
  assumes "int n \<le> max_int64"
  shows "parseInt (natDigits n) = Some (int n)"
proof -
  obtain c cs where c: "natDigits n = c # cs"
    by (meson neq_Nil_conv natDigits_not_Nil)
  then have "c \<in> set ''0123456789''" using natDigits_chars[of n] by auto
  then have "\<not> hasPrefix (natDigits n) ''-''" and "\<not> hasPrefix (natDigits n) ''+''"
    using c by (auto simp: hasPrefix_def)
  then show ?thesis
    using assms digitsVal_natDigits[of n]
    by (simp add: parseInt_def parseDigits_def min_int64_def)
qed

lemma parseInt_itoa: "0 \<le> i \<Longrightarrow> i \<le> max_int64 \<Longrightarrow> parseInt (itoa i) = Some i"
  using parseInt_natDigits[of "nat i"] by (simp add: itoa_def)

lemma itoa_chars: "0 \<le> i \<Longrightarrow> set (itoa i) \<subseteq> set ''0123456789''"
  using natDigits_chars by (simp add: itoa_def)

section \<open>Package net\<close>

text \<open>\<open>net.SplitHostPort\<close>: the host and the port around the last colon, brackets around an
  IPv6 host, \<open>None\<close> for every one of its errors.\<close>

definition lastIndexOf :: "char \<Rightarrow> string \<Rightarrow> nat option" where
  "lastIndexOf c s = map_option (\<lambda>i. length s - 1 - i) (indexOf (rev s) [c])"

definition splitHostPort :: "string \<Rightarrow> (string \<times> string) option" where
  "splitHostPort s =
     (case lastIndexOf (CHR '':'') s of
        None \<Rightarrow> None
      | Some i \<Rightarrow>
          (if hasPrefix s ''['' then
             (case indexOf s '']'' of
                None \<Rightarrow> None
              | Some e \<Rightarrow>
                  if e + 1 \<noteq> i then None
                  else if containsStr (drop 1 s) ''['' \<or> containsStr (drop (e + 1) s) '']'' then None
                  else Some (drop 1 (take e s), drop (i + 1) s))
           else if containsStr (take i s) '':'' then None
           else if containsStr s ''['' \<or> containsStr s '']'' then None
           else Some (take i s, drop (i + 1) s)))"

section \<open>Go slices and maps\<close>

text \<open>\<open>slices.SortFunc\<close> promises a sorted permutation; the model takes the stable one.
  Properties that hold for every sorted permutation are stated that way.\<close>

lemma sort_key_perm: "mset (sort_key f xs) = mset xs"
  by simp

lemma find_Some_split:
  "find P xs = Some x \<Longrightarrow> \<exists>ys zs. xs = ys @ x # zs \<and> P x \<and> (\<forall>y\<in>set ys. \<not> P y)"
proof (induction xs)
  case (Cons a xs)
  show ?case
  proof (cases "P a")
    case True
    with Cons.prems have "a # xs = [] @ x # xs" and "P x" by simp_all
    then show ?thesis by fastforce
  next
    case False
    with Cons obtain ys zs where "xs = ys @ x # zs" "P x" "\<forall>y\<in>set ys. \<not> P y" by auto
    with False have "a # xs = (a # ys) @ x # zs" "\<forall>y\<in>set (a # ys). \<not> P y" by simp_all
    with \<open>P x\<close> show ?thesis by blast
  qed
qed simp

lemma find_in_set: "find P xs = Some x \<Longrightarrow> x \<in> set xs \<and> P x"
  by (auto simp: find_Some_iff)

lemma sum_list_filter_map_split:
  fixes f :: "'a \<Rightarrow> int"
  shows "sum_list (map f (filter P xs)) + sum_list (map f (filter (\<lambda>x. \<not> P x) xs)) = sum_list (map f xs)"
  by (induction xs) auto

lemma option_eqI: "(\<And>x. a = Some x \<longleftrightarrow> b = Some x) \<Longrightarrow> a = b"
  by (cases a; cases b) auto

lemma set_AList_update: "x \<in> set (AList.update k v al) \<Longrightarrow> x = (k, v) \<or> x \<in> set al"
  by (induction al) (auto split: if_splits)

lemma set_AList_delete: "set (AList.delete k al) = {x \<in> set al. fst x \<noteq> k}"
  by (auto simp: AList.delete_eq)

lemma keys_AList_update: "fst ` set (AList.update k v al) = insert k (fst ` set al)"
  by (simp flip: dom_map_of_conv_image_fst add: update_conv')

end
