(* ===== verification/Http.thy ===== *)
theory Http
  imports Go_Base
begin

text \<open>
  Requests and headers as the proxy's handlers see them after \<open>net/http\<close> has parsed them.
  A header is the association list of a Go \<open>http.Header\<close> map (one entry per canonical
  key, the list order standing for a map iteration order); a request carries the fields of
  \<open>http.Request\<close> the sources read, its cookies already parsed, and the values the proxy
  keeps in the request's context.
\<close>

section \<open>Header maps\<close>

type_synonym header = "(string \<times> string list) list"

definition tokenChar :: "char \<Rightarrow> bool" where
  "tokenChar c \<longleftrightarrow>
     (let n = of_char c :: nat
      in 48 \<le> n \<and> n \<le> 57 \<or> 65 \<le> n \<and> n \<le> 90 \<or> 97 \<le> n \<and> n \<le> 122
         \<or> c \<in> set ''!#$%&*+-.^_`|~'' \<or> n = 39)"

fun canonFrom :: "bool \<Rightarrow> string \<Rightarrow> string" where
  "canonFrom up [] = []"
| "canonFrom up (c # cs) =
     (if up then upperChar c else lowerChar c) # canonFrom (c = CHR ''-'') cs"

text \<open>\<open>http.CanonicalHeaderKey\<close>: a name with a byte that is no token byte is left as it is.\<close>

definition canonicalHeaderKey :: "string \<Rightarrow> string" where
  "canonicalHeaderKey k = (if list_all tokenChar k then canonFrom True k else k)"

definition hvalues :: "header \<Rightarrow> string \<Rightarrow> string list" where
  "hvalues h k = (case map_of h (canonicalHeaderKey k) of None \<Rightarrow> [] | Some vs \<Rightarrow> vs)"

definition hget :: "header \<Rightarrow> string \<Rightarrow> string" where
  "hget h k = (case hvalues h k of [] \<Rightarrow> [] | v # _ \<Rightarrow> v)"

definition hset :: "header \<Rightarrow> string \<Rightarrow> string \<Rightarrow> header" where
  "hset h k v = AList.update (canonicalHeaderKey k) [v] h"

definition hadd :: "header \<Rightarrow> string \<Rightarrow> string \<Rightarrow> header" where
  "hadd h k v = AList.update (canonicalHeaderKey k) (hvalues h k @ [v]) h"

definition hdel :: "header \<Rightarrow> string \<Rightarrow> header" where
  "hdel h k = AList.delete (canonicalHeaderKey k) h"

lemma hvalues_hset:
  "hvalues (hset h k v) j = (if canonicalHeaderKey j = canonicalHeaderKey k then [v] else hvalues h j)"
  by (simp add: hvalues_def hset_def update_conv)

lemma hvalues_hadd:
  "hvalues (hadd h k v) j =
     (if canonicalHeaderKey j = canonicalHeaderKey k then hvalues h k @ [v] else hvalues h j)"
  by (simp add: hvalues_def hadd_def update_conv)

lemma hvalues_hdel:
  "hvalues (hdel h k) j = (if canonicalHeaderKey j = canonicalHeaderKey k then [] else hvalues h j)"
  by (simp add: hvalues_def hdel_def delete_conv)

lemmas header_simps = hvalues_hset hvalues_hadd hvalues_hdel

section \<open>Requests\<close>

record request =
  req_method :: string
  req_host :: string
  req_path :: string
  req_raw_path :: string
  req_raw_query :: string
  req_header :: header
  req_cookies :: "(string \<times> string) list"
  req_remote_addr :: string
  req_tls :: bool
  req_content_length :: int
  req_internal :: bool               \<comment> \<open>context value \<open>internal-request\<close>\<close>
  req_matched_prefix :: "string option" \<comment> \<open>context value \<open>routing-context\<close>\<close>
  req_ignore_pin :: bool             \<comment> \<open>context value \<open>ignore-session-pin\<close>\<close>

definition emptyRequest :: request where
  "emptyRequest = \<lparr>req_method = ''GET'', req_host = [], req_path = ''/'', req_raw_path = [],
     req_raw_query = [], req_header = [], req_cookies = [], req_remote_addr = [],
     req_tls = False, req_content_length = 0, req_internal = False,
     req_matched_prefix = None, req_ignore_pin = False\<rparr>"

text \<open>An answer the proxy gives itself: the status and the header fields it sets. The body is an error page.\<close>

record reply =
  ry_status :: int
  ry_header :: header

text \<open>\<open>Request.Cookie\<close>: the first cookie of that name.\<close>

definition cookie :: "request \<Rightarrow> string \<Rightarrow> string option" where
  "cookie r n = map_of (req_cookies r) n"

section \<open>Routed paths\<close>

definition rootPath :: string where
  "rootPath = ''/''"

definition ensureTrailingSlash :: "string \<Rightarrow> string" where
  "ensureTrailingSlash p = (if \<not> hasSuffix p ''/'' then p @ ''/'' else p)"

definition pathMatchesPrefix :: "string \<Rightarrow> string \<Rightarrow> bool" where
  "pathMatchesPrefix p pre = hasPrefix (ensureTrailingSlash p) (ensureTrailingSlash pre)"

text \<open>The path a target receives: the matched service prefix removed where the router put one
  into the request's context.\<close>

definition routedTargetPath :: "request \<Rightarrow> string" where
  "routedTargetPath r =
     (case req_matched_prefix r of
        None \<Rightarrow> req_path r
      | Some pre \<Rightarrow>
          (let p = trimPrefix (req_path r) pre in if p = [] then rootPath else p))"

lemma ensureTrailingSlash_suffix: "hasSuffix (ensureTrailingSlash p) ''/''"
  by (auto simp: ensureTrailingSlash_def hasSuffix_iff)

lemma ensureTrailingSlash_idem [simp]:
  "ensureTrailingSlash (ensureTrailingSlash p) = ensureTrailingSlash p"
  using ensureTrailingSlash_suffix by (simp add: ensureTrailingSlash_def)

lemma pathMatchesPrefix_refl [simp]: "pathMatchesPrefix p p"
  by (simp add: pathMatchesPrefix_def)

lemma pathMatchesPrefix_trans:
  "pathMatchesPrefix p q \<Longrightarrow> pathMatchesPrefix q r \<Longrightarrow> pathMatchesPrefix p r"
  unfolding pathMatchesPrefix_def by (rule hasPrefix_trans)

text \<open>Two prefixes that match one path are nested, the shorter around the longer.\<close>

lemma pathMatchesPrefix_comparable:
  assumes "pathMatchesPrefix p a" and "pathMatchesPrefix p b"
    and "length (ensureTrailingSlash a) \<le> length (ensureTrailingSlash b)"
  shows "pathMatchesPrefix b a"
  using assms unfolding pathMatchesPrefix_def by (rule hasPrefix_comparable)

lemma routedTargetPath_unrouted [simp]:
  "req_matched_prefix r = None \<Longrightarrow> routedTargetPath r = req_path r"
  by (simp add: routedTargetPath_def)

end
