(* ===== verification/Options.thy ===== *)
theory Options
  imports Http Complex_Main
begin

text \<open>
  The option structs a deployment carries: \<open>ServiceOptions\<close> of \<open>service.go\<close>,
  \<open>TargetOptions\<close> and \<open>HealthCheckConfig\<close> of \<open>target.go\<close>, the cache options of
  \<open>cache_options.go\<close>, the header rules, path rules and path timeouts they hold, and the
  normalisation every one of them goes through before it is stored or served.
  A \<open>float64\<close> option is a rational.
\<close>

section \<open>Nested option structs\<close>

record cacheOptions =
  co_enabled :: bool
  co_maxBodySize :: int
  co_maxTTL :: duration
  co_varyHeaders :: "string list"
  co_varyCookies :: "string list"
  co_allowSetCookie :: bool
  co_maxVariants :: int

record compressionOptions =
  cp_encodings :: "string list"
  cp_minLength :: int
  cp_contentTypes :: "string list"

record pathRule =
  pr_pattern :: string
  pr_replacement :: string
  pr_status :: int

record pathTimeout =
  pt_prefix :: string
  pt_timeout :: duration

record headerRule =
  hr_name :: string
  hr_value :: string

record headerRules =
  hr_remove :: "string list"
  hr_set :: "headerRule list"
  hr_add :: "headerRule list"

record healthCheckConfig =
  hc_path :: string
  hc_port :: int
  hc_interval :: duration
  hc_timeout :: duration
  hc_host :: string

section \<open>ServiceOptions\<close>

record serviceOptions =
  so_hosts :: "string list"
  so_pathPrefixes :: "string list"
  so_tlsEnabled :: bool
  so_tlsCertificatePath :: string
  so_tlsPrivateKeyPath :: string
  so_tlsOnDemandURL :: string
  so_tlsRedirect :: bool
  so_canonicalHost :: string
  so_acmeDirectory :: string
  so_acmeCachePath :: string
  so_errorPagePath :: string
  so_stripPrefix :: bool
  so_writerAffinityTimeout :: duration
  so_readTargetsAcceptWebsockets :: bool
  so_excludeMetricsPaths :: "string list"
  so_clientIPHeader :: string
  so_tlsClientCACertificatePath :: string
  so_tlsDomainsSource :: string
  so_tlsDomainsInterval :: duration
  so_tlsDomainsBatchSize :: int
  so_interceptErrorStatuses :: "int list"
  so_targetTryDuration :: duration
  so_targetTryInterval :: duration
  so_sessionAffinity :: bool
  so_sessionAffinityCookieName :: string
  so_basicAuth :: string
  so_allowIPs :: "string list"
  so_denyIPs :: "string list"
  so_denyUserAgents :: "string list"
  so_trustedProxies :: "string list"
  so_rateLimit :: rat
  so_rateLimitBurst :: int
  so_rateLimitExempt :: "string list"
  so_redirects :: "pathRule list"
  so_rewrites :: "pathRule list"
  so_redirectsSource :: string
  so_redirectsInterval :: duration
  so_sleepAfter :: duration
  so_wakeTimeout :: duration
  so_sleepContainers :: "string list"
  so_compression :: compressionOptions
  so_cache :: cacheOptions

section \<open>TargetOptions\<close>

record targetOptions =
  to_healthCheck :: healthCheckConfig
  to_responseTimeout :: duration
  to_bufferRequests :: bool
  to_bufferResponses :: bool
  to_maxMemoryBufferSize :: int
  to_maxRequestBodySize :: int
  to_maxResponseBodySize :: int
  to_logRequestHeaders :: "string list"
  to_logResponseHeaders :: "string list"
  to_forwardHeaders :: bool
  to_scopeCookiePaths :: bool
  to_pathResponseTimeouts :: "pathTimeout list"
  to_requestTimeout :: duration
  to_pathRequestTimeouts :: "pathTimeout list"
  to_requestHeaderRules :: headerRules
  to_responseHeaderRules :: headerRules
  to_maxConnsPerHost :: int
  to_maxIdleConnsPerHost :: int
  to_idleConnTimeout :: duration
  to_dialTimeout :: duration
  to_disableKeepAlives :: bool

section \<open>Zero values\<close>

definition zeroCacheOptions :: cacheOptions where
  "zeroCacheOptions = \<lparr>co_enabled = False, co_maxBodySize = 0, co_maxTTL = 0, co_varyHeaders = [],
     co_varyCookies = [], co_allowSetCookie = False, co_maxVariants = 0\<rparr>"

definition zeroHealthCheckConfig :: healthCheckConfig where
  "zeroHealthCheckConfig = \<lparr>hc_path = [], hc_port = 0, hc_interval = 0, hc_timeout = 0, hc_host = []\<rparr>"

definition zeroServiceOptions :: serviceOptions where
  "zeroServiceOptions = \<lparr>so_hosts = [], so_pathPrefixes = [], so_tlsEnabled = False,
     so_tlsCertificatePath = [], so_tlsPrivateKeyPath = [], so_tlsOnDemandURL = [],
     so_tlsRedirect = False, so_canonicalHost = [], so_acmeDirectory = [], so_acmeCachePath = [], so_errorPagePath = [],
     so_stripPrefix = False, so_writerAffinityTimeout = 0, so_readTargetsAcceptWebsockets = False,
     so_excludeMetricsPaths = [], so_clientIPHeader = [], so_tlsClientCACertificatePath = [],
     so_tlsDomainsSource = [], so_tlsDomainsInterval = 0, so_tlsDomainsBatchSize = 0,
     so_interceptErrorStatuses = [], so_targetTryDuration = 0, so_targetTryInterval = 0,
     so_sessionAffinity = False, so_sessionAffinityCookieName = [], so_basicAuth = [],
     so_allowIPs = [], so_denyIPs = [], so_denyUserAgents = [], so_trustedProxies = [],
     so_rateLimit = 0, so_rateLimitBurst = 0, so_rateLimitExempt = [], so_redirects = [],
     so_rewrites = [], so_redirectsSource = [], so_redirectsInterval = 0, so_sleepAfter = 0,
     so_wakeTimeout = 0, so_sleepContainers = [],
     so_compression = \<lparr>cp_encodings = [], cp_minLength = 0, cp_contentTypes = []\<rparr>,
     so_cache = zeroCacheOptions\<rparr>"

definition defaultServiceOptions :: serviceOptions where
  "defaultServiceOptions = zeroServiceOptions\<lparr>so_tlsRedirect := True\<rparr>"

definition zeroHeaderRules :: headerRules where
  "zeroHeaderRules = \<lparr>hr_remove = [], hr_set = [], hr_add = []\<rparr>"

definition zeroTargetOptions :: targetOptions where
  "zeroTargetOptions = \<lparr>to_healthCheck = zeroHealthCheckConfig, to_responseTimeout = 0,
     to_bufferRequests = False, to_bufferResponses = False, to_maxMemoryBufferSize = 0,
     to_maxRequestBodySize = 0, to_maxResponseBodySize = 0, to_logRequestHeaders = [],
     to_logResponseHeaders = [], to_forwardHeaders = False, to_scopeCookiePaths = False,
     to_pathResponseTimeouts = [], to_requestTimeout = 0, to_pathRequestTimeouts = [],
     to_requestHeaderRules = zeroHeaderRules, to_responseHeaderRules = zeroHeaderRules,
     to_maxConnsPerHost = 0, to_maxIdleConnsPerHost = 0, to_idleConnTimeout = 0,
     to_dialTimeout = 0, to_disableKeepAlives = False\<rparr>"

end
