(* ===== verification/Compression.thy ===== *)
theory Compression
  imports Options Complex_Main
begin

text \<open>
  Content negotiation of \<open>compression.go\<close>: the options with their normalization and validation,
  the parsing of \<open>Accept-Encoding\<close> and the choice of an encoding and of what is worth encoding.
  Quality values are rationals; \<open>strconv.ParseFloat\<close> is the parameter \<open>parseFloat\<close>.
\<close>

section \<open>Options\<close>

definition supportedEncodings :: "string list" where
  "supportedEncodings = [''gzip'', ''br'', ''zstd'']"

definition encodingAlias :: "string \<Rightarrow> string" where
  "encodingAlias e = (if e = ''brotli'' then ''br'' else e)"

definition eventStreamContentType :: string where
  "eventStreamContentType = ''text/event-stream''"

definition defaultCompressibleContentTypes :: "string list" where
  "defaultCompressibleContentTypes =
     [''text/*'', ''application/json'', ''application/javascript'', ''application/x-javascript'',
      ''application/xml'', ''application/wasm'', ''image/svg+xml'', ''image/x-icon'']"

definition compressibleContentTypeSuffixes :: "string list" where
  "compressibleContentTypeSuffixes = [''+json'', ''+xml'', ''+text'']"

definition cpEnabled :: "compressionOptions \<Rightarrow> bool" where
  "cpEnabled co \<longleftrightarrow> cp_encodings co \<noteq> []"

text \<open>The loop the normalizers share: rewrite each name, drop empty ones and repetitions.\<close>

definition normalizeNames :: "(string \<Rightarrow> string) \<Rightarrow> string list \<Rightarrow> string list" where
  "normalizeNames f names =
     foldl (\<lambda>acc name. let n = f name in if n = [] \<or> n \<in> set acc then acc else acc @ [n]) [] names"

definition normalizeEncodings :: "string list \<Rightarrow> string list" where
  "normalizeEncodings es = normalizeNames (\<lambda>e. encodingAlias (toLower (trimSpace e))) es"

definition normalizeContentType :: "string \<Rightarrow> string" where
  "normalizeContentType ct = toLower (trimSpace (fst (cut ct '';'')))"

definition normalizeContentTypes :: "string list \<Rightarrow> string list" where
  "normalizeContentTypes cts = normalizeNames normalizeContentType cts"

definition normalizeCompression :: "compressionOptions \<Rightarrow> compressionOptions" where
  "normalizeCompression co = co\<lparr>cp_encodings := normalizeEncodings (cp_encodings co),
     cp_contentTypes := normalizeContentTypes (cp_contentTypes co)\<rparr>"

definition validContentTypePattern :: "string \<Rightarrow> bool" where
  "validContentTypePattern p = (case cut p ''/'' of (m, s, found) \<Rightarrow>
     found \<and> m \<noteq> [] \<and> s \<noteq> [] \<and> \<not> containsStr m ''*'')"

datatype compressionError = MinLengthRequiresCompress | ContentTypeRequiresCompress
  | UnsupportedEncoding | NegativeMinLength | InvalidContentTypePattern

definition validateCompression :: "compressionOptions \<Rightarrow> compressionError option" where
  "validateCompression raw =
     (let co = normalizeCompression raw
      in if \<not> cpEnabled co then
           (if cp_minLength co \<noteq> 0 then Some MinLengthRequiresCompress
            else if cp_contentTypes co \<noteq> [] then Some ContentTypeRequiresCompress else None)
         else if \<not> list_all (\<lambda>e. e \<in> set supportedEncodings) (cp_encodings co) then Some UnsupportedEncoding
         else if cp_minLength co < 0 then Some NegativeMinLength
         else if \<not> list_all validContentTypePattern (cp_contentTypes co) then Some InvalidContentTypePattern
         else None)"

definition cpMinLength :: "compressionOptions \<Rightarrow> int" where
  "cpMinLength co = (if cp_minLength co \<le> 0 then 1024 else cp_minLength co)"

section \<open>Negotiation\<close>

text \<open>The quality a header entry gives: the last parseable \<open>q\<close> parameter, else one.\<close>

definition qualityOf :: "(string \<Rightarrow> rat option) \<Rightarrow> string \<Rightarrow> rat" where
  "qualityOf parseFloat params =
     foldl (\<lambda>q param. case cut param ''='' of (key, v, found) \<Rightarrow>
         if \<not> found \<or> \<not> equalFold (trimSpace key) ''q'' then q
         else (case parseFloat (trimSpace v) of Some p \<Rightarrow> p | None \<Rightarrow> q))
       1 (splitAt (CHR '';'') params)"

text \<open>The qualities by name, and the wildcard's.\<close>

definition acceptEntry ::
  "(string \<Rightarrow> rat option) \<Rightarrow> string \<Rightarrow> (string \<times> rat) list \<times> rat option \<Rightarrow> (string \<times> rat) list \<times> rat option" where
  "acceptEntry parseFloat entry acc = (case cut entry '';'' of (raw, params, _) \<Rightarrow>
     let name = toLower (trimSpace raw)
     in if name = [] then acc
        else if name = ''*'' then (fst acc, Some (qualityOf parseFloat params))
        else (AList.update name (qualityOf parseFloat params) (fst acc), snd acc))"

definition parseAcceptEncoding :: "(string \<Rightarrow> rat option) \<Rightarrow> string \<Rightarrow> (string \<times> rat) list \<times> rat option" where
  "parseAcceptEncoding parseFloat h = fold (acceptEntry parseFloat) (splitAt (CHR '','') h) ([], None)"

definition offeredQuality :: "(string \<times> rat) list \<times> rat option \<Rightarrow> string \<Rightarrow> rat option" where
  "offeredQuality acc e = (case map_of (fst acc) e of Some q \<Rightarrow> Some q | None \<Rightarrow> snd acc)"

definition negotiateStep :: "(string \<times> rat) list \<times> rat option \<Rightarrow> string \<Rightarrow> string \<times> rat \<Rightarrow> string \<times> rat" where
  "negotiateStep acc e best = (case offeredQuality acc e of
       None \<Rightarrow> best
     | Some q \<Rightarrow> if q > snd best then (e, q) else best)"

definition negotiate :: "(string \<Rightarrow> rat option) \<Rightarrow> compressionOptions \<Rightarrow> string \<Rightarrow> string" where
  "negotiate parseFloat co acceptEncoding =
     (if \<not> cpEnabled co \<or> acceptEncoding = [] then []
      else fst (fold (negotiateStep (parseAcceptEncoding parseFloat acceptEncoding)) (cp_encodings co) ([], 0)))"

definition matchesContentType :: "string \<Rightarrow> string \<Rightarrow> bool" where
  "matchesContentType pattern mediaType =
     (if hasSuffix pattern ''/*'' then hasPrefix mediaType (take (length pattern - 2) pattern @ ''/'')
      else pattern = mediaType)"

definition compressibleContentType :: "compressionOptions \<Rightarrow> string \<Rightarrow> bool" where
  "compressibleContentType co contentType =
     (let mediaType = normalizeContentType contentType;
          usingDefaults = (cp_contentTypes co = []);
          patterns = (if usingDefaults then defaultCompressibleContentTypes else cp_contentTypes co)
      in if mediaType = [] then False
         else if mediaType = eventStreamContentType \<and> mediaType \<notin> set patterns then False
         else if list_ex (\<lambda>p. matchesContentType p mediaType) patterns then True
         else if \<not> usingDefaults then False
         else list_ex (\<lambda>s. hasSuffix mediaType s) compressibleContentTypeSuffixes)"

section \<open>Normalized names\<close>

lemma normalizeNames_snoc:
  "normalizeNames f (names @ [n]) = (let m = f n; acc = normalizeNames f names in if m = [] \<or> m \<in> set acc then acc else acc @ [m])"
  by (simp add: normalizeNames_def Let_def)

lemma normalizeNames_distinct: "distinct (normalizeNames f names)" and normalizeNames_set: "set (normalizeNames f names) = f ` set names - {[]}"
proof -
  have nil: "normalizeNames f [] = []" by (simp add: normalizeNames_def)
  have "distinct (normalizeNames f names) \<and> set (normalizeNames f names) = f ` set names - {[]}"
    by (induction names rule: rev_induct) (auto simp: nil normalizeNames_snoc Let_def)
  then show "distinct (normalizeNames f names)" and "set (normalizeNames f names) = f ` set names - {[]}" by simp_all
qed

section \<open>The encoding chosen is the client's best\<close>

definition worse :: "(string \<times> rat) list \<times> rat option \<Rightarrow> rat \<Rightarrow> string \<Rightarrow> bool" where
  "worse acc q e \<longleftrightarrow> (case offeredQuality acc e of None \<Rightarrow> True | Some p \<Rightarrow> p < q)"

definition notBetter :: "(string \<times> rat) list \<times> rat option \<Rightarrow> rat \<Rightarrow> string \<Rightarrow> bool" where
  "notBetter acc q e \<longleftrightarrow> (case offeredQuality acc e of None \<Rightarrow> True | Some p \<Rightarrow> p \<le> q)"

lemma notBetter_worse: "notBetter acc q e \<Longrightarrow> q < q' \<Longrightarrow> worse acc q' e"
  by (auto simp: notBetter_def worse_def split: option.splits)

lemma worse_notBetter: "worse acc q e \<Longrightarrow> notBetter acc q e"
  by (auto simp: notBetter_def worse_def split: option.splits)

text \<open>What the loop has established for the encodings seen so far.\<close>

definition leads :: "(string \<times> rat) list \<times> rat option \<Rightarrow> string list \<Rightarrow> string \<times> rat \<Rightarrow> bool" where
  "leads acc es best \<longleftrightarrow> (\<exists>xs ys. es = xs @ fst best # ys \<and> offeredQuality acc (fst best) = Some (snd best)
     \<and> 0 < snd best \<and> list_all (worse acc (snd best)) xs)"

definition bestOf :: "(string \<times> rat) list \<times> rat option \<Rightarrow> string list \<Rightarrow> string \<times> rat \<Rightarrow> bool" where
  "bestOf acc es best \<longleftrightarrow> 0 \<le> snd best \<and> list_all (notBetter acc (snd best)) es \<and> (best = ([], 0) \<or> leads acc es best)"

lemma leads_append: "leads acc es best \<Longrightarrow> leads acc (es @ [e]) best"
  unfolding leads_def by (metis append.assoc append_Cons)

lemma bestOf_step:
  assumes b: "bestOf acc es best"
  shows "bestOf acc (es @ [e]) (negotiateStep acc e best)"
proof (cases "\<exists>q. offeredQuality acc e = Some q \<and> q > snd best")
  case True
  then obtain q where q: "offeredQuality acc e = Some q" "q > snd best" by blast
  have w: "list_all (worse acc q) es"
    using b q(2) by (auto simp: bestOf_def list_all_iff intro: notBetter_worse)
  moreover have "0 < q" using b q(2) by (auto simp: bestOf_def)
  ultimately have "leads acc (es @ [e]) (e, q)"
    unfolding leads_def using q(1) by (intro exI[of _ es] exI[of _ "[]"]) simp
  moreover have "list_all (notBetter acc q) (es @ [e])"
    using w q(1) by (auto simp: list_all_iff worse_notBetter) (simp add: notBetter_def)
  ultimately show ?thesis using b q by (simp add: bestOf_def negotiateStep_def)
next
  case False
  then have "negotiateStep acc e best = best" "notBetter acc (snd best) e"
    by (auto simp: negotiateStep_def notBetter_def split: option.splits)
  then show ?thesis using b by (auto simp: bestOf_def leads_append)
qed

lemma bestOf_fold: "bestOf acc xs best \<Longrightarrow> bestOf acc (xs @ es) (fold (negotiateStep acc) es best)"
proof (induction es arbitrary: xs best)
  case (Cons e es)
  show ?case using Cons.IH[OF bestOf_step[OF Cons.prems, of e]] by simp
qed simp

text \<open>A response is only encoded in a way the client asked for: the encoding chosen is one the
  service offers, with a positive quality in the client's header (by name or by wildcard), no
  offered encoding has a higher one, and among equals the service's own preference decides.
  Nothing is chosen only when no offered encoding has a positive quality.\<close>

theorem negotiate_best:
  fixes parseFloat :: "string \<Rightarrow> rat option" and co :: compressionOptions
  assumes "cpEnabled co" and "acceptEncoding \<noteq> []" and "[] \<notin> set (cp_encodings co)"
  defines "acc \<equiv> parseAcceptEncoding parseFloat acceptEncoding" and "chosen \<equiv> negotiate parseFloat co acceptEncoding"
  shows "if chosen = [] then list_all (notBetter acc 0) (cp_encodings co)
     else \<exists>xs ys q. cp_encodings co = xs @ chosen # ys \<and> offeredQuality acc chosen = Some q \<and> 0 < q
        \<and> list_all (worse acc q) xs \<and> list_all (notBetter acc q) ys"
proof -
  let ?best = "fold (negotiateStep acc) (cp_encodings co) ([], 0)"
  have "bestOf acc [] ([], 0)" by (simp add: bestOf_def)
  then have b: "bestOf acc (cp_encodings co) ?best" using bestOf_fold[of acc "[]" "([], 0)" "cp_encodings co"] by simp
  have ch: "chosen = fst ?best" using assms(1,2) by (simp add: chosen_def negotiate_def acc_def)
  show ?thesis
  proof (cases "?best = ([], 0)")
    case True
    then show ?thesis using b ch by (simp add: bestOf_def)
  next
    case False
    then obtain xs ys where p: "cp_encodings co = xs @ fst ?best # ys" "offeredQuality acc (fst ?best) = Some (snd ?best)"
      "0 < snd ?best" "list_all (worse acc (snd ?best)) xs"
      using b unfolding bestOf_def leads_def by blast
    have ne: "chosen \<noteq> []" using p(1) assms(3) ch by (metis in_set_conv_decomp)
    have "list_all (notBetter acc (snd ?best)) (xs @ fst ?best # ys)" using b p(1) unfolding bestOf_def by metis
    then have "list_all (notBetter acc (snd ?best)) ys" by simp
    with p have "\<exists>xs ys q. cp_encodings co = xs @ chosen # ys \<and> offeredQuality acc chosen = Some q \<and> 0 < q
        \<and> list_all (worse acc q) xs \<and> list_all (notBetter acc q) ys"
      unfolding ch by blast
    then show ?thesis unfolding if_not_P[OF ne] .
  qed
qed

definition exampleFloat :: "string \<Rightarrow> rat option" where
  "exampleFloat s = (if s = ''0.5'' then Some (1 / 2) else if s = ''0'' then Some 0 else None)"

theorem negotiate_best_witness:
  "negotiate exampleFloat \<lparr>cp_encodings = [''gzip'', ''br'', ''zstd''], cp_minLength = 0, cp_contentTypes = []\<rparr> ''gzip;q=0.5, br, *;q=0'' = ''br''
   \<and> (\<exists>xs ys q. [''gzip'', ''br'', ''zstd''] = xs @ ''br'' # ys \<and> offeredQuality (parseAcceptEncoding exampleFloat ''gzip;q=0.5, br, *;q=0'') ''br'' = Some q \<and> 0 < q)"
proof -
  let ?co = "\<lparr>cp_encodings = [''gzip'', ''br'', ''zstd''], cp_minLength = 0, cp_contentTypes = []\<rparr>"
  have "negotiate exampleFloat ?co ''gzip;q=0.5, br, *;q=0'' = ''br''" by code_simp
  then show ?thesis
    using negotiate_best[of ?co "''gzip;q=0.5, br, *;q=0''" exampleFloat] by (auto simp: cpEnabled_def)
qed

end
