(* ===== verification/Cache_Policy.thy ===== *)
theory Cache_Policy
  imports Compression
begin

text \<open>
  What may be cached, for how long, and under which key: \<open>cache_policy.go\<close>, \<open>cache_options.go\<close>,
  \<open>cache_vary.go\<close>, \<open>cache_encoding.go\<close> and the refusals of \<open>cache_refusal.go\<close>. The digest (SHA-256, in
  hexadecimal) is a parameter, as are \<open>strconv.ParseFloat\<close> and the third-party header name check.
  Durations are \<open>int64\<close> nanoseconds, so the product of \<open>parseDeltaSeconds\<close> wraps.
\<close>

section \<open>Options\<close>

definition acceptEncodingHeader :: string where
  "acceptEncodingHeader = ''accept-encoding''"

definition normalizeLowercaseNames :: "string list \<Rightarrow> string list" where
  "normalizeLowercaseNames names = normalizeNames (\<lambda>n. toLower (trimSpace n)) names"

definition normalizeCookieNames :: "string list \<Rightarrow> string list" where
  "normalizeCookieNames names = normalizeNames trimSpace names"

definition normalizeCache :: "cacheOptions \<Rightarrow> cacheOptions" where
  "normalizeCache co = co\<lparr>co_varyHeaders := normalizeLowercaseNames (co_varyHeaders co),
     co_varyCookies := normalizeCookieNames (co_varyCookies co)\<rparr>"

definition validCookieName :: "(string \<Rightarrow> bool) \<Rightarrow> string \<Rightarrow> bool" where
  "validCookieName validName n \<longleftrightarrow> n \<noteq> [] \<and> validName n"

datatype cacheOptionsError = MaxBodyRequiresCache | MaxTTLRequiresCache | VaryHeaderRequiresCache
  | VaryCookieRequiresCache | AllowSetCookieRequiresCache | MaxVariantsRequiresCache
  | NegativeMaxBody | NegativeMaxTTL | InvalidVaryHeader | InvalidVaryCookie

definition validateCache :: "(string \<Rightarrow> bool) \<Rightarrow> cacheOptions \<Rightarrow> cacheOptionsError option" where
  "validateCache validName raw =
     (let co = normalizeCache raw
      in if \<not> co_enabled co then
           (if co_maxBodySize co \<noteq> 0 then Some MaxBodyRequiresCache
            else if co_maxTTL co \<noteq> 0 then Some MaxTTLRequiresCache
            else if co_varyHeaders co \<noteq> [] then Some VaryHeaderRequiresCache
            else if co_varyCookies co \<noteq> [] then Some VaryCookieRequiresCache
            else if co_allowSetCookie co then Some AllowSetCookieRequiresCache
            else if co_maxVariants co \<noteq> 0 then Some MaxVariantsRequiresCache else None)
         else if co_maxBodySize co < 0 then Some NegativeMaxBody
         else if co_maxTTL co < 0 then Some NegativeMaxTTL
         else if \<not> list_all validName (co_varyHeaders co) then Some InvalidVaryHeader
         else if \<not> list_all (validCookieName validName) (co_varyCookies co) then Some InvalidVaryCookie
         else None)"

definition coMaxBodySize :: "cacheOptions \<Rightarrow> int" where
  "coMaxBodySize co = (if co_maxBodySize co \<le> 0 then 8 * 1048576 else co_maxBodySize co)"

definition coversVaryField :: "cacheOptions \<Rightarrow> string \<Rightarrow> bool" where
  "coversVaryField co field \<longleftrightarrow> field \<in> set (co_varyHeaders co)"

definition automaticVary :: "cacheOptions \<Rightarrow> bool" where
  "automaticVary co \<longleftrightarrow> co_maxVariants co \<ge> 0"

definition maxVariants :: "cacheOptions \<Rightarrow> int" where
  "maxVariants co = (if co_maxVariants co \<le> 0 then 32 else co_maxVariants co)"

section \<open>Cache-Control\<close>

record cacheDirectives =
  cd_noStore :: bool
  cd_noCache :: bool
  cd_private :: bool
  cd_public :: bool
  cd_maxAge :: "duration option"
  cd_sMaxAge :: "duration option"
  cd_staleWhileRevalidate :: duration
  cd_mustRevalidate :: bool

definition noDirectives :: cacheDirectives where
  "noDirectives = \<lparr>cd_noStore = False, cd_noCache = False, cd_private = False, cd_public = False,
     cd_maxAge = None, cd_sMaxAge = None, cd_staleWhileRevalidate = 0, cd_mustRevalidate = False\<rparr>"

definition sharedLifetime :: "cacheDirectives \<Rightarrow> duration option" where
  "sharedLifetime cd = (case cd_sMaxAge cd of Some d \<Rightarrow> Some d | None \<Rightarrow> cd_maxAge cd)"

text \<open>The tokens between commas outside quotes: \<open>cur\<close> is the token read so far, reversed.\<close>

fun splitQuoted :: "bool \<Rightarrow> string \<Rightarrow> string \<Rightarrow> string list" where
  "splitQuoted quoted cur [] = [rev cur]"
| "splitQuoted quoted cur (c # cs) =
     (if c = CHR 0x22 then splitQuoted (\<not> quoted) (c # cur) cs
      else if c = CHR '','' \<and> \<not> quoted then rev cur # splitQuoted quoted [] cs
      else splitQuoted quoted (c # cur) cs)"

definition splitCacheControl :: "string \<Rightarrow> string list" where
  "splitCacheControl v = splitQuoted False [] v"

definition parseDeltaSeconds :: "string \<Rightarrow> bool \<Rightarrow> duration option" where
  "parseDeltaSeconds argument hasArgument =
     (if \<not> hasArgument then None
      else case parseInt argument of
             None \<Rightarrow> None
           | Some seconds \<Rightarrow> if seconds < 0 then None else Some (wrap64 (seconds * second)))"

definition applyDirective :: "string \<Rightarrow> cacheDirectives \<Rightarrow> cacheDirectives" where
  "applyDirective token cd = (case cut token ''='' of (rawName, rawArgument, hasArgument) \<Rightarrow>
     let name = toLower (trimSpace rawName);
         seconds = parseDeltaSeconds (trimChar (CHR 0x22) (trimSpace rawArgument)) hasArgument
     in if name = ''no-store'' then cd\<lparr>cd_noStore := True\<rparr>
        else if name = ''no-cache'' then cd\<lparr>cd_noCache := True\<rparr>
        else if name = ''private'' then cd\<lparr>cd_private := True\<rparr>
        else if name = ''public'' then cd\<lparr>cd_public := True\<rparr>
        else if name = ''must-revalidate'' \<or> name = ''proxy-revalidate'' then cd\<lparr>cd_mustRevalidate := True\<rparr>
        else if name = ''max-age'' then (case seconds of None \<Rightarrow> cd | Some d \<Rightarrow> cd\<lparr>cd_maxAge := Some d\<rparr>)
        else if name = ''s-maxage'' then (case seconds of None \<Rightarrow> cd | Some d \<Rightarrow> cd\<lparr>cd_sMaxAge := Some d\<rparr>)
        else if name = ''stale-while-revalidate'' then (case seconds of None \<Rightarrow> cd | Some d \<Rightarrow> cd\<lparr>cd_staleWhileRevalidate := d\<rparr>)
        else cd)"

definition parseCacheControl :: "string list \<Rightarrow> cacheDirectives" where
  "parseCacheControl values = fold applyDirective (concat (map splitCacheControl values)) noDirectives"

section \<open>Which requests use the cache\<close>

definition requestMayUseCache :: "request \<Rightarrow> bool" where
  "requestMayUseCache r =
     (if req_method r \<noteq> ''GET'' \<and> req_method r \<noteq> ''HEAD'' then False
      else if hget (req_header r) ''Authorization'' \<noteq> [] then False
      else if hget (req_header r) ''Range'' \<noteq> [] \<or> hget (req_header r) ''Upgrade'' \<noteq> [] then False
      else \<not> cd_noStore (parseCacheControl (hvalues (req_header r) ''Cache-Control'')))"

definition requestAllowsStoredResponse :: "request \<Rightarrow> bool" where
  "requestAllowsStoredResponse r =
     (if equalFold (trimSpace (hget (req_header r) ''Pragma'')) ''no-cache'' then False
      else let cd = parseCacheControl (hvalues (req_header r) ''Cache-Control'')
           in if cd_noCache cd then False
              else case cd_maxAge cd of None \<Rightarrow> True | Some d \<Rightarrow> d > 0)"

section \<open>Which dimensions a response varies on\<close>

datatype cacheRefusal = RefusalNone | RefusalDisabled | RefusalStatus | RefusalNotPublic | RefusalNoStore
  | RefusalPrivate | RefusalNoCache | RefusalNoLifetime | RefusalSetCookie | RefusalContentRange
  | RefusalContentEncoding | RefusalEventStream | RefusalVary | RefusalVaryUnkeyable | RefusalVaryTooMany
  | RefusalVariantLimit | RefusalHeadRequest | RefusalTooLarge | RefusalHijacked

definition maxVaryFields :: nat where
  "maxVaryFields = 8"

definition unkeyableVaryFields :: "string list" where
  "unkeyableVaryFields = [''authorization'', ''cookie'', ''referer'', ''user-agent'']"

definition keyableEncodings :: "string list" where
  "keyableEncodings = [''br'', ''deflate'', ''gzip'', ''identity'', ''zstd'']"

definition encodingIsKeyable :: "string \<Rightarrow> bool" where
  "encodingIsKeyable ce \<longleftrightarrow> toLower (trimSpace ce) \<in> set keyableEncodings"

definition varyFieldNames :: "header \<Rightarrow> string list" where
  "varyFieldNames h =
     normalizeNames (\<lambda>f. toLower (trimSpace f)) (concat (map (splitAt (CHR '','')) (hvalues h ''Vary'')))"

text \<open>With automatic variants off: every declared field has to be in the primary key already.\<close>

definition varyOld :: "cacheOptions \<Rightarrow> bool \<Rightarrow> string list \<Rightarrow> cacheRefusal" where
  "varyOld co encoded declared =
     (case find (\<lambda>f. f = ''*'' \<or> \<not> (f = acceptEncodingHeader \<and> \<not> encoded) \<and> \<not> coversVaryField co f) declared of
        Some _ \<Rightarrow> RefusalVary
      | None \<Rightarrow> if encoded \<and> \<not> coversVaryField co acceptEncodingHeader then RefusalContentEncoding else RefusalNone)"

fun varyCollect :: "cacheOptions \<Rightarrow> bool \<Rightarrow> string list \<Rightarrow> string list \<Rightarrow> cacheRefusal + string list" where
  "varyCollect co encoded seen [] = Inr seen"
| "varyCollect co encoded seen (f # fs) =
     (if f = ''*'' then Inl RefusalVary
      else if coversVaryField co f then varyCollect co encoded seen fs
      else if f = acceptEncodingHeader \<and> \<not> encoded then varyCollect co encoded seen fs
      else if f \<in> set unkeyableVaryFields then Inl RefusalVaryUnkeyable
      else varyCollect co encoded (seen @ [f]) fs)"

definition varyFieldsFor :: "cacheOptions \<Rightarrow> header \<Rightarrow> cacheRefusal + string list" where
  "varyFieldsFor co h =
     (let declared = varyFieldNames h; encoding = hget h ''Content-Encoding''; encoded = (encoding \<noteq> [])
      in if \<not> automaticVary co then
           (case varyOld co encoded declared of RefusalNone \<Rightarrow> Inr [] | e \<Rightarrow> Inl e)
         else case varyCollect co encoded [] declared of
                Inl e \<Rightarrow> Inl e
              | Inr seen \<Rightarrow>
                  (let missing = (encoded \<and> acceptEncodingHeader \<notin> set seen \<and> \<not> coversVaryField co acceptEncodingHeader);
                       seen' = (if missing then seen @ [acceptEncodingHeader] else seen)
                   in if missing \<and> \<not> encodingIsKeyable encoding then Inl RefusalContentEncoding
                      else if length seen' > maxVaryFields then Inl RefusalVaryTooMany
                      else Inr (sort seen')))"

section \<open>Which responses are stored\<close>

definition cacheableStatuses :: "int list" where
  "cacheableStatuses = [200, 203, 204, 300, 301, 308, 404, 405, 410, 414, 501]"

record cachePolicy =
  cpo_freshFor :: duration
  cpo_staleWhileRevalidate :: duration
  cpo_varyOn :: "string list"

definition responseIsStorable :: "cacheOptions \<Rightarrow> int \<Rightarrow> header \<Rightarrow> cacheRefusal + cachePolicy" where
  "responseIsStorable co statusCode h =
     (let cd = parseCacheControl (hvalues h ''Cache-Control'')
      in if \<not> co_enabled co then Inl RefusalDisabled
         else if statusCode \<notin> set cacheableStatuses then Inl RefusalStatus
         else if cd_noStore cd then Inl RefusalNoStore
         else if cd_private cd then Inl RefusalPrivate
         else if \<not> cd_public cd then Inl RefusalNotPublic
         else if cd_noCache cd then Inl RefusalNoCache
         else case sharedLifetime cd of
                None \<Rightarrow> Inl RefusalNoLifetime
              | Some lifetime \<Rightarrow>
                  (if lifetime \<le> 0 then Inl RefusalNoLifetime
                   else if hget h ''Set-Cookie'' \<noteq> [] \<and> \<not> co_allowSetCookie co then Inl RefusalSetCookie
                   else if hget h ''Content-Range'' \<noteq> [] then Inl RefusalContentRange
                   else if normalizeContentType (hget h ''Content-Type'') = eventStreamContentType then Inl RefusalEventStream
                   else case varyFieldsFor co h of
                          Inl e \<Rightarrow> Inl e
                        | Inr varyOn \<Rightarrow>
                            Inr \<lparr>cpo_freshFor = (if co_maxTTL co > 0 \<and> lifetime > co_maxTTL co then co_maxTTL co else lifetime),
                                 cpo_staleWhileRevalidate = (if cd_mustRevalidate cd then 0 else cd_staleWhileRevalidate cd),
                                 cpo_varyOn = varyOn\<rparr>))"

section \<open>Keys\<close>

definition joinHeaderValues :: "request \<Rightarrow> string \<Rightarrow> string" where
  "joinHeaderValues r name = joinWith '', '' (hvalues (req_header r) name)"

text \<open>A coding is usable if the client names it with a positive quality; identity also when it says
  nothing about it, the others when its wildcard has one.\<close>

definition normalizeAcceptEncoding :: "(string \<Rightarrow> rat option) \<Rightarrow> string \<Rightarrow> string" where
  "normalizeAcceptEncoding parseFloat h =
     (case parseAcceptEncoding parseFloat h of (accepted, wildcard) \<Rightarrow>
        joinWith '','' (filter (\<lambda>e. case map_of accepted e of
            Some q \<Rightarrow> q > 0
          | None \<Rightarrow> e = ''identity'' \<or> (case wildcard of Some w \<Rightarrow> w > 0 | None \<Rightarrow> False)) keyableEncodings))"

definition clientAcceptsEncoding :: "(string \<Rightarrow> rat option) \<Rightarrow> request \<Rightarrow> string \<Rightarrow> bool" where
  "clientAcceptsEncoding parseFloat r ce =
     (let coding = toLower (trimSpace ce)
      in if coding = [] \<or> coding = ''identity'' then True
         else case parseAcceptEncoding parseFloat (joinHeaderValues r ''Accept-Encoding'') of (accepted, wildcard) \<Rightarrow>
           (case map_of accepted coding of
              Some q \<Rightarrow> q > 0
            | None \<Rightarrow> (case wildcard of Some w \<Rightarrow> w > 0 | None \<Rightarrow> False)))"

definition keyValueFor :: "(string \<Rightarrow> rat option) \<Rightarrow> request \<Rightarrow> string \<Rightarrow> string" where
  "keyValueFor parseFloat r name =
     (let v = joinHeaderValues r name
      in if name = acceptEncodingHeader then normalizeAcceptEncoding parseFloat v else v)"

text \<open>The big-endian \<open>uint64\<close> length and the bytes.\<close>

definition bigEndian64 :: "int \<Rightarrow> string" where
  "bigEndian64 n = map (\<lambda>i. char_of (nat (n div 256 ^ (7 - i) mod 256))) [0..<8]"

definition writeKeyField :: "string \<Rightarrow> string" where
  "writeKeyField v = bigEndian64 (int (length v)) @ v"

definition cacheKeyVersion :: string where
  "cacheKeyVersion = ''2''"

definition keyFields :: "(string \<Rightarrow> rat option) \<Rightarrow> string \<Rightarrow> string \<Rightarrow> request \<Rightarrow> cacheOptions \<Rightarrow> string list" where
  "keyFields parseFloat serviceName variant r co =
     [cacheKeyVersion, serviceName, variant, if req_tls r then ''https'' else ''http'', req_host r, req_path r, req_raw_query r]
     @ concat (map (\<lambda>n. [n, keyValueFor parseFloat r n]) (co_varyHeaders co))
     @ concat (map (\<lambda>n. [n, case cookie r n of Some v \<Rightarrow> v | None \<Rightarrow> []]) (co_varyCookies co))"

definition cacheKey ::
  "(string \<Rightarrow> string) \<Rightarrow> (string \<Rightarrow> rat option) \<Rightarrow> string \<Rightarrow> string \<Rightarrow> request \<Rightarrow> cacheOptions \<Rightarrow> string" where
  "cacheKey digest parseFloat serviceName variant r co =
     ''kp:c:'' @ serviceName @ '':'' @ digest (concat (map writeKeyField (keyFields parseFloat serviceName variant r co)))"

section \<open>Keys keep requests apart\<close>

lemma base256_mod_eq:
  fixes a b :: int
  assumes "\<And>k. k < m \<Longrightarrow> a div 256 ^ k mod 256 = b div 256 ^ k mod 256"
  shows "a mod 256 ^ m = b mod 256 ^ m"
  using assms
proof (induction m)
  case (Suc m)
  have split: "x mod (256 ^ m * 256) = 256 ^ m * (x div 256 ^ m mod 256) + x mod 256 ^ m" for x :: int
    by (rule zmod_zmult2_eq) simp
  show ?case using Suc split[of a] split[of b] by (simp add: mult.commute)
qed simp

lemma char_of_byte_inj:
  assumes "char_of (nat (x mod 256)) = (char_of (nat (y mod 256)) :: char)"
  shows "x mod 256 = (y :: int) mod 256"
proof -
  have "(of_char (char_of (nat (x mod 256)) :: char) :: nat) = of_char (char_of (nat (y mod 256)) :: char)"
    using assms by simp
  then have "nat (x mod 256) mod 256 = nat (y mod 256) mod 256" by (simp only: of_char_of)
  moreover have "nat (z mod 256) < 256" for z :: int by (simp add: nat_less_iff)
  ultimately have "nat (x mod 256) = nat (y mod 256)" by simp
  then show ?thesis by (simp add: eq_nat_nat_iff)
qed

lemma bigEndian64_nth:
  "k < 8 \<Longrightarrow> bigEndian64 n ! (7 - k) = char_of (nat (n div 256 ^ k mod 256))"
  unfolding bigEndian64_def by (subst nth_map) (simp_all add: nth_upt del: upt_rec_numeral)

lemma bigEndian64_inj:
  assumes "bigEndian64 a = bigEndian64 b" and "0 \<le> a" "a < 2 ^ 64" "0 \<le> b" "b < 2 ^ 64"
  shows "a = b"
proof -
  have "a div 256 ^ k mod 256 = b div 256 ^ k mod 256" if "k < 8" for k
    by (rule char_of_byte_inj) (metis assms(1) bigEndian64_nth that)
  then have "a mod 256 ^ 8 = b mod 256 ^ 8" by (rule base256_mod_eq)
  then show ?thesis using assms(2-5) by simp
qed

lemma bigEndian64_length [simp]: "length (bigEndian64 n) = 8"
  by (simp add: bigEndian64_def)

lemma writeKeyField_append_inj:
  assumes "writeKeyField v @ s = writeKeyField w @ t"
    and "length v < 2 ^ 64" "length w < 2 ^ 64"
  shows "v = w \<and> s = t"
proof -
  from assms(1) have be: "bigEndian64 (int (length v)) = bigEndian64 (int (length w))" and rest: "v @ s = w @ t"
    by (simp_all add: writeKeyField_def)
  have "int (length v) = int (length w)"
    by (rule bigEndian64_inj[OF be]) (use assms(2,3) in \<open>simp_all add: of_nat_less_iff[of _ "2 ^ 64", simplified]\<close>)
  then show ?thesis using rest by simp
qed

lemma writeKeyFields_inj:
  assumes "concat (map writeKeyField vs) = concat (map writeKeyField ws)"
    and "\<forall>v \<in> set vs \<union> set ws. length v < 2 ^ 64"
  shows "vs = ws"
  using assms
proof (induction vs arbitrary: ws)
  case Nil
  then show ?case by (cases ws) (auto simp: writeKeyField_def dest: arg_cong[where f = length])
next
  case (Cons v vs)
  then obtain w ws' where ws: "ws = w # ws'"
    by (cases ws) (auto simp: writeKeyField_def dest: arg_cong[where f = length])
  then have "v = w \<and> concat (map writeKeyField vs) = concat (map writeKeyField ws')"
    using Cons.prems by (intro writeKeyField_append_inj) auto
  then show ?case using Cons.IH[of ws'] Cons.prems(2) ws by auto
qed

lemma concat_pairs_inj:
  "concat (map (\<lambda>n. [n, f n]) ns) = concat (map (\<lambda>n. [n, g n]) ns) \<Longrightarrow> n \<in> set ns \<Longrightarrow> f n = g n"
  by (induction ns) auto

lemma keyFields_inj:
  assumes "keyFields pf svc var r co = keyFields pf svc' var' r' co"
  shows "svc = svc' \<and> var = var' \<and> req_tls r = req_tls r' \<and> req_host r = req_host r' \<and> req_path r = req_path r'
    \<and> req_raw_query r = req_raw_query r'
    \<and> (\<forall>n \<in> set (co_varyHeaders co). keyValueFor pf r n = keyValueFor pf r' n)
    \<and> (\<forall>n \<in> set (co_varyCookies co).
         (case cookie r n of Some v \<Rightarrow> v | None \<Rightarrow> []) = (case cookie r' n of Some v \<Rightarrow> v | None \<Rightarrow> []))"
proof -
  have len: "length (concat (map (\<lambda>n. [n, f n]) ns)) = 2 * length ns" for f :: "string \<Rightarrow> string" and ns
    by (induction ns) auto
  let ?h = "\<lambda>r. concat (map (\<lambda>n. [n, keyValueFor pf r n]) (co_varyHeaders co))"
  let ?c = "\<lambda>r. concat (map (\<lambda>n. [n, case cookie r n of Some v \<Rightarrow> v | None \<Rightarrow> []]) (co_varyCookies co))"
  from assms have fixed: "svc = svc' \<and> var = var' \<and> req_tls r = req_tls r' \<and> req_host r = req_host r'
      \<and> req_path r = req_path r' \<and> req_raw_query r = req_raw_query r'" and "?h r @ ?c r = ?h r' @ ?c r'"
    by (auto simp: keyFields_def split: if_splits)
  then have "?h r = ?h r'" and "?c r = ?c r'" using len by (auto simp: append_eq_append_conv)
  then have "\<forall>n \<in> set (co_varyHeaders co). keyValueFor pf r n = keyValueFor pf r' n"
    and "\<forall>n \<in> set (co_varyCookies co).
         (case cookie r n of Some v \<Rightarrow> v | None \<Rightarrow> []) = (case cookie r' n of Some v \<Rightarrow> v | None \<Rightarrow> [])"
    using concat_pairs_inj[of "keyValueFor pf r" "co_varyHeaders co" "keyValueFor pf r'"]
      concat_pairs_inj[of "\<lambda>n. case cookie r n of Some v \<Rightarrow> v | None \<Rightarrow> []" "co_varyCookies co"
        "\<lambda>n. case cookie r' n of Some v \<Rightarrow> v | None \<Rightarrow> []"] by blast+
  with fixed show ?thesis by blast
qed

definition keyPreimage :: "(string \<Rightarrow> rat option) \<Rightarrow> string \<Rightarrow> string \<Rightarrow> request \<Rightarrow> cacheOptions \<Rightarrow> string" where
  "keyPreimage pf svc var r co = concat (map writeKeyField (keyFields pf svc var r co))"

text \<open>C37: Two requests share a cache key only if nothing the key is built from tells them apart: provided the
  digest prints 64 digits and does not collide on the two encodings and every field is shorter than 2 to the 64 bytes, equal keys
  mean the same service, variant, scheme, host, path and query and the same value of every header and cookie
  the service's cache varies on. The length prefixes make the encoding of the fields injective.\<close>

theorem cacheKey_separates:
  assumes "inj_on digest {keyPreimage pf svc var r co, keyPreimage pf svc' var' r' co}"
    and "\<forall>v \<in> set (keyFields pf svc var r co) \<union> set (keyFields pf svc' var' r' co). length v < 2 ^ 64"
    and "\<And>x. length (digest x) = 64"
    and "cacheKey digest pf svc var r co = cacheKey digest pf svc' var' r' co"
  shows "svc = svc' \<and> var = var' \<and> req_tls r = req_tls r' \<and> req_host r = req_host r' \<and> req_path r = req_path r'
    \<and> req_raw_query r = req_raw_query r'
    \<and> (\<forall>n \<in> set (co_varyHeaders co). keyValueFor pf r n = keyValueFor pf r' n)
    \<and> (\<forall>n \<in> set (co_varyCookies co).
         (case cookie r n of Some v \<Rightarrow> v | None \<Rightarrow> []) = (case cookie r' n of Some v \<Rightarrow> v | None \<Rightarrow> []))"
proof -
  have "(svc @ '':'') @ digest (keyPreimage pf svc var r co) = (svc' @ '':'') @ digest (keyPreimage pf svc' var' r' co)"
    using assms(4) by (simp add: cacheKey_def keyPreimage_def)
  then have "digest (keyPreimage pf svc var r co) = digest (keyPreimage pf svc' var' r' co)"
    using assms(3) append_eq_append_conv by metis
  then have "keyPreimage pf svc var r co = keyPreimage pf svc' var' r' co"
    using assms(1) by (auto dest: inj_onD)
  then have "keyFields pf svc var r co = keyFields pf svc' var' r' co"
    using writeKeyFields_inj[OF _ assms(2)] by (simp add: keyPreimage_def)
  then show ?thesis using keyFields_inj by blast
qed

definition cacheSampleOptions :: cacheOptions where
  "cacheSampleOptions = \<lparr>co_enabled = True, co_maxBodySize = 0, co_maxTTL = 3600 * second,
     co_varyHeaders = [''accept-language''], co_varyCookies = [''tier''], co_allowSetCookie = False, co_maxVariants = 0\<rparr>"

definition cacheSampleRequest :: "string \<Rightarrow> request" where
  "cacheSampleRequest agent = emptyRequest\<lparr>req_host := ''a.test'', req_path := ''/x'',
     req_header := [(''Accept-Language'', [''de'']), (''User-Agent'', [agent])]\<rparr>"

theorem cacheKey_separates_witness:
  "req_host (cacheSampleRequest ''curl'') = req_host (cacheSampleRequest ''wget'')
   \<and> keyValueFor (\<lambda>_. None) (cacheSampleRequest ''curl'') ''accept-language''
       = keyValueFor (\<lambda>_. None) (cacheSampleRequest ''wget'') ''accept-language''"
proof -
  let ?d = "\<lambda>x. take 64 (rev x @ replicate 64 (CHR ''0''))"
  have f: "keyFields (\<lambda>_. None) ''web'' [] (cacheSampleRequest ''curl'') cacheSampleOptions
      = [''2'', ''web'', [], ''http'', ''a.test'', ''/x'', [], ''accept-language'', ''de'', ''tier'', []]"
    and g: "keyFields (\<lambda>_. None) ''web'' [] (cacheSampleRequest ''wget'') cacheSampleOptions
      = [''2'', ''web'', [], ''http'', ''a.test'', ''/x'', [], ''accept-language'', ''de'', ''tier'', []]"
    by code_simp+
  have "''accept-language'' \<in> set (co_varyHeaders cacheSampleOptions)" by (simp add: cacheSampleOptions_def)
  then show ?thesis
    using cacheKey_separates[of ?d "\<lambda>_. None" "''web''" "[]" "cacheSampleRequest ''curl''" cacheSampleOptions "''web''" "[]"
        "cacheSampleRequest ''wget''"]
    by (simp add: keyPreimage_def cacheKey_def f g)
qed

section \<open>Only what the origin offered is stored\<close>

text \<open>The directive names of a Cache-Control field, as a list of lower-case names.\<close>

definition directiveName :: "string \<Rightarrow> string" where
  "directiveName token = toLower (trimSpace (fst (cut token ''='')))"

definition directiveNames :: "string list \<Rightarrow> string list" where
  "directiveNames values = map directiveName (concat (map splitCacheControl values))"

lemma applyDirective_flags:
  "cd_noStore (applyDirective t cd) \<longleftrightarrow> cd_noStore cd \<or> directiveName t = ''no-store''"
  "cd_noCache (applyDirective t cd) \<longleftrightarrow> cd_noCache cd \<or> directiveName t = ''no-cache''"
  "cd_private (applyDirective t cd) \<longleftrightarrow> cd_private cd \<or> directiveName t = ''private''"
  "cd_public (applyDirective t cd) \<longleftrightarrow> cd_public cd \<or> directiveName t = ''public''"
  "cd_mustRevalidate (applyDirective t cd) \<longleftrightarrow>
     cd_mustRevalidate cd \<or> directiveName t = ''must-revalidate'' \<or> directiveName t = ''proxy-revalidate''"
  by (auto simp: applyDirective_def directiveName_def Let_def split: prod.splits option.splits)

lemma fold_flag:
  assumes "\<And>t cd. P (f t cd) \<longleftrightarrow> P cd \<or> Q t"
  shows "P (fold f ts cd) \<longleftrightarrow> P cd \<or> (\<exists>t \<in> set ts. Q t)"
  by (induction ts arbitrary: cd) (auto simp: assms)

lemma fold_applyDirective_flags:
  "cd_noStore (fold applyDirective ts cd) \<longleftrightarrow> cd_noStore cd \<or> ''no-store'' \<in> directiveName ` set ts"
  "cd_noCache (fold applyDirective ts cd) \<longleftrightarrow> cd_noCache cd \<or> ''no-cache'' \<in> directiveName ` set ts"
  "cd_private (fold applyDirective ts cd) \<longleftrightarrow> cd_private cd \<or> ''private'' \<in> directiveName ` set ts"
  "cd_public (fold applyDirective ts cd) \<longleftrightarrow> cd_public cd \<or> ''public'' \<in> directiveName ` set ts"
  "cd_mustRevalidate (fold applyDirective ts cd) \<longleftrightarrow> cd_mustRevalidate cd
     \<or> ''must-revalidate'' \<in> directiveName ` set ts \<or> ''proxy-revalidate'' \<in> directiveName ` set ts"
  by (simp_all add: fold_flag[where P = cd_noStore and f = applyDirective, OF applyDirective_flags(1)]
      fold_flag[where P = cd_noCache and f = applyDirective, OF applyDirective_flags(2)]
      fold_flag[where P = cd_private and f = applyDirective, OF applyDirective_flags(3)]
      fold_flag[where P = cd_public and f = applyDirective, OF applyDirective_flags(4)]
      fold_flag[where P = cd_mustRevalidate and f = applyDirective, OF applyDirective_flags(5)]
      image_iff eq_commute bex_disj_distrib)

lemma parseCacheControl_flags:
  "cd_noStore (parseCacheControl vs) \<longleftrightarrow> ''no-store'' \<in> set (directiveNames vs)"
  "cd_noCache (parseCacheControl vs) \<longleftrightarrow> ''no-cache'' \<in> set (directiveNames vs)"
  "cd_private (parseCacheControl vs) \<longleftrightarrow> ''private'' \<in> set (directiveNames vs)"
  "cd_public (parseCacheControl vs) \<longleftrightarrow> ''public'' \<in> set (directiveNames vs)"
  "cd_mustRevalidate (parseCacheControl vs) \<longleftrightarrow>
     ''must-revalidate'' \<in> set (directiveNames vs) \<or> ''proxy-revalidate'' \<in> set (directiveNames vs)"
  by (simp_all only: parseCacheControl_def fold_applyDirective_flags directiveNames_def set_map)
     (simp_all add: noDirectives_def)

lemma responseIsStorable_inv:
  assumes "responseIsStorable co statusCode h = Inr p"
  defines "cd \<equiv> parseCacheControl (hvalues h ''Cache-Control'')"
  obtains lifetime where "co_enabled co" "statusCode \<in> set cacheableStatuses"
    "\<not> cd_noStore cd" "\<not> cd_private cd" "cd_public cd" "\<not> cd_noCache cd"
    "sharedLifetime cd = Some lifetime" "0 < lifetime"
    "hget h ''Set-Cookie'' = [] \<or> co_allowSetCookie co" "hget h ''Content-Range'' = []"
    "normalizeContentType (hget h ''Content-Type'') \<noteq> eventStreamContentType"
    "varyFieldsFor co h = Inr (cpo_varyOn p)"
    "cpo_freshFor p = (if 0 < co_maxTTL co then min lifetime (co_maxTTL co) else lifetime)"
    "cd_mustRevalidate cd \<Longrightarrow> cpo_staleWhileRevalidate p = 0"
  using assms(1) unfolding responseIsStorable_def cd_def[symmetric] Let_def
  by (auto simp: min_def split: if_split_asm option.split_asm sum.split_asm)

text \<open>C36: A response is stored only when the origin offered it to a shared cache: caching is on, the status is
  one of the cacheable ones, its Cache-Control names public and none of private, no-store and no-cache, the
  lifetime it is kept for is positive, at most the one declared and at most the service's limit, it sets no
  cookie unless the service allows that, it is neither a range nor an event stream, and no stale window is kept
  for a response that must be revalidated.\<close>

theorem stored_only_if_offered:
  assumes "responseIsStorable co statusCode h = Inr p"
  shows "co_enabled co \<and> statusCode \<in> set cacheableStatuses
    \<and> (let names = set (directiveNames (hvalues h ''Cache-Control''))
       in ''public'' \<in> names \<and> names \<inter> {''private'', ''no-store'', ''no-cache''} = {}
          \<and> (names \<inter> {''must-revalidate'', ''proxy-revalidate''} = {} \<or> cpo_staleWhileRevalidate p = 0))
    \<and> (\<exists>lifetime. sharedLifetime (parseCacheControl (hvalues h ''Cache-Control'')) = Some lifetime
         \<and> 0 < cpo_freshFor p \<and> cpo_freshFor p = (if 0 < co_maxTTL co then min lifetime (co_maxTTL co) else lifetime))
    \<and> (hget h ''Set-Cookie'' = [] \<or> co_allowSetCookie co) \<and> hget h ''Content-Range'' = []
    \<and> normalizeContentType (hget h ''Content-Type'') \<noteq> eventStreamContentType
    \<and> varyFieldsFor co h = Inr (cpo_varyOn p)"
proof (rule responseIsStorable_inv[OF assms], intro conjI, goal_cases)
  case (3 lifetime)
  then show ?case by (simp only: Let_def parseCacheControl_flags) blast
qed (auto simp: min_def)

definition cacheSampleResponse :: header where
  "cacheSampleResponse = [(''Cache-Control'', [''public, max-age=60'', ''stale-while-revalidate=30'']),
     (''Vary'', [''Accept-Language, X-Region'']), (''Content-Encoding'', [''gzip''])]"

lemma cacheSample_storable:
  "responseIsStorable cacheSampleOptions 200 cacheSampleResponse
     = Inr \<lparr>cpo_freshFor = 60000000000, cpo_staleWhileRevalidate = 30000000000, cpo_varyOn = [''accept-encoding'', ''x-region'']\<rparr>"
  unfolding responseIsStorable_def cacheSampleResponse_def cacheSampleOptions_def
  by code_simp

lemma stored_vary: "responseIsStorable co st h = Inr p \<Longrightarrow> varyFieldsFor co h = Inr (cpo_varyOn p)"
  by (rule responseIsStorable_inv)

theorem stored_only_if_offered_witness:
  "''public'' \<in> set (directiveNames (hvalues cacheSampleResponse ''Cache-Control''))"
  using stored_only_if_offered[OF cacheSample_storable] by (simp add: Let_def)

section \<open>Every declared dimension is keyed\<close>

lemma varyCollect_sound:
  assumes "varyCollect co encoded seen fs = Inr out" and "set seen \<inter> set unkeyableVaryFields = {}"
  shows "set seen \<subseteq> set out \<and> set out \<inter> set unkeyableVaryFields = {} \<and> set out \<subseteq> set seen \<union> set fs
    \<and> (\<forall>f \<in> set fs. f \<noteq> ''*'' \<and> (f \<in> set out \<or> coversVaryField co f \<or> f = acceptEncodingHeader \<and> \<not> encoded))"
  using assms
proof (induction fs arbitrary: seen)
  case (Cons f fs)
  have nf: "f \<noteq> ''*''" using Cons.prems(1) by auto
  show ?case
  proof (cases "coversVaryField co f \<or> f = acceptEncodingHeader \<and> \<not> encoded")
    case True
    then have "varyCollect co encoded seen fs = Inr out" using Cons.prems(1) nf by (auto split: if_split_asm)
    from Cons.IH[OF this Cons.prems(2)] True nf show ?thesis by (simp only: list.set ball_simps) blast
  next
    case False
    then have rest: "varyCollect co encoded (seen @ [f]) fs = Inr out" and "f \<notin> set unkeyableVaryFields"
      using Cons.prems(1) nf by (auto split: if_split_asm)
    then have "set (seen @ [f]) \<inter> set unkeyableVaryFields = {}" using Cons.prems(2) by auto
    from Cons.IH[OF rest this] nf show ?thesis by (simp only: set_append list.set ball_simps) blast
  qed
qed auto

lemma acceptEncoding_keyable: "acceptEncodingHeader \<notin> set unkeyableVaryFields"
  by (simp add: acceptEncodingHeader_def unkeyableVaryFields_def)

text \<open>When the proxy agrees to store a response that varies, no declared dimension is lost: no field is the
  wildcard, each field is either collected, already part of the service's key, or an Accept-Encoding that does
  not matter because the body is not encoded; an encoded body is always told apart by Accept-Encoding. The
  collected fields are sorted, at most eight, and none of them is one of the fields that would give every client
  its own copy.\<close>

theorem vary_fields_complete:
  assumes "varyFieldsFor co h = Inr fs"
  defines "encoded \<equiv> hget h ''Content-Encoding'' \<noteq> []"
  shows "(\<forall>f \<in> set (varyFieldNames h). f \<noteq> ''*''
           \<and> (f \<in> set fs \<or> coversVaryField co f \<or> f = acceptEncodingHeader \<and> \<not> encoded))
    \<and> (encoded \<longrightarrow> acceptEncodingHeader \<in> set fs \<or> coversVaryField co acceptEncodingHeader)
    \<and> sorted fs \<and> length fs \<le> maxVaryFields \<and> set fs \<inter> set unkeyableVaryFields = {}"
proof (cases "automaticVary co")
  case False
  then have "varyOld co encoded (varyFieldNames h) = RefusalNone" and "fs = []"
    using assms(1) by (auto simp: varyFieldsFor_def Let_def encoded_def split: cacheRefusal.split_asm)
  then show ?thesis
    by (auto simp: varyOld_def find_None_iff split: option.split_asm if_split_asm)
next
  case True
  define missing where "missing seen \<longleftrightarrow> encoded \<and> acceptEncodingHeader \<notin> set seen \<and> \<not> coversVaryField co acceptEncodingHeader" for seen
  from True assms(1) obtain seen where seen: "varyCollect co encoded [] (varyFieldNames h) = Inr seen"
    and fs: "fs = sort (if missing seen then seen @ [acceptEncodingHeader] else seen)" and len: "length fs \<le> maxVaryFields"
    by (auto simp: varyFieldsFor_def Let_def missing_def encoded_def split: sum.split_asm if_split_asm)
  have "set fs = set seen \<union> (if missing seen then {acceptEncodingHeader} else {})" using fs by simp
  then show ?thesis using varyCollect_sound[OF seen] len fs acceptEncoding_keyable by (auto simp: missing_def)
qed

theorem vary_fields_complete_witness:
  "sorted [''accept-encoding'', ''x-region'']
   \<and> set (varyFieldNames cacheSampleResponse) \<subseteq> {''accept-encoding'', ''x-region'', ''accept-language''}"
proof -
  have "varyFieldsFor cacheSampleOptions cacheSampleResponse = Inr [''accept-encoding'', ''x-region'']"
    using stored_vary[OF cacheSample_storable] by simp
  from vary_fields_complete[OF this] show ?thesis
    by (auto simp: coversVaryField_def cacheSampleOptions_def acceptEncodingHeader_def)
qed

section \<open>Delta seconds wrap\<close>

text \<open>\<open>parseDeltaSeconds\<close> multiplies an \<open>int64\<close> number of seconds by a second's nanoseconds without a range
  check: a max-age of about 585 years is read as less than a third of a second, and one of 300 years as a
  negative lifetime, so the response is refused for having none.\<close>

theorem parseDeltaSeconds_wraps:
  "parseDeltaSeconds ''18446744074'' True = Some 290448384
   \<and> parseDeltaSeconds ''9467280000'' True = Some (- 8979464073709551616)
   \<and> responseIsStorable cacheSampleOptions 200 [(''Cache-Control'', [''public, max-age=9467280000''])] = Inl RefusalNoLifetime"
proof (intro conjI)
  show long: "parseDeltaSeconds ''18446744074'' True = Some 290448384"
    and neg: "parseDeltaSeconds ''9467280000'' True = Some (- 8979464073709551616)"
    by (simp_all add: parseDeltaSeconds_def parseInt_def parseDigits_def digitVal_def Let_def hasPrefix_def wrap64_def
        second_def min_int64_def max_int64_def)
  have tokens: "splitCacheControl ''public, max-age=9467280000'' = [''public'', '' max-age=9467280000'']"
    and first: "applyDirective ''public'' noDirectives = noDirectives\<lparr>cd_public := True\<rparr>"
    and cutAt: "cut '' max-age=9467280000'' ''='' = ('' max-age'', ''9467280000'', True)"
    and name: "toLower (trimSpace '' max-age'') = ''max-age''"
    and arg: "trimChar (CHR 0x22) (trimSpace ''9467280000'') = ''9467280000''"
    and vals: "hvalues [(''Cache-Control'', [''public, max-age=9467280000''])] ''Cache-Control'' = [''public, max-age=9467280000'']"
    by code_simp+
  have "parseCacheControl [''public, max-age=9467280000'']
      = noDirectives\<lparr>cd_public := True, cd_maxAge := Some (- 8979464073709551616)\<rparr>"
    by (simp add: parseCacheControl_def tokens first applyDirective_def[of "'' max-age=9467280000''"] cutAt name arg neg)
  then show "responseIsStorable cacheSampleOptions 200 [(''Cache-Control'', [''public, max-age=9467280000''])] = Inl RefusalNoLifetime"
    by (simp add: responseIsStorable_def vals cacheSampleOptions_def cacheableStatuses_def noDirectives_def sharedLifetime_def)
qed

end
