(* ===== verification/Urls.thy ===== *)
theory Urls
  imports Http
begin

text \<open>
  What the sources use of \<open>net/url\<close> and \<open>encoding/hex\<close>: hexadecimal digits, path escaping, a URL's escaped path, its
  string form and its request URI. A parsed URL keeps its user information and its fragment in the form
  they are printed in.
\<close>

section \<open>Hexadecimal\<close>

definition unhex :: "char \<Rightarrow> nat option" where
  "unhex c = (let n = of_char c :: nat
     in if 48 \<le> n \<and> n \<le> 57 then Some (n - 48)
        else if 97 \<le> n \<and> n \<le> 102 then Some (n - 87)
        else if 65 \<le> n \<and> n \<le> 70 then Some (n - 55) else None)"

definition lowerHexDigit :: "nat \<Rightarrow> char" where
  "lowerHexDigit d = ''0123456789abcdef'' ! d"

definition upperHexDigit :: "nat \<Rightarrow> char" where
  "upperHexDigit d = ''0123456789ABCDEF'' ! d"

definition encodeHex :: "string \<Rightarrow> string" where
  "encodeHex s = concat (map (\<lambda>c. let n = of_char c :: nat in [lowerHexDigit (n div 16), lowerHexDigit (n mod 16)]) s)"

fun decodeHex :: "string \<Rightarrow> string option" where
  "decodeHex [] = Some []"
| "decodeHex [c] = None"
| "decodeHex (a # b # cs) = (case (unhex a, unhex b) of
     (Some x, Some y) \<Rightarrow> map_option (\<lambda>s. char_of (16 * x + y) # s) (decodeHex cs)
   | _ \<Rightarrow> None)"

lemma hexDigits_all:
  "list_all (\<lambda>d. unhex (lowerHexDigit d) = Some d \<and> unhex (upperHexDigit d) = Some d) [0..<16]"
  by code_simp

lemma unhex_digit: "d < 16 \<Longrightarrow> unhex (lowerHexDigit d) = Some d" "d < 16 \<Longrightarrow> unhex (upperHexDigit d) = Some d"
  using hexDigits_all by (simp_all add: list_all_iff)

lemma of_char_byte: "(of_char (c :: char) :: nat) < 256"
  by simp

lemma nibbles: "16 * (n div 16) + n mod 16 = (n :: nat)" "n < 256 \<Longrightarrow> n div 16 < (16 :: nat)"
  by simp_all

lemma char_of_nibbles: "char_of (16 * (of_char c div 16) + of_char c mod 16 :: nat) = (c :: char)"
  by simp

lemma decodeHex_encodeHex [simp]: "decodeHex (encodeHex s) = Some s"
  unfolding encodeHex_def
  by (induction s) (simp_all add: Let_def unhex_digit nibbles(2)[OF of_char_byte])

lemma length_encodeHex [simp]: "length (encodeHex s) = 2 * length s"
  unfolding encodeHex_def by (induction s) (simp_all add: Let_def)

lemma lowerHexDigits_all: "list_all (\<lambda>d. lowerHexDigit d \<in> set ''0123456789abcdef'') [0..<16]"
  by code_simp

lemma lowerHexDigit_in: "d < 16 \<Longrightarrow> lowerHexDigit d \<in> set ''0123456789abcdef''"
  using lowerHexDigits_all by (simp only: list_all_iff set_upt atLeastLessThan_iff) simp

lemma set_encodeHex: "set (encodeHex s) \<subseteq> set ''0123456789abcdef''"
proof -
  have "set [lowerHexDigit (of_char c div 16), lowerHexDigit (of_char c mod 16)] \<subseteq> set ''0123456789abcdef''" for c :: char
    using lowerHexDigit_in[OF nibbles(2)[OF of_char_byte[of c]]] lowerHexDigit_in[of "of_char c mod 16"] by auto
  then show ?thesis unfolding encodeHex_def Let_def by (simp only: set_concat set_map) blast
qed

section \<open>Path escaping\<close>

definition alnumChar :: "char \<Rightarrow> bool" where
  "alnumChar c \<longleftrightarrow> (let n = of_char c :: nat in 48 \<le> n \<and> n \<le> 57 \<or> 65 \<le> n \<and> n \<le> 90 \<or> 97 \<le> n \<and> n \<le> 122)"

text \<open>\<open>shouldEscape\<close> in the modes \<open>encodePath\<close> and \<open>encodeHost\<close>.\<close>

definition escapeInPath :: "char \<Rightarrow> bool" where
  "escapeInPath c \<longleftrightarrow> \<not> (alnumChar c \<or> c \<in> set ''-_.~$&+,/:;=@'')"

definition escapeInHost :: "char \<Rightarrow> bool" where
  "escapeInHost c \<longleftrightarrow> \<not> (alnumChar c \<or> c \<in> set ''!$&()*+,;=:[]<>-_.~'' \<or> c = CHR 0x27 \<or> c = CHR 0x22)"

definition percentEncode :: "char \<Rightarrow> string" where
  "percentEncode c = (let n = of_char c :: nat in [CHR ''%'', upperHexDigit (n div 16), upperHexDigit (n mod 16)])"

definition escapeBy :: "(char \<Rightarrow> bool) \<Rightarrow> string \<Rightarrow> string" where
  "escapeBy P s = concat (map (\<lambda>c. if P c then percentEncode c else [c]) s)"

fun unescapePath :: "string \<Rightarrow> string option" where
  "unescapePath [] = Some []"
| "unescapePath (c # cs) =
     (if c \<noteq> CHR ''%'' then map_option (\<lambda>s. c # s) (unescapePath cs)
      else case cs of
             a # b # ds \<Rightarrow>
               (case (unhex a, unhex b) of
                  (Some x, Some y) \<Rightarrow> map_option (\<lambda>s. char_of (16 * x + y) # s) (unescapePath ds)
                | _ \<Rightarrow> None)
           | _ \<Rightarrow> None)"

definition validEncodedPath :: "string \<Rightarrow> bool" where
  "validEncodedPath s \<longleftrightarrow> list_all (\<lambda>c. c \<in> set ''!$&()*+,;=:@[]%'' \<or> c = CHR 0x27 \<or> \<not> escapeInPath c) s"

lemma percent_escaped: "escapeInPath (CHR ''%'')"
  by code_simp

lemma unescape_escape [simp]: "unescapePath (escapeBy escapeInPath s) = Some s"
  unfolding escapeBy_def
proof (induction s)
  case (Cons c s)
  then show ?case
    using percent_escaped by (auto simp: percentEncode_def Let_def unhex_digit nibbles(2)[OF of_char_byte])
qed simp

section \<open>URLs\<close>

record url =
  u_scheme :: string
  u_user :: "string option"
  u_host :: string
  u_path :: string
  u_rawPath :: string
  u_rawQuery :: string
  u_forceQuery :: bool
  u_fragment :: string

definition zeroURL :: url where
  "zeroURL = \<lparr>u_scheme = [], u_user = None, u_host = [], u_path = [], u_rawPath = [], u_rawQuery = [], u_forceQuery = False, u_fragment = []\<rparr>"

definition escapedPath :: "url \<Rightarrow> string" where
  "escapedPath u =
     (if u_rawPath u \<noteq> [] \<and> validEncodedPath (u_rawPath u) \<and> unescapePath (u_rawPath u) = Some (u_path u) then u_rawPath u
      else if u_path u = ''*'' then ''*''
      else escapeBy escapeInPath (u_path u))"

definition urlString :: "url \<Rightarrow> string" where
  "urlString u =
     (let scheme = (if u_scheme u \<noteq> [] then u_scheme u @ '':'' else []);
          authority = (if (u_scheme u \<noteq> [] \<or> u_host u \<noteq> [] \<or> u_user u \<noteq> None) \<and> (u_host u \<noteq> [] \<or> u_path u \<noteq> [] \<or> u_user u \<noteq> None)
                       then ''//'' @ (case u_user u of None \<Rightarrow> [] | Some s \<Rightarrow> s @ ''@'') @ escapeBy escapeInHost (u_host u) else []);
          path = escapedPath u;
          slash = (if path \<noteq> [] \<and> hd path \<noteq> CHR ''/'' \<and> u_host u \<noteq> [] then ''/'' else []);
          prefix = scheme @ authority @ slash;
          dot = (if prefix = [] \<and> containsStr (fst (cut path ''/'')) '':'' then ''./'' else []);
          query = (if u_forceQuery u \<or> u_rawQuery u \<noteq> [] then ''?'' @ u_rawQuery u else []);
          fragment = (if u_fragment u \<noteq> [] then ''#'' @ u_fragment u else [])
      in prefix @ dot @ path @ query @ fragment)"

definition requestURI :: "url \<Rightarrow> string" where
  "requestURI u =
     (let path = escapedPath u
      in (if path = [] then ''/'' else path) @ (if u_forceQuery u \<or> u_rawQuery u \<noteq> [] then ''?'' @ u_rawQuery u else []))"

text \<open>\<open>Hostname\<close>: the host without a port and without the brackets of an IPv6 literal.\<close>

definition validOptionalPort :: "string \<Rightarrow> bool" where
  "validOptionalPort p \<longleftrightarrow> p = [] \<or> hd p = CHR '':'' \<and> list_all (\<lambda>c. c \<in> set ''0123456789'') (tl p)"

definition hostname :: "url \<Rightarrow> string" where
  "hostname u =
     (let h = u_host u;
          bare = (case lastIndexOf (CHR '':'') h of
                    Some i \<Rightarrow> if validOptionalPort (drop i h) then take i h else h
                  | None \<Rightarrow> h)
      in if hasPrefix bare ''['' \<and> hasSuffix bare '']'' then butlast (tl bare) else bare)"

text \<open>A path of one URL never escapes to the path of another.\<close>

lemma unescape_escapedPath: "unescapePath (escapedPath u) = Some (u_path u)"
  by (auto simp: escapedPath_def)

lemma escapedPath_inj: "escapedPath u = escapedPath v \<Longrightarrow> u_path u = u_path v"
  using unescape_escapedPath[of u] unescape_escapedPath[of v] by simp

lemma escapedPath_empty: "escapedPath u = [] \<longleftrightarrow> u_path u = []"
proof
  assume "escapedPath u = []"
  then show "u_path u = []" using unescape_escapedPath[of u] by simp
next
  assume "u_path u = []"
  moreover have "unescapePath s = Some [] \<Longrightarrow> s = []" for s
    by (cases s rule: unescapePath.cases) (auto split: if_split_asm list.split_asm option.split_asm)
  ultimately show "escapedPath u = []" using unescape_escapedPath[of u] by simp
qed

end
