(* ===== verification/Path_Prefixes.thy ===== *)
theory Path_Prefixes
  imports Options
begin

text \<open>
  Host and path prefix normalisation (\<open>service_map.go\<close>) and the per-path timeouts of
  \<open>path_timeouts.go\<close>. Both the service map and the timeout tables answer a path with the
  first entry of a list ordered longest prefix first; the locale \<open>prefix_order\<close> states
  what such an ordering promises and shows once that the first match is the most specific
  one.
\<close>

section \<open>Normalisation\<close>

definition normalizeHosts :: "string list \<Rightarrow> string list" where
  "normalizeHosts hosts = (if hosts = [] then [[]] else hosts)"

definition normalizePrefix :: "string \<Rightarrow> string" where
  "normalizePrefix p = ''/'' @ trimChar (CHR ''/'') p"

definition normalizePathPrefixes :: "string list \<Rightarrow> string list" where
  "normalizePathPrefixes ps = (if ps = [] then [rootPath] else map normalizePrefix ps)"

text \<open>A canonical prefix: the root, or a path with a leading and no trailing slash.\<close>

definition canonicalPrefix :: "string \<Rightarrow> bool" where
  "canonicalPrefix p \<longleftrightarrow> p = rootPath \<or> hasPrefix p ''/'' \<and> \<not> hasSuffix p ''/''"

lemma trimBy_hd: "trimBy P s \<noteq> [] \<Longrightarrow> \<not> P (hd (trimBy P s))"
proof -
  assume ne: "trimBy P s \<noteq> []"
  let ?t = "dropWhile P s"
  have "trimBy P s = rev (dropWhile P (rev ?t))" by (simp add: trimBy_def)
  moreover have "\<exists>u. rev ?t = u @ dropWhile P (rev ?t)"
    by (metis takeWhile_dropWhile_id)
  ultimately obtain u where "?t = trimBy P s @ rev u"
    by (metis rev_append rev_rev_ident)
  then have "hd ?t = hd (trimBy P s)" and "?t \<noteq> []" using ne by (metis hd_append2, simp)
  then show ?thesis by (metis hd_dropWhile)
qed

lemma trimBy_last: "trimBy P s \<noteq> [] \<Longrightarrow> \<not> P (last (trimBy P s))"
  unfolding trimBy_def by (metis hd_dropWhile last_rev rev.simps(1) rev_rev_ident)

lemma dropWhile_hd_id: "s = [] \<or> \<not> P (hd s) \<Longrightarrow> dropWhile P s = s"
  by (cases s) auto

lemma trimBy_id: "s = [] \<or> \<not> P (hd s) \<and> \<not> P (last s) \<Longrightarrow> trimBy P s = s"
  unfolding trimBy_def
  by (metis dropWhile.simps(1) dropWhile_hd_id hd_rev rev.simps(1) rev_rev_ident)

lemma trimBy_Cons: "P c \<Longrightarrow> trimBy P (c # s) = trimBy P s"
  by (simp add: trimBy_def)

lemma normalizePrefix_canonical: "canonicalPrefix (normalizePrefix p)"
proof (cases "trimChar (CHR ''/'') p = []")
  case True
  then show ?thesis by (simp add: canonicalPrefix_def normalizePrefix_def rootPath_def)
next
  case False
  then have "last (trimChar (CHR ''/'') p) \<noteq> CHR ''/''"
    using trimBy_last[of "\<lambda>x. x = CHR ''/''" p] by (simp add: trimChar_def)
  then have "\<not> hasSuffix (normalizePrefix p) ''/''"
    using False by (auto simp: normalizePrefix_def hasSuffix_iff append_eq_append_conv2 Cons_eq_append_conv)
  then show ?thesis by (simp add: canonicalPrefix_def normalizePrefix_def hasPrefix_def)
qed

lemma normalizePrefix_idem: "normalizePrefix (normalizePrefix p) = normalizePrefix p"
proof -
  let ?t = "trimChar (CHR ''/'') p"
  have "trimChar (CHR ''/'') (CHR ''/'' # ?t) = trimChar (CHR ''/'') ?t"
    by (simp add: trimChar_def trimBy_Cons)
  also have "\<dots> = ?t"
    unfolding trimChar_def
    by (rule trimBy_id) (use trimBy_hd[of "\<lambda>x. x = CHR ''/''" p] trimBy_last[of "\<lambda>x. x = CHR ''/''" p] in blast)
  finally show ?thesis by (simp add: normalizePrefix_def)
qed

lemma normalizePathPrefixes_nonempty [simp]: "normalizePathPrefixes ps \<noteq> []"
  by (simp add: normalizePathPrefixes_def)

lemma canonicalPrefix_root [simp]: "canonicalPrefix rootPath"
  by (simp add: canonicalPrefix_def)

lemma normalizePathPrefixes_canonical: "p \<in> set (normalizePathPrefixes ps) \<Longrightarrow> canonicalPrefix p"
  by (auto simp: normalizePathPrefixes_def normalizePrefix_canonical split: if_splits)

lemma normalizePathPrefixes_idem:
  "normalizePathPrefixes (normalizePathPrefixes ps) = normalizePathPrefixes ps"
proof (cases ps)
  case Nil
  have "normalizePrefix rootPath = rootPath"
    by (simp add: normalizePrefix_def rootPath_def trimChar_def trimBy_def)
  with Nil show ?thesis by (simp add: normalizePathPrefixes_def)
next
  case Cons
  then show ?thesis by (simp add: normalizePathPrefixes_def normalizePrefix_idem)
qed

lemma normalizeHosts_idem: "normalizeHosts (normalizeHosts hs) = normalizeHosts hs"
  by (simp add: normalizeHosts_def)

text \<open>On canonical prefixes a longer prefix stays longer once its trailing slash is added, so
  ordering by length orders by specificity.\<close>

lemma canonical_length_mono:
  assumes "canonicalPrefix a" and "canonicalPrefix b" and "length a \<le> length b"
  shows "length (ensureTrailingSlash a) \<le> length (ensureTrailingSlash b)"
proof -
  have root: "ensureTrailingSlash rootPath = rootPath"
    by (simp add: ensureTrailingSlash_def rootPath_def hasSuffix_def)
  show ?thesis
  proof (cases "b = rootPath")
    case True
    have "a = rootPath"
      using assms True by (auto simp: canonicalPrefix_def rootPath_def hasPrefix_iff)
    with True show ?thesis by simp
  next
    case False
    then have "length (ensureTrailingSlash b) = Suc (length b)"
      using assms(2) by (simp add: canonicalPrefix_def ensureTrailingSlash_def)
    moreover have "length (ensureTrailingSlash a) \<le> Suc (length a)"
      by (simp add: ensureTrailingSlash_def)
    ultimately show ?thesis using assms(3) by simp
  qed
qed

section \<open>First match in a table ordered longest prefix first\<close>

locale prefix_order =
  fixes arrange :: "'b list \<Rightarrow> 'b list"
    and prefix_of :: "'b \<Rightarrow> string"
  assumes arrange_set: "set (arrange xs) = set xs"
    and arrange_sorted: "sorted_wrt (\<lambda>a b. length (prefix_of b) \<le> length (prefix_of a)) (arrange xs)"
begin

text \<open>The first matching entry lies below every other matching entry.\<close>

lemma first_match_most_specific:
  assumes canon: "\<And>x. x \<in> set xs \<Longrightarrow> canonicalPrefix (prefix_of x)"
    and found: "find (\<lambda>x. pathMatchesPrefix p (prefix_of x)) (arrange xs) = Some b"
    and other: "c \<in> set xs" "pathMatchesPrefix p (prefix_of c)"
  shows "pathMatchesPrefix (prefix_of b) (prefix_of c)"
proof -
  obtain ys zs where split: "arrange xs = ys @ b # zs"
    and b: "pathMatchesPrefix p (prefix_of b)"
    and first: "\<forall>y\<in>set ys. \<not> pathMatchesPrefix p (prefix_of y)"
    using find_Some_split[OF found] by blast
  have "c \<in> set ys \<union> insert b (set zs)"
    using other(1) arrange_set[of xs] split by auto
  with first other(2) have "c = b \<or> c \<in> set zs" by blast
  then have "length (prefix_of c) \<le> length (prefix_of b)"
    using arrange_sorted[of xs] split by (auto simp: sorted_wrt_append)
  moreover have "canonicalPrefix (prefix_of c)" and "canonicalPrefix (prefix_of b)"
    using canon other(1) arrange_set[of xs] split by auto
  ultimately have "length (ensureTrailingSlash (prefix_of c)) \<le> length (ensureTrailingSlash (prefix_of b))"
    by (simp add: canonical_length_mono)
  then show ?thesis using b other(2) by (metis pathMatchesPrefix_comparable)
qed

lemma first_match_total:
  assumes "c \<in> set xs" and "pathMatchesPrefix p (prefix_of c)"
  shows "\<exists>b. find (\<lambda>x. pathMatchesPrefix p (prefix_of x)) (arrange xs) = Some b"
proof -
  have "find (\<lambda>x. pathMatchesPrefix p (prefix_of x)) (arrange xs) \<noteq> None"
    using assms arrange_set[of xs] by (auto simp: find_None_iff)
  then show ?thesis by blast
qed

lemma first_match_member:
  assumes "find (\<lambda>x. pathMatchesPrefix p (prefix_of x)) (arrange xs) = Some b"
  shows "b \<in> set xs \<and> pathMatchesPrefix p (prefix_of b)"
  using find_in_set[OF assms] arrange_set[of xs] by simp

end

section \<open>Path timeouts\<close>

definition sortPathTimeouts :: "pathTimeout list \<Rightarrow> pathTimeout list" where
  "sortPathTimeouts ts = sort_key (\<lambda>t. (- int (length (pt_prefix t)), pt_prefix t)) ts"

definition normalizePathTimeouts :: "pathTimeout list \<Rightarrow> pathTimeout list" where
  "normalizePathTimeouts ts =
     (if ts = [] then []
      else sortPathTimeouts (map (\<lambda>t. t\<lparr>pt_prefix := normalizePrefix (pt_prefix t)\<rparr>) ts))"

fun resolvePathTimeout :: "string \<Rightarrow> pathTimeout list \<Rightarrow> duration \<Rightarrow> duration" where
  "resolvePathTimeout p [] fallback = fallback"
| "resolvePathTimeout p (t # ts) fallback =
     (if pathMatchesPrefix p (pt_prefix t) then pt_timeout t else resolvePathTimeout p ts fallback)"

lemma sorted_map_sorted_wrt_le: "sorted (map f xs) \<Longrightarrow> sorted_wrt (\<lambda>a b. f a \<le> f b) xs"
  by (simp add: sorted_wrt_map)

interpretation pt: prefix_order sortPathTimeouts pt_prefix
proof unfold_locales
  fix ts :: "pathTimeout list"
  show "set (sortPathTimeouts ts) = set ts" by (simp add: sortPathTimeouts_def)
  let ?k = "\<lambda>t. (- int (length (pt_prefix t)), pt_prefix t)"
  have "sorted_wrt (\<lambda>a b. ?k a \<le> ?k b) (sortPathTimeouts ts)"
    unfolding sortPathTimeouts_def by (rule sorted_map_sorted_wrt_le) (rule sorted_sort_key)
  then show "sorted_wrt (\<lambda>a b. length (pt_prefix b) \<le> length (pt_prefix a)) (sortPathTimeouts ts)"
    by (rule sorted_wrt_mono_rel[rotated]) auto
qed

lemma resolvePathTimeout_find:
  "resolvePathTimeout p ts fallback =
     (case find (\<lambda>t. pathMatchesPrefix p (pt_prefix t)) ts of None \<Rightarrow> fallback | Some t \<Rightarrow> pt_timeout t)"
  by (induction ts) auto

lemma normalizePathTimeouts_canonical:
  "t \<in> set (normalizePathTimeouts ts) \<Longrightarrow> canonicalPrefix (pt_prefix t)"
  by (auto simp: normalizePathTimeouts_def sortPathTimeouts_def normalizePrefix_canonical split: if_splits)

end
