(* ===== verification/Targets.thy ===== *)
theory Targets
  imports Path_Prefixes
begin

text \<open>
  A target of \<open>target.go\<close>, its deploy-time specification and its share of a pool
  (\<open>target_weight.go\<close>): parsing and printing of specifications, the state changes of health
  checks and draining, the in-flight requests, and the smooth weighted round robin.
  A request in flight is identified by a number standing for the request pointer that keys
  the \<open>inflightMap\<close>.
\<close>

section \<open>Target specifications\<close>

datatype targetError = InvalidTargetWeight | InvalidHostPattern | Draining

definition defaultTargetWeight :: int where
  "defaultTargetWeight = 1"

definition maxTargetWeight :: int where
  "maxTargetWeight = 1000"

definition parseTargetSpec :: "string \<Rightarrow> targetError + (string \<times> int)" where
  "parseTargetSpec spec = (case cut spec '';'' of
       (h, attribute, found) \<Rightarrow>
         if \<not> found then Inr (spec, defaultTargetWeight)
         else (case cutPrefix attribute ''weight='' of
                 None \<Rightarrow> Inl InvalidTargetWeight
               | Some v \<Rightarrow>
                   (case parseInt v of
                      None \<Rightarrow> Inl InvalidTargetWeight
                    | Some w \<Rightarrow>
                        if w < defaultTargetWeight \<or> w > maxTargetWeight then Inl InvalidTargetWeight
                        else Inr (h, w))))"

definition wordChar :: "char \<Rightarrow> bool" where
  "wordChar c \<longleftrightarrow> (let n = of_char c :: nat in
     48 \<le> n \<and> n \<le> 57 \<or> 65 \<le> n \<and> n \<le> 90 \<or> 97 \<le> n \<and> n \<le> 122 \<or> n = 95)"

definition digitOnly :: "char \<Rightarrow> bool" where
  "digitOnly c \<longleftrightarrow> digitVal c \<noteq> None"

text \<open>\<open>hostRegex\<close>, that is \<open>^(\w[-_.\w+]+)(:\d+)?$\<close>: the character class of the host part holds
  no colon, so the host part ends at the first one.\<close>

definition matchesHostRegex :: "string \<Rightarrow> bool" where
  "matchesHostRegex s = (case cut s '':'' of (h, port, found) \<Rightarrow>
     (case h of
        c # cs \<Rightarrow> wordChar c \<and> cs \<noteq> [] \<and> list_all (\<lambda>x. wordChar x \<or> x \<in> set ''-_.+'') cs
      | [] \<Rightarrow> False)
     \<and> (found \<longrightarrow> port \<noteq> [] \<and> list_all digitOnly port))"

text \<open>\<open>parseTargetURL\<close>: a host of that form parses to a URL whose \<open>Host\<close> is the text given.\<close>

definition parseTargetURL :: "string \<Rightarrow> targetError + string" where
  "parseTargetURL s = (if matchesHostRegex s then Inr s else Inl InvalidHostPattern)"

section \<open>Targets\<close>

datatype targetState = TargetStateAdding | TargetStateDraining | TargetStateHealthy | TargetStateUnhealthy

record inflightRequest =
  if_hijacked :: bool
  if_cancelled :: bool

record target =
  tg_address :: string
  tg_readonly :: bool
  tg_options :: targetOptions
  tg_weight :: int
  tg_currentWeight :: int
  tg_state :: targetState
  tg_inflight :: "(nat \<times> inflightRequest) list"
  tg_probing :: bool \<comment> \<open>\<open>healthcheck\<close> is not nil\<close>

definition newTarget :: "string \<Rightarrow> targetOptions \<Rightarrow> targetError + target" where
  "newTarget url opts = (case parseTargetSpec url of
       Inl e \<Rightarrow> Inl e
     | Inr (h, w) \<Rightarrow>
         (case parseTargetURL h of
            Inl e \<Rightarrow> Inl e
          | Inr addr \<Rightarrow>
              Inr \<lparr>tg_address = addr, tg_readonly = False,
                   tg_options = opts\<lparr>
                     to_logRequestHeaders := map canonicalHeaderKey (to_logRequestHeaders opts),
                     to_logResponseHeaders := map canonicalHeaderKey (to_logResponseHeaders opts),
                     to_pathResponseTimeouts := normalizePathTimeouts (to_pathResponseTimeouts opts),
                     to_pathRequestTimeouts := normalizePathTimeouts (to_pathRequestTimeouts opts)\<rparr>,
                   tg_weight = w, tg_currentWeight = 0, tg_state = TargetStateAdding,
                   tg_inflight = [], tg_probing = False\<rparr>))"

definition newReadOnlyTarget :: "string \<Rightarrow> targetOptions \<Rightarrow> targetError + target" where
  "newReadOnlyTarget url opts = map_sum id (\<lambda>t. t\<lparr>tg_readonly := True\<rparr>) (newTarget url opts)"

definition targetSpec :: "target \<Rightarrow> string" where
  "targetSpec t =
     (if tg_weight t = defaultTargetWeight then tg_address t
      else tg_address t @ '';'' @ ''weight='' @ itoa (tg_weight t))"

definition specs :: "target list \<Rightarrow> string list" where
  "specs ts = map targetSpec ts"

definition isHealthCheckRequest :: "targetOptions \<Rightarrow> request \<Rightarrow> bool" where
  "isHealthCheckRequest opts r \<longleftrightarrow>
     (req_method r = ''GET'' \<or> req_method r = ''HEAD'') \<and>
     routedTargetPath r = hc_path (to_healthCheck opts)"

subsection \<open>In-flight requests, health checks, draining\<close>

definition startRequest :: "nat \<Rightarrow> target \<Rightarrow> targetError + target" where
  "startRequest i t =
     (if tg_state t = TargetStateDraining then Inl Draining
      else Inr (t\<lparr>tg_inflight := AList.update i \<lparr>if_hijacked = False, if_cancelled = False\<rparr> (tg_inflight t)\<rparr>))"

definition endInflightRequest :: "nat \<Rightarrow> target \<Rightarrow> target" where
  "endInflightRequest i t = t\<lparr>tg_inflight := AList.delete i (tg_inflight t)\<rparr>"

definition hijackRequest :: "nat \<Rightarrow> target \<Rightarrow> target" where
  "hijackRequest i t = (case map_of (tg_inflight t) i of
       None \<Rightarrow> t
     | Some q \<Rightarrow> t\<lparr>tg_inflight := AList.update i (q\<lparr>if_hijacked := True\<rparr>) (tg_inflight t)\<rparr>)"

definition updateState :: "targetState \<Rightarrow> target \<Rightarrow> target" where
  "updateState st t = t\<lparr>tg_state := st\<rparr>"

text \<open>\<open>HealthCheckCompleted\<close>: the new target, and whether its consumer is told.\<close>

definition healthCheckCompleted :: "bool \<Rightarrow> target \<Rightarrow> target \<times> bool" where
  "healthCheckCompleted success t =
     (let new = (if success then TargetStateHealthy
                 else if tg_state t = TargetStateHealthy then TargetStateUnhealthy else tg_state t)
      in (t\<lparr>tg_state := new\<rparr>, new \<noteq> tg_state t))"

text \<open>A drain, in the pieces between which other goroutines run. It begins by marking the target
  and copying the in-flight map; a target that is draining already is left alone. Hijacked
  requests of the copy are cancelled at once, the rest when they are still there at the
  deadline, and the original state is put back at the end. A request of the copy that ended
  in the meantime is no longer in the map; cancelling it does nothing.\<close>

definition drainBegin :: "target \<Rightarrow> (target \<times> targetState \<times> nat list) option" where
  "drainBegin t =
     (if tg_state t = TargetStateDraining then None
      else Some (t\<lparr>tg_state := TargetStateDraining\<rparr>, tg_state t, map fst (tg_inflight t)))"

definition cancelWhere :: "(nat \<Rightarrow> inflightRequest \<Rightarrow> bool) \<Rightarrow> target \<Rightarrow> target" where
  "cancelWhere P t = t\<lparr>tg_inflight :=
     map (\<lambda>(i, q). (i, if P i q then q\<lparr>if_cancelled := True\<rparr> else q)) (tg_inflight t)\<rparr>"

definition drainCancelHijacked :: "nat list \<Rightarrow> target \<Rightarrow> target" where
  "drainCancelHijacked toCancel t = cancelWhere (\<lambda>i q. i \<in> set toCancel \<and> if_hijacked q) t"

definition drainFinish :: "targetState \<Rightarrow> nat list \<Rightarrow> target \<Rightarrow> target" where
  "drainFinish original toCancel t =
     updateState original (cancelWhere (\<lambda>i q. i \<in> set toCancel) t)"

section \<open>Weighted rotation\<close>

text \<open>The loop of \<open>nextWeighted\<close>: it adds each weight to the credit, sums the weights, and keeps
  the position and credit of the best target so far.\<close>

fun nextWeightedLoop ::
  "target list \<Rightarrow> nat \<Rightarrow> (nat \<times> int) option \<Rightarrow> int \<Rightarrow> target list \<times> (nat \<times> int) option \<times> int" where
  "nextWeightedLoop [] i chosen tot = ([], chosen, tot)"
| "nextWeightedLoop (t # ts) i chosen tot =
     (let t' = t\<lparr>tg_currentWeight := tg_currentWeight t + tg_weight t\<rparr>;
          tot' = tot + tg_weight t;
          chosen' = (case chosen of
                       None \<Rightarrow> Some (i, tg_currentWeight t')
                     | Some (j, c) \<Rightarrow>
                         if tg_currentWeight t' > c then Some (i, tg_currentWeight t') else chosen);
          (ts', result) = nextWeightedLoop ts (Suc i) chosen' tot'
      in (t' # ts', result))"

definition nextWeighted :: "target list \<Rightarrow> target list \<times> nat option" where
  "nextWeighted ts = (case nextWeightedLoop ts 0 None 0 of
       (ts', None, tot) \<Rightarrow> (ts', None)
     | (ts', Some (j, c), tot) \<Rightarrow>
         (ts'[j := (ts' ! j)\<lparr>tg_currentWeight := tg_currentWeight (ts' ! j) - tot\<rparr>], Some j))"

definition hasWeights :: "target list \<Rightarrow> bool" where
  "hasWeights ts \<longleftrightarrow> list_ex (\<lambda>t. tg_weight t \<noteq> defaultTargetWeight) ts"

text \<open>The targets a pool serves in a number of consecutive turns.\<close>

fun weightedTurns :: "nat \<Rightarrow> target list \<Rightarrow> target list \<times> nat list" where
  "weightedTurns 0 ts = (ts, [])"
| "weightedTurns (Suc k) ts =
     (case nextWeighted ts of
        (ts', None) \<Rightarrow> weightedTurns k ts'
      | (ts', Some j) \<Rightarrow> (case weightedTurns k ts' of (ts'', js) \<Rightarrow> (ts'', j # js)))"

section \<open>Specifications survive a round trip\<close>

lemma cutPrefix_append: "cutPrefix (p @ s) p = Some s"
  by (simp add: cutPrefix_def)

lemma semicolon_free:
  assumes "matchesHostRegex s"
  shows "CHR '';'' \<notin> set s"
proof (cases "CHR '':'' \<in> set s")
  case True
  then obtain a b where s: "s = a @ CHR '':'' # b" "CHR '':'' \<notin> set a"
    by (meson split_list_first)
  have ok: "\<not> (wordChar (CHR '';'') \<or> CHR '';'' \<in> set ''-_.+'')" and d: "\<not> digitOnly (CHR '';'')"
    by (simp_all add: wordChar_def digitOnly_def digitVal_def)
  from assms s have "list_all digitOnly b" and "\<exists>c cs. a = c # cs \<and> wordChar c \<and> list_all (\<lambda>x. wordChar x \<or> x \<in> set ''-_.+'') cs"
    by (auto simp: matchesHostRegex_def cut_char_append split: list.splits)
  then show ?thesis using s ok d by (auto simp: list_all_iff)
next
  case False
  have ok: "\<not> (wordChar (CHR '';'') \<or> CHR '';'' \<in> set ''-_.+'')"
    by (simp add: wordChar_def)
  from assms False have "\<exists>c cs. s = c # cs \<and> wordChar c \<and> list_all (\<lambda>x. wordChar x \<or> x \<in> set ''-_.+'') cs"
    by (auto simp: matchesHostRegex_def cut_char_absent split: list.splits)
  then show ?thesis using ok by (auto simp: list_all_iff)
qed

lemma parseTargetSpec_range:
  assumes "parseTargetSpec s = Inr (h, w)"
  shows "defaultTargetWeight \<le> w \<and> w \<le> maxTargetWeight"
  using assms
  by (auto simp: parseTargetSpec_def defaultTargetWeight_def maxTargetWeight_def
      split: prod.splits if_splits option.splits)

lemma newTarget_Inr:
  assumes "newTarget url opts = Inr t"
  shows "matchesHostRegex (tg_address t) \<and> defaultTargetWeight \<le> tg_weight t \<and> tg_weight t \<le> maxTargetWeight
     \<and> parseTargetSpec url = Inr (tg_address t, tg_weight t)"
  using assms parseTargetSpec_range
  by (auto simp: newTarget_def parseTargetURL_def split: sum.splits prod.splits if_splits)

definition validTarget :: "target \<Rightarrow> bool" where
  "validTarget t \<longleftrightarrow> matchesHostRegex (tg_address t) \<and> 1 \<le> tg_weight t \<and> tg_weight t \<le> 1000"

lemma newTarget_valid: "newTarget url opts = Inr t \<Longrightarrow> validTarget t"
  using newTarget_Inr by (auto simp: validTarget_def defaultTargetWeight_def maxTargetWeight_def)

lemma targetSpec_parses:
  assumes "validTarget t"
  shows "parseTargetSpec (targetSpec t) = Inr (tg_address t, tg_weight t)"
proof -
  have addr: "CHR '';'' \<notin> set (tg_address t)"
    using assms semicolon_free by (simp add: validTarget_def)
  have w: "1 \<le> tg_weight t" "tg_weight t \<le> 1000"
    using assms by (simp_all add: validTarget_def)
  have parsed: "parseInt (itoa (tg_weight t)) = Some (tg_weight t)"
    using w by (intro parseInt_itoa) (simp_all add: max_int64_def)
  show ?thesis
  proof (cases "tg_weight t = 1")
    case True
    then show ?thesis using addr
      by (simp add: targetSpec_def parseTargetSpec_def cut_char_absent defaultTargetWeight_def)
  next
    case False
    then have "targetSpec t = tg_address t @ CHR '';'' # ''weight='' @ itoa (tg_weight t)"
      by (simp add: targetSpec_def defaultTargetWeight_def)
    then show ?thesis
      using addr w parsed cutPrefix_append[of "''weight=''" "itoa (tg_weight t)"]
      by (simp add: parseTargetSpec_def cut_char_append defaultTargetWeight_def maxTargetWeight_def)
  qed
qed

text \<open>A target's specification survives a restart: what \<open>Spec\<close> writes for a target made
  from any accepted deploy-time specification parses back to the same address and the same
  weight, and the weight is within 1 to 1000.\<close>

theorem targetSpec_roundtrip:
  assumes "newTarget url opts = Inr t"
  shows "parseTargetSpec (targetSpec t) = Inr (tg_address t, tg_weight t)
     \<and> 1 \<le> tg_weight t \<and> tg_weight t \<le> 1000"
  using targetSpec_parses[OF newTarget_valid[OF assms]] newTarget_valid[OF assms] by (simp add: validTarget_def)

definition exampleTarget :: target where
  "exampleTarget = \<lparr>tg_address = ''web-1:3000'', tg_readonly = False, tg_options = zeroTargetOptions,
     tg_weight = 5, tg_currentWeight = 0, tg_state = TargetStateAdding, tg_inflight = [], tg_probing = False\<rparr>"

theorem targetSpec_roundtrip_witness:
  "parseTargetSpec ''web-1:3000;weight=5'' = Inr (''web-1:3000'', 5)"
proof -
  have new: "newTarget ''web-1:3000;weight=5'' zeroTargetOptions = Inr exampleTarget"
    by code_simp
  have "targetSpec exampleTarget = ''web-1:3000;weight=5''" by code_simp
  with targetSpec_roundtrip[OF new] show ?thesis by (simp add: exampleTarget_def)
qed

section \<open>Weighted rotation serves every target its share\<close>

definition credit :: "target list \<Rightarrow> nat \<Rightarrow> int" where
  "credit ts i = tg_currentWeight (ts ! i)"

definition share :: "target list \<Rightarrow> nat \<Rightarrow> int" where
  "share ts i = tg_weight (ts ! i)"

definition totalShare :: "target list \<Rightarrow> int" where
  "totalShare ts = sum_list (map tg_weight ts)"

definition addWeight :: "target \<Rightarrow> target" where
  "addWeight t = t\<lparr>tg_currentWeight := tg_currentWeight t + tg_weight t\<rparr>"

lemma nextWeightedLoop_targets: "fst (nextWeightedLoop ts i ch tot) = map addWeight ts"
  by (induction ts arbitrary: i ch tot) (simp_all add: Let_def addWeight_def case_prod_beta)

lemma nextWeightedLoop_total: "snd (snd (nextWeightedLoop ts i ch tot)) = tot + totalShare ts"
  by (induction ts arbitrary: i ch tot) (simp_all add: Let_def totalShare_def case_prod_beta)

text \<open>The candidate the loop ends with is at least as good as every target it saw.\<close>

lemma nextWeightedLoop_chosen:
  assumes "fst (snd (nextWeightedLoop ts i ch tot)) = Some (j, c)"
  shows "(ch = Some (j, c) \<or> i \<le> j \<and> j < i + length ts \<and> c = credit ts (j - i) + share ts (j - i))
    \<and> (\<forall>j' c'. ch = Some (j', c') \<longrightarrow> c' \<le> c)
    \<and> (\<forall>k < length ts. credit ts k + share ts k \<le> c)"
  using assms
proof (induction ts arbitrary: i ch tot)
  case (Cons t ts)
  let ?v = "tg_currentWeight t + tg_weight t"
  let ?ch = "case ch of None \<Rightarrow> Some (i, ?v) | Some (j, c) \<Rightarrow> if ?v > c then Some (i, ?v) else ch"
  have rec: "fst (snd (nextWeightedLoop ts (Suc i) ?ch (tot + tg_weight t))) = Some (j, c)"
    using Cons.prems by (cases ch) (auto simp: Let_def case_prod_beta split: if_splits)
  have IH: "(?ch = Some (j, c) \<or> Suc i \<le> j \<and> j < Suc i + length ts \<and> c = credit ts (j - Suc i) + share ts (j - Suc i))"
    "\<forall>j' c'. ?ch = Some (j', c') \<longrightarrow> c' \<le> c" "\<forall>k < length ts. credit ts k + share ts k \<le> c"
    using Cons.IH[OF rec] by blast+
  have v: "?v \<le> c" using IH(2) by (cases ch) (auto split: if_splits prod.splits)
  have old: "\<forall>j' c'. ch = Some (j', c') \<longrightarrow> c' \<le> c" using IH(2) v by (auto split: if_splits)
  have all: "\<forall>k < length (t # ts). credit (t # ts) k + share (t # ts) k \<le> c"
    using v IH(3) by (auto simp: credit_def share_def less_Suc_eq_0_disj)
  have pos: "ch = Some (j, c) \<or> i \<le> j \<and> j < i + length (t # ts) \<and> c = credit (t # ts) (j - i) + share (t # ts) (j - i)"
  proof (cases "?ch = Some (j, c)")
    case True
    then show ?thesis by (cases ch) (auto simp: credit_def share_def split: if_splits prod.splits)
  next
    case False
    with IH(1) have "Suc i \<le> j" "j < Suc i + length ts" "c = credit ts (j - Suc i) + share ts (j - Suc i)"
      by auto
    then show ?thesis by (auto simp: credit_def share_def nth_Cons' Suc_diff_Suc)
  qed
  show ?case using pos old all by blast
qed simp

lemma nextWeightedLoop_None:
  "fst (snd (nextWeightedLoop ts i ch tot)) = None \<longleftrightarrow> ch = None \<and> ts = []"
  by (induction ts arbitrary: i ch tot) (auto simp: Let_def case_prod_beta split: option.splits)

text \<open>One turn: the pool keeps its weights, the served target is one whose credit plus weight
  is largest, and it alone pays back the total.\<close>

lemma nextWeighted_step:
  assumes "ts \<noteq> []"
  obtains ts' j where "nextWeighted ts = (ts', Some j)" and "length ts' = length ts" and "j < length ts"
    and "\<And>i. i < length ts \<Longrightarrow> share ts' i = share ts i"
    and "\<And>i. i < length ts \<Longrightarrow> credit ts' i = credit ts i + share ts i - (if i = j then totalShare ts else 0)"
    and "\<And>i. i < length ts \<Longrightarrow> credit ts i + share ts i \<le> credit ts j + share ts j"
proof -
  let ?r = "nextWeightedLoop ts 0 None 0"
  obtain j c where jc: "fst (snd ?r) = Some (j, c)"
    using assms nextWeightedLoop_None[of ts 0 None 0] by fastforce
  have ch: "j < length ts" "c = credit ts j + share ts j" "\<forall>k < length ts. credit ts k + share ts k \<le> c"
    using nextWeightedLoop_chosen[OF jc] by auto
  define ts' where "ts' = (map addWeight ts)[j := (addWeight (ts ! j))\<lparr>tg_currentWeight := tg_currentWeight (addWeight (ts ! j)) - totalShare ts\<rparr>]"
  have "nextWeighted ts = (ts', Some j)"
    using jc ch(1) nextWeightedLoop_targets[of ts 0 None 0] nextWeightedLoop_total[of ts 0 None 0]
    by (cases ?r) (auto simp: nextWeighted_def ts'_def)
  moreover have "share ts' i = share ts i" if "i < length ts" for i
    using that ch(1) by (simp add: share_def ts'_def nth_list_update addWeight_def)
  moreover have "credit ts' i = credit ts i + share ts i - (if i = j then totalShare ts else 0)" if "i < length ts" for i
    using that ch(1) by (simp add: credit_def share_def ts'_def nth_list_update addWeight_def)
  ultimately show thesis using that ch by (simp add: ts'_def)
qed

lemma totalShare_sum: "totalShare ts = (\<Sum>i < length ts. share ts i)"
  by (simp add: totalShare_def share_def sum_list_sum_nth atLeast0LessThan)

lemma totalShare_cong:
  "length ts' = length ts \<Longrightarrow> (\<And>i. i < length ts \<Longrightarrow> share ts' i = share ts i) \<Longrightarrow> totalShare ts' = totalShare ts"
  by (simp add: totalShare_sum)

text \<open>The credits of a pool in rotation: they add up to nothing and no target owes a whole round.\<close>

definition balanced :: "target list \<Rightarrow> bool" where
  "balanced ts \<longleftrightarrow> (\<Sum>i < length ts. credit ts i) = 0 \<and> (\<forall>i < length ts. - totalShare ts < credit ts i)"

definition restingShares :: "target list \<Rightarrow> bool" where
  "restingShares ts \<longleftrightarrow> list_all (\<lambda>t. tg_currentWeight t = 0) ts"

definition positiveShares :: "target list \<Rightarrow> bool" where
  "positiveShares ts \<longleftrightarrow> list_all (\<lambda>t. 1 \<le> tg_weight t) ts"

lemma positiveShares_nth: "positiveShares ts \<Longrightarrow> i < length ts \<Longrightarrow> 1 \<le> share ts i"
  by (simp add: positiveShares_def list_all_length share_def)

lemma totalShare_pos:
  assumes "positiveShares ts" and "ts \<noteq> []"
  shows "0 < totalShare ts"
  unfolding totalShare_sum
proof (rule sum_pos)
  show "0 < share ts i" if "i \<in> {..<length ts}" for i
    using that positiveShares_nth[OF assms(1), of i] by simp
qed (use assms in auto)

lemma nextWeighted_balanced:
  assumes bal: "balanced ts" and pos: "positiveShares ts" and ne: "ts \<noteq> []"
    and step: "nextWeighted ts = (ts', Some j)"
  shows "balanced ts' \<and> positiveShares ts' \<and> length ts' = length ts \<and> totalShare ts' = totalShare ts
     \<and> j < length ts \<and> (\<forall>i < length ts. share ts' i = share ts i
          \<and> credit ts' i = credit ts i + share ts i - (if i = j then totalShare ts else 0))"
proof -
  let ?W = "totalShare ts"
  have len: "length ts' = length ts" and j: "j < length ts"
    and sh: "\<And>i. i < length ts \<Longrightarrow> share ts' i = share ts i"
    and cr: "\<And>i. i < length ts \<Longrightarrow> credit ts' i = credit ts i + share ts i - (if i = j then ?W else 0)"
    and mx: "\<And>i. i < length ts \<Longrightarrow> credit ts i + share ts i \<le> credit ts j + share ts j"
    using nextWeighted_step[OF ne] step by (metis Pair_inject option.inject)+
  have W: "totalShare ts' = ?W" using len sh by (rule totalShare_cong)
  have sum: "(\<Sum>i < length ts. credit ts i + share ts i) = ?W"
    using bal by (simp add: balanced_def sum.distrib totalShare_sum)
  have chosen_pos: "0 < credit ts j + share ts j"
  proof (rule ccontr)
    assume "\<not> 0 < credit ts j + share ts j"
    then have "(\<Sum>i < length ts. credit ts i + share ts i) \<le> (\<Sum>i < length ts. 0)"
      by (intro sum_mono) (use mx in force)
    then show False using sum totalShare_pos[OF pos ne] by simp
  qed
  have "(\<Sum>i < length ts. credit ts' i) = (\<Sum>i < length ts. credit ts i + share ts i) - (\<Sum>i < length ts. if i = j then ?W else 0)"
    using cr by (simp add: sum_subtractf)
  also have "\<dots> = 0" using sum j by (simp add: sum.delta)
  finally have zero: "(\<Sum>i < length ts'. credit ts' i) = 0" using len by simp
  have low: "- ?W < credit ts' i" if "i < length ts" for i
    using that cr[OF that] chosen_pos positiveShares_nth[OF pos that] bal
    by (cases "i = j") (auto simp: balanced_def)
  have "positiveShares ts'"
    using pos sh len by (simp add: positiveShares_def list_all_length share_def)
  then show ?thesis using zero low W len j sh cr by (simp add: balanced_def)
qed

lemma weightedTurns_run:
  assumes "balanced ts" and "positiveShares ts" and "ts \<noteq> []" and "weightedTurns k ts = (ts', js)"
  shows "balanced ts' \<and> length ts' = length ts \<and> totalShare ts' = totalShare ts \<and> length js = k
     \<and> set js \<subseteq> {..<length ts}
     \<and> (\<forall>i < length ts. credit ts' i = credit ts i + int k * share ts i - totalShare ts * int (count_list js i))"
  using assms
proof (induction k arbitrary: ts ts' js)
  case (Suc k)
  obtain u j where u: "nextWeighted ts = (u, Some j)" using nextWeighted_step[OF Suc.prems(3)] by metis
  obtain js' where rest: "weightedTurns k u = (ts', js')" and js: "js = j # js'"
    using Suc.prems(4) u by (auto split: prod.splits)
  note step = nextWeighted_balanced[OF Suc.prems(1-3) u]
  then have "u \<noteq> []" using Suc.prems(3) by auto
  with Suc.IH[of u ts' js'] step rest
  have IH: "balanced ts'" "length ts' = length ts" "totalShare ts' = totalShare ts" "length js' = k"
    "set js' \<subseteq> {..<length ts}"
    "\<And>i. i < length ts \<Longrightarrow> credit ts' i = credit u i + int k * share u i - totalShare ts * int (count_list js' i)"
    by auto
  have "credit ts' i = credit ts i + int (Suc k) * share ts i - totalShare ts * int (count_list js i)"
    if "i < length ts" for i
    using IH(6)[OF that] step that js by (auto simp: algebra_simps)
  then show ?case using IH step js by auto
qed auto

text \<open>C40: Smooth weighted round robin is exact: starting from a pool whose credits are zero,
  over as many consecutive turns as the weights add up to, every target serves exactly as many
  requests as its weight, and every credit is zero again, so the split holds in every
  cycle.\<close>

theorem weightedTurns_exact:
  assumes "restingShares ts" and "positiveShares ts" and "ts \<noteq> []"
    and "weightedTurns (nat (totalShare ts)) ts = (ts', js)"
  shows "restingShares ts' \<and> length js = nat (totalShare ts)
     \<and> (\<forall>i < length ts. int (count_list js i) = tg_weight (ts ! i))"
proof -
  let ?W = "totalShare ts"
  have W: "0 < ?W" using assms(2,3) by (rule totalShare_pos)
  have zero: "credit ts i = 0" if "i < length ts" for i
    using that assms(1) by (simp add: restingShares_def list_all_length credit_def)
  have "balanced ts" using zero W by (simp add: balanced_def)
  note run = weightedTurns_run[OF this assms(2-4)]
  have cr: "credit ts' i = ?W * (share ts i - int (count_list js i))" if "i < length ts" for i
    using run that zero W by (simp add: algebra_simps)
  have nonneg: "0 \<le> credit ts' i" if "i < length ts" for i
  proof (rule ccontr)
    assume "\<not> 0 \<le> credit ts' i"
    then have "share ts i - int (count_list js i) \<le> - 1"
      using cr[OF that] W by (simp add: zero_le_mult_iff)
    then have "?W * (share ts i - int (count_list js i)) \<le> ?W * (- 1)"
      using W by (intro mult_left_mono) auto
    then show False using run that cr[OF that] by (force simp: balanced_def)
  qed
  have "balanced ts'" and "length ts' = length ts" using run by blast+
  then have "(\<Sum>i < length ts. credit ts' i) = 0" by (simp add: balanced_def)
  then have all0: "credit ts' i = 0" if "i < length ts" for i
    using nonneg that sum_nonneg_eq_0_iff[of "{..<length ts}" "credit ts'"] by simp
  then have "share ts i = int (count_list js i)" if "i < length ts" for i
    using cr[OF that] W that by simp
  moreover have "restingShares ts'" using all0 run by (simp add: restingShares_def list_all_length credit_def)
  ultimately show ?thesis using run by (simp add: share_def)
qed

definition examplePool :: "target list" where
  "examplePool = [exampleTarget\<lparr>tg_weight := 1\<rparr>, exampleTarget\<lparr>tg_weight := 3\<rparr>]"

theorem weightedTurns_exact_witness:
  "snd (weightedTurns 4 examplePool) = [1, 0, 1, 1] \<and> restingShares (fst (weightedTurns 4 examplePool))"
proof -
  have sum: "nat (totalShare examplePool) = 4" by code_simp
  have "restingShares examplePool" and "positiveShares examplePool" and "examplePool \<noteq> []"
    by (simp_all add: restingShares_def positiveShares_def examplePool_def exampleTarget_def)
  moreover have "weightedTurns (nat (totalShare examplePool)) examplePool =
      (fst (weightedTurns 4 examplePool), snd (weightedTurns 4 examplePool))"
    by (simp only: sum prod.collapse)
  ultimately have "restingShares (fst (weightedTurns 4 examplePool))" using weightedTurns_exact by blast
  moreover have "snd (weightedTurns 4 examplePool) = [1, 0, 1, 1]" by code_simp
  ultimately show ?thesis by simp
qed

text \<open>The credits stay far from overflow: in a rotation that started from zero credits, with
  the weights a specification may carry (1 to 1000), every credit is above minus the total
  weight and below the total weight times the number of targets, hence within
  \<open>1000 * n * n\<close> for a pool of \<open>n\<close> targets.\<close>

theorem weightedTurns_bounded:
  assumes "restingShares ts" and "positiveShares ts" and "list_all (\<lambda>t. tg_weight t \<le> maxTargetWeight) ts"
    and "weightedTurns k ts = (ts', js)" and "i < length ts"
  shows "\<bar>tg_currentWeight (ts' ! i)\<bar> \<le> 1000 * int (length ts) * int (length ts)"
proof -
  let ?n = "int (length ts)" and ?W = "totalShare ts"
  have ne: "ts \<noteq> []" using assms(5) by auto
  have W: "0 < ?W" using assms(2) ne by (rule totalShare_pos)
  have "credit ts i = 0" if "i < length ts" for i
    using that assms(1) by (simp add: restingShares_def list_all_length credit_def)
  then have "balanced ts" using W by (simp add: balanced_def)
  note run = weightedTurns_run[OF this assms(2) ne assms(4)]
  then have bal: "balanced ts'" and len: "length ts' = length ts" and W': "totalShare ts' = ?W" by blast+
  have low: "- ?W < credit ts' j" if "j < length ts" for j
    using bal that len W' by (simp add: balanced_def)
  have "(\<Sum>j < length ts. credit ts' j) = credit ts' i + (\<Sum>j \<in> {..<length ts} - {i}. credit ts' j)"
    using assms(5) by (simp add: sum.remove)
  then have "credit ts' i = - (\<Sum>j \<in> {..<length ts} - {i}. credit ts' j)"
    using bal len by (simp add: balanced_def)
  also have "\<dots> = (\<Sum>j \<in> {..<length ts} - {i}. - credit ts' j)" by (simp add: sum_negf)
  also have "\<dots> \<le> (\<Sum>j \<in> {..<length ts} - {i}. ?W)"
    by (rule sum_mono) (use low in force)
  also have "\<dots> = (?n - 1) * ?W" using assms(5) by (simp add: of_nat_diff)
  finally have high: "credit ts' i \<le> (?n - 1) * ?W" .
  have "?W \<le> (\<Sum>j < length ts. 1000)"
    unfolding totalShare_sum
    by (rule sum_mono) (use assms(3) in \<open>simp add: list_all_length share_def maxTargetWeight_def\<close>)
  then have Wb: "?W \<le> 1000 * ?n" by simp
  have n1: "1 \<le> ?n" using assms(5) by linarith
  have "(?n - 1) * ?W \<le> ?n * (1000 * ?n)"
    by (rule mult_mono) (use Wb W n1 in linarith)+
  moreover have "?W \<le> ?n * (1000 * ?n)"
  proof -
    have "1 * ?W \<le> ?n * (1000 * ?n)" by (rule mult_mono) (use Wb n1 W in linarith)+
    then show ?thesis by simp
  qed
  ultimately have "\<bar>credit ts' i\<bar> \<le> ?n * (1000 * ?n)"
    using high low[OF assms(5)] by linarith
  then show ?thesis by (simp add: credit_def algebra_simps)
qed

theorem weightedTurns_bounded_witness:
  "\<bar>tg_currentWeight (fst (weightedTurns 7 examplePool) ! 0)\<bar> \<le> 4000"
proof -
  have "restingShares examplePool" and "positiveShares examplePool"
    and "list_all (\<lambda>t. tg_weight t \<le> maxTargetWeight) examplePool" and "(0::nat) < length examplePool"
    by (simp_all add: restingShares_def positiveShares_def examplePool_def exampleTarget_def maxTargetWeight_def)
  from weightedTurns_bounded[OF this(1-3) prod.collapse[symmetric, of "weightedTurns 7 examplePool"] this(4)]
  show ?thesis by (simp add: examplePool_def)
qed

end
