(* ===== verification/Basic_Auth.thy ===== *)
theory Basic_Auth
  imports Urls Targets
begin

text \<open>
  HTTP Basic credentials in front of a service (\<open>basic_auth.go\<close>): the stored form of a credential, the comparison
  with what a request carries, and the challenge. SHA-256 is an argument, as are the random bytes of the salt; of the
  Base64 codec only the decoder is the proxy's, the encoder is what a client does.
\<close>

section \<open>Base64\<close>

definition base64Alphabet :: string where
  "base64Alphabet = ''ABCDEFGHIJKLMNOPQRSTUVWXYZabcdefghijklmnopqrstuvwxyz0123456789+/''"

definition base64Digit :: "nat \<Rightarrow> char" where
  "base64Digit d = base64Alphabet ! d"

definition base64Val :: "char \<Rightarrow> nat option" where
  "base64Val c = indexOf base64Alphabet [c]"

fun decodeQuanta :: "string \<Rightarrow> string option" where
  "decodeQuanta [] = Some []"
| "decodeQuanta (a # b # c # d # rest) = (case (base64Val a, base64Val b, base64Val c, base64Val d) of
     (Some w, Some x, Some y, Some z) \<Rightarrow>
       map_option (\<lambda>s. char_of (4 * w + x div 16) # char_of (16 * (x mod 16) + y div 4) # char_of (64 * (y mod 4) + z) # s) (decodeQuanta rest)
   | (Some w, Some x, Some y, None) \<Rightarrow>
       if d = CHR ''='' \<and> rest = [] then Some [char_of (4 * w + x div 16), char_of (16 * (x mod 16) + y div 4)] else None
   | (Some w, Some x, None, None) \<Rightarrow>
       if c = CHR ''='' \<and> d = CHR ''='' \<and> rest = [] then Some [char_of (4 * w + x div 16)] else None
   | _ \<Rightarrow> None)"
| "decodeQuanta _ = None"

text \<open>Line breaks are skipped wherever they stand.\<close>

definition base64Decode :: "string \<Rightarrow> string option" where
  "base64Decode s = decodeQuanta (filter (\<lambda>c. c \<notin> {CHR 0x0A, CHR 0x0D}) s)"

fun base64Encode :: "string \<Rightarrow> string" where
  "base64Encode [] = []"
| "base64Encode [a] = (let l = of_char a :: nat in [base64Digit (l div 4), base64Digit (16 * (l mod 4)), CHR ''='', CHR ''=''])"
| "base64Encode [a, b] = (let l = of_char a :: nat; m = of_char b :: nat
     in [base64Digit (l div 4), base64Digit (16 * (l mod 4) + m div 16), base64Digit (4 * (m mod 16)), CHR ''=''])"
| "base64Encode (a # b # c # s) = (let l = of_char a :: nat; m = of_char b :: nat; n = of_char c :: nat
     in base64Digit (l div 4) # base64Digit (16 * (l mod 4) + m div 16) # base64Digit (4 * (m mod 16) + n div 64) # base64Digit (n mod 64)
        # base64Encode s)"

text \<open>\<open>Request.BasicAuth\<close>: the scheme in any case, then the credentials, cut at the first colon.\<close>

definition requestBasicAuth :: "request \<Rightarrow> (string \<times> string) option" where
  "requestBasicAuth r = (let auth = hget (req_header r) ''Authorization'' in
     if length auth < 6 \<or> \<not> equalFold (take 6 auth) ''Basic '' then None
     else case base64Decode (drop 6 auth) of
            None \<Rightarrow> None
          | Some cs \<Rightarrow> (case cut cs '':'' of (username, password, found) \<Rightarrow> if found then Some (username, password) else None))"

section \<open>Credentials\<close>

record basicAuthCredential =
  ba_salt :: string
  ba_digest :: string
  ba_denyAll :: bool

datatype basicAuthError = EmptyUsername | EmptyPassword | UsernameHasColon
  | NotASha256Value | MissingDigest | UnreadableSalt | UnreadableDigest

definition basicAuthDigest :: "(string \<Rightarrow> string) \<Rightarrow> string \<Rightarrow> string \<Rightarrow> string \<Rightarrow> string" where
  "basicAuthDigest sha256 salt username password = sha256 (salt @ username @ '':'' @ password)"

definition encodeBasicAuthCredential :: "(string \<Rightarrow> string) \<Rightarrow> string \<Rightarrow> string \<Rightarrow> string \<Rightarrow> basicAuthError + string" where
  "encodeBasicAuthCredential sha256 salt username password =
     (if username = [] then Inl EmptyUsername
      else if password = [] then Inl EmptyPassword
      else if containsStr username '':'' then Inl UsernameHasColon
      else Inr (''sha256'' @ '':'' @ encodeHex salt @ '':'' @ encodeHex (basicAuthDigest sha256 salt username password)))"

definition parseBasicAuthCredential :: "string \<Rightarrow> basicAuthError + basicAuthCredential" where
  "parseBasicAuthCredential encoded = (case cut encoded '':'' of (scheme, rest, found) \<Rightarrow>
     if \<not> found \<or> scheme \<noteq> ''sha256'' then Inl NotASha256Value
     else case cut rest '':'' of (rawSalt, rawDigest, found') \<Rightarrow>
       if \<not> found' then Inl MissingDigest
       else case decodeHex rawSalt of
              None \<Rightarrow> Inl UnreadableSalt
            | Some salt \<Rightarrow>
                if length salt \<noteq> 16 then Inl UnreadableSalt
                else case decodeHex rawDigest of
                       None \<Rightarrow> Inl UnreadableDigest
                     | Some digest \<Rightarrow>
                         if length digest \<noteq> 32 then Inl UnreadableDigest
                         else Inr \<lparr>ba_salt = salt, ba_digest = digest, ba_denyAll = False\<rparr>)"

definition basicAuthMatches :: "(string \<Rightarrow> string) \<Rightarrow> basicAuthCredential \<Rightarrow> string \<Rightarrow> string \<Rightarrow> bool" where
  "basicAuthMatches sha256 c username password \<longleftrightarrow>
     \<not> ba_denyAll c \<and> basicAuthDigest sha256 (ba_salt c) username password = ba_digest c"

definition validateBasicAuth :: "serviceOptions \<Rightarrow> basicAuthError option" where
  "validateBasicAuth so = (if so_basicAuth so = [] then None
     else case parseBasicAuthCredential (so_basicAuth so) of Inl e \<Rightarrow> Some e | Inr _ \<Rightarrow> None)"

definition validateBasicAuthHealthCheck :: "serviceOptions \<Rightarrow> targetOptions \<Rightarrow> bool" where
  "validateBasicAuthHealthCheck so topts \<longleftrightarrow>
     so_basicAuth so = [] \<or> hc_path (to_healthCheck topts) \<noteq> [] \<and> hc_path (to_healthCheck topts) \<noteq> rootPath"

definition resolveBasicAuth :: "serviceOptions \<Rightarrow> basicAuthCredential option" where
  "resolveBasicAuth so = (if so_basicAuth so = [] then None
     else case parseBasicAuthCredential (so_basicAuth so) of
            Inl _ \<Rightarrow> Some \<lparr>ba_salt = [], ba_digest = [], ba_denyAll = True\<rparr>
          | Inr c \<Rightarrow> Some c)"

definition basicAuthRealm :: string where
  "basicAuthRealm = ''Basic realm='' @ [CHR 0x22] @ ''Restricted'' @ [CHR 0x22] @ '', charset='' @ [CHR 0x22] @ ''UTF-8'' @ [CHR 0x22]"

text \<open>The request, which the check edits in place, and the challenge it is answered with, if any.\<close>

definition rejectUnauthenticated ::
  "(string \<Rightarrow> string) \<Rightarrow> basicAuthCredential option \<Rightarrow> targetOptions \<Rightarrow> request \<Rightarrow> request \<times> reply option" where
  "rejectUnauthenticated sha256 cred topts r = (case cred of
     None \<Rightarrow> (r, None)
   | Some c \<Rightarrow>
       (let supplied = requestBasicAuth r; r' = r\<lparr>req_header := hdel (req_header r) ''Authorization''\<rparr>
        in if req_internal r' \<or> isHealthCheckRequest topts r' then (r', None)
           else if (case supplied of None \<Rightarrow> False | Some (u, p) \<Rightarrow> basicAuthMatches sha256 c u p) then (r', None)
           else (r', Some \<lparr>ry_status = 401, ry_header = hset [] ''WWW-Authenticate'' basicAuthRealm\<rparr>)))"

section \<open>Encoded credentials decode\<close>

lemma base64Digits_all:
  "list_all (\<lambda>d. base64Val (base64Digit d) = Some d \<and> base64Digit d \<notin> {CHR 0x0A, CHR 0x0D}) [0..<64]"
  by code_simp

lemma base64Digit_ok:
  assumes "d < 64"
  shows "base64Val (base64Digit d) = Some d" and "base64Digit d \<noteq> CHR 0x0A" and "base64Digit d \<noteq> CHR 0x0D"
  using assms base64Digits_all by (simp_all add: list_all_iff)

lemma base64Val_pad: "base64Val (CHR ''='') = None"
  by code_simp

lemma sextets:
  fixes l m n :: nat
  assumes "l < 256" and "m < 256" and "n < 256"
  shows "l div 4 < 64" and "16 * (l mod 4) < 64" and "16 * (l mod 4) + m div 16 < 64"
    and "4 * (m mod 16) < 64" and "4 * (m mod 16) + n div 64 < 64" and "n mod 64 < 64"
    and "4 * (l div 4) + (16 * (l mod 4)) div 16 = l" and "4 * (l div 4) + (16 * (l mod 4) + m div 16) div 16 = l"
    and "16 * ((16 * (l mod 4) + m div 16) mod 16) + (4 * (m mod 16)) div 4 = m"
    and "16 * ((16 * (l mod 4) + m div 16) mod 16) + (4 * (m mod 16) + n div 64) div 4 = m"
    and "64 * ((4 * (m mod 16) + n div 64) mod 4) + n mod 64 = n"
proof -
  have "l mod 4 \<le> 3" "m mod 16 \<le> 15" "m div 16 \<le> 15" "n div 64 \<le> 3" "l div 4 \<le> 63"
    using assms by linarith+
  then show "l div 4 < 64" "16 * (l mod 4) < 64" "16 * (l mod 4) + m div 16 < 64"
    "4 * (m mod 16) < 64" "4 * (m mod 16) + n div 64 < 64" "n mod 64 < 64"
    by linarith+
  show "4 * (l div 4) + (16 * (l mod 4)) div 16 = l" by simp
  have "(16 * (l mod 4) + m div 16) div 16 = l mod 4" "(16 * (l mod 4) + m div 16) mod 16 = m div 16"
    using \<open>m div 16 \<le> 15\<close> by simp_all
  moreover have "(4 * (m mod 16) + n div 64) div 4 = m mod 16" "(4 * (m mod 16) + n div 64) mod 4 = n div 64"
    using \<open>n div 64 \<le> 3\<close> by simp_all
  ultimately show "4 * (l div 4) + (16 * (l mod 4) + m div 16) div 16 = l"
    "16 * ((16 * (l mod 4) + m div 16) mod 16) + (4 * (m mod 16)) div 4 = m"
    "16 * ((16 * (l mod 4) + m div 16) mod 16) + (4 * (m mod 16) + n div 64) div 4 = m"
    "64 * ((4 * (m mod 16) + n div 64) mod 4) + n mod 64 = n"
    by (simp_all only: mult_div_mod_eq) simp
qed

lemmas byte_sextets = sextets[OF of_char_byte of_char_byte of_char_byte]

lemma byte_quotients:
  fixes c :: char
  shows "of_char c div 16 div 16 = (0 :: nat)" and "of_char c div 16 mod 16 = (of_char c div 16 :: nat)"
    and "of_char c div 64 div 4 = (0 :: nat)" and "of_char c div 64 mod 4 = (of_char c div 64 :: nat)"
proof -
  have "of_char c div 16 < (16 :: nat)" "of_char c div 64 < (4 :: nat)" using of_char_byte[of c] by linarith+
  then show "of_char c div 16 div 16 = (0 :: nat)" "of_char c div 16 mod 16 = (of_char c div 16 :: nat)"
    "of_char c div 64 div 4 = (0 :: nat)" "of_char c div 64 mod 4 = (of_char c div 64 :: nat)"
    by (simp_all only: div_less mod_less)
qed

lemma decodeQuanta_base64Encode: "decodeQuanta (base64Encode s) = Some s"
  by (induction s rule: base64Encode.induct)
     (simp_all add: Let_def base64Digit_ok(1) byte_sextets byte_quotients base64Val_pad)

lemma base64Encode_no_breaks: "filter (\<lambda>c. c \<notin> {CHR 0x0A, CHR 0x0D}) (base64Encode s) = base64Encode s"
  by (induction s rule: base64Encode.induct) (simp_all add: Let_def base64Digit_ok(2,3) byte_sextets)

lemma base64Decode_Encode: "base64Decode (base64Encode s) = Some s"
  unfolding base64Decode_def base64Encode_no_breaks by (rule decodeQuanta_base64Encode)

definition basicAuthorization :: "string \<Rightarrow> string \<Rightarrow> string" where
  "basicAuthorization username password = ''Basic '' @ base64Encode (username @ '':'' @ password)"

lemma containsStr_char: "containsStr s [c] \<longleftrightarrow> c \<in> set s"
  unfolding containsStr_def indexOf_None_iff by (metis append_Cons append_Nil in_set_conv_decomp)

lemma requestBasicAuth_sent:
  assumes "hget (req_header r) ''Authorization'' = basicAuthorization username password" and "CHR '':'' \<notin> set username"
  shows "requestBasicAuth r = Some (username, password)"
proof -
  have "equalFold ''Basic '' ''Basic ''" by code_simp
  moreover have "cut (username @ CHR '':'' # password) '':'' = (username, password, True)" by (rule cut_char_append[OF assms(2)])
  ultimately show ?thesis using assms(1)
    by (simp add: requestBasicAuth_def basicAuthorization_def base64Decode_Encode)
qed

lemma hex_no_colon: "CHR '':'' \<notin> set (encodeHex s)"
proof
  assume "CHR '':'' \<in> set (encodeHex s)"
  then have "CHR '':'' \<in> set ''0123456789abcdef''" using set_encodeHex by blast
  then show False by simp
qed

lemma parse_encoded_credential:
  assumes "encodeBasicAuthCredential sha256 salt username password = Inr encoded" and "length salt = 16"
    and "\<And>x. length (sha256 x) = 32"
  shows "parseBasicAuthCredential encoded
    = Inr \<lparr>ba_salt = salt, ba_digest = basicAuthDigest sha256 salt username password, ba_denyAll = False\<rparr>"
proof -
  let ?d = "basicAuthDigest sha256 salt username password"
  have e: "encoded = ''sha256'' @ CHR '':'' # encodeHex salt @ CHR '':'' # encodeHex ?d"
    using assms(1) by (auto simp: encodeBasicAuthCredential_def split: if_split_asm)
  have "cut encoded '':'' = (''sha256'', encodeHex salt @ CHR '':'' # encodeHex ?d, True)"
    unfolding e by (rule cut_char_append) simp
  moreover have "cut (encodeHex salt @ CHR '':'' # encodeHex ?d) '':'' = (encodeHex salt, encodeHex ?d, True)"
    by (rule cut_char_append[OF hex_no_colon])
  ultimately show ?thesis using assms(2,3) by (simp add: parseBasicAuthCredential_def basicAuthDigest_def)
qed

text \<open>C35: What the command line stores is what a client can log in with. A credential it encodes is accepted by the deploy's
  validation, and a request that carries the same user name and password passes the check of the service, with
  the header that carried them removed.\<close>

theorem basic_auth_roundtrip:
  assumes "encodeBasicAuthCredential sha256 salt username password = Inr (so_basicAuth so)"
    and "length salt = 16" and "\<And>x. length (sha256 x) = 32"
    and "hget (req_header r) ''Authorization'' = basicAuthorization username password"
  shows "validateBasicAuth so = None
    \<and> rejectUnauthenticated sha256 (resolveBasicAuth so) topts r = (r\<lparr>req_header := hdel (req_header r) ''Authorization''\<rparr>, None)"
proof -
  have ne: "so_basicAuth so \<noteq> []" and nc: "CHR '':'' \<notin> set username"
    using assms(1) by (auto simp: encodeBasicAuthCredential_def containsStr_char split: if_split_asm)
  then show ?thesis
    using parse_encoded_credential[OF assms(1-3)] requestBasicAuth_sent[OF assms(4) nc]
    by (simp add: validateBasicAuth_def resolveBasicAuth_def rejectUnauthenticated_def basicAuthMatches_def Let_def)
qed

definition constantDigest :: "string \<Rightarrow> string" where
  "constantDigest s = take 32 (s @ replicate 32 (CHR ''x''))"

definition loginOptions :: serviceOptions where
  "loginOptions = zeroServiceOptions\<lparr>so_basicAuth :=
     ''sha256:'' @ encodeHex (replicate 16 (CHR ''s'')) @ '':'' @ encodeHex (constantDigest (replicate 16 (CHR ''s'') @ ''ann:pw''))\<rparr>"

definition loginRequest :: request where
  "loginRequest = emptyRequest\<lparr>req_header := [(''Authorization'', [''Basic YW5uOnB3''])]\<rparr>"

theorem basic_auth_roundtrip_witness:
  "rejectUnauthenticated constantDigest (resolveBasicAuth loginOptions) zeroTargetOptions loginRequest
     = (loginRequest\<lparr>req_header := []\<rparr>, None)"
proof -
  have enc: "encodeBasicAuthCredential constantDigest (replicate 16 (CHR ''s'')) ''ann'' ''pw'' = Inr (so_basicAuth loginOptions)"
    by code_simp
  have auth: "hget (req_header loginRequest) ''Authorization'' = basicAuthorization ''ann'' ''pw''" by code_simp
  have del: "hdel (req_header loginRequest) ''Authorization'' = []" by code_simp
  have len: "length (constantDigest x) = 32" for x by (simp add: constantDigest_def)
  show ?thesis using basic_auth_roundtrip[OF enc _ len auth] by (simp add: del)
qed

section \<open>Nothing gets past without the credential\<close>

lemma requestBasicAuth_exempt [simp]: "isHealthCheckRequest topts (r\<lparr>req_header := h\<rparr>) = isHealthCheckRequest topts r"
  by (simp add: isHealthCheckRequest_def routedTargetPath_def split: option.split)

lemma resolveBasicAuth_cases:
  assumes "so_basicAuth so \<noteq> []"
  shows "\<exists>c. resolveBasicAuth so = Some c \<and> (ba_denyAll c \<or> parseBasicAuthCredential (so_basicAuth so) = Inr c)"
  using assms by (cases "parseBasicAuthCredential (so_basicAuth so)") (simp_all add: resolveBasicAuth_def)

lemma rejectUnauthenticated_passed:
  assumes "rejectUnauthenticated sha256 (resolveBasicAuth so) topts r = (r', None)" and "so_basicAuth so \<noteq> []"
  shows "hvalues (req_header r') ''Authorization'' = [] \<and> (req_internal r \<or> isHealthCheckRequest topts r
    \<or> (\<exists>c u p. parseBasicAuthCredential (so_basicAuth so) = Inr c \<and> requestBasicAuth r = Some (u, p)
          \<and> basicAuthDigest sha256 (ba_salt c) u p = ba_digest c))"
proof -
  obtain c where c: "resolveBasicAuth so = Some c" "ba_denyAll c \<or> parseBasicAuthCredential (so_basicAuth so) = Inr c"
    using resolveBasicAuth_cases[OF assms(2)] by blast
  have "r' = r\<lparr>req_header := hdel (req_header r) ''Authorization''\<rparr>"
    using assms(1) c(1) by (auto simp: rejectUnauthenticated_def Let_def split: if_split_asm)
  then have gone: "hvalues (req_header r') ''Authorization'' = []" by (simp add: header_simps)
  have "req_internal r \<or> isHealthCheckRequest topts r \<or> (\<exists>u p. requestBasicAuth r = Some (u, p) \<and> basicAuthMatches sha256 c u p)"
    using assms(1) c(1) by (auto simp: rejectUnauthenticated_def Let_def split: if_split_asm option.split_asm)
  then show ?thesis using gone c(2) by (auto simp: basicAuthMatches_def)
qed

lemma rejectUnauthenticated_open: "so_basicAuth so = [] \<Longrightarrow> rejectUnauthenticated sha256 (resolveBasicAuth so) topts r = (r, None)"
  by (simp add: resolveBasicAuth_def rejectUnauthenticated_def)

end
