(* ===== verification/Header_Rules.thy ===== *)
theory Header_Rules
  imports Options
begin

text \<open>
  The header rules of \<open>header_rules.go\<close>: parsing of the flag values and application to a
  header map. Package \<open>httpguts\<close> is a third-party package: its two predicates are the
  parameters \<open>validName\<close> and \<open>validValue\<close>. Every rejection carries \<open>ErrTargetOptionsInvalid\<close>
  in the source; the datatype keeps which one it was.
\<close>

section \<open>The flags and their parsing\<close>

datatype headerDirection = RequestHeaderDirection | ResponseHeaderDirection

datatype headerRuleError = MissingColon | InvalidHeaderName | InvalidHeaderValue | HostHeaderRule

record headerRuleFlags =
  hf_remove :: "string list"
  hf_set :: "string list"
  hf_add :: "string list"

fun mapResult :: "('a \<Rightarrow> 'e + 'b) \<Rightarrow> 'a list \<Rightarrow> 'e + 'b list" where
  "mapResult f [] = Inr []"
| "mapResult f (x # xs) = (case f x of
       Inl e \<Rightarrow> Inl e
     | Inr y \<Rightarrow> (case mapResult f xs of Inl e \<Rightarrow> Inl e | Inr ys \<Rightarrow> Inr (y # ys)))"

definition parseHeaderName ::
  "(string \<Rightarrow> bool) \<Rightarrow> headerDirection \<Rightarrow> string \<Rightarrow> headerRuleError + string" where
  "parseHeaderName validName dir name =
     (if \<not> validName name then Inl InvalidHeaderName
      else let canonical = canonicalHeaderKey name
           in if dir = RequestHeaderDirection \<and> canonical = ''Host'' then Inl HostHeaderRule
              else Inr canonical)"

definition parseHeaderNames ::
  "(string \<Rightarrow> bool) \<Rightarrow> headerDirection \<Rightarrow> string list \<Rightarrow> headerRuleError + string list" where
  "parseHeaderNames validName dir values =
     mapResult (\<lambda>v. parseHeaderName validName dir (trimSpace v)) values"

definition parseHeaderRule ::
  "(string \<Rightarrow> bool) \<Rightarrow> (string \<Rightarrow> bool) \<Rightarrow> headerDirection \<Rightarrow> string \<Rightarrow> headerRuleError + headerRule" where
  "parseHeaderRule validName validValue dir v = (case cut v '':'' of (rawName, rawValue, found) \<Rightarrow>
     if \<not> found then Inl MissingColon
     else (case parseHeaderName validName dir (trimSpace rawName) of
             Inl e \<Rightarrow> Inl e
           | Inr name \<Rightarrow>
               (let headerValue = trimSpace rawValue
                in if \<not> validValue headerValue then Inl InvalidHeaderValue
                   else Inr \<lparr>hr_name = name, hr_value = headerValue\<rparr>)))"

definition parseHeaderRules ::
  "(string \<Rightarrow> bool) \<Rightarrow> (string \<Rightarrow> bool) \<Rightarrow> headerDirection \<Rightarrow> string list \<Rightarrow> headerRuleError + headerRule list" where
  "parseHeaderRules validName validValue dir values =
     mapResult (parseHeaderRule validName validValue dir) values"

definition newHeaderRules ::
  "(string \<Rightarrow> bool) \<Rightarrow> (string \<Rightarrow> bool) \<Rightarrow> headerRuleFlags \<Rightarrow> headerDirection \<Rightarrow> headerRuleError + headerRules" where
  "newHeaderRules validName validValue flags dir =
     (case parseHeaderNames validName dir (hf_remove flags) of
        Inl e \<Rightarrow> Inl e
      | Inr rm \<Rightarrow>
          (case parseHeaderRules validName validValue dir (hf_set flags) of
             Inl e \<Rightarrow> Inl e
           | Inr st \<Rightarrow>
               (case parseHeaderRules validName validValue dir (hf_add flags) of
                  Inl e \<Rightarrow> Inl e
                | Inr ad \<Rightarrow> Inr \<lparr>hr_remove = rm, hr_set = st, hr_add = ad\<rparr>)))"

section \<open>Application\<close>

definition applyHeaderRules :: "headerRules \<Rightarrow> header \<Rightarrow> header" where
  "applyHeaderRules hr h =
     fold (\<lambda>r h. hadd h (hr_name r) (hr_value r)) (hr_add hr)
       (fold (\<lambda>r h. hset h (hr_name r) (hr_value r)) (hr_set hr)
         (fold (\<lambda>n h. hdel h n) (hr_remove hr) h))"

section \<open>What application does to one field\<close>

definition sameField :: "string \<Rightarrow> string \<Rightarrow> bool" where
  "sameField a b \<longleftrightarrow> canonicalHeaderKey a = canonicalHeaderKey b"

definition valuesFor :: "string \<Rightarrow> headerRule list \<Rightarrow> string list" where
  "valuesFor k rs = map hr_value (filter (\<lambda>r. sameField k (hr_name r)) rs)"

lemma hvalues_sameField: "sameField a b \<Longrightarrow> hvalues h a = hvalues h b"
  by (simp add: sameField_def hvalues_def)

lemma fold_hdel:
  "hvalues (fold (\<lambda>n h. hdel h n) ns h) k =
     (if list_ex (sameField k) ns then [] else hvalues h k)"
  by (induction ns arbitrary: h) (auto simp: hvalues_hdel sameField_def)

lemma fold_hset:
  "hvalues (fold (\<lambda>r h. hset h (hr_name r) (hr_value r)) rs h) k =
     (if valuesFor k rs = [] then hvalues h k else [last (valuesFor k rs)])"
  by (induction rs arbitrary: h) (auto simp: hvalues_hset sameField_def valuesFor_def)

lemma fold_hadd:
  "hvalues (fold (\<lambda>r h. hadd h (hr_name r) (hr_value r)) rs h) k = hvalues h k @ valuesFor k rs"
proof (induction rs arbitrary: h)
  case (Cons r rs)
  then show ?case
    using hvalues_sameField[of k "hr_name r" h]
    by (auto simp: hvalues_hadd valuesFor_def sameField_def)
qed (simp add: valuesFor_def)

text \<open>Applying header rules gives every field exactly the values the documentation
  promises, whatever order the flags were in: a removal empties the field, the last set of it
  then replaces its values by one, and every add appends to what is there, in order. Field
  names are compared by their canonical form.\<close>

theorem applyHeaderRules_values:
  "hvalues (applyHeaderRules hr h) k =
     (if valuesFor k (hr_set hr) \<noteq> [] then [last (valuesFor k (hr_set hr))]
      else if list_ex (sameField k) (hr_remove hr) then []
      else hvalues h k)
     @ valuesFor k (hr_add hr)"
  by (simp add: applyHeaderRules_def fold_hadd fold_hset fold_hdel)

section \<open>What parsing accepts\<close>

lemma of_char_upperChar:
  "(of_char (upperChar c) :: nat) = (let n = of_char c in if 97 \<le> n \<and> n \<le> 122 then n - 32 else n)"
  by (auto simp: upperChar_def Let_def of_char_of)

lemma of_char_lowerChar:
  "(of_char (lowerChar c) :: nat) = (let n = of_char c in if 65 \<le> n \<and> n \<le> 90 then n + 32 else n)"
  by (auto simp: lowerChar_def Let_def of_char_of)

lemma char_eq_code: "c = d \<longleftrightarrow> (of_char c :: nat) = of_char d"
  by simp

lemma letter_token:
  "65 \<le> (of_char c :: nat) \<and> of_char c \<le> (90 :: nat) \<or> 97 \<le> (of_char c :: nat) \<and> of_char c \<le> (122 :: nat) \<Longrightarrow> tokenChar c"
  by (auto simp: tokenChar_def Let_def)

lemma upperChar_other: "\<not> (97 \<le> (of_char c :: nat) \<and> of_char c \<le> (122 :: nat)) \<Longrightarrow> upperChar c = c"
  by (auto simp: upperChar_def Let_def)

lemma lowerChar_other: "\<not> (65 \<le> (of_char c :: nat) \<and> of_char c \<le> (90 :: nat)) \<Longrightarrow> lowerChar c = c"
  by (auto simp: lowerChar_def Let_def)

lemma upperChar_canon [simp]:
  "upperChar (upperChar c) = upperChar c" "upperChar c = CHR ''-'' \<longleftrightarrow> c = CHR ''-''"
  "tokenChar (upperChar c) = tokenChar c"
proof -
  show "upperChar (upperChar c) = upperChar c"
    by (rule upperChar_other) (simp add: of_char_upperChar Let_def, linarith?)
  show "upperChar c = CHR ''-'' \<longleftrightarrow> c = CHR ''-''"
    unfolding char_eq_code by (auto simp: of_char_upperChar Let_def)
  show "tokenChar (upperChar c) = tokenChar c"
  proof (cases "97 \<le> (of_char c :: nat) \<and> of_char c \<le> (122 :: nat)")
    case True
    then have "tokenChar c" "tokenChar (upperChar c)"
      by (auto intro!: letter_token simp: of_char_upperChar)
    then show ?thesis by simp
  qed (simp add: upperChar_other)
qed

lemma lowerChar_canon [simp]:
  "lowerChar (lowerChar c) = lowerChar c" "lowerChar c = CHR ''-'' \<longleftrightarrow> c = CHR ''-''"
  "tokenChar (lowerChar c) = tokenChar c"
proof -
  show "lowerChar (lowerChar c) = lowerChar c"
    by (rule lowerChar_other) (simp add: of_char_lowerChar Let_def)
  show "lowerChar c = CHR ''-'' \<longleftrightarrow> c = CHR ''-''"
    unfolding char_eq_code by (auto simp: of_char_lowerChar Let_def)
  show "tokenChar (lowerChar c) = tokenChar c"
  proof (cases "65 \<le> (of_char c :: nat) \<and> of_char c \<le> (90 :: nat)")
    case True
    then have "tokenChar c" "tokenChar (lowerChar c)"
      by (auto intro!: letter_token simp: of_char_lowerChar)
    then show ?thesis by simp
  qed (simp add: lowerChar_other)
qed

lemma canonFrom_idem: "canonFrom b (canonFrom b k) = canonFrom b k"
  by (induction b k rule: canonFrom.induct) auto

lemma canonFrom_token: "list_all tokenChar (canonFrom b k) = list_all tokenChar k"
  by (induction b k rule: canonFrom.induct) auto

lemma canonicalHeaderKey_idem [simp]:
  "canonicalHeaderKey (canonicalHeaderKey k) = canonicalHeaderKey k"
  by (simp add: canonicalHeaderKey_def canonFrom_idem canonFrom_token)

lemma mapResult_image:
  assumes "mapResult f xs = Inr ys" and "y \<in> set ys"
  shows "\<exists>x\<in>set xs. f x = Inr y"
  using assms by (induction xs arbitrary: ys) (auto split: sum.splits)

lemma parseHeaderName_Inr:
  assumes "parseHeaderName vn dir name = Inr c"
  shows "canonicalHeaderKey c = c" and "dir = RequestHeaderDirection \<Longrightarrow> c \<noteq> ''Host''"
  using assms by (auto simp: parseHeaderName_def Let_def split: if_splits)

lemma parseHeaderRule_Inr:
  assumes "parseHeaderRule vn vv dir v = Inr r"
  shows "canonicalHeaderKey (hr_name r) = hr_name r" and "vv (hr_value r)"
    and "dir = RequestHeaderDirection \<Longrightarrow> hr_name r \<noteq> ''Host''"
  using assms parseHeaderName_Inr
  by (auto simp: parseHeaderRule_def Let_def case_prod_beta split: if_splits sum.splits)

lemma newHeaderRules_Inr:
  assumes "newHeaderRules vn vv flags dir = Inr hr"
  shows "parseHeaderNames vn dir (hf_remove flags) = Inr (hr_remove hr)"
    and "parseHeaderRules vn vv dir (hf_set flags) = Inr (hr_set hr)"
    and "parseHeaderRules vn vv dir (hf_add flags) = Inr (hr_add hr)"
  using assms by (auto simp: newHeaderRules_def split: sum.splits)

definition goodName :: "headerDirection \<Rightarrow> string \<Rightarrow> bool" where
  "goodName dir n \<longleftrightarrow> canonicalHeaderKey n = n \<and> (dir = RequestHeaderDirection \<longrightarrow> n \<noteq> ''Host'')"

lemma parseHeaderNames_good:
  "parseHeaderNames vn dir vs = Inr ns \<Longrightarrow> n \<in> set ns \<Longrightarrow> goodName dir n"
  unfolding parseHeaderNames_def goodName_def
  by (drule (1) mapResult_image) (auto dest: parseHeaderName_Inr)

lemma parseHeaderRules_good:
  "parseHeaderRules vn vv dir vs = Inr rs \<Longrightarrow> r \<in> set rs \<Longrightarrow> goodName dir (hr_name r)"
  unfolding parseHeaderRules_def goodName_def
  by (drule (1) mapResult_image) (auto dest: parseHeaderRule_Inr)

lemma parsed_names:
  assumes "newHeaderRules vn vv flags dir = Inr hr"
    and "n \<in> set (hr_remove hr) \<union> hr_name ` set (hr_set hr @ hr_add hr)"
  shows "goodName dir n"
  using assms(2) newHeaderRules_Inr[OF assms(1)] parseHeaderNames_good parseHeaderRules_good
  by auto

text \<open>Request header rules that parsing accepted never touch the Host field: whatever the
  flags were, the values of \<open>Host\<close> in the header map are the same after applying them as
  before. (The transport ignores that entry, so a rule on it would silently do nothing.)\<close>

theorem requestHeaderRules_keep_Host:
  assumes "newHeaderRules vn vv flags RequestHeaderDirection = Inr hr"
  shows "hvalues (applyHeaderRules hr h) ''Host'' = hvalues h ''Host''"
proof -
  have host: "canonicalHeaderKey ''Host'' = ''Host''" by code_simp
  have ne: "\<not> sameField ''Host'' n"
    if "n \<in> set (hr_remove hr) \<union> hr_name ` set (hr_set hr @ hr_add hr)" for n
    using parsed_names[OF assms that] host by (auto simp: goodName_def sameField_def)
  have "\<not> list_ex (sameField ''Host'') (hr_remove hr)"
    using ne by (auto simp: list_ex_iff)
  moreover have "valuesFor ''Host'' (hr_set hr) = []" "valuesFor ''Host'' (hr_add hr) = []"
    using ne by (auto simp: valuesFor_def filter_empty_conv)
  ultimately show ?thesis
    by (simp add: applyHeaderRules_def fold_hadd fold_hset fold_hdel)
qed

definition exampleFlags :: headerRuleFlags where
  "exampleFlags = \<lparr>hf_remove = ['' x-powered-by ''], hf_set = [''x-frame-options: DENY''],
     hf_add = [''link: <https://a/b>'', ''Link: <c>'']\<rparr>"

theorem requestHeaderRules_keep_Host_witness:
  "\<exists>hr. newHeaderRules (\<lambda>n. n \<noteq> []) (\<lambda>_. True) exampleFlags RequestHeaderDirection = Inr hr
     \<and> hvalues (applyHeaderRules hr [(''Host'', [''a'']), (''Link'', [''z''])]) ''Host'' = [''a'']"
proof -
  let ?hr = "\<lparr>hr_remove = [''X-Powered-By''], hr_set = [\<lparr>hr_name = ''X-Frame-Options'', hr_value = ''DENY''\<rparr>],
     hr_add = [\<lparr>hr_name = ''Link'', hr_value = ''<https://a/b>''\<rparr>, \<lparr>hr_name = ''Link'', hr_value = ''<c>''\<rparr>]\<rparr>"
  have parsed: "newHeaderRules (\<lambda>n. n \<noteq> []) (\<lambda>_. True) exampleFlags RequestHeaderDirection = Inr ?hr"
    by code_simp
  have "hvalues [(''Host'', [''a'']), (''Link'', [''z''])] ''Host'' = [''a'']"
    by code_simp
  then show ?thesis
    using parsed requestHeaderRules_keep_Host[OF parsed] by auto
qed

end
