(* ===== verification/Redirects.thy ===== *)
theory Redirects
  imports Urls Header_Rules
begin

text \<open>
  Redirect and rewrite rules (\<open>redirect_rules.go\<close>), the compiled host-scoped redirect map a service polls from its
  application (\<open>redirect_map.go\<close>), and the host grammar its entries go through (\<open>domain_source.go\<close>). Regular
  expressions and \<open>url.Parse\<close> are parameters: \<open>rx_compiles\<close> says whether a pattern compiles, \<open>rx_expand\<close> gives the
  expansion of a template by the match of an anchored pattern, if it matches.
\<close>

section \<open>Rules\<close>

record regexOps =
  rx_compiles :: "string \<Rightarrow> bool"
  rx_expand :: "string \<Rightarrow> string \<Rightarrow> string \<Rightarrow> string option"

datatype pathRuleKind = RedirectRule | RewriteRule

datatype pathRuleError = RuleFormat | RuleNeedsPattern | RuleNeedsReplacement | RuleBadPattern | RuleBadReplacement
  | RuleCannotSetStatus | RuleBadStatus

definition redirectStatuses :: "int list" where
  "redirectStatuses = [301, 302, 303, 307, 308]"

definition anchored :: "string \<Rightarrow> string" where
  "anchored p = ''^(?:'' @ p @ '')$''"

definition compilePathRulePattern :: "regexOps \<Rightarrow> pathRule \<Rightarrow> pathRuleError + string" where
  "compilePathRulePattern rx rule = (if rx_compiles rx (anchored (pr_pattern rule)) then Inr (anchored (pr_pattern rule)) else Inl RuleBadPattern)"

definition hasURLScheme :: "string \<Rightarrow> bool" where
  "hasURLScheme v \<longleftrightarrow> hasPrefix v ''http://'' \<or> hasPrefix v ''https://''"

definition validateReplacement :: "pathRuleKind \<Rightarrow> pathRule \<Rightarrow> pathRuleError option" where
  "validateReplacement kind rule =
     (if hasPrefix (pr_replacement rule) ''/'' then None
      else if kind = RedirectRule \<and> hasURLScheme (pr_replacement rule) then None
      else Some RuleBadReplacement)"

definition validatePathRule :: "regexOps \<Rightarrow> pathRuleKind \<Rightarrow> pathRule \<Rightarrow> pathRuleError option" where
  "validatePathRule rx kind rule =
     (if pr_pattern rule = [] then Some RuleNeedsPattern
      else if pr_replacement rule = [] then Some RuleNeedsReplacement
      else case compilePathRulePattern rx rule of
             Inl e \<Rightarrow> Some e
           | Inr _ \<Rightarrow>
               (case validateReplacement kind rule of
                  Some e \<Rightarrow> Some e
                | None \<Rightarrow>
                    if pr_status rule \<noteq> 0 then
                      (if kind \<noteq> RedirectRule then Some RuleCannotSetStatus
                       else if pr_status rule \<notin> set redirectStatuses then Some RuleBadStatus else None)
                    else None))"

definition cutRuleStatus :: "string \<Rightarrow> string \<times> int" where
  "cutRuleStatus replacement = (case cut replacement '';status='' of (head, tail, found) \<Rightarrow>
     if \<not> found then (replacement, 0)
     else case parseInt tail of None \<Rightarrow> (replacement, 0) | Some status \<Rightarrow> (head, status))"

definition parsePathRule :: "regexOps \<Rightarrow> pathRuleKind \<Rightarrow> string \<Rightarrow> pathRuleError + pathRule" where
  "parsePathRule rx kind value = (case cut value ''='' of (pattern, replacement, found) \<Rightarrow>
     if \<not> found then Inl RuleFormat
     else case cutRuleStatus replacement of (repl, status) \<Rightarrow>
       let rule = \<lparr>pr_pattern = pattern, pr_replacement = repl, pr_status = status\<rparr>
       in case validatePathRule rx kind rule of Some e \<Rightarrow> Inl e | None \<Rightarrow> Inr rule)"

definition newPathRules :: "regexOps \<Rightarrow> pathRuleKind \<Rightarrow> string list \<Rightarrow> pathRuleError + pathRule list" where
  "newPathRules rx kind values = mapResult (parsePathRule rx kind) values"

definition validatePathRules :: "regexOps \<Rightarrow> serviceOptions \<Rightarrow> pathRuleError option" where
  "validatePathRules rx so =
     (case List.map_filter (validatePathRule rx RedirectRule) (so_redirects so) of
        e # _ \<Rightarrow> Some e
      | [] \<Rightarrow> (case List.map_filter (validatePathRule rx RewriteRule) (so_rewrites so) of e # _ \<Rightarrow> Some e | [] \<Rightarrow> None))"

section \<open>Compiled rules\<close>

record compiledPathRule =
  cr_pattern :: string
  cr_replacement :: string
  cr_status :: int

text \<open>A nil set matches nothing, as an empty one does; both are the empty list.\<close>

definition newPathRuleSet :: "regexOps \<Rightarrow> pathRule list \<Rightarrow> pathRuleError + compiledPathRule list" where
  "newPathRuleSet rx rules =
     mapResult (\<lambda>rule. map_sum id (\<lambda>p. \<lparr>cr_pattern = p, cr_replacement = pr_replacement rule, cr_status = pr_status rule\<rparr>)
        (compilePathRulePattern rx rule)) rules"

definition resolvePathRules :: "regexOps \<Rightarrow> serviceOptions \<Rightarrow> pathRuleError + compiledPathRule list \<times> compiledPathRule list" where
  "resolvePathRules rx so =
     (case newPathRuleSet rx (so_redirects so) of
        Inl e \<Rightarrow> Inl e
      | Inr redirects \<Rightarrow> map_sum id (\<lambda>rewrites. (redirects, rewrites)) (newPathRuleSet rx (so_rewrites so)))"

definition splitRuleTarget :: "string \<Rightarrow> url" where
  "splitRuleTarget value =
     (if hasURLScheme value then
        (case cut value ''://'' of (scheme, rest, _) \<Rightarrow>
           case cut rest ''/'' of (host, path, rooted) \<Rightarrow>
             case cut (if rooted then ''/'' @ path else path) ''?'' of (p, q, _) \<Rightarrow>
               zeroURL\<lparr>u_scheme := scheme, u_host := host, u_path := p, u_rawQuery := q\<rparr>)
      else case cut value ''?'' of (p, q, _) \<Rightarrow> zeroURL\<lparr>u_path := p, u_rawQuery := q\<rparr>)"

fun ruleMatch :: "regexOps \<Rightarrow> compiledPathRule list \<Rightarrow> string \<Rightarrow> string \<Rightarrow> (url \<times> int) option" where
  "ruleMatch rx [] path rawQuery = None"
| "ruleMatch rx (rule # rules) path rawQuery =
     (case rx_expand rx (cr_pattern rule) (cr_replacement rule) path of
        None \<Rightarrow> ruleMatch rx rules path rawQuery
      | Some expanded \<Rightarrow>
          (let target = splitRuleTarget expanded;
               target' = (if u_rawQuery target = [] then target\<lparr>u_rawQuery := rawQuery\<rparr> else target)
           in Some (target', if cr_status rule = 0 then 301 else cr_status rule)))"

definition sameResource :: "url \<Rightarrow> url \<Rightarrow> bool" where
  "sameResource a b \<longleftrightarrow>
     (let pathA = (if escapedPath a = [] then rootPath else escapedPath a);
          pathB = (if escapedPath b = [] then rootPath else escapedPath b)
      in equalFold (u_scheme a) (u_scheme b) \<and> equalFold (u_host a) (u_host b) \<and> pathA = pathB \<and> u_rawQuery a = u_rawQuery b)"

text \<open>The location as a URL, not yet printed.\<close>

definition resolveRedirectLocation :: "url \<times> int \<Rightarrow> url \<Rightarrow> url \<Rightarrow> (url \<times> int) option" where
  "resolveRedirectLocation m current desired = (case m of (target, status) \<Rightarrow>
     let target' = (if u_scheme target = [] then target\<lparr>u_scheme := u_scheme desired, u_host := u_host desired\<rparr> else target)
     in if sameResource target' current then None else Some (target', status))"

definition redirectRuleURL :: "regexOps \<Rightarrow> compiledPathRule list \<Rightarrow> url \<Rightarrow> url \<Rightarrow> (url \<times> int) option" where
  "redirectRuleURL rx redirects current desired =
     (case ruleMatch rx redirects (u_path current) (u_rawQuery current) of
        None \<Rightarrow> None
      | Some m \<Rightarrow> resolveRedirectLocation m current desired)"

definition rewriteRequest :: "regexOps \<Rightarrow> compiledPathRule list \<Rightarrow> request \<Rightarrow> request" where
  "rewriteRequest rx rewrites r =
     (if req_internal r then r
      else case ruleMatch rx rewrites (req_path r) (req_raw_query r) of
             None \<Rightarrow> r
           | Some (target, _) \<Rightarrow> r\<lparr>req_path := u_path target, req_raw_path := [], req_raw_query := u_rawQuery target\<rparr>)"

section \<open>The host grammar\<close>

definition lowerLetter :: "char \<Rightarrow> bool" where
  "lowerLetter c \<longleftrightarrow> (let n = of_char c :: nat in 97 \<le> n \<and> n \<le> 122)"

definition decimalDigit :: "char \<Rightarrow> bool" where
  "decimalDigit c \<longleftrightarrow> (let n = of_char c :: nat in 48 \<le> n \<and> n \<le> 57)"

definition validLabel :: "string \<Rightarrow> bool" where
  "validLabel l \<longleftrightarrow> l \<noteq> [] \<and> length l \<le> 63 \<and> hd l \<noteq> CHR ''-'' \<and> last l \<noteq> CHR ''-''
     \<and> list_all (\<lambda>c. lowerLetter c \<or> decimalDigit c \<or> c = CHR ''-'') l"

definition validDynamicDomain :: "string \<Rightarrow> bool" where
  "validDynamicDomain d \<longleftrightarrow> d \<noteq> [] \<and> length d \<le> 253
     \<and> (let labels = splitAt (CHR ''.'') d
        in length labels \<ge> 2 \<and> list_all validLabel labels \<and> list_ex lowerLetter (last labels))"

section \<open>The dynamic redirect map\<close>

record redirectPathRule =
  rp_from :: string
  rp_to :: string
  rp_status :: int

record redirectHostConfig =
  rh_redirectTo :: string
  rh_status :: int
  rh_preservePath :: bool
  rh_trailingSlash :: string
  rh_paths :: "redirectPathRule list"

record compiledHostRedirect =
  chr_redirectTo :: "url option"
  chr_status :: int
  chr_preservePath :: bool
  chr_stripTrailingSlash :: bool
  chr_rules :: "compiledPathRule list"

datatype hostRedirectError = RedirectToInvalid | RedirectToNotAbsolute | RedirectBadStatus | UnknownTrailingSlash

record dynamicRedirectMap =
  dm_hosts :: "(string \<times> compiledHostRedirect) list"
  dm_ruleCount :: nat

definition trimRightChar :: "char \<Rightarrow> string \<Rightarrow> string" where
  "trimRightChar c s = rev (dropWhile (\<lambda>x. x = c) (rev s))"

definition normalizeRedirectHost :: "string \<Rightarrow> string" where
  "normalizeRedirectHost host = toLower (trimSuffix (trimSpace host) ''.'')"

definition redirectExemptPrefixes :: "string list" where
  "redirectExemptPrefixes = [''/.well-known/acme-challenge/'', ''/.kamal-proxy/'']"

definition isRedirectExemptPath :: "string \<Rightarrow> bool" where
  "isRedirectExemptPath path \<longleftrightarrow> list_ex (\<lambda>p. hasPrefix path p) redirectExemptPrefixes"

text \<open>One path rule of an entry: \<open>None\<close> when it is skipped with a warning.\<close>

definition compileDynamicRule :: "regexOps \<Rightarrow> redirectPathRule \<Rightarrow> compiledPathRule option" where
  "compileDynamicRule rx path =
     (let rule = \<lparr>pr_pattern = rp_from path, pr_replacement = rp_to path, pr_status = rp_status path\<rparr>
      in case compilePathRulePattern rx rule of
           Inl _ \<Rightarrow> None
         | Inr pattern \<Rightarrow>
             if validateReplacement RedirectRule rule \<noteq> None then None
             else if pr_status rule \<noteq> 0 \<and> pr_status rule \<notin> set redirectStatuses then None
             else Some \<lparr>cr_pattern = pattern, cr_replacement = pr_replacement rule, cr_status = pr_status rule\<rparr>)"

definition compileHostRedirect :: "regexOps \<Rightarrow> (string \<Rightarrow> url option) \<Rightarrow> redirectHostConfig \<Rightarrow> hostRedirectError + compiledHostRedirect option" where
  "compileHostRedirect rx parseURL config =
     (case (if rh_redirectTo config = [] then Inr None
            else case parseURL (rh_redirectTo config) of
                   None \<Rightarrow> Inl RedirectToInvalid
                 | Some target \<Rightarrow> if u_scheme target \<noteq> ''http'' \<and> u_scheme target \<noteq> ''https'' \<or> hostname target = []
                                  then Inl RedirectToNotAbsolute else Inr (Some target)) of
        Inl e \<Rightarrow> Inl e
      | Inr redirectTo \<Rightarrow>
          if rh_status config \<noteq> 0 \<and> rh_status config \<notin> set redirectStatuses then Inl RedirectBadStatus
          else if rh_trailingSlash config \<noteq> [] \<and> rh_trailingSlash config \<noteq> ''strip'' then Inl UnknownTrailingSlash
          else (let strip = (rh_trailingSlash config = ''strip'');
                    rules = List.map_filter (compileDynamicRule rx) (rh_paths config)
                in if redirectTo = None \<and> rules = [] \<and> \<not> strip then Inr None
                   else Inr (Some \<lparr>chr_redirectTo = redirectTo, chr_status = (if rh_status config = 0 then 301 else rh_status config),
                          chr_preservePath = rh_preservePath config, chr_stripTrailingSlash = strip, chr_rules = rules\<rparr>)))"

definition compileEntry :: "regexOps \<Rightarrow> (string \<Rightarrow> url option) \<Rightarrow> string \<times> redirectHostConfig \<Rightarrow> dynamicRedirectMap \<Rightarrow> dynamicRedirectMap" where
  "compileEntry rx parseURL p m = (case p of (host, config) \<Rightarrow>
     let normalized = normalizeRedirectHost host
     in if \<not> validDynamicDomain normalized then m
        else if map_of (dm_hosts m) normalized \<noteq> None then m
        else case compileHostRedirect rx parseURL config of
               Inr (Some e) \<Rightarrow> m\<lparr>dm_hosts := (normalized, e) # dm_hosts m, dm_ruleCount := dm_ruleCount m + length (chr_rules e)\<rparr>
             | _ \<Rightarrow> m)"

text \<open>The payload's hosts, a map with distinct keys, are walked in the order of their keys.\<close>

definition compileRedirectMap :: "regexOps \<Rightarrow> (string \<Rightarrow> url option) \<Rightarrow> (string \<times> redirectHostConfig) list \<Rightarrow> dynamicRedirectMap" where
  "compileRedirectMap rx parseURL hosts =
     fold (compileEntry rx parseURL) (sort_key fst hosts) \<lparr>dm_hosts = [], dm_ruleCount = 0\<rparr>"

definition dynamicRedirectURL :: "regexOps \<Rightarrow> dynamicRedirectMap option \<Rightarrow> url \<Rightarrow> url \<Rightarrow> (url \<times> int) option" where
  "dynamicRedirectURL rx dm current desired = (case dm of
       None \<Rightarrow> None
     | Some m \<Rightarrow>
         (case map_of (dm_hosts m) (normalizeRedirectHost (u_host current)) of
            None \<Rightarrow> None
          | Some e \<Rightarrow>
              (case chr_redirectTo e of
                 Some to \<Rightarrow>
                   (let target = (if chr_preservePath e
                                  then to\<lparr>u_path := trimSuffix (u_path to) ''/'' @ u_path current,
                                          u_rawPath := trimSuffix (escapedPath to) ''/'' @ escapedPath current,
                                          u_rawQuery := u_rawQuery current\<rparr>
                                  else to)
                    in if sameResource target current then None else Some (target, chr_status e))
               | None \<Rightarrow>
                   (case ruleMatch rx (chr_rules e) (u_path current) (u_rawQuery current) of
                      Some m \<Rightarrow> resolveRedirectLocation m current desired
                    | None \<Rightarrow>
                        if chr_stripTrailingSlash e \<and> u_path current \<noteq> rootPath \<and> hasSuffix (u_path current) ''/'' then
                          (let stripped = trimRightChar (CHR ''/'') (u_path current)
                           in Some (desired\<lparr>u_path := (if stripped = [] then rootPath else stripped), u_rawQuery := u_rawQuery current\<rparr>, 301))
                        else None))))"

section \<open>The redirect decision of a service\<close>

definition redirectHost :: "request \<Rightarrow> string" where
  "redirectHost r = (case splitHostPort (req_host r) of Some (h, _) \<Rightarrow> h | None \<Rightarrow> req_host r)"

definition currentScheme :: "request \<Rightarrow> string" where
  "currentScheme r = (if req_tls r then ''https'' else ''http'')"

definition desiredScheme :: "serviceOptions \<Rightarrow> request \<Rightarrow> string" where
  "desiredScheme so r = (if so_tlsEnabled so \<and> so_tlsRedirect so \<and> currentScheme r = ''http'' then ''https'' else currentScheme r)"

definition desiredHost :: "serviceOptions \<Rightarrow> request \<Rightarrow> string" where
  "desiredHost so r = (if so_canonicalHost so \<noteq> [] \<and> redirectHost r \<noteq> so_canonicalHost so then so_canonicalHost so else redirectHost r)"

definition currentURL :: "request \<Rightarrow> url" where
  "currentURL r = zeroURL\<lparr>u_scheme := currentScheme r, u_host := redirectHost r, u_path := req_path r, u_rawPath := req_raw_path r,
     u_rawQuery := req_raw_query r\<rparr>"

definition desiredURL :: "serviceOptions \<Rightarrow> request \<Rightarrow> url" where
  "desiredURL so r = zeroURL\<lparr>u_scheme := desiredScheme so r, u_host := desiredHost so r\<rparr>"

definition redirectTarget :: "regexOps \<Rightarrow> serviceOptions \<Rightarrow> compiledPathRule list \<Rightarrow> dynamicRedirectMap option \<Rightarrow> request \<Rightarrow> (url \<times> int) option" where
  "redirectTarget rx so redirects dyn r =
     (if isRedirectExemptPath (req_path r) then None
      else case dynamicRedirectURL rx dyn (currentURL r) (desiredURL so r) of
             Some t \<Rightarrow> Some t
           | None \<Rightarrow> redirectRuleURL rx redirects (currentURL r) (desiredURL so r))"

definition redirectURLIfNeeded :: "regexOps \<Rightarrow> serviceOptions \<Rightarrow> compiledPathRule list \<Rightarrow> dynamicRedirectMap option \<Rightarrow> request \<Rightarrow> (string \<times> int) option" where
  "redirectURLIfNeeded rx so redirects dyn r =
     (if req_internal r then None
      else case redirectTarget rx so redirects dyn r of
             Some (t, status) \<Rightarrow> Some (urlString t, status)
           | None \<Rightarrow>
               if desiredScheme so r \<noteq> currentScheme r \<or> desiredHost so r \<noteq> redirectHost r
               then Some (desiredScheme so r @ ''://'' @ desiredHost so r @ requestURI (currentURL r), 301) else None)"

section \<open>Redirects do not loop\<close>

definition statusesOK :: "compiledPathRule list \<Rightarrow> bool" where
  "statusesOK rules \<longleftrightarrow> list_all (\<lambda>c. cr_status c = 0 \<or> cr_status c \<in> set redirectStatuses) rules"

lemma status301: "301 \<in> set redirectStatuses"
  by (simp add: redirectStatuses_def)

lemma ruleMatch_status: "ruleMatch rx rules p q = Some (t, s) \<Longrightarrow> statusesOK rules \<Longrightarrow> s \<in> set redirectStatuses"
  by (induction rx rules p q rule: ruleMatch.induct)
     (auto simp: statusesOK_def Let_def status301 split: option.split_asm if_split_asm)

lemma validatePathRule_status: "validatePathRule rx RedirectRule rule = None \<Longrightarrow> pr_status rule = 0 \<or> pr_status rule \<in> set redirectStatuses"
  by (auto simp: validatePathRule_def split: if_split_asm sum.split_asm option.split_asm)

lemma newPathRuleSet_statuses:
  "newPathRuleSet rx rules = Inr cs \<Longrightarrow> \<forall>rule \<in> set rules. pr_status rule = 0 \<or> pr_status rule \<in> set redirectStatuses \<Longrightarrow> statusesOK cs"
proof -
  assume cs: "newPathRuleSet rx rules = Inr cs" and ok: "\<forall>rule \<in> set rules. pr_status rule = 0 \<or> pr_status rule \<in> set redirectStatuses"
  have "cr_status c = 0 \<or> cr_status c \<in> set redirectStatuses" if c: "c \<in> set cs" for c
  proof -
    obtain rule where rule: "rule \<in> set rules"
      and "map_sum id (\<lambda>p. \<lparr>cr_pattern = p, cr_replacement = pr_replacement rule, cr_status = pr_status rule\<rparr>) (compilePathRulePattern rx rule) = Inr c"
      using mapResult_image[OF cs[unfolded newPathRuleSet_def] c] by blast
    then have "cr_status c = pr_status rule" by (cases "compilePathRulePattern rx rule") auto
    then show ?thesis using ok rule by simp
  qed
  then show ?thesis by (simp add: statusesOK_def list_all_iff)
qed

lemma map_filter_none: "List.map_filter f xs = [] \<Longrightarrow> x \<in> set xs \<Longrightarrow> f x = None"
  by (induction xs) (auto simp: map_filter_simps split: option.split_asm)

lemma map_sum_Inr: "map_sum f g x = Inr y \<Longrightarrow> \<exists>z. x = Inr z \<and> y = g z"
  by (cases x) simp_all

lemma resolvePathRules_redirects:
  assumes "resolvePathRules rx so = Inr (redirects, rewrites)"
  shows "newPathRuleSet rx (so_redirects so) = Inr redirects"
proof (cases "newPathRuleSet rx (so_redirects so)")
  case (Inl e)
  then show ?thesis using assms by (simp add: resolvePathRules_def)
next
  case (Inr cs)
  have "map_sum id (\<lambda>rws. (cs, rws)) (newPathRuleSet rx (so_rewrites so)) = Inr (redirects, rewrites)"
    using assms by (simp only: resolvePathRules_def Inr sum.case)
  then have "cs = redirects" by (blast dest: map_sum_Inr)
  then show ?thesis by (simp only: Inr)
qed

lemma validated_statuses:
  assumes "validatePathRules rx so = None" and "resolvePathRules rx so = Inr (redirects, rewrites)"
  shows "statusesOK redirects"
proof (rule newPathRuleSet_statuses)
  show "newPathRuleSet rx (so_redirects so) = Inr redirects"
    by (rule resolvePathRules_redirects[OF assms(2)])
  have none: "List.map_filter (validatePathRule rx RedirectRule) (so_redirects so) = []"
    using assms(1) by (simp add: validatePathRules_def split: list.split_asm)
  show "\<forall>rule \<in> set (so_redirects so). pr_status rule = 0 \<or> pr_status rule \<in> set redirectStatuses"
    by (rule ballI, rule validatePathRule_status[of rx], rule map_filter_none[OF none])
qed

definition hostRedirectOK :: "compiledHostRedirect \<Rightarrow> bool" where
  "hostRedirectOK e \<longleftrightarrow> chr_status e \<in> set redirectStatuses \<and> statusesOK (chr_rules e)"

lemma compileDynamicRule_status: "compileDynamicRule rx p = Some c \<Longrightarrow> cr_status c = 0 \<or> cr_status c \<in> set redirectStatuses"
  by (auto simp: compileDynamicRule_def Let_def split: sum.split_asm if_split_asm)

lemma compileHostRedirect_ok:
  assumes "compileHostRedirect rx parseURL config = Inr (Some e)"
  shows "hostRedirectOK e"
proof -
  have "chr_status e \<in> set redirectStatuses" and "chr_rules e = List.map_filter (compileDynamicRule rx) (rh_paths config)"
    using assms by (auto simp: compileHostRedirect_def Let_def status301 split: sum.split_asm if_split_asm)
  moreover have "c \<in> set (List.map_filter (compileDynamicRule rx) ps) \<Longrightarrow> cr_status c = 0 \<or> cr_status c \<in> set redirectStatuses" for c ps
    by (auto simp: List.map_filter_def dest: compileDynamicRule_status)
  ultimately show ?thesis by (auto simp: hostRedirectOK_def statusesOK_def list_all_iff)
qed

lemma compileRedirectMap_ok: "map_of (dm_hosts (compileRedirectMap rx parseURL hosts)) h = Some e \<Longrightarrow> hostRedirectOK e"
proof -
  have step: "(\<forall>q \<in> set (dm_hosts m). hostRedirectOK (snd q)) \<Longrightarrow> (\<forall>q \<in> set (dm_hosts (fold (compileEntry rx parseURL) hs m)). hostRedirectOK (snd q))" for hs m
  proof (induction hs arbitrary: m)
    case (Cons p hs)
    have "\<forall>q \<in> set (dm_hosts (compileEntry rx parseURL p m)). hostRedirectOK (snd q)"
      using Cons.prems by (auto simp: compileEntry_def Let_def compileHostRedirect_ok split: prod.split sum.split option.split)
    then show ?case using Cons.IH by simp
  qed simp
  have "\<forall>q \<in> set (dm_hosts (compileRedirectMap rx parseURL hosts)). hostRedirectOK (snd q)"
    unfolding compileRedirectMap_def by (rule step) simp
  moreover assume "map_of (dm_hosts (compileRedirectMap rx parseURL hosts)) h = Some e"
  ultimately show ?thesis by (auto dest!: map_of_SomeD)
qed

lemma resolveRedirectLocation_ok:
  "resolveRedirectLocation (t, s) current desired = Some (t', s') \<Longrightarrow> \<not> sameResource t' current \<and> s' = s"
  by (auto simp: resolveRedirectLocation_def Let_def split: if_split_asm)

lemma trimRightChar_shorter: "hasSuffix s [c] \<Longrightarrow> length (trimRightChar c s) < length s"
  using length_dropWhile_le[of "\<lambda>x. x = c" "rev (butlast s)"]
  by (auto simp: trimRightChar_def hasSuffix_iff less_Suc_eq_le)

lemma stripped_differs:
  assumes "hasSuffix (u_path u) ''/''" and "u_path u \<noteq> rootPath"
    and "u_path t = (if trimRightChar (CHR ''/'') (u_path u) = [] then rootPath else trimRightChar (CHR ''/'') (u_path u))"
  shows "\<not> sameResource t u"
proof
  assume same: "sameResource t u"
  have ne: "u_path t \<noteq> []" "u_path u \<noteq> []" using assms by (auto simp: rootPath_def hasSuffix_iff)
  then have "escapedPath t = escapedPath u" using same by (simp add: sameResource_def escapedPath_empty)
  then have "u_path t = u_path u" by (rule escapedPath_inj)
  then show False using assms trimRightChar_shorter[OF assms(1)] by (auto split: if_split_asm)
qed

lemma dynamicRedirectURL_ok:
  assumes "dynamicRedirectURL rx (Some m) current desired = Some (t, s)"
    and "\<And>h e. map_of (dm_hosts m) h = Some e \<Longrightarrow> hostRedirectOK e"
  shows "\<not> sameResource t current \<and> s \<in> set redirectStatuses"
proof -
  obtain e where e: "map_of (dm_hosts m) (normalizeRedirectHost (u_host current)) = Some e"
    using assms(1) by (auto simp: dynamicRedirectURL_def split: option.split_asm)
  have ok: "hostRedirectOK e" by (rule assms(2)[OF e])
  show ?thesis
  proof (cases "chr_redirectTo e")
    case (Some to)
    then show ?thesis using assms(1) e ok
      by (auto simp: dynamicRedirectURL_def Let_def hostRedirectOK_def split: if_split_asm)
  next
    case None
    show ?thesis
    proof (cases "ruleMatch rx (chr_rules e) (u_path current) (u_rawQuery current)")
      case (Some mt)
      obtain t0 s0 where mt: "mt = (t0, s0)" by fastforce
      then have "resolveRedirectLocation (t0, s0) current desired = Some (t, s)"
        using assms(1) e None Some by (simp add: dynamicRedirectURL_def)
      then show ?thesis using resolveRedirectLocation_ok ruleMatch_status[of rx "chr_rules e"] Some mt ok
        by (fastforce simp: hostRedirectOK_def)
    next
      case norule: None
      then have "u_path current \<noteq> rootPath" "hasSuffix (u_path current) ''/''" "s = 301"
        and "t = desired\<lparr>u_path := (if trimRightChar (CHR ''/'') (u_path current) = [] then rootPath else trimRightChar (CHR ''/'') (u_path current)),
              u_rawQuery := u_rawQuery current\<rparr>"
        using assms(1) e None by (auto simp: dynamicRedirectURL_def Let_def split: if_split_asm)
      then show ?thesis using stripped_differs[of current t] status301 by simp
    qed
  qed
qed


text \<open>A matcher for patterns without operators: the path itself, replaced by the template as it stands.\<close>

definition literalRegex :: regexOps where
  "literalRegex = \<lparr>rx_compiles = (\<lambda>p. True), rx_expand = (\<lambda>p t path. if p = anchored path then Some t else None)\<rparr>"

definition movedRules :: serviceOptions where
  "movedRules = zeroServiceOptions\<lparr>so_redirects := [\<lparr>pr_pattern = ''/old'', pr_replacement = ''/new'', pr_status = 302\<rparr>]\<rparr>"

definition movedRequest :: request where
  "movedRequest = emptyRequest\<lparr>req_host := ''a.io'', req_path := ''/old''\<rparr>"


text \<open>The canonical host is compared byte for byte, and its case is never normalised: a client whose requests carry
  the lower-case spelling of a host (as browsers do) is sent from \<open>example.com\<close> to \<open>Example.com\<close>, asks for
  \<open>example.com\<close> again, and is redirected to the same place for ever.\<close>

definition upperCanonical :: serviceOptions where
  "upperCanonical = zeroServiceOptions\<lparr>so_canonicalHost := ''Example.com''\<rparr>"

lemma canonical_host_case_redirects:
  "redirectURLIfNeeded rx upperCanonical [] None (emptyRequest\<lparr>req_host := toLower ''Example.com''\<rparr>) = Some (''http://Example.com/'', 301)"
proof -
  have "redirectTarget rx upperCanonical [] None (emptyRequest\<lparr>req_host := toLower ''Example.com''\<rparr>) = None"
    by (simp add: redirectTarget_def dynamicRedirectURL_def redirectRuleURL_def)
  moreover have "desiredHost upperCanonical (emptyRequest\<lparr>req_host := toLower ''Example.com''\<rparr>) = ''Example.com''" by code_simp
  moreover have "redirectHost (emptyRequest\<lparr>req_host := toLower ''Example.com''\<rparr>) \<noteq> ''Example.com''" by code_simp
  moreover have "desiredScheme upperCanonical (emptyRequest\<lparr>req_host := toLower ''Example.com''\<rparr>) = ''http''" by code_simp
  moreover have "requestURI (currentURL (emptyRequest\<lparr>req_host := toLower ''Example.com''\<rparr>)) = ''/''" by code_simp
  ultimately show ?thesis by (simp add: redirectURLIfNeeded_def emptyRequest_def)
qed

end
