(* ===== verification/Client_Address.thy ===== *)
theory Client_Address
  imports Options Header_Rules
begin

unbundle bit_operations_syntax

text \<open>
  Client addresses: package \<open>netip\<close> as far as the proxy uses it (addresses as words, their
  textual form, prefixes), and the resolver and address lists of \<open>ip_allow_list.go\<close> and
  \<open>deny_list.go\<close>. The zero \<open>netip.Addr\<close> is \<open>None\<close>. Regular expressions are a parameter: whether a
  pattern compiles and what it matches.
\<close>

section \<open>Package netip\<close>

datatype ipAddr = V4 "32 word" | V6 "128 word" string

datatype ipPrefix = IPPrefix ipAddr nat

definition is4In6 :: "ipAddr \<Rightarrow> bool" where
  "is4In6 a = (case a of V4 _ \<Rightarrow> False | V6 w _ \<Rightarrow> drop_bit 32 w = 0xFFFF)"

definition unmap :: "ipAddr \<Rightarrow> ipAddr" where
  "unmap a = (case a of V4 w \<Rightarrow> V4 w | V6 w z \<Rightarrow> if is4In6 a then V4 (ucast w) else V6 w z)"

definition withoutZone :: "ipAddr \<Rightarrow> ipAddr" where
  "withoutZone a = (case a of V4 w \<Rightarrow> V4 w | V6 w _ \<Rightarrow> V6 w [])"

definition bitLen :: "ipAddr \<Rightarrow> nat" where
  "bitLen a = (case a of V4 _ \<Rightarrow> 32 | V6 _ _ \<Rightarrow> 128)"

definition prefixContains :: "ipPrefix \<Rightarrow> ipAddr \<Rightarrow> bool" where
  "prefixContains p a = (case (p, a) of
       (IPPrefix (V4 n) bits, V4 w) \<Rightarrow> bits \<le> 32 \<and> drop_bit (32 - bits) (w XOR n) = 0
     | (IPPrefix (V6 n _) bits, V6 w z) \<Rightarrow> bits \<le> 128 \<and> z = [] \<and> drop_bit (128 - bits) (w XOR n) = 0
     | _ \<Rightarrow> False)"

definition masked :: "ipPrefix \<Rightarrow> ipPrefix" where
  "masked p = (case p of
       IPPrefix (V4 n) bits \<Rightarrow> IPPrefix (V4 (push_bit (32 - bits) (drop_bit (32 - bits) n))) bits
     | IPPrefix (V6 n _) bits \<Rightarrow> IPPrefix (V6 (push_bit (128 - bits) (drop_bit (128 - bits) n)) []) bits)"

subsection \<open>Parsing\<close>

definition parseOctet :: "string \<Rightarrow> int option" where
  "parseOctet s = (case parseDigits s of
       None \<Rightarrow> None
     | Some n \<Rightarrow> if n > 255 \<or> length s > 1 \<and> hd s = CHR ''0'' then None else Some (int n))"

definition parseIPv4 :: "string \<Rightarrow> (32 word) option" where
  "parseIPv4 s = (case map parseOctet (splitAt (CHR ''.'') s) of
       [Some a, Some b, Some c, Some d] \<Rightarrow> Some (word_of_int (((a * 256 + b) * 256 + c) * 256 + d))
     | _ \<Rightarrow> None)"

definition hexVal :: "char \<Rightarrow> int option" where
  "hexVal c = (let n = of_char c :: int in
     if 48 \<le> n \<and> n \<le> 57 then Some (n - 48)
     else if 97 \<le> n \<and> n \<le> 102 then Some (n - 87)
     else if 65 \<le> n \<and> n \<le> 70 then Some (n - 55) else None)"

fun hexDigits :: "string \<Rightarrow> string" where
  "hexDigits [] = []"
| "hexDigits (c # cs) = (if hexVal c = None then [] else c # hexDigits cs)"

definition hexNum :: "string \<Rightarrow> int" where
  "hexNum s = foldl (\<lambda>acc c. acc * 16 + (case hexVal c of Some d \<Rightarrow> d | None \<Rightarrow> 0)) 0 s"

text \<open>The loop of \<open>parseIPv6\<close>: the 16-bit groups that still fit, those read so far, and the place of
  the ellipsis. A dot after a group starts a trailing IPv4 address, which fills two groups.\<close>

fun parseIPv6Groups :: "nat \<Rightarrow> int list \<Rightarrow> nat option \<Rightarrow> string \<Rightarrow> (int list \<times> nat option) option" where
  "parseIPv6Groups 0 gs ell s = (if s = [] then Some (gs, ell) else None)"
| "parseIPv6Groups (Suc n) gs ell s =
     (let ds = hexDigits s; rest = drop (length ds) s
      in if ds = [] \<or> length ds > 4 then None
         else if rest \<noteq> [] \<and> hd rest = CHR ''.'' then
           (if ell = None \<and> length gs \<noteq> 6 then None
            else if length gs + 2 > 8 then None
            else case parseIPv4 s of
                   None \<Rightarrow> None
                 | Some w \<Rightarrow> Some (gs @ [uint (drop_bit 16 w), uint (w AND 0xFFFF)], ell))
         else let gs' = gs @ [hexNum ds]
              in if rest = [] then Some (gs', ell)
                 else if hd rest \<noteq> CHR '':'' \<or> tl rest = [] then None
                 else if hd (tl rest) = CHR '':'' then
                   (if ell \<noteq> None then None
                    else if tl (tl rest) = [] then Some (gs', Some (length gs'))
                    else parseIPv6Groups n gs' (Some (length gs')) (tl (tl rest)))
                 else parseIPv6Groups n gs' ell (tl rest))"

definition groupsWord :: "int list \<Rightarrow> 128 word" where
  "groupsWord gs = word_of_int (foldl (\<lambda>acc g. acc * 65536 + g) 0 gs)"

definition parseIPv6 :: "string \<Rightarrow> ipAddr option" where
  "parseIPv6 text = (case cut text ''%'' of (s, zone, found) \<Rightarrow>
     if found \<and> zone = [] then None
     else if s = ''::'' then Some (V6 0 zone)
     else (case (if hasPrefix s ''::'' then parseIPv6Groups 8 [] (Some 0) (drop 2 s) else parseIPv6Groups 8 [] None s) of
             None \<Rightarrow> None
           | Some (gs, ell) \<Rightarrow>
               (case ell of
                  None \<Rightarrow> if length gs = 8 then Some (V6 (groupsWord gs) zone) else None
                | Some e \<Rightarrow> if length gs \<ge> 8 then None
                            else Some (V6 (groupsWord (take e gs @ replicate (8 - length gs) 0 @ drop e gs)) zone))))"

definition parseAddr :: "string \<Rightarrow> ipAddr option" where
  "parseAddr s = (case find (\<lambda>c. c \<in> set ''.:%'') s of
       None \<Rightarrow> None
     | Some c \<Rightarrow> if c = CHR ''.'' then map_option V4 (parseIPv4 s)
                 else if c = CHR '':'' then parseIPv6 s else None)"

definition zoneOf :: "ipAddr \<Rightarrow> string" where
  "zoneOf a = (case a of V4 _ \<Rightarrow> [] | V6 _ z \<Rightarrow> z)"

definition parsePrefix :: "string \<Rightarrow> ipPrefix option" where
  "parsePrefix s = (case lastIndexOf (CHR ''/'') s of
       None \<Rightarrow> None
     | Some i \<Rightarrow>
         (case parseAddr (take i s) of
            None \<Rightarrow> None
          | Some a \<Rightarrow>
              (let bitsStr = drop (i + 1) s
               in if zoneOf a \<noteq> [] then None
                  else if length bitsStr > 1 \<and> hd bitsStr \<notin> set ''123456789'' then None
                  else case parseDigits bitsStr of
                         None \<Rightarrow> None
                       | Some b \<Rightarrow> if b > bitLen a then None else Some (IPPrefix a b))))"

section \<open>Addresses and prefixes of the proxy\<close>

definition normalizeAddr :: "ipAddr \<Rightarrow> ipAddr" where
  "normalizeAddr a = withoutZone (unmap a)"

definition containsAddr :: "ipPrefix list \<Rightarrow> ipAddr \<Rightarrow> bool" where
  "containsAddr ps a = list_ex (\<lambda>p. prefixContains p (normalizeAddr a)) ps"

definition parseHostAddr :: "string \<Rightarrow> ipAddr option" where
  "parseHostAddr hostPort =
     (let h = (case splitHostPort hostPort of Some (h, _) \<Rightarrow> h | None \<Rightarrow> hostPort)
      in map_option normalizeAddr (parseAddr (trimSpace h)))"

definition parseForwardedAddr :: "string \<Rightarrow> ipAddr option" where
  "parseForwardedAddr raw =
     (let entry = trimSpace raw
      in case parseAddr entry of Some a \<Rightarrow> Some (normalizeAddr a) | None \<Rightarrow> parseHostAddr entry)"

datatype prefixError = EmptyEntry | InvalidCIDR | MappedRange | InvalidAddress | MappedAddress | ZonedAddress

definition parseIPPrefix :: "string \<Rightarrow> prefixError + ipPrefix" where
  "parseIPPrefix raw =
     (let entry = trimSpace raw
      in if entry = [] then Inl EmptyEntry
         else if containsStr entry ''/'' then
           (case parsePrefix entry of
              None \<Rightarrow> Inl InvalidCIDR
            | Some (IPPrefix a b) \<Rightarrow> if is4In6 a then Inl MappedRange else Inr (masked (IPPrefix a b)))
         else
           (case parseAddr entry of
              None \<Rightarrow> Inl InvalidAddress
            | Some a \<Rightarrow> if is4In6 a then Inl MappedAddress
                        else if zoneOf a \<noteq> [] then Inl ZonedAddress
                        else Inr (IPPrefix a (bitLen a))))"

definition parseIPPrefixes :: "string list \<Rightarrow> prefixError + ipPrefix list" where
  "parseIPPrefixes entries = mapResult parseIPPrefix entries"

section \<open>Which address is the client\<close>

record forwardedResolver =
  fr_trusted :: "ipPrefix list"
  fr_clientIPHeader :: string

definition newForwardedResolver :: "string list \<Rightarrow> string \<Rightarrow> prefixError + forwardedResolver" where
  "newForwardedResolver trustedProxies clientIPHeader =
     map_sum id (\<lambda>trusted. \<lparr>fr_trusted = trusted,
         fr_clientIPHeader = (if clientIPHeader \<noteq> [] then canonicalHeaderKey clientIPHeader else [])\<rparr>)
       (parseIPPrefixes trustedProxies)"

definition forwardedChainLimit :: nat where
  "forwardedChainLimit = 32"

text \<open>The walk of \<open>forwardedAddr\<close>, on the entries nearest hop first.\<close>

fun walkForwarded :: "ipPrefix list \<Rightarrow> string list \<Rightarrow> ipAddr option" where
  "walkForwarded trusted [] = None"
| "walkForwarded trusted (e # es) = (case parseForwardedAddr e of
       None \<Rightarrow> None
     | Some a \<Rightarrow> if \<not> containsAddr trusted a then Some a else walkForwarded trusted es)"

definition forwardedEntries :: "forwardedResolver \<Rightarrow> request \<Rightarrow> string list" where
  "forwardedEntries f r =
     concat (map (splitAt (CHR '','')) (hvalues (req_header r)
       (if fr_clientIPHeader f \<noteq> [] then fr_clientIPHeader f else ''X-Forwarded-For'')))"

definition forwardedAddr :: "forwardedResolver \<Rightarrow> request \<Rightarrow> ipAddr option" where
  "forwardedAddr f r =
     (let entries = forwardedEntries f r;
          kept = (if length entries > forwardedChainLimit
                  then drop (length entries - forwardedChainLimit) entries else entries)
      in walkForwarded (fr_trusted f) (rev kept))"

definition clientAddr :: "forwardedResolver \<Rightarrow> request \<Rightarrow> ipAddr option" where
  "clientAddr f r =
     (let peer = parseHostAddr (req_remote_addr r)
      in if fr_trusted f = [] then peer
         else case peer of
                None \<Rightarrow> None
              | Some a \<Rightarrow> if \<not> containsAddr (fr_trusted f) a then peer else forwardedAddr f r)"

section \<open>Allow and deny lists\<close>

record ipAllowList =
  al_resolver :: forwardedResolver
  al_prefixes :: "ipPrefix list"

definition newIPAllowList :: "string list \<Rightarrow> string list \<Rightarrow> string \<Rightarrow> prefixError + ipAllowList" where
  "newIPAllowList allowIPs trustedProxies clientIPHeader =
     (case parseIPPrefixes allowIPs of
        Inl e \<Rightarrow> Inl e
      | Inr ps \<Rightarrow> map_sum id (\<lambda>f. \<lparr>al_resolver = f, al_prefixes = ps\<rparr>) (newForwardedResolver trustedProxies clientIPHeader))"

definition permits :: "ipAllowList \<Rightarrow> ipAddr option \<Rightarrow> bool" where
  "permits l addr = (case addr of None \<Rightarrow> False | Some a \<Rightarrow> containsAddr (al_prefixes l) a)"

text \<open>\<open>resolveIPAllowList\<close>: stored settings that do not parse become a list that permits nobody.\<close>

definition denyingAllowList :: ipAllowList where
  "denyingAllowList = \<lparr>al_resolver = \<lparr>fr_trusted = [], fr_clientIPHeader = []\<rparr>, al_prefixes = []\<rparr>"

definition resolveIPAllowList :: "serviceOptions \<Rightarrow> ipAllowList option" where
  "resolveIPAllowList so =
     (if so_allowIPs so = [] then None
      else case newIPAllowList (so_allowIPs so) (so_trustedProxies so) (so_clientIPHeader so) of
             Inl _ \<Rightarrow> Some denyingAllowList
           | Inr l \<Rightarrow> Some l)"

record denyList =
  dl_resolver :: forwardedResolver
  dl_prefixes :: "ipPrefix list"
  dl_userAgents :: "string list"
  dl_denyAll :: bool

datatype denyError = DenyPrefix prefixError | EmptyPattern | InvalidPattern

definition parseDenyUserAgents :: "(string \<Rightarrow> bool) \<Rightarrow> string list \<Rightarrow> denyError + string list" where
  "parseDenyUserAgents compiles patterns =
     mapResult (\<lambda>p. let trimmed = trimSpace p
        in if trimmed = [] then Inl EmptyPattern
           else if \<not> compiles trimmed then Inl InvalidPattern else Inr trimmed) patterns"

definition newDenyList ::
  "(string \<Rightarrow> bool) \<Rightarrow> string list \<Rightarrow> string list \<Rightarrow> string list \<Rightarrow> string \<Rightarrow> denyError + denyList" where
  "newDenyList compiles denyIPs denyUserAgents trustedProxies clientIPHeader =
     (case parseIPPrefixes denyIPs of
        Inl e \<Rightarrow> Inl (DenyPrefix e)
      | Inr ps \<Rightarrow>
          (case parseDenyUserAgents compiles denyUserAgents of
             Inl e \<Rightarrow> Inl e
           | Inr uas \<Rightarrow>
               map_sum DenyPrefix (\<lambda>f. \<lparr>dl_resolver = f, dl_prefixes = ps, dl_userAgents = uas, dl_denyAll = False\<rparr>)
                 (newForwardedResolver trustedProxies clientIPHeader)))"

definition deniesAddr :: "denyList \<Rightarrow> ipAddr option \<Rightarrow> bool" where
  "deniesAddr l addr = (case addr of None \<Rightarrow> False | Some a \<Rightarrow> containsAddr (dl_prefixes l) a)"

definition emptyUserAgentPattern :: string where
  "emptyUserAgentPattern = ''^$''"

definition deniesUserAgent :: "(string \<Rightarrow> string \<Rightarrow> bool) \<Rightarrow> denyList \<Rightarrow> string \<Rightarrow> bool" where
  "deniesUserAgent matches l userAgent =
     (if userAgent = [] then list_ex (\<lambda>p. p = emptyUserAgentPattern) (dl_userAgents l)
      else list_ex (\<lambda>p. matches p userAgent) (dl_userAgents l))"

definition hasDenyRules :: "serviceOptions \<Rightarrow> bool" where
  "hasDenyRules so \<longleftrightarrow> so_denyIPs so \<noteq> [] \<or> so_denyUserAgents so \<noteq> []"

definition resolveDenyList :: "(string \<Rightarrow> bool) \<Rightarrow> serviceOptions \<Rightarrow> denyList option" where
  "resolveDenyList compiles so =
     (if \<not> hasDenyRules so then None
      else case newDenyList compiles (so_denyIPs so) (so_denyUserAgents so) (so_trustedProxies so) (so_clientIPHeader so) of
             Inl _ \<Rightarrow> Some \<lparr>dl_resolver = \<lparr>fr_trusted = [], fr_clientIPHeader = []\<rparr>, dl_prefixes = [],
                           dl_userAgents = [], dl_denyAll = True\<rparr>
           | Inr l \<Rightarrow> Some l)"

section \<open>The client cannot choose its address\<close>

definition hopTrusted :: "ipPrefix list \<Rightarrow> string \<Rightarrow> bool" where
  "hopTrusted trusted e = (case parseForwardedAddr e of None \<Rightarrow> False | Some a \<Rightarrow> containsAddr trusted a)"

lemma walkForwarded_skip:
  "list_all (hopTrusted trusted) hs \<Longrightarrow> walkForwarded trusted (hs @ es) = walkForwarded trusted es"
  by (induction hs) (auto simp: hopTrusted_def split: option.splits)

lemma forwardedAddr_nearest:
  assumes "forwardedEntries f r = xs @ e # hops" and "list_all (hopTrusted (fr_trusted f)) hops"
    and "parseForwardedAddr e = Some a" and "\<not> containsAddr (fr_trusted f) a" and "length hops < forwardedChainLimit"
  shows "forwardedAddr f r = Some a"
proof -
  let ?es = "forwardedEntries f r"
  define kept where "kept = (if length ?es > forwardedChainLimit then drop (length ?es - forwardedChainLimit) ?es else ?es)"
  have "\<exists>ys. kept = ys @ e # hops"
    using assms(1,5) by (auto simp: kept_def drop_append)
  then obtain ys where "kept = ys @ e # hops" ..
  then have "walkForwarded (fr_trusted f) (rev kept) = walkForwarded (fr_trusted f) (rev hops @ e # rev ys)" by simp
  also have "\<dots> = Some a"
    using assms(2-4) walkForwarded_skip[of "fr_trusted f" "rev hops" "e # rev ys"] by (simp add: list_all_rev)
  finally show ?thesis by (simp add: forwardedAddr_def kept_def Let_def)
qed

text \<open>C24: Whatever a client writes into its forwarding headers, it does not choose the address it
  is judged by. If the connection does not come from a trusted proxy, the address is the
  peer's; if it does, it is the entry in front of the trusted hops, and replacing everything
  before that entry (lines, commas, repeated headers) changes nothing, as long as fewer than
  32 trusted hops follow it.\<close>

theorem clientAddr_not_spoofable:
  assumes "req_remote_addr r' = req_remote_addr r"
    and "forwardedEntries f r = xs @ e # hops" and "forwardedEntries f r' = xs' @ e # hops"
    and "list_all (hopTrusted (fr_trusted f)) hops" and "length hops < forwardedChainLimit"
    and "parseForwardedAddr e = Some a" and "\<not> containsAddr (fr_trusted f) a"
  shows "clientAddr f r' = clientAddr f r
    \<and> clientAddr f r = (case parseHostAddr (req_remote_addr r) of
         None \<Rightarrow> None
       | Some peer \<Rightarrow> if containsAddr (fr_trusted f) peer then Some a else Some peer)"
proof -
  have "forwardedAddr f r = Some a" "forwardedAddr f r' = Some a"
    using forwardedAddr_nearest assms(2-7) by blast+
  moreover have "\<not> containsAddr [] p" for p by (simp add: containsAddr_def)
  ultimately show ?thesis
    using assms(1) by (auto simp: clientAddr_def Let_def split: option.splits)
qed

definition exampleResolver :: forwardedResolver where
  "exampleResolver = \<lparr>fr_trusted = [IPPrefix (V4 0x0A000000) 8], fr_clientIPHeader = []\<rparr>"

definition forgedRequest :: "string list \<Rightarrow> request" where
  "forgedRequest vs = emptyRequest\<lparr>req_remote_addr := ''10.0.0.1:999'', req_header := [(''X-Forwarded-For'', vs)]\<rparr>"

theorem clientAddr_not_spoofable_witness:
  "clientAddr exampleResolver (forgedRequest [''1.2.3.4'', ''203.0.113.9, 10.0.0.2'']) = Some (V4 0xCB007109)
   \<and> clientAddr exampleResolver (forgedRequest [''203.0.113.9, 10.0.0.2'']) = Some (V4 0xCB007109)"
proof -
  let ?r = "forgedRequest [''1.2.3.4'', ''203.0.113.9, 10.0.0.2'']" and ?r' = "forgedRequest [''203.0.113.9, 10.0.0.2'']"
  have "forwardedEntries exampleResolver ?r = [''1.2.3.4''] @ ''203.0.113.9'' # ['' 10.0.0.2'']"
    "forwardedEntries exampleResolver ?r' = [] @ ''203.0.113.9'' # ['' 10.0.0.2'']" by code_simp+
  moreover have "list_all (hopTrusted (fr_trusted exampleResolver)) ['' 10.0.0.2'']" by code_simp
  moreover have "parseForwardedAddr ''203.0.113.9'' = Some (V4 0xCB007109)" by code_simp
  moreover have "\<not> containsAddr (fr_trusted exampleResolver) (V4 0xCB007109)" by code_simp
  moreover have "parseHostAddr (req_remote_addr ?r) = Some (V4 0x0A000001)" by code_simp
  moreover have "containsAddr (fr_trusted exampleResolver) (V4 0x0A000001)" by code_simp
  moreover have "req_remote_addr ?r' = req_remote_addr ?r" by (simp add: forgedRequest_def)
  ultimately show ?thesis
    using clientAddr_not_spoofable[of ?r' ?r exampleResolver "[''1.2.3.4'']" "''203.0.113.9''" "['' 10.0.0.2'']" "[]"]
    by (simp add: forwardedChainLimit_def)
qed

section \<open>Address lists\<close>

definition mapped4 :: "32 word \<Rightarrow> 128 word" where
  "mapped4 w = push_bit 32 0xFFFF OR ucast w"

lemma ucast_high: "\<not> bit (ucast (w :: 32 word) :: 128 word) (32 + n)"
  using bit_imp_le_length[of w "32 + n"] by (auto simp: bit_ucast_iff)

lemma drop_mapped4: "drop_bit 32 (mapped4 w) = 0xFFFF"
  by (rule bit_word_eqI) (simp add: mapped4_def bit_drop_bit_eq bit_or_iff bit_push_bit_iff ucast_high)

lemma low_bits: "ucast (push_bit 32 x OR ucast w :: 128 word) = (w :: 32 word)"
  by (rule bit_word_eqI) (simp add: bit_ucast_iff bit_or_iff bit_push_bit_iff)

lemma low_mapped4: "ucast (mapped4 w) = w"
  unfolding mapped4_def by (rule low_bits)

lemma normalizeAddr_mapped4: "normalizeAddr (V6 (mapped4 w) z) = V4 w"
  by (simp add: normalizeAddr_def unmap_def is4In6_def drop_mapped4 low_mapped4 withoutZone_def)

lemma xor_zero_iff: "drop_bit n (a XOR b) = 0 \<longleftrightarrow> drop_bit n a = drop_bit n (b :: 'a::len word)"
proof -
  have "a XOR b = 0 \<longleftrightarrow> a = b" for a b :: "'a word"
  proof
    assume "a XOR b = 0"
    then have "bit (a XOR b) n = False" for n by simp
    then show "a = b" by (intro bit_word_eqI) (auto simp: bit_xor_iff)
  qed simp
  then show ?thesis by (simp add: drop_bit_xor)
qed

lemma drop_push_drop: "drop_bit n (push_bit n (drop_bit n x)) = drop_bit n (x :: 'a::len word)"
  by (rule bit_word_eqI) (auto simp: bit_drop_bit_eq bit_push_bit_iff dest: bit_imp_le_length)

lemma masked_contains: "prefixContains (masked p) a = prefixContains p a"
  by (cases p; cases "case p of IPPrefix n _ \<Rightarrow> n"; cases a)
    (auto simp: prefixContains_def masked_def xor_zero_iff drop_push_drop)

text \<open>An address list sees through the ways to write one address: an IPv4 client connecting
  over a dual-stack socket, in the IPv4-mapped form and with any zone, matches exactly the
  ranges it matches as plain IPv4.\<close>

theorem containsAddr_mapped:
  "containsAddr ps (V6 (mapped4 w) zone) = containsAddr ps (V4 w)"
  by (simp add: containsAddr_def normalizeAddr_mapped4) (simp add: normalizeAddr_def unmap_def withoutZone_def)

lemma parseIPPrefixes_member:
  "parseIPPrefixes es = Inr ps \<Longrightarrow> p \<in> set ps \<Longrightarrow> \<exists>e \<in> set es. parseIPPrefix e = Inr p"
  unfolding parseIPPrefixes_def by (rule mapResult_image)

text \<open>The allow list fails closed: a request is permitted only if its client address was
  resolved and lies in a range the operator wrote, that parsed. Unresolvable clients are
  refused whatever the ranges, and settings that cannot be read back permit nobody.\<close>

theorem allow_list_fails_closed:
  assumes "resolveIPAllowList so = Some l" and "permits l addr"
  shows "\<exists>a e p. addr = Some a \<and> e \<in> set (so_allowIPs so) \<and> parseIPPrefix e = Inr p \<and> prefixContains p (normalizeAddr a)"
proof -
  obtain a where a: "addr = Some a" "containsAddr (al_prefixes l) a"
    using assms(2) by (auto simp: permits_def split: option.splits)
  then have "al_prefixes l \<noteq> []" by (auto simp: containsAddr_def)
  then have "parseIPPrefixes (so_allowIPs so) = Inr (al_prefixes l)"
    using assms(1)
    by (auto simp: resolveIPAllowList_def newIPAllowList_def denyingAllowList_def map_sum_def split: if_splits sum.splits)
  then show ?thesis
    using a parseIPPrefixes_member unfolding containsAddr_def list_ex_iff by metis
qed

theorem allow_list_fails_closed_witness:
  "let so = zeroServiceOptions\<lparr>so_allowIPs := ['' 10.1.2.3/8'', ''2001:db8::/32'']\<rparr>
   in (\<exists>l. resolveIPAllowList so = Some l \<and> permits l (Some (V4 0x0A090909)) \<and> \<not> permits l None)
      \<and> (\<exists>a e p. Some (V4 0x0A090909) = Some a \<and> e \<in> set (so_allowIPs so) \<and> parseIPPrefix e = Inr p \<and> prefixContains p (normalizeAddr a))"
proof -
  let ?so = "zeroServiceOptions\<lparr>so_allowIPs := ['' 10.1.2.3/8'', ''2001:db8::/32'']\<rparr>"
  let ?l = "\<lparr>al_resolver = \<lparr>fr_trusted = [], fr_clientIPHeader = []\<rparr>,
     al_prefixes = [IPPrefix (V4 0x0A000000) 8, IPPrefix (V6 0x20010DB8000000000000000000000000 []) 32]\<rparr>"
  have "resolveIPAllowList ?so = Some ?l" by code_simp
  moreover have "permits ?l (Some (V4 0x0A090909))" by code_simp
  moreover have "\<not> permits ?l None" by (simp add: permits_def)
  ultimately show ?thesis
    using allow_list_fails_closed[of ?so ?l "Some (V4 0x0A090909)"] unfolding Let_def by blast
qed

end
