(* ===== verification/Rate_Limit.thy ===== *)
theory Rate_Limit
  imports Client_Address Complex_Main
begin

text \<open>
  The token bucket of \<open>token_bucket.go\<close> and the per-client rate limiter of \<open>rate_limit.go\<close>.
  \<open>rate.Limiter\<close> is a third-party type: its constructor, \<open>AllowN\<close> and \<open>TokensAt\<close> are the
  parameter \<open>ops\<close>, and what the sources rely on is \<open>limiterLaws\<close>. A limit in requests per
  second is a rational number.
\<close>

section \<open>The token bucket\<close>

text \<open>Go's integer division truncates towards zero.\<close>

definition goDiv :: "int \<Rightarrow> int \<Rightarrow> int" where
  "goDiv a b = sgn a * sgn b * (\<bar>a\<bar> div \<bar>b\<bar>)"

record tokenBucket =
  tb_tokens :: int
  tb_capacity :: int
  tb_refillInterval :: duration
  tb_lastRefill :: time

definition newTokenBucket :: "int \<Rightarrow> duration \<Rightarrow> time \<Rightarrow> tokenBucket" where
  "newTokenBucket capacity refillInterval now =
     \<lparr>tb_tokens = capacity, tb_capacity = capacity, tb_refillInterval = refillInterval, tb_lastRefill = now\<rparr>"

definition refill :: "time \<Rightarrow> tokenBucket \<Rightarrow> tokenBucket" where
  "refill now b =
     (if tb_tokens b \<ge> tb_capacity b then b\<lparr>tb_lastRefill := now\<rparr>
      else let replenished = goDiv (now - tb_lastRefill b) (tb_refillInterval b)
           in if replenished = 0 then b
              else b\<lparr>tb_tokens := min (tb_tokens b + replenished) (tb_capacity b),
                     tb_lastRefill := tb_lastRefill b + replenished * tb_refillInterval b\<rparr>)"

definition tryTake :: "time \<Rightarrow> tokenBucket \<Rightarrow> bool \<times> tokenBucket" where
  "tryTake now b =
     (let b' = refill now b
      in if tb_tokens b' = 0 then (False, b') else (True, b'\<lparr>tb_tokens := tb_tokens b' - 1\<rparr>))"

definition nextTokenIn :: "time \<Rightarrow> tokenBucket \<Rightarrow> duration" where
  "nextTokenIn now b =
     (let wait = tb_refillInterval b - (now - tb_lastRefill b)
      in if wait < millisecond then millisecond else wait)"

text \<open>A run of attempts at given times: how many got a token, and the bucket afterwards.\<close>

fun takes :: "time list \<Rightarrow> tokenBucket \<Rightarrow> int \<times> tokenBucket" where
  "takes [] b = (0, b)"
| "takes (t # ts) b = (case tryTake t b of (got, b') \<Rightarrow>
     case takes ts b' of (n, b'') \<Rightarrow> (if got then n + 1 else n, b''))"

definition bucketOK :: "time \<Rightarrow> tokenBucket \<Rightarrow> bool" where
  "bucketOK now b \<longleftrightarrow> 0 \<le> tb_tokens b \<and> tb_tokens b \<le> tb_capacity b \<and> 0 < tb_refillInterval b \<and> tb_lastRefill b \<le> now"

text \<open>What a bucket can still hand out, in nanoseconds of refill.\<close>

definition potential :: "time \<Rightarrow> tokenBucket \<Rightarrow> int" where
  "potential now b = tb_tokens b * tb_refillInterval b + (now - tb_lastRefill b)"

lemma refill_potential:
  assumes "bucketOK now b"
  shows "bucketOK now (refill now b)" and "potential now (refill now b) \<le> potential now b"
    and "tb_refillInterval (refill now b) = tb_refillInterval b" and "tb_capacity (refill now b) = tb_capacity b"
proof -
  let ?I = "tb_refillInterval b" and ?e = "now - tb_lastRefill b"
  have I: "0 < ?I" and e: "0 \<le> ?e" using assms by (simp_all add: bucketOK_def)
  have q: "goDiv ?e ?I = ?e div ?I" using I e by (simp add: goDiv_def sgn_if)
  have le: "?e div ?I * ?I \<le> ?e" using I by (simp add: minus_mod_eq_div_mult[symmetric])
  have nn: "0 \<le> ?e div ?I" using I e by (simp add: pos_imp_zdiv_nonneg_iff)
  show "bucketOK now (refill now b)"
    using assms q le nn by (auto simp: bucketOK_def refill_def Let_def)
  show "potential now (refill now b) \<le> potential now b"
  proof (cases "tb_tokens b \<ge> tb_capacity b \<or> ?e div ?I = 0")
    case True
    then show ?thesis using q e by (auto simp: potential_def refill_def Let_def)
  next
    case False
    have "min (tb_tokens b + ?e div ?I) (tb_capacity b) * ?I \<le> (tb_tokens b + ?e div ?I) * ?I"
      using I by (intro mult_right_mono) auto
    then show ?thesis using False q by (simp add: potential_def refill_def Let_def algebra_simps)
  qed
  show "tb_refillInterval (refill now b) = ?I" and "tb_capacity (refill now b) = tb_capacity b"
    by (simp_all add: refill_def Let_def)
qed

lemma tryTake_potential:
  assumes "bucketOK now b" and "tryTake now b = (got, b')"
  shows "bucketOK now b'" and "tb_refillInterval b' = tb_refillInterval b"
    and "(if got then tb_refillInterval b else 0) + potential now b' \<le> potential now b"
  using assms refill_potential[OF assms(1)]
  by (auto simp: tryTake_def Let_def bucketOK_def potential_def algebra_simps split: if_splits)

lemma potential_shift: "potential u b = potential t b + (u - t)"
  by (simp add: potential_def)

lemma bucketOK_later: "bucketOK t b \<Longrightarrow> t \<le> u \<Longrightarrow> bucketOK u b"
  by (simp add: bucketOK_def)

lemma takes_bound:
  assumes "bucketOK t b" and "sorted (t # ts)" and "takes ts b = (n, b')"
  shows "n * tb_refillInterval b \<le> potential t b + (last (t # ts) - t)"
  using assms
proof (induction ts arbitrary: t b n)
  case Nil
  then show ?case by (simp add: potential_def bucketOK_def)
next
  case (Cons u ts)
  obtain got b1 where tt: "tryTake u b = (got, b1)" by fastforce
  obtain m where m: "takes ts b1 = (m, b')" using Cons.prems(3) tt by (auto split: prod.splits)
  have n: "n = (if got then m + 1 else m)" using Cons.prems(3) tt m by simp
  have ok: "bucketOK u b" using bucketOK_later Cons.prems(1,2) by simp
  note step = tryTake_potential[OF ok tt]
  have "m * tb_refillInterval b1 \<le> potential u b1 + (last (u # ts) - u)"
    using Cons.IH[OF step(1) _ m] Cons.prems(2) by simp
  then have "n * tb_refillInterval b \<le> potential u b + (last (u # ts) - u)"
    using step(2,3) n by (auto simp: algebra_simps split: if_splits)
  then show ?case using potential_shift[of u b t] by simp
qed

text \<open>A refilled bucket holds no more than its capacity and a part of one interval.\<close>

lemma refill_full:
  assumes "bucketOK now b"
  shows "potential now (refill now b) \<le> tb_capacity b * tb_refillInterval b + (tb_refillInterval b - 1)"
proof -
  let ?I = "tb_refillInterval b" and ?e = "now - tb_lastRefill b"
  have I: "0 < ?I" and e: "0 \<le> ?e" and c: "tb_tokens b \<le> tb_capacity b" using assms by (simp_all add: bucketOK_def)
  have q: "goDiv ?e ?I = ?e div ?I" using I e by (simp add: goDiv_def sgn_if)
  have rest: "?e - ?e div ?I * ?I \<le> ?I - 1" using pos_mod_bound[OF I, of ?e] by (simp add: minus_div_mult_eq_mod)
  have cap: "tb_tokens b * ?I \<le> tb_capacity b * ?I" "min (tb_tokens b + ?e div ?I) (tb_capacity b) * ?I \<le> tb_capacity b * ?I"
    using I c by (simp_all add: mult_right_mono)
  consider "tb_capacity b \<le> tb_tokens b" | "tb_tokens b < tb_capacity b" "?e div ?I = 0" | "tb_tokens b < tb_capacity b" "?e div ?I > 0"
    using pos_imp_zdiv_nonneg_iff[OF I, of ?e] e by linarith
  then show ?thesis
  proof cases
    case 1
    then show ?thesis using cap(1) I by (simp add: potential_def refill_def)
  next
    case 2
    then show ?thesis using cap(1) rest q by (simp add: potential_def refill_def Let_def)
  next
    case 3
    then show ?thesis using cap(2) rest q by (simp add: potential_def refill_def Let_def)
  qed
qed

lemma takes_kept:
  assumes "bucketOK t b" and "sorted (t # ts)" and "takes ts b = (n, b')"
  shows "bucketOK (last (t # ts)) b' \<and> tb_refillInterval b' = tb_refillInterval b \<and> tb_capacity b' = tb_capacity b"
  using assms
proof (induction ts arbitrary: t b n)
  case (Cons u ts)
  obtain got b1 where tt: "tryTake u b = (got, b1)" by fastforce
  obtain m where m: "takes ts b1 = (m, b')" using Cons.prems(3) tt by (auto split: prod.splits)
  have ok: "bucketOK u b" using bucketOK_later Cons.prems(1,2) by simp
  have "tb_capacity b1 = tb_capacity b" using tt refill_potential(4)[OF ok] by (auto simp: tryTake_def Let_def split: if_splits)
  then show ?case using Cons.IH[OF tryTake_potential(1)[OF ok tt] _ m] Cons.prems(2) tryTake_potential(2)[OF ok tt] by simp
qed simp

lemma takes_window:
  assumes ok: "bucketOK u b" and "sorted (u # us)" and run: "takes (u # us) b = (n, b')"
  shows "n * tb_refillInterval b \<le> tb_capacity b * tb_refillInterval b + (tb_refillInterval b - 1) + (last (u # us) - u)"
proof -
  obtain got b1 where tt: "tryTake u b = (got, b1)" by fastforce
  obtain m where m: "takes us b1 = (m, b')" using run tt by (auto split: prod.splits)
  have n: "n = (if got then m + 1 else m)" using run tt m by simp
  note step = tryTake_potential[OF ok tt]
  have "(if got then tb_refillInterval b else 0) + potential u b1 \<le> potential u (refill u b)"
    using tt refill_potential(3)[OF ok] by (auto simp: tryTake_def Let_def potential_def algebra_simps split: if_splits)
  moreover have "m * tb_refillInterval b1 \<le> potential u b1 + (last (u # us) - u)" by (rule takes_bound[OF step(1) assms(2) m])
  ultimately show ?thesis using refill_full[OF ok] step(2) n by (auto simp: algebra_simps split: if_splits)
qed



section \<open>The rate limiter\<close>

record 'l limiterOps =
  lo_new :: "rat \<Rightarrow> int \<Rightarrow> 'l"
  lo_allowN :: "time \<Rightarrow> 'l \<Rightarrow> bool \<times> 'l"
  lo_tokensAt :: "time \<Rightarrow> 'l \<Rightarrow> rat"

definition rateLimitIPv6PrefixBits :: nat where
  "rateLimitIPv6PrefixBits = 64"

definition rateLimitMaxTrackedClients :: nat where
  "rateLimitMaxTrackedClients = 50000"

definition rateLimitSweepInterval :: duration where
  "rateLimitSweepInterval = minute"

record 'l rateLimiter =
  rl_resolver :: forwardedResolver
  rl_limit :: rat
  rl_burst :: int
  rl_exempt :: "ipPrefix list"
  rl_buckets :: "(ipPrefix \<times> 'l) list"
  rl_overflow :: 'l
  rl_lastSweep :: time

definition newBareRateLimiter :: "'l limiterOps \<Rightarrow> rat \<Rightarrow> int \<Rightarrow> time \<Rightarrow> 'l rateLimiter" where
  "newBareRateLimiter ops limit burst0 now =
     (let burst = (if burst0 \<le> 0 then max 1 \<lceil>limit\<rceil> else burst0)
      in \<lparr>rl_resolver = \<lparr>fr_trusted = [], fr_clientIPHeader = []\<rparr>, rl_limit = limit, rl_burst = burst, rl_exempt = [],
          rl_buckets = [], rl_overflow = lo_new ops limit burst, rl_lastSweep = now\<rparr>)"

definition newRateLimiter ::
  "'l limiterOps \<Rightarrow> rat \<Rightarrow> int \<Rightarrow> string list \<Rightarrow> string list \<Rightarrow> string \<Rightarrow> time \<Rightarrow> prefixError + 'l rateLimiter" where
  "newRateLimiter ops limit burst exempt trustedProxies clientIPHeader now =
     (case parseIPPrefixes exempt of
        Inl e \<Rightarrow> Inl e
      | Inr ps \<Rightarrow>
          (case newForwardedResolver trustedProxies clientIPHeader of
             Inl e \<Rightarrow> Inl e
           | Inr f \<Rightarrow> Inr ((newBareRateLimiter ops limit burst now)\<lparr>rl_exempt := ps, rl_resolver := f\<rparr>)))"

definition resolveRateLimiter :: "'l limiterOps \<Rightarrow> serviceOptions \<Rightarrow> time \<Rightarrow> 'l rateLimiter option" where
  "resolveRateLimiter ops so now =
     (if so_rateLimit so \<le> 0 then None
      else case newRateLimiter ops (so_rateLimit so) (so_rateLimitBurst so) (so_rateLimitExempt so)
                  (so_trustedProxies so) (so_clientIPHeader so) now of
             Inr l \<Rightarrow> Some l
           | Inl _ \<Rightarrow> Some (newBareRateLimiter ops (so_rateLimit so) (so_rateLimitBurst so) now))"

definition rateLimitClientKey :: "ipAddr \<Rightarrow> ipPrefix" where
  "rateLimitClientKey a = (case normalizeAddr a of
       V6 w z \<Rightarrow> masked (IPPrefix (V6 w z) rateLimitIPv6PrefixBits)
     | V4 w \<Rightarrow> IPPrefix (V4 w) 32)"

text \<open>\<open>bucketFor\<close>: where the bucket is (\<open>None\<close> the overflow bucket), in the limiter that tracks the
  client from now on.\<close>

definition bucketFor :: "'l limiterOps \<Rightarrow> ipAddr option \<Rightarrow> 'l rateLimiter \<Rightarrow> 'l rateLimiter \<times> ipPrefix option" where
  "bucketFor ops addr l = (case addr of
       None \<Rightarrow> (l, None)
     | Some a \<Rightarrow>
         (let key = rateLimitClientKey a
          in case map_of (rl_buckets l) key of
               Some _ \<Rightarrow> (l, Some key)
             | None \<Rightarrow>
                 if length (rl_buckets l) \<ge> rateLimitMaxTrackedClients then (l, None)
                 else (l\<lparr>rl_buckets := (key, lo_new ops (rl_limit l) (rl_burst l)) # rl_buckets l\<rparr>, Some key)))"

definition sweepIfDue :: "'l limiterOps \<Rightarrow> time \<Rightarrow> 'l rateLimiter \<Rightarrow> 'l rateLimiter" where
  "sweepIfDue ops now l =
     (if now - rl_lastSweep l < rateLimitSweepInterval then l
      else l\<lparr>rl_lastSweep := now,
             rl_buckets := filter (\<lambda>(k, b). \<not> lo_tokensAt ops now b \<ge> of_int (rl_burst l)) (rl_buckets l)\<rparr>)"

text \<open>Spending a token from the bucket \<open>bucketFor\<close> named.\<close>

definition spendFrom :: "'l limiterOps \<Rightarrow> time \<Rightarrow> 'l rateLimiter \<times> ipPrefix option \<Rightarrow> bool \<times> 'l rateLimiter" where
  "spendFrom ops now p = (case p of
       (l, None) \<Rightarrow> (case lo_allowN ops now (rl_overflow l) of (ok, b) \<Rightarrow> (ok, l\<lparr>rl_overflow := b\<rparr>))
     | (l, Some key) \<Rightarrow>
         (case map_of (rl_buckets l) key of
            None \<Rightarrow> (False, l)
          | Some b \<Rightarrow> (case lo_allowN ops now b of (ok, b') \<Rightarrow> (ok, l\<lparr>rl_buckets := AList.update key b' (rl_buckets l)\<rparr>))))"

definition isExempt :: "'l rateLimiter \<Rightarrow> ipAddr option \<Rightarrow> bool" where
  "isExempt l addr = (case addr of None \<Rightarrow> False | Some a \<Rightarrow> containsAddr (rl_exempt l) a)"

definition rlAllow :: "'l limiterOps \<Rightarrow> time \<Rightarrow> request \<Rightarrow> 'l rateLimiter \<Rightarrow> bool \<times> 'l rateLimiter" where
  "rlAllow ops now r l =
     (let addr = clientAddr (rl_resolver l) r
      in if isExempt l addr then (True, l)
         else spendFrom ops now (bucketFor ops addr (sweepIfDue ops now l)))"

definition retryAfterSeconds :: "'l rateLimiter \<Rightarrow> int" where
  "retryAfterSeconds l = max 1 \<lceil>1 / rl_limit l\<rceil>"

section \<open>The map of clients is bounded\<close>

definition bucketsOK :: "'l rateLimiter \<Rightarrow> bool" where
  "bucketsOK l \<longleftrightarrow> distinct (map fst (rl_buckets l)) \<and> length (rl_buckets l) \<le> rateLimitMaxTrackedClients"

lemma length_update_present: "map_of al k \<noteq> None \<Longrightarrow> length (AList.update k v al) = length al"
  by (induction al) auto

lemma bucketsOK_sweep: "bucketsOK l \<Longrightarrow> bucketsOK (sweepIfDue ops now l)"
  by (auto simp: bucketsOK_def sweepIfDue_def distinct_map_filter intro: order_trans[OF length_filter_le])

lemma bucketsOK_bucketFor: "bucketsOK l \<Longrightarrow> bucketsOK (fst (bucketFor ops addr l))"
  by (auto simp: bucketsOK_def bucketFor_def Let_def map_of_eq_None_iff split: option.splits)

lemma bucketsOK_spend: "bucketsOK l \<Longrightarrow> bucketsOK (snd (spendFrom ops now (l, k)))"
  by (auto simp: bucketsOK_def spendFrom_def distinct_update length_update_present split: option.splits prod.splits)

definition knownBuckets :: "'l limiterOps \<Rightarrow> 'l rateLimiter \<Rightarrow> 'l set" where
  "knownBuckets ops l = insert (rl_overflow l) (insert (lo_new ops (rl_limit l) (rl_burst l)) (snd ` set (rl_buckets l)))"

lemma knownBuckets_sweep: "knownBuckets ops (sweepIfDue ops now l) \<subseteq> knownBuckets ops l"
  by (auto simp: knownBuckets_def sweepIfDue_def)

lemma knownBuckets_bucketFor: "knownBuckets ops (fst (bucketFor ops addr l)) = knownBuckets ops l"
  by (auto simp: knownBuckets_def bucketFor_def Let_def split: option.splits)

lemma spendFrom_bucketFor:
  assumes "bucketFor ops addr l = (l1, k)"
  shows "\<exists>b \<in> knownBuckets ops l1. fst (spendFrom ops now (l1, k)) = fst (lo_allowN ops now b)"
proof (cases k)
  case None
  then show ?thesis by (auto simp: spendFrom_def knownBuckets_def split: prod.splits)
next
  case (Some key)
  then obtain b where b: "map_of (rl_buckets l1) key = Some b"
    using assms by (auto simp: bucketFor_def Let_def split: option.splits if_splits)
  then have "b \<in> knownBuckets ops l1" by (force simp: knownBuckets_def dest!: map_of_SomeD)
  moreover have "fst (spendFrom ops now (l1, k)) = fst (lo_allowN ops now b)"
    using Some b by (simp add: spendFrom_def case_prod_beta)
  ultimately show ?thesis by blast
qed

text \<open>However clients vary their addresses, the limiter tracks each at most once and never more
  than the cap of them individually, and it always decides by charging a bucket: the client's
  own, a new one, or the shared overflow bucket, so that an untracked client is never
  unlimited. Only exempt clients are not charged.\<close>

theorem rateLimiter_bounded:
  assumes "bucketsOK l"
  shows "bucketsOK (snd (rlAllow ops now r l))
    \<and> (if isExempt l (clientAddr (rl_resolver l) r) then rlAllow ops now r l = (True, l)
       else \<exists>b \<in> knownBuckets ops l. fst (rlAllow ops now r l) = fst (lo_allowN ops now b))"
proof -
  let ?addr = "clientAddr (rl_resolver l) r" and ?l = "sweepIfDue ops now l"
  obtain l1 k where b: "bucketFor ops ?addr ?l = (l1, k)" by fastforce
  have "bucketsOK l1" using bucketsOK_bucketFor[OF bucketsOK_sweep[OF assms], of ops ?addr ops now] b by simp
  then have "bucketsOK (snd (rlAllow ops now r l))"
    using assms bucketsOK_spend[of l1 ops now k] b by (simp add: rlAllow_def Let_def)
  moreover have "knownBuckets ops l1 \<subseteq> knownBuckets ops l"
    using knownBuckets_bucketFor[of ops ?addr ?l] knownBuckets_sweep[of ops now l] b by simp
  then have "\<exists>c \<in> knownBuckets ops l. fst (spendFrom ops now (l1, k)) = fst (lo_allowN ops now c)"
    using spendFrom_bucketFor[OF b] by blast
  ultimately show ?thesis using b by (auto simp: rlAllow_def Let_def)
qed

section \<open>Forgetting full buckets changes no decision\<close>

text \<open>What the limiter relies on of \<open>rate.Limiter\<close>: limiters can be told apart only by what they
  allow (\<open>E t\<close> relates two that behave alike from time \<open>t\<close> on), and a limiter that has all its tokens
  behaves like a new one.\<close>

definition limiterLaws :: "'l limiterOps \<Rightarrow> rat \<Rightarrow> int \<Rightarrow> (time \<Rightarrow> 'l \<Rightarrow> 'l \<Rightarrow> bool) \<Rightarrow> bool" where
  "limiterLaws ops limit burst E \<longleftrightarrow>
     (\<forall>t. equivp (E t)) \<and> (\<forall>t u a b. E t a b \<and> t \<le> u \<longrightarrow> E u a b)
     \<and> (\<forall>t a b. E t a b \<longrightarrow> fst (lo_allowN ops t a) = fst (lo_allowN ops t b)
                      \<and> E t (snd (lo_allowN ops t a)) (snd (lo_allowN ops t b)))
     \<and> (\<forall>t a. of_int burst \<le> lo_tokensAt ops t a \<longrightarrow> E t a (lo_new ops limit burst))"

text \<open>The reference: the same limiter that never sweeps.\<close>

definition rlAllowKeeping :: "'l limiterOps \<Rightarrow> time \<Rightarrow> request \<Rightarrow> 'l rateLimiter \<Rightarrow> bool \<times> 'l rateLimiter" where
  "rlAllowKeeping ops now r l =
     (let addr = clientAddr (rl_resolver l) r
      in if isExempt l addr then (True, l) else spendFrom ops now (bucketFor ops addr l))"

fun decisions :: "(time \<Rightarrow> request \<Rightarrow> 'l rateLimiter \<Rightarrow> bool \<times> 'l rateLimiter) \<Rightarrow> (time \<times> request) list \<Rightarrow> 'l rateLimiter \<Rightarrow> bool list" where
  "decisions f [] l = []"
| "decisions f ((now, r) # rs) l = (case f now r l of (ok, l') \<Rightarrow> ok # decisions f rs l')"

text \<open>A limiter that sweeps is simulated by one that does not: they agree on everything but the
  clients swept, and a client known only to the reference has a bucket as good as new.\<close>

definition budget :: "'l limiterOps \<Rightarrow> 'l rateLimiter \<Rightarrow> ipPrefix \<Rightarrow> 'l" where
  "budget ops l k = (case map_of (rl_buckets l) k of Some b \<Rightarrow> b | None \<Rightarrow> lo_new ops (rl_limit l) (rl_burst l))"

definition sweepSim :: "'l limiterOps \<Rightarrow> (time \<Rightarrow> 'l \<Rightarrow> 'l \<Rightarrow> bool) \<Rightarrow> time \<Rightarrow> 'l rateLimiter \<Rightarrow> 'l rateLimiter \<Rightarrow> bool" where
  "sweepSim ops E t l m \<longleftrightarrow>
     rl_resolver l = rl_resolver m \<and> rl_limit l = rl_limit m \<and> rl_burst l = rl_burst m \<and> rl_exempt l = rl_exempt m
     \<and> E t (rl_overflow l) (rl_overflow m) \<and> distinct (map fst (rl_buckets l)) \<and> distinct (map fst (rl_buckets m))
     \<and> fst ` set (rl_buckets l) \<subseteq> fst ` set (rl_buckets m) \<and> (\<forall>k. E t (budget ops l k) (budget ops m k))"

lemma sweepSim_later:
  assumes "limiterLaws ops limit burst E" and "sweepSim ops E t l m" and "t \<le> u"
  shows "sweepSim ops E u l m"
proof -
  have "E t a b \<Longrightarrow> E u a b" for a b using assms(1,3) unfolding limiterLaws_def by blast
  then show ?thesis using assms(2) by (simp add: sweepSim_def)
qed

lemma sweepSim_sweep:
  assumes laws: "limiterLaws ops (rl_limit l) (rl_burst l) E" and sim: "sweepSim ops E now l m"
  shows "sweepSim ops E now (sweepIfDue ops now l) m"
proof (cases "now - rl_lastSweep l < rateLimitSweepInterval")
  case False
  let ?P = "\<lambda>(k, b). \<not> lo_tokensAt ops now b \<ge> of_int (rl_burst l)" and ?l = "sweepIfDue ops now l"
  have dist: "distinct (map fst (rl_buckets l))" using sim by (simp add: sweepSim_def)
  have eq: "equivp (E now)" using laws by (simp add: limiterLaws_def)
  have "E now (budget ops ?l k) (budget ops l k)" for k
  proof (cases "map_of (rl_buckets l) k")
    case None
    then have "map_of (filter ?P (rl_buckets l)) k = None" by (auto simp: map_of_eq_None_iff)
    then show ?thesis using None False eq by (simp add: budget_def sweepIfDue_def equivp_reflp)
  next
    case (Some b)
    then have "(k, b) \<in> set (rl_buckets l)" by (rule map_of_SomeD)
    show ?thesis
    proof (cases "of_int (rl_burst l) \<le> lo_tokensAt ops now b")
      case True
      have "map_of (filter ?P (rl_buckets l)) k = None"
        using True dist \<open>(k, b) \<in> set (rl_buckets l)\<close> by (auto simp: map_of_eq_None_iff dest: eq_key_imp_eq_value)
      moreover have "E now (lo_new ops (rl_limit l) (rl_burst l)) b"
        using laws True eq unfolding limiterLaws_def by (meson equivp_symp)
      ultimately show ?thesis using Some False by (simp add: budget_def sweepIfDue_def)
    next
      case low: False
      have "map_of (filter ?P (rl_buckets l)) k = Some b"
        using low dist \<open>(k, b) \<in> set (rl_buckets l)\<close> by (intro map_of_is_SomeI) (auto simp: distinct_map_filter)
      then show ?thesis using Some False eq by (simp add: budget_def sweepIfDue_def equivp_reflp)
    qed
  qed
  then have "E now (budget ops ?l k) (budget ops m k)" for k
    using sim eq unfolding sweepSim_def by (meson equivp_transp)
  then show ?thesis
    using sim False by (auto simp: sweepSim_def sweepIfDue_def distinct_map_filter)
qed (use sim in \<open>simp add: sweepIfDue_def\<close>)

lemma bucketFor_tracks:
  assumes "distinct (map fst (rl_buckets l))" and "fst ` set (rl_buckets l) \<subseteq> S" and "finite S"
    and "card S \<le> rateLimitMaxTrackedClients" and "rateLimitClientKey a \<in> S"
  obtains l' where "bucketFor ops (Some a) l = (l', Some (rateLimitClientKey a))"
    and "map_of (rl_buckets l') (rateLimitClientKey a) = Some (budget ops l (rateLimitClientKey a))"
    and "\<And>k. budget ops l' k = budget ops l k" and "distinct (map fst (rl_buckets l'))"
    and "fst ` set (rl_buckets l') = insert (rateLimitClientKey a) (fst ` set (rl_buckets l))"
    and "rl_resolver l' = rl_resolver l" "rl_limit l' = rl_limit l" "rl_burst l' = rl_burst l"
    and "rl_exempt l' = rl_exempt l" "rl_overflow l' = rl_overflow l"
proof (cases "map_of (rl_buckets l) (rateLimitClientKey a)")
  case None
  let ?k = "rateLimitClientKey a"
  let ?l' = "l\<lparr>rl_buckets := (?k, lo_new ops (rl_limit l) (rl_burst l)) # rl_buckets l\<rparr>"
  have k: "?k \<notin> fst ` set (rl_buckets l)" using None by (simp add: map_of_eq_None_iff)
  have "length (rl_buckets l) = card (fst ` set (rl_buckets l))"
    using assms(1) by (metis distinct_card length_map list.set_map)
  also have "\<dots> < card S"
    using k assms(2,3,5) by (intro psubset_card_mono) auto
  finally have "\<not> length (rl_buckets l) \<ge> rateLimitMaxTrackedClients" using assms(4) by simp
  then show ?thesis
    using None k assms(1) by (intro that[of ?l']) (auto simp: bucketFor_def Let_def budget_def split: option.split)
next
  case (Some b)
  then have "rateLimitClientKey a \<in> fst ` set (rl_buckets l)"
    by (metis domI dom_map_of_conv_image_fst)
  then show ?thesis
    using Some assms(1) by (intro that[of l]) (auto simp: bucketFor_def Let_def budget_def)
qed

lemma spendFrom_sim:
  assumes laws: "limiterLaws ops limit burst E" and sim: "sweepSim ops E now l m"
    and S: "fst ` set (rl_buckets m) \<subseteq> S" "finite S" "card S \<le> rateLimitMaxTrackedClients"
    and addr: "\<And>a. addr = Some a \<Longrightarrow> rateLimitClientKey a \<in> S"
  shows "fst (spendFrom ops now (bucketFor ops addr l)) = fst (spendFrom ops now (bucketFor ops addr m))
    \<and> sweepSim ops E now (snd (spendFrom ops now (bucketFor ops addr l))) (snd (spendFrom ops now (bucketFor ops addr m)))
    \<and> fst ` set (rl_buckets (snd (spendFrom ops now (bucketFor ops addr m)))) \<subseteq> S"
proof (cases addr)
  case None
  have "E now (rl_overflow l) (rl_overflow m)" using sim by (simp add: sweepSim_def)
  then have "fst (lo_allowN ops now (rl_overflow l)) = fst (lo_allowN ops now (rl_overflow m))
      \<and> E now (snd (lo_allowN ops now (rl_overflow l))) (snd (lo_allowN ops now (rl_overflow m)))"
    using laws unfolding limiterLaws_def by blast
  moreover have "budget ops (x\<lparr>rl_overflow := b\<rparr>) = budget ops x" for x :: "'a rateLimiter" and b
    by (simp add: budget_def fun_eq_iff split: option.split)
  ultimately show ?thesis
    using None sim S(1) by (simp add: bucketFor_def spendFrom_def case_prod_beta sweepSim_def)
next
  case (Some a)
  let ?k = "rateLimitClientKey a"
  have k: "?k \<in> S" using addr Some by simp
  have dl: "distinct (map fst (rl_buckets l))" and dm: "distinct (map fst (rl_buckets m))"
    using sim by (simp_all add: sweepSim_def)
  have sl: "fst ` set (rl_buckets l) \<subseteq> S" using sim S(1) unfolding sweepSim_def by (meson subset_trans)
  obtain l' where l': "bucketFor ops (Some a) l = (l', Some ?k)" "map_of (rl_buckets l') ?k = Some (budget ops l ?k)"
    "\<And>j. budget ops l' j = budget ops l j" "distinct (map fst (rl_buckets l'))"
    "fst ` set (rl_buckets l') = insert ?k (fst ` set (rl_buckets l))"
    "rl_resolver l' = rl_resolver l" "rl_limit l' = rl_limit l" "rl_burst l' = rl_burst l"
    "rl_exempt l' = rl_exempt l" "rl_overflow l' = rl_overflow l"
    using bucketFor_tracks[OF dl sl S(2,3) k] by blast
  obtain m' where m': "bucketFor ops (Some a) m = (m', Some ?k)" "map_of (rl_buckets m') ?k = Some (budget ops m ?k)"
    "\<And>j. budget ops m' j = budget ops m j" "distinct (map fst (rl_buckets m'))"
    "fst ` set (rl_buckets m') = insert ?k (fst ` set (rl_buckets m))"
    "rl_resolver m' = rl_resolver m" "rl_limit m' = rl_limit m" "rl_burst m' = rl_burst m"
    "rl_exempt m' = rl_exempt m" "rl_overflow m' = rl_overflow m"
    using bucketFor_tracks[OF dm S(1,2,3) k] by blast
  let ?a = "lo_allowN ops now (budget ops l ?k)" and ?b = "lo_allowN ops now (budget ops m ?k)"
  have "E now (budget ops l ?k) (budget ops m ?k)" using sim by (simp add: sweepSim_def)
  then have ab: "fst ?a = fst ?b" "E now (snd ?a) (snd ?b)" using laws unfolding limiterLaws_def by blast+
  have upd: "budget ops (x\<lparr>rl_buckets := AList.update ?k v (rl_buckets x)\<rparr>) j = (if j = ?k then v else budget ops x j)"
    for x :: "'a rateLimiter" and v j by (simp add: budget_def update_conv split: option.split)
  let ?l2 = "l'\<lparr>rl_buckets := AList.update ?k (snd ?a) (rl_buckets l')\<rparr>"
  let ?m2 = "m'\<lparr>rl_buckets := AList.update ?k (snd ?b) (rl_buckets m')\<rparr>"
  have "sweepSim ops E now ?l2 ?m2"
    using sim ab(2) l'(3-10) m'(3-10) by (auto simp: sweepSim_def upd distinct_update keys_AList_update)
  moreover have "fst ` set (rl_buckets ?m2) \<subseteq> S"
    using m'(5) S(1) k by (auto simp: keys_AList_update)
  ultimately show ?thesis
    using Some l'(1,2) m'(1,2) ab(1) by (simp add: spendFrom_def case_prod_beta)
qed

lemma spendFrom_keeps:
  "rl_resolver (snd (spendFrom ops now (bucketFor ops addr l))) = rl_resolver l"
  "rl_exempt (snd (spendFrom ops now (bucketFor ops addr l))) = rl_exempt l"
  "rl_limit (snd (spendFrom ops now (bucketFor ops addr l))) = rl_limit l"
  "rl_burst (snd (spendFrom ops now (bucketFor ops addr l))) = rl_burst l"
  by (simp_all add: spendFrom_def bucketFor_def Let_def case_prod_beta split: option.split)

lemma isExempt_cong: "rl_exempt m = rl_exempt l \<Longrightarrow> isExempt m addr = isExempt l addr"
  by (simp add: isExempt_def split: option.split)

lemma decisions_sim:
  assumes "limiterLaws ops (rl_limit l) (rl_burst l) E" and "sweepSim ops E t l m" and "sorted (t # map fst rs)"
    and "fst ` set (rl_buckets m) \<subseteq> S" and "finite S" and "card S \<le> rateLimitMaxTrackedClients"
    and "\<And>now r a. (now, r) \<in> set rs \<Longrightarrow> clientAddr (rl_resolver l) r = Some a \<Longrightarrow> rateLimitClientKey a \<in> S"
  shows "decisions (rlAllow ops) rs l = decisions (rlAllowKeeping ops) rs m"
  using assms
proof (induction rs arbitrary: l m t)
  case (Cons x rs)
  obtain now r where x: "x = (now, r)" by fastforce
  let ?addr = "clientAddr (rl_resolver l) r"
  have sim: "sweepSim ops E now l m" using sweepSim_later[OF Cons.prems(1,2)] Cons.prems(3) x by simp
  have same: "rl_resolver m = rl_resolver l" "rl_exempt m = rl_exempt l" using sim by (simp_all add: sweepSim_def)
  have keys: "rateLimitClientKey a \<in> S" if "(u, q) \<in> set rs" and "clientAddr (rl_resolver l) q = Some a" for u q a
    using Cons.prems(7)[of u q a] that by simp
  have later: "sorted (now # map fst rs)" using Cons.prems(3) x by simp
  show ?case
  proof (cases "isExempt l ?addr")
    case True
    then have "rlAllow ops now r l = (True, l)" "rlAllowKeeping ops now r m = (True, m)"
      using same isExempt_cong[of m l] by (simp_all add: rlAllow_def rlAllowKeeping_def Let_def)
    moreover have "decisions (rlAllow ops) rs l = decisions (rlAllowKeeping ops) rs m"
      by (rule Cons.IH[OF Cons.prems(1) sim later Cons.prems(4-6) keys])
    ultimately show ?thesis using x by simp
  next
    case False
    let ?l = "sweepIfDue ops now l"
    let ?s = "spendFrom ops now (bucketFor ops ?addr ?l)" and ?m = "spendFrom ops now (bucketFor ops ?addr m)"
    have swept: "sweepSim ops E now ?l m" using sweepSim_sweep[OF Cons.prems(1) sim] .
    have "\<And>a. ?addr = Some a \<Longrightarrow> rateLimitClientKey a \<in> S" using Cons.prems(7)[of now r] x by simp
    note step = spendFrom_sim[OF Cons.prems(1) swept Cons.prems(4-6) this]
    have keep: "rl_resolver (snd ?s) = rl_resolver l" "rl_limit (snd ?s) = rl_limit l" "rl_burst (snd ?s) = rl_burst l"
      by (simp_all add: spendFrom_keeps) (simp_all add: sweepIfDue_def)
    have "decisions (rlAllow ops) rs (snd ?s) = decisions (rlAllowKeeping ops) rs (snd ?m)"
      using Cons.prems(1) step keep
      by (intro Cons.IH[of "snd ?s" now "snd ?m", OF _ _ later _ Cons.prems(5,6)]) (auto intro: keys)
    moreover have "rlAllow ops now r l = ?s" "rlAllowKeeping ops now r m = ?m"
      using False same isExempt_cong[of m l] by (simp_all add: rlAllow_def rlAllowKeeping_def Let_def)
    ultimately show ?thesis using x step by (simp add: case_prod_beta)
  qed
qed simp

text \<open>Forgetting clients is not an amnesty: as long as the clients fit under the cap, a limiter
  that sweeps full buckets out of its map takes exactly the decisions of one that never
  forgets a client, for every sequence of requests over time.\<close>

theorem sweeping_changes_no_decision:
  assumes "limiterLaws ops (rl_limit l) (rl_burst l) E" and "bucketsOK l" and "sorted (t # map fst rs)"
    and "card (fst ` set (rl_buckets l) \<union> {rateLimitClientKey a |now r a. (now, r) \<in> set rs \<and> clientAddr (rl_resolver l) r = Some a})
           \<le> rateLimitMaxTrackedClients"
  shows "decisions (rlAllow ops) rs l = decisions (rlAllowKeeping ops) rs l"
proof -
  let ?K = "{rateLimitClientKey a |now r a. (now, r) \<in> set rs \<and> clientAddr (rl_resolver l) r = Some a}"
  have "?K \<subseteq> (\<lambda>(now, r). rateLimitClientKey (the (clientAddr (rl_resolver l) r))) ` set rs" by force
  then have "finite ?K" by (rule finite_subset) simp
  moreover have "equivp (E t)" using assms(1) by (simp add: limiterLaws_def)
  then have "sweepSim ops E t l l"
    using assms(2) by (simp add: sweepSim_def bucketsOK_def equivp_reflp)
  ultimately show ?thesis
    using assms by (intro decisions_sim[where S = "fst ` set (rl_buckets l) \<union> ?K"]) auto
qed

text \<open>A limiter of one token that never refills, as an instance of the parameter.\<close>

definition oneShot :: "bool limiterOps" where
  "oneShot = \<lparr>lo_new = (\<lambda>_ _. True), lo_allowN = (\<lambda>_ b. (b, False)), lo_tokensAt = (\<lambda>_ b. if b then 1 else 0)\<rparr>"

lemma oneShot_laws: "limiterLaws oneShot 1 1 (\<lambda>_. (=))"
  by (simp add: limiterLaws_def oneShot_def identity_equivp)

definition peerRequest :: "string \<Rightarrow> request" where
  "peerRequest addr = emptyRequest\<lparr>req_remote_addr := addr\<rparr>"

theorem sweeping_changes_no_decision_witness:
  "decisions (rlAllow oneShot) [(0, peerRequest ''10.0.0.1:1''), (70 * second, peerRequest ''10.0.0.1:2'')]
     (newBareRateLimiter oneShot 1 1 0) = [True, False]
   \<and> decisions (rlAllowKeeping oneShot) [(0, peerRequest ''10.0.0.1:1''), (70 * second, peerRequest ''10.0.0.1:2'')]
     (newBareRateLimiter oneShot 1 1 0) = [True, False]"
proof -
  let ?l = "newBareRateLimiter oneShot 1 1 0"
  let ?rs = "[(0, peerRequest ''10.0.0.1:1''), (70 * second, peerRequest ''10.0.0.1:2'')]"
  have addr: "clientAddr \<lparr>fr_trusted = [], fr_clientIPHeader = []\<rparr> (peerRequest ''10.0.0.1:1'') = Some (V4 0x0A000001)"
    "clientAddr \<lparr>fr_trusted = [], fr_clientIPHeader = []\<rparr> (peerRequest ''10.0.0.1:2'') = Some (V4 0x0A000001)" by code_simp+
  moreover have res: "rl_resolver ?l = \<lparr>fr_trusted = [], fr_clientIPHeader = []\<rparr>"
    by (simp add: newBareRateLimiter_def Let_def)
  ultimately have "{rateLimitClientKey a |now r a. (now, r) \<in> set ?rs \<and> clientAddr (rl_resolver ?l) r = Some a}
      \<subseteq> {rateLimitClientKey (V4 0x0A000001)}" by auto
  moreover have "rl_buckets ?l = []" "rl_limit ?l = 1" "rl_burst ?l = 1" by (simp_all add: newBareRateLimiter_def Let_def)
  ultimately have "card (fst ` set (rl_buckets ?l) \<union>
      {rateLimitClientKey a |now r a. (now, r) \<in> set ?rs \<and> clientAddr (rl_resolver ?l) r = Some a}) \<le> card {rateLimitClientKey (V4 0x0A000001)}"
    by (intro card_mono) auto
  then have "decisions (rlAllow oneShot) ?rs ?l = decisions (rlAllowKeeping oneShot) ?rs ?l"
    using sweeping_changes_no_decision[of oneShot ?l "\<lambda>_. (=)" 0 ?rs] oneShot_laws \<open>rl_buckets ?l = []\<close>
      \<open>rl_limit ?l = 1\<close> \<open>rl_burst ?l = 1\<close>
    by (simp add: bucketsOK_def rateLimitMaxTrackedClients_def second_def)
  moreover have "decisions (rlAllowKeeping oneShot) ?rs ?l = [True, False]"
    by (simp add: rlAllowKeeping_def newBareRateLimiter_def addr isExempt_def containsAddr_def bucketFor_def spendFrom_def
        oneShot_def rateLimitMaxTrackedClients_def Let_def)
  ultimately show ?thesis by simp
qed

theorem rateLimiter_bounded_witness:
  "bucketsOK (snd (rlAllow oneShot 0 (peerRequest ''10.0.0.1:1'') (newBareRateLimiter oneShot 1 1 0)))"
proof -
  have "bucketsOK (newBareRateLimiter oneShot 1 1 0)"
    by (simp add: bucketsOK_def newBareRateLimiter_def rateLimitMaxTrackedClients_def Let_def)
  then show ?thesis using rateLimiter_bounded by blast
qed

section \<open>Whose budget is it\<close>

lemma push_drop_inj: "push_bit n (drop_bit n a) = push_bit n (drop_bit n b) \<longleftrightarrow> drop_bit n a = drop_bit n (b :: 'a::len word)"
  by (metis drop_push_drop)

text \<open>IPv6 clients are counted by subnet and IPv4 clients by address: two IPv6 clients share a
  budget exactly when their first 64 bits agree, whatever the zone, and an IPv4 client has the
  same budget whether it connects over IPv4 or in the IPv4-mapped form.\<close>

theorem rateLimitClientKey_identity:
  assumes "\<not> is4In6 (V6 a za)" and "\<not> is4In6 (V6 b zb)"
  shows "(rateLimitClientKey (V6 a za) = rateLimitClientKey (V6 b zb) \<longleftrightarrow> drop_bit 64 a = drop_bit 64 b)
    \<and> rateLimitClientKey (V6 (mapped4 w) za) = rateLimitClientKey (V4 w)
    \<and> (rateLimitClientKey (V4 v) = rateLimitClientKey (V4 w) \<longleftrightarrow> v = w)
    \<and> rateLimitClientKey (V4 w) \<noteq> rateLimitClientKey (V6 a za)"
proof -
  have v6: "normalizeAddr (V6 c z) = V6 c []" if "\<not> is4In6 (V6 c z)" for c z
    using that by (simp add: normalizeAddr_def unmap_def withoutZone_def)
  have v4: "normalizeAddr (V4 c) = V4 c" for c by (simp add: normalizeAddr_def unmap_def withoutZone_def)
  show ?thesis
    using assms
    by (simp add: rateLimitClientKey_def v6 v4 normalizeAddr_mapped4 masked_def rateLimitIPv6PrefixBits_def push_drop_inj)
qed

theorem rateLimitClientKey_identity_witness:
  "rateLimitClientKey (V6 0x20010DB8000000010000000000000001 []) = rateLimitClientKey (V6 0x20010DB800000001000000000000BEEF ''eth0'')"
proof -
  have "\<not> is4In6 (V6 0x20010DB8000000010000000000000001 [])" "\<not> is4In6 (V6 0x20010DB800000001000000000000BEEF ''eth0'')"
    by (simp_all add: is4In6_def)
  moreover have "drop_bit 64 (0x20010DB8000000010000000000000001 :: 128 word) = drop_bit 64 0x20010DB800000001000000000000BEEF"
    by simp
  ultimately show ?thesis
    using rateLimitClientKey_identity[of "0x20010DB8000000010000000000000001" "[]" "0x20010DB800000001000000000000BEEF" "''eth0''"]
    by blast
qed

end
