(* ===== verification/Service_Options.thy ===== *)
theory Service_Options
  imports Cache_Policy Basic_Auth Redirects Rate_Limit
begin

text \<open>
  Normalisation and validation of a service's options: \<open>ServiceOptions.Normalize\<close> and \<open>Validate\<close> of \<open>service.go\<close>, the
  validators it chains (\<open>service_options_validation.go\<close>, \<open>retry.go\<close>, \<open>session_affinity.go\<close>, \<open>ip_allow_list.go\<close>, \<open>deny_list.go\<close>,
  \<open>rate_limit.go\<close>, \<open>service_idle.go\<close>, \<open>tls_on_demand.go\<close>, \<open>dynamic_domains.go\<close>) and the health check path rules of a
  deploy. \<open>url.Parse\<close>, \<open>url.ParseRequestURI\<close> and the regular expressions are fields of \<open>validators\<close>.
\<close>

record validators =
  vd_regex :: regexOps
  vd_parseURL :: "string \<Rightarrow> url option"
  vd_parseRequestURI :: "string \<Rightarrow> url option"
  vd_validName :: "string \<Rightarrow> bool"
  vd_uaCompiles :: "string \<Rightarrow> bool"

datatype serviceOptionsError = OnDemandNeedsTLS | ClientCANeedsTLS | HostsWithOnDemand | CertificateWithOnDemand
  | CanonicalWithOnDemand | OnDemandSchemeRelative | OnDemandUnparsable | OnDemandScheme | OnDemandNoHost
  | TLSNeedsHost | TLSNeedsRootPath | CanonicalNotInHosts | InterceptStatusRange
  | NegativeTryDuration | NegativeTryInterval | TryIntervalNeedsDuration
  | AffinityCookieNeedsAffinity | InvalidAffinityCookie | BasicAuthInvalid basicAuthError
  | TrustedProxyNeedsRule | AllowIPHeaderNeedsTrusted | AllowIPInvalid prefixError | TrustedProxyInvalid prefixError
  | TrustedProxyDefaultRoute | DenyInvalid denyError | DenyIPHeaderNeedsTrusted
  | NegativeRateLimit | BurstNeedsRateLimit | ExemptNeedsRateLimit | NegativeBurst | RateLimitHeaderNeedsTrusted
  | ExemptInvalid prefixError | PathRuleInvalid pathRuleError | CompressionInvalid compressionError
  | CacheInvalid cacheOptionsError | NegativeSleep | SleepWithOnDemand | SleepContainerNeedsSleep
  | ACMEDirectoryInvalid | RedirectsIntervalNeedsSource | RedirectsSourceInvalid | RedirectsIntervalTooShort
  | BatchSizeNeedsSource | DomainsIntervalNeedsSource | DomainsNeedTLS | DomainsWithOnDemand | DomainsNeedCatchAll
  | DomainsSourceInvalid | BatchSizeRange | DomainsIntervalTooShort

section \<open>Normalisation\<close>

definition defaultWakeTimeoutOption :: duration where
  "defaultWakeTimeoutOption = 30 * second"

definition normalizeServiceOptions :: "serviceOptions \<Rightarrow> serviceOptions" where
  "normalizeServiceOptions so =
     (let so1 = so\<lparr>so_hosts := normalizeHosts (so_hosts so), so_pathPrefixes := normalizePathPrefixes (so_pathPrefixes so),
          so_compression := normalizeCompression (so_compression so), so_cache := normalizeCache (so_cache so)\<rparr>
      in if so_sleepAfter so1 > 0 \<and> so_wakeTimeout so1 = 0 then so1\<lparr>so_wakeTimeout := defaultWakeTimeoutOption\<rparr> else so1)"

definition hasConfiguredHosts :: "serviceOptions \<Rightarrow> bool" where
  "hasConfiguredHosts so \<longleftrightarrow> so_hosts so \<noteq> [] \<and> [] \<notin> set (so_hosts so)"

definition shouldExcludeMetrics :: "serviceOptions \<Rightarrow> request \<Rightarrow> bool" where
  "shouldExcludeMetrics so r \<longleftrightarrow> routedTargetPath r \<in> set (so_excludeMetricsPaths so)"

section \<open>The validators\<close>

definition httpURL :: "url \<Rightarrow> bool" where
  "httpURL u \<longleftrightarrow> u_scheme u = ''http'' \<or> u_scheme u = ''https''"

text \<open>The parsed endpoint and whether the service itself serves it.\<close>

definition parseTLSOnDemandURL :: "validators \<Rightarrow> string \<Rightarrow> serviceOptionsError + url \<times> bool" where
  "parseTLSOnDemandURL vd s =
     (if hasPrefix s ''//'' then Inl OnDemandSchemeRelative
      else if hasPrefix s ''/'' then (case vd_parseURL vd s of None \<Rightarrow> Inl OnDemandUnparsable | Some u \<Rightarrow> Inr (u, True))
      else case vd_parseRequestURI vd s of
             None \<Rightarrow> Inl OnDemandUnparsable
           | Some u \<Rightarrow> if \<not> httpURL u then Inl OnDemandScheme
                       else if u_host u = [] then Inl OnDemandNoHost else Inr (u, False))"

definition validateTLSOnDemandURL :: "validators \<Rightarrow> string \<Rightarrow> serviceOptionsError option" where
  "validateTLSOnDemandURL vd s = (case parseTLSOnDemandURL vd s of Inl e \<Rightarrow> Some e | Inr _ \<Rightarrow> None)"

definition validateInterceptErrorStatuses :: "serviceOptions \<Rightarrow> serviceOptionsError option" where
  "validateInterceptErrorStatuses so =
     (if list_ex (\<lambda>s. s < 400 \<or> s > 599) (so_interceptErrorStatuses so) then Some InterceptStatusRange else None)"

definition validateRetries :: "serviceOptions \<Rightarrow> serviceOptionsError option" where
  "validateRetries so =
     (if so_targetTryDuration so < 0 then Some NegativeTryDuration
      else if so_targetTryInterval so < 0 then Some NegativeTryInterval
      else if so_targetTryInterval so > 0 \<and> so_targetTryDuration so = 0 then Some TryIntervalNeedsDuration
      else None)"

definition validateSessionAffinity :: "serviceOptions \<Rightarrow> serviceOptionsError option" where
  "validateSessionAffinity so =
     (if \<not> so_sessionAffinity so then
        (if so_sessionAffinityCookieName so \<noteq> [] then Some AffinityCookieNeedsAffinity else None)
      else if so_sessionAffinityCookieName so = [] then None
      else if \<not> list_all tokenChar (so_sessionAffinityCookieName so) then Some InvalidAffinityCookie
      else None)"

definition prefixBits :: "ipPrefix \<Rightarrow> nat" where
  "prefixBits p = (case p of IPPrefix _ bits \<Rightarrow> bits)"

definition validateAllowIPs :: "serviceOptions \<Rightarrow> serviceOptionsError option" where
  "validateAllowIPs so =
     (if so_trustedProxies so \<noteq> [] \<and> so_allowIPs so = [] \<and> so_rateLimit so \<le> 0 \<and> so_denyIPs so = [] then Some TrustedProxyNeedsRule
      else if so_allowIPs so \<noteq> [] \<and> so_clientIPHeader so \<noteq> [] \<and> so_trustedProxies so = [] then Some AllowIPHeaderNeedsTrusted
      else case parseIPPrefixes (so_allowIPs so) of
             Inl e \<Rightarrow> Some (AllowIPInvalid e)
           | Inr _ \<Rightarrow>
               (case parseIPPrefixes (so_trustedProxies so) of
                  Inl e \<Rightarrow> Some (TrustedProxyInvalid e)
                | Inr trusted \<Rightarrow> if list_ex (\<lambda>p. prefixBits p = 0) trusted then Some TrustedProxyDefaultRoute else None))"

definition validateDeny :: "validators \<Rightarrow> serviceOptions \<Rightarrow> serviceOptionsError option" where
  "validateDeny vd so =
     (case parseIPPrefixes (so_denyIPs so) of
        Inl e \<Rightarrow> Some (DenyInvalid (DenyPrefix e))
      | Inr _ \<Rightarrow>
          (case parseDenyUserAgents (vd_uaCompiles vd) (so_denyUserAgents so) of
             Inl e \<Rightarrow> Some (DenyInvalid e)
           | Inr _ \<Rightarrow>
               if so_denyIPs so \<noteq> [] \<and> so_clientIPHeader so \<noteq> [] \<and> so_trustedProxies so = [] then Some DenyIPHeaderNeedsTrusted
               else None))"

definition validateRateLimit :: "serviceOptions \<Rightarrow> serviceOptionsError option" where
  "validateRateLimit so =
     (if so_rateLimit so < 0 then Some NegativeRateLimit
      else if so_rateLimit so = 0 then
        (if so_rateLimitBurst so \<noteq> 0 then Some BurstNeedsRateLimit
         else if so_rateLimitExempt so \<noteq> [] then Some ExemptNeedsRateLimit else None)
      else if so_rateLimitBurst so < 0 then Some NegativeBurst
      else if so_clientIPHeader so \<noteq> [] \<and> so_trustedProxies so = [] then Some RateLimitHeaderNeedsTrusted
      else case parseIPPrefixes (so_rateLimitExempt so) of Inl e \<Rightarrow> Some (ExemptInvalid e) | Inr _ \<Rightarrow> None)"

definition validateSleep :: "serviceOptions \<Rightarrow> serviceOptionsError option" where
  "validateSleep so =
     (if so_sleepAfter so < 0 \<or> so_wakeTimeout so < 0 then Some NegativeSleep
      else if so_sleepAfter so > 0 \<and> so_tlsOnDemandURL so \<noteq> [] then Some SleepWithOnDemand
      else if so_sleepAfter so \<le> 0 \<and> so_sleepContainers so \<noteq> [] then Some SleepContainerNeedsSleep
      else None)"

definition absoluteHTTP :: "validators \<Rightarrow> string \<Rightarrow> bool" where
  "absoluteHTTP vd s = (case vd_parseURL vd s of None \<Rightarrow> False | Some u \<Rightarrow> httpURL u \<and> hostname u \<noteq> [])"

definition validateACMEDirectory :: "validators \<Rightarrow> serviceOptions \<Rightarrow> serviceOptionsError option" where
  "validateACMEDirectory vd so =
     (if so_acmeDirectory so = [] then None
      else if \<not> absoluteHTTP vd (so_acmeDirectory so) then Some ACMEDirectoryInvalid else None)"

definition validateDynamicRedirects :: "validators \<Rightarrow> serviceOptions \<Rightarrow> serviceOptionsError option" where
  "validateDynamicRedirects vd so =
     (if so_redirectsSource so = [] then
        (if so_redirectsInterval so \<noteq> 0 then Some RedirectsIntervalNeedsSource else None)
      else if \<not> hasPrefix (so_redirectsSource so) ''/'' \<and> \<not> absoluteHTTP vd (so_redirectsSource so) then Some RedirectsSourceInvalid
      else if so_redirectsInterval so \<noteq> 0 \<and> so_redirectsInterval so < 10 * second then Some RedirectsIntervalTooShort
      else None)"

definition validDomainSource :: "string \<Rightarrow> bool" where
  "validDomainSource s \<longleftrightarrow> hasPrefix s ''/'' \<or> hasPrefix s ''http://'' \<or> hasPrefix s ''https://''"

definition validateDynamicDomains :: "serviceOptions \<Rightarrow> serviceOptionsError option" where
  "validateDynamicDomains so =
     (if so_tlsDomainsSource so = [] then
        (if so_tlsDomainsBatchSize so \<noteq> 0 then Some BatchSizeNeedsSource
         else if so_tlsDomainsInterval so \<noteq> 0 then Some DomainsIntervalNeedsSource else None)
      else if \<not> so_tlsEnabled so then Some DomainsNeedTLS
      else if so_tlsOnDemandURL so \<noteq> [] then Some DomainsWithOnDemand
      else if hasConfiguredHosts so then Some DomainsNeedCatchAll
      else if \<not> validDomainSource (so_tlsDomainsSource so) then Some DomainsSourceInvalid
      else if so_tlsDomainsBatchSize so < 0 \<or> so_tlsDomainsBatchSize so > 25 then Some BatchSizeRange
      else if so_tlsDomainsInterval so \<noteq> 0 \<and> so_tlsDomainsInterval so < 10 * second then Some DomainsIntervalTooShort
      else None)"

definition validateTLS :: "validators \<Rightarrow> serviceOptions \<Rightarrow> serviceOptionsError option" where
  "validateTLS vd so =
     (if so_tlsOnDemandURL so \<noteq> [] \<and> \<not> so_tlsEnabled so then Some OnDemandNeedsTLS
      else if so_tlsClientCACertificatePath so \<noteq> [] \<and> \<not> so_tlsEnabled so then Some ClientCANeedsTLS
      else if \<not> so_tlsEnabled so then None
      else case (if so_tlsOnDemandURL so \<noteq> [] then
                   (if hasConfiguredHosts so then Some HostsWithOnDemand
                    else if so_tlsCertificatePath so \<noteq> [] \<or> so_tlsPrivateKeyPath so \<noteq> [] then Some CertificateWithOnDemand
                    else if so_canonicalHost so \<noteq> [] then Some CanonicalWithOnDemand
                    else validateTLSOnDemandURL vd (so_tlsOnDemandURL so))
                 else if \<not> hasConfiguredHosts so \<and> so_tlsDomainsSource so = [] then Some TLSNeedsHost
                 else None) of
             Some e \<Rightarrow> Some e
           | None \<Rightarrow> if rootPath \<notin> set (so_pathPrefixes so) then Some TLSNeedsRootPath else None)"

definition validateCanonicalHost :: "serviceOptions \<Rightarrow> serviceOptionsError option" where
  "validateCanonicalHost so =
     (case so_hosts so of
        h # _ \<Rightarrow> if so_canonicalHost so \<noteq> [] \<and> h \<noteq> [] \<and> so_canonicalHost so \<notin> set (so_hosts so) then Some CanonicalNotInHosts else None
      | [] \<Rightarrow> None)"

text \<open>The chain of \<open>Validate\<close>: the first validator that objects.\<close>

definition validationChain :: "validators \<Rightarrow> serviceOptions \<Rightarrow> serviceOptionsError option list" where
  "validationChain vd so =
     [validateTLS vd so, validateCanonicalHost so, validateInterceptErrorStatuses so, validateRetries so, validateSessionAffinity so,
      map_option BasicAuthInvalid (validateBasicAuth so), validateAllowIPs so, validateDeny vd so, validateRateLimit so,
      map_option PathRuleInvalid (validatePathRules (vd_regex vd) so), map_option CompressionInvalid (validateCompression (so_compression so)),
      map_option CacheInvalid (validateCache (vd_validName vd) (so_cache so)), validateSleep so, validateACMEDirectory vd so,
      validateDynamicRedirects vd so, validateDynamicDomains so]"

definition validateServiceOptions :: "validators \<Rightarrow> serviceOptions \<Rightarrow> serviceOptionsError option" where
  "validateServiceOptions vd so = (case List.map_filter id (validationChain vd (normalizeServiceOptions so)) of [] \<Rightarrow> None | e # _ \<Rightarrow> Some e)"

text \<open>The four health check path rules of a deploy share one shape.\<close>

definition healthCheckOffRoot :: "targetOptions \<Rightarrow> bool" where
  "healthCheckOffRoot topts \<longleftrightarrow> hc_path (to_healthCheck topts) \<noteq> [] \<and> hc_path (to_healthCheck topts) \<noteq> rootPath"

definition validateAllowIPsHealthCheck :: "serviceOptions \<Rightarrow> targetOptions \<Rightarrow> bool" where
  "validateAllowIPsHealthCheck so topts \<longleftrightarrow> so_allowIPs so = [] \<or> healthCheckOffRoot topts"

definition validateDenyHealthCheck :: "serviceOptions \<Rightarrow> targetOptions \<Rightarrow> bool" where
  "validateDenyHealthCheck so topts \<longleftrightarrow> \<not> hasDenyRules so \<or> healthCheckOffRoot topts"

definition validateRateLimitHealthCheck :: "serviceOptions \<Rightarrow> targetOptions \<Rightarrow> bool" where
  "validateRateLimitHealthCheck so topts \<longleftrightarrow> so_rateLimit so \<le> 0 \<or> healthCheckOffRoot topts"

section \<open>Normalisation is idempotent\<close>

lemma trimBy_fix: "(s \<noteq> [] \<Longrightarrow> \<not> P (hd s) \<and> \<not> P (last s)) \<Longrightarrow> trimBy P s = s"
proof (cases s)
  case Nil
  then show ?thesis by (simp add: trimBy_def)
next
  case (Cons c t)
  assume "s \<noteq> [] \<Longrightarrow> \<not> P (hd s) \<and> \<not> P (last s)"
  then have h: "\<not> P (hd s)" and l: "\<not> P (last s)" using Cons by simp_all
  have "dropWhile P s = s" using h Cons by simp
  moreover have "dropWhile P (rev s) = rev s"
  proof -
    obtain x ys where "rev s = x # ys" using Cons by (cases "rev s") auto
    moreover have "x = last s" using calculation by (metis hd_rev list.sel(1))
    ultimately show ?thesis using l by (simp only: dropWhile.simps if_False)
  qed
  ultimately show ?thesis by (simp add: trimBy_def)
qed

lemma trimBy_idem [simp]: "trimBy P (trimBy P s) = trimBy P s"
  by (rule trimBy_fix) (simp add: trimBy_hd trimBy_last)

lemma lowerChar_cases: "lowerChar c = c \<or> 65 \<le> (of_char c :: nat) \<and> of_char c \<le> (90 :: nat) \<and> of_char (lowerChar c) = (of_char c + 32 :: nat)"
  by (auto simp: lowerChar_def Let_def of_char_of)

lemma isSpace_small: "isSpace c \<Longrightarrow> of_char c \<le> (32 :: nat)"
  by (auto simp: isSpace_def)

lemma isSpace_lowerChar: "isSpace (lowerChar c) = isSpace c"
  using lowerChar_cases[of c] isSpace_small[of c] isSpace_small[of "lowerChar c"] by auto

lemma lowerChar_idem: "lowerChar (lowerChar c) = lowerChar c"
  by (auto simp: lowerChar_def Let_def of_char_of)

lemma toLower_idem [simp]: "toLower (toLower s) = toLower s"
  by (simp add: toLower_def lowerChar_idem)

lemma trimSpace_toLower: "trimSpace (toLower s) = toLower (trimSpace s)"
proof -
  have "isSpace \<circ> lowerChar = isSpace" by (rule ext) (simp add: isSpace_lowerChar)
  then show ?thesis by (simp add: trimSpace_def trimBy_def toLower_def dropWhile_map rev_map)
qed

lemma trimSpace_idem [simp]: "trimSpace (trimSpace s) = trimSpace s"
  by (simp add: trimSpace_def)

text \<open>A list all of whose names are fixed, non-empty and distinct is what a normalizer leaves.\<close>

lemma normalizeNames_spec:
  "let ns = normalizeNames f names in distinct ns \<and> [] \<notin> set ns \<and> set ns \<subseteq> f ` set names"
proof -
  let ?step = "\<lambda>acc name. let n = f name in if n = [] \<or> n \<in> set acc then acc else acc @ [n]"
  have "distinct acc \<and> [] \<notin> set acc \<Longrightarrow>
      distinct (foldl ?step acc names) \<and> [] \<notin> set (foldl ?step acc names) \<and> set (foldl ?step acc names) \<subseteq> set acc \<union> f ` set names" for acc
  proof (induction names arbitrary: acc)
    case (Cons n ns)
    have "distinct (?step acc n) \<and> [] \<notin> set (?step acc n)" using Cons.prems by (auto simp: Let_def)
    from Cons.IH[OF this] show ?case by (auto simp: Let_def split: if_splits)
  qed simp
  from this[of "[]"] show ?thesis by (simp add: normalizeNames_def Let_def)
qed

lemma normalizeNames_fixed:
  assumes "distinct ns" and "[] \<notin> set ns" and "\<forall>n \<in> set ns. f n = n"
  shows "normalizeNames f ns = ns"
proof -
  let ?step = "\<lambda>acc name. let n = f name in if n = [] \<or> n \<in> set acc then acc else acc @ [n]"
  have "distinct (acc @ ns) \<Longrightarrow> [] \<notin> set ns \<Longrightarrow> \<forall>n \<in> set ns. f n = n \<Longrightarrow> foldl ?step acc ns = acc @ ns" for acc
  proof (induction ns arbitrary: acc)
    case (Cons n ns)
    then have "?step acc n = acc @ [n]" by (auto simp: Let_def)
    then show ?case using Cons.IH[of "acc @ [n]"] Cons.prems by simp
  qed simp
  from this[of "[]"] assms show ?thesis by (simp add: normalizeNames_def)
qed

lemma normalizeNames_idem:
  assumes "\<And>n. f (f n) = f n"
  shows "normalizeNames f (normalizeNames f names) = normalizeNames f names"
  using normalizeNames_spec[of f names] assms by (intro normalizeNames_fixed) (auto simp: Let_def)

lemma encodingAlias_idem: "encodingAlias (toLower (trimSpace (encodingAlias (toLower (trimSpace e))))) = encodingAlias (toLower (trimSpace e))"
proof -
  have "trimSpace ''br'' = ''br''" "toLower ''br'' = ''br''" by code_simp+
  then show ?thesis by (simp add: encodingAlias_def trimSpace_toLower)
qed

lemma set_trimBy: "set (trimBy P s) \<subseteq> set s"
  unfolding trimBy_def by (auto dest!: set_dropWhileD)

lemma lowerChar_semicolon: "lowerChar c = CHR '';'' \<Longrightarrow> c = CHR '';''"
  using lowerChar_cases[of c] by auto

lemma normalizeContentType_idem: "normalizeContentType (normalizeContentType ct) = normalizeContentType ct"
proof -
  have no: "CHR '';'' \<notin> set (fst (cut ct '';''))"
  proof (cases "CHR '';'' \<in> set ct")
    case True
    then obtain a b where "ct = a @ CHR '';'' # b" and "CHR '';'' \<notin> set a" by (metis split_list_first)
    then show ?thesis by (simp add: cut_char_append)
  qed (simp add: cut_char_absent)
  then have "CHR '';'' \<notin> set (normalizeContentType ct)"
    using set_trimBy[of isSpace "fst (cut ct '';'')"] lowerChar_semicolon
    by (force simp: normalizeContentType_def toLower_def trimSpace_def)
  then show ?thesis by (simp add: normalizeContentType_def[of "normalizeContentType ct"] cut_char_absent)
      (simp add: normalizeContentType_def trimSpace_toLower)
qed

lemma normalizeServiceOptions_idem: "normalizeServiceOptions (normalizeServiceOptions so) = normalizeServiceOptions so"
proof -
  have "normalizeHosts (normalizeHosts hs) = normalizeHosts hs" for hs by (simp add: normalizeHosts_def)
  moreover have "normalizeCompression (normalizeCompression c) = normalizeCompression c" for c
    by (simp add: normalizeCompression_def normalizeEncodings_def normalizeContentTypes_def normalizeNames_idem
        encodingAlias_idem normalizeContentType_idem)
  moreover have "normalizeCache (normalizeCache c) = normalizeCache c" for c
    by (simp add: normalizeCache_def normalizeLowercaseNames_def normalizeCookieNames_def normalizeNames_idem trimSpace_toLower)
  ultimately show ?thesis
    by (simp add: normalizeServiceOptions_def Let_def normalizePathPrefixes_idem)
qed

section \<open>What a deploy accepts is served as written\<close>

lemma validated_chain:
  assumes "validateServiceOptions vd so = None" and "v \<in> set (validationChain vd (normalizeServiceOptions so))"
  shows "v = None"
proof -
  have "List.map_filter id (validationChain vd (normalizeServiceOptions so)) = []"
    using assms(1) by (simp add: validateServiceOptions_def split: list.split_asm)
  from map_filter_none[OF this assms(2)] show ?thesis by simp
qed

lemma mapResult_total: "\<forall>x \<in> set xs. \<exists>y. f x = Inr y \<Longrightarrow> \<exists>ys. mapResult f xs = Inr ys"
  by (induction xs) auto

lemma validatePathRule_compiles: "validatePathRule rx kind rule = None \<Longrightarrow> \<exists>p. compilePathRulePattern rx rule = Inr p"
  by (auto simp: validatePathRule_def split: if_split_asm sum.split_asm)

lemma newPathRuleSet_total:
  assumes "\<forall>rule \<in> set rules. validatePathRule rx kind rule = None"
  shows "\<exists>cs. newPathRuleSet rx rules = Inr cs"
  unfolding newPathRuleSet_def
proof (rule mapResult_total, rule ballI)
  fix rule assume "rule \<in> set rules"
  then obtain p where "compilePathRulePattern rx rule = Inr p" using assms validatePathRule_compiles by blast
  then show "\<exists>y. map_sum id (\<lambda>p. \<lparr>cr_pattern = p, cr_replacement = pr_replacement rule, cr_status = pr_status rule\<rparr>) (compilePathRulePattern rx rule) = Inr y"
    by simp
qed

lemma validated_rules_resolve:
  assumes "validatePathRules rx so = None"
  shows "\<exists>rules. resolvePathRules rx so = Inr rules"
proof -
  have "List.map_filter (validatePathRule rx RedirectRule) (so_redirects so) = []"
    and "List.map_filter (validatePathRule rx RewriteRule) (so_rewrites so) = []"
    using assms by (auto simp: validatePathRules_def split: list.split_asm)
  then obtain a b where "newPathRuleSet rx (so_redirects so) = Inr a" and "newPathRuleSet rx (so_rewrites so) = Inr b"
    using newPathRuleSet_total map_filter_none by meson
  then show ?thesis by (simp add: resolvePathRules_def)
qed

lemma validated_trusted:
  assumes "validateAllowIPs so = None"
  shows "\<exists>ps trusted. parseIPPrefixes (so_allowIPs so) = Inr ps \<and> parseIPPrefixes (so_trustedProxies so) = Inr trusted
    \<and> list_all (\<lambda>p. 0 < prefixBits p) trusted"
  using assms by (auto simp: validateAllowIPs_def list_ex_iff list_all_iff split: if_split_asm sum.split_asm)

lemma validated_deny:
  assumes "validateDeny vd so = None"
  shows "\<exists>ps uas. parseIPPrefixes (so_denyIPs so) = Inr ps \<and> parseDenyUserAgents (vd_uaCompiles vd) (so_denyUserAgents so) = Inr uas"
  using assms by (auto simp: validateDeny_def split: sum.split_asm)

lemma mapResult_userAgents:
  "parseDenyUserAgents compiles patterns = Inr uas \<Longrightarrow> uas = map trimSpace patterns"
  unfolding parseDenyUserAgents_def by (induction patterns arbitrary: uas) (auto simp: Let_def split: sum.split_asm if_split_asm)

text \<open>C18: A service's protections are either refused on the operator's terminal or enforced as written: when a deploy's options
  validate, none of the fallbacks that serve broken settings applies. The credential is the one written, the allow and deny
  lists hold exactly the ranges and the user agents written and read the client's address through exactly the
  trusted proxies and the header written, the rate limiter has the rate, the burst and the exemptions written, each
  protection that is not written is absent, the path rules compile, and no trusted proxy range covers every address.\<close>

theorem validated_options_are_enforced:
  assumes "validateServiceOptions vd so = None" and "so' = normalizeServiceOptions so"
  shows "\<exists>trusted allowed denied.
    parseIPPrefixes (so_trustedProxies so') = Inr trusted \<and> list_all (\<lambda>p. 0 < prefixBits p) trusted
    \<and> parseIPPrefixes (so_allowIPs so') = Inr allowed \<and> parseIPPrefixes (so_denyIPs so') = Inr denied
    \<and> (let resolver = \<lparr>fr_trusted = trusted, fr_clientIPHeader = (if so_clientIPHeader so' = [] then [] else canonicalHeaderKey (so_clientIPHeader so'))\<rparr>
       in (if so_basicAuth so' = [] then resolveBasicAuth so' = None
           else \<exists>c. resolveBasicAuth so' = Some c \<and> parseBasicAuthCredential (so_basicAuth so') = Inr c \<and> \<not> ba_denyAll c)
        \<and> resolveIPAllowList so' = (if so_allowIPs so' = [] then None else Some \<lparr>al_resolver = resolver, al_prefixes = allowed\<rparr>)
        \<and> resolveDenyList (vd_uaCompiles vd) so' =
            (if so_denyIPs so' = [] \<and> so_denyUserAgents so' = [] then None
             else Some \<lparr>dl_resolver = resolver, dl_prefixes = denied, dl_userAgents = map trimSpace (so_denyUserAgents so'), dl_denyAll = False\<rparr>)
        \<and> (if so_rateLimit so' \<le> 0 then resolveRateLimiter ops so' now = None
           else \<exists>l exempt. resolveRateLimiter ops so' now = Some l \<and> parseIPPrefixes (so_rateLimitExempt so') = Inr exempt
             \<and> rl_resolver l = resolver \<and> rl_exempt l = exempt \<and> rl_limit l = so_rateLimit so' \<and> rl_buckets l = []
             \<and> rl_burst l = (if so_rateLimitBurst so' \<le> 0 then max 1 \<lceil>so_rateLimit so'\<rceil> else so_rateLimitBurst so')))
    \<and> (\<exists>rules. resolvePathRules (vd_regex vd) so' = Inr rules)"
proof -
  note chain = validated_chain[OF assms(1), folded assms(2)]
  have "map_option BasicAuthInvalid (validateBasicAuth so') = None" by (rule chain) (simp add: validationChain_def)
  then have auth: "validateBasicAuth so' = None" by simp
  have "map_option PathRuleInvalid (validatePathRules (vd_regex vd) so') = None" by (rule chain) (simp add: validationChain_def)
  then have rules: "validatePathRules (vd_regex vd) so' = None" by simp
  have "validateAllowIPs so' = None" by (rule chain) (simp add: validationChain_def)
  then obtain ps trusted where allow: "parseIPPrefixes (so_allowIPs so') = Inr ps"
    and trusted: "parseIPPrefixes (so_trustedProxies so') = Inr trusted" "list_all (\<lambda>p. 0 < prefixBits p) trusted"
    using validated_trusted by blast
  have "validateDeny vd so' = None" by (rule chain) (simp add: validationChain_def)
  then obtain ds uas where deny: "parseIPPrefixes (so_denyIPs so') = Inr ds" "parseDenyUserAgents (vd_uaCompiles vd) (so_denyUserAgents so') = Inr uas"
    using validated_deny by blast
  have "validateRateLimit so' = None" by (rule chain) (simp add: validationChain_def)
  then have limit: "0 < so_rateLimit so' \<Longrightarrow> \<exists>es. parseIPPrefixes (so_rateLimitExempt so') = Inr es"
    by (auto simp: validateRateLimit_def split: if_split_asm sum.split_asm)
  let ?f = "\<lparr>fr_trusted = trusted, fr_clientIPHeader = (if so_clientIPHeader so' = [] then [] else canonicalHeaderKey (so_clientIPHeader so'))\<rparr>"
  have resolver: "newForwardedResolver (so_trustedProxies so') (so_clientIPHeader so') = Inr ?f"
    by (simp add: newForwardedResolver_def trusted(1))
  have 1: "if so_basicAuth so' = [] then resolveBasicAuth so' = None
      else \<exists>c. resolveBasicAuth so' = Some c \<and> parseBasicAuthCredential (so_basicAuth so') = Inr c \<and> \<not> ba_denyAll c"
    using auth by (auto simp: validateBasicAuth_def resolveBasicAuth_def parseBasicAuthCredential_def
        split: sum.split_asm if_split_asm option.split_asm prod.split_asm)
  have 2: "resolveIPAllowList so' = (if so_allowIPs so' = [] then None else Some \<lparr>al_resolver = ?f, al_prefixes = ps\<rparr>)"
    by (simp add: resolveIPAllowList_def newIPAllowList_def allow resolver)
  have 3: "resolveDenyList (vd_uaCompiles vd) so' = (if so_denyIPs so' = [] \<and> so_denyUserAgents so' = [] then None
      else Some \<lparr>dl_resolver = ?f, dl_prefixes = ds, dl_userAgents = map trimSpace (so_denyUserAgents so'), dl_denyAll = False\<rparr>)"
    by (simp add: resolveDenyList_def hasDenyRules_def newDenyList_def deny resolver mapResult_userAgents[OF deny(2)])
  have 4: "if so_rateLimit so' \<le> 0 then resolveRateLimiter ops so' now = None
      else \<exists>l exempt. resolveRateLimiter ops so' now = Some l \<and> parseIPPrefixes (so_rateLimitExempt so') = Inr exempt
        \<and> rl_resolver l = ?f \<and> rl_exempt l = exempt \<and> rl_limit l = so_rateLimit so' \<and> rl_buckets l = []
        \<and> rl_burst l = (if so_rateLimitBurst so' \<le> 0 then max 1 \<lceil>so_rateLimit so'\<rceil> else so_rateLimitBurst so')"
    using resolver limit by (auto simp: resolveRateLimiter_def newRateLimiter_def newBareRateLimiter_def Let_def)
  show ?thesis using 1 2 3 4 validated_rules_resolve[OF rules] trusted allow deny(1) unfolding Let_def by blast
qed

definition literalValidators :: validators where
  "literalValidators = \<lparr>vd_regex = literalRegex, vd_parseURL = (\<lambda>_. None), vd_parseRequestURI = (\<lambda>_. None), vd_validName = (\<lambda>n. list_all tokenChar n),
     vd_uaCompiles = (\<lambda>_. True)\<rparr>"

definition guardedOptions :: serviceOptions where
  "guardedOptions = zeroServiceOptions\<lparr>so_allowIPs := [''10.0.0.0/8''], so_trustedProxies := [''192.0.2.1''], so_denyUserAgents := [''BadBot/.*''],
     so_redirects := [\<lparr>pr_pattern = ''/old'', pr_replacement = ''/new'', pr_status = 0\<rparr>]\<rparr>"

theorem validated_options_are_enforced_witness:
  "\<exists>l. resolveDenyList (\<lambda>_. True) (normalizeServiceOptions guardedOptions) = Some l \<and> dl_userAgents l = [''BadBot/.*''] \<and> \<not> dl_denyAll l
     \<and> resolveBasicAuth (normalizeServiceOptions guardedOptions) = None"
proof -
  have ok: "validateServiceOptions literalValidators guardedOptions = None" by code_simp
  have f: "so_denyUserAgents (normalizeServiceOptions guardedOptions) = [''BadBot/.*'']" "map trimSpace [''BadBot/.*''] = [''BadBot/.*'']"
    "so_basicAuth (normalizeServiceOptions guardedOptions) = []"
    by code_simp+
  show ?thesis using validated_options_are_enforced[OF ok refl, of oneShot 0] by (auto simp: f(1,3) f(2)[simplified] literalValidators_def Let_def)
qed

end
