(* ===== verification/Service_Map.thy ===== *)
theory Service_Map
  imports Path_Prefixes
begin

text \<open>
  The service map of \<open>service_map.go\<close>: the services by name, the table of path bindings
  per host that requests are routed by, and the default TLS host name. A Go map is an
  association list whose order stands for the (arbitrary) iteration order; a binding holds
  the name of the service it points to, which is the key the service is stored under.
\<close>

section \<open>Data\<close>

record service =
  sv_name :: string
  sv_options :: serviceOptions

record pathBinding =
  pb_prefix :: string
  pb_service :: string

type_synonym requestServiceMap = "string \<rightharpoonup> pathBinding list"

record 'm serviceMap =
  sm_services :: "(string \<times> 'm service_scheme) list"
  sm_bindings :: requestServiceMap
  sm_defaultTLSHostname :: string

definition newServiceMap :: "'m serviceMap" where
  "newServiceMap = \<lparr>sm_services = [], sm_bindings = Map.empty, sm_defaultTLSHostname = []\<rparr>"

definition smGet :: "'m serviceMap \<Rightarrow> string \<Rightarrow> 'm service_scheme option" where
  "smGet m n = map_of (sm_services m) n"

definition servesRootPath :: "'m service_scheme \<Rightarrow> bool" where
  "servesRootPath s \<longleftrightarrow> rootPath \<in> set (so_pathPrefixes (sv_options s))"

text \<open>Indexing a Go map yields the nil slice for a missing key.\<close>

definition bindingsAt :: "requestServiceMap \<Rightarrow> string \<Rightarrow> pathBinding list" where
  "bindingsAt rm h = (case rm h of None \<Rightarrow> [] | Some bs \<Rightarrow> bs)"

section \<open>Routing\<close>

definition wildcardHost :: "string \<Rightarrow> string option" where
  "wildcardHost host = (case indexOf host ''.'' of
       None \<Rightarrow> None
     | Some sep \<Rightarrow> if 0 < sep then Some (''*'' @ drop sep host) else None)"

definition bindingsForHost :: "requestServiceMap \<Rightarrow> string \<Rightarrow> pathBinding list option" where
  "bindingsForHost rm host = (case rm host of
       Some bs \<Rightarrow> Some bs
     | None \<Rightarrow>
         (case Option.bind (wildcardHost host) rm of
            Some bs \<Rightarrow> Some bs
          | None \<Rightarrow> rm []))"

definition serviceFor :: "requestServiceMap \<Rightarrow> string \<Rightarrow> string \<Rightarrow> (string \<times> string) option" where
  "serviceFor rm host path = (case bindingsForHost rm host of
       None \<Rightarrow> None
     | Some bs \<Rightarrow>
         map_option (\<lambda>b. (pb_service b, pb_prefix b))
           (find (\<lambda>b. pathMatchesPrefix path (pb_prefix b)) bs))"

definition serviceForHost :: "requestServiceMap \<Rightarrow> string \<Rightarrow> string option" where
  "serviceForHost rm host = map_option fst (serviceFor rm host rootPath)"

definition requestHost :: "request \<Rightarrow> string" where
  "requestHost r = (let host = req_host r in
     case indexOf host '':'' of
       None \<Rightarrow> host
     | Some i \<Rightarrow>
         if 0 < i then (case splitHostPort host of None \<Rightarrow> host | Some (h, _) \<Rightarrow> h) else host)"

definition serviceForRequest :: "'m serviceMap \<Rightarrow> request \<Rightarrow> (string \<times> string) option" where
  "serviceForRequest m r = serviceFor (sm_bindings m) (requestHost r) (req_path r)"

definition checkAvailability :: "'m serviceMap \<Rightarrow> string \<Rightarrow> serviceOptions \<Rightarrow> string option" where
  "checkAvailability m name opts =
     map_option pb_service
       (find (\<lambda>b. pb_service b \<noteq> name)
         (concat (map (\<lambda>h. concat (map (\<lambda>p.
              filter (\<lambda>b. p = pb_prefix b) (bindingsAt (sm_bindings m) h)) (so_pathPrefixes opts)))
            (so_hosts opts))))"

section \<open>Rebuilding the table\<close>

definition addBinding :: "string \<Rightarrow> string \<Rightarrow> string \<Rightarrow> requestServiceMap \<Rightarrow> requestServiceMap" where
  "addBinding n host p rm =
     rm(host \<mapsto> bindingsAt rm host @ [\<lparr>pb_prefix = p, pb_service = n\<rparr>])"

definition bindService :: "'m service_scheme \<Rightarrow> requestServiceMap \<Rightarrow> requestServiceMap" where
  "bindService s rm =
     fold (\<lambda>h rm. fold (\<lambda>p rm. addBinding (sv_name s) h p rm) (so_pathPrefixes (sv_options s)) rm)
       (so_hosts (sv_options s)) rm"

definition sortBindings :: "pathBinding list \<Rightarrow> pathBinding list" where
  "sortBindings bs = sort_key (\<lambda>b. - int (length (pb_prefix b))) bs"

definition buildBindings :: "(string \<times> 'm service_scheme) list \<Rightarrow> requestServiceMap" where
  "buildBindings svcs =
     (\<lambda>h. map_option sortBindings (fold (\<lambda>(_, s). bindService s) svcs Map.empty h))"

definition setTLS :: "bool \<Rightarrow> bool \<Rightarrow> 'm service_scheme \<Rightarrow> 'm service_scheme" where
  "setTLS enabled redirect s =
     s\<lparr>sv_options := (sv_options s)\<lparr>so_tlsEnabled := enabled, so_tlsRedirect := redirect\<rparr>\<rparr>"

text \<open>One round of \<open>syncTLSOptionsFromRootDomain\<close>: a service that does not serve the root
  path takes the TLS settings of the service that does for its first host, or the defaults
  of \<open>defaultServiceOptions\<close> (TLS off, redirect on). The services are shared, so each round
  sees what the rounds before it wrote.\<close>

definition firstHost :: "'m service_scheme \<Rightarrow> string" where
  "firstHost s = (case so_hosts (sv_options s) of [] \<Rightarrow> [] | h # _ \<Rightarrow> h)"

definition syncTLSOne ::
  "requestServiceMap \<Rightarrow> string \<Rightarrow> (string \<times> 'm service_scheme) list \<Rightarrow> (string \<times> 'm service_scheme) list" where
  "syncTLSOne rm n svcs = (case map_of svcs n of
       None \<Rightarrow> svcs
     | Some s \<Rightarrow>
         if servesRootPath s then svcs
         else (case Option.bind (serviceForHost rm (firstHost s)) (map_of svcs) of
                 Some rootSvc \<Rightarrow>
                   AList.update n (setTLS (so_tlsEnabled (sv_options rootSvc)) (so_tlsRedirect (sv_options rootSvc)) s) svcs
               | None \<Rightarrow>
                   AList.update n (setTLS (so_tlsEnabled defaultServiceOptions)
                     (so_tlsRedirect defaultServiceOptions) s) svcs))"

definition syncTLSOptionsFromRootDomain ::
  "requestServiceMap \<Rightarrow> (string \<times> 'm service_scheme) list \<Rightarrow> (string \<times> 'm service_scheme) list" where
  "syncTLSOptionsFromRootDomain rm svcs = fold (syncTLSOne rm) (map fst svcs) svcs"

definition updateRequestServiceMap :: "'m serviceMap \<Rightarrow> 'm serviceMap" where
  "updateRequestServiceMap m =
     (let rm = buildBindings (sm_services m)
      in m\<lparr>sm_bindings := rm, sm_services := syncTLSOptionsFromRootDomain rm (sm_services m)\<rparr>)"

definition tlsHostService :: "'m service_scheme \<Rightarrow> bool" where
  "tlsHostService s \<longleftrightarrow> so_tlsEnabled (sv_options s) \<and> so_hosts (sv_options s) \<noteq> []
     \<and> hd (so_hosts (sv_options s)) \<noteq> []"

definition updateDefaultTLSHostname :: "'m serviceMap \<Rightarrow> 'm serviceMap" where
  "updateDefaultTLSHostname m = (case find tlsHostService (map snd (sm_services m)) of
       None \<Rightarrow> m
     | Some s \<Rightarrow> m\<lparr>sm_defaultTLSHostname := hd (so_hosts (sv_options s))\<rparr>)"

definition smSet :: "'m serviceMap \<Rightarrow> 'm service_scheme \<Rightarrow> 'm serviceMap" where
  "smSet m s = updateDefaultTLSHostname (updateRequestServiceMap
     (m\<lparr>sm_services := AList.update (sv_name s) s (sm_services m)\<rparr>))"

definition smRemove :: "'m serviceMap \<Rightarrow> string \<Rightarrow> 'm serviceMap" where
  "smRemove m n = updateDefaultTLSHostname (updateRequestServiceMap
     (m\<lparr>sm_services := AList.delete n (sm_services m)\<rparr>))"

section \<open>What the table holds\<close>

definition serviceBinds :: "'m service_scheme \<Rightarrow> string \<Rightarrow> string \<Rightarrow> bool" where
  "serviceBinds s h p \<longleftrightarrow> h \<in> set (so_hosts (sv_options s)) \<and> p \<in> set (so_pathPrefixes (sv_options s))"

definition tidy :: "requestServiceMap \<Rightarrow> bool" where
  "tidy rm \<longleftrightarrow> (\<forall>h. rm h \<noteq> Some [])"

lemma addBinding_at:
  "bindingsAt (addBinding n h p rm) k =
     bindingsAt rm k @ (if k = h then [\<lparr>pb_prefix = p, pb_service = n\<rparr>] else [])"
  by (simp add: addBinding_def bindingsAt_def)

lemma tidy_addBinding: "tidy rm \<Longrightarrow> tidy (addBinding n h p rm)"
  by (simp add: tidy_def addBinding_def)

lemma addPrefixes_at:
  "set (bindingsAt (fold (\<lambda>p rm. addBinding n h p rm) ps rm) k) =
     set (bindingsAt rm k) \<union> (if k = h then (\<lambda>p. \<lparr>pb_prefix = p, pb_service = n\<rparr>) ` set ps else {})"
  by (induction ps arbitrary: rm) (auto simp: addBinding_at)

lemma tidy_addPrefixes: "tidy rm \<Longrightarrow> tidy (fold (\<lambda>p rm. addBinding n h p rm) ps rm)"
  by (induction ps arbitrary: rm) (auto simp: tidy_addBinding)

lemma addHosts_at:
  "set (bindingsAt (fold (\<lambda>h rm. fold (\<lambda>p rm. addBinding n h p rm) ps rm) hs rm) k) =
     set (bindingsAt rm k) \<union> (if k \<in> set hs then (\<lambda>p. \<lparr>pb_prefix = p, pb_service = n\<rparr>) ` set ps else {})"
  by (induction hs arbitrary: rm) (auto simp: addPrefixes_at)

lemma tidy_addHosts:
  "tidy rm \<Longrightarrow> tidy (fold (\<lambda>h rm. fold (\<lambda>p rm. addBinding n h p rm) ps rm) hs rm)"
  by (induction hs arbitrary: rm) (auto simp: tidy_addPrefixes)

lemma bindService_at:
  "b \<in> set (bindingsAt (bindService s rm) k) \<longleftrightarrow>
     b \<in> set (bindingsAt rm k) \<or> serviceBinds s k (pb_prefix b) \<and> pb_service b = sv_name s"
proof -
  have "b \<in> (\<lambda>p. \<lparr>pb_prefix = p, pb_service = n\<rparr>) ` A \<longleftrightarrow> pb_prefix b \<in> A \<and> pb_service b = n" for n A
    by (cases b) auto
  then show ?thesis
    unfolding bindService_def addHosts_at by (auto simp: serviceBinds_def)
qed

lemma fold_bindService_at:
  "b \<in> set (bindingsAt (fold (\<lambda>(_, s). bindService s) svcs rm) k) \<longleftrightarrow>
     b \<in> set (bindingsAt rm k) \<or>
     (\<exists>s \<in> snd ` set svcs. serviceBinds s k (pb_prefix b) \<and> pb_service b = sv_name s)"
  by (induction svcs arbitrary: rm) (auto simp: bindService_at)

lemma tidy_fold_bindService: "tidy rm \<Longrightarrow> tidy (fold (\<lambda>(_, s). bindService s) svcs rm)"
  by (induction svcs arbitrary: rm) (auto simp: bindService_def tidy_addHosts)

text \<open>The table holds exactly the bindings the services ask for.\<close>

lemma buildBindings_at:
  "b \<in> set (bindingsAt (buildBindings svcs) k) \<longleftrightarrow>
     (\<exists>s \<in> snd ` set svcs. serviceBinds s k (pb_prefix b) \<and> pb_service b = sv_name s)"
proof -
  have "set (bindingsAt (buildBindings svcs) k)
      = set (bindingsAt (fold (\<lambda>(_, s). bindService s) svcs Map.empty) k)"
    by (simp add: buildBindings_def sortBindings_def bindingsAt_def split: option.splits)
  then show ?thesis by (simp add: fold_bindService_at bindingsAt_def[of Map.empty])
qed

lemma buildBindings_Some:
  "buildBindings svcs k \<noteq> None \<longleftrightarrow> (\<exists>s \<in> snd ` set svcs. \<exists>p. serviceBinds s k p)"
proof -
  have "tidy (fold (\<lambda>(_, s). bindService s) svcs Map.empty)"
    by (rule tidy_fold_bindService) (simp add: tidy_def)
  then have "buildBindings svcs k \<noteq> None \<longleftrightarrow> bindingsAt (buildBindings svcs) k \<noteq> []"
    by (auto simp: buildBindings_def tidy_def sortBindings_def bindingsAt_def split: option.splits)
       (metis length_0_conv length_sort)
  also have "\<dots> \<longleftrightarrow> (\<exists>b. b \<in> set (bindingsAt (buildBindings svcs) k))"
    by (simp add: ex_in_conv)
  also have "\<dots> \<longleftrightarrow> (\<exists>s \<in> snd ` set svcs. \<exists>p. serviceBinds s k p)"
    unfolding buildBindings_at by (metis pathBinding.select_convs(1) pathBinding.select_convs(2))
  finally show ?thesis .
qed

section \<open>Invariant\<close>

definition wellKeyed :: "(string \<times> 'm service_scheme) list \<Rightarrow> bool" where
  "wellKeyed svcs \<longleftrightarrow> distinct (map fst svcs) \<and> (\<forall>(n, s) \<in> set svcs. n = sv_name s)"

definition canonicalService :: "'m service_scheme \<Rightarrow> bool" where
  "canonicalService s \<longleftrightarrow> (\<forall>p \<in> set (so_pathPrefixes (sv_options s)). canonicalPrefix p)"

text \<open>No two services ask for the same host and path prefix.\<close>

definition exclusive :: "(string \<times> 'm service_scheme) list \<Rightarrow> bool" where
  "exclusive svcs \<longleftrightarrow>
     (\<forall>s \<in> snd ` set svcs. \<forall>t \<in> snd ` set svcs. \<forall>h p.
        serviceBinds s h p \<and> serviceBinds t h p \<longrightarrow> sv_name s = sv_name t)"

text \<open>A table that routes for a set of services: the bindings they ask for, no empty entry,
  every entry ordered longest prefix first.\<close>

definition tableFor :: "requestServiceMap \<Rightarrow> (string \<times> 'm service_scheme) list \<Rightarrow> bool" where
  "tableFor rm svcs \<longleftrightarrow>
     (\<forall>h b. b \<in> set (bindingsAt rm h) \<longleftrightarrow>
        (\<exists>s \<in> snd ` set svcs. serviceBinds s h (pb_prefix b) \<and> pb_service b = sv_name s))
     \<and> (\<forall>h. rm h \<noteq> None \<longleftrightarrow> (\<exists>s \<in> snd ` set svcs. \<exists>p. serviceBinds s h p))
     \<and> (\<forall>h. \<exists>xs. bindingsAt rm h = sortBindings xs)"

definition smInv :: "'m serviceMap \<Rightarrow> bool" where
  "smInv m \<longleftrightarrow> wellKeyed (sm_services m)
     \<and> (\<forall>s \<in> snd ` set (sm_services m). canonicalService s)
     \<and> exclusive (sm_services m)
     \<and> tableFor (sm_bindings m) (sm_services m)"

lemma tableFor_buildBindings: "tableFor (buildBindings svcs) svcs"
proof -
  have "\<exists>xs. bindingsAt (buildBindings svcs) h = sortBindings xs" for h
    by (cases "fold (\<lambda>(_, s). bindService s) svcs Map.empty h")
       (auto simp: buildBindings_def bindingsAt_def sortBindings_def intro: exI[of _ "[]"])
  then show ?thesis
    unfolding tableFor_def buildBindings_at buildBindings_Some by blast
qed

interpretation pb: prefix_order sortBindings pb_prefix
proof unfold_locales
  fix bs :: "pathBinding list"
  show "set (sortBindings bs) = set bs" by (simp add: sortBindings_def)
  have "sorted_wrt (\<lambda>a b. - int (length (pb_prefix a)) \<le> - int (length (pb_prefix b))) (sortBindings bs)"
    unfolding sortBindings_def by (rule sorted_map_sorted_wrt_le) (rule sorted_sort_key)
  then show "sorted_wrt (\<lambda>a b. length (pb_prefix b) \<le> length (pb_prefix a)) (sortBindings bs)"
    by (rule sorted_wrt_mono_rel[rotated]) auto
qed

subsection \<open>What a service asks for does not depend on its TLS settings\<close>

definition routingOf :: "'m service_scheme \<Rightarrow> string \<times> string list \<times> string list" where
  "routingOf s = (sv_name s, so_hosts (sv_options s), so_pathPrefixes (sv_options s))"

definition routings :: "(string \<times> 'm service_scheme) list \<Rightarrow> (string \<times> string \<times> string list \<times> string list) list" where
  "routings svcs = map (map_prod id routingOf) svcs"

lemma routingOf_setTLS [simp]: "routingOf (setTLS a b s) = routingOf s"
  by (simp add: routingOf_def setTLS_def)

lemma routings_update:
  "map_of svcs n = Some s \<Longrightarrow> routingOf t = routingOf s \<Longrightarrow>
     routings (AList.update n t svcs) = routings svcs"
  by (induction svcs) (auto simp: routings_def)

lemma routings_syncTLSOne: "routings (syncTLSOne rm n svcs) = routings svcs"
  by (auto simp: syncTLSOne_def routings_update split: option.splits)

lemma routings_sync: "routings (syncTLSOptionsFromRootDomain rm svcs) = routings svcs"
proof -
  have "routings (fold (syncTLSOne rm) ns svcs) = routings svcs" for ns
    by (induction ns arbitrary: svcs) (simp_all add: routings_syncTLSOne)
  then show ?thesis by (simp add: syncTLSOptionsFromRootDomain_def)
qed

lemma serviceBinds_routing:
  "serviceBinds s h p \<longleftrightarrow> h \<in> set (fst (snd (routingOf s))) \<and> p \<in> set (snd (snd (routingOf s)))"
  by (simp add: serviceBinds_def routingOf_def)

lemma routings_snd: "routingOf ` snd ` set xs = snd ` set (routings xs)"
  by (force simp: routings_def)

lemma routings_values: "routings svcs = routings svcs' \<Longrightarrow> routingOf ` snd ` set svcs = routingOf ` snd ` set svcs'"
  by (simp add: routings_snd)

lemma routings_ex:
  assumes "routings svcs = routings svcs'"
  shows "(\<exists>s \<in> snd ` set svcs. P (routingOf s)) \<longleftrightarrow> (\<exists>s \<in> snd ` set svcs'. P (routingOf s))"
  using routings_values[OF assms] by (metis (mono_tags, lifting) imageE imageI)

lemma tableFor_routings:
  assumes "routings svcs = routings svcs'"
  shows "tableFor rm svcs = tableFor rm svcs'"
proof -
  have "(\<exists>s \<in> snd ` set svcs. serviceBinds s h p \<and> n = sv_name s) \<longleftrightarrow>
        (\<exists>s \<in> snd ` set svcs'. serviceBinds s h p \<and> n = sv_name s)" for h p n
    using routings_ex[OF assms, of "\<lambda>(m, hs, ps). h \<in> set hs \<and> p \<in> set ps \<and> n = m"]
    by (simp add: serviceBinds_def routingOf_def)
  moreover have "(\<exists>s \<in> snd ` set svcs. \<exists>p. serviceBinds s h p) \<longleftrightarrow>
        (\<exists>s \<in> snd ` set svcs'. \<exists>p. serviceBinds s h p)" for h
    using routings_ex[OF assms, of "\<lambda>(m, hs, ps). h \<in> set hs \<and> (\<exists>p. p \<in> set ps)"]
    by (simp add: serviceBinds_def routingOf_def)
  ultimately show ?thesis by (simp add: tableFor_def)
qed

lemma canonical_routings:
  assumes "routings svcs = routings svcs'"
  shows "(\<forall>s \<in> snd ` set svcs. canonicalService s) \<longleftrightarrow> (\<forall>s \<in> snd ` set svcs'. canonicalService s)"
  using routings_ex[OF assms, of "\<lambda>(m, hs, ps). \<exists>p \<in> set ps. \<not> canonicalPrefix p"]
  by (simp add: canonicalService_def routingOf_def) blast

lemma exclusive_routings:
  fixes svcs svcs' :: "(string \<times> 'a service_scheme) list"
  assumes "routings svcs = routings svcs'"
  shows "exclusive svcs = exclusive svcs'"
proof -
  have "exclusive xs \<longleftrightarrow> (\<forall>r \<in> routingOf ` snd ` set xs. \<forall>q \<in> routingOf ` snd ` set xs.
      set (fst (snd r)) \<inter> set (fst (snd q)) \<noteq> {} \<and> set (snd (snd r)) \<inter> set (snd (snd q)) \<noteq> {} \<longrightarrow> fst r = fst q)"
    for xs :: "(string \<times> 'a service_scheme) list"
    by (auto simp: exclusive_def serviceBinds_def routingOf_def)
  note * = this
  show ?thesis by (simp only: * routings_values[OF assms])
qed

lemma wellKeyed_routings:
  fixes svcs svcs' :: "(string \<times> 'a service_scheme) list"
  assumes "routings svcs = routings svcs'"
  shows "wellKeyed svcs = wellKeyed svcs'"
proof -
  have "wellKeyed xs \<longleftrightarrow> distinct (map fst (routings xs)) \<and> (\<forall>(n, r) \<in> set (routings xs). n = fst r)"
    for xs :: "(string \<times> 'a service_scheme) list"
    by (auto simp: wellKeyed_def routings_def routingOf_def comp_def)
  then show ?thesis using assms by simp
qed

lemmas routings_invariant = tableFor_routings canonical_routings exclusive_routings wellKeyed_routings

section \<open>Routing through a table\<close>

lemma tableFor_mem:
  "tableFor rm svcs \<Longrightarrow> b \<in> set (bindingsAt rm h) \<longleftrightarrow>
     (\<exists>s \<in> snd ` set svcs. serviceBinds s h (pb_prefix b) \<and> pb_service b = sv_name s)"
  unfolding tableFor_def by blast

lemma tableFor_key:
  "tableFor rm svcs \<Longrightarrow> rm h \<noteq> None \<longleftrightarrow> (\<exists>s \<in> snd ` set svcs. \<exists>p. serviceBinds s h p)"
  unfolding tableFor_def by blast

lemma tableFor_sorted: "tableFor rm svcs \<Longrightarrow> \<exists>xs. bindingsAt rm h = sortBindings xs"
  unfolding tableFor_def by blast

lemma bindingsAt_Some: "rm h = Some bs \<Longrightarrow> bindingsAt rm h = bs"
  by (simp add: bindingsAt_def)

text \<open>The host key a request's host is routed under.\<close>

definition hostKey :: "requestServiceMap \<Rightarrow> string \<Rightarrow> string" where
  "hostKey rm host =
     (if rm host \<noteq> None then host
      else case wildcardHost host of
             Some w \<Rightarrow> if rm w \<noteq> None then w else []
           | None \<Rightarrow> [])"

lemma bindingsForHost_hostKey: "bindingsForHost rm host = rm (hostKey rm host)"
  by (auto simp: bindingsForHost_def hostKey_def split: option.splits)

lemma serviceFor_find:
  "serviceFor rm host path =
     map_option (\<lambda>b. (pb_service b, pb_prefix b))
       (find (\<lambda>b. pathMatchesPrefix path (pb_prefix b)) (bindingsAt rm (hostKey rm host)))"
  by (simp add: serviceFor_def bindingsForHost_hostKey bindingsAt_def split: option.splits)

lemma serviceFor_sound:
  assumes "tableFor rm svcs" and "serviceFor rm host path = Some (n, p)"
  shows "\<exists>s \<in> snd ` set svcs. sv_name s = n \<and> serviceBinds s (hostKey rm host) p \<and> pathMatchesPrefix path p"
proof -
  from assms(2) obtain b where b: "find (\<lambda>b. pathMatchesPrefix path (pb_prefix b)) (bindingsAt rm (hostKey rm host)) = Some b"
    and eq: "pb_service b = n" "pb_prefix b = p"
    by (auto simp: serviceFor_find)
  from find_in_set[OF b] have "b \<in> set (bindingsAt rm (hostKey rm host))" and "pathMatchesPrefix path p"
    using eq by auto
  then show ?thesis using eq unfolding tableFor_mem[OF assms(1)] by metis
qed

lemma serviceFor_specific:
  assumes tab: "tableFor rm svcs" and canon: "\<forall>s \<in> snd ` set svcs. canonicalService s"
    and found: "serviceFor rm host path = Some (n, p)"
    and other: "t \<in> snd ` set svcs" "serviceBinds t (hostKey rm host) q" "pathMatchesPrefix path q"
  shows "pathMatchesPrefix p q"
proof -
  let ?k = "hostKey rm host"
  obtain xs where xs: "bindingsAt rm ?k = sortBindings xs" using tableFor_sorted[OF tab] by blast
  obtain b where b: "find (\<lambda>b. pathMatchesPrefix path (pb_prefix b)) (sortBindings xs) = Some b"
    and p: "pb_prefix b = p"
    using found xs by (auto simp: serviceFor_find)
  have mem: "x \<in> set xs \<longleftrightarrow> (\<exists>s \<in> snd ` set svcs. serviceBinds s ?k (pb_prefix x) \<and> pb_service x = sv_name s)" for x
    using tableFor_mem[OF tab, of x ?k] xs pb.arrange_set[of xs] by simp
  have "\<lparr>pb_prefix = q, pb_service = sv_name t\<rparr> \<in> set xs"
    unfolding mem using other by auto
  moreover have "canonicalPrefix (pb_prefix x)" if "x \<in> set xs" for x
    using that canon unfolding mem by (auto simp: canonicalService_def serviceBinds_def)
  ultimately have "pathMatchesPrefix (pb_prefix b) q"
    using pb.first_match_most_specific[OF _ b] other(3) by fastforce
  then show ?thesis using p by simp
qed

lemma serviceFor_complete:
  assumes tab: "tableFor rm svcs"
    and s: "s \<in> snd ` set svcs" "serviceBinds s (hostKey rm host) q" "pathMatchesPrefix path q"
  shows "serviceFor rm host path \<noteq> None"
proof -
  have "\<lparr>pb_prefix = q, pb_service = sv_name s\<rparr> \<in> set (bindingsAt rm (hostKey rm host))"
    using s(1,2) unfolding tableFor_mem[OF tab] by auto
  then have "find (\<lambda>b. pathMatchesPrefix path (pb_prefix b)) (bindingsAt rm (hostKey rm host)) \<noteq> None"
    using s(3) unfolding find_None_iff by force
  then show ?thesis by (simp add: serviceFor_find)
qed

lemma canonical_root_match:
  assumes "canonicalPrefix p" and "pathMatchesPrefix rootPath p"
  shows "p = rootPath"
proof (rule ccontr)
  assume "p \<noteq> rootPath"
  with assms(1) have "length (ensureTrailingSlash p) = Suc (length p)" and "p \<noteq> []"
    by (auto simp: canonicalPrefix_def ensureTrailingSlash_def hasPrefix_iff)
  moreover have "ensureTrailingSlash rootPath = ''/''"
    by (simp add: ensureTrailingSlash_def rootPath_def hasSuffix_def)
  then have "length (ensureTrailingSlash p) \<le> 1"
    using assms(2) by (auto simp: pathMatchesPrefix_def hasPrefix_iff dest: arg_cong[where f = length])
  ultimately show False by (cases p) auto
qed

lemma serviceForHost_root:
  assumes "tableFor rm svcs" and "\<forall>s \<in> snd ` set svcs. canonicalService s" and "wellKeyed svcs"
    and "serviceForHost rm host = Some n"
  shows "\<exists>s. map_of svcs n = Some s \<and> servesRootPath s"
proof -
  obtain p where "serviceFor rm host rootPath = Some (n, p)"
    using assms(4) by (auto simp: serviceForHost_def)
  from serviceFor_sound[OF assms(1) this] obtain s k where ks: "(k, s) \<in> set svcs"
    and s: "sv_name s = n" "serviceBinds s (hostKey rm host) p" "pathMatchesPrefix rootPath p"
    by force
  have "canonicalPrefix p" using assms(2) s(2) ks by (force simp: canonicalService_def serviceBinds_def)
  then have "p = rootPath" using s(3) by (rule canonical_root_match)
  moreover have "k = n" using assms(3) ks s(1) by (auto simp: wellKeyed_def)
  ultimately show ?thesis
    using ks s assms(3) by (auto simp: servesRootPath_def serviceBinds_def wellKeyed_def)
qed

section \<open>TLS settings follow the root service\<close>

text \<open>What the synchronisation writes to one service, read off the services as they were.\<close>

definition syncedService :: "requestServiceMap \<Rightarrow> (string \<times> 'm service_scheme) list \<Rightarrow> 'm service_scheme \<Rightarrow> 'm service_scheme" where
  "syncedService rm svcs s =
     (if servesRootPath s then s
      else case Option.bind (serviceForHost rm (firstHost s)) (map_of svcs) of
             Some r \<Rightarrow> setTLS (so_tlsEnabled (sv_options r)) (so_tlsRedirect (sv_options r)) s
           | None \<Rightarrow> setTLS (so_tlsEnabled defaultServiceOptions) (so_tlsRedirect defaultServiceOptions) s)"

lemma syncTLSOne_map_of:
  "map_of (syncTLSOne rm n svcs) k =
     (if k = n then map_option (syncedService rm svcs) (map_of svcs n) else map_of svcs k)"
  by (auto simp: syncTLSOne_def syncedService_def update_conv split: option.splits)

lemma sync_fold:
  assumes "distinct ns"
    and roots: "\<And>h n. serviceForHost rm h = Some n \<Longrightarrow> \<exists>s. map_of svcs n = Some s \<and> servesRootPath s"
  shows "map_of (fold (syncTLSOne rm) ns svcs) k =
     (if k \<in> set ns then map_option (syncedService rm svcs) (map_of svcs k) else map_of svcs k)"
  using assms(1)
proof (induction ns arbitrary: k rule: rev_induct)
  case (snoc n ns)
  let ?cur = "fold (syncTLSOne rm) ns svcs"
  have IH: "map_of ?cur k = (if k \<in> set ns then map_option (syncedService rm svcs) (map_of svcs k) else map_of svcs k)" for k
    using snoc by simp
  have root_same: "map_of ?cur r = map_of svcs r" if "serviceForHost rm h = Some r" for h r
    using roots[OF that] by (auto simp: IH syncedService_def)
  have "syncedService rm ?cur s = syncedService rm svcs s" for s
  proof (cases "serviceForHost rm (firstHost s)")
    case (Some r)
    then show ?thesis using root_same[OF Some] by (simp add: syncedService_def)
  qed (simp add: syncedService_def)
  then have "syncedService rm ?cur = syncedService rm svcs" by blast
  then show ?case using snoc.prems by (auto simp: syncTLSOne_map_of IH)
qed simp

text \<open>Every round reads root services only, and no round writes to one, so the outcome does not
  depend on the order the map is walked in.\<close>

lemma sync_map_of:
  assumes "tableFor rm svcs" and "\<forall>s \<in> snd ` set svcs. canonicalService s" and "wellKeyed svcs"
  shows "map_of (syncTLSOptionsFromRootDomain rm svcs) n = map_option (syncedService rm svcs) (map_of svcs n)"
proof -
  have "distinct (map fst svcs)" using assms(3) by (simp add: wellKeyed_def)
  from sync_fold[OF this serviceForHost_root[OF assms]]
  have "map_of (syncTLSOptionsFromRootDomain rm svcs) n =
    (if n \<in> set (map fst svcs) then map_option (syncedService rm svcs) (map_of svcs n) else map_of svcs n)"
    by (simp add: syncTLSOptionsFromRootDomain_def)
  moreover have "map_of svcs n = None" if "n \<notin> set (map fst svcs)"
    using that by (simp add: map_of_eq_None_iff)
  ultimately show ?thesis by (auto split: if_splits)
qed

section \<open>Every operation keeps the invariant\<close>

lemma smInv_newServiceMap: "smInv newServiceMap"
  by (simp add: smInv_def newServiceMap_def wellKeyed_def exclusive_def tableFor_def bindingsAt_def)
     (rule exI[of _ "[]"], simp add: sortBindings_def)

lemma smInv_rebuild:
  assumes "wellKeyed svcs" and "\<forall>s \<in> snd ` set svcs. canonicalService s" and "exclusive svcs"
  shows "smInv (updateDefaultTLSHostname (updateRequestServiceMap (m\<lparr>sm_services := svcs\<rparr>)))"
proof -
  let ?rm = "buildBindings svcs"
  let ?new = "syncTLSOptionsFromRootDomain ?rm svcs"
  have same: "routings ?new = routings svcs" by (rule routings_sync)
  have "tableFor ?rm ?new"
    using tableFor_buildBindings[of svcs] by (simp only: tableFor_routings[OF same])
  moreover have "wellKeyed ?new \<and> exclusive ?new \<and> (\<forall>s \<in> snd ` set ?new. canonicalService s)"
    using assms by (simp only: wellKeyed_routings[OF same] exclusive_routings[OF same] canonical_routings[OF same])
  ultimately show ?thesis
    by (simp add: smInv_def updateDefaultTLSHostname_def updateRequestServiceMap_def Let_def split: option.splits)
qed

lemma checkAvailability_None:
  assumes "checkAvailability m n opts = None"
    and "h \<in> set (so_hosts opts)" and "p \<in> set (so_pathPrefixes opts)"
    and "b \<in> set (bindingsAt (sm_bindings m) h)" and "pb_prefix b = p"
  shows "pb_service b = n"
  using assms by (auto simp: checkAvailability_def find_None_iff)

lemma smInv_smSet:
  assumes inv: "smInv m" and canon: "canonicalService s"
    and free: "checkAvailability m (sv_name s) (sv_options s) = None"
  shows "smInv (smSet m s)"
proof -
  let ?new = "AList.update (sv_name s) s (sm_services m)"
  have vals: "t = s \<or> t \<in> snd ` set (sm_services m) \<and> (sv_name t, t) \<in> set (sm_services m)"
    if "t \<in> snd ` set ?new" for t
  proof -
    from that obtain k where "(k, t) \<in> set ?new" by force
    then have "(k, t) = (sv_name s, s) \<or> (k, t) \<in> set (sm_services m)" by (rule set_AList_update)
    moreover have "k = sv_name t" if "(k, t) \<in> set (sm_services m)"
      using that inv by (auto simp: smInv_def wellKeyed_def)
    ultimately show ?thesis by force
  qed
  have conflict: "sv_name t = sv_name s"
    if "t \<in> snd ` set (sm_services m)" "serviceBinds t h p" "serviceBinds s h p" for t h p
  proof -
    have "\<lparr>pb_prefix = p, pb_service = sv_name t\<rparr> \<in> set (bindingsAt (sm_bindings m) h)"
      using that(1,2) inv tableFor_mem[of "sm_bindings m" "sm_services m"] by (auto simp: smInv_def)
    moreover have "h \<in> set (so_hosts (sv_options s))" and "p \<in> set (so_pathPrefixes (sv_options s))"
      using that(3) by (simp_all add: serviceBinds_def)
    ultimately show ?thesis
      using checkAvailability_None[OF free, of h p "\<lparr>pb_prefix = p, pb_service = sv_name t\<rparr>"] by simp
  qed
  show ?thesis unfolding smSet_def
  proof (rule smInv_rebuild)
    show "wellKeyed ?new"
      using inv unfolding smInv_def wellKeyed_def
      by (auto simp: distinct_update dest!: set_AList_update)
    show "\<forall>t \<in> snd ` set ?new. canonicalService t"
      using inv vals canon unfolding smInv_def by blast
    show "exclusive ?new"
      using inv vals conflict unfolding smInv_def exclusive_def by metis
  qed
qed

lemma smInv_smRemove:
  assumes "smInv m"
  shows "smInv (smRemove m n)"
proof -
  let ?new = "AList.delete n (sm_services m)"
  have sub: "set ?new \<subseteq> set (sm_services m)" by (auto simp: set_AList_delete)
  show ?thesis unfolding smRemove_def
  proof (rule smInv_rebuild)
    show "wellKeyed ?new"
      using assms sub unfolding smInv_def wellKeyed_def by (auto simp: distinct_delete)
    show "\<forall>t \<in> snd ` set ?new. canonicalService t"
      using assms sub unfolding smInv_def by blast
    show "exclusive ?new"
      using assms sub unfolding smInv_def exclusive_def by blast
  qed
qed

section \<open>Properties\<close>

lemmas smInv_parts = smInv_def wellKeyed_def

text \<open>C1: A routed request reaches a registered service that asked for the matched host key and
  prefix, the prefix matches the request path on whole segments, and every other prefix bound
  under the same host key that matches the path is a prefix of the chosen one: the router
  always takes the most specific binding.\<close>

theorem serviceForRequest_most_specific:
  assumes "smInv m" and "serviceForRequest m r = Some (n, p)"
  shows "\<exists>s. smGet m n = Some s \<and> serviceBinds s (hostKey (sm_bindings m) (requestHost r)) p
      \<and> pathMatchesPrefix (req_path r) p
      \<and> (\<forall>t q. t \<in> snd ` set (sm_services m)
             \<and> serviceBinds t (hostKey (sm_bindings m) (requestHost r)) q
             \<and> pathMatchesPrefix (req_path r) q \<longrightarrow> pathMatchesPrefix p q)"
proof -
  have parts: "tableFor (sm_bindings m) (sm_services m)" "wellKeyed (sm_services m)"
    "\<forall>s \<in> snd ` set (sm_services m). canonicalService s"
    using assms(1) by (simp_all add: smInv_def)
  have found: "serviceFor (sm_bindings m) (requestHost r) (req_path r) = Some (n, p)"
    using assms(2) by (simp add: serviceForRequest_def)
  obtain s k where s: "(k, s) \<in> set (sm_services m)" "sv_name s = n"
    "serviceBinds s (hostKey (sm_bindings m) (requestHost r)) p" "pathMatchesPrefix (req_path r) p"
    using serviceFor_sound[OF parts(1) found] by force
  then have "smGet m n = Some s"
    using parts(2) by (auto simp: smGet_def wellKeyed_def)
  then show ?thesis
    using s serviceFor_specific[OF parts(1,3) found] by blast
qed

definition exampleServices :: "unit serviceMap" where
  "exampleServices =
     smSet (smSet newServiceMap
       \<lparr>sv_name = ''web'', sv_options = defaultServiceOptions\<lparr>so_hosts := [''a.io''], so_pathPrefixes := [''/'']\<rparr>\<rparr>)
       \<lparr>sv_name = ''api'', sv_options = defaultServiceOptions\<lparr>so_hosts := [''a.io''], so_pathPrefixes := [''/api'']\<rparr>\<rparr>"

definition exampleRequest :: request where
  "exampleRequest = emptyRequest\<lparr>req_host := ''a.io:80'', req_path := ''/api/users''\<rparr>"

lemma exampleServices_free:
  "checkAvailability (smSet newServiceMap \<lparr>sv_name = ''web'', sv_options = defaultServiceOptions\<lparr>so_hosts := [''a.io''], so_pathPrefixes := [''/'']\<rparr>\<rparr> :: unit serviceMap) ''api''
     (defaultServiceOptions\<lparr>so_hosts := [''a.io''], so_pathPrefixes := [''/api'']\<rparr>) = None"
  by code_simp

lemma exampleServices_inv: "smInv exampleServices"
  unfolding exampleServices_def
proof (intro smInv_smSet smInv_newServiceMap)
  show "canonicalService (\<lparr>sv_name = ''web'', sv_options = defaultServiceOptions\<lparr>so_hosts := [''a.io''], so_pathPrefixes := [''/'']\<rparr>\<rparr> :: service)"
    by (simp add: canonicalService_def canonicalPrefix_def rootPath_def)
  show "canonicalService (\<lparr>sv_name = ''api'', sv_options = defaultServiceOptions\<lparr>so_hosts := [''a.io''], so_pathPrefixes := [''/api'']\<rparr>\<rparr> :: service)"
    by (simp add: canonicalService_def canonicalPrefix_def hasPrefix_def hasSuffix_def)
qed (simp_all add: exampleServices_free, simp add: checkAvailability_def newServiceMap_def bindingsAt_def)

lemma exampleServices_routes: "serviceForRequest exampleServices exampleRequest = Some (''api'', ''/api'')"
  by code_simp

theorem serviceForRequest_most_specific_witness:
  "\<exists>s. smGet exampleServices ''api'' = Some s
      \<and> serviceBinds s (hostKey (sm_bindings exampleServices) (requestHost exampleRequest)) ''/api''"
  using serviceForRequest_most_specific[OF exampleServices_inv exampleServices_routes] by blast

text \<open>Host conflicts: when \<open>CheckAvailability\<close> reports no conflict for a service with
  normalised prefixes, installing it keeps the map's invariant, in particular that no two
  services of different names bind the same host and path prefix; and when it reports one, the
  named service does bind a host and prefix the new one asks for.\<close>

theorem smSet_checked:
  assumes "smInv m" and "canonicalService s"
  shows "case checkAvailability m (sv_name s) (sv_options s) of
      None \<Rightarrow> smInv (smSet m s)
    | Some n \<Rightarrow> n \<noteq> sv_name s \<and> (\<exists>t h p. smGet m n = Some t \<and> serviceBinds t h p \<and> serviceBinds s h p)"
proof (cases "checkAvailability m (sv_name s) (sv_options s)")
  case None
  with assms show ?thesis by (simp add: smInv_smSet)
next
  case (Some n)
  then obtain b h where b: "b \<in> set (bindingsAt (sm_bindings m) h)" "pb_service b = n" "n \<noteq> sv_name s"
    and h: "h \<in> set (so_hosts (sv_options s))" "pb_prefix b \<in> set (so_pathPrefixes (sv_options s))"
    by (auto simp: checkAvailability_def dest!: find_in_set)
  obtain t k where t: "(k, t) \<in> set (sm_services m)" "serviceBinds t h (pb_prefix b)" "sv_name t = n"
    using b(1,2) assms(1) tableFor_mem[of "sm_bindings m" "sm_services m" b h]
    by (auto simp: smInv_def)
  then have "smGet m n = Some t"
    using assms(1) by (auto simp: smInv_parts smGet_def)
  then show ?thesis using Some b(3) t(2) h by (auto simp: serviceBinds_def)
qed

theorem smSet_checked_witness:
  "smInv (smSet exampleServices
     (\<lparr>sv_name = ''b'', sv_options = defaultServiceOptions\<lparr>so_hosts := [''b.io''], so_pathPrefixes := [''/'']\<rparr>\<rparr> :: service))"
proof -
  let ?s = "\<lparr>sv_name = ''b'', sv_options = defaultServiceOptions\<lparr>so_hosts := [''b.io''], so_pathPrefixes := [''/'']\<rparr>\<rparr> :: service"
  have "canonicalService ?s"
    by (simp add: canonicalService_def canonicalPrefix_def rootPath_def)
  moreover have "checkAvailability exampleServices (sv_name ?s) (sv_options ?s) = None"
    by code_simp
  ultimately show ?thesis
    using smSet_checked[OF exampleServices_inv, of ?s] by simp
qed

lemma smGet_sync:
  assumes "smInv m'" and "m' = updateDefaultTLSHostname (updateRequestServiceMap (m\<lparr>sm_services := svcs\<rparr>))"
    and "wellKeyed svcs" and "\<forall>s \<in> snd ` set svcs. canonicalService s"
  shows "smGet m' n = map_option (syncedService (buildBindings svcs) svcs) (map_of svcs n)"
  using sync_map_of[OF tableFor_buildBindings assms(4,3), of n] assms(2)
  by (simp add: smGet_def updateDefaultTLSHostname_def updateRequestServiceMap_def Let_def split: option.splits)

lemma smRemove_bindings: "sm_bindings (smRemove m n) = buildBindings (AList.delete n (sm_services m))"
  by (simp add: smRemove_def updateDefaultTLSHostname_def updateRequestServiceMap_def Let_def split: option.splits)

lemma smSet_bindings: "sm_bindings (smSet m s) = buildBindings (AList.update (sv_name s) s (sm_services m))"
  by (simp add: smSet_def updateDefaultTLSHostname_def updateRequestServiceMap_def Let_def split: option.splits)

text \<open>Removing a service: the invariant is kept, the name is gone from the map, no request
  is routed to it any more, and every other service stays registered.\<close>

theorem smRemove_unroutes:
  assumes "smInv m"
  shows "smInv (smRemove m n) \<and> smGet (smRemove m n) n = None
    \<and> (\<forall>r p. serviceForRequest (smRemove m n) r \<noteq> Some (n, p))
    \<and> (\<forall>k. k \<noteq> n \<longrightarrow> (smGet (smRemove m n) k = None \<longleftrightarrow> smGet m k = None))"
proof -
  let ?svcs = "AList.delete n (sm_services m)"
  have inv: "smInv (smRemove m n)" using assms by (rule smInv_smRemove)
  have sub: "set ?svcs \<subseteq> set (sm_services m)" by (auto simp: set_AList_delete)
  have keyed: "wellKeyed ?svcs" and canon: "\<forall>s \<in> snd ` set ?svcs. canonicalService s"
    using assms sub by (auto simp: smInv_parts distinct_delete)
  have get: "smGet (smRemove m n) k = map_option (syncedService (buildBindings ?svcs) ?svcs) (map_of ?svcs k)" for k
    using smGet_sync[OF inv smRemove_def keyed canon] by simp
  have "serviceForRequest (smRemove m n) r \<noteq> Some (n, p)" for r p
  proof
    assume "serviceForRequest (smRemove m n) r = Some (n, p)"
    then have "serviceFor (buildBindings ?svcs) (requestHost r) (req_path r) = Some (n, p)"
      by (simp add: serviceForRequest_def smRemove_bindings)
    from serviceFor_sound[OF tableFor_buildBindings this]
    obtain s k where "(k, s) \<in> set ?svcs" "sv_name s = n" by force
    then show False using assms by (auto simp: set_AList_delete smInv_parts)
  qed
  then show ?thesis using inv get by (simp add: delete_conv smGet_def)
qed

theorem smRemove_unroutes_witness:
  "smInv (smRemove exampleServices ''api'')
   \<and> serviceForRequest (smRemove exampleServices ''api'') exampleRequest \<noteq> Some (''api'', ''/api'')
   \<and> serviceForRequest exampleServices exampleRequest = Some (''api'', ''/api'')"
  using smRemove_unroutes[OF exampleServices_inv, of "''api''"] exampleServices_routes by blast

text \<open>TLS settings follow the root service: after a service is installed, every service that
  does not serve the root path carries the TLS and redirect settings of the service that
  serves the root of its first host, or the defaults (TLS off, redirect on) when there is
  none, whatever order the services are visited in.\<close>

theorem smSet_syncs_tls:
  assumes "smInv m" and "canonicalService s" and "checkAvailability m (sv_name s) (sv_options s) = None"
    and "smGet (smSet m s) n = Some t" and "\<not> servesRootPath t"
  shows "case Option.bind (serviceForHost (sm_bindings (smSet m s)) (firstHost t)) (smGet (smSet m s)) of
      Some r \<Rightarrow> so_tlsEnabled (sv_options t) = so_tlsEnabled (sv_options r)
              \<and> so_tlsRedirect (sv_options t) = so_tlsRedirect (sv_options r)
    | None \<Rightarrow> \<not> so_tlsEnabled (sv_options t) \<and> so_tlsRedirect (sv_options t)"
proof -
  let ?svcs = "AList.update (sv_name s) s (sm_services m)"
  let ?rm = "buildBindings ?svcs"
  have inv: "smInv (smSet m s)" using assms(1-3) by (rule smInv_smSet)
  have keyed: "wellKeyed ?svcs"
    using assms(1) by (auto simp: smInv_parts distinct_update dest!: set_AList_update)
  have canon: "\<forall>s \<in> snd ` set ?svcs. canonicalService s"
    using assms(1,2) by (auto simp: smInv_def dest!: set_AList_update)
  have get: "smGet (smSet m s) k = map_option (syncedService ?rm ?svcs) (map_of ?svcs k)" for k
    using smGet_sync[OF inv smSet_def keyed canon] by simp
  obtain t0 where t0: "map_of ?svcs n = Some t0" and t: "t = syncedService ?rm ?svcs t0"
    using assms(4) get by auto
  have same: "servesRootPath (setTLS a b x) = servesRootPath x" "firstHost (setTLS a b x) = firstHost x" for a b and x :: "'a service_scheme"
    by (simp_all add: servesRootPath_def firstHost_def setTLS_def)
  have nr: "\<not> servesRootPath t0"
    using assms(5) t same by (auto simp: syncedService_def split: option.splits if_splits)
  then have fh: "firstHost t = firstHost t0"
    using t same by (auto simp: syncedService_def split: option.splits)
  have roots: "smGet (smSet m s) k = map_of ?svcs k" if "serviceForHost ?rm (firstHost t0) = Some k" for k
    using serviceForHost_root[OF tableFor_buildBindings canon keyed that]
    by (auto simp: get syncedService_def)
  show ?thesis
  proof (cases "serviceForHost ?rm (firstHost t0)")
    case None
    then show ?thesis using t nr fh
      by (simp add: smSet_bindings syncedService_def setTLS_def defaultServiceOptions_def zeroServiceOptions_def)
  next
    case (Some k)
    then obtain r where "map_of ?svcs k = Some r"
      using serviceForHost_root[OF tableFor_buildBindings canon keyed] by blast
    then show ?thesis using Some roots[OF Some] t nr fh
      by (simp add: smSet_bindings syncedService_def setTLS_def)
  qed
qed

theorem smSet_syncs_tls_witness:
  "\<exists>t. smGet exampleServices ''api'' = Some t \<and> \<not> so_tlsEnabled (sv_options t) \<and> so_tlsRedirect (sv_options t)"
proof -
  let ?m = "smSet newServiceMap \<lparr>sv_name = ''web'', sv_options = defaultServiceOptions\<lparr>so_hosts := [''a.io''], so_pathPrefixes := [''/'']\<rparr>\<rparr> :: unit serviceMap"
  let ?s = "\<lparr>sv_name = ''api'', sv_options = defaultServiceOptions\<lparr>so_hosts := [''a.io''], so_pathPrefixes := [''/api'']\<rparr>\<rparr> :: service"
  have inv: "smInv ?m"
    by (rule smInv_smSet[OF smInv_newServiceMap])
       (simp_all add: canonicalService_def canonicalPrefix_def rootPath_def checkAvailability_def newServiceMap_def bindingsAt_def)
  have canon: "canonicalService ?s"
    by (simp add: canonicalService_def canonicalPrefix_def hasPrefix_def hasSuffix_def)
  have free: "checkAvailability ?m (sv_name ?s) (sv_options ?s) = None"
    using exampleServices_free by simp
  have get: "smGet (smSet ?m ?s) ''api'' = Some ?s" by code_simp
  have host: "serviceForHost (sm_bindings (smSet ?m ?s)) (firstHost ?s) = Some ''web''" by code_simp
  have web: "smGet (smSet ?m ?s) ''web'' = Some \<lparr>sv_name = ''web'', sv_options = defaultServiceOptions\<lparr>so_hosts := [''a.io''], so_pathPrefixes := [''/'']\<rparr>\<rparr>"
    by code_simp
  have nr: "\<not> servesRootPath ?s" by (simp add: servesRootPath_def rootPath_def)
  show ?thesis
    using smSet_syncs_tls[OF inv canon free get nr] get
    by (simp add: host web exampleServices_def defaultServiceOptions_def zeroServiceOptions_def)
qed

text \<open>The default TLS host name is never cleared: removing the last service with TLS leaves
  the map answering handshakes without a server name under a host it no longer routes.\<close>

theorem defaultTLSHostname_survives_removal:
  assumes "\<forall>s \<in> snd ` set (sm_services (updateRequestServiceMap (m\<lparr>sm_services := AList.delete n (sm_services m)\<rparr>))).
      \<not> so_tlsEnabled (sv_options s)"
  shows "sm_defaultTLSHostname (smRemove m n) = sm_defaultTLSHostname m"
proof -
  let ?m = "updateRequestServiceMap (m\<lparr>sm_services := AList.delete n (sm_services m)\<rparr>)"
  have "find tlsHostService (map snd (sm_services ?m)) = None"
    using assms by (auto simp: find_None_iff tlsHostService_def)
  then show ?thesis
    by (simp add: smRemove_def updateDefaultTLSHostname_def updateRequestServiceMap_def Let_def)
qed

definition exampleTLS :: "unit serviceMap" where
  "exampleTLS = smSet newServiceMap \<lparr>sv_name = ''s'', sv_options =
     defaultServiceOptions\<lparr>so_hosts := [''t.io''], so_pathPrefixes := [''/''], so_tlsEnabled := True\<rparr>\<rparr>"

theorem defaultTLSHostname_survives_removal_witness:
  "sm_defaultTLSHostname (smRemove exampleTLS ''s'') = ''t.io''
   \<and> sm_services (smRemove exampleTLS ''s'') = []"
proof -
  have "sm_services (updateRequestServiceMap (exampleTLS\<lparr>sm_services := AList.delete ''s'' (sm_services exampleTLS)\<rparr>)) = []"
    by code_simp
  then have "sm_defaultTLSHostname (smRemove exampleTLS ''s'') = sm_defaultTLSHostname exampleTLS"
    by (intro defaultTLSHostname_survives_removal) simp
  moreover have "sm_defaultTLSHostname exampleTLS = ''t.io''" by code_simp
  moreover have "sm_services (smRemove exampleTLS ''s'') = []" by code_simp
  ultimately show ?thesis by simp
qed

end
