(* ===== verification/Target_Proxy.thy ===== *)
theory Target_Proxy
  imports Targets Header_Rules
begin

text \<open>
  What a target does with one proxied request (\<open>target.go\<close>, \<open>errors.go\<close>, the error part of
  \<open>retry.go\<close>, \<open>target_pool.go\<close>) and how it is drained while other goroutines run: the outgoing
  request, the response timeout chosen, the classification of proxy failures, the resolved
  pool settings, and a step relation for draining.
\<close>

section \<open>The outgoing request\<close>

text \<open>\<open>httputil.ProxyRequest\<close>: the request received and the copy about to be sent. Before the
  Rewrite hook runs, \<open>httputil.ReverseProxy\<close> has removed the forwarding headers from the copy.\<close>

record proxyRequest =
  px_in :: request
  px_out :: request

definition xForwardedFor :: string where "xForwardedFor = ''X-Forwarded-For''"
definition xForwardedHost :: string where "xForwardedHost = ''X-Forwarded-Host''"
definition xForwardedProto :: string where "xForwardedProto = ''X-Forwarded-Proto''"

definition strippedForwarding :: "request \<Rightarrow> bool" where
  "strippedForwarding r \<longleftrightarrow>
     list_all (\<lambda>k. hvalues (req_header r) k = []) [''Forwarded'', xForwardedFor, xForwardedHost, xForwardedProto]"

text \<open>\<open>ProxyRequest.SetXForwarded\<close> of the standard library.\<close>

definition setXForwarded :: "request \<Rightarrow> header \<Rightarrow> header" where
  "setXForwarded rin h =
     (let h1 = (case splitHostPort (req_remote_addr rin) of
                  Some (ip, _) \<Rightarrow>
                    (let prior = hvalues h xForwardedFor
                     in hset h xForwardedFor (if prior \<noteq> [] then joinWith '', '' prior @ '', '' @ ip else ip))
                | None \<Rightarrow> hdel h xForwardedFor);
          h2 = hset h1 xForwardedHost (req_host rin)
      in hset h2 xForwardedProto (if req_tls rin then ''https'' else ''http''))"

text \<open>Assigning a slice to a header entry, as \<open>forwardHeaders\<close> does: a nil slice leaves an entry
  with no values, which reads like no entry.\<close>

definition hassign :: "header \<Rightarrow> string \<Rightarrow> string list \<Rightarrow> header" where
  "hassign h k vs = AList.update (canonicalHeaderKey k) vs h"

definition copyIfPresent :: "request \<Rightarrow> string \<Rightarrow> header \<Rightarrow> header" where
  "copyIfPresent rin k h =
     (if hget (req_header rin) k \<noteq> [] then hset h k (hget (req_header rin) k) else h)"

definition forwardHeaders :: "targetOptions \<Rightarrow> proxyRequest \<Rightarrow> header" where
  "forwardHeaders opts px =
     (let rin = px_in px;
          h0 = (if to_forwardHeaders opts
                then hassign (req_header (px_out px)) xForwardedFor (hvalues (req_header rin) xForwardedFor)
                else req_header (px_out px));
          h1 = setXForwarded rin h0
      in if to_forwardHeaders opts
         then copyIfPresent rin xForwardedHost (copyIfPresent rin xForwardedProto h1)
         else h1)"

text \<open>\<open>rewrite\<close>: the target's URL has no path of its own, and the path, host and query are set
  from the request received; \<open>traceRequest\<close> only adds timing hooks to the context.\<close>

definition rewrite :: "target \<Rightarrow> proxyRequest \<Rightarrow> request" where
  "rewrite t px =
     (px_out px)\<lparr>
        req_host := req_host (px_in px),
        req_path := routedTargetPath (px_in px),
        req_raw_query := req_raw_query (px_in px),
        req_header := applyHeaderRules (to_requestHeaderRules (tg_options t)) (forwardHeaders (tg_options t) px)\<rparr>"

definition applyResponseHeaderRules :: "target \<Rightarrow> header \<Rightarrow> header" where
  "applyResponseHeaderRules t h = applyHeaderRules (to_responseHeaderRules (tg_options t)) h"

text \<open>\<open>handlerForRequest\<close>: each handler is told apart by the response timeout of its transport,
  the path handlers being in the order of the normalized path timeouts.\<close>

definition handlerForRequest :: "target \<Rightarrow> request \<Rightarrow> duration" where
  "handlerForRequest t r =
     (case find (\<lambda>pt. pathMatchesPrefix (req_path r) (pt_prefix pt)) (to_pathResponseTimeouts (tg_options t)) of
        Some pt \<Rightarrow> pt_timeout pt
      | None \<Rightarrow> to_responseTimeout (tg_options t))"

definition buildHealthCheckHost :: "target \<Rightarrow> string" where
  "buildHealthCheckHost t =
     (if hc_port (to_healthCheck (tg_options t)) > 0
      then (case splitHostPort (tg_address t) of Some (h, _) \<Rightarrow> h | None \<Rightarrow> tg_address t)
           @ '':'' @ itoa (hc_port (to_healthCheck (tg_options t)))
      else tg_address t)"

section \<open>Proxy failures\<close>

text \<open>What the \<open>errors.As\<close> and \<open>errors.Is\<close> calls of the sources find out about a failure and about
  the cancellation cause of its request; \<open>pe_net\<close> is the \<open>net.Error\<close> in the chain, by what its
  \<open>Timeout\<close> says.\<close>

record proxyError =
  pe_maxBytes :: bool
  pe_net :: "bool option"
  pe_deadlineCause :: bool
  pe_canceled :: bool
  pe_draining :: bool
  pe_message :: string
  pe_opError :: bool

datatype proxyErrorOutcome = Deferred | ErrorResponse int | StatusOnly int

definition statusClientClosedRequest :: int where
  "statusClientClosedRequest = 499"

definition isChunkedEncodingError :: "proxyError \<Rightarrow> bool" where
  "isChunkedEncodingError e \<longleftrightarrow> pe_message e \<in> set
     [''invalid byte in chunk length'', ''http chunk length too large'',
      ''malformed chunked encoding'', ''trailer header without chunked transfer encoding'', ''too many trailers'']"

definition isGatewayTimeout :: "proxyError \<Rightarrow> bool" where
  "isGatewayTimeout e = (case pe_net e of Some timeout \<Rightarrow> timeout | None \<Rightarrow> False)"

definition isRetryableProxyError :: "proxyError \<Rightarrow> bool" where
  "isRetryableProxyError e =
     (if pe_draining e then True
      else if pe_maxBytes e \<or> isGatewayTimeout e \<or> pe_deadlineCause e \<or> pe_canceled e \<or> isChunkedEncodingError e
      then False
      else pe_opError e)"

definition handleProxyError :: "bool \<Rightarrow> proxyError \<Rightarrow> proxyErrorOutcome" where
  "handleProxyError hasAttempt e =
     (if hasAttempt \<and> isRetryableProxyError e then Deferred
      else if pe_maxBytes e then ErrorResponse 413
      else if isGatewayTimeout e then ErrorResponse 504
      else if pe_deadlineCause e then ErrorResponse 504
      else if pe_canceled e then StatusOnly statusClientClosedRequest
      else if pe_draining e then ErrorResponse 504
      else if isChunkedEncodingError e then ErrorResponse 400
      else ErrorResponse 502)"

section \<open>Connection pool settings\<close>

record poolSettings =
  ps_maxConns :: int
  ps_maxIdleConns :: int
  ps_idleConnTimeout :: duration
  ps_dialTimeout :: duration
  ps_disableKeepAlives :: bool

definition defaultTargetDialTimeout :: duration where
  "defaultTargetDialTimeout = 30 * second"

definition defaultTargetIdleConnTimeout :: duration where
  "defaultTargetIdleConnTimeout = 90 * second"

definition maxIdleConnsPerHost :: int where
  "maxIdleConnsPerHost = 100"

definition poolSettingsOf :: "targetOptions \<Rightarrow> poolSettings" where
  "poolSettingsOf opts =
     \<lparr>ps_maxConns = (if to_maxConnsPerHost opts < 0 then 0 else to_maxConnsPerHost opts),
      ps_maxIdleConns = (if to_maxIdleConnsPerHost opts \<le> 0 then maxIdleConnsPerHost else to_maxIdleConnsPerHost opts),
      ps_idleConnTimeout = (if to_idleConnTimeout opts \<le> 0 then defaultTargetIdleConnTimeout else to_idleConnTimeout opts),
      ps_dialTimeout = (if to_dialTimeout opts \<le> 0 then defaultTargetDialTimeout else to_dialTimeout opts),
      ps_disableKeepAlives = to_disableKeepAlives opts\<rparr>"

datatype targetOptionsError = NegativeMaxConns | NegativeMaxIdleConns | NegativeIdleConnTimeout | NegativeDialTimeout

definition validateTargetOptions :: "targetOptions \<Rightarrow> targetOptionsError option" where
  "validateTargetOptions opts =
     (if to_maxConnsPerHost opts < 0 then Some NegativeMaxConns
      else if to_maxIdleConnsPerHost opts < 0 then Some NegativeMaxIdleConns
      else if to_idleConnTimeout opts < 0 then Some NegativeIdleConnTimeout
      else if to_dialTimeout opts < 0 then Some NegativeDialTimeout
      else None)"

section \<open>Draining while requests and probes run\<close>

text \<open>One target and the calls of \<open>Drain\<close> under way on it, each with the state it found and the
  requests it copied. A step is one critical section of \<open>inflightLock\<close>, or the cancelling of
  requests between two; requests are told apart by numbers, a new one getting a number that is
  not in flight.\<close>

record drainSystem =
  ds_target :: target
  ds_drains :: "(targetState \<times> nat list) list"

datatype drainLabel = Admit nat | End nat | Hijack nat | Probe bool | BeginDrain | CancelHijacked nat | FinishDrain nat

inductive drainStep :: "drainLabel \<Rightarrow> drainSystem \<Rightarrow> drainSystem \<Rightarrow> bool" where
  admit: "i \<notin> fst ` set (tg_inflight (ds_target s)) \<Longrightarrow> startRequest i (ds_target s) = Inr t
            \<Longrightarrow> drainStep (Admit i) s (s\<lparr>ds_target := t\<rparr>)"
| ended: "drainStep (End i) s (s\<lparr>ds_target := endInflightRequest i (ds_target s)\<rparr>)"
| hijacked: "drainStep (Hijack i) s (s\<lparr>ds_target := hijackRequest i (ds_target s)\<rparr>)"
| probed: "drainStep (Probe ok) s (s\<lparr>ds_target := fst (healthCheckCompleted ok (ds_target s))\<rparr>)"
| begun: "drainBegin (ds_target s) = Some (t, original, toCancel)
            \<Longrightarrow> drainStep BeginDrain s \<lparr>ds_target = t, ds_drains = ds_drains s @ [(original, toCancel)]\<rparr>"
| already: "drainBegin (ds_target s) = None \<Longrightarrow> drainStep BeginDrain s s"
| cancel_hijacked: "k < length (ds_drains s)
            \<Longrightarrow> drainStep (CancelHijacked k) s
                  (s\<lparr>ds_target := drainCancelHijacked (snd (ds_drains s ! k)) (ds_target s)\<rparr>)"
| finish: "k < length (ds_drains s)
            \<Longrightarrow> drainStep (FinishDrain k) s
                  \<lparr>ds_target = drainFinish (fst (ds_drains s ! k)) (snd (ds_drains s ! k)) (ds_target s),
                   ds_drains = take k (ds_drains s) @ drop (Suc k) (ds_drains s)\<rparr>"

inductive_cases drainStep_elims:
  "drainStep (Admit i) s s'" "drainStep (End i) s s'" "drainStep (Hijack i) s s'"
  "drainStep (Probe ok) s s'" "drainStep BeginDrain s s'" "drainStep (CancelHijacked k) s s'"
  "drainStep (FinishDrain k) s s'"

inductive drainRun :: "drainLabel list \<Rightarrow> drainSystem \<Rightarrow> drainSystem \<Rightarrow> bool" where
  run_nil: "drainRun [] s s"
| run_cons: "drainStep l s s' \<Longrightarrow> drainRun ls s' s'' \<Longrightarrow> drainRun (l # ls) s s''"

inductive_simps drainRun_simps: "drainRun [] s s'" "drainRun (l # ls) s s'"

definition inflightIds :: "target \<Rightarrow> nat set" where
  "inflightIds t = fst ` set (tg_inflight t)"

lemma inflightIds_ops:
  "inflightIds (endInflightRequest i t) \<subseteq> inflightIds t"
  "inflightIds (hijackRequest i t) = inflightIds t"
  "inflightIds (cancelWhere P t) = inflightIds t"
  "inflightIds (updateState st t) = inflightIds t"
  "inflightIds (fst (healthCheckCompleted ok t)) = inflightIds t"
proof -
  show "inflightIds (endInflightRequest i t) \<subseteq> inflightIds t"
    by (auto simp: inflightIds_def endInflightRequest_def set_AList_delete)
  show "inflightIds (hijackRequest i t) = inflightIds t"
  proof (cases "map_of (tg_inflight t) i")
    case (Some q)
    then have "i \<in> fst ` set (tg_inflight t)" by (metis domI dom_map_of_conv_image_fst)
    then show ?thesis
      by (simp add: inflightIds_def hijackRequest_def Some keys_AList_update insert_absorb)
  qed (simp add: hijackRequest_def)
  show "inflightIds (cancelWhere P t) = inflightIds t"
    by (force simp: inflightIds_def cancelWhere_def)
  show "inflightIds (updateState st t) = inflightIds t"
    and "inflightIds (fst (healthCheckCompleted ok t)) = inflightIds t"
    by (simp_all add: inflightIds_def updateState_def healthCheckCompleted_def Let_def)
qed

lemma state_ops:
  "tg_state (endInflightRequest i t) = tg_state t"
  "tg_state (hijackRequest i t) = tg_state t"
  "tg_state (cancelWhere P t) = tg_state t"
  "tg_state t = TargetStateDraining \<Longrightarrow> tg_state (fst (healthCheckCompleted False t)) = TargetStateDraining"
  by (auto simp: endInflightRequest_def hijackRequest_def cancelWhere_def healthCheckCompleted_def Let_def
      split: option.splits)

text \<open>While one drain runs and no probe succeeds, the target stays in the draining state and every
  request in flight is one the drain copied.\<close>

definition drainingOnly :: "targetState \<Rightarrow> nat list \<Rightarrow> drainSystem \<Rightarrow> bool" where
  "drainingOnly original toCancel s \<longleftrightarrow>
     tg_state (ds_target s) = TargetStateDraining \<and> ds_drains s = [(original, toCancel)]
     \<and> inflightIds (ds_target s) \<subseteq> set toCancel"

definition quietLabel :: "drainLabel \<Rightarrow> bool" where
  "quietLabel l \<longleftrightarrow> (case l of Probe ok \<Rightarrow> \<not> ok | FinishDrain _ \<Rightarrow> False | _ \<Rightarrow> True)"

lemma drainingOnly_step:
  assumes "drainStep l s s'" and "quietLabel l" and "drainingOnly original toCancel s"
  shows "drainingOnly original toCancel s'"
  using assms inflightIds_ops(2-5) state_ops
  by (induction rule: drainStep.induct)
    (auto simp: quietLabel_def drainingOnly_def startRequest_def drainBegin_def drainCancelHijacked_def
       dest: subsetD inflightIds_ops(1)[THEN subsetD])

lemma drainingOnly_run:
  assumes "drainRun ls s s'" and "list_all quietLabel ls" and "drainingOnly original toCancel s"
  shows "drainingOnly original toCancel s'"
  using assms by (induction rule: drainRun.induct) (auto dest: drainingOnly_step)

lemma drainRun_append:
  "drainRun (ls @ ms) s s'' \<longleftrightarrow> (\<exists>s'. drainRun ls s s' \<and> drainRun ms s' s'')"
  by (induction ls arbitrary: s) (auto simp: drainRun_simps)

lemma cancelWhere_all:
  "inflightIds t \<subseteq> A \<Longrightarrow> (i, q) \<in> set (tg_inflight (cancelWhere (\<lambda>i q. i \<in> A) t)) \<Longrightarrow> if_cancelled q"
  by (force simp: inflightIds_def cancelWhere_def split: if_splits)

text \<open>C20: A drain that starts on a target nobody else is draining admits no new request and lets
  no request go on: whatever requests start, end or are hijacked and whatever probes fail in
  the meantime, when \<open>Drain\<close> returns every request still in flight was in flight when it
  began and has been cancelled, and the target is back in the state it was found in. The run
  excludes a probe that succeeds.\<close>

theorem drain_cancels_all:
  assumes "ds_drains s = []" and "tg_state (ds_target s) \<noteq> TargetStateDraining"
    and "list_all quietLabel ls"
    and "drainRun (BeginDrain # ls @ [FinishDrain 0]) s s'"
  shows "inflightIds (ds_target s') \<subseteq> inflightIds (ds_target s)
     \<and> list_all (\<lambda>(i, q). if_cancelled q) (tg_inflight (ds_target s'))
     \<and> tg_state (ds_target s') = tg_state (ds_target s)"
proof -
  let ?o = "tg_state (ds_target s)" and ?c = "map fst (tg_inflight (ds_target s))"
  obtain s1 s2 where b: "drainStep BeginDrain s s1" and m: "drainRun ls s1 s2"
    and f: "drainStep (FinishDrain 0) s2 s'"
    using assms(4) by (auto simp: drainRun_simps drainRun_append)
  have "drainingOnly ?o ?c s1"
    using b assms(1,2) by (auto 0 3 elim!: drainStep_elims simp: drainBegin_def drainingOnly_def inflightIds_def intro: rev_image_eqI)
  then have inv: "drainingOnly ?o ?c s2"
    using drainingOnly_run[OF m assms(3)] by blast
  then have t': "ds_target s' = drainFinish ?o ?c (ds_target s2)"
    using f by (auto elim!: drainStep_elims simp: drainingOnly_def)
  have "inflightIds (ds_target s') = inflightIds (ds_target s2)"
    by (simp add: t' drainFinish_def inflightIds_ops)
  then have "inflightIds (ds_target s') \<subseteq> inflightIds (ds_target s)"
    using inv by (simp add: drainingOnly_def inflightIds_def)
  moreover have "tg_state (ds_target s') = tg_state (ds_target s)"
    by (simp add: t' drainFinish_def updateState_def)
  moreover have "if_cancelled q" if "(i, q) \<in> set (tg_inflight (ds_target s'))" for i q
  proof (rule cancelWhere_all)
    show "inflightIds (ds_target s2) \<subseteq> set ?c" using inv by (simp add: drainingOnly_def)
    show "(i, q) \<in> set (tg_inflight (cancelWhere (\<lambda>i q. i \<in> set ?c) (ds_target s2)))"
      using that by (simp add: t' drainFinish_def updateState_def)
  qed
  ultimately show ?thesis by (auto simp: list_all_iff)
qed

definition idleRequest :: inflightRequest where
  "idleRequest = \<lparr>if_hijacked = False, if_cancelled = False\<rparr>"

definition busyTarget :: target where
  "busyTarget = exampleTarget\<lparr>tg_state := TargetStateHealthy, tg_inflight := [(1, idleRequest), (2, idleRequest)]\<rparr>"

definition busySystem :: drainSystem where
  "busySystem = \<lparr>ds_target = busyTarget, ds_drains = []\<rparr>"

lemma drainStep_begun:
  "drainBegin (ds_target s) = Some (t, original, toCancel) \<Longrightarrow> ds_drains s = [] \<Longrightarrow>
     s' = \<lparr>ds_target = t, ds_drains = [(original, toCancel)]\<rparr> \<Longrightarrow> drainStep BeginDrain s s'"
  using drainStep.begun[of s t original toCancel] by simp

lemma drainStep_finish:
  "ds_drains s = [(original, toCancel)] \<Longrightarrow>
     s' = \<lparr>ds_target = drainFinish original toCancel (ds_target s), ds_drains = []\<rparr> \<Longrightarrow>
     drainStep (FinishDrain 0) s s'"
  using drainStep.finish[of 0 s] by simp

definition drainedTarget :: target where
  "drainedTarget = busyTarget\<lparr>tg_inflight := [(2, idleRequest\<lparr>if_cancelled := True\<rparr>)]\<rparr>"

lemma busySystem_drained:
  "drainRun (BeginDrain # [End 1, Probe False] @ [FinishDrain 0]) busySystem
     \<lparr>ds_target = drainedTarget, ds_drains = []\<rparr>"
proof -
  let ?s1 = "\<lparr>ds_target = busyTarget\<lparr>tg_state := TargetStateDraining\<rparr>, ds_drains = [(TargetStateHealthy, [1, 2])]\<rparr>"
  let ?s2 = "?s1\<lparr>ds_target := endInflightRequest 1 (ds_target ?s1)\<rparr>"
  let ?s3 = "?s2\<lparr>ds_target := fst (healthCheckCompleted False (ds_target ?s2))\<rparr>"
  have "drainStep BeginDrain busySystem ?s1"
    by (rule drainStep_begun) (code_simp | simp add: busySystem_def)+
  moreover have "drainStep (End 1) ?s1 ?s2" by (rule drainStep.ended)
  moreover have "drainStep (Probe False) ?s2 ?s3" by (rule drainStep.probed)
  moreover have "drainStep (FinishDrain 0) ?s3 \<lparr>ds_target = drainedTarget, ds_drains = []\<rparr>"
    by (rule drainStep_finish) (simp, code_simp)
  ultimately show ?thesis by (auto simp: drainRun_simps)
qed

theorem drain_cancels_all_witness:
  "drainRun (BeginDrain # [End 1, Probe False] @ [FinishDrain 0]) busySystem \<lparr>ds_target = drainedTarget, ds_drains = []\<rparr>
   \<and> inflightIds drainedTarget \<subseteq> {1, 2} \<and> list_all (\<lambda>(i, q). if_cancelled q) (tg_inflight drainedTarget)"
proof -
  have "ds_drains busySystem = []" "tg_state (ds_target busySystem) \<noteq> TargetStateDraining"
    by (simp_all add: busySystem_def busyTarget_def)
  moreover have "list_all quietLabel [End 1, Probe False]" by (simp add: quietLabel_def)
  moreover have "inflightIds (ds_target busySystem) = {1, 2}"
    by (simp add: busySystem_def busyTarget_def inflightIds_def)
  ultimately show ?thesis
    using drain_cancels_all[OF _ _ _ busySystem_drained] busySystem_drained by auto
qed

text \<open>A health check that succeeds during a drain ends the drain's protection: the target goes
  from draining to healthy, a request that arrives then is admitted, and when \<open>Drain\<close> returns
  that request is in flight and has not been cancelled. So the hypothesis of the drain
  guarantee, that no probe succeeds in the meantime, cannot be dropped.\<close>

theorem drain_probe_readmits:
  "\<exists>s'. drainRun [BeginDrain, Probe True, Admit 3, FinishDrain 0] busySystem s'
        \<and> (3, idleRequest) \<in> set (tg_inflight (ds_target s'))"
proof -
  let ?s1 = "\<lparr>ds_target = busyTarget\<lparr>tg_state := TargetStateDraining\<rparr>, ds_drains = [(TargetStateHealthy, [1, 2])]\<rparr>"
  let ?s2 = "?s1\<lparr>ds_target := fst (healthCheckCompleted True (ds_target ?s1))\<rparr>"
  let ?t3 = "busyTarget\<lparr>tg_inflight := [(1, idleRequest), (2, idleRequest), (3, idleRequest)]\<rparr>"
  let ?s3 = "?s2\<lparr>ds_target := ?t3\<rparr>"
  let ?s4 = "\<lparr>ds_target = drainFinish TargetStateHealthy [1, 2] ?t3, ds_drains = []\<rparr>"
  have "drainStep BeginDrain busySystem ?s1"
    by (rule drainStep_begun) (code_simp | simp add: busySystem_def)+
  moreover have "drainStep (Probe True) ?s1 ?s2" by (rule drainStep.probed)
  moreover have "drainStep (Admit 3) ?s2 ?s3"
    by (rule drainStep.admit)
      (simp_all add: busyTarget_def healthCheckCompleted_def startRequest_def idleRequest_def Let_def)
  moreover have "drainStep (FinishDrain 0) ?s3 ?s4" by (rule drainStep_finish) simp_all
  ultimately have "drainRun [BeginDrain, Probe True, Admit 3, FinishDrain 0] busySystem ?s4"
    by (auto simp: drainRun_simps)
  moreover have "(3, idleRequest) \<in> set (tg_inflight (ds_target ?s4))"
    by (simp add: drainFinish_def cancelWhere_def updateState_def)
  ultimately show ?thesis by blast
qed

section \<open>Forwarding headers\<close>

lemma forwarding_keys:
  "canonicalHeaderKey xForwardedFor = ''X-Forwarded-For''"
  "canonicalHeaderKey xForwardedHost = ''X-Forwarded-Host''"
  "canonicalHeaderKey xForwardedProto = ''X-Forwarded-Proto''"
  by code_simp+

lemma hvalues_hassign:
  "hvalues (hassign h k vs) j = (if canonicalHeaderKey j = canonicalHeaderKey k then vs else hvalues h j)"
  by (simp add: hvalues_def hassign_def update_conv)

lemmas forwarding_simps = forwarding_keys header_simps hvalues_hassign

text \<open>What a target learns about the client. When the service does not trust incoming
  forwarding headers, the target sees exactly the address, host and scheme of the connection,
  whatever the client sent; when it does, the address is appended to the incoming chain and a
  non-empty incoming host or scheme is kept. Either way the address the proxy itself saw is
  the last one in \<open>X-Forwarded-For\<close>.\<close>

theorem forwardHeaders_values:
  fixes opts :: targetOptions and px :: proxyRequest
  assumes "strippedForwarding (px_out px)"
    and "splitHostPort (req_remote_addr (px_in px)) = Some (ip, port)"
  defines "h \<equiv> forwardHeaders opts px" and "hin \<equiv> req_header (px_in px)"
  shows "hvalues h xForwardedFor =
           [joinWith '', '' ((if to_forwardHeaders opts then hvalues hin xForwardedFor else []) @ [ip])]
     \<and> hvalues h xForwardedHost =
           [if to_forwardHeaders opts \<and> hget hin xForwardedHost \<noteq> [] then hget hin xForwardedHost
            else req_host (px_in px)]
     \<and> hvalues h xForwardedProto =
           [if to_forwardHeaders opts \<and> hget hin xForwardedProto \<noteq> [] then hget hin xForwardedProto
            else if req_tls (px_in px) then ''https'' else ''http'']"
proof -
  have join: "joinWith '', '' (vs @ [ip]) = (if vs \<noteq> [] then joinWith '', '' vs @ '', '' @ ip else ip)" for vs
    by (induction vs rule: joinWith.induct[of "\<lambda>_ vs. joinWith '', '' (vs @ [ip]) = (if vs \<noteq> [] then joinWith '', '' vs @ '', '' @ ip else ip)" "'', ''"]) auto
  have none: "hvalues (req_header (px_out px)) xForwardedFor = []"
    using assms(1) by (simp add: strippedForwarding_def)
  show ?thesis
    unfolding h_def hin_def join
    by (simp add: forwardHeaders_def setXForwarded_def copyIfPresent_def assms(2) none Let_def forwarding_simps)
qed

definition exampleProxyRequest :: proxyRequest where
  "exampleProxyRequest = \<lparr>
     px_in = emptyRequest\<lparr>req_host := ''app.test'', req_remote_addr := ''10.0.0.9:4242'',
               req_header := [(''X-Forwarded-For'', [''1.1.1.1''])]\<rparr>,
     px_out = emptyRequest\<rparr>"

theorem forwardHeaders_values_witness:
  "hvalues (forwardHeaders zeroTargetOptions exampleProxyRequest) xForwardedFor = [''10.0.0.9'']
   \<and> hvalues (forwardHeaders (zeroTargetOptions\<lparr>to_forwardHeaders := True\<rparr>) exampleProxyRequest) xForwardedFor
       = [''1.1.1.1, 10.0.0.9'']"
proof -
  have "strippedForwarding (px_out exampleProxyRequest)" by code_simp
  moreover have "splitHostPort (req_remote_addr (px_in exampleProxyRequest)) = Some (''10.0.0.9'', ''4242'')"
    by code_simp
  moreover have "hvalues (req_header (px_in exampleProxyRequest)) xForwardedFor = [''1.1.1.1'']" by code_simp
  ultimately show ?thesis
    using forwardHeaders_values[of exampleProxyRequest] by (simp add: zeroTargetOptions_def)
qed

section \<open>The response timeout of a request\<close>

lemma handlerForRequest_resolve:
  "handlerForRequest t r = resolvePathTimeout (req_path r) (to_pathResponseTimeouts (tg_options t)) (to_responseTimeout (tg_options t))"
  by (simp add: handlerForRequest_def resolvePathTimeout_find split: option.splits)

lemma newTarget_pathTimeouts:
  assumes "newTarget url opts = Inr t"
  shows "to_pathResponseTimeouts (tg_options t) = normalizePathTimeouts (to_pathResponseTimeouts opts)"
    and "to_responseTimeout (tg_options t) = to_responseTimeout opts"
  using assms by (auto simp: newTarget_def split: sum.splits)

text \<open>The transport a target picks for a request carries the response timeout of the most
  specific configured path: of the entries whose (normalized) prefix covers the request's
  path, one whose prefix lies below every other's; and the target's own timeout when no entry
  covers it.\<close>

theorem handlerForRequest_most_specific:
  fixes r :: request
  assumes "newTarget url opts = Inr t"
  defines "covering \<equiv> filter (\<lambda>c. pathMatchesPrefix (req_path r) (normalizePrefix (pt_prefix c))) (to_pathResponseTimeouts opts)"
  shows "if covering = [] then handlerForRequest t r = to_responseTimeout opts
         else \<exists>b \<in> set covering. handlerForRequest t r = pt_timeout b
                \<and> (\<forall>c \<in> set covering. pathMatchesPrefix (normalizePrefix (pt_prefix b)) (normalizePrefix (pt_prefix c)))"
proof -
  let ?norm = "\<lambda>t. t\<lparr>pt_prefix := normalizePrefix (pt_prefix t)\<rparr>"
  let ?ts = "map ?norm (to_pathResponseTimeouts opts)"
  let ?P = "\<lambda>x. pathMatchesPrefix (req_path r) (pt_prefix x)"
  have find: "handlerForRequest t r =
      (case find ?P (sortPathTimeouts ?ts) of None \<Rightarrow> to_responseTimeout opts | Some c \<Rightarrow> pt_timeout c)"
    using newTarget_pathTimeouts[OF assms(1)]
    by (simp add: handlerForRequest_resolve resolvePathTimeout_find normalizePathTimeouts_def sortPathTimeouts_def)
  have canon: "canonicalPrefix (pt_prefix x)" if "x \<in> set ?ts" for x
    using that by (auto simp: normalizePrefix_canonical)
  show ?thesis
  proof (cases "find ?P (sortPathTimeouts ?ts)")
    case None
    then have "\<not> ?P (?norm c)" if "c \<in> set (to_pathResponseTimeouts opts)" for c
      using that pt.first_match_total[of "?norm c" ?ts "req_path r"] by auto
    then have "covering = []" by (simp add: covering_def filter_empty_conv)
    then show ?thesis using find None by simp
  next
    case (Some b')
    from pt.first_match_member[OF Some] obtain b where b: "b \<in> set covering" "b' = ?norm b"
      by (auto simp: covering_def)
    have "pathMatchesPrefix (pt_prefix b') (normalizePrefix (pt_prefix c))" if "c \<in> set covering" for c
      using pt.first_match_most_specific[OF canon Some, of "?norm c"] that by (auto simp: covering_def)
    then show ?thesis using b find Some by (auto intro!: bexI[of _ b])
  qed
qed

definition slowPaths :: targetOptions where
  "slowPaths = zeroTargetOptions\<lparr>to_responseTimeout := 30 * second,
     to_pathResponseTimeouts := [\<lparr>pt_prefix = ''/api'', pt_timeout = 60 * second\<rparr>,
                                 \<lparr>pt_prefix = ''/api/export/'', pt_timeout = 600 * second\<rparr>]\<rparr>"

theorem handlerForRequest_most_specific_witness:
  "\<exists>t. newTarget ''web:80'' slowPaths = Inr t
      \<and> handlerForRequest t (emptyRequest\<lparr>req_path := ''/api/export/csv''\<rparr>) = 600 * second
      \<and> (\<exists>b \<in> set (to_pathResponseTimeouts slowPaths). pt_timeout b = 600 * second)"
proof -
  let ?t = "projr (newTarget ''web:80'' slowPaths)" and ?r = "emptyRequest\<lparr>req_path := ''/api/export/csv''\<rparr>"
  have t: "newTarget ''web:80'' slowPaths = Inr ?t" by code_simp
  have cov: "filter (\<lambda>c. pathMatchesPrefix (req_path ?r) (normalizePrefix (pt_prefix c))) (to_pathResponseTimeouts slowPaths)
      = to_pathResponseTimeouts slowPaths" by code_simp
  have "to_pathResponseTimeouts slowPaths \<noteq> []" by (simp add: slowPaths_def)
  then obtain b where b: "b \<in> set (to_pathResponseTimeouts slowPaths)" "handlerForRequest ?t ?r = pt_timeout b"
    using handlerForRequest_most_specific[OF t, of ?r] unfolding cov by auto
  have "handlerForRequest ?t ?r = 600 * second" by code_simp
  with t b show ?thesis by auto
qed

end
