(* ===== verification/Load_Balancer.thy ===== *)
theory Load_Balancer
  imports Target_Proxy
begin

text \<open>
  The load balancer of \<open>load_balancer.go\<close> with the session pins of \<open>session_affinity.go\<close>: which
  targets are in the pools, which target a request is given, and what the client is told.

  A pointer to a target is its position in \<open>all\<close>; the pools are lists of positions, so that a
  change to a target is seen through both. The cancellable context behind
  \<open>WaitUntilHealthy\<close> is the flag \<open>lb_healthySignalled\<close>: \<open>markHealthy\<close> sets it, a fresh context clears it.
  The keyed digest behind session identifiers is a parameter.
\<close>

section \<open>State\<close>

record retryPolicy =
  rp_tryDuration :: duration
  rp_tryInterval :: duration

record sessionPinner =
  sp_cookieName :: string
  sp_ids :: "string list"

record loadBalancer =
  lb_all :: "target list"
  lb_writers :: "nat list"
  lb_readers :: "nat list"
  lb_writerAffinityTimeout :: duration
  lb_readTargetsAcceptWebsockets :: bool
  lb_writerIndex :: nat
  lb_readerIndex :: nat
  lb_multiTarget :: bool
  lb_hasReaders :: bool
  lb_weighted :: bool
  lb_persistentHealthChecks :: bool
  lb_healthySignalled :: bool
  lb_retryPolicy :: retryPolicy
  lb_sessionAffinity :: "sessionPinner option"

section \<open>Building the pool\<close>

definition newTargetList :: "string list \<Rightarrow> string list \<Rightarrow> targetOptions \<Rightarrow> targetError + target list" where
  "newTargetList targetURLs readerURLs opts =
     (case mapResult (\<lambda>u. newTarget u opts) targetURLs of
        Inl e \<Rightarrow> Inl e
      | Inr ts \<Rightarrow>
          (case mapResult (\<lambda>u. newReadOnlyTarget u opts) readerURLs of
             Inl e \<Rightarrow> Inl e
           | Inr rs \<Rightarrow> Inr (ts @ rs)))"

definition hasReadersList :: "target list \<Rightarrow> bool" where
  "hasReadersList ts = list_ex tg_readonly ts"

definition beginHealthChecks :: "target \<Rightarrow> target" where
  "beginHealthChecks t = t\<lparr>tg_probing := True\<rparr>"

definition beginAllHealthChecks :: "target list \<Rightarrow> target list" where
  "beginAllHealthChecks ts = map beginHealthChecks ts"

definition stopHealthChecks :: "target \<Rightarrow> target" where
  "stopHealthChecks t = t\<lparr>tg_probing := False\<rparr>"

definition stopAllHealthChecks :: "target list \<Rightarrow> target list" where
  "stopAllHealthChecks ts = map stopHealthChecks ts"

definition newLoadBalancer :: "target list \<Rightarrow> duration \<Rightarrow> bool \<Rightarrow> loadBalancer" where
  "newLoadBalancer ts writerAffinityTimeout readTargetsAcceptWebsockets =
     \<lparr>lb_all = beginAllHealthChecks ts, lb_writers = [], lb_readers = [],
      lb_writerAffinityTimeout = writerAffinityTimeout,
      lb_readTargetsAcceptWebsockets = readTargetsAcceptWebsockets,
      lb_writerIndex = 0, lb_readerIndex = 0,
      lb_multiTarget = (length ts > 1), lb_hasReaders = hasReadersList ts, lb_weighted = hasWeights ts,
      lb_persistentHealthChecks = False, lb_healthySignalled = False,
      lb_retryPolicy = \<lparr>rp_tryDuration = 0, rp_tryInterval = 0\<rparr>, lb_sessionAffinity = None\<rparr>"

definition withRetryPolicy :: "loadBalancer \<Rightarrow> retryPolicy \<Rightarrow> loadBalancer" where
  "withRetryPolicy lb p = lb\<lparr>lb_retryPolicy := p\<rparr>"

definition defaultSessionAffinityCookieName :: string where
  "defaultSessionAffinityCookieName = ''kamal-session''"

definition newSessionPinner :: "(string \<Rightarrow> string) \<Rightarrow> string \<Rightarrow> target list \<Rightarrow> sessionPinner" where
  "newSessionPinner digest name ts =
     \<lparr>sp_cookieName = (if name = [] then defaultSessionAffinityCookieName else name),
      sp_ids = map (\<lambda>t. digest (tg_address t)) ts\<rparr>"

definition withSessionAffinity :: "(string \<Rightarrow> string) \<Rightarrow> loadBalancer \<Rightarrow> bool \<Rightarrow> string \<Rightarrow> loadBalancer" where
  "withSessionAffinity digest lb enabled name =
     (if enabled then lb\<lparr>lb_sessionAffinity := Some (newSessionPinner digest name (lb_all lb))\<rparr> else lb)"

section \<open>Which targets are in the pool\<close>

definition targetsMatchingReadonly :: "target list \<Rightarrow> bool \<Rightarrow> target list" where
  "targetsMatchingReadonly ts readonly = filter (\<lambda>t. tg_readonly t = readonly) ts"

definition writeTargets :: "loadBalancer \<Rightarrow> target list" where
  "writeTargets lb = targetsMatchingReadonly (lb_all lb) False"

definition readTargets :: "loadBalancer \<Rightarrow> target list" where
  "readTargets lb = targetsMatchingReadonly (lb_all lb) True"

definition healthyTargets :: "loadBalancer \<Rightarrow> nat list" where
  "healthyTargets lb = lb_writers lb @ lb_readers lb"

definition healthyPositions :: "bool \<Rightarrow> target list \<Rightarrow> nat list" where
  "healthyPositions readonly ts =
     filter (\<lambda>i. tg_state (ts ! i) = TargetStateHealthy \<and> tg_readonly (ts ! i) = readonly) [0..<length ts]"

definition updateHealthyTargets :: "loadBalancer \<Rightarrow> loadBalancer" where
  "updateHealthyTargets lb =
     (let ts = lb_all lb;
          writers = healthyPositions False ts;
          readers = healthyPositions True ts;
          healthyCount = length writers + length readers;
          ts' = (if \<not> lb_multiTarget lb \<and> length writers = 1 \<and> \<not> lb_persistentHealthChecks lb
                 then stopAllHealthChecks ts else ts)
      in lb\<lparr>lb_all := ts', lb_writers := writers, lb_readers := readers,
           lb_healthySignalled := (if healthyCount = length ts then True else lb_healthySignalled lb)\<rparr>)"

definition markAllHealthy :: "loadBalancer \<Rightarrow> loadBalancer" where
  "markAllHealthy lb = updateHealthyTargets (lb\<lparr>lb_all := map (updateState TargetStateHealthy) (lb_all lb)\<rparr>)"

definition recheckHealth :: "loadBalancer \<Rightarrow> loadBalancer" where
  "recheckHealth lb =
     lb\<lparr>lb_persistentHealthChecks := True, lb_all := beginAllHealthChecks (lb_all lb)\<rparr>"

definition suspendForSleep :: "loadBalancer \<Rightarrow> loadBalancer" where
  "suspendForSleep lb =
     lb\<lparr>lb_all := map (updateState TargetStateUnhealthy) (stopAllHealthChecks (lb_all lb)),
        lb_writers := [], lb_readers := []\<rparr>"

definition resumeFromSleep :: "loadBalancer \<Rightarrow> loadBalancer" where
  "resumeFromSleep lb =
     lb\<lparr>lb_healthySignalled := False,
        lb_all := beginAllHealthChecks (map (updateState TargetStateAdding) (lb_all lb))\<rparr>"

definition lbDispose :: "loadBalancer \<Rightarrow> loadBalancer" where
  "lbDispose lb = lb\<lparr>lb_all := stopAllHealthChecks (lb_all lb)\<rparr>"

text \<open>A probe of target \<open>i\<close> reports: \<open>HealthCheckCompleted\<close>, and \<open>TargetStateChanged\<close> when that
  changed the state. The consumer is the load balancer that started the checks.\<close>

definition probeCompleted :: "nat \<Rightarrow> bool \<Rightarrow> loadBalancer \<Rightarrow> loadBalancer" where
  "probeCompleted i success lb =
     (if i < length (lb_all lb) then
        (case healthCheckCompleted success (lb_all lb ! i) of (t, changed) \<Rightarrow>
           let lb' = lb\<lparr>lb_all := (lb_all lb)[i := t]\<rparr>
           in if changed then updateHealthyTargets lb' else lb')
      else lb)"

section \<open>Choosing a target\<close>

definition isWebSocketRequest :: "request \<Rightarrow> bool" where
  "isWebSocketRequest r \<longleftrightarrow>
     req_method r = ''GET'' \<and> equalFold (hget (req_header r) ''Upgrade'') ''websocket''
     \<and> containsStr (toLower (hget (req_header r) ''Connection'')) ''upgrade''"

definition isReadRequest :: "loadBalancer \<Rightarrow> request \<Rightarrow> bool" where
  "isReadRequest lb r \<longleftrightarrow>
     (req_method r = ''GET'' \<or> req_method r = ''HEAD'')
     \<and> (lb_readTargetsAcceptWebsockets lb \<or> \<not> isWebSocketRequest r)"

definition loadBalancerWriteCookieName :: string where
  "loadBalancerWriteCookieName = ''kamal-writer''"

definition unixMilli :: "time \<Rightarrow> int" where
  "unixMilli t = t div millisecond"

definition hasWriteCookie :: "time \<Rightarrow> request \<Rightarrow> bool" where
  "hasWriteCookie now r =
     (case cookie r loadBalancerWriteCookieName of
        None \<Rightarrow> False
      | Some v \<Rightarrow> (case parseInt v of None \<Rightarrow> False | Some expires \<Rightarrow> unixMilli now < expires))"

definition pinnedID :: "sessionPinner \<Rightarrow> request \<Rightarrow> string" where
  "pinnedID p r = (case cookie r (sp_cookieName p) of None \<Rightarrow> [] | Some v \<Rightarrow> v)"

definition pinnedTarget :: "loadBalancer \<Rightarrow> request \<Rightarrow> bool \<Rightarrow> nat option" where
  "pinnedTarget lb r reader =
     (case lb_sessionAffinity lb of
        None \<Rightarrow> None
      | Some p \<Rightarrow>
          if req_ignore_pin r then None
          else if reader \<and> lb_readers lb \<noteq> [] then None
          else if pinnedID p r = [] then None
          else find (\<lambda>i. sp_ids p ! i = pinnedID p r) (lb_writers lb))"

text \<open>One turn of a pool: by share when any target has a weight, else to the next position. The
  targets, the new index and the position chosen.\<close>

definition turn :: "bool \<Rightarrow> nat list \<Rightarrow> nat \<Rightarrow> target list \<Rightarrow> target list \<times> nat \<times> nat option" where
  "turn weighted pool index ts =
     (if weighted then
        (case nextWeighted (map ((!) ts) pool) of (moved, chosen) \<Rightarrow>
           (fold (\<lambda>(i, t) ts. ts[i := t]) (zip pool moved) ts, index, map_option ((!) pool) chosen))
      else let index' = (index + 1) mod length pool in (ts, index', Some (pool ! index')))"

definition nextTarget :: "loadBalancer \<Rightarrow> bool \<Rightarrow> loadBalancer \<times> nat option" where
  "nextTarget lb reader =
     (if reader \<and> lb_readers lb \<noteq> [] then
        (case turn (lb_weighted lb) (lb_readers lb) (lb_readerIndex lb) (lb_all lb) of (ts, index, chosen) \<Rightarrow>
           (lb\<lparr>lb_all := ts, lb_readerIndex := index\<rparr>, chosen))
      else if lb_writers lb \<noteq> [] then
        (case turn (lb_weighted lb) (lb_writers lb) (lb_writerIndex lb) (lb_all lb) of (ts, index, chosen) \<Rightarrow>
           (lb\<lparr>lb_all := ts, lb_writerIndex := index\<rparr>, chosen))
      else (lb, None))"

datatype claimError = NoHealthyTargets | ClaimedDraining

text \<open>\<open>claimTarget\<close>: the load balancer afterwards (the rotation moves even when the target chosen
  turns out to be draining), and the target or the error. The request is the number it gets in
  the target's in-flight map.\<close>

definition claimTarget ::
  "time \<Rightarrow> nat \<Rightarrow> loadBalancer \<Rightarrow> request \<Rightarrow> loadBalancer \<times> (claimError + nat \<times> bool)" where
  "claimTarget now rid lb r =
     (let readRequest = isReadRequest lb r;
          treatAsReadRequest = (readRequest \<and> \<not> hasWriteCookie now r)
      in case (case pinnedTarget lb r treatAsReadRequest of
                 Some i \<Rightarrow> (lb, Some i)
               | None \<Rightarrow> nextTarget lb treatAsReadRequest) of
           (lb', None) \<Rightarrow> (lb', Inl NoHealthyTargets)
         | (lb', Some i) \<Rightarrow>
             (case startRequest rid (lb_all lb' ! i) of
                Inl _ \<Rightarrow> (lb', Inl ClaimedDraining)
              | Inr t \<Rightarrow> (lb'\<lparr>lb_all := (lb_all lb')[i := t]\<rparr>, Inr (i, readRequest))))"

section \<open>What the request and the response carry\<close>

definition loadBalancerTargetHeader :: string where
  "loadBalancerTargetHeader = ''X-Kamal-Target''"

definition setTargetHeader :: "target \<Rightarrow> header \<Rightarrow> header" where
  "setTargetHeader t h =
     (let prior = hvalues h loadBalancerTargetHeader
      in hset h loadBalancerTargetHeader
           (if to_forwardHeaders (tg_options t) \<and> prior \<noteq> []
            then joinWith '', '' prior @ '', '' @ tg_address t else tg_address t))"

record setCookie =
  ck_name :: string
  ck_value :: string
  ck_path :: string
  ck_httpOnly :: bool
  ck_secure :: bool
  ck_expires :: "time option"

definition cookieFor :: "sessionPinner \<Rightarrow> request \<Rightarrow> nat \<Rightarrow> setCookie option" where
  "cookieFor p r i =
     (let ident = sp_ids p ! i
      in if ident = [] \<or> ident = pinnedID p r then None
         else Some \<lparr>ck_name = sp_cookieName p, ck_value = ident, ck_path = ''/'', ck_httpOnly = True,
                   ck_secure = req_tls r, ck_expires = None\<rparr>)"

text \<open>\<open>pinSession\<close>: the pin staged on the response; \<open>staged\<close> is what an earlier attempt left.\<close>

definition pinSession :: "loadBalancer \<Rightarrow> request \<Rightarrow> nat \<Rightarrow> setCookie option \<Rightarrow> setCookie option" where
  "pinSession lb r i staged =
     (case lb_sessionAffinity lb of
        None \<Rightarrow> staged
      | Some p \<Rightarrow> if tg_readonly (lb_all lb ! i) then staged else cookieFor p r i)"

definition affinityOptOutHeader :: string where
  "affinityOptOutHeader = ''X-Writer-Affinity''"

definition writerAffinityCookie :: "time \<Rightarrow> duration \<Rightarrow> header \<Rightarrow> setCookie option \<times> header" where
  "writerAffinityCookie now timeout h =
     (if hget h affinityOptOutHeader \<noteq> ''false''
      then Some \<lparr>ck_name = loadBalancerWriteCookieName, ck_value = itoa (unixMilli (now + timeout)), ck_path = ''/'',
                ck_httpOnly = True, ck_secure = False, ck_expires = Some (now + timeout + second)\<rparr>
      else None, hdel h affinityOptOutHeader)"

text \<open>\<open>StartRequest\<close> without a retry policy: a 503, or the target to send to with whether its
  response gets a writer cookie and the pin it gets.\<close>

datatype startResult = Refused int | SendTo nat bool "setCookie option" header

definition lbStartRequest :: "time \<Rightarrow> nat \<Rightarrow> loadBalancer \<Rightarrow> request \<Rightarrow> loadBalancer \<times> startResult" where
  "lbStartRequest now rid lb r =
     (case claimTarget now rid lb r of
        (lb', Inl _) \<Rightarrow> (lb', Refused 503)
      | (lb', Inr (i, readRequest)) \<Rightarrow>
          (lb', SendTo i (lb_writerAffinityTimeout lb > 0 \<and> lb_hasReaders lb \<and> \<not> readRequest)
                  (pinSession lb' r i None) (setTargetHeader (lb_all lb' ! i) (req_header r))))"

section \<open>The pool invariant\<close>

text \<open>Positions are valid and not repeated, writers can write, readers are read-only, and the
  session pinner knows every target.\<close>

definition poolOK :: "bool \<Rightarrow> target list \<Rightarrow> nat list \<Rightarrow> bool" where
  "poolOK readonly ts pool \<longleftrightarrow>
     distinct pool \<and> list_all (\<lambda>i. i < length ts \<and> tg_readonly (ts ! i) = readonly) pool"

definition pinnerOK :: "target list \<Rightarrow> sessionPinner option \<Rightarrow> bool" where
  "pinnerOK ts a \<longleftrightarrow> (case a of None \<Rightarrow> True | Some p \<Rightarrow> length (sp_ids p) = length ts)"

definition lbInv :: "loadBalancer \<Rightarrow> bool" where
  "lbInv lb \<longleftrightarrow> poolOK False (lb_all lb) (lb_writers lb) \<and> poolOK True (lb_all lb) (lb_readers lb)
     \<and> pinnerOK (lb_all lb) (lb_sessionAffinity lb)"

text \<open>The invariant reads the targets only through their number and what never changes of a target.\<close>

definition targetIdentity :: "target \<Rightarrow> string \<times> int \<times> bool" where
  "targetIdentity t = (tg_address t, tg_weight t, tg_readonly t)"

lemma targetIdentity_update [simp]:
  "targetIdentity (t\<lparr>tg_state := st\<rparr>) = targetIdentity t" "targetIdentity (t\<lparr>tg_currentWeight := w\<rparr>) = targetIdentity t"
  "targetIdentity (t\<lparr>tg_inflight := q\<rparr>) = targetIdentity t" "targetIdentity (t\<lparr>tg_probing := b\<rparr>) = targetIdentity t"
  by (simp_all add: targetIdentity_def)

definition roles :: "target list \<Rightarrow> (string \<times> int \<times> bool) list" where
  "roles ts = map targetIdentity ts"

lemma roles_length: "roles ts' = roles ts \<Longrightarrow> length ts' = length ts"
  unfolding roles_def by (metis length_map)

lemma roles_nth: "roles ts' = roles ts \<Longrightarrow> i < length ts \<Longrightarrow> tg_readonly (ts' ! i) = tg_readonly (ts ! i)"
  by (metis roles_def roles_length nth_map targetIdentity_def prod.inject)

lemma roles_nth_identity: "roles ts' = roles ts \<Longrightarrow> i < length ts \<Longrightarrow> targetIdentity (ts' ! i) = targetIdentity (ts ! i)"
  by (metis roles_def roles_length nth_map)

lemma poolOK_roles: "roles ts' = roles ts \<Longrightarrow> poolOK ro ts' pool = poolOK ro ts pool"
  unfolding poolOK_def list_all_iff using roles_length[of ts' ts] roles_nth[of ts' ts] by auto

lemma roles_ops [simp]:
  "roles (stopAllHealthChecks ts) = roles ts" "roles (beginAllHealthChecks ts) = roles ts"
  "roles (map (updateState st) ts) = roles ts"
  by (simp_all add: roles_def stopAllHealthChecks_def stopHealthChecks_def beginAllHealthChecks_def
      beginHealthChecks_def updateState_def targetIdentity_def)

lemma roles_update: "targetIdentity t = targetIdentity (ts ! i) \<Longrightarrow> roles (ts[i := t]) = roles ts"
  by (cases "i < length ts") (simp_all add: roles_def map_update list_update_same_conv list_update_beyond)

lemma pinnerOK_roles: "roles ts' = roles ts \<Longrightarrow> pinnerOK ts' a = pinnerOK ts a"
  by (auto simp: pinnerOK_def dest: roles_length split: option.splits)

lemma lbInv_roles:
  assumes "roles (lb_all lb) = roles ts" and "poolOK False ts (lb_writers lb)"
    and "poolOK True ts (lb_readers lb)" and "pinnerOK ts (lb_sessionAffinity lb)"
  shows "lbInv lb"
  using assms(2-4) poolOK_roles[OF assms(1)] pinnerOK_roles[OF assms(1)] by (simp add: lbInv_def)

lemma lbInv_retarget:
  "lbInv lb \<Longrightarrow> roles (lb_all lb') = roles (lb_all lb) \<Longrightarrow> lb_writers lb' = lb_writers lb \<Longrightarrow>
   lb_readers lb' = lb_readers lb \<Longrightarrow> lb_sessionAffinity lb' = lb_sessionAffinity lb \<Longrightarrow> lbInv lb'"
  by (rule lbInv_roles[of _ "lb_all lb"]) (simp_all add: lbInv_def)

lemma poolOK_Nil [simp]: "poolOK ro ts []"
  by (simp add: poolOK_def)

lemma poolOK_healthy: "poolOK ro ts (healthyPositions ro ts)"
  by (simp add: poolOK_def healthyPositions_def list_all_iff)

lemma lbInv_newLoadBalancer: "lbInv (newLoadBalancer ts d w)"
  by (simp add: lbInv_def newLoadBalancer_def pinnerOK_def)

lemma lbInv_withSessionAffinity: "lbInv lb \<Longrightarrow> lbInv (withSessionAffinity digest lb enabled name)"
  by (simp add: lbInv_def withSessionAffinity_def newSessionPinner_def pinnerOK_def)

lemma lbInv_withRetryPolicy: "lbInv lb \<Longrightarrow> lbInv (withRetryPolicy lb p)"
  by (erule lbInv_retarget) (simp_all add: withRetryPolicy_def)

lemma lbInv_updateHealthyTargets: "lbInv lb \<Longrightarrow> lbInv (updateHealthyTargets lb)"
  by (rule lbInv_roles[of _ "lb_all lb"])
    (simp_all add: updateHealthyTargets_def Let_def poolOK_healthy lbInv_def)

lemma lbInv_markAllHealthy: "lbInv lb \<Longrightarrow> lbInv (markAllHealthy lb)"
  unfolding markAllHealthy_def by (rule lbInv_updateHealthyTargets) (auto elim: lbInv_retarget)

lemma lbInv_recheckHealth: "lbInv lb \<Longrightarrow> lbInv (recheckHealth lb)"
  by (erule lbInv_retarget) (simp_all add: recheckHealth_def)

lemma lbInv_suspendForSleep: "lbInv lb \<Longrightarrow> lbInv (suspendForSleep lb)"
  by (rule lbInv_roles[of _ "lb_all lb"]) (simp_all add: suspendForSleep_def lbInv_def)

lemma lbInv_resumeFromSleep: "lbInv lb \<Longrightarrow> lbInv (resumeFromSleep lb)"
  by (erule lbInv_retarget) (simp_all add: resumeFromSleep_def)

lemma lbInv_lbDispose: "lbInv lb \<Longrightarrow> lbInv (lbDispose lb)"
  by (erule lbInv_retarget) (simp_all add: lbDispose_def)

lemma lbInv_probeCompleted:
  assumes "lbInv lb"
  shows "lbInv (probeCompleted i ok lb)"
proof (cases "i < length (lb_all lb)")
  case True
  let ?lb' = "lb\<lparr>lb_all := (lb_all lb)[i := fst (healthCheckCompleted ok (lb_all lb ! i))]\<rparr>"
  have "lbInv ?lb'"
    by (rule lbInv_retarget[OF assms]) (simp_all add: roles_update healthCheckCompleted_def Let_def)
  then show ?thesis
    using True lbInv_updateHealthyTargets[of ?lb'] by (simp add: probeCompleted_def case_prod_beta Let_def)
qed (simp add: probeCompleted_def assms)

subsection \<open>Rotation\<close>

lemma nextWeighted_shape:
  assumes "nextWeighted ts = (ts', chosen)"
  shows "length ts' = length ts" and "roles ts' = roles ts"
    and "ts \<noteq> [] \<Longrightarrow> \<exists>j < length ts. chosen = Some j"
proof -
  obtain ch tot where loop: "nextWeightedLoop ts 0 None 0 = (map addWeight ts, ch, tot)"
    by (metis nextWeightedLoop_targets prod.collapse)
  have r: "roles (map addWeight ts) = roles ts" by (simp add: roles_def addWeight_def)
  show l: "length ts' = length ts" and "roles ts' = roles ts"
    using assms loop r by (auto simp: nextWeighted_def roles_update split: option.splits)
  show "\<exists>j < length ts. chosen = Some j" if "ts \<noteq> []"
  proof (rule nextWeighted_step[OF that])
    fix us j
    assume "nextWeighted ts = (us, Some j)" and "j < length ts"
    then show ?thesis using assms by simp
  qed
qed

lemma roles_fold_update:
  assumes "\<And>i t. (i, t) \<in> set ups \<Longrightarrow> i < length ts \<and> targetIdentity t = targetIdentity (ts ! i)"
  shows "roles (fold (\<lambda>(i, t) ts. ts[i := t]) ups ts) = roles ts"
  using assms
proof (induction ups arbitrary: ts)
  case (Cons u ups)
  obtain i t where u: "u = (i, t)" by fastforce
  have r: "roles (ts[i := t]) = roles ts" using Cons.prems[of i t] u by (simp add: roles_update)
  have "roles (fold (\<lambda>(i, t) ts. ts[i := t]) ups (ts[i := t])) = roles (ts[i := t])"
  proof (rule Cons.IH)
    fix j v assume "(j, v) \<in> set ups"
    then have "j < length ts \<and> targetIdentity v = targetIdentity (ts ! j)" using Cons.prems[of j v] by simp
    then show "j < length (ts[i := t]) \<and> targetIdentity v = targetIdentity (ts[i := t] ! j)"
      using roles_nth_identity[OF r, of j] by simp
  qed
  with r u show ?case by simp
qed simp

lemma turn_shape:
  assumes "poolOK ro ts pool" and "pool \<noteq> []" and "turn weighted pool index ts = (ts', index', chosen)"
  shows "roles ts' = roles ts" and "\<exists>i \<in> set pool. chosen = Some i"
proof -
  have "roles ts' = roles ts \<and> (\<exists>i \<in> set pool. chosen = Some i)"
  proof (cases weighted)
    case True
    obtain moved c where m: "nextWeighted (map ((!) ts) pool) = (moved, c)" by fastforce
    note shape = nextWeighted_shape[OF m]
    have "targetIdentity (moved ! k) = targetIdentity (ts ! (pool ! k))" if "k < length pool" for k
      using roles_nth_identity[OF shape(2), of k] that by simp
    then have "roles (fold (\<lambda>(i, t) ts. ts[i := t]) (zip pool moved) ts) = roles ts"
      using assms(1) shape(1)
      by (intro roles_fold_update) (auto simp: set_zip poolOK_def list_all_length)
    then show ?thesis
      using assms(2,3) True m shape(3) by (auto simp: turn_def)
  next
    case False
    then show ?thesis using assms(2,3) by (auto simp: turn_def Let_def)
  qed
  then show "roles ts' = roles ts" and "\<exists>i \<in> set pool. chosen = Some i" by simp_all
qed

lemma nextTarget_shape:
  assumes "lbInv lb" and "nextTarget lb reader = (lb', chosen)"
  shows "roles (lb_all lb') = roles (lb_all lb)" and "lb_writers lb' = lb_writers lb"
    and "lb_readers lb' = lb_readers lb" and "lb_sessionAffinity lb' = lb_sessionAffinity lb"
    and "if reader \<and> lb_readers lb \<noteq> [] then \<exists>i \<in> set (lb_readers lb). chosen = Some i
         else if lb_writers lb \<noteq> [] then \<exists>i \<in> set (lb_writers lb). chosen = Some i
         else chosen = None"
proof -
  obtain ts index c where w: "turn (lb_weighted lb) (lb_writers lb) (lb_writerIndex lb) (lb_all lb) = (ts, index, c)"
    by (metis prod_cases3)
  obtain us jndex d where r: "turn (lb_weighted lb) (lb_readers lb) (lb_readerIndex lb) (lb_all lb) = (us, jndex, d)"
    by (metis prod_cases3)
  have pools: "poolOK False (lb_all lb) (lb_writers lb)" "poolOK True (lb_all lb) (lb_readers lb)"
    using assms(1) by (simp_all add: lbInv_def)
  note ws = turn_shape[OF pools(1) _ w] and rs = turn_shape[OF pools(2) _ r]
  show "roles (lb_all lb') = roles (lb_all lb)" "lb_writers lb' = lb_writers lb"
    "lb_readers lb' = lb_readers lb" "lb_sessionAffinity lb' = lb_sessionAffinity lb"
    using assms(2) ws(1) rs(1) by (auto simp: nextTarget_def w r split: if_splits)
  show "if reader \<and> lb_readers lb \<noteq> [] then \<exists>i \<in> set (lb_readers lb). chosen = Some i
         else if lb_writers lb \<noteq> [] then \<exists>i \<in> set (lb_writers lb). chosen = Some i
         else chosen = None"
    using assms(2) ws(2) rs(2) by (auto simp: nextTarget_def w r split: if_splits)
qed

lemma pinnedTarget_writer: "pinnedTarget lb r reader = Some i \<Longrightarrow> i \<in> set (lb_writers lb)"
  by (auto simp: pinnedTarget_def dest: find_in_set split: option.splits if_splits)

lemma startRequest_keeps:
  "startRequest rid t = Inr t' \<Longrightarrow> tg_readonly t' = tg_readonly t \<and> tg_state t' = tg_state t
     \<and> tg_state t \<noteq> TargetStateDraining \<and> rid \<in> inflightIds t'"
  by (auto simp: startRequest_def inflightIds_def keys_AList_update split: if_splits)

text \<open>What a request is given before the target is asked to admit it.\<close>

definition chooseTarget :: "loadBalancer \<Rightarrow> request \<Rightarrow> bool \<Rightarrow> loadBalancer \<times> nat option" where
  "chooseTarget lb r reader =
     (case pinnedTarget lb r reader of Some i \<Rightarrow> (lb, Some i) | None \<Rightarrow> nextTarget lb reader)"

lemma chooseTarget_shape:
  assumes "lbInv lb" and "chooseTarget lb r reader = (lb', chosen)"
  shows "roles (lb_all lb') = roles (lb_all lb)" and "lb_writers lb' = lb_writers lb"
    and "lb_readers lb' = lb_readers lb" and "lb_sessionAffinity lb' = lb_sessionAffinity lb"
    and "chosen = None \<longleftrightarrow> lb_writers lb = [] \<and> (reader \<longrightarrow> lb_readers lb = [])"
    and "chosen = Some i \<Longrightarrow> i \<in> set (lb_writers lb) \<or> reader \<and> i \<in> set (lb_readers lb)"
proof -
  note shape = nextTarget_shape[OF assms(1), of reader]
  show "roles (lb_all lb') = roles (lb_all lb)" "lb_writers lb' = lb_writers lb"
    "lb_readers lb' = lb_readers lb" "lb_sessionAffinity lb' = lb_sessionAffinity lb"
    using assms(2) shape(1-4) by (auto simp: chooseTarget_def split: option.splits)
  show "chosen = None \<longleftrightarrow> lb_writers lb = [] \<and> (reader \<longrightarrow> lb_readers lb = [])"
  proof (cases "pinnedTarget lb r reader")
    case None
    then show ?thesis using assms(2) shape(5)[of lb' chosen] by (auto simp: chooseTarget_def split: if_splits)
  next
    case (Some j)
    then show ?thesis using assms(2) pinnedTarget_writer[OF Some] by (auto simp: chooseTarget_def)
  qed
  show "i \<in> set (lb_writers lb) \<or> reader \<and> i \<in> set (lb_readers lb)" if "chosen = Some i"
  proof (cases "pinnedTarget lb r reader")
    case None
    then show ?thesis using assms(2) that shape(5)[of lb' chosen] by (auto simp: chooseTarget_def split: if_splits)
  next
    case (Some j)
    then show ?thesis using assms(2) that pinnedTarget_writer[OF Some] by (auto simp: chooseTarget_def)
  qed
qed

lemma claimTarget_choose:
  "claimTarget now rid lb r =
     (case chooseTarget lb r (isReadRequest lb r \<and> \<not> hasWriteCookie now r) of
        (lb', None) \<Rightarrow> (lb', Inl NoHealthyTargets)
      | (lb', Some i) \<Rightarrow>
          (case startRequest rid (lb_all lb' ! i) of
             Inl _ \<Rightarrow> (lb', Inl ClaimedDraining)
           | Inr t \<Rightarrow> (lb'\<lparr>lb_all := (lb_all lb')[i := t]\<rparr>, Inr (i, isReadRequest lb r))))"
  by (simp add: claimTarget_def chooseTarget_def Let_def)

lemma startRequest_identity: "startRequest rid t = Inr t' \<Longrightarrow> targetIdentity t' = targetIdentity t"
  by (auto simp: startRequest_def split: if_split_asm)

lemma claimTarget_shape:
  assumes "lbInv lb" and "claimTarget now rid lb r = (lb', res)"
  shows "roles (lb_all lb') = roles (lb_all lb)" and "lb_writers lb' = lb_writers lb"
    and "lb_readers lb' = lb_readers lb" and "lb_sessionAffinity lb' = lb_sessionAffinity lb"
proof -
  obtain lb1 ch where c: "chooseTarget lb r (isReadRequest lb r \<and> \<not> hasWriteCookie now r) = (lb1, ch)"
    by fastforce
  note shape = chooseTarget_shape[OF assms(1) c]
  have "lb' = lb1 \<or> (\<exists>i t. startRequest rid (lb_all lb1 ! i) = Inr t \<and> lb' = lb1\<lparr>lb_all := (lb_all lb1)[i := t]\<rparr>)"
    using assms(2) by (auto simp: claimTarget_choose c split: option.splits sum.splits)
  then show "roles (lb_all lb') = roles (lb_all lb)" "lb_writers lb' = lb_writers lb"
    "lb_readers lb' = lb_readers lb" "lb_sessionAffinity lb' = lb_sessionAffinity lb"
    using shape(1-4) startRequest_identity by (auto simp: roles_update)
qed

lemma lbInv_claimTarget: "lbInv lb \<Longrightarrow> claimTarget now rid lb r = (lb', res) \<Longrightarrow> lbInv lb'"
  by (metis lbInv_retarget claimTarget_shape)

section \<open>Writes stay on writers\<close>

text \<open>C10: Every request the load balancer places goes to a target of the pool that admits it, and
  a target that is read-only only ever gets a GET or HEAD whose client holds no live writer
  cookie (and that is no WebSocket, unless those were allowed on readers). The pools stay
  well-formed, and a request is refused for want of a target exactly when the pools it may
  use are empty.\<close>

theorem claimTarget_sound:
  assumes "lbInv lb" and "claimTarget now rid lb r = (lb', res)"
  shows "lbInv lb' \<and>
    (case res of
       Inl NoHealthyTargets \<Rightarrow> lb_writers lb = [] \<and> (isReadRequest lb r \<and> \<not> hasWriteCookie now r \<longrightarrow> lb_readers lb = [])
     | Inl ClaimedDraining \<Rightarrow> healthyTargets lb \<noteq> []
     | Inr (i, readRequest) \<Rightarrow>
         i \<in> set (healthyTargets lb) \<and> rid \<in> inflightIds (lb_all lb' ! i)
         \<and> tg_state (lb_all lb' ! i) \<noteq> TargetStateDraining \<and> readRequest = isReadRequest lb r
         \<and> (tg_readonly (lb_all lb' ! i) \<longrightarrow> isReadRequest lb r \<and> \<not> hasWriteCookie now r))"
proof -
  let ?reader = "isReadRequest lb r \<and> \<not> hasWriteCookie now r"
  obtain lb1 ch where c: "chooseTarget lb r ?reader = (lb1, ch)" by fastforce
  note shape = chooseTarget_shape[OF assms(1) c]
  have inv: "lbInv lb'" using lbInv_claimTarget[OF assms] .
  show ?thesis
  proof (cases ch)
    case None
    then show ?thesis using inv assms(2) c shape(5) by (auto simp: claimTarget_choose)
  next
    case (Some i)
    note pool = shape(6)[OF Some]
    have i: "i \<in> set (healthyTargets lb)" and len: "i < length (lb_all lb1)"
      and role: "tg_readonly (lb_all lb1 ! i) \<longrightarrow> ?reader"
      using pool assms(1) roles_nth[OF shape(1), of i] roles_length[OF shape(1)]
      by (auto simp: healthyTargets_def lbInv_def poolOK_def list_all_iff)
    show ?thesis
    proof (cases "startRequest rid (lb_all lb1 ! i)")
      case (Inl e)
      then show ?thesis using inv assms(2) c Some i by (auto simp: claimTarget_choose)
    next
      case (Inr t)
      then show ?thesis
        using inv assms(2) c Some i len role startRequest_keeps[OF Inr] by (auto simp: claimTarget_choose)
    qed
  qed
qed

definition examplePoolLB :: loadBalancer where
  "examplePoolLB = markAllHealthy (newLoadBalancer
     [exampleTarget\<lparr>tg_weight := 1\<rparr>, exampleTarget\<lparr>tg_address := ''web-2'', tg_weight := 1\<rparr>,
      exampleTarget\<lparr>tg_address := ''replica'', tg_weight := 1, tg_readonly := True\<rparr>] 0 False)"

lemma lbInv_examplePoolLB: "lbInv examplePoolLB"
  unfolding examplePoolLB_def by (intro lbInv_markAllHealthy lbInv_newLoadBalancer)

theorem claimTarget_sound_witness:
  "snd (claimTarget 0 7 examplePoolLB (emptyRequest\<lparr>req_method := ''POST''\<rparr>)) = Inr (1, False)
   \<and> \<not> tg_readonly (lb_all (fst (claimTarget 0 7 examplePoolLB (emptyRequest\<lparr>req_method := ''POST''\<rparr>))) ! 1)
   \<and> snd (claimTarget 0 7 examplePoolLB emptyRequest) = Inr (2, True)"
proof -
  let ?r = "emptyRequest\<lparr>req_method := ''POST''\<rparr>"
  have placed: "snd (claimTarget 0 7 examplePoolLB ?r) = Inr (1, False)" by code_simp
  have "\<not> isReadRequest examplePoolLB ?r" by code_simp
  moreover have "snd (claimTarget 0 7 examplePoolLB emptyRequest) = Inr (2, True)" by code_simp
  ultimately show ?thesis
    using claimTarget_sound[OF lbInv_examplePoolLB, of 0 7 ?r "fst (claimTarget 0 7 examplePoolLB ?r)" "Inr (1, False)"] placed
    by (simp add: prod_eq_iff)
qed

section \<open>Plain rotation is fair\<close>

fun lbTurns :: "nat \<Rightarrow> bool \<Rightarrow> loadBalancer \<Rightarrow> loadBalancer \<times> nat list" where
  "lbTurns 0 reader lb = (lb, [])"
| "lbTurns (Suc k) reader lb =
     (case nextTarget lb reader of
        (lb', chosen) \<Rightarrow> (case lbTurns k reader lb' of
           (lb'', js) \<Rightarrow> (lb'', (case chosen of None \<Rightarrow> js | Some j \<Rightarrow> j # js))))"

lemma lbTurns_writers:
  assumes "\<not> lb_weighted lb" and "lb_writers lb \<noteq> []"
  shows "lbTurns k False lb =
     (lb\<lparr>lb_writerIndex := (if k = 0 then lb_writerIndex lb else (lb_writerIndex lb + k) mod length (lb_writers lb))\<rparr>,
      map (\<lambda>i. lb_writers lb ! ((lb_writerIndex lb + Suc i) mod length (lb_writers lb))) [0..<k])"
  using assms
proof (induction k arbitrary: lb)
  case (Suc k)
  let ?n = "length (lb_writers lb)"
  let ?lb = "lb\<lparr>lb_writerIndex := (lb_writerIndex lb + 1) mod ?n\<rparr>"
  have nxt: "nextTarget lb False = (?lb, Some (lb_writers lb ! ((lb_writerIndex lb + 1) mod ?n)))"
    using Suc.prems by (simp add: nextTarget_def turn_def Let_def)
  have k: "(Suc (lb_writerIndex lb) mod ?n + i) mod ?n = Suc (lb_writerIndex lb + i) mod ?n" for i
    by (simp add: mod_add_left_eq)
  have step: "Suc (Suc (lb_writerIndex lb) mod ?n + i) mod ?n = Suc (Suc (lb_writerIndex lb + i)) mod ?n" for i
    using k[of "Suc i"] by simp
  have split: "[0..<Suc k] = 0 # map Suc [0..<k]"
    by (simp only: upt_conv_Cons map_Suc_upt)
  show ?case
    using Suc.IH[of ?lb] Suc.prems unfolding split by (simp add: nxt step k comp_def)
qed simp

text \<open>Without weights, as many consecutive turns as there are healthy writers give each of
  them exactly one request: the turns run through the pool in order, from the position after
  the last one used, and bring the rotation back to where it was.\<close>

theorem rotation_serves_each_once:
  assumes "\<not> lb_weighted lb" and "lb_writers lb \<noteq> []" and "lb_writerIndex lb < length (lb_writers lb)"
  shows "lbTurns (length (lb_writers lb)) False lb = (lb, List.rotate (Suc (lb_writerIndex lb)) (lb_writers lb))"
proof -
  let ?ws = "lb_writers lb"
  have "List.rotate (Suc (lb_writerIndex lb)) ?ws =
      map (\<lambda>i. ?ws ! ((lb_writerIndex lb + Suc i) mod length ?ws)) [0..<length ?ws]"
    by (rule nth_equalityI) (simp_all add: nth_rotate del: rotate_Suc)
  then show ?thesis
    using assms lbTurns_writers[OF assms(1,2), of "length ?ws"] by simp
qed

theorem rotation_serves_each_once_witness:
  "lbTurns 2 False examplePoolLB = (examplePoolLB, [1, 0])"
proof -
  have "\<not> lb_weighted examplePoolLB" "lb_writers examplePoolLB = [0, 1]" "lb_writerIndex examplePoolLB = 0"
    by code_simp+
  then show ?thesis using rotation_serves_each_once[of examplePoolLB] by (simp add: numeral_2_eq_2)
qed

section \<open>Session pins\<close>

lemma newSessionPinner_ids:
  "i < length ts \<Longrightarrow> sp_ids (newSessionPinner digest name ts) ! i = digest (tg_address (ts ! i))"
  by (simp add: newSessionPinner_def)

lemma pin_unique:
  assumes "distinct (map tg_address ts)" and "inj_on digest (set (map tg_address ts))"
    and "i < length ts" and "j < length ts"
    and "digest (tg_address (ts ! i)) = digest (tg_address (ts ! j))"
  shows "i = j"
proof -
  have "tg_address (ts ! i) = tg_address (ts ! j)"
    using assms(2-5) by (auto dest: inj_onD)
  then show ?thesis using assms(1,3,4) by (simp add: distinct_conv_nth) (metis nth_map)
qed

text \<open>A session pin brings the client back. Let the load balancer answer a request with a pin
  for target \<open>i\<close>; a later request that carries it, while \<open>i\<close> is still a healthy writer, is placed
  on \<open>i\<close> again and does not advance the rotation, unless it is a read that a replica can serve or
  a retry that gave up on the pin. The identifiers are a keyed digest of the addresses; the
  hypothesis is that it does not confuse two of them.\<close>

theorem session_pin_returns:
  assumes "lbInv lb" and "lb_sessionAffinity lb = Some (newSessionPinner digest name ts)"
    and "length ts = length (lb_all lb)"
    and "distinct (map tg_address ts)" and "inj_on digest (set (map tg_address ts))"
    and "cookieFor (newSessionPinner digest name ts) r i = Some ck" and "i \<in> set (lb_writers lb)"
    and "cookie r' (ck_name ck) = Some (ck_value ck)" and "\<not> req_ignore_pin r'"
    and "lb_readers lb = [] \<or> \<not> isReadRequest lb r' \<or> hasWriteCookie now r'"
    and "tg_state (lb_all lb ! i) \<noteq> TargetStateDraining"
  shows "\<exists>t. startRequest rid (lb_all lb ! i) = Inr t
     \<and> claimTarget now rid lb r' = (lb\<lparr>lb_all := (lb_all lb)[i := t]\<rparr>, Inr (i, isReadRequest lb r'))"
proof -
  let ?p = "newSessionPinner digest name ts"
  have ck: "ck_name ck = sp_cookieName ?p" "ck_value ck = sp_ids ?p ! i" "sp_ids ?p ! i \<noteq> []"
    using assms(6) by (auto simp: cookieFor_def Let_def split: if_splits)
  then have pid: "pinnedID ?p r' = sp_ids ?p ! i" using assms(8) by (simp add: pinnedID_def)
  have valid: "j < length ts" if "j \<in> set (lb_writers lb)" for j
    using that assms(1,3) by (auto simp: lbInv_def poolOK_def list_all_iff)
  have same: "j = i" if "j \<in> set (lb_writers lb)" "sp_ids ?p ! j = sp_ids ?p ! i" for j
    using that valid assms(7) pin_unique[OF assms(4,5)] by (simp add: newSessionPinner_ids)
  obtain j where j: "find (\<lambda>j. sp_ids ?p ! j = sp_ids ?p ! i) (lb_writers lb) = Some j"
    using assms(7) by (metis (mono_tags, lifting) find_None_iff option.exhaust)
  with find_in_set[OF j] same have "find (\<lambda>j. sp_ids ?p ! j = sp_ids ?p ! i) (lb_writers lb) = Some i" by simp
  then have "pinnedTarget lb r' (isReadRequest lb r' \<and> \<not> hasWriteCookie now r') = Some i"
    using assms(2,9,10) ck(3) pid by (auto simp: pinnedTarget_def)
  then have "chooseTarget lb r' (isReadRequest lb r' \<and> \<not> hasWriteCookie now r') = (lb, Some i)"
    by (simp add: chooseTarget_def)
  then show ?thesis using assms(11) by (auto simp: claimTarget_choose startRequest_def)
qed

definition examplePinned :: loadBalancer where
  "examplePinned = withSessionAffinity (\<lambda>a. CHR ''#'' # a) examplePoolLB True []"

theorem session_pin_returns_witness:
  "snd (claimTarget 0 7 examplePinned (emptyRequest\<lparr>req_method := ''POST'', req_cookies := [(''kamal-session'', ''#web-1:3000'')]\<rparr>))
     = Inr (0, False)"
proof -
  let ?d = "\<lambda>a. CHR ''#'' # a" and ?ts = "lb_all examplePoolLB"
  let ?r = "emptyRequest\<lparr>req_method := ''POST'', req_cookies := [(''kamal-session'', ''#web-1:3000'')]\<rparr>"
  let ?ck = "\<lparr>ck_name = ''kamal-session'', ck_value = ''#web-1:3000'', ck_path = ''/'', ck_httpOnly = True,
              ck_secure = False, ck_expires = None\<rparr>"
  have "lbInv examplePinned"
    unfolding examplePinned_def by (intro lbInv_withSessionAffinity lbInv_examplePoolLB)
  moreover have "lb_sessionAffinity examplePinned = Some (newSessionPinner ?d [] ?ts)" "length ?ts = length (lb_all examplePinned)"
    by (simp_all add: examplePinned_def withSessionAffinity_def)
  moreover have "distinct (map tg_address ?ts)" by code_simp
  moreover have "inj_on ?d (set (map tg_address ?ts))" by (simp add: inj_on_def)
  moreover have "cookieFor (newSessionPinner ?d [] ?ts) emptyRequest 0 = Some ?ck" by code_simp
  moreover have "0 \<in> set (lb_writers examplePinned)"
  proof -
    have "lb_writers examplePinned = [0, 1]" by code_simp
    then show ?thesis by simp
  qed
  moreover have "cookie ?r (ck_name ?ck) = Some (ck_value ?ck)" "\<not> req_ignore_pin ?r"
    by (simp_all add: cookie_def emptyRequest_def)
  moreover have "\<not> isReadRequest examplePinned ?r" by code_simp
  moreover have "tg_state (lb_all examplePinned ! 0) \<noteq> TargetStateDraining" by code_simp
  ultimately show ?thesis
    using session_pin_returns[of examplePinned ?d "[]" ?ts emptyRequest 0 ?ck ?r 0 7] by auto
qed

section \<open>A woken pool waits for every target\<close>

text \<open>What happens to a load balancer between two operations of its owner: probes report and
  requests are placed.\<close>

datatype lbEvent = Probed nat bool | Placed time nat request

fun lbStep :: "lbEvent \<Rightarrow> loadBalancer \<Rightarrow> loadBalancer" where
  "lbStep (Probed i ok) lb = probeCompleted i ok lb"
| "lbStep (Placed now rid r) lb = fst (claimTarget now rid lb r)"

definition lbRun :: "lbEvent list \<Rightarrow> loadBalancer \<Rightarrow> loadBalancer" where
  "lbRun es lb = fold lbStep es lb"

definition states :: "target list \<Rightarrow> targetState list" where
  "states ts = map tg_state ts"

lemma states_update: "tg_state t = tg_state (ts ! i) \<Longrightarrow> states (ts[i := t]) = states ts"
  by (cases "i < length ts") (simp_all add: states_def map_update list_update_same_conv list_update_beyond)

lemma nextWeighted_states: "states (fst (nextWeighted ts)) = states ts"
proof -
  obtain ch tot where loop: "nextWeightedLoop ts 0 None 0 = (map addWeight ts, ch, tot)"
    by (metis nextWeightedLoop_targets prod.collapse)
  have "states (map addWeight ts) = states ts" by (simp add: states_def addWeight_def)
  then show ?thesis by (auto simp: nextWeighted_def loop states_update split: option.splits)
qed

lemma states_fold_update:
  assumes "\<And>i t. (i, t) \<in> set ups \<Longrightarrow> i < length ts \<and> tg_state t = tg_state (ts ! i)"
  shows "states (fold (\<lambda>(i, t) ts. ts[i := t]) ups ts) = states ts"
  using assms
proof (induction ups arbitrary: ts)
  case (Cons u ups)
  obtain i t where u: "u = (i, t)" by fastforce
  have r: "states (ts[i := t]) = states ts" using Cons.prems[of i t] u by (simp add: states_update)
  have "states (fold (\<lambda>(i, t) ts. ts[i := t]) ups (ts[i := t])) = states (ts[i := t])"
  proof (rule Cons.IH)
    fix j v assume "(j, v) \<in> set ups"
    then have "j < length ts \<and> tg_state v = tg_state (ts ! j)" using Cons.prems[of j v] by simp
    then show "j < length (ts[i := t]) \<and> tg_state v = tg_state (ts[i := t] ! j)"
      using Cons.prems[of i t] u by (cases "i = j") auto
  qed
  with r u show ?case by simp
qed simp

lemma turn_states:
  assumes "poolOK ro ts pool" and "pool \<noteq> []"
  shows "states (fst (turn weighted pool index ts)) = states ts"
proof (cases weighted)
  case True
  obtain moved c where m: "nextWeighted (map ((!) ts) pool) = (moved, c)" by fastforce
  note shape = nextWeighted_shape[OF m]
  have st: "states moved = states (map ((!) ts) pool)" using nextWeighted_states[of "map ((!) ts) pool"] m by simp
  have "tg_state (moved ! k) = tg_state (ts ! (pool ! k))" if "k < length pool" for k
  proof -
    have "states moved ! k = states (map ((!) ts) pool) ! k" using st by simp
    then show ?thesis using that shape(1) by (simp add: states_def)
  qed
  then show ?thesis
    using assms(1) shape(1) True m unfolding turn_def
    by (auto simp: set_zip poolOK_def list_all_length intro!: states_fold_update)
qed (simp add: turn_def Let_def)

lemma chooseTarget_states:
  assumes "lbInv lb"
  shows "states (lb_all (fst (chooseTarget lb r reader))) = states (lb_all lb)"
    and "lb_healthySignalled (fst (chooseTarget lb r reader)) = lb_healthySignalled lb"
proof -
  have pools: "poolOK False (lb_all lb) (lb_writers lb)" "poolOK True (lb_all lb) (lb_readers lb)"
    using assms by (simp_all add: lbInv_def)
  show "states (lb_all (fst (chooseTarget lb r reader))) = states (lb_all lb)"
    using turn_states[OF pools(1)] turn_states[OF pools(2)]
    by (simp add: chooseTarget_def nextTarget_def case_prod_beta split: option.splits)
  show "lb_healthySignalled (fst (chooseTarget lb r reader)) = lb_healthySignalled lb"
    by (simp add: chooseTarget_def nextTarget_def case_prod_beta split: option.splits)
qed

lemma claimTarget_states:
  assumes "lbInv lb"
  shows "states (lb_all (fst (claimTarget now rid lb r))) = states (lb_all lb)"
    and "lb_healthySignalled (fst (claimTarget now rid lb r)) = lb_healthySignalled lb"
proof -
  let ?c = "chooseTarget lb r (isReadRequest lb r \<and> \<not> hasWriteCookie now r)"
  have cases: "fst (claimTarget now rid lb r) = fst ?c \<or>
     (\<exists>i t. startRequest rid (lb_all (fst ?c) ! i) = Inr t
        \<and> fst (claimTarget now rid lb r) = (fst ?c)\<lparr>lb_all := (lb_all (fst ?c))[i := t]\<rparr>)"
    by (auto simp: claimTarget_choose case_prod_beta split: option.splits sum.splits)
  then show "states (lb_all (fst (claimTarget now rid lb r))) = states (lb_all lb)"
    and "lb_healthySignalled (fst (claimTarget now rid lb r)) = lb_healthySignalled lb"
    using chooseTarget_states[OF assms] startRequest_keeps by (auto simp: states_update)
qed

text \<open>Everything the load balancer believes about a target's health rests on a probe that
  succeeded: the state of the targets, the pools and the signal.\<close>

definition provenHealthy :: "nat set \<Rightarrow> loadBalancer \<Rightarrow> bool" where
  "provenHealthy ok lb \<longleftrightarrow>
     (\<forall>i < length (lb_all lb). tg_state (lb_all lb ! i) = TargetStateHealthy \<longrightarrow> i \<in> ok)
     \<and> set (healthyTargets lb) \<subseteq> ok
     \<and> (lb_healthySignalled lb \<longrightarrow> {0..<length (lb_all lb)} \<subseteq> ok)"

lemma filter_length_all: "length (filter P xs) = length xs \<longleftrightarrow> (\<forall>x \<in> set xs. P x)"
proof
  assume "length (filter P xs) = length xs"
  then show "\<forall>x \<in> set xs. P x"
    by (induction xs) (auto split: if_splits, metis Suc_n_not_le_n length_filter_le)
qed simp

lemma healthyPositions_count:
  "length (healthyPositions False ts) + length (healthyPositions True ts) = length ts \<longleftrightarrow>
     (\<forall>i < length ts. tg_state (ts ! i) = TargetStateHealthy)"
proof -
  let ?H = "\<lambda>i. tg_state (ts ! i) = TargetStateHealthy"
  have "length (healthyPositions False ts) + length (healthyPositions True ts) = length (filter ?H [0..<length ts])"
  proof -
    have "length (filter ?H xs) = length (filter (\<lambda>i. ?H i \<and> tg_readonly (ts ! i) = False) xs)
        + length (filter (\<lambda>i. ?H i \<and> tg_readonly (ts ! i) = True) xs)" for xs
      by (induction xs) auto
    then show ?thesis by (simp add: healthyPositions_def)
  qed
  moreover have "length (filter ?H [0..<length ts]) = length ts \<longleftrightarrow> (\<forall>i < length ts. ?H i)"
    using filter_length_all[of ?H "[0..<length ts]"] by auto
  ultimately show ?thesis by simp
qed

lemma provenHealthy_updateHealthyTargets:
  assumes "\<And>i. i < length (lb_all lb) \<Longrightarrow> tg_state (lb_all lb ! i) = TargetStateHealthy \<Longrightarrow> i \<in> ok"
    and "lb_healthySignalled lb \<Longrightarrow> {0..<length (lb_all lb)} \<subseteq> ok"
  shows "provenHealthy ok (updateHealthyTargets lb)"
proof -
  let ?lb = "updateHealthyTargets lb"
  have same: "length (lb_all ?lb) = length (lb_all lb)"
    "\<And>i. i < length (lb_all lb) \<Longrightarrow> tg_state (lb_all ?lb ! i) = tg_state (lb_all lb ! i)"
    by (simp_all add: updateHealthyTargets_def Let_def stopAllHealthChecks_def stopHealthChecks_def)
  have pools: "set (healthyTargets ?lb) \<subseteq> ok"
    using assms(1) by (auto simp: healthyTargets_def updateHealthyTargets_def Let_def healthyPositions_def)
  have "lb_healthySignalled ?lb \<longleftrightarrow>
      (\<forall>i < length (lb_all lb). tg_state (lb_all lb ! i) = TargetStateHealthy) \<or> lb_healthySignalled lb"
    by (auto simp: updateHealthyTargets_def Let_def healthyPositions_count)
  then have "lb_healthySignalled ?lb \<Longrightarrow> {0..<length (lb_all lb)} \<subseteq> ok"
    using assms by auto
  with same pools assms(1) show ?thesis by (simp add: provenHealthy_def)
qed

lemma provenHealthy_mono: "provenHealthy ok lb \<Longrightarrow> ok \<subseteq> ok' \<Longrightarrow> provenHealthy ok' lb"
  by (auto simp: provenHealthy_def)

lemma provenHealthy_probeCompleted:
  assumes "provenHealthy ok lb"
  shows "provenHealthy (if success then insert i ok else ok) (probeCompleted i success lb)"
proof (cases "i < length (lb_all lb)")
  case True
  let ?ok = "if success then insert i ok else ok"
  let ?h = "healthCheckCompleted success (lb_all lb ! i)"
  let ?lb = "lb\<lparr>lb_all := (lb_all lb)[i := fst ?h]\<rparr>"
  have proven: "j \<in> ?ok" if "j < length (lb_all ?lb)" "tg_state (lb_all ?lb ! j) = TargetStateHealthy" for j
    using that assms True
    by (cases "j = i") (auto simp: provenHealthy_def healthCheckCompleted_def Let_def split: if_splits)
  have signal: "{0..<length (lb_all ?lb)} \<subseteq> ?ok" if "lb_healthySignalled ?lb"
    using that assms by (auto simp: provenHealthy_def)
  have "provenHealthy ?ok ?lb"
    using proven signal assms by (auto simp: provenHealthy_def healthyTargets_def)
  moreover have "provenHealthy ?ok (updateHealthyTargets ?lb)"
    using proven signal by (rule provenHealthy_updateHealthyTargets)
  ultimately show ?thesis using True by (simp add: probeCompleted_def case_prod_beta Let_def)
next
  case False
  then show ?thesis using assms provenHealthy_mono[OF assms, of "insert i ok"] by (auto simp: probeCompleted_def)
qed

lemma provenHealthy_claimTarget:
  assumes "provenHealthy ok lb" and "lbInv lb"
  shows "provenHealthy ok (fst (claimTarget now rid lb r))"
proof -
  let ?lb = "fst (claimTarget now rid lb r)"
  obtain res where c: "claimTarget now rid lb r = (?lb, res)" by (metis prod.collapse)
  note st = claimTarget_states[OF assms(2), of now rid r] and shape = claimTarget_shape[OF assms(2) c]
  have "tg_state (lb_all ?lb ! i) = tg_state (lb_all lb ! i)" if "i < length (lb_all lb)" for i
  proof -
    have "states (lb_all ?lb) ! i = states (lb_all lb) ! i" using st(1) by simp
    then show ?thesis using that roles_length[OF shape(1)] by (simp add: states_def)
  qed
  then show ?thesis
    using assms(1) st(2) shape(2,3) roles_length[OF shape(1)] by (simp add: provenHealthy_def healthyTargets_def)
qed

fun probedOK :: "lbEvent \<Rightarrow> nat option" where
  "probedOK (Probed i True) = Some i"
| "probedOK _ = None"

lemma lbStep_proven:
  assumes "lbInv lb" and "provenHealthy ok lb"
  shows "lbInv (lbStep e lb)" and "provenHealthy (ok \<union> set_option (probedOK e)) (lbStep e lb)"
proof -
  have "lbInv (lbStep e lb) \<and> provenHealthy (ok \<union> set_option (probedOK e)) (lbStep e lb)"
  proof (cases e)
    case (Probed i success)
    then show ?thesis
      using lbInv_probeCompleted[OF assms(1)] provenHealthy_probeCompleted[OF assms(2), of success i]
      by (cases success) simp_all
  next
    case (Placed now rid r)
    then show ?thesis
      using lbInv_claimTarget[OF assms(1)] provenHealthy_claimTarget[OF assms(2,1)] by (auto simp: prod_eq_iff)
  qed
  then show "lbInv (lbStep e lb)" and "provenHealthy (ok \<union> set_option (probedOK e)) (lbStep e lb)" by simp_all
qed

lemma lbRun_proven:
  assumes "lbInv lb" and "provenHealthy ok lb"
  shows "provenHealthy (ok \<union> {i. Probed i True \<in> set es}) (lbRun es lb)"
  using assms
proof (induction es arbitrary: lb ok)
  case (Cons e es)
  have "provenHealthy (ok \<union> set_option (probedOK e) \<union> {i. Probed i True \<in> set es}) (lbRun es (lbStep e lb))"
    using Cons.IH[OF lbStep_proven[OF Cons.prems, of e]] .
  moreover have "set_option (probedOK e) \<union> {i. Probed i True \<in> set es} \<subseteq> {i. Probed i True \<in> set (e # es)}"
    by (cases e rule: probedOK.cases) auto
  ultimately show ?case
    by (auto simp: lbRun_def Un_assoc elim!: provenHealthy_mono)
qed (simp add: lbRun_def)

text \<open>After a nap, nothing is believed healthy on old evidence. Whatever probes report and
  whatever requests arrive after the pool was suspended and resumed, a target is back in the
  pool only if one of those probes of it succeeded, and \<open>WaitUntilHealthy\<close> is released only when
  every target has answered one.\<close>

theorem resumed_pool_is_reprobed:
  fixes es :: "lbEvent list" and lb :: loadBalancer
  assumes "lbInv lb"
  defines "lb' \<equiv> lbRun es (resumeFromSleep (suspendForSleep lb))"
  shows "list_all (\<lambda>i. Probed i True \<in> set es) (healthyTargets lb')
     \<and> (lb_healthySignalled lb' \<longrightarrow> list_all (\<lambda>i. Probed i True \<in> set es) [0..<length (lb_all lb')])"
proof -
  let ?lb = "resumeFromSleep (suspendForSleep lb)"
  have "provenHealthy {} ?lb"
    by (auto simp: provenHealthy_def resumeFromSleep_def suspendForSleep_def healthyTargets_def
        beginAllHealthChecks_def beginHealthChecks_def updateState_def stopAllHealthChecks_def)
  then have "provenHealthy {i. Probed i True \<in> set es} lb'"
    using lbRun_proven[of ?lb "{}" es] lbInv_resumeFromSleep[OF lbInv_suspendForSleep[OF assms(1)]]
    unfolding lb'_def by simp
  then show ?thesis by (auto simp: provenHealthy_def list_all_iff subset_eq)
qed

theorem resumed_pool_is_reprobed_witness:
  "let lb = lbRun [Probed 0 True, Probed 1 False, Placed 0 7 emptyRequest, Probed 2 True] (resumeFromSleep (suspendForSleep examplePoolLB))
   in healthyTargets lb = [0, 2] \<and> \<not> lb_healthySignalled lb
      \<and> list_all (\<lambda>i. Probed i True \<in> set [Probed 0 True, Probed 1 False, Placed 0 7 emptyRequest, Probed 2 True]) (healthyTargets lb)"
proof -
  let ?es = "[Probed 0 True, Probed 1 False, Placed 0 7 emptyRequest, Probed 2 True]"
  let ?lb = "lbRun ?es (resumeFromSleep (suspendForSleep examplePoolLB))"
  have "healthyTargets ?lb = [0, 2]" "\<not> lb_healthySignalled ?lb" by code_simp+
  then show ?thesis using resumed_pool_is_reprobed[OF lbInv_examplePoolLB, of ?es] by (simp only: Let_def) simp
qed

end
