(* ===== verification/Retry.thy ===== *)
theory Retry
  imports Load_Balancer
begin

text \<open>
  The retry loop of \<open>retry.go\<close>. One iteration claims a target and sends the request; what the
  rest of the world does around an iteration is an \<open>attemptEnv\<close>: what happened to the load
  balancer since the last one, how the attempt ended, how long it took, and whether the client
  went away during the pause. A run is a list of them; a run that is cut off before the loop
  returns has no outcome. The clock reading of \<open>again\<close> and the one of \<open>waitBeforeRetry\<close> right
  after it are one value.
\<close>

section \<open>The loop\<close>

definition defaultTargetTryInterval :: duration where
  "defaultTargetTryInterval = 250 * millisecond"

definition retryEnabled :: "retryPolicy \<Rightarrow> bool" where
  "retryEnabled p \<longleftrightarrow> rp_tryDuration p > 0"

definition retryInterval :: "retryPolicy \<Rightarrow> duration" where
  "retryInterval p = (if rp_tryInterval p > 0 then rp_tryInterval p else defaultTargetTryInterval)"

definition isReplayableRequest :: "request \<Rightarrow> bool" where
  "isReplayableRequest r \<longleftrightarrow>
     req_method r \<in> set [''GET'', ''HEAD'', ''OPTIONS'', ''TRACE'', ''PUT'', ''DELETE''] \<and> req_content_length r = 0"

record attemptEnv =
  ae_events :: "lbEvent list"
  ae_rid :: nat
  ae_failure :: "proxyError option"
  ae_spent :: duration
  ae_cancelled :: bool

text \<open>\<open>waitBeforeRetry\<close>: the time at which the timer fires, or \<open>None\<close> when it returns false.\<close>

definition waitBeforeRetry :: "bool \<Rightarrow> time \<Rightarrow> time \<Rightarrow> duration \<Rightarrow> time option" where
  "waitBeforeRetry cancelled now deadline interval =
     (let remaining = deadline - now
      in if remaining \<le> 0 then None
         else if cancelled then None
         else Some (now + (if interval > remaining then remaining else interval)))"

text \<open>\<open>retryLoop.again\<close>: the clock and the hop count for the next attempt.\<close>

definition retryAgain :: "bool \<Rightarrow> time \<Rightarrow> time \<Rightarrow> duration \<Rightarrow> nat \<Rightarrow> int \<Rightarrow> (time \<times> int) option" where
  "retryAgain cancelled now deadline interval healthy hops =
     (if \<not> now < deadline then None
      else if hops < int healthy - 1 then Some (now, hops + 1)
      else map_option (\<lambda>t. (t, 0)) (waitBeforeRetry cancelled now deadline interval))"

datatype retryOutcome = Served | Answered proxyErrorOutcome

text \<open>The requests forwarded, each with the target and the failure it ended with, and what the
  client was answered. A failure only another target could repair is deferred when the request
  carries an attempt, which only a replayable one does.\<close>

fun serveLoop ::
  "request \<Rightarrow> time \<Rightarrow> time \<Rightarrow> int \<Rightarrow> bool \<Rightarrow> loadBalancer \<Rightarrow> attemptEnv list
     \<Rightarrow> (nat \<times> proxyError option) list \<times> retryOutcome option" where
  "serveLoop r deadline clock hops retrying lb [] = ([], None)"
| "serveLoop r deadline clock hops retrying lb (e # es) =
     (let claiming = (if retrying then r\<lparr>req_ignore_pin := True\<rparr> else r);
          interval = retryInterval (lb_retryPolicy lb);
          now = clock + ae_spent e
      in case claimTarget clock (ae_rid e) (lbRun (ae_events e) lb) claiming of
           (lb1, Inl _) \<Rightarrow>
             (case retryAgain (ae_cancelled e) now deadline interval (length (healthyTargets lb1)) hops of
                None \<Rightarrow> ([], Some (Answered (ErrorResponse 503)))
              | Some (clock', hops') \<Rightarrow> serveLoop r deadline clock' hops' True lb1 es)
         | (lb1, Inr (i, _)) \<Rightarrow>
             (let lb2 = lb1\<lparr>lb_all := (lb_all lb1)[i := endInflightRequest (ae_rid e) (lb_all lb1 ! i)]\<rparr>
              in case ae_failure e of
                   None \<Rightarrow> ([(i, None)], Some Served)
                 | Some pe \<Rightarrow>
                     (if handleProxyError (isReplayableRequest r) pe \<noteq> Deferred
                      then ([(i, Some pe)], Some (Answered (handleProxyError (isReplayableRequest r) pe)))
                      else case retryAgain (ae_cancelled e) now deadline interval (length (healthyTargets lb2)) hops of
                             None \<Rightarrow> ([(i, Some pe)], Some (Answered (handleProxyError False pe)))
                           | Some (clock', hops') \<Rightarrow>
                               (case serveLoop r deadline clock' hops' True lb2 es of
                                  (sent, outcome) \<Rightarrow> ((i, Some pe) # sent, outcome)))))"

definition serveWithRetries ::
  "request \<Rightarrow> time \<Rightarrow> loadBalancer \<Rightarrow> attemptEnv list \<Rightarrow> (nat \<times> proxyError option) list \<times> retryOutcome option" where
  "serveWithRetries r clock lb es =
     serveLoop r (clock + rp_tryDuration (lb_retryPolicy lb)) clock 0 False lb es"

section \<open>Replaying is safe\<close>

text \<open>An attempt after which the loop may go on: the request is idempotent and has no body, and the
  target was draining or a network operation failed, for a reason other than the size of the
  request, its chunk encoding, a timeout, the deadline of the request or its client leaving.\<close>

definition mutates :: "request \<Rightarrow> bool" where
  "mutates r \<longleftrightarrow> req_content_length r \<noteq> 0
     \<or> \<not> (req_method r = ''GET'' \<or> req_method r = ''HEAD'' \<or> req_method r = ''OPTIONS'' \<or> req_method r = ''TRACE''
        \<or> req_method r = ''PUT'' \<or> req_method r = ''DELETE'')"

lemma isReplayableRequest_iff: "isReplayableRequest r \<longleftrightarrow> \<not> mutates r"
  by (auto simp: isReplayableRequest_def mutates_def)

definition replaySafe :: "request \<Rightarrow> nat \<times> proxyError option \<Rightarrow> bool" where
  "replaySafe r a \<longleftrightarrow> (\<not> mutates r) \<and>
     (case snd a of None \<Rightarrow> False
      | Some pe \<Rightarrow> pe_draining pe \<or>
          pe_opError pe \<and> pe_net pe \<noteq> Some True \<and> \<not> pe_maxBytes pe \<and> \<not> pe_deadlineCause pe \<and> \<not> pe_canceled pe
          \<and> \<not> isChunkedEncodingError pe)"

lemma handleProxyError_Deferred:
  "handleProxyError attempt pe = Deferred \<longleftrightarrow> attempt \<and> isRetryableProxyError pe"
  by (simp add: handleProxyError_def)

lemma Deferred_replaySafe:
  "handleProxyError (isReplayableRequest r) pe = Deferred \<Longrightarrow> replaySafe r (i, Some pe)"
  by (auto simp: handleProxyError_Deferred replaySafe_def isRetryableProxyError_def isReplayableRequest_iff isGatewayTimeout_def
      split: if_splits)

lemma not_deferred: "handleProxyError False pe \<noteq> Deferred"
  by (simp add: handleProxyError_def)

lemma rendered_alike: "handleProxyError attempt pe \<noteq> Deferred \<Longrightarrow> handleProxyError attempt pe = handleProxyError False pe"
  by (auto simp: handleProxyError_def split: if_splits)

lemma serveLoop_safe: "list_all (replaySafe r) (butlast (fst (serveLoop r deadline clock hops retrying lb es)))"
proof (induction r deadline clock hops retrying lb es rule: serveLoop.induct)
  case (2 r deadline clock hops retrying lb e es)
  show ?case
  proof (cases "claimTarget clock (ae_rid e) (lbRun (ae_events e) lb) (if retrying then r\<lparr>req_ignore_pin := True\<rparr> else r)")
    case (Pair lb1 res)
    show ?thesis
    proof (cases res)
      case (Inl x)
      then show ?thesis
        using Pair 2(1)[OF refl refl refl Pair[symmetric] Inl] by (auto simp: Let_def split: option.splits)
    next
      case (Inr p)
      then show ?thesis
        using Pair 2(2)[OF refl refl refl Pair[symmetric], of p "fst p" "snd p"] Deferred_replaySafe
        by (auto simp: Let_def case_prod_beta split: option.splits)
    qed
  qed
qed simp

text \<open>What the client was told, against the attempts that were made.\<close>

definition outcomeOf :: "request \<Rightarrow> (nat \<times> proxyError option) list \<Rightarrow> retryOutcome \<Rightarrow> bool" where
  "outcomeOf r sent outcome \<longleftrightarrow> (case outcome of
       Served \<Rightarrow> sent \<noteq> [] \<and> snd (last sent) = None
     | Answered a \<Rightarrow> a \<noteq> Deferred \<and>
         ((\<exists>pe. sent \<noteq> [] \<and> snd (last sent) = Some pe \<and> a = handleProxyError False pe)
          \<or> list_all (replaySafe r) sent \<and> a = ErrorResponse 503))"

lemma outcomeOf_Cons: "outcomeOf r sent outcome \<Longrightarrow> replaySafe r a \<Longrightarrow> outcomeOf r (a # sent) outcome"
  by (auto simp: outcomeOf_def split: retryOutcome.splits)

lemma serveLoop_outcome:
  "snd (serveLoop r deadline clock hops retrying lb es) = Some outcome \<Longrightarrow>
   outcomeOf r (fst (serveLoop r deadline clock hops retrying lb es)) outcome"
proof (induction r deadline clock hops retrying lb es rule: serveLoop.induct)
  case (2 r deadline clock hops retrying lb e es)
  show ?case
  proof (cases "claimTarget clock (ae_rid e) (lbRun (ae_events e) lb) (if retrying then r\<lparr>req_ignore_pin := True\<rparr> else r)")
    case (Pair lb1 res)
    show ?thesis
    proof (cases res)
      case (Inl x)
      then show ?thesis
        using Pair 2(1)[OF refl refl refl Pair[symmetric] Inl] 2(3)
        by (auto simp: Let_def outcomeOf_def split: option.splits)
    next
      case (Inr p)
      obtain k req where p: "p = (k, req)" by fastforce
      let ?lb2 = "lb1\<lparr>lb_all := (lb_all lb1)[k := endInflightRequest (ae_rid e) (lb_all lb1 ! k)]\<rparr>"
      have claim: "claimTarget clock (ae_rid e) (lbRun (ae_events e) lb) (if retrying then r\<lparr>req_ignore_pin := True\<rparr> else r) = (lb1, Inr (k, req))"
        using Pair Inr p by simp
      show ?thesis
      proof (cases "ae_failure e")
        case None
        then show ?thesis using 2(3) by (simp add: Let_def claim outcomeOf_def)
      next
        case (Some pe)
        show ?thesis
        proof (cases "handleProxyError (isReplayableRequest r) pe = Deferred")
          case False
          then show ?thesis using 2(3) Some rendered_alike[OF False] by (auto simp: Let_def claim outcomeOf_def)
        next
          case True
          show ?thesis
          proof (cases "retryAgain (ae_cancelled e) (clock + ae_spent e) deadline (retryInterval (lb_retryPolicy lb)) (length (healthyTargets ?lb2)) hops")
            case None
            then show ?thesis using 2(3) Some True by (auto simp: Let_def claim outcomeOf_def not_deferred)
          next
            case again: (Some next_try)
            obtain clock' hops' where nt: "next_try = (clock', hops')" by fastforce
            let ?rest = "serveLoop r deadline clock' hops' True ?lb2 es"
            have run: "serveLoop r deadline clock hops retrying lb (e # es) = ((k, Some pe) # fst ?rest, snd ?rest)"
              using Some True again nt by (simp add: Let_def claim case_prod_beta)
            have "snd ?rest = Some outcome" using 2(3) unfolding run by simp
            then have "outcomeOf r (fst ?rest) outcome"
              using 2(2)[OF refl refl refl Pair[symmetric] Inr p[symmetric] refl Some _ again nt[symmetric]] True by simp
            then show ?thesis unfolding run fst_conv by (rule outcomeOf_Cons) (rule Deferred_replaySafe[OF True])
          qed
        qed
      qed
    qed
  qed
qed simp


definition connectionRefused :: proxyError where
  "connectionRefused = \<lparr>pe_maxBytes = False, pe_net = Some False, pe_deadlineCause = False, pe_canceled = False,
     pe_draining = False, pe_message = ''dial tcp: connection refused'', pe_opError = True\<rparr>"

definition exampleAttempts :: "attemptEnv list" where
  "exampleAttempts =
     [\<lparr>ae_events = [], ae_rid = 1, ae_failure = Some connectionRefused, ae_spent = millisecond, ae_cancelled = False\<rparr>,
      \<lparr>ae_events = [], ae_rid = 2, ae_failure = None, ae_spent = millisecond, ae_cancelled = False\<rparr>]"

definition exampleRetrying :: loadBalancer where
  "exampleRetrying = withRetryPolicy examplePoolLB \<lparr>rp_tryDuration = 250 * millisecond, rp_tryInterval = 0\<rparr>"

lemma replayed_post: "fst (serveWithRetries (emptyRequest\<lparr>req_method := ''POST''\<rparr>) 0 exampleRetrying exampleAttempts) = [(1, Some connectionRefused)]"
  by code_simp


section \<open>The loop ends\<close>

lemma lbInv_lbStep: "lbInv lb \<Longrightarrow> lbInv (lbStep e lb)"
  by (cases e) (simp_all add: lbInv_probeCompleted, metis lbInv_claimTarget prod.collapse)

lemma lbInv_lbRun: "lbInv lb \<Longrightarrow> lbInv (lbRun es lb)"
  unfolding lbRun_def by (induction es arbitrary: lb) (auto intro: lbInv_lbStep)

lemma lbInv_endInflight:
  "lbInv lb \<Longrightarrow> lbInv (lb\<lparr>lb_all := (lb_all lb)[i := endInflightRequest rid (lb_all lb ! i)]\<rparr>)"
  by (erule lbInv_retarget) (simp_all add: roles_update endInflightRequest_def)

lemma length_probeCompleted: "length (lb_all (probeCompleted i ok lb)) = length (lb_all lb)"
  by (simp add: probeCompleted_def case_prod_beta Let_def updateHealthyTargets_def stopAllHealthChecks_def)

lemma policy_probeCompleted: "lb_retryPolicy (probeCompleted i ok lb) = lb_retryPolicy lb"
  by (simp add: probeCompleted_def case_prod_beta Let_def updateHealthyTargets_def)

lemma policy_claimTarget: "lb_retryPolicy (fst (claimTarget now rid lb r)) = lb_retryPolicy lb"
  by (auto simp: claimTarget_choose chooseTarget_def nextTarget_def case_prod_beta split: option.splits sum.splits)

lemma lbStep_keeps:
  "lbInv lb \<Longrightarrow> length (lb_all (lbStep e lb)) = length (lb_all lb) \<and> lb_retryPolicy (lbStep e lb) = lb_retryPolicy lb"
proof (cases e)
  case (Placed now rid r)
  assume "lbInv lb"
  then have "length (lb_all (fst (claimTarget now rid lb r))) = length (lb_all lb)"
    by (metis claimTarget_shape(1) prod.collapse roles_length)
  then show ?thesis using Placed by (simp add: policy_claimTarget)
qed (simp add: length_probeCompleted policy_probeCompleted)

lemma lbRun_keeps:
  "lbInv lb \<Longrightarrow> length (lb_all (lbRun es lb)) = length (lb_all lb) \<and> lb_retryPolicy (lbRun es lb) = lb_retryPolicy lb"
  unfolding lbRun_def
proof (induction es arbitrary: lb)
  case (Cons e es)
  then show ?case using lbStep_keeps[OF Cons.prems, of e] lbInv_lbStep[OF Cons.prems, of e] by simp
qed simp

lemma healthyTargets_bound:
  assumes "lbInv lb"
  shows "length (healthyTargets lb) \<le> length (lb_all lb)"
proof -
  have "distinct (healthyTargets lb)" and "set (healthyTargets lb) \<subseteq> {..<length (lb_all lb)}"
    using assms by (auto simp: lbInv_def poolOK_def healthyTargets_def list_all_iff)
  then show ?thesis
    by (metis card_lessThan card_mono distinct_card finite_lessThan)
qed

text \<open>What is left of a run: the pauses that fit before the deadline, each with one round over the
  pool, and the hops left in this round.\<close>

definition pausesLeft :: "duration \<Rightarrow> duration \<Rightarrow> nat" where
  "pausesLeft interval left = nat ((left + interval - 1) div interval)"

definition attemptsLeft :: "nat \<Rightarrow> duration \<Rightarrow> duration \<Rightarrow> int \<Rightarrow> nat" where
  "attemptsLeft n interval left hops = pausesLeft interval left * Suc n + (n - nat hops)"

lemma pausesLeft_mono: "interval > 0 \<Longrightarrow> a \<le> b \<Longrightarrow> pausesLeft interval a \<le> pausesLeft interval b"
  by (simp add: pausesLeft_def nat_mono zdiv_mono1)

lemma pausesLeft_pause:
  assumes "interval > 0" and "0 < left"
  shows "pausesLeft interval (left - min interval left) < pausesLeft interval left"
proof -
  have "pausesLeft interval 0 = 0" using assms by (simp add: pausesLeft_def)
  moreover have "0 < pausesLeft interval left"
    using assms pos_imp_zdiv_pos_iff[of interval "left + interval - 1"] by (simp add: pausesLeft_def)
  moreover have "pausesLeft interval (left - interval) < pausesLeft interval left" if "interval \<le> left"
  proof -
    have "(left + interval - 1) div interval = (left - 1) div interval + 1"
      using assms(1) div_add_self2[of interval "left - 1"] by (simp add: algebra_simps)
    moreover have "0 \<le> (left - 1) div interval" using assms by (simp add: pos_imp_zdiv_nonneg_iff)
    ultimately show ?thesis by (simp add: pausesLeft_def)
  qed
  ultimately show ?thesis by (cases "interval \<le> left") (auto simp: min_def)
qed

lemma retryAgain_decreases:
  assumes "retryAgain cancelled now deadline interval healthy hops = Some (clock', hops')"
    and "interval > 0" and "healthy \<le> Suc n" and "0 \<le> hops" and "clock \<le> now"
  shows "0 \<le> hops' \<and> attemptsLeft n interval (deadline - clock') hops' < attemptsLeft n interval (deadline - clock) hops"
proof (cases "hops < int healthy - 1")
  case True
  then have c: "clock' = now" "hops' = hops + 1" using assms(1) by (auto simp: retryAgain_def split: if_splits)
  have "pausesLeft interval (deadline - now) \<le> pausesLeft interval (deadline - clock)"
    using assms(2,5) by (intro pausesLeft_mono) auto
  then have "pausesLeft interval (deadline - now) * Suc n \<le> pausesLeft interval (deadline - clock) * Suc n"
    by (rule mult_le_mono1)
  moreover have "n - nat hops' < n - nat hops" using True c(2) assms(3,4) by linarith
  ultimately show ?thesis using c assms(4) by (simp add: attemptsLeft_def)
next
  case False
  let ?left = "deadline - now"
  have c: "clock' = now + min interval ?left" "hops' = 0" "0 < ?left"
    using assms(1) False by (auto simp: retryAgain_def waitBeforeRetry_def Let_def min_def split: if_splits)
  have "pausesLeft interval (?left - min interval ?left) < pausesLeft interval ?left"
    using pausesLeft_pause[OF assms(2) c(3)] .
  also have "\<dots> \<le> pausesLeft interval (deadline - clock)" using assms(2,5) by (intro pausesLeft_mono) auto
  finally have "Suc (pausesLeft interval (deadline - clock')) \<le> pausesLeft interval (deadline - clock)"
    by (simp add: c(1) algebra_simps)
  then have "Suc (pausesLeft interval (deadline - clock')) * Suc n \<le> pausesLeft interval (deadline - clock) * Suc n"
    by (rule mult_le_mono1)
  then show ?thesis using c(2) by (simp add: attemptsLeft_def)
qed

lemma retryInterval_pos: "retryInterval p > 0"
  by (simp add: retryInterval_def defaultTargetTryInterval_def time_consts)

lemma serveLoop_ends:
  assumes "lbInv lb" and "length (lb_all lb) \<le> Suc n" and "0 \<le> hops" and "list_all (\<lambda>e. 0 \<le> ae_spent e) es"
    and "attemptsLeft n (retryInterval (lb_retryPolicy lb)) (deadline - clock) hops < length es"
  shows "snd (serveLoop r deadline clock hops retrying lb es) \<noteq> None"
  using assms
proof (induction es arbitrary: clock hops retrying lb)
  case (Cons e es)
  let ?claiming = "if retrying then r\<lparr>req_ignore_pin := True\<rparr> else r"
  let ?lb0 = "lbRun (ae_events e) lb" and ?i = "retryInterval (lb_retryPolicy lb)"
  obtain lb1 res where c: "claimTarget clock (ae_rid e) ?lb0 ?claiming = (lb1, res)" by fastforce
  have inv0: "lbInv ?lb0" using Cons.prems(1) by (rule lbInv_lbRun)
  have inv1: "lbInv lb1" using lbInv_claimTarget[OF inv0 c] .
  have len1: "length (lb_all lb1) \<le> Suc n"
    using roles_length[OF claimTarget_shape(1)[OF inv0 c]] lbRun_keeps[OF Cons.prems(1)] Cons.prems(2) by simp
  have pol1: "lb_retryPolicy lb1 = lb_retryPolicy lb"
    using policy_claimTarget[of clock "ae_rid e" ?lb0 ?claiming] c lbRun_keeps[OF Cons.prems(1)] by simp
  have again: "snd (serveLoop r deadline clock' hops' True lb' es) \<noteq> None"
    if "retryAgain (ae_cancelled e) (clock + ae_spent e) deadline ?i (length (healthyTargets lb')) hops = Some (clock', hops')"
      and "lbInv lb'" and "length (lb_all lb') \<le> Suc n" and "lb_retryPolicy lb' = lb_retryPolicy lb"
    for lb' clock' hops'
  proof -
    have "length (healthyTargets lb') \<le> Suc n" using healthyTargets_bound[OF that(2)] that(3) by simp
    then have "0 \<le> hops' \<and> attemptsLeft n ?i (deadline - clock') hops' < attemptsLeft n ?i (deadline - clock) hops"
      using retryAgain_decreases[OF that(1) retryInterval_pos, of n clock] Cons.prems(3,4) by simp
    then show ?thesis using Cons.IH[OF that(2,3), of hops' clock' True] Cons.prems(4,5) that(4) by simp
  qed
  show ?case
  proof (cases res)
    case (Inl x)
    then show ?thesis
      using c again[of lb1] inv1 len1 pol1 by (auto simp: Let_def split: option.splits)
  next
    case (Inr p)
    let ?lb2 = "lb1\<lparr>lb_all := (lb_all lb1)[fst p := endInflightRequest (ae_rid e) (lb_all lb1 ! fst p)]\<rparr>"
    have "lbInv ?lb2" using inv1 by (rule lbInv_endInflight)
    then show ?thesis
      using Inr c again[of ?lb2] len1 pol1 by (auto simp: Let_def case_prod_beta split: option.splits)
  qed
qed simp

text \<open>C33: The retry loop always answers. However the pool changes and however the attempts fail,
  the number of iterations is bounded by the pauses that fit into the try duration, a round
  over the pool for each, and one last round: a run with more iterations than that has an
  outcome.\<close>

theorem retry_loop_ends:
  assumes "lbInv lb" and "list_all (\<lambda>e. 0 \<le> ae_spent e) es"
    and "pausesLeft (retryInterval (lb_retryPolicy lb)) (rp_tryDuration (lb_retryPolicy lb)) * length (lb_all lb)
           + length (lb_all lb) \<le> length es" and "0 < length (lb_all lb)"
  shows "\<exists>outcome. snd (serveWithRetries r clock lb es) = Some outcome"
proof -
  let ?n = "length (lb_all lb) - 1"
  have n: "Suc ?n = length (lb_all lb)" using assms(4) by simp
  have "attemptsLeft ?n (retryInterval (lb_retryPolicy lb)) (rp_tryDuration (lb_retryPolicy lb)) 0 < length es"
    using assms(3) n by (simp add: attemptsLeft_def)
  then have "snd (serveWithRetries r clock lb es) \<noteq> None"
    unfolding serveWithRetries_def
    using serveLoop_ends[of lb ?n 0 es "clock + rp_tryDuration (lb_retryPolicy lb)" clock r False] assms(1,2) n by simp
  then show ?thesis by simp
qed

definition stubbornAttempt :: attemptEnv where
  "stubbornAttempt = \<lparr>ae_events = [], ae_rid = 1, ae_failure = Some connectionRefused, ae_spent = 0, ae_cancelled = False\<rparr>"

theorem retry_loop_ends_witness:
  "snd (serveWithRetries emptyRequest 0 exampleRetrying (replicate 6 stubbornAttempt)) = Some (Answered (ErrorResponse 502))"
proof -
  have "lbInv exampleRetrying"
    unfolding exampleRetrying_def by (intro lbInv_withRetryPolicy lbInv_examplePoolLB)
  moreover have "list_all (\<lambda>e. 0 \<le> ae_spent e) (replicate 6 stubbornAttempt)"
    by (simp add: list_all_iff stubbornAttempt_def)
  moreover have "length (lb_all exampleRetrying) = 3" by code_simp
  moreover have "pausesLeft (retryInterval (lb_retryPolicy exampleRetrying)) (rp_tryDuration (lb_retryPolicy exampleRetrying)) = 1"
    by code_simp
  ultimately have "\<exists>outcome. snd (serveWithRetries emptyRequest 0 exampleRetrying (replicate 6 stubbornAttempt)) = Some outcome"
    using retry_loop_ends[of exampleRetrying "replicate 6 stubbornAttempt" emptyRequest 0] by simp
  moreover have "snd (serveWithRetries emptyRequest 0 exampleRetrying (replicate 6 stubbornAttempt)) = Some (Answered (ErrorResponse 502))"
    by code_simp
  ultimately show ?thesis by blast
qed

end
