(* ===== verification/Pause.thy ===== *)
theory Pause
  imports Go_Base
begin

text \<open>
  The pause controller of \<open>pause_controller.go\<close>, with the channel its waiters block on. A
  channel is a number, a nil channel is \<open>None\<close>; the controller record also carries what the Go
  runtime knows: the next unused channel and the channels that were closed. Closing a nil or a
  closed channel panics, which is the value \<open>Inl\<close>.
\<close>

section \<open>The controller\<close>

datatype pauseState = PauseStateRunning | PauseStatePaused | PauseStateStopped

datatype pauseWaitAction = PauseWaitActionProceed | PauseWaitActionTimedOut | PauseWaitActionStopped string

datatype goPanic = CloseOfNilChannel | CloseOfClosedChannel

record pauseController =
  pc_state :: pauseState
  pc_stopMessage :: string
  pc_failAfter :: duration
  pc_channel :: "nat option"
  pc_nextChannel :: nat
  pc_closed :: "nat list"

definition newPauseController :: pauseController where
  "newPauseController = \<lparr>pc_state = PauseStateRunning, pc_stopMessage = [], pc_failAfter = 0,
     pc_channel = None, pc_nextChannel = 0, pc_closed = []\<rparr>"

definition closeChannel :: "pauseController \<Rightarrow> goPanic + pauseController" where
  "closeChannel p = (case pc_channel p of
       None \<Rightarrow> Inl CloseOfNilChannel
     | Some c \<Rightarrow> if c \<in> set (pc_closed p) then Inl CloseOfClosedChannel
                 else Inr (p\<lparr>pc_closed := c # pc_closed p\<rparr>))"

definition setState :: "pauseState \<Rightarrow> string \<Rightarrow> pauseController \<Rightarrow> goPanic + pauseController" where
  "setState newState message p =
     (case (if pc_state p \<noteq> newState \<and> pc_state p = PauseStatePaused then closeChannel p else Inr p) of
        Inl e \<Rightarrow> Inl e
      | Inr p' \<Rightarrow> Inr (p'\<lparr>pc_stopMessage := message, pc_state := newState\<rparr>))"

definition pcStop :: "string \<Rightarrow> pauseController \<Rightarrow> goPanic + pauseController" where
  "pcStop message p = setState PauseStateStopped message p"

definition pcPause :: "duration \<Rightarrow> pauseController \<Rightarrow> pauseController" where
  "pcPause failAfter p =
     (let p' = (if pc_state p \<noteq> PauseStatePaused
                then p\<lparr>pc_channel := Some (pc_nextChannel p), pc_nextChannel := Suc (pc_nextChannel p)\<rparr> else p)
      in p'\<lparr>pc_state := PauseStatePaused, pc_stopMessage := [], pc_failAfter := failAfter\<rparr>)"

definition pcResume :: "pauseController \<Rightarrow> goPanic + pauseController" where
  "pcResume p = setState PauseStateRunning [] p"

text \<open>\<open>UnmarshalJSON\<close>: the three exported fields are read into a new controller, then the state is
  entered again.\<close>

definition pcUnmarshal :: "pauseState \<Rightarrow> string \<Rightarrow> duration \<Rightarrow> goPanic + pauseController" where
  "pcUnmarshal st message failAfter =
     (let p = newPauseController\<lparr>pc_state := st, pc_stopMessage := message, pc_failAfter := failAfter\<rparr>
      in case st of
           PauseStateRunning \<Rightarrow> pcResume p
         | PauseStatePaused \<Rightarrow> Inr (pcPause (pc_failAfter p) p)
         | PauseStateStopped \<Rightarrow> pcStop (pc_stopMessage p) p)"

definition getWaitState :: "time \<Rightarrow> pauseController \<Rightarrow> pauseState \<times> string \<times> nat option \<times> time option" where
  "getWaitState now p =
     (if pc_state p = PauseStatePaused then (PauseStatePaused, [], pc_channel p, Some (now + pc_failAfter p))
      else (pc_state p, pc_stopMessage p, None, None))"

text \<open>\<open>Wait\<close> up to its \<open>select\<close>: an answer, or the channel and the deadline to wait for; and after
  the channel was closed.\<close>

datatype waitResult = Answer pauseWaitAction | Park "nat option" time

definition waitArrive :: "time \<Rightarrow> pauseController \<Rightarrow> waitResult" where
  "waitArrive now p = (case getWaitState now p of
       (PauseStateRunning, _, _, _) \<Rightarrow> Answer PauseWaitActionProceed
     | (PauseStateStopped, message, _, _) \<Rightarrow> Answer (PauseWaitActionStopped message)
     | (PauseStatePaused, _, ch, fail) \<Rightarrow> Park ch (case fail of Some t \<Rightarrow> t | None \<Rightarrow> now))"

definition waitReleased :: "pauseController \<Rightarrow> pauseWaitAction" where
  "waitReleased p = (if pc_state p = PauseStateStopped then PauseWaitActionStopped (pc_stopMessage p)
                     else PauseWaitActionProceed)"

section \<open>Controller and waiters\<close>

record waiter =
  wt_channel :: "nat option"
  wt_deadline :: time

record pauseSystem =
  px_controller :: pauseController
  px_parked :: "(nat \<times> waiter) list"
  px_answered :: "(nat \<times> pauseWaitAction) list"
  px_panicked :: bool

inductive pauseStep :: "pauseSystem \<Rightarrow> pauseSystem \<Rightarrow> bool" where
  stop: "pcStop message (px_controller s) = Inr p \<Longrightarrow> pauseStep s (s\<lparr>px_controller := p\<rparr>)"
| stop_panic: "pcStop message (px_controller s) = Inl e \<Longrightarrow> pauseStep s (s\<lparr>px_panicked := True\<rparr>)"
| pause: "pauseStep s (s\<lparr>px_controller := pcPause failAfter (px_controller s)\<rparr>)"
| resume: "pcResume (px_controller s) = Inr p \<Longrightarrow> pauseStep s (s\<lparr>px_controller := p\<rparr>)"
| resume_panic: "pcResume (px_controller s) = Inl e \<Longrightarrow> pauseStep s (s\<lparr>px_panicked := True\<rparr>)"
| answer: "waitArrive now (px_controller s) = Answer a \<Longrightarrow>
             pauseStep s (s\<lparr>px_answered := (i, a) # px_answered s\<rparr>)"
| park: "waitArrive now (px_controller s) = Park ch t \<Longrightarrow>
             pauseStep s (s\<lparr>px_parked := (i, \<lparr>wt_channel = ch, wt_deadline = t\<rparr>) # px_parked s\<rparr>)"
| released: "px_parked s = ws @ (i, w) # vs \<Longrightarrow> wt_channel w = Some c \<Longrightarrow> c \<in> set (pc_closed (px_controller s)) \<Longrightarrow>
             pauseStep s (s\<lparr>px_parked := ws @ vs, px_answered := (i, waitReleased (px_controller s)) # px_answered s\<rparr>)"
| expired: "px_parked s = ws @ (i, w) # vs \<Longrightarrow> wt_deadline w \<le> now \<Longrightarrow>
             pauseStep s (s\<lparr>px_parked := ws @ vs, px_answered := (i, PauseWaitActionTimedOut) # px_answered s\<rparr>)"

definition pauseInitial :: "pauseController \<Rightarrow> pauseSystem" where
  "pauseInitial p = \<lparr>px_controller = p, px_parked = [], px_answered = [], px_panicked = False\<rparr>"

text \<open>While paused there is an open channel, all channels handed out are older than the next one,
  and a parked waiter holds a channel that is closed already or is the open one.\<close>

definition waiterOK :: "pauseController \<Rightarrow> waiter \<Rightarrow> bool" where
  "waiterOK p w \<longleftrightarrow> (case wt_channel w of
       None \<Rightarrow> False
     | Some c \<Rightarrow> c < pc_nextChannel p \<and>
         (c \<in> set (pc_closed p) \<or> pc_state p = PauseStatePaused \<and> pc_channel p = Some c))"

definition controllerOK :: "pauseController \<Rightarrow> bool" where
  "controllerOK p \<longleftrightarrow> list_all (\<lambda>c. c < pc_nextChannel p) (pc_closed p) \<and>
     (pc_state p = PauseStatePaused \<longrightarrow>
        (case pc_channel p of None \<Rightarrow> False | Some c \<Rightarrow> c < pc_nextChannel p \<and> c \<notin> set (pc_closed p)))"

definition pauseInv :: "pauseSystem \<Rightarrow> bool" where
  "pauseInv s \<longleftrightarrow> \<not> px_panicked s \<and> controllerOK (px_controller s)
     \<and> list_all (\<lambda>(i, w). waiterOK (px_controller s) w) (px_parked s)"

lemma setState_ok:
  assumes "controllerOK p" and "st \<noteq> PauseStatePaused"
  obtains p' where "setState st message p = Inr p'" and "controllerOK p'"
    and "\<And>w. waiterOK p w \<Longrightarrow> waiterOK p' w" and "pc_state p' = st"
proof -
  let ?p' = "(if pc_state p = PauseStatePaused then p\<lparr>pc_closed := the (pc_channel p) # pc_closed p\<rparr> else p)
               \<lparr>pc_stopMessage := message, pc_state := st\<rparr>"
  show ?thesis
  proof
    show "setState st message p = Inr ?p'"
      using assms by (auto simp: setState_def closeChannel_def controllerOK_def split: option.splits)
    show "controllerOK ?p'"
      using assms by (auto simp: controllerOK_def split: option.splits)
    show "waiterOK ?p' w" if "waiterOK p w" for w
      using that assms by (auto simp: waiterOK_def controllerOK_def split: option.splits)
    show "pc_state ?p' = st" by simp
  qed
qed

lemma pcPause_ok:
  assumes "controllerOK p"
  shows "controllerOK (pcPause d p)" and "waiterOK p w \<Longrightarrow> waiterOK (pcPause d p) w"
  using assms by (auto simp: controllerOK_def waiterOK_def pcPause_def Let_def list_all_iff less_Suc_eq split: option.splits if_splits)

lemma waitArrive_park:
  assumes "waitArrive now p = Park ch t" and "controllerOK p"
  shows "waiterOK p \<lparr>wt_channel = ch, wt_deadline = t\<rparr>"
proof -
  have "pc_state p = PauseStatePaused" and "ch = pc_channel p"
    using assms(1) by (auto simp: waitArrive_def getWaitState_def split: pauseState.splits if_splits)
  then show ?thesis using assms(2) by (simp add: waiterOK_def controllerOK_def split: option.splits)
qed

lemma pauseInv_step:
  assumes "pauseStep s s'" and "pauseInv s"
  shows "pauseInv s'"
  using assms
proof (induction rule: pauseStep.induct)
  case (stop message s p)
  then have ok: "controllerOK (px_controller s)" by (simp add: pauseInv_def)
  show ?case
    by (rule setState_ok[OF ok, of PauseStateStopped message])
      (use stop in \<open>auto simp: pauseInv_def pcStop_def list_all_iff\<close>)
next
  case (stop_panic message s e)
  then have ok: "controllerOK (px_controller s)" by (simp add: pauseInv_def)
  show ?case
    by (rule setState_ok[OF ok, of PauseStateStopped message]) (use stop_panic in \<open>auto simp: pcStop_def\<close>)
next
  case (resume s p)
  then have ok: "controllerOK (px_controller s)" by (simp add: pauseInv_def)
  show ?case
    by (rule setState_ok[OF ok, of PauseStateRunning "[]"])
      (use resume in \<open>auto simp: pauseInv_def pcResume_def list_all_iff\<close>)
next
  case (resume_panic s e)
  then have ok: "controllerOK (px_controller s)" by (simp add: pauseInv_def)
  show ?case
    by (rule setState_ok[OF ok, of PauseStateRunning "[]"]) (use resume_panic in \<open>auto simp: pcResume_def\<close>)
next
  case (pause s d)
  then show ?case by (auto simp: pauseInv_def list_all_iff pcPause_ok)
next
  case (park now s ch t i)
  then show ?case by (auto simp: pauseInv_def waitArrive_park)
qed (auto simp: pauseInv_def)

text \<open>The controllers a service starts with: a new one, or one read from a saved state that was not
  paused.\<close>

definition startController :: "pauseController \<Rightarrow> bool" where
  "startController p \<longleftrightarrow> p = newPauseController \<or>
     (\<exists>st message failAfter. st \<noteq> PauseStatePaused \<and> pcUnmarshal st message failAfter = Inr p)"

lemma startController_ok: "startController p \<Longrightarrow> controllerOK p"
proof -
  have new: "controllerOK newPauseController" by (simp add: controllerOK_def newPauseController_def)
  have "controllerOK q" if "pcUnmarshal st message failAfter = Inr q" "st \<noteq> PauseStatePaused" for q st message failAfter
    using that by (cases st) (auto simp: controllerOK_def newPauseController_def pcUnmarshal_def pcResume_def pcStop_def setState_def)
  then show "startController p \<Longrightarrow> controllerOK p" using new by (auto simp: startController_def)
qed

lemma pauseInv_reachable:
  assumes "startController p" and "pauseStep\<^sup>*\<^sup>* (pauseInitial p) s"
  shows "pauseInv s"
  using assms(2)
proof (induction rule: rtranclp_induct)
  case base
  then show ?case using startController_ok[OF assms(1)] by (simp add: pauseInv_def pauseInitial_def)
qed (rule pauseInv_step)

lemma waiter_can_leave:
  assumes "pauseInv s" and "pc_state (px_controller s) \<noteq> PauseStatePaused" and "(i, w) \<in> set (px_parked s)"
  shows "\<exists>s'. pauseStep s s' \<and> px_answered s' = (i, waitReleased (px_controller s)) # px_answered s
    \<and> length (px_parked s') < length (px_parked s)"
proof -
  obtain ws vs where at: "px_parked s = ws @ (i, w) # vs" using split_list[OF assms(3)] by blast
  obtain c where "wt_channel w = Some c" "c \<in> set (pc_closed (px_controller s))"
    using assms by (auto simp: pauseInv_def list_all_iff waiterOK_def split: option.splits)
  from pauseStep.released[OF at this] show ?thesis
    by (intro exI[of _ "s\<lparr>px_parked := ws @ vs, px_answered := (i, waitReleased (px_controller s)) # px_answered s\<rparr>"]) (simp add: at)
qed


lemma pause_example_run:
  "pauseStep\<^sup>*\<^sup>* (pauseInitial newPauseController)
     \<lparr>px_controller = \<lparr>pc_state = PauseStateRunning, pc_stopMessage = [], pc_failAfter = 5,
        pc_channel = Some 0, pc_nextChannel = 1, pc_closed = [0]\<rparr>,
      px_parked = [(7, \<lparr>wt_channel = Some 0, wt_deadline = 15\<rparr>)], px_answered = [], px_panicked = False\<rparr>"
  (is "pauseStep\<^sup>*\<^sup>* _ ?s3")
proof -
  let ?s1 = "(pauseInitial newPauseController)\<lparr>px_controller := pcPause 5 newPauseController\<rparr>"
  let ?s2 = "?s1\<lparr>px_parked := [(7, \<lparr>wt_channel = Some 0, wt_deadline = 15\<rparr>)]\<rparr>"
  have "pauseStep (pauseInitial newPauseController) ?s1"
    using pauseStep.pause[of "pauseInitial newPauseController" 5] by (simp add: pauseInitial_def)
  moreover have "pauseStep ?s1 ?s2"
    using pauseStep.park[of 10 ?s1 "Some 0" 15 7]
    by (simp add: pauseInitial_def waitArrive_def getWaitState_def pcPause_def newPauseController_def Let_def)
  moreover have "pauseStep ?s2 ?s3"
    using pauseStep.resume[of ?s2 "px_controller ?s3"]
    by (simp add: pauseInitial_def pcResume_def setState_def closeChannel_def pcPause_def newPauseController_def Let_def)
  ultimately show ?thesis by (meson converse_rtranclp_into_rtranclp rtranclp.rtrancl_refl)
qed

lemma new_startController: "startController newPauseController"
  by (simp add: startController_def)


text \<open>A controller restored from saved state while paused has no channel: unmarshalling enters
  the paused state again, and entering it from the paused state makes none. The next resume or
  stop then closes a nil channel and panics.\<close>

theorem restored_pause_panics:
  "\<exists>p. pcUnmarshal PauseStatePaused message failAfter = Inr p
     \<and> pcResume p = Inl CloseOfNilChannel \<and> pcStop message' p = Inl CloseOfNilChannel"
  by (simp add: pcUnmarshal_def pcPause_def newPauseController_def pcResume_def pcStop_def setState_def
      closeChannel_def Let_def)

end
