(* ===== verification/Idle.thy ===== *)
theory Idle
  imports Go_Base
begin

text \<open>
  The idle controller of \<open>idle_controller.go\<close>: the state it keeps under its lock, one definition
  per critical section, and a step relation in which requests, the timer goroutine, wake
  goroutines and redeploys interleave between critical sections. The generation counter is
  unbounded (the code's has 64 bits and grows by one per transition). The zero time of
  \<open>retryAfter\<close> is \<open>None\<close>.
\<close>

section \<open>The controller\<close>

datatype idleState = IdleStateActive | IdleStateStopping | IdleStateSleeping | IdleStateWaking

datatype wakeError = ErrWakeTimeout | ErrWakeFailed | ErrTargetFailedToBecomeHealthy

fun idleStateString :: "idleState \<Rightarrow> string" where
  "idleStateString IdleStateStopping = ''stopping''"
| "idleStateString IdleStateSleeping = ''sleeping''"
| "idleStateString IdleStateWaking = ''waking''"
| "idleStateString IdleStateActive = ''active''"

definition parseIdleState :: "string \<Rightarrow> idleState" where
  "parseIdleState name =
     (if name \<in> set [''sleeping'', ''stopping'', ''waking''] then IdleStateSleeping else IdleStateActive)"

definition defaultWakeTimeout :: duration where
  "defaultWakeTimeout = 30 * second"

definition maxWakeBackoff :: duration where
  "maxWakeBackoff = 30 * second"

definition idleTimerIdlePark :: duration where
  "idleTimerIdlePark = 60 * minute"

record idleController =
  ic_hasLifecycle :: bool
  ic_state :: idleState
  ic_generation :: nat
  ic_refs :: "string list"
  ic_inflight :: nat
  ic_lastRequest :: time
  ic_sleepAfter :: duration
  ic_wakeTimeout :: duration
  ic_lastErr :: "wakeError option"
  ic_failures :: nat
  ic_retryAfter :: "time option"
  ic_disabled :: bool
  ic_closed :: bool

definition newIdleController :: "bool \<Rightarrow> string list \<Rightarrow> duration \<Rightarrow> duration \<Rightarrow> time \<Rightarrow> idleController" where
  "newIdleController lifecycle refs sleepAfter wakeTimeout now =
     \<lparr>ic_hasLifecycle = lifecycle, ic_state = IdleStateActive, ic_generation = 0, ic_refs = refs, ic_inflight = 0,
      ic_lastRequest = now, ic_sleepAfter = sleepAfter,
      ic_wakeTimeout = (if wakeTimeout \<le> 0 then defaultWakeTimeout else wakeTimeout),
      ic_lastErr = None, ic_failures = 0, ic_retryAfter = None, ic_disabled = False, ic_closed = False\<rparr>"

definition setStateLocked :: "idleState \<Rightarrow> idleController \<Rightarrow> idleController" where
  "setStateLocked st c =
     (if ic_state c = st then c else c\<lparr>ic_state := st, ic_generation := Suc (ic_generation c)\<rparr>)"

definition restoreSleeping :: "idleController \<Rightarrow> idleController" where
  "restoreSleeping c = (if ic_state c = IdleStateActive then setStateLocked IdleStateSleeping c else c)"

definition icDisable :: "idleController \<Rightarrow> idleController" where
  "icDisable c = c\<lparr>ic_disabled := True\<rparr>"

definition icEnable :: "time \<Rightarrow> idleController \<Rightarrow> idleController" where
  "icEnable now c = c\<lparr>ic_disabled := False, ic_lastRequest := now\<rparr>"

text \<open>\<open>Close\<close>: the container operation under way is cancelled, which its goroutine sees as a failure, and the
  channel \<open>closed\<close> ends the timer goroutine and releases the waiters.\<close>

definition icClose :: "idleController \<Rightarrow> idleController" where
  "icClose c = c\<lparr>ic_closed := True\<rparr>"

text \<open>What \<open>Reset\<close> and a \<open>Configure\<close> with other containers share: the service is awake, and every
  lifecycle goroutine under way belongs to an older generation.\<close>

definition supersede :: "time \<Rightarrow> idleController \<Rightarrow> idleController" where
  "supersede now c =
     (let c' = c\<lparr>ic_lastRequest := now, ic_lastErr := None, ic_failures := 0, ic_retryAfter := None\<rparr>
      in if ic_state c' = IdleStateActive then c'\<lparr>ic_generation := Suc (ic_generation c')\<rparr>
         else setStateLocked IdleStateActive c')"

definition icReset :: "time \<Rightarrow> string list \<Rightarrow> idleController \<Rightarrow> idleController" where
  "icReset now refs c = supersede now (c\<lparr>ic_refs := refs\<rparr>)"

definition icConfigure :: "time \<Rightarrow> duration \<Rightarrow> duration \<Rightarrow> string list \<Rightarrow> idleController \<Rightarrow> idleController" where
  "icConfigure now sleepAfter wakeTimeout refs c =
     (let c' = c\<lparr>ic_sleepAfter := sleepAfter,
                 ic_wakeTimeout := (if wakeTimeout \<le> 0 then defaultWakeTimeout else wakeTimeout),
                 ic_refs := refs\<rparr>
      in if ic_refs c \<noteq> refs then supersede now c' else c')"

text \<open>\<open>startWakeLocked\<close>: the new controller and the generation of the goroutine it starts.\<close>

definition startWakeLocked :: "idleController \<Rightarrow> idleController \<times> nat" where
  "startWakeLocked c = (let c' = setStateLocked IdleStateWaking c in (c', ic_generation c'))"

text \<open>\<open>admit\<close>: \<open>Done\<close> stands for a nil channel, with the error returned; \<open>Parked\<close> for the channel of
  the next transition. The last component is the wake goroutine started, if any.\<close>

datatype admitResult = Done "wakeError option" | Parked

definition admit :: "time \<Rightarrow> idleController \<Rightarrow> idleController \<times> admitResult \<times> nat option" where
  "admit now c = (case ic_state c of
       IdleStateActive \<Rightarrow> (c\<lparr>ic_inflight := Suc (ic_inflight c), ic_lastRequest := now\<rparr>, Done None, None)
     | IdleStateSleeping \<Rightarrow>
         (if (case ic_retryAfter c of None \<Rightarrow> False | Some t \<Rightarrow> now < t) then (c, Done (ic_lastErr c), None)
          else case startWakeLocked c of (c', g) \<Rightarrow> (c', Parked, Some g))
     | _ \<Rightarrow> (c, Parked, None))"

definition endRequest :: "time \<Rightarrow> idleController \<Rightarrow> idleController" where
  "endRequest now c = c\<lparr>ic_inflight := (if ic_inflight c > 0 then ic_inflight c - 1 else ic_inflight c), ic_lastRequest := now\<rparr>"

text \<open>\<open>wakeBackoff\<close>: one second doubled for each failure after the first, five times at most, and
  capped.\<close>

definition wakeBackoff :: "nat \<Rightarrow> duration" where
  "wakeBackoff failures = min (second * 2 ^ nat (min (int failures - 1) 5)) maxWakeBackoff"

definition finishWake :: "time \<Rightarrow> nat \<Rightarrow> wakeError option \<Rightarrow> idleController \<Rightarrow> idleController" where
  "finishWake now generation err c =
     (if ic_generation c \<noteq> generation then c
      else case err of
             None \<Rightarrow> setStateLocked IdleStateActive
                       (c\<lparr>ic_lastErr := None, ic_failures := 0, ic_retryAfter := None, ic_lastRequest := now\<rparr>)
           | Some e \<Rightarrow> setStateLocked IdleStateSleeping
                       (c\<lparr>ic_lastErr := Some e, ic_failures := Suc (ic_failures c),
                          ic_retryAfter := Some (now + wakeBackoff (Suc (ic_failures c)))\<rparr>))"

text \<open>The first critical section of \<open>trySleep\<close> (\<open>None\<close> when it returns there), and its last one.\<close>

definition trySleepBegin :: "time \<Rightarrow> idleController \<Rightarrow> idleController option" where
  "trySleepBegin now c =
     (if ic_disabled c \<or> ic_state c \<noteq> IdleStateActive \<or> ic_inflight c \<noteq> 0 \<or> ic_sleepAfter c \<le> 0
         \<or> \<not> ic_hasLifecycle c \<or> ic_refs c = [] \<or> now - ic_lastRequest c < ic_sleepAfter c
      then None else Some (setStateLocked IdleStateStopping c))"

definition trySleepFinish :: "time \<Rightarrow> nat \<Rightarrow> bool \<Rightarrow> idleController \<Rightarrow> idleController" where
  "trySleepFinish now generation stopFailed c =
     (if ic_generation c \<noteq> generation then c
      else if \<not> stopFailed then setStateLocked IdleStateSleeping c
      else setStateLocked IdleStateActive (c\<lparr>ic_lastRequest := now\<rparr>))"

text \<open>The pause of the timer goroutine \<open>run\<close> before its next look.\<close>

definition timerWait :: "time \<Rightarrow> idleController \<Rightarrow> duration" where
  "timerWait now c =
     (let eligible = (\<not> ic_disabled c \<and> ic_state c = IdleStateActive \<and> ic_inflight c = 0
                      \<and> ic_sleepAfter c > 0 \<and> ic_refs c \<noteq> [])
      in max (if eligible then ic_sleepAfter c - (now - ic_lastRequest c) else idleTimerIdlePark) 0)"

text \<open>\<open>BeginRequest\<close>: one deadline for the whole call, and a round per transition. A round is the time
  and the controller \<open>admit\<close> saw and what ended the \<open>select\<close> after it; the result is \<open>None\<close> while the
  call is still waiting.\<close>

datatype waitEvent = Transition | TimerFired | ClientGone | ControllerClosed

datatype beginResult = Begun | Rejected wakeError | ClientCanceled

fun beginLoop :: "time \<Rightarrow> (time \<times> idleController \<times> waitEvent) list \<Rightarrow> beginResult option" where
  "beginLoop deadline [] = None"
| "beginLoop deadline ((now, c, ev) # rounds) =
     (case admit now c of
        (_, Done None, _) \<Rightarrow> Some Begun
      | (_, Done (Some e), _) \<Rightarrow> Some (Rejected e)
      | (_, Parked, _) \<Rightarrow>
          if deadline - now \<le> 0 then Some (Rejected ErrWakeTimeout)
          else (case ev of
                  Transition \<Rightarrow> beginLoop deadline rounds
                | TimerFired \<Rightarrow> Some (Rejected ErrWakeTimeout)
                | ClientGone \<Rightarrow> Some ClientCanceled
                | ControllerClosed \<Rightarrow> Some (Rejected ErrWakeFailed)))"

definition beginRequest :: "time \<Rightarrow> idleController \<Rightarrow> (time \<times> idleController \<times> waitEvent) list \<Rightarrow> beginResult option" where
  "beginRequest now c rounds = beginLoop (now + ic_wakeTimeout c) rounds"

lemma beginLoop_deadline:
  "(now, c, ev) \<in> set rounds \<Longrightarrow> deadline \<le> now \<Longrightarrow> beginLoop deadline rounds \<noteq> None"
  by (induction deadline rounds rule: beginLoop.induct)
    (auto split: prod.splits admitResult.splits option.splits waitEvent.splits)

section \<open>Controller, requests and goroutines\<close>

text \<open>\<open>id_wakes\<close> are the generations of the wake goroutines that have not finished; \<open>id_sleeper\<close> is the
  timer goroutine inside \<open>trySleep\<close>, with its generation and whether it has suspended the pool
  yet; \<open>id_admitted\<close> the requests between \<open>BeginRequest\<close> and \<open>EndRequest\<close>; \<open>id_poolUp\<close> whether the load
  balancer's pool is in service. A redeploy brings its own pool.\<close>

record idleSystem =
  id_c :: idleController
  id_wakes :: "nat list"
  id_sleeper :: "(nat \<times> bool) option"
  id_admitted :: "nat list"
  id_poolUp :: bool

inductive idleStep :: "idleSystem \<Rightarrow> idleSystem \<Rightarrow> bool" where
  begin_slot: "admit now (id_c s) = (c, Done None, w) \<Longrightarrow> i \<notin> set (id_admitted s) \<Longrightarrow>
      idleStep s (s\<lparr>id_c := c, id_admitted := i # id_admitted s\<rparr>)"
| begin_refused: "admit now (id_c s) = (c, Done (Some e), w) \<Longrightarrow> idleStep s (s\<lparr>id_c := c\<rparr>)"
| begin_parked: "admit now (id_c s) = (c, Parked, w) \<Longrightarrow>
      idleStep s (s\<lparr>id_c := c, id_wakes := (case w of None \<Rightarrow> id_wakes s | Some g \<Rightarrow> g # id_wakes s)\<rparr>)"
| ended: "i \<in> set (id_admitted s) \<Longrightarrow>
      idleStep s (s\<lparr>id_c := endRequest now (id_c s), id_admitted := remove1 i (id_admitted s)\<rparr>)"
| woken: "g \<in> set (id_wakes s) \<Longrightarrow>
      idleStep s (s\<lparr>id_c := finishWake now g err (id_c s), id_wakes := remove1 g (id_wakes s),
                    id_poolUp := (if err = None then True else if ic_generation (id_c s) = g then False else id_poolUp s)\<rparr>)"
| sleep_begin: "id_sleeper s = None \<Longrightarrow> trySleepBegin now (id_c s) = Some c \<Longrightarrow>
      idleStep s (s\<lparr>id_c := c, id_sleeper := Some (ic_generation c, False)\<rparr>)"
| sleep_suspend: "id_sleeper s = Some (g, False) \<Longrightarrow>
      idleStep s (s\<lparr>id_sleeper := Some (g, True), id_poolUp := False\<rparr>)"
| sleep_finish: "id_sleeper s = Some (g, True) \<Longrightarrow>
      idleStep s (s\<lparr>id_c := trySleepFinish now g stopFailed (id_c s), id_sleeper := None,
                    id_poolUp := (if ic_generation (id_c s) = g \<and> stopFailed then True else id_poolUp s)\<rparr>)"
| redeployed: "idleStep s (s\<lparr>id_c := icConfigure now sleepAfter wakeTimeout refs (id_c s), id_poolUp := True\<rparr>)"
| reset: "idleStep s (s\<lparr>id_c := icReset now refs (id_c s), id_poolUp := True\<rparr>)"
| disabled: "idleStep s (s\<lparr>id_c := icDisable (id_c s)\<rparr>)"
| enabled: "idleStep s (s\<lparr>id_c := icEnable now (id_c s)\<rparr>)"
| closed: "idleStep s (s\<lparr>id_c := icClose (id_c s)\<rparr>)"

definition idleInitial :: "idleController \<Rightarrow> bool \<Rightarrow> idleSystem" where
  "idleInitial c restored =
     \<lparr>id_c = (if restored then restoreSleeping c else c), id_wakes = [], id_sleeper = None,
      id_admitted = [], id_poolUp = (\<not> restored)\<rparr>"

section \<open>The invariant\<close>

text \<open>Requests hold exactly the slots counted, none while the service is not active; a goroutine of
  the current generation exists exactly in the state it will leave; an error to report exists
  whenever requests are being refused.\<close>

definition slotsOK :: "idleSystem \<Rightarrow> bool" where
  "slotsOK s \<longleftrightarrow> ic_inflight (id_c s) = length (id_admitted s) \<and> distinct (id_admitted s)
     \<and> (ic_state (id_c s) \<noteq> IdleStateActive \<longrightarrow> id_admitted s = [])
     \<and> (ic_retryAfter (id_c s) \<noteq> None \<longrightarrow> ic_lastErr (id_c s) \<noteq> None)"

definition goroutinesOK :: "idleSystem \<Rightarrow> bool" where
  "goroutinesOK s \<longleftrightarrow> distinct (id_wakes s) \<and> list_all (\<lambda>g. g \<le> ic_generation (id_c s)) (id_wakes s)
     \<and> (ic_generation (id_c s) \<in> set (id_wakes s) \<longleftrightarrow> ic_state (id_c s) = IdleStateWaking)
     \<and> pred_option (\<lambda>g. g \<le> ic_generation (id_c s)) (map_option fst (id_sleeper s))
     \<and> (map_option fst (id_sleeper s) = Some (ic_generation (id_c s)) \<longleftrightarrow> ic_state (id_c s) = IdleStateStopping)"

lemmas idle_ops = admit_def startWakeLocked_def setStateLocked_def endRequest_def finishWake_def trySleepBegin_def
  trySleepFinish_def icConfigure_def icReset_def supersede_def icDisable_def icEnable_def icClose_def Let_def

lemma slotsOK_step:
  assumes "idleStep s s'" and "slotsOK s" and "goroutinesOK s"
  shows "slotsOK s'"
  using assms
  by (induction rule: idleStep.induct)
    (auto simp: slotsOK_def goroutinesOK_def idle_ops length_remove1 split: idleState.splits if_splits option.splits)

lemma goroutinesOK_intro:
  assumes "goroutinesOK s" and "id_wakes s' = id_wakes s" and "id_sleeper s' = id_sleeper s"
    and "ic_generation (id_c s') = Suc (ic_generation (id_c s))" and "ic_state (id_c s') \<in> {IdleStateActive, IdleStateSleeping}"
  shows "goroutinesOK s'"
  using assms by (cases "id_sleeper s") (auto simp: goroutinesOK_def list_all_iff)

lemma goroutinesOK_same:
  assumes "goroutinesOK s" and "id_wakes s' = id_wakes s" and "id_sleeper s' = id_sleeper s"
    and "ic_generation (id_c s') = ic_generation (id_c s)" and "ic_state (id_c s') = ic_state (id_c s)"
  shows "goroutinesOK s'"
  using assms by (simp add: goroutinesOK_def)

lemma supersede_shape:
  "ic_generation (supersede now c) = Suc (ic_generation c) \<and> ic_state (supersede now c) = IdleStateActive"
  by (simp add: supersede_def setStateLocked_def Let_def)

lemma goroutinesOK_step:
  assumes "idleStep s s'" and "goroutinesOK s"
  shows "goroutinesOK s'"
  using assms
proof (induction rule: idleStep.induct)
  case (begin_slot now s c w i)
  then have "ic_generation c = ic_generation (id_c s)" "ic_state c = ic_state (id_c s)"
    by (auto simp: admit_def startWakeLocked_def Let_def split: idleState.splits if_splits)
  then show ?case using begin_slot.prems by (auto intro: goroutinesOK_same)
next
  case (begin_refused now s c e w)
  then have "c = id_c s" by (auto simp: admit_def startWakeLocked_def Let_def split: idleState.splits if_splits)
  then show ?case using begin_refused.prems by simp
next
  case (begin_parked now s c w)
  show ?case
  proof (cases w)
    case None
    then have "c = id_c s"
      using begin_parked.hyps by (auto simp: admit_def startWakeLocked_def Let_def split: idleState.splits if_splits)
    then show ?thesis using begin_parked.prems None by simp
  next
    case (Some g)
    then have "ic_state (id_c s) = IdleStateSleeping" "g = Suc (ic_generation (id_c s))"
      "ic_generation c = g" "ic_state c = IdleStateWaking"
      using begin_parked.hyps
      by (auto simp: admit_def startWakeLocked_def setStateLocked_def Let_def split: idleState.splits if_splits)
    then show ?thesis
      using begin_parked.prems Some by (cases "id_sleeper s") (auto simp: goroutinesOK_def list_all_iff)
  qed
next
  case (woken g s err now)
  show ?case
  proof (cases "ic_generation (id_c s) = g")
    case True
    then have "ic_state (id_c s) = IdleStateWaking" using woken by (simp add: goroutinesOK_def)
    then show ?thesis
      using woken True
      by (cases "id_sleeper s"; cases err)
        (auto simp: goroutinesOK_def finishWake_def setStateLocked_def list_all_iff dest: notin_set_remove1)
  next
    case False
    then show ?thesis
      using woken by (auto simp: goroutinesOK_def finishWake_def list_all_iff dest: notin_set_remove1)
  qed
next
  case (sleep_begin s now c)
  then have "ic_state (id_c s) = IdleStateActive" "ic_state c = IdleStateStopping"
    "ic_generation c = Suc (ic_generation (id_c s))"
    by (auto simp: trySleepBegin_def setStateLocked_def split: if_splits)
  then show ?case using sleep_begin.prems by (auto simp: goroutinesOK_def list_all_iff)
next
  case (sleep_suspend s g)
  then show ?case by (simp add: goroutinesOK_def)
next
  case (sleep_finish s g now stopFailed)
  then show ?case
    by (auto simp: goroutinesOK_def trySleepFinish_def setStateLocked_def list_all_iff split: if_splits)
next
  case (redeployed s now sleepAfter wakeTimeout refs)
  then show ?case
    using supersede_shape
    by (auto simp: icConfigure_def Let_def intro: goroutinesOK_same elim: goroutinesOK_intro)
next
  case (reset s now refs)
  then show ?case using supersede_shape by (auto simp: icReset_def elim: goroutinesOK_intro)
next
  case (ended i s now)
  then show ?case by (auto simp: endRequest_def intro: goroutinesOK_same)
next
  case (disabled s)
  then show ?case by (auto simp: icDisable_def intro: goroutinesOK_same)
next
  case (enabled s now)
  then show ?case by (auto simp: icEnable_def intro: goroutinesOK_same)
next
  case (closed s)
  then show ?case by (auto simp: icClose_def intro: goroutinesOK_same)
qed

lemma idle_reachable:
  assumes "idleStep\<^sup>*\<^sup>* (idleInitial (newIdleController lifecycle refs sleepAfter wakeTimeout t) restored) s"
  shows "slotsOK s" and "goroutinesOK s"
proof -
  have "slotsOK s \<and> goroutinesOK s"
    using assms
  proof (induction rule: rtranclp_induct)
    case base
    then show ?case
      by (auto simp: slotsOK_def goroutinesOK_def idleInitial_def restoreSleeping_def setStateLocked_def newIdleController_def)
  next
    case (step s s')
    then show ?case using slotsOK_step goroutinesOK_step by blast
  qed
  then show "slotsOK s" and "goroutinesOK s" by simp_all
qed

section \<open>Sleeping services serve nobody\<close>

text \<open>C28: A service's containers are only ever stopped, stopping or starting while no admitted
  request is being served, however requests, the timer, wakes and redeploys interleave; the
  in-flight count is exact; and a request that is let through always holds a slot, so that the
  timer sees it.\<close>

theorem idle_never_sleeps_under_requests:
  assumes "idleStep\<^sup>*\<^sup>* (idleInitial (newIdleController lifecycle refs sleepAfter wakeTimeout t) restored) s"
  shows "ic_inflight (id_c s) = length (id_admitted s)
     \<and> (ic_state (id_c s) \<noteq> IdleStateActive \<longrightarrow> id_admitted s = [])
     \<and> (case admit now (id_c s) of
          (c, Done None, _) \<Rightarrow> ic_state (id_c s) = IdleStateActive \<and> ic_inflight c = Suc (ic_inflight (id_c s))
        | (c, _, _) \<Rightarrow> ic_inflight c = ic_inflight (id_c s))"
  using idle_reachable(1)[OF assms]
  by (auto simp: slotsOK_def admit_def startWakeLocked_def setStateLocked_def Let_def split: idleState.splits option.splits)

definition exampleIdle :: idleController where
  "exampleIdle = newIdleController True [''web''] (5 * minute) 0 0"

definition sleepingIdle :: idleSystem where
  "sleepingIdle = \<lparr>id_c = exampleIdle\<lparr>ic_state := IdleStateSleeping, ic_generation := 2\<rparr>, id_wakes = [],
     id_sleeper = None, id_admitted = [], id_poolUp = False\<rparr>"

lemma sleepingIdle_reachable:
  "idleStep\<^sup>*\<^sup>* (idleInitial (newIdleController True [''web''] (5 * minute) 0 0) False) sleepingIdle"
proof -
  let ?s0 = "idleInitial (newIdleController True [''web''] (5 * minute) 0 0) False"
  let ?s1 = "?s0\<lparr>id_c := exampleIdle\<lparr>ic_state := IdleStateStopping, ic_generation := 1\<rparr>, id_sleeper := Some (1, False)\<rparr>"
  let ?s2 = "?s1\<lparr>id_sleeper := Some (1, True), id_poolUp := False\<rparr>"
  have "idleStep ?s0 ?s1"
    using idleStep.sleep_begin[of ?s0 "5 * minute" "exampleIdle\<lparr>ic_state := IdleStateStopping, ic_generation := 1\<rparr>"]
    by (simp add: idleInitial_def exampleIdle_def trySleepBegin_def setStateLocked_def newIdleController_def time_consts)
  moreover have "idleStep ?s1 ?s2" using idleStep.sleep_suspend[of ?s1 1] by simp
  moreover have "idleStep ?s2 sleepingIdle"
    using idleStep.sleep_finish[where s = ?s2 and g = 1 and now = "5 * minute" and stopFailed = False]
    by (simp add: sleepingIdle_def exampleIdle_def trySleepFinish_def setStateLocked_def newIdleController_def idleInitial_def numeral_2_eq_2)
  ultimately show ?thesis by (meson converse_rtranclp_into_rtranclp rtranclp.rtrancl_refl)
qed

theorem idle_never_sleeps_under_requests_witness:
  "idleStep\<^sup>*\<^sup>* (idleInitial (newIdleController True [''web''] (5 * minute) 0 0) False) sleepingIdle
   \<and> ic_state (id_c sleepingIdle) = IdleStateSleeping \<and> ic_inflight (id_c sleepingIdle) = length (id_admitted sleepingIdle)"
  using idle_never_sleeps_under_requests[OF sleepingIdle_reachable] sleepingIdle_reachable
  by (simp add: sleepingIdle_def)

section \<open>Transitions always end\<close>

text \<open>The controller is never stuck in a transition: in every reachable state in which the
  service is stopping or waking, the goroutine that owns the transition exists and, whatever
  the outcome of its container operations, its completion brings the service to active or
  sleeping, where requests are admitted, refused or start a new wake.\<close>

theorem idle_transition_ends:
  assumes "idleStep\<^sup>*\<^sup>* (idleInitial (newIdleController lifecycle refs sleepAfter wakeTimeout t) restored) s"
    and "ic_state (id_c s) \<in> {IdleStateStopping, IdleStateWaking}"
  shows "\<exists>s'. idleStep\<^sup>*\<^sup>* s s' \<and> ic_state (id_c s') = (if failed then (if ic_state (id_c s) = IdleStateWaking then IdleStateSleeping else IdleStateActive)
                                          else (if ic_state (id_c s) = IdleStateWaking then IdleStateActive else IdleStateSleeping))"
proof -
  have ok: "goroutinesOK s" using idle_reachable(2)[OF assms(1)] .
  show ?thesis
  proof (cases "ic_state (id_c s) = IdleStateWaking")
    case True
    then have g: "ic_generation (id_c s) \<in> set (id_wakes s)" using ok by (simp add: goroutinesOK_def)
    let ?err = "if failed then Some ErrWakeFailed else None"
    have "ic_state (finishWake 0 (ic_generation (id_c s)) ?err (id_c s)) = (if failed then IdleStateSleeping else IdleStateActive)"
      using True by (simp add: finishWake_def setStateLocked_def)
    then show ?thesis
      using r_into_rtranclp[of idleStep, OF idleStep.woken[OF g, where now = 0 and err = ?err]] True by fastforce
  next
    case False
    then have st: "ic_state (id_c s) = IdleStateStopping" using assms(2) by simp
    then obtain b where sl: "id_sleeper s = Some (ic_generation (id_c s), b)"
      using ok by (auto simp: goroutinesOK_def)
    let ?s1 = "s\<lparr>id_sleeper := Some (ic_generation (id_c s), True), id_poolUp := (if b then id_poolUp s else False)\<rparr>"
    have s1: "idleStep\<^sup>*\<^sup>* s ?s1"
    proof (cases b)
      case True
      with sl have "?s1 = s" by simp
      then show ?thesis by simp
    next
      case False
      then show ?thesis using idleStep.sleep_suspend[of s "ic_generation (id_c s)"] sl by (simp add: r_into_rtranclp)
    qed
    let ?s2 = "?s1\<lparr>id_c := trySleepFinish 0 (ic_generation (id_c s)) failed (id_c ?s1), id_sleeper := None,
        id_poolUp := (if ic_generation (id_c ?s1) = ic_generation (id_c s) \<and> failed then True else id_poolUp ?s1)\<rparr>"
    have "idleStep ?s1 ?s2" by (rule idleStep.sleep_finish) simp
    with s1 have run: "idleStep\<^sup>*\<^sup>* s ?s2" by (rule rtranclp.rtrancl_into_rtrancl)
    have "ic_state (id_c ?s2) = (if failed then IdleStateActive else IdleStateSleeping)"
      using st by (simp add: trySleepFinish_def setStateLocked_def)
    then show ?thesis using run st by (intro exI[of _ ?s2]) simp
  qed
qed

definition stoppingIdle :: idleSystem where
  "stoppingIdle = (idleInitial exampleIdle False)\<lparr>id_c := exampleIdle\<lparr>ic_state := IdleStateStopping, ic_generation := 1\<rparr>,
     id_sleeper := Some (1, False)\<rparr>"

lemma stoppingIdle_reachable:
  "idleStep\<^sup>*\<^sup>* (idleInitial (newIdleController True [''web''] (5 * minute) 0 0) False) stoppingIdle"
  using idleStep.sleep_begin[of "idleInitial exampleIdle False" "5 * minute" "exampleIdle\<lparr>ic_state := IdleStateStopping, ic_generation := 1\<rparr>"]
  by (intro r_into_rtranclp)
    (simp add: stoppingIdle_def idleInitial_def exampleIdle_def trySleepBegin_def setStateLocked_def newIdleController_def time_consts)

theorem idle_transition_ends_witness:
  "\<exists>s'. idleStep\<^sup>*\<^sup>* stoppingIdle s' \<and> ic_state (id_c s') = IdleStateSleeping"
  using idle_transition_ends[OF stoppingIdle_reachable, of False] by (simp add: stoppingIdle_def)

section \<open>Backoff\<close>

text \<open>The pause after a failed wake is between one and thirty seconds and never shrinks as
  failures repeat.\<close>

theorem wakeBackoff_bounds:
  assumes "1 \<le> m" and "m \<le> n"
  shows "second \<le> wakeBackoff m \<and> wakeBackoff m \<le> wakeBackoff n \<and> wakeBackoff n \<le> maxWakeBackoff"
proof -
  have "(2::int) ^ nat (min (int m - 1) 5) \<le> 2 ^ nat (min (int n - 1) 5)"
    using assms by (intro power_increasing) auto
  then have "second * 2 ^ nat (min (int m - 1) 5) \<le> second * 2 ^ nat (min (int n - 1) 5)"
    by (simp add: time_consts)
  then have "wakeBackoff m \<le> wakeBackoff n"
    unfolding wakeBackoff_def by (intro min.mono) auto
  moreover have "second \<le> second * 2 ^ nat (min (int m - 1) 5)" "second \<le> maxWakeBackoff"
    by (simp_all add: maxWakeBackoff_def time_consts)
  then have "second \<le> wakeBackoff m" unfolding wakeBackoff_def by simp
  moreover have "wakeBackoff n \<le> maxWakeBackoff" unfolding wakeBackoff_def by simp
  ultimately show ?thesis by simp
qed

theorem wakeBackoff_bounds_witness:
  "wakeBackoff 1 \<le> wakeBackoff 9 \<and> wakeBackoff 9 = 30 * second"
proof -
  have "wakeBackoff 9 = 30 * second" by code_simp
  then show ?thesis using wakeBackoff_bounds[of 1 9] by simp
qed

section \<open>A superseded sleep\<close>

text \<open>A redeploy that lands between the moment the timer decides to put the service to sleep
  and the moment it suspends the pool leaves the new deployment unreachable: the sleep is
  superseded and stops there without resuming the pool it has just suspended, and the
  controller believes the service is active.\<close>

theorem idle_superseded_sleep_strands_pool:
  "\<exists>s. idleStep\<^sup>*\<^sup>* (idleInitial exampleIdle False) s \<and> ic_state (id_c s) = IdleStateActive
     \<and> \<not> id_poolUp s \<and> id_sleeper s = None \<and> id_wakes s = []"
proof -
  let ?s1 = stoppingIdle
  let ?s2 = "?s1\<lparr>id_c := icConfigure 0 (5 * minute) 0 [''web-v2''] (id_c ?s1), id_poolUp := True\<rparr>"
  let ?s3 = "?s2\<lparr>id_sleeper := Some (1, True), id_poolUp := False\<rparr>"
  let ?s4 = "?s3\<lparr>id_c := trySleepFinish 0 1 False (id_c ?s3), id_sleeper := None,
               id_poolUp := (if ic_generation (id_c ?s3) = 1 \<and> False then True else id_poolUp ?s3)\<rparr>"
  have "idleStep\<^sup>*\<^sup>* (idleInitial exampleIdle False) ?s1"
    using stoppingIdle_reachable by (simp add: exampleIdle_def)
  also have "idleStep ?s1 ?s2" by (rule idleStep.redeployed)
  also have "idleStep ?s2 ?s3" by (rule idleStep.sleep_suspend) (simp add: stoppingIdle_def)
  also have "idleStep ?s3 ?s4" by (rule idleStep.sleep_finish) simp
  finally have run: "idleStep\<^sup>*\<^sup>* (idleInitial exampleIdle False) ?s4" .
  have "ic_generation (id_c ?s3) = 2 \<and> ic_state (id_c ?s3) = IdleStateActive"
    by (simp add: stoppingIdle_def exampleIdle_def newIdleController_def icConfigure_def supersede_def setStateLocked_def Let_def)
  then have "ic_state (id_c ?s4) = IdleStateActive \<and> \<not> id_poolUp ?s4 \<and> id_sleeper ?s4 = None \<and> id_wakes ?s4 = []"
    by (simp add: trySleepFinish_def stoppingIdle_def idleInitial_def)
  with run show ?thesis by blast
qed

end
