(* ===== verification/Rollout.thy ===== *)
theory Rollout
  imports Http Complex_Main
begin

unbundle bit_operations_syntax

text \<open>
  The rollout split of \<open>rollout_controller.go\<close>. The hash is 32-bit FNV-1a on words. The split point
  is computed in \<open>float64\<close>: the model computes with rational numbers and rounds each operation
  with the parameter \<open>rnd\<close>, of which \<open>roundingLaws\<close> states what IEEE rounding to a double
  guarantees: it is monotone and exact on integers of up to 53 bits.
\<close>

record rolloutController =
  rc_percentage :: int
  rc_percentageSplitPoint :: rat
  rc_allowlist :: "string list"

definition rolloutCookieName :: string where
  "rolloutCookieName = ''kamal-rollout''"

definition newRolloutController :: "(rat \<Rightarrow> rat) \<Rightarrow> int \<Rightarrow> string list \<Rightarrow> rolloutController" where
  "newRolloutController rnd percentage allowlist =
     \<lparr>rc_percentage = percentage,
      rc_percentageSplitPoint = rnd (4294967295 * rnd (rnd (of_int percentage) / 100)),
      rc_allowlist = allowlist\<rparr>"

definition fnvOffset :: "32 word" where
  "fnvOffset = 2166136261"

definition fnvPrime :: "32 word" where
  "fnvPrime = 16777619"

definition fnv32a :: "string \<Rightarrow> 32 word" where
  "fnv32a s = foldl (\<lambda>h c. (h XOR of_char c) * fnvPrime) fnvOffset s"

definition valueInRolloutPercentage :: "rolloutController \<Rightarrow> string \<Rightarrow> bool" where
  "valueInRolloutPercentage rc v \<longleftrightarrow> of_int (uint (fnv32a v)) \<le> rc_percentageSplitPoint rc"

definition splitValue :: "request \<Rightarrow> string" where
  "splitValue r = (case cookie r rolloutCookieName of None \<Rightarrow> [] | Some v \<Rightarrow> v)"

definition requestUsesRolloutGroup :: "rolloutController \<Rightarrow> request \<Rightarrow> bool" where
  "requestUsesRolloutGroup rc r =
     (let v = splitValue r
      in if v = [] then False
         else if v \<in> set (rc_allowlist rc) then True
         else valueInRolloutPercentage rc v)"

section \<open>Properties\<close>

definition roundingLaws :: "(rat \<Rightarrow> rat) \<Rightarrow> bool" where
  "roundingLaws rnd \<longleftrightarrow> mono rnd \<and> (\<forall>n :: int. \<bar>n\<bar> \<le> 2 ^ 53 \<longrightarrow> rnd (of_int n) = of_int n)"

lemma uint_32_max: "uint (w :: 32 word) \<le> 4294967295"
  using uint_lt2p[of w] by simp

lemma splitPoint_mono:
  assumes "roundingLaws rnd" and "p \<le> q"
  shows "rc_percentageSplitPoint (newRolloutController rnd p a) \<le> rc_percentageSplitPoint (newRolloutController rnd q b)"
proof -
  have m: "mono rnd" using assms(1) by (simp add: roundingLaws_def)
  have "rnd (rnd (of_int p) / 100) \<le> rnd (rnd (of_int q) / 100)"
    using assms(2) by (intro monoD[OF m] divide_right_mono) (auto intro: monoD[OF m])
  then show ?thesis
    unfolding newRolloutController_def by (auto intro: monoD[OF m])
qed

lemma splitPoint_full:
  assumes "roundingLaws rnd"
  shows "rc_percentageSplitPoint (newRolloutController rnd 100 a) = 4294967295"
proof -
  have ex: "rnd (of_int n) = of_int n" if "\<bar>n\<bar> \<le> 2 ^ 53" for n using assms that by (simp add: roundingLaws_def)
  have "rnd 100 = 100" "rnd 1 = 1" "rnd 4294967295 = 4294967295"
    using ex[of 100] ex[of 1] ex[of 4294967295] by simp_all
  then show ?thesis by (simp add: newRolloutController_def)
qed

text \<open>A rollout only ever grows with its percentage: a client in the group at some percentage
  is in it at every higher one, so raising the split moves nobody back. At 100 percent every
  client with a rollout cookie is in the group, and a request without one never is.\<close>

theorem rollout_monotone:
  assumes "roundingLaws rnd" and "p \<le> q" and "set a \<subseteq> set b"
  shows "(requestUsesRolloutGroup (newRolloutController rnd p a) r \<longrightarrow> requestUsesRolloutGroup (newRolloutController rnd q b) r)
    \<and> (100 \<le> q \<longrightarrow> (requestUsesRolloutGroup (newRolloutController rnd q b) r \<longleftrightarrow> splitValue r \<noteq> []))"
proof -
  have le: "rc_percentageSplitPoint (newRolloutController rnd p a) \<le> rc_percentageSplitPoint (newRolloutController rnd q b)"
    using splitPoint_mono[OF assms(1,2)] .
  have allow: "rc_allowlist (newRolloutController rnd q b) = b" "rc_allowlist (newRolloutController rnd p a) = a"
    by (simp_all add: newRolloutController_def)
  have full: "valueInRolloutPercentage (newRolloutController rnd q b) v" if "100 \<le> q" for v
  proof -
    have "(of_int (uint (fnv32a v)) :: rat) \<le> of_int 4294967295" using uint_32_max by (simp only: of_int_le_iff)
    also have "\<dots> \<le> rc_percentageSplitPoint (newRolloutController rnd q b)"
      using splitPoint_mono[OF assms(1) that, of b b] splitPoint_full[OF assms(1), of b] by simp
    finally show ?thesis by (simp add: valueInRolloutPercentage_def)
  qed
  show ?thesis
    using le assms(3) full by (auto simp: requestUsesRolloutGroup_def valueInRolloutPercentage_def allow Let_def)
qed

definition rolloutRequest :: request where
  "rolloutRequest = emptyRequest\<lparr>req_cookies := [(''kamal-rollout'', ''user-1'')]\<rparr>"

theorem rollout_monotone_witness:
  "requestUsesRolloutGroup (newRolloutController id 0 [''user-1'']) rolloutRequest
   \<and> requestUsesRolloutGroup (newRolloutController id 25 [''user-1'', ''user-2'']) rolloutRequest"
proof -
  have "roundingLaws id" by (simp add: roundingLaws_def mono_def)
  moreover have "requestUsesRolloutGroup (newRolloutController id 0 [''user-1'']) rolloutRequest" by code_simp
  ultimately show ?thesis
    using rollout_monotone[of id 0 25 "[''user-1'']" "[''user-1'', ''user-2'']" rolloutRequest] by simp
qed

end
