(* ===== verification/Service.thy ===== *)
theory Service
  imports Service_Options Service_Map Retry Pause Idle Rollout
begin

text \<open>
  One service of the proxy (\<open>service.go\<close>, \<open>service_cache.go\<close>, \<open>service_idle.go\<close>): what it derives from its options, how a
  deploy updates it, the chain of checks a request passes, and the way into the load balancers. Files (certificates,
  error pages), regular expressions, SHA-256 and the limiter of \<open>x/time/rate\<close> are fields of \<open>serviceEnv\<close>. Calls into the
  shared certificate manager are returned as a list of \<open>sanEffect\<close>s. Log lines and metrics are not modelled.
\<close>

section \<open>State\<close>

record 'l serviceEnv =
  se_validators :: validators
  se_uaMatches :: "string \<Rightarrow> string \<Rightarrow> bool"
  se_limiter :: "'l limiterOps"
  se_sha256 :: "string \<Rightarrow> string"
  se_pinDigest :: "string \<Rightarrow> string"
  se_round :: "rat \<Rightarrow> rat"
  se_loadsCertificate :: "string \<Rightarrow> string \<Rightarrow> bool"
  se_loadsClientCAs :: "string \<Rightarrow> bool"
  se_loadsErrorPages :: "string \<Rightarrow> bool"

datatype hostPolicy = HostWhitelist "string list" | OnDemandPolicy url bool

datatype certManager = StaticCertManager string string | SharedSANManager | AutocertManager hostPolicy

datatype sanEffect = SetServiceDirectory string string | RegisterDomain string string

datatype middlewareLayer = RequestDeadlineLayer | ErrorInterceptLayer | ErrorPageLayer | CompressionLayer | CertificateLayer | ClientIPLayer

datatype serviceError = CertificateUnreadable | WildcardsUnsupported | OnDemandInvalid serviceOptionsError | ClientCAsUnreadable
  | UnableToLoadErrorPages | PathRulesInvalid pathRuleError | RolloutTargetNotSet | TargetsInvalid targetError | ServicePanic goPanic

record 'l serviceState = service +
  st_targetOptions :: targetOptions
  st_active :: "loadBalancer option"
  st_rollout :: "loadBalancer option"
  st_pause :: pauseController
  st_rolloutController :: "rolloutController option"
  st_hasSAN :: bool
  st_certManager :: "certManager option"
  st_clientCAs :: bool
  st_middleware :: "middlewareLayer list"
  st_basicAuth :: "basicAuthCredential option"
  st_allowedIPs :: "ipAllowList option"
  st_denyRules :: "denyList option"
  st_rateLimiter :: "'l rateLimiter option"
  st_redirects :: "compiledPathRule list"
  st_rewrites :: "compiledPathRule list"
  st_dynamicRedirects :: "dynamicRedirectMap option"
  st_cacheEnabled :: bool
  st_lifecycle :: bool
  st_idle :: "idleController option"
  st_restoredIdle :: idleState

section \<open>The idle controller of a service\<close>

definition containerRef :: "target \<Rightarrow> string option" where
  "containerRef t = (let host = hostname (zeroURL\<lparr>u_host := tg_address t\<rparr>)
     in if host = [] \<or> (case parseAddr host of None \<Rightarrow> False | Some a \<Rightarrow> zoneOf a = []) then None else Some host)"

definition addRef :: "target \<Rightarrow> string list \<Rightarrow> string list" where
  "addRef t refs = (case containerRef t of None \<Rightarrow> refs | Some ref \<Rightarrow> if ref \<in> set refs then refs else refs @ [ref])"

definition balancers :: "'l serviceState \<Rightarrow> loadBalancer list" where
  "balancers s = List.map_filter id [st_active s, st_rollout s]"

definition containerRefs :: "serviceOptions \<Rightarrow> 'l serviceState \<Rightarrow> string list" where
  "containerRefs so s =
     (if so_sleepContainers so \<noteq> [] then so_sleepContainers so
      else fold addRef (concat (map writeTargets (balancers s))) [])"

definition configureIdleController :: "time \<Rightarrow> serviceOptions \<Rightarrow> 'l serviceState \<Rightarrow> 'l serviceState" where
  "configureIdleController now so s =
     (if so_sleepAfter so \<le> 0 then s\<lparr>st_idle := map_option (icConfigure now 0 0 []) (st_idle s)\<rparr>
      else case st_idle s of
             Some c \<Rightarrow> s\<lparr>st_idle := Some (icConfigure now (so_sleepAfter so) (so_wakeTimeout so) (containerRefs so s) c)\<rparr>
           | None \<Rightarrow>
               if \<not> st_lifecycle s then s
               else (let c = icConfigure now (so_sleepAfter so) (so_wakeTimeout so) (containerRefs so s) (newIdleController True [] 0 0 now)
                     in s\<lparr>st_idle := Some (if st_restoredIdle s = IdleStateSleeping then restoreSleeping c else c)\<rparr>))"

definition serviceSuspendForSleep :: "'l serviceState \<Rightarrow> 'l serviceState" where
  "serviceSuspendForSleep s = s\<lparr>st_active := map_option suspendForSleep (st_active s), st_rollout := map_option suspendForSleep (st_rollout s)\<rparr>"

text \<open>\<open>resumeFromSleep\<close> up to the wait for the woken containers.\<close>

definition serviceResumeFromSleep :: "'l serviceState \<Rightarrow> 'l serviceState" where
  "serviceResumeFromSleep s = s\<lparr>st_active := map_option resumeFromSleep (st_active s), st_rollout := map_option resumeFromSleep (st_rollout s)\<rparr>"

definition setContainerLifecycle :: "time \<Rightarrow> bool \<Rightarrow> 'l serviceState \<Rightarrow> 'l serviceState" where
  "setContainerLifecycle now lifecycle s =
     (let s' = configureIdleController now (sv_options s) (s\<lparr>st_lifecycle := lifecycle\<rparr>)
      in case st_idle s' of
           None \<Rightarrow> s'
         | Some c \<Rightarrow> if ic_state c \<noteq> IdleStateSleeping then s' else serviceSuspendForSleep s')"

section \<open>Initialisation\<close>

definition createHostPolicy :: "validators \<Rightarrow> serviceOptions \<Rightarrow> serviceError + hostPolicy" where
  "createHostPolicy vd so =
     (if so_tlsOnDemandURL so \<noteq> [] then
        (case parseTLSOnDemandURL vd (so_tlsOnDemandURL so) of
           Inl e \<Rightarrow> Inl (OnDemandInvalid e)
         | Inr (endpoint, local) \<Rightarrow> Inr (OnDemandPolicy endpoint local))
      else Inr (HostWhitelist (so_hosts so)))"

definition createCertManager :: "'l serviceEnv \<Rightarrow> string \<Rightarrow> bool \<Rightarrow> serviceOptions \<Rightarrow> sanEffect list \<times> (serviceError + certManager option)" where
  "createCertManager env name hasSAN so =
     (let cleared = (if hasSAN then [SetServiceDirectory name []] else [])
      in if \<not> so_tlsEnabled so then (cleared, Inr None)
         else if so_tlsCertificatePath so \<noteq> [] \<and> so_tlsPrivateKeyPath so \<noteq> [] then
           (cleared, if se_loadsCertificate env (so_tlsCertificatePath so) (so_tlsPrivateKeyPath so)
                     then Inr (Some (StaticCertManager (so_tlsCertificatePath so) (so_tlsPrivateKeyPath so))) else Inl CertificateUnreadable)
         else if list_ex (\<lambda>h. containsStr h ''*'') (so_hosts so) then (cleared, Inl WildcardsUnsupported)
         else if hasSAN \<and> so_tlsOnDemandURL so = [] then
           (cleared @ SetServiceDirectory name (so_acmeDirectory so) # map (\<lambda>h. RegisterDomain h name) (filter (\<lambda>h. h \<noteq> []) (so_hosts so)),
            Inr (Some SharedSANManager))
         else (cleared, map_sum id (\<lambda>p. Some (AutocertManager p)) (createHostPolicy (se_validators env) so)))"

definition createMiddleware :: "'l serviceEnv \<Rightarrow> serviceOptions \<Rightarrow> targetOptions \<Rightarrow> certManager option \<Rightarrow> serviceError + middlewareLayer list" where
  "createMiddleware env so topts cm =
     (if so_errorPagePath so \<noteq> [] \<and> \<not> se_loadsErrorPages env (so_errorPagePath so) then Inl UnableToLoadErrorPages
      else Inr ((if to_requestTimeout topts > 0 \<or> to_pathRequestTimeouts topts \<noteq> [] then [RequestDeadlineLayer] else [])
        @ (if so_interceptErrorStatuses so \<noteq> [] then [ErrorInterceptLayer] else [])
        @ (if so_errorPagePath so \<noteq> [] then [ErrorPageLayer] else [])
        @ (if cpEnabled (so_compression so) then [CompressionLayer] else [])
        @ (if cm \<noteq> None then [CertificateLayer] else [])
        @ (if so_clientIPHeader so \<noteq> [] then [ClientIPLayer] else [])))"

definition normalizeTargetTimeouts :: "targetOptions \<Rightarrow> targetOptions" where
  "normalizeTargetTimeouts topts = topts\<lparr>to_pathResponseTimeouts := normalizePathTimeouts (to_pathResponseTimeouts topts),
     to_pathRequestTimeouts := normalizePathTimeouts (to_pathRequestTimeouts topts)\<rparr>"

text \<open>The assignments at the end of \<open>initialize\<close>, once nothing can fail any more.\<close>

definition derived :: "'l serviceEnv \<Rightarrow> time \<Rightarrow> serviceOptions \<Rightarrow> targetOptions \<Rightarrow> certManager option \<Rightarrow> middlewareLayer list
    \<Rightarrow> compiledPathRule list \<Rightarrow> compiledPathRule list \<Rightarrow> 'l serviceState \<Rightarrow> 'l serviceState" where
  "derived env now so topts cm layers redirects rewrites s =
     (let s1 = s\<lparr>st_redirects := redirects, st_rewrites := rewrites,
            st_dynamicRedirects := (if so_redirectsSource so = [] then None else st_dynamicRedirects s),
            st_cacheEnabled := co_enabled (so_cache so), sv_options := so, st_targetOptions := topts\<rparr>
      in (configureIdleController now so s1)\<lparr>st_certManager := cm, st_clientCAs := (so_tlsClientCACertificatePath so \<noteq> []),
            st_middleware := layers, st_basicAuth := resolveBasicAuth so, st_allowedIPs := resolveIPAllowList so,
            st_denyRules := resolveDenyList (vd_uaCompiles (se_validators env)) so,
            st_rateLimiter := resolveRateLimiter (se_limiter env) so now\<rparr>)"

definition initialize :: "'l serviceEnv \<Rightarrow> time \<Rightarrow> serviceOptions \<Rightarrow> targetOptions \<Rightarrow> 'l serviceState \<Rightarrow> sanEffect list \<times> (serviceError + 'l serviceState)" where
  "initialize env now so topts0 s =
     (let topts = normalizeTargetTimeouts topts0
      in case createCertManager env (sv_name s) (st_hasSAN s) so of
           (eff, Inl e) \<Rightarrow> (eff, Inl e)
         | (eff, Inr cm) \<Rightarrow> (eff,
             if so_tlsClientCACertificatePath so \<noteq> [] \<and> \<not> se_loadsClientCAs env (so_tlsClientCACertificatePath so) then Inl ClientCAsUnreadable
             else case createMiddleware env so topts cm of
                    Inl e \<Rightarrow> Inl e
                  | Inr layers \<Rightarrow>
                      (case resolvePathRules (vd_regex (se_validators env)) so of
                         Inl e \<Rightarrow> Inl (PathRulesInvalid e)
                       | Inr (redirects, rewrites) \<Rightarrow> Inr (derived env now so topts cm layers redirects rewrites s))))"

definition bareService :: "string \<Rightarrow> bool \<Rightarrow> 'l serviceState" where
  "bareService name hasSAN = \<lparr>sv_name = name, sv_options = zeroServiceOptions, st_targetOptions = zeroTargetOptions, st_active = None,
     st_rollout = None, st_pause = newPauseController, st_rolloutController = None, st_hasSAN = hasSAN, st_certManager = None, st_clientCAs = False,
     st_middleware = [], st_basicAuth = None, st_allowedIPs = None, st_denyRules = None, st_rateLimiter = None, st_redirects = [], st_rewrites = [],
     st_dynamicRedirects = None, st_cacheEnabled = False, st_lifecycle = False, st_idle = None, st_restoredIdle = IdleStateActive\<rparr>"

definition newService :: "'l serviceEnv \<Rightarrow> time \<Rightarrow> string \<Rightarrow> serviceOptions \<Rightarrow> targetOptions \<Rightarrow> bool \<Rightarrow> sanEffect list \<times> (serviceError + 'l serviceState)" where
  "newService env now name so topts hasSAN = initialize env now so topts (bareService name hasSAN)"

definition updateOptions :: "'l serviceEnv \<Rightarrow> time \<Rightarrow> serviceOptions \<Rightarrow> targetOptions \<Rightarrow> 'l serviceState \<Rightarrow> sanEffect list \<times> (serviceError + 'l serviceState)" where
  "updateOptions env now so topts s = initialize env now so topts s"

definition serviceSetSANCertManager :: "'l serviceEnv \<Rightarrow> time \<Rightarrow> bool \<Rightarrow> 'l serviceState \<Rightarrow> sanEffect list \<times> 'l serviceState" where
  "serviceSetSANCertManager env now manager s =
     (let s1 = s\<lparr>st_hasSAN := manager\<rparr>
      in if so_tlsEnabled (sv_options s1) \<and> so_tlsCertificatePath (sv_options s1) = [] then
           (case initialize env now (sv_options s1) (st_targetOptions s1) s1 of
              (eff, Inr s2) \<Rightarrow> (eff, s2)
            | (eff, Inl _) \<Rightarrow> (eff, s1\<lparr>st_certManager := st_certManager s, st_middleware := st_middleware s\<rparr>))
         else ([], s1))"

definition setDynamicRedirects :: "dynamicRedirectMap option \<Rightarrow> 'l serviceState \<Rightarrow> 'l serviceState" where
  "setDynamicRedirects m s = s\<lparr>st_dynamicRedirects := m\<rparr>"

definition serviceSetCacheStore :: "'l serviceState \<Rightarrow> 'l serviceState" where
  "serviceSetCacheStore s = s\<lparr>st_cacheEnabled := co_enabled (so_cache (sv_options s))\<rparr>"

definition serviceDispose :: "'l serviceState \<Rightarrow> 'l serviceState" where
  "serviceDispose s = s\<lparr>st_idle := map_option icClose (st_idle s), st_active := map_option lbDispose (st_active s), st_rollout := map_option lbDispose (st_rollout s)\<rparr>"

datatype targetSlot = TargetSlotActive | TargetSlotRollout

definition updateLoadBalancer :: "time \<Rightarrow> loadBalancer \<Rightarrow> targetSlot \<Rightarrow> 'l serviceState \<Rightarrow> 'l serviceState \<times> loadBalancer option" where
  "updateLoadBalancer now lb slot s =
     (let s' = (if slot = TargetSlotRollout then s\<lparr>st_rollout := Some lb\<rparr> else s\<lparr>st_active := Some lb\<rparr>)
      in (configureIdleController now (sv_options s') s', if slot = TargetSlotRollout then st_rollout s else st_active s))"

definition setRolloutSplit :: "'l serviceEnv \<Rightarrow> int \<Rightarrow> string list \<Rightarrow> 'l serviceState \<Rightarrow> serviceError + 'l serviceState" where
  "setRolloutSplit env percentage allowlist s =
     (if st_rollout s = None then Inl RolloutTargetNotSet
      else Inr (s\<lparr>st_rolloutController := Some (newRolloutController (se_round env) percentage allowlist)\<rparr>))"

definition stopRollout :: "'l serviceState \<Rightarrow> 'l serviceState" where
  "stopRollout s = s\<lparr>st_rolloutController := None\<rparr>"

section \<open>Stopping, pausing, draining\<close>

text \<open>\<open>Drain\<close> cancels and waits inside the targets and changes nothing of the service itself.\<close>

definition serviceStop :: "string \<Rightarrow> 'l serviceState \<Rightarrow> serviceError + 'l serviceState" where
  "serviceStop message s = (case pcStop message (st_pause s) of Inl e \<Rightarrow> Inl (ServicePanic e) | Inr p \<Rightarrow> Inr (s\<lparr>st_pause := p\<rparr>))"

definition servicePause :: "duration \<Rightarrow> 'l serviceState \<Rightarrow> 'l serviceState" where
  "servicePause pauseTimeout s = s\<lparr>st_pause := pcPause pauseTimeout (st_pause s)\<rparr>"

definition serviceResume :: "'l serviceState \<Rightarrow> serviceError + 'l serviceState" where
  "serviceResume s = (case pcResume (st_pause s) of Inl e \<Rightarrow> Inl (ServicePanic e) | Inr p \<Rightarrow> Inr (s\<lparr>st_pause := p\<rparr>))"

definition recheckTargetHealth :: "'l serviceState \<Rightarrow> 'l serviceState" where
  "recheckTargetHealth s = s\<lparr>st_active := map_option recheckHealth (st_active s), st_rollout := map_option recheckHealth (st_rollout s)\<rparr>"

section \<open>Saved state\<close>

record marshalledService =
  ms_name :: string
  ms_idleState :: string
  ms_options :: serviceOptions
  ms_targetOptions :: targetOptions
  ms_activeTargets :: "string list"
  ms_activeReaders :: "string list"
  ms_rolloutTargets :: "string list"
  ms_rolloutReaders :: "string list"
  ms_pause :: "pauseState \<times> string \<times> duration"
  ms_rolloutController :: "rolloutController option"
  ms_legacyActiveTarget :: string
  ms_legacyRolloutTarget :: string
  ms_legacyHosts :: "string list"
  ms_legacyPathPrefixes :: "string list"

text \<open>Marshalling a service without an active load balancer dereferences nil: \<open>None\<close>.\<close>

definition marshalService :: "'l serviceState \<Rightarrow> marshalledService option" where
  "marshalService s = map_option (\<lambda>active.
     \<lparr>ms_name = sv_name s, ms_idleState = idleStateString (case st_idle s of None \<Rightarrow> IdleStateActive | Some c \<Rightarrow> ic_state c),
      ms_options = sv_options s, ms_targetOptions = st_targetOptions s,
      ms_activeTargets = specs (writeTargets active), ms_activeReaders = specs (readTargets active),
      ms_rolloutTargets = (case st_rollout s of None \<Rightarrow> [] | Some lb \<Rightarrow> specs (writeTargets lb)),
      ms_rolloutReaders = (case st_rollout s of None \<Rightarrow> [] | Some lb \<Rightarrow> specs (readTargets lb)),
      ms_pause = (pc_state (st_pause s), pc_stopMessage (st_pause s), pc_failAfter (st_pause s)),
      ms_rolloutController = st_rolloutController s,
      ms_legacyActiveTarget = [], ms_legacyRolloutTarget = [], ms_legacyHosts = [], ms_legacyPathPrefixes = []\<rparr>) (st_active s)"

definition legacyFields :: "marshalledService \<Rightarrow> marshalledService" where
  "legacyFields ms =
     (let so = ms_options ms
      in ms\<lparr>ms_activeTargets := (if ms_activeTargets ms = [] \<and> ms_legacyActiveTarget ms \<noteq> [] then [ms_legacyActiveTarget ms] else ms_activeTargets ms),
            ms_rolloutTargets := (if ms_rolloutTargets ms = [] \<and> ms_legacyRolloutTarget ms \<noteq> [] then [ms_legacyRolloutTarget ms] else ms_rolloutTargets ms),
            ms_options := normalizeServiceOptions (so\<lparr>
              so_hosts := (if so_hosts so = [] \<and> ms_legacyHosts ms \<noteq> [] then ms_legacyHosts ms else so_hosts so),
              so_pathPrefixes := (if so_pathPrefixes so = [] \<and> ms_legacyPathPrefixes ms \<noteq> [] then ms_legacyPathPrefixes ms else so_pathPrefixes so)\<rparr>)\<rparr>)"

definition balancerFor :: "'l serviceEnv \<Rightarrow> serviceOptions \<Rightarrow> target list \<Rightarrow> loadBalancer" where
  "balancerFor env so ts =
     withSessionAffinity (se_pinDigest env)
       (withRetryPolicy (newLoadBalancer ts (so_writerAffinityTimeout so) (so_readTargetsAcceptWebsockets so))
         \<lparr>rp_tryDuration = so_targetTryDuration so, rp_tryInterval = so_targetTryInterval so\<rparr>)
       (so_sessionAffinity so) (so_sessionAffinityCookieName so)"

definition unmarshalService :: "'l serviceEnv \<Rightarrow> time \<Rightarrow> marshalledService \<Rightarrow> serviceError + 'l serviceState" where
  "unmarshalService env now ms0 =
     (let ms = legacyFields ms0; so = ms_options ms
      in case ms_pause ms of (st, message, failAfter) \<Rightarrow>
         case pcUnmarshal st message failAfter of
           Inl e \<Rightarrow> Inl (ServicePanic e)
         | Inr pause \<Rightarrow>
           (case newTargetList (ms_activeTargets ms) (ms_activeReaders ms) (ms_targetOptions ms) of
              Inl e \<Rightarrow> Inl (TargetsInvalid e)
            | Inr active \<Rightarrow>
                (case newTargetList (ms_rolloutTargets ms) (ms_rolloutReaders ms) (ms_targetOptions ms) of
                   Inl e \<Rightarrow> Inl (TargetsInvalid e)
                 | Inr rollout \<Rightarrow>
                     snd (initialize env now so (ms_targetOptions ms)
                       ((bareService (ms_name ms) False)\<lparr>st_pause := pause, st_rolloutController := ms_rolloutController ms,
                          st_active := Some (markAllHealthy (balancerFor env so active)),
                          st_rollout := (if rollout \<noteq> [] then Some (markAllHealthy (balancerFor env so rollout)) else None),
                          st_restoredIdle := parseIdleState (ms_idleState ms)\<rparr>)))))"

section \<open>The checks of a request\<close>

definition exemptRequest :: "'l serviceState \<Rightarrow> request \<Rightarrow> bool" where
  "exemptRequest s r \<longleftrightarrow> req_internal r \<or> isHealthCheckRequest (st_targetOptions s) r"

definition errorReply :: "int \<Rightarrow> reply" where
  "errorReply status = \<lparr>ry_status = status, ry_header = []\<rparr>"

definition rejectDenied :: "'l serviceEnv \<Rightarrow> 'l serviceState \<Rightarrow> request \<Rightarrow> reply option" where
  "rejectDenied env s r = (case st_denyRules s of
     None \<Rightarrow> None
   | Some l \<Rightarrow>
       if exemptRequest s r then None
       else if dl_denyAll l \<or> deniesAddr l (clientAddr (dl_resolver l) r) \<or> deniesUserAgent (se_uaMatches env) l (hget (req_header r) ''User-Agent'')
       then Some (errorReply 403) else None)"

definition rejectDisallowedIP :: "'l serviceState \<Rightarrow> request \<Rightarrow> reply option" where
  "rejectDisallowedIP s r = (case st_allowedIPs s of
     None \<Rightarrow> None
   | Some l \<Rightarrow> if exemptRequest s r \<or> permits l (clientAddr (al_resolver l) r) then None else Some (errorReply 403))"

definition handleRedirectsIfNeeded :: "'l serviceEnv \<Rightarrow> 'l serviceState \<Rightarrow> request \<Rightarrow> reply option" where
  "handleRedirectsIfNeeded env s r =
     (case redirectURLIfNeeded (vd_regex (se_validators env)) (sv_options s) (st_redirects s) (st_dynamicRedirects s) r of
        None \<Rightarrow> None
      | Some (location, status) \<Rightarrow>
          Some \<lparr>ry_status = status, ry_header = hset (hset [] ''Connection'' ''close'') ''Location'' location\<rparr>)"

definition rejectRateLimited :: "'l serviceEnv \<Rightarrow> time \<Rightarrow> 'l serviceState \<Rightarrow> request \<Rightarrow> 'l serviceState \<times> reply option" where
  "rejectRateLimited env now s r = (case st_rateLimiter s of
     None \<Rightarrow> (s, None)
   | Some l \<Rightarrow>
       if exemptRequest s r then (s, None)
       else case rlAllow (se_limiter env) now r l of
              (ok, l') \<Rightarrow> (s\<lparr>st_rateLimiter := Some l'\<rparr>,
                 if ok then None else Some \<lparr>ry_status = 429, ry_header = hset [] ''Retry-After'' (itoa (retryAfterSeconds l'))\<rparr>))"

text \<open>The answer of \<open>Wait\<close>; a parked request gets the one it is released with.\<close>

definition pauseWait :: "time \<Rightarrow> pauseWaitAction \<Rightarrow> pauseController \<Rightarrow> pauseWaitAction" where
  "pauseWait now released p = (case waitArrive now p of Answer a \<Rightarrow> a | Park _ _ \<Rightarrow> released)"

definition handlePausedAndStoppedRequests :: "time \<Rightarrow> pauseWaitAction \<Rightarrow> 'l serviceState \<Rightarrow> request \<Rightarrow> reply option" where
  "handlePausedAndStoppedRequests now released s r =
     (if pc_state (st_pause s) \<noteq> PauseStateRunning \<and> isHealthCheckRequest (st_targetOptions s) r then Some (errorReply 200)
      else case pauseWait now released (st_pause s) of
             PauseWaitActionStopped _ \<Rightarrow> Some (errorReply 503)
           | PauseWaitActionTimedOut \<Rightarrow> Some (errorReply 504)
           | PauseWaitActionProceed \<Rightarrow> None)"

datatype passage = Replied reply | Passed request

text \<open>A check that answers ends the chain, in the state it leaves.\<close>

definition orElse :: "'s \<Rightarrow> reply option \<Rightarrow> 's \<times> passage \<Rightarrow> 's \<times> passage" where
  "orElse s handled next = (case handled of Some y \<Rightarrow> (s, Replied y) | None \<Rightarrow> next)"

definition serviceRequestWithTarget ::
  "'l serviceEnv \<Rightarrow> time \<Rightarrow> pauseWaitAction \<Rightarrow> 'l serviceState \<Rightarrow> request \<Rightarrow> 'l serviceState \<times> passage" where
  "serviceRequestWithTarget env now released s r =
     orElse s (rejectDenied env s r)
    (orElse s (rejectDisallowedIP s r)
    (orElse s (if \<not> so_tlsEnabled (sv_options s) \<and> req_tls r then Some (errorReply 503) else None)
    (orElse s (handleRedirectsIfNeeded env s r)
    (case rejectRateLimited env now s r of (s1, limited) \<Rightarrow>
     orElse s1 limited
    (case rejectUnauthenticated (se_sha256 env) (st_basicAuth s1) (st_targetOptions s1) r of (r1, challenged) \<Rightarrow>
     orElse s1 challenged
    (orElse s1 (handlePausedAndStoppedRequests now released s1 r1)
       (s1, Passed (rewriteRequest (vd_regex (se_validators env)) (st_rewrites s1) r1))))))))"

section \<open>Beyond the cache\<close>

definition usesRollout :: "'l serviceState \<Rightarrow> request \<Rightarrow> bool" where
  "usesRollout s r \<longleftrightarrow> st_rollout s \<noteq> None \<and> (case st_rolloutController s of None \<Rightarrow> False | Some rc \<Rightarrow> requestUsesRolloutGroup rc r)"

definition loadBalancerForRequest :: "'l serviceState \<Rightarrow> request \<Rightarrow> targetSlot" where
  "loadBalancerForRequest s r = (if usesRollout s r then TargetSlotRollout else TargetSlotActive)"

definition cacheVariant :: "'l serviceState \<Rightarrow> request \<Rightarrow> string" where
  "cacheVariant s r = (if usesRollout s r then ''rollout'' else [])"

datatype idleVerdict = IdleReplied reply | IdleClientGone | IdlePass bool

definition answerIdleHealthCheck :: "idleController \<Rightarrow> reply option" where
  "answerIdleHealthCheck c =
     (if ic_state c = IdleStateActive then None
      else if ic_lastErr c \<noteq> None then Some (errorReply 503) else Some (errorReply 200))"

text \<open>The verdict and whether the request holds a slot it has to give back; \<open>None\<close> while it is held.\<close>

definition handleIdleRequest :: "time \<Rightarrow> (time \<times> idleController \<times> waitEvent) list \<Rightarrow> 'l serviceState \<Rightarrow> request \<Rightarrow> idleVerdict option" where
  "handleIdleRequest now rounds s r = (case st_idle s of
     None \<Rightarrow> Some (IdlePass False)
   | Some c \<Rightarrow>
       if req_internal r then Some (IdlePass False)
       else if isHealthCheckRequest (st_targetOptions s) r then
         (case answerIdleHealthCheck c of None \<Rightarrow> Some (IdlePass False) | Some y \<Rightarrow> Some (IdleReplied y))
       else map_option (\<lambda>b. case b of
              Begun \<Rightarrow> IdlePass True
            | ClientCanceled \<Rightarrow> IdleClientGone
            | Rejected _ \<Rightarrow> IdleReplied \<lparr>ry_status = 503, ry_header = hset [] ''Retry-After'' ''1''\<rparr>) (beginRequest now c rounds))"

definition slotBalancer :: "targetSlot \<Rightarrow> 'l serviceState \<Rightarrow> loadBalancer option" where
  "slotBalancer slot s = (if slot = TargetSlotRollout then st_rollout s else st_active s)"

text \<open>\<open>None\<close>: a nil load balancer is called.\<close>

definition startLoadBalancerRequest :: "time \<Rightarrow> nat \<Rightarrow> 'l serviceState \<Rightarrow> request \<Rightarrow> ('l serviceState \<times> targetSlot \<times> startResult) option" where
  "startLoadBalancerRequest now rid s r =
     (let slot = loadBalancerForRequest s r
      in map_option (\<lambda>lb. case lbStartRequest now rid lb r of
             (lb', res) \<Rightarrow> (if slot = TargetSlotRollout then s\<lparr>st_rollout := Some lb'\<rparr> else s\<lparr>st_active := Some lb'\<rparr>, slot, res))
           (slotBalancer slot s))"


section \<open>What a service serves follows its options\<close>

text \<open>The limiter has the rate and the burst the options ask for, whatever buckets it holds by now.\<close>

definition limitsBy :: "serviceOptions \<Rightarrow> 'l rateLimiter \<Rightarrow> bool" where
  "limitsBy so l \<longleftrightarrow> rl_limit l = so_rateLimit so
     \<and> rl_burst l = (if so_rateLimitBurst so \<le> 0 then max 1 \<lceil>so_rateLimit so\<rceil> else so_rateLimitBurst so)"

definition followsOptions :: "'l serviceEnv \<Rightarrow> 'l serviceState \<Rightarrow> bool" where
  "followsOptions env s \<longleftrightarrow>
     st_basicAuth s = resolveBasicAuth (sv_options s) \<and> st_allowedIPs s = resolveIPAllowList (sv_options s)
     \<and> st_denyRules s = resolveDenyList (vd_uaCompiles (se_validators env)) (sv_options s)
     \<and> resolvePathRules (vd_regex (se_validators env)) (sv_options s) = Inr (st_redirects s, st_rewrites s)
     \<and> (st_rateLimiter s \<noteq> None \<longleftrightarrow> 0 < so_rateLimit (sv_options s))
     \<and> (\<forall>l. st_rateLimiter s = Some l \<longrightarrow> limitsBy (sv_options s) l)
     \<and> st_clientCAs s = (so_tlsClientCACertificatePath (sv_options s) \<noteq> [])
     \<and> st_cacheEnabled s = co_enabled (so_cache (sv_options s))"

lemma configureIdle_keeps:
  "configureIdleController now so s = s\<lparr>st_idle := st_idle (configureIdleController now so s)\<rparr>"
  by (auto simp: configureIdleController_def Let_def split: option.split)

lemma followsOptions_idle: "followsOptions env (s\<lparr>st_idle := c\<rparr>) = followsOptions env s"
  by (simp add: followsOptions_def)

lemma followsOptions_configureIdle: "followsOptions env (configureIdleController now so s) = followsOptions env s"
  by (subst configureIdle_keeps) (rule followsOptions_idle)

lemma resolveRateLimiter_iff: "resolveRateLimiter ops so now \<noteq> None \<longleftrightarrow> 0 < so_rateLimit so"
  by (auto simp: resolveRateLimiter_def split: sum.split)

lemma resolveRateLimiter_limits: "resolveRateLimiter ops so now = Some l \<Longrightarrow> limitsBy so l"
  by (auto simp: resolveRateLimiter_def newRateLimiter_def newBareRateLimiter_def limitsBy_def Let_def split: if_split_asm sum.split_asm)

lemma rlAllow_limits: "rlAllow ops now r l = (ok, l') \<Longrightarrow> limitsBy so l' = limitsBy so l"
  by (auto simp: rlAllow_def spendFrom_def bucketFor_def sweepIfDue_def limitsBy_def Let_def
      split: if_split_asm option.split_asm prod.split_asm)

lemma followsOptions_derived:
  assumes "resolvePathRules (vd_regex (se_validators env)) so = Inr (redirects, rewrites)"
  shows "followsOptions env (derived env now so topts cm layers redirects rewrites s)"
  unfolding derived_def Let_def
  by (subst configureIdle_keeps) (use assms resolveRateLimiter_iff[of "se_limiter env" so now] in \<open>auto simp: followsOptions_def dest: resolveRateLimiter_limits\<close>)

lemma followsOptions_initialize:
  assumes "initialize env now so topts s = (eff, Inr s')"
  shows "followsOptions env s'"
  using assms followsOptions_derived
  by (auto simp: initialize_def Let_def split: sum.split_asm if_split_asm prod.split_asm)

lemma followsOptions_setContainerLifecycle: "followsOptions env s \<Longrightarrow> followsOptions env (setContainerLifecycle now l s)"
proof -
  assume s: "followsOptions env s"
  let ?s' = "configureIdleController now (sv_options s) (s\<lparr>st_lifecycle := l\<rparr>)"
  have "followsOptions env (s\<lparr>st_lifecycle := l\<rparr>)" using s by (simp add: followsOptions_def)
  then have s': "followsOptions env ?s'" by (simp add: followsOptions_configureIdle)
  then have "followsOptions env (serviceSuspendForSleep ?s')" by (simp add: followsOptions_def serviceSuspendForSleep_def)
  with s' show ?thesis by (simp add: setContainerLifecycle_def Let_def split: option.split)
qed

lemma followsOptions_rejectRateLimited:
  assumes "rejectRateLimited env now s r = (s1, y)"
  shows "followsOptions env s \<Longrightarrow> followsOptions env s1" and "s1 = s\<lparr>st_rateLimiter := st_rateLimiter s1\<rparr>"
  using assms
  by (auto simp: rejectRateLimited_def followsOptions_def rlAllow_limits[symmetric] split: option.split_asm if_split_asm prod.split_asm)

lemma orElse_Passed [simp]: "orElse s h next = (s', Passed r) \<longleftrightarrow> h = None \<and> next = (s', Passed r)"
  by (auto simp: orElse_def split: option.split)

lemma orElse_Replied [simp]: "orElse s h next = (s', Replied y) \<longleftrightarrow> h = Some y \<and> s' = s \<or> h = None \<and> next = (s', Replied y)"
  by (auto simp: orElse_def split: option.split)

text \<open>The operations on a service in place.\<close>

inductive serviceOp :: "'l serviceEnv \<Rightarrow> 'l serviceState \<Rightarrow> 'l serviceState \<Rightarrow> bool" for env where
  op_update: "updateOptions env now so topts s = (eff, Inr s') \<Longrightarrow> serviceOp env s s'"
| op_san: "serviceSetSANCertManager env now manager s = (eff, s') \<Longrightarrow> serviceOp env s s'"
| op_tls: "serviceOp env s (setTLS enabled redirect s)"
| op_redirects: "serviceOp env s (setDynamicRedirects m s)"
| op_cache: "serviceOp env s (serviceSetCacheStore s)"
| op_lifecycle: "serviceOp env s (setContainerLifecycle now l s)"
| op_balancer: "updateLoadBalancer now lb slot s = (s', replaced) \<Longrightarrow> serviceOp env s s'"
| op_split: "setRolloutSplit env percentage allowlist s = Inr s' \<Longrightarrow> serviceOp env s s'"
| op_stopRollout: "serviceOp env s (stopRollout s)"
| op_stop: "serviceStop message s = Inr s' \<Longrightarrow> serviceOp env s s'"
| op_pause: "serviceOp env s (servicePause timeout s)"
| op_resume: "serviceResume s = Inr s' \<Longrightarrow> serviceOp env s s'"
| op_recheck: "serviceOp env s (recheckTargetHealth s)"
| op_suspend: "serviceOp env s (serviceSuspendForSleep s)"
| op_wake: "serviceOp env s (serviceResumeFromSleep s)"
| op_dispose: "serviceOp env s (serviceDispose s)"
| op_request: "serviceRequestWithTarget env now released s r = (s', p) \<Longrightarrow> serviceOp env s s'"
| op_forward: "startLoadBalancerRequest now rid s r = Some (s', slot, res) \<Longrightarrow> serviceOp env s s'"

lemma serviceRequest_state:
  assumes "serviceRequestWithTarget env now released s r = (s', p)"
  shows "s' = s \<or> (\<exists>y. rejectRateLimited env now s r = (s', y))"
  using assms unfolding serviceRequestWithTarget_def by (cases p) (auto split: prod.split_asm)

lemma followsOptions_SAN:
  assumes "serviceSetSANCertManager env now manager s = (eff, s')" and "followsOptions env s"
  shows "followsOptions env s'"
proof (cases "so_tlsEnabled (sv_options s) \<and> so_tlsCertificatePath (sv_options s) = []")
  case True
  obtain eff0 res where i: "initialize env now (sv_options s) (st_targetOptions s) (s\<lparr>st_hasSAN := manager\<rparr>) = (eff0, res)" by fastforce
  show ?thesis
  proof (cases res)
    case (Inl e)
    then have "s' = (s\<lparr>st_hasSAN := manager\<rparr>)\<lparr>st_certManager := st_certManager s, st_middleware := st_middleware s\<rparr>"
      using assms(1) True i by (auto simp: serviceSetSANCertManager_def Let_def)
    then show ?thesis using assms(2) by (simp add: followsOptions_def)
  next
    case (Inr s2)
    then have "s' = s2" using assms(1) True i by (simp add: serviceSetSANCertManager_def Let_def)
    then show ?thesis using followsOptions_initialize i Inr by blast
  qed
next
  case False
  then have "s' = s\<lparr>st_hasSAN := manager\<rparr>" using assms(1) by (auto simp: serviceSetSANCertManager_def Let_def split: if_split_asm)
  then show ?thesis using assms(2) by (simp add: followsOptions_def)
qed

lemma followsOptions_balancer:
  assumes "updateLoadBalancer now lb slot s = (s', replaced)" and "followsOptions env s"
  shows "followsOptions env s'"
proof -
  have "s' = configureIdleController now (sv_options s) (if slot = TargetSlotRollout then s\<lparr>st_rollout := Some lb\<rparr> else s\<lparr>st_active := Some lb\<rparr>)"
    using assms(1) by (auto simp: updateLoadBalancer_def Let_def split: if_split_asm)
  then show ?thesis using assms(2) by (simp add: followsOptions_configureIdle) (simp add: followsOptions_def)
qed

lemma serviceOp_followsOptions:
  assumes "serviceOp env s s'" and "followsOptions env s"
  shows "followsOptions env s'"
  using assms
proof (induction rule: serviceOp.induct)
  case (op_request now released s r s' p)
  then show ?case using serviceRequest_state followsOptions_rejectRateLimited(1) by blast
next
  case (op_forward now rid s r s' slot res)
  then obtain lb where "s' = s\<lparr>st_rollout := lb\<rparr> \<or> s' = s\<lparr>st_active := lb\<rparr>"
    by (auto simp: startLoadBalancerRequest_def Let_def case_prod_beta split: if_split_asm)
  then show ?case using op_forward.prems by (auto simp: followsOptions_def)
next
  case (op_stop message s s')
  then show ?case by (auto simp: serviceStop_def followsOptions_def split: sum.split_asm)
next
  case (op_resume s s')
  then show ?case by (auto simp: serviceResume_def followsOptions_def split: sum.split_asm)
next
  case (op_split percentage allowlist s s')
  then show ?case by (auto simp: setRolloutSplit_def followsOptions_def split: if_split_asm)
next
  case (op_update now so topts s eff s')
  then show ?case unfolding updateOptions_def by (blast dest: followsOptions_initialize)
next
  case (op_san now manager s eff s')
  then show ?case by (blast dest: followsOptions_SAN)
next
  case (op_tls s enabled redirect)
  let ?so = "(sv_options s)\<lparr>so_tlsEnabled := enabled, so_tlsRedirect := redirect\<rparr>"
  have "resolvePathRules rx ?so = resolvePathRules rx (sv_options s)" for rx
    unfolding resolvePathRules_def by (cases "newPathRuleSet rx (so_redirects (sv_options s))") simp_all
  then show ?case using op_tls
    by (simp add: setTLS_def followsOptions_def limitsBy_def resolveBasicAuth_def resolveIPAllowList_def resolveDenyList_def hasDenyRules_def)
next
  case (op_lifecycle s now l)
  then show ?case by (rule followsOptions_setContainerLifecycle)
next
  case (op_balancer now lb slot s s' replaced)
  then show ?case by (blast dest: followsOptions_balancer)
qed (simp_all add: setDynamicRedirects_def serviceSetCacheStore_def stopRollout_def servicePause_def recheckTargetHealth_def
      serviceSuspendForSleep_def serviceResumeFromSleep_def serviceDispose_def followsOptions_def)

text \<open>The services a proxy starts with: deployed for the first time, or read from a saved state.\<close>

definition startedAs :: "'l serviceEnv \<Rightarrow> 'l serviceState \<Rightarrow> bool" where
  "startedAs env s \<longleftrightarrow> (\<exists>now name so topts san. snd (newService env now name so topts san) = Inr s)
     \<or> (\<exists>now ms. unmarshalService env now ms = Inr s)"

lemma unmarshalService_initialize:
  assumes "unmarshalService env now ms = Inr s"
  obtains active rollout pause where "newTargetList (ms_activeTargets (legacyFields ms)) (ms_activeReaders (legacyFields ms)) (ms_targetOptions (legacyFields ms)) = Inr active"
    and "newTargetList (ms_rolloutTargets (legacyFields ms)) (ms_rolloutReaders (legacyFields ms)) (ms_targetOptions (legacyFields ms)) = Inr rollout"
    and "snd (initialize env now (ms_options (legacyFields ms)) (ms_targetOptions (legacyFields ms))
       ((bareService (ms_name (legacyFields ms)) False)\<lparr>st_pause := pause, st_rolloutController := ms_rolloutController (legacyFields ms),
          st_active := Some (markAllHealthy (balancerFor env (ms_options (legacyFields ms)) active)),
          st_rollout := (if rollout \<noteq> [] then Some (markAllHealthy (balancerFor env (ms_options (legacyFields ms)) rollout)) else None),
          st_restoredIdle := parseIdleState (ms_idleState (legacyFields ms))\<rparr>)) = Inr s"
  using assms unfolding unmarshalService_def Let_def case_prod_beta by (simp split: sum.split_asm)

lemma startedAs_follows:
  assumes "startedAs env s"
  shows "followsOptions env s"
proof -
  obtain now so topts b where "snd (initialize env now so topts b) = Inr s"
    using assms unfolding startedAs_def newService_def by (auto elim: unmarshalService_initialize)
  then have "initialize env now so topts b = (fst (initialize env now so topts b), Inr s)" by (metis prod.collapse)
  then show ?thesis by (rule followsOptions_initialize)
qed

lemma reachable_followsOptions:
  assumes "startedAs env s0" and "(serviceOp env)\<^sup>*\<^sup>* s0 s"
  shows "followsOptions env s"
  using assms(2)
proof (induction rule: rtranclp_induct)
  case base
  then show ?case using assms(1) by (rule startedAs_follows)
next
  case (step s s')
  then show ?case using serviceOp_followsOptions by blast
qed

lemma passed_checks:
  assumes "serviceRequestWithTarget env now released s r = (s', Passed r')"
  shows "rejectDenied env s r = None" and "rejectDisallowedIP s r = None" and "req_tls r \<longrightarrow> so_tlsEnabled (sv_options s)"
    and "handleRedirectsIfNeeded env s r = None" and "rejectRateLimited env now s r = (s', None)"
    and "\<exists>r1. rejectUnauthenticated (se_sha256 env) (st_basicAuth s) (st_targetOptions s) r = (r1, None)
       \<and> handlePausedAndStoppedRequests now released s r1 = None \<and> r' = rewriteRequest (vd_regex (se_validators env)) (st_rewrites s) r1"
proof -
  obtain s1 limited where lim: "rejectRateLimited env now s r = (s1, limited)" by fastforce
  obtain rl where s1: "s1 = s\<lparr>st_rateLimiter := rl\<rparr>" using followsOptions_rejectRateLimited(2)[OF lim] by blast
  show "rejectDenied env s r = None" "rejectDisallowedIP s r = None" "req_tls r \<longrightarrow> so_tlsEnabled (sv_options s)"
    "handleRedirectsIfNeeded env s r = None"
    using assms by (auto simp: serviceRequestWithTarget_def split: if_split_asm)
  obtain r1 challenged where un: "rejectUnauthenticated (se_sha256 env) (st_basicAuth s1) (st_targetOptions s1) r = (r1, challenged)" by fastforce
  have "limited = None" "challenged = None" "handlePausedAndStoppedRequests now released s1 r1 = None" "s' = s1"
    "r' = rewriteRequest (vd_regex (se_validators env)) (st_rewrites s1) r1"
    using assms by (auto simp: serviceRequestWithTarget_def lim un)
  then show "rejectRateLimited env now s r = (s', None)"
    and "\<exists>r1. rejectUnauthenticated (se_sha256 env) (st_basicAuth s) (st_targetOptions s) r = (r1, None)
       \<and> handlePausedAndStoppedRequests now released s r1 = None \<and> r' = rewriteRequest (vd_regex (se_validators env)) (st_rewrites s) r1"
    using lim un s1 by (auto simp: handlePausedAndStoppedRequests_def)
qed

lemma rewriteRequest_header [simp]: "req_header (rewriteRequest rx rules r) = req_header r"
  by (auto simp: rewriteRequest_def split: option.split prod.split)


lemma plaintext_redirects:
  assumes "so_tlsEnabled so" and "so_tlsRedirect so" and "\<not> req_tls r" and "\<not> req_internal r"
  shows "redirectURLIfNeeded rx so redirects dyn r \<noteq> None"
  using assms by (auto simp: redirectURLIfNeeded_def desiredScheme_def currentScheme_def split: option.split)

lemma challenge_header:
  "hvalues (ry_header (errorReply n)) ''WWW-Authenticate'' = []"
  "hvalues (hset [] ''Retry-After'' v) ''WWW-Authenticate'' = []"
  "hvalues (hset (hset [] ''Connection'' w) ''Location'' v) ''WWW-Authenticate'' = []"
proof -
  have keys: "canonicalHeaderKey ''WWW-Authenticate'' \<noteq> canonicalHeaderKey ''Retry-After''"
    "canonicalHeaderKey ''WWW-Authenticate'' \<noteq> canonicalHeaderKey ''Connection''"
    "canonicalHeaderKey ''WWW-Authenticate'' \<noteq> canonicalHeaderKey ''Location''"
    by code_simp+
  have "hvalues [] k = []" for k by (simp add: hvalues_def)
  with keys show "hvalues (ry_header (errorReply n)) ''WWW-Authenticate'' = []"
    "hvalues (hset [] ''Retry-After'' v) ''WWW-Authenticate'' = []"
    "hvalues (hset (hset [] ''Connection'' w) ''Location'' v) ''WWW-Authenticate'' = []"
    by (simp_all add: errorReply_def header_simps)
qed

lemma challenged_checks:
  assumes "serviceRequestWithTarget env now released s r = (s', Replied y)" and "hvalues (ry_header y) ''WWW-Authenticate'' \<noteq> []"
  shows "handleRedirectsIfNeeded env s r = None \<and> \<not> req_internal r"
proof -
  obtain s1 limited where lim: "rejectRateLimited env now s r = (s1, limited)" by fastforce
  obtain r1 challenged where un: "rejectUnauthenticated (se_sha256 env) (st_basicAuth s1) (st_targetOptions s1) r = (r1, challenged)" by fastforce
  have no: "rejectDenied env s r \<noteq> Some y" "rejectDisallowedIP s r \<noteq> Some y" "y \<noteq> errorReply n" "handleRedirectsIfNeeded env s r \<noteq> Some y"
    "limited \<noteq> Some y" "handlePausedAndStoppedRequests now released s1 r1 \<noteq> Some y" for n
    using assms(2) lim
    by (auto simp: rejectDenied_def rejectDisallowedIP_def handleRedirectsIfNeeded_def rejectRateLimited_def handlePausedAndStoppedRequests_def challenge_header
        split: option.split_asm if_split_asm prod.split_asm pauseWaitAction.split_asm)
  then have "handleRedirectsIfNeeded env s r = None" and "challenged = Some y"
    using assms(1) by (auto simp: serviceRequestWithTarget_def lim un split: if_split_asm)
  then show ?thesis using un by (auto simp: rejectUnauthenticated_def Let_def split: option.split_asm if_split_asm)
qed

text \<open>C19: The order of the checks keeps its promises. Credentials are never asked for in the clear on a service that
  redirects to HTTPS: a challenge goes to requests over TLS only. And a request that is denied, not allowed or redirected,
  as well as a health check, spends nothing of its client's rate limit: the service is left as it was.\<close>

theorem check_order:
  assumes "serviceRequestWithTarget env now released s r = (s', p)"
  shows "(\<forall>y. p = Replied y \<and> hvalues (ry_header y) ''WWW-Authenticate'' \<noteq> [] \<and> so_tlsEnabled (sv_options s) \<and> so_tlsRedirect (sv_options s) \<longrightarrow> req_tls r)
    \<and> (s' \<noteq> s \<longrightarrow> rejectDenied env s r = None \<and> rejectDisallowedIP s r = None \<and> handleRedirectsIfNeeded env s r = None \<and> \<not> exemptRequest s r)"
proof -
  have 1: "req_tls r" if "p = Replied y" "hvalues (ry_header y) ''WWW-Authenticate'' \<noteq> []" "so_tlsEnabled (sv_options s)" "so_tlsRedirect (sv_options s)" for y
    using challenged_checks[of env now released s r s' y] assms that
      plaintext_redirects[of "sv_options s" r "vd_regex (se_validators env)" "st_redirects s" "st_dynamicRedirects s"]
    by (auto simp: handleRedirectsIfNeeded_def split: option.split_asm)
  have 2: "rejectDenied env s r = None \<and> rejectDisallowedIP s r = None \<and> handleRedirectsIfNeeded env s r = None \<and> \<not> exemptRequest s r" if "s' \<noteq> s"
  proof -
    have gates: "rejectDenied env s r = None \<and> rejectDisallowedIP s r = None \<and> handleRedirectsIfNeeded env s r = None"
      using assms that by (cases p) (auto simp: serviceRequestWithTarget_def)
    have "\<exists>y. rejectRateLimited env now s r = (s', y)" using serviceRequest_state[OF assms] that by blast
    then show ?thesis using gates that by (auto simp: rejectRateLimited_def split: option.split_asm if_split_asm)
  qed
  show ?thesis using 1 2 by blast
qed

text \<open>A service that is paused or stopped still answers its health checks with success, so that a load balancer in front of
  the proxy does not evict it: whatever rules the operator set, and without waiting, as long as the probe
  comes in over the right scheme and no redirect is due.\<close>

theorem paused_service_answers_probes:
  assumes "isHealthCheckRequest (st_targetOptions s) r" and "pc_state (st_pause s) \<noteq> PauseStateRunning"
    and "req_tls r \<longrightarrow> so_tlsEnabled (sv_options s)" and "handleRedirectsIfNeeded env s r = None"
  shows "serviceRequestWithTarget env now released s r = (s, Replied (errorReply 200))"
proof -
  have ex: "exemptRequest s r" using assms(1) by (simp add: exemptRequest_def)
  then have checks: "rejectDenied env s r = None" "rejectDisallowedIP s r = None" "rejectRateLimited env now s r = (s, None)"
    by (auto simp: rejectDenied_def rejectDisallowedIP_def rejectRateLimited_def split: option.split)
  obtain h where un: "rejectUnauthenticated (se_sha256 env) (st_basicAuth s) (st_targetOptions s) r = (r\<lparr>req_header := h\<rparr>, None)"
    using assms(1) by (cases "st_basicAuth s") (auto simp: rejectUnauthenticated_def Let_def intro!: that[of "req_header r"])
  have tls: "(if \<not> so_tlsEnabled (sv_options s) \<and> req_tls r then Some (errorReply 503) else None) = None" using assms(3) by auto
  show ?thesis unfolding serviceRequestWithTarget_def tls using un checks assms by (simp add: handlePausedAndStoppedRequests_def)
qed

section \<open>A service survives a restart\<close>

lemma newTarget_spec:
  assumes "validTarget t"
  shows "\<exists>t'. newTarget (targetSpec t) opts = Inr t' \<and> tg_address t' = tg_address t \<and> tg_weight t' = tg_weight t \<and> \<not> tg_readonly t'"
  using assms targetSpec_parses[OF assms] by (simp add: newTarget_def parseTargetURL_def validTarget_def)

lemma mapResult_specs:
  assumes "\<forall>t \<in> set ts. validTarget t \<and> tg_readonly t = reader"
  shows "\<exists>ts'. mapResult (\<lambda>u. (if reader then newReadOnlyTarget else newTarget) u opts) (specs ts) = Inr ts' \<and> map targetIdentity ts' = map targetIdentity ts"
  using assms
proof (induction ts)
  case (Cons t ts)
  obtain t' where t': "newTarget (targetSpec t) opts = Inr t'" "tg_address t' = tg_address t" "tg_weight t' = tg_weight t" "\<not> tg_readonly t'"
    using newTarget_spec Cons.prems by force
  then show ?case using Cons by (auto simp: specs_def newReadOnlyTarget_def targetIdentity_def)
qed (simp add: specs_def)

lemma newTargetList_specs:
  assumes "\<forall>t \<in> set ts. validTarget t"
  shows "\<exists>ts'. newTargetList (specs (filter (\<lambda>t. \<not> tg_readonly t) ts)) (specs (filter tg_readonly ts)) opts = Inr ts'
    \<and> map targetIdentity ts' = map targetIdentity (filter (\<lambda>t. \<not> tg_readonly t) ts @ filter tg_readonly ts)"
proof -
  obtain ws where "mapResult (\<lambda>u. newTarget u opts) (specs (filter (\<lambda>t. \<not> tg_readonly t) ts)) = Inr ws"
    "map targetIdentity ws = map targetIdentity (filter (\<lambda>t. \<not> tg_readonly t) ts)"
    using mapResult_specs[of "filter (\<lambda>t. \<not> tg_readonly t) ts" False opts] assms by auto
  moreover obtain rs where "mapResult (\<lambda>u. newReadOnlyTarget u opts) (specs (filter tg_readonly ts)) = Inr rs"
    "map targetIdentity rs = map targetIdentity (filter tg_readonly ts)"
    using mapResult_specs[of "filter tg_readonly ts" True opts] assms by auto
  ultimately show ?thesis by (simp add: newTargetList_def)
qed

lemma markAllHealthy_targets:
  "map targetIdentity (lb_all (markAllHealthy (balancerFor env so ts))) = map targetIdentity ts
   \<and> list_all (\<lambda>t. tg_state t = TargetStateHealthy) (lb_all (markAllHealthy (balancerFor env so ts)))"
  by (auto simp: markAllHealthy_def updateHealthyTargets_def Let_def balancerFor_def withSessionAffinity_def withRetryPolicy_def newLoadBalancer_def
      stopAllHealthChecks_def stopHealthChecks_def beginAllHealthChecks_def beginHealthChecks_def updateState_def targetIdentity_def list_all_iff comp_def)

lemma pcUnmarshal_state:
  "\<exists>p. pcUnmarshal st message failAfter = Inr p \<and> pc_state p = st \<and> pc_stopMessage p = (if st = PauseStateStopped then message else [])
     \<and> pc_failAfter p = failAfter"
  by (cases st) (auto simp: pcUnmarshal_def pcResume_def pcStop_def pcPause_def setState_def newPauseController_def)

definition writersFirst :: "loadBalancer \<Rightarrow> target list" where
  "writersFirst lb = writeTargets lb @ readTargets lb"

lemma set_balancers: "set (balancers s) = {lb. st_active s = Some lb \<or> st_rollout s = Some lb}"
  by (cases "st_active s"; cases "st_rollout s") (auto simp: balancers_def map_filter_simps)

lemma parseIdleState_string: "parseIdleState (idleStateString st) = (if st = IdleStateActive then IdleStateActive else IdleStateSleeping)"
  by (cases st) (simp_all add: parseIdleState_def)

definition savedIdle :: "'l serviceState \<Rightarrow> idleState" where
  "savedIdle s = (case st_idle s of None \<Rightarrow> IdleStateActive | Some c \<Rightarrow> ic_state c)"

definition restorable :: "'l serviceEnv \<Rightarrow> 'l serviceState \<Rightarrow> bool" where
  "restorable env s \<longleftrightarrow> followsOptions env s \<and> normalizeServiceOptions (sv_options s) = sv_options s
     \<and> (\<forall>lb \<in> set (balancers s). \<forall>t \<in> set (lb_all lb). validTarget t) \<and> (\<forall>lb. st_rollout s = Some lb \<longrightarrow> lb_all lb \<noteq> [])
     \<and> (\<exists>cm. snd (createCertManager env (sv_name s) False (sv_options s)) = Inr cm)
     \<and> (so_tlsClientCACertificatePath (sv_options s) \<noteq> [] \<longrightarrow> se_loadsClientCAs env (so_tlsClientCACertificatePath (sv_options s)))
     \<and> (so_errorPagePath (sv_options s) \<noteq> [] \<longrightarrow> se_loadsErrorPages env (so_errorPagePath (sv_options s)))"

lemma initialize_succeeds:
  assumes "snd (createCertManager env (sv_name s) (st_hasSAN s) so) = Inr cm"
    and "so_tlsClientCACertificatePath so \<noteq> [] \<longrightarrow> se_loadsClientCAs env (so_tlsClientCACertificatePath so)"
    and "so_errorPagePath so \<noteq> [] \<longrightarrow> se_loadsErrorPages env (so_errorPagePath so)"
    and "resolvePathRules (vd_regex (se_validators env)) so = Inr (redirects, rewrites)"
  shows "\<exists>layers. snd (initialize env now so topts s) = Inr (derived env now so (normalizeTargetTimeouts topts) cm layers redirects rewrites s)"
proof -
  obtain eff where "createCertManager env (sv_name s) (st_hasSAN s) so = (eff, Inr cm)" using assms(1) by (metis prod.collapse)
  moreover obtain layers where "createMiddleware env so (normalizeTargetTimeouts topts) cm = Inr layers" using assms(3) by (auto simp: createMiddleware_def)
  ultimately show ?thesis using assms(2,4) by (auto simp: initialize_def Let_def)
qed

lemma derived_keeps:
  "sv_name (derived env now so topts cm layers a b s) = sv_name s" "sv_options (derived env now so topts cm layers a b s) = so"
  "st_targetOptions (derived env now so topts cm layers a b s) = topts"
  "st_active (derived env now so topts cm layers a b s) = st_active s" "st_rollout (derived env now so topts cm layers a b s) = st_rollout s"
  "st_pause (derived env now so topts cm layers a b s) = st_pause s"
  "st_rolloutController (derived env now so topts cm layers a b s) = st_rolloutController s"
  "st_restoredIdle (derived env now so topts cm layers a b s) = st_restoredIdle s"
  unfolding derived_def Let_def by (subst configureIdle_keeps, simp)+

lemma legacyFields_current:
  assumes "marshalService s = Some ms" and "normalizeServiceOptions (sv_options s) = sv_options s"
  shows "legacyFields ms = ms"
proof -
  have "ms_legacyActiveTarget ms = []" "ms_legacyRolloutTarget ms = []" "ms_legacyHosts ms = []" "ms_legacyPathPrefixes ms = []" "ms_options ms = sv_options s"
    using assms(1) by (auto simp: marshalService_def)
  then show ?thesis using assms(2) by (cases ms) (simp add: legacyFields_def Let_def)
qed

lemma marshalled_balancer:
  assumes "\<forall>t \<in> set (lb_all lb). validTarget t"
  obtains ts where "newTargetList (specs (writeTargets lb)) (specs (readTargets lb)) opts = Inr ts" and "lb_all lb \<noteq> [] \<longrightarrow> ts \<noteq> []"
    and "map targetIdentity ts = map targetIdentity (writersFirst lb)"
proof -
  obtain ts where ts: "newTargetList (specs (writeTargets lb)) (specs (readTargets lb)) opts = Inr ts"
    "map targetIdentity ts = map targetIdentity (writersFirst lb)"
    using newTargetList_specs[OF assms, of opts] by (auto simp: writeTargets_def readTargets_def targetsMatchingReadonly_def writersFirst_def)
  moreover have "lb_all lb \<noteq> [] \<longrightarrow> writersFirst lb \<noteq> []"
    by (cases "lb_all lb") (auto simp: writersFirst_def writeTargets_def readTargets_def targetsMatchingReadonly_def)
  ultimately show thesis using that by (metis list.map_disc_iff)
qed

text \<open>The load balancer a restart makes of a saved one.\<close>

definition sameTargets :: "loadBalancer \<Rightarrow> loadBalancer \<Rightarrow> bool" where
  "sameTargets lb lb' \<longleftrightarrow> map targetIdentity (lb_all lb') = map targetIdentity (writersFirst lb)
     \<and> list_all (\<lambda>t. tg_state t = TargetStateHealthy) (lb_all lb')"

text \<open>A service survives a restart of the proxy. What it saves is read back into a service of the same name with the same
  options and the protections they ask for, the same targets in both slots (address, weight and role; writers
  before readers) all taken to be healthy, the same rollout split, pause state, stop message and time out, and it is
  asleep unless it was saved awake, as long as the files its options name can still be read.\<close>

theorem service_restart_roundtrip:
  fixes s :: "'a serviceState"
  assumes "marshalService s = Some ms" and "restorable env s"
  shows "\<exists>s'. unmarshalService env now ms = Inr s' \<and> sv_name s' = sv_name s \<and> sv_options s' = sv_options s \<and> followsOptions env s'
    \<and> st_targetOptions s' = normalizeTargetTimeouts (st_targetOptions s)
    \<and> rel_option sameTargets (st_active s) (st_active s') \<and> rel_option sameTargets (st_rollout s) (st_rollout s')
    \<and> st_rolloutController s' = st_rolloutController s
    \<and> pc_state (st_pause s') = pc_state (st_pause s) \<and> pc_failAfter (st_pause s') = pc_failAfter (st_pause s)
    \<and> (pc_state (st_pause s) = PauseStateStopped \<longrightarrow> pc_stopMessage (st_pause s') = pc_stopMessage (st_pause s))
    \<and> st_restoredIdle s' = (if savedIdle s = IdleStateActive then IdleStateActive else IdleStateSleeping)"
proof -
  have fo: "followsOptions env s" and norm: "normalizeServiceOptions (sv_options s) = sv_options s" using assms(2) by (simp_all add: restorable_def)
  obtain active where active: "st_active s = Some active" using assms(1) by (auto simp: marshalService_def)
  have lbs: "\<forall>t \<in> set (lb_all lb). validTarget t" if "st_active s = Some lb \<or> st_rollout s = Some lb" for lb
    using assms(2) that unfolding restorable_def set_balancers by blast
  have full: "lb_all lb \<noteq> []" if "st_rollout s = Some lb" for lb using assms(2) that unfolding restorable_def by blast
  obtain ts where ts: "newTargetList (specs (writeTargets active)) (specs (readTargets active)) (st_targetOptions s) = Inr ts"
    and idts: "map targetIdentity ts = map targetIdentity (writersFirst active)"
    by (rule marshalled_balancer[of active "st_targetOptions s"]) (use lbs[of active] active in auto)
  define saved where "saved = (case st_rollout s of None \<Rightarrow> ([], []) | Some lb \<Rightarrow> (specs (writeTargets lb), specs (readTargets lb)))"
  obtain rs where rs: "newTargetList (fst saved) (snd saved) (st_targetOptions s) = Inr rs"
    and idrs: "rel_option (\<lambda>lb rs. map targetIdentity rs = map targetIdentity (writersFirst lb)) (st_rollout s) (if rs \<noteq> [] then Some rs else None)"
  proof (cases "st_rollout s")
    case None
    then show ?thesis using that[of "[]"] by (simp add: saved_def newTargetList_def)
  next
    case (Some lb)
    obtain rs where "newTargetList (specs (writeTargets lb)) (specs (readTargets lb)) (st_targetOptions s) = Inr rs" "rs \<noteq> []"
      "map targetIdentity rs = map targetIdentity (writersFirst lb)"
      by (rule marshalled_balancer[of lb "st_targetOptions s"]) (use lbs[of lb] full[of lb] Some in auto)
    then show ?thesis using that[of rs] Some by (simp add: saved_def)
  qed
  obtain p where p: "pcUnmarshal (pc_state (st_pause s)) (pc_stopMessage (st_pause s)) (pc_failAfter (st_pause s)) = Inr p"
    and pst: "pc_state p = pc_state (st_pause s)" "pc_failAfter p = pc_failAfter (st_pause s)"
      "pc_stopMessage p = (if pc_state (st_pause s) = PauseStateStopped then pc_stopMessage (st_pause s) else [])"
    using pcUnmarshal_state by metis
  obtain cm where cm: "snd (createCertManager env (sv_name s) False (sv_options s)) = Inr cm" using assms(2) by (auto simp: restorable_def)
  define base :: "'a serviceState" where "base = (bareService (sv_name s) False)\<lparr>st_pause := p, st_rolloutController := st_rolloutController s,
     st_active := Some (markAllHealthy (balancerFor env (sv_options s) ts)),
     st_rollout := (if rs \<noteq> [] then Some (markAllHealthy (balancerFor env (sv_options s) rs)) else None),
     st_restoredIdle := parseIdleState (idleStateString (savedIdle s))\<rparr>"
  have "sv_name base = sv_name s" "st_hasSAN base = False" by (simp_all add: base_def bareService_def)
  then obtain layers where init: "snd (initialize env now (sv_options s) (st_targetOptions s) base)
      = Inr (derived env now (sv_options s) (normalizeTargetTimeouts (st_targetOptions s)) cm layers (st_redirects s) (st_rewrites s) base)"
    using initialize_succeeds[of env base "sv_options s" cm "st_redirects s" "st_rewrites s" now "st_targetOptions s"] cm fo assms(2)
    by (auto simp: restorable_def followsOptions_def)
  have "unmarshalService env now ms = snd (initialize env now (sv_options s) (st_targetOptions s) base)"
    using assms(1) ts rs p legacyFields_current[OF assms(1) norm]
    by (auto simp: unmarshalService_def Let_def marshalService_def active saved_def base_def savedIdle_def split: option.split_asm)
  with init obtain s' where s': "unmarshalService env now ms = Inr s'"
    "s' = derived env now (sv_options s) (normalizeTargetTimeouts (st_targetOptions s)) cm layers (st_redirects s) (st_rewrites s) base" by simp
  have "resolvePathRules (vd_regex (se_validators env)) (sv_options s) = Inr (st_redirects s, st_rewrites s)" using fo by (simp add: followsOptions_def)
  from followsOptions_derived[OF this] have "followsOptions env s'" unfolding s'(2) .
  moreover have "rel_option sameTargets (st_active s) (st_active base)"
    using active idts markAllHealthy_targets[of env "sv_options s" ts] by (simp add: base_def sameTargets_def)
  moreover have "rel_option sameTargets (st_rollout s) (st_rollout base)"
    using idrs markAllHealthy_targets[of env "sv_options s" rs] by (cases "st_rollout s"; cases "rs = []") (simp_all add: base_def sameTargets_def bareService_def)
  moreover have "sv_name s' = sv_name base" "sv_options s' = sv_options s" "st_targetOptions s' = normalizeTargetTimeouts (st_targetOptions s)"
    "st_active s' = st_active base" "st_rollout s' = st_rollout base" "st_pause s' = p" "st_rolloutController s' = st_rolloutController s"
    "st_restoredIdle s' = (if savedIdle s = IdleStateActive then IdleStateActive else IdleStateSleeping)"
    unfolding s'(2) derived_keeps by (simp_all add: base_def parseIdleState_string)
  ultimately show ?thesis using s'(1) pst \<open>sv_name base = sv_name s\<close> by auto
qed

section \<open>Examples\<close>

definition exampleEnv :: "bool serviceEnv" where
  "exampleEnv = \<lparr>se_validators = literalValidators, se_uaMatches = (\<lambda>p a. p = a), se_limiter = oneShot, se_sha256 = constantDigest,
     se_pinDigest = id, se_round = id, se_loadsCertificate = (\<lambda>_ _. True), se_loadsClientCAs = (\<lambda>_. True), se_loadsErrorPages = (\<lambda>_. True)\<rparr>"

definition loginService :: "bool serviceState" where
  "loginService = (case snd (newService exampleEnv 0 ''web'' (normalizeServiceOptions loginOptions) zeroTargetOptions False) of
     Inr s \<Rightarrow> s | Inl _ \<Rightarrow> bareService [] False)"

lemma loginService_new:
  "newService exampleEnv 0 ''web'' (normalizeServiceOptions loginOptions) zeroTargetOptions False = ([], Inr loginService)"
proof -
  have eff: "fst (newService exampleEnv 0 ''web'' (normalizeServiceOptions loginOptions) zeroTargetOptions False) = []" by code_simp
  have "\<not> isl (snd (newService exampleEnv 0 ''web'' (normalizeServiceOptions loginOptions) zeroTargetOptions False))" by code_simp
  then have "snd (newService exampleEnv 0 ''web'' (normalizeServiceOptions loginOptions) zeroTargetOptions False) = Inr loginService"
    by (cases "snd (newService exampleEnv 0 ''web'' (normalizeServiceOptions loginOptions) zeroTargetOptions False)") (simp_all add: loginService_def)
  with eff show ?thesis by (metis prod.collapse)
qed

lemma loginService_started: "startedAs exampleEnv loginService"
  unfolding startedAs_def using loginService_new by (metis snd_conv)

definition clearedRequest :: request where
  "clearedRequest = loginRequest\<lparr>req_header := []\<rparr>"


definition securedService :: "bool serviceState" where
  "securedService = setTLS True True loginService"

theorem check_order_witness:
  "\<exists>y. snd (serviceRequestWithTarget exampleEnv 0 PauseWaitActionProceed securedService (emptyRequest\<lparr>req_tls := True\<rparr>)) = Replied y
     \<and> hvalues (ry_header y) ''WWW-Authenticate'' \<noteq> [] \<and> req_tls (emptyRequest\<lparr>req_tls := True\<rparr>)"
proof -
  let ?run = "serviceRequestWithTarget exampleEnv 0 PauseWaitActionProceed securedService (emptyRequest\<lparr>req_tls := True\<rparr>)"
  let ?y = "\<lparr>ry_status = 401, ry_header = [(''Www-Authenticate'', [basicAuthRealm])]\<rparr>"
  have out: "snd ?run = Replied ?y" by code_simp
  then have run: "?run = (fst ?run, Replied ?y)" by (metis prod.collapse)
  have h: "hvalues (ry_header ?y) ''WWW-Authenticate'' \<noteq> []" by code_simp
  have "so_tlsEnabled (sv_options securedService)" "so_tlsRedirect (sv_options securedService)" by (simp_all add: securedService_def setTLS_def)
  with h show ?thesis using check_order[OF run] out by blast
qed

definition plainService :: "bool serviceState" where
  "plainService = (case snd (newService exampleEnv 0 ''web'' (normalizeServiceOptions zeroServiceOptions) zeroTargetOptions False) of
     Inr s \<Rightarrow> s | Inl _ \<Rightarrow> bareService [] False)"

lemma plainService_follows: "followsOptions exampleEnv plainService"
proof -
  let ?new = "newService exampleEnv 0 ''web'' (normalizeServiceOptions zeroServiceOptions) zeroTargetOptions False"
  have "\<not> isl (snd ?new)" by code_simp
  then have "snd ?new = Inr plainService" by (cases "snd ?new") (simp_all add: plainService_def)
  then show ?thesis by (intro startedAs_follows) (auto simp: startedAs_def)
qed

definition pausedService :: "bool serviceState" where
  "pausedService = servicePause 5 (plainService\<lparr>st_targetOptions := zeroTargetOptions\<lparr>to_healthCheck := zeroHealthCheckConfig\<lparr>hc_path := ''/up''\<rparr>\<rparr>\<rparr>)"

theorem paused_service_answers_probes_witness:
  "serviceRequestWithTarget exampleEnv 0 PauseWaitActionTimedOut pausedService (emptyRequest\<lparr>req_path := ''/up''\<rparr>) = (pausedService, Replied (errorReply 200))"
proof (rule paused_service_answers_probes)
  show "isHealthCheckRequest (st_targetOptions pausedService) (emptyRequest\<lparr>req_path := ''/up''\<rparr>)" by code_simp
  show "pc_state (st_pause pausedService) \<noteq> PauseStateRunning" by code_simp
  show "req_tls (emptyRequest\<lparr>req_path := ''/up''\<rparr>) \<longrightarrow> so_tlsEnabled (sv_options pausedService)" by (simp add: emptyRequest_def)
  show "handleRedirectsIfNeeded exampleEnv pausedService (emptyRequest\<lparr>req_path := ''/up''\<rparr>) = None" by code_simp
qed

definition examplePool2 :: "bool serviceState" where
  "examplePool2 = plainService\<lparr>st_active := Some examplePoolLB\<rparr>"

theorem service_restart_roundtrip_witness:
  "\<exists>s'. unmarshalService exampleEnv 7 (the (marshalService examplePool2)) = Inr s' \<and> sv_name s' = ''web''
     \<and> rel_option sameTargets (Some examplePoolLB) (st_active s')"
proof -
  have ms: "marshalService examplePool2 = Some (the (marshalService examplePool2))" by (simp add: marshalService_def examplePool2_def)
  have 1: "followsOptions exampleEnv examplePool2" using plainService_follows by (simp add: followsOptions_def examplePool2_def)
  have 2: "normalizeServiceOptions (sv_options examplePool2) = sv_options examplePool2" by code_simp
  have "list_all validTarget (lb_all examplePoolLB)" by code_simp
  moreover have "st_active examplePool2 = Some examplePoolLB" "st_rollout examplePool2 = None" by (simp add: examplePool2_def, code_simp)
  ultimately have 3: "\<forall>lb \<in> set (balancers examplePool2). \<forall>t \<in> set (lb_all lb). validTarget t" "\<forall>lb. st_rollout examplePool2 = Some lb \<longrightarrow> lb_all lb \<noteq> []"
    by (simp_all add: set_balancers list_all_iff)
  have "\<not> isl (snd (createCertManager exampleEnv (sv_name examplePool2) False (sv_options examplePool2)))" by code_simp
  then have 4: "\<exists>cm. snd (createCertManager exampleEnv (sv_name examplePool2) False (sv_options examplePool2)) = Inr cm" by (metis isl_def sum.exhaust)
  have 5: "restorable exampleEnv examplePool2" using 1 2 3 4 by (simp add: restorable_def exampleEnv_def)
  have 6: "sv_name examplePool2 = ''web''" by code_simp
  show ?thesis using service_restart_roundtrip[OF ms 5, of 7] unfolding 6 \<open>st_active examplePool2 = Some examplePoolLB\<close> by blast
qed

section \<open>A rollout deploy strands a sleeping service\<close>

text \<open>Installing rollout targets changes the containers a service's idle controller knows, which wakes the controller; nothing
  wakes the containers of the active slot or puts its targets back in the pool. A service that was asleep
  then counts as awake while every request for its active targets is refused, and each refused request keeps the
  idle timer from putting the service to sleep, from which it could be woken.\<close>

lemma claimTarget_empty: "lb_writers lb = [] \<Longrightarrow> lb_readers lb = [] \<Longrightarrow> \<exists>lb'. lbStartRequest now rid lb r = (lb', Refused 503)"
  by (cases "lb_sessionAffinity lb") (auto simp: lbStartRequest_def claimTarget_def Let_def nextTarget_def turn_def pinnedTarget_def split: prod.split option.split)

lemma rollout_strands_sleeping_service:
  assumes "st_idle s = Some c" and "ic_state c = IdleStateSleeping" and "0 < so_sleepAfter (sv_options s)"
    and "containerRefs (sv_options s) (s\<lparr>st_rollout := Some lb\<rparr>) \<noteq> ic_refs c"
    and "st_active s = Some active" and "lb_writers active = []" and "lb_readers active = []"
    and "updateLoadBalancer now lb TargetSlotRollout s = (s', replaced)"
  shows "map_option ic_state (st_idle s') = Some IdleStateActive \<and> st_active s' = Some active
    \<and> (\<not> usesRollout s' r \<longrightarrow> map_option (\<lambda>(_, slot, res). (slot, res)) (startLoadBalancerRequest t rid s' r) = Some (TargetSlotActive, Refused 503))"
proof -
  let ?s = "s\<lparr>st_rollout := Some lb\<rparr>"
  have "s' = configureIdleController now (sv_options s) ?s" using assms(8) by (simp add: updateLoadBalancer_def Let_def)
  moreover have "configureIdleController now (sv_options s) ?s
      = ?s\<lparr>st_idle := Some (icConfigure now (so_sleepAfter (sv_options s)) (so_wakeTimeout (sv_options s)) (containerRefs (sv_options s) ?s) c)\<rparr>"
    using assms(1,3) by (simp add: configureIdleController_def)
  ultimately have s': "s' = ?s\<lparr>st_idle := Some (icConfigure now (so_sleepAfter (sv_options s)) (so_wakeTimeout (sv_options s)) (containerRefs (sv_options s) ?s) c)\<rparr>"
    by simp
  have awake: "map_option ic_state (st_idle s') = Some IdleStateActive"
    unfolding s' using assms(4) by (auto simp: icConfigure_def Let_def supersede_def setStateLocked_def)
  have act: "st_active s' = Some active" using s' assms(5) by simp
  obtain lb' where "lbStartRequest t rid active r = (lb', Refused 503)" using claimTarget_empty assms(6,7) by blast
  then show ?thesis using awake act by (auto simp: startLoadBalancerRequest_def Let_def loadBalancerForRequest_def slotBalancer_def)
qed

end
