(* ===== verification/Router.thy ===== *)
theory Router
  imports Service
begin

text \<open>
  The router (\<open>router.go\<close>, \<open>router_idle.go\<close>, the restart half of \<open>service.go\<close>): routing a request to a service, deploying,
  rolling out and removing services under the router's lock, and saving and restoring the routing state. A state file
  either holds services in the form \<open>MarshalJSON\<close> gives them, or cannot be decoded. The steps a handler takes
  without the lock (waiting for targets to become healthy, taking a snapshot and writing it) are separate steps of
  the system at the end, so that handlers interleave there as they do in the program.
\<close>

section \<open>State\<close>

type_synonym 'l services = "('l, unit) serviceState_ext serviceMap"

datatype stateFile = NoFile | Undecodable | Saved "marshalledService list"

record 'l router =
  ro_services :: "'l services"
  ro_file :: stateFile
  ro_backup :: stateFile
  ro_recheckOnRestore :: bool
  ro_hasSAN :: bool
  ro_hasCacheStore :: bool
  ro_lifecycle :: bool

datatype containerCheck = ContainerKnown | ContainerUnknown | InspectForbidden | InspectFailed

datatype routerError = OptionsRejected serviceOptionsError | TargetOptionsRejected targetOptionsError | HealthCheckUnprotected
  | NoContainerLifecycle | NotAContainerRef | ContainerUnmanageable | TargetListInvalid targetError | FailedToBecomeHealthy
  | HostInUse | ServiceFailed serviceError | ServiceNotFound | CacheNotAvailable | NilLoadBalancer

definition newRouter :: "stateFile \<Rightarrow> stateFile \<Rightarrow> 'l router" where
  "newRouter file backup = \<lparr>ro_services = newServiceMap, ro_file = file, ro_backup = backup, ro_recheckOnRestore = False, ro_hasSAN = False,
     ro_hasCacheStore = False, ro_lifecycle = False\<rparr>"

definition serviceForName :: "'l router \<Rightarrow> string \<Rightarrow> 'l serviceState option" where
  "serviceForName r n = smGet (ro_services r) n"

text \<open>A change of one service in place, as a handler that holds its pointer makes it.\<close>

definition updateService :: "string \<Rightarrow> ('l serviceState \<Rightarrow> 'l serviceState) \<Rightarrow> 'l router \<Rightarrow> 'l router" where
  "updateService n f r = (case serviceForName r n of
     None \<Rightarrow> r
   | Some s \<Rightarrow> r\<lparr>ro_services := (ro_services r)\<lparr>sm_services := AList.update n (f s) (sm_services (ro_services r))\<rparr>\<rparr>)"

section \<open>Serving\<close>

datatype routed = NotFound404 | RoutedTo string request

definition routerServeHTTP :: "'l router \<Rightarrow> request \<Rightarrow> routed" where
  "routerServeHTTP r req = (case serviceForRequest (ro_services r) req of
     None \<Rightarrow> NotFound404
   | Some (n, prefix) \<Rightarrow>
       (case serviceForName r n of
          None \<Rightarrow> NotFound404
        | Some s \<Rightarrow> RoutedTo n (if so_stripPrefix (sv_options s) \<and> prefix \<noteq> rootPath then req\<lparr>req_matched_prefix := Some prefix\<rparr> else req)))"

datatype certificateError = NoServerName | UnknownServerName

text \<open>The certificate manager that answers a handshake, and for which name.\<close>

definition getCertificate :: "'l router \<Rightarrow> string \<Rightarrow> certificateError + string \<times> certManager" where
  "getCertificate r serverName =
     (let name = (if serverName = [] then sm_defaultTLSHostname (ro_services r) else serverName)
      in if name = [] then Inl NoServerName
         else case Option.bind (serviceForHost (sm_bindings (ro_services r)) name) (serviceForName r) of
                None \<Rightarrow> Inl UnknownServerName
              | Some s \<Rightarrow> (case st_certManager s of None \<Rightarrow> Inl UnknownServerName | Some cm \<Rightarrow> Inr (name, cm)))"

definition clientCAsForHost :: "'l router \<Rightarrow> string \<Rightarrow> bool" where
  "clientCAsForHost r host = (case Option.bind (serviceForHost (sm_bindings (ro_services r)) host) (serviceForName r) of
     None \<Rightarrow> False | Some s \<Rightarrow> st_clientCAs s)"

section \<open>Deploying\<close>

text \<open>The references checked are the ones named, or the write targets' own.\<close>

definition preflightRefs :: "serviceOptions \<Rightarrow> string list \<Rightarrow> targetOptions \<Rightarrow> routerError + string list" where
  "preflightRefs so targetURLs topts =
     (if so_sleepContainers so \<noteq> [] then Inr (so_sleepContainers so)
      else case newTargetList targetURLs [] topts of
             Inl e \<Rightarrow> Inl (TargetListInvalid e)
           | Inr ts \<Rightarrow> mapResult (\<lambda>t. case containerRef t of None \<Rightarrow> Inl NotAContainerRef | Some ref \<Rightarrow> Inr ref) ts)"

fun checkContainers :: "(string \<Rightarrow> containerCheck) \<Rightarrow> string list \<Rightarrow> routerError option" where
  "checkContainers inspect [] = None"
| "checkContainers inspect (ref # refs) = (case inspect ref of
     ContainerKnown \<Rightarrow> checkContainers inspect refs
   | ContainerUnknown \<Rightarrow> Some NotAContainerRef
   | InspectForbidden \<Rightarrow> checkContainers inspect refs
   | InspectFailed \<Rightarrow> Some ContainerUnmanageable)"

definition validateSleepConfiguration ::
  "(string \<Rightarrow> containerCheck) \<Rightarrow> bool \<Rightarrow> serviceOptions \<Rightarrow> string list \<Rightarrow> targetOptions \<Rightarrow> routerError option" where
  "validateSleepConfiguration inspect lifecycle so targetURLs topts =
     (if so_sleepAfter so \<le> 0 then None
      else if \<not> lifecycle then Some NoContainerLifecycle
      else case preflightRefs so targetURLs topts of Inl e \<Rightarrow> Some e | Inr refs \<Rightarrow> checkContainers inspect refs)"

definition validateDeploy :: "'l serviceEnv \<Rightarrow> (string \<Rightarrow> containerCheck) \<Rightarrow> bool \<Rightarrow> serviceOptions \<Rightarrow> string list \<Rightarrow> targetOptions \<Rightarrow> routerError option" where
  "validateDeploy env inspect lifecycle so targetURLs topts =
     (case validateServiceOptions (se_validators env) so of
        Some e \<Rightarrow> Some (OptionsRejected e)
      | None \<Rightarrow>
          (case validateTargetOptions topts of
             Some e \<Rightarrow> Some (TargetOptionsRejected e)
           | None \<Rightarrow>
               if \<not> validateBasicAuthHealthCheck so topts \<or> \<not> validateAllowIPsHealthCheck so topts \<or> \<not> validateDenyHealthCheck so topts
                  \<or> \<not> validateRateLimitHealthCheck so topts then Some HealthCheckUnprotected
               else validateSleepConfiguration inspect lifecycle so targetURLs topts))"

text \<open>\<open>createLoadBalancer\<close>: the balancer after the probes \<open>es\<close> that reported before the wait ended. A balancer that
  gave up is disposed and dropped.\<close>

definition createLoadBalancer :: "'l serviceEnv \<Rightarrow> string list \<Rightarrow> string list \<Rightarrow> serviceOptions \<Rightarrow> targetOptions \<Rightarrow> bool \<Rightarrow> lbEvent list \<Rightarrow> routerError + loadBalancer" where
  "createLoadBalancer env targetURLs readerURLs so topts force es =
     (case newTargetList targetURLs readerURLs topts of
        Inl e \<Rightarrow> Inl (TargetListInvalid e)
      | Inr ts \<Rightarrow>
          (let lb = lbRun es (balancerFor env so ts)
           in if \<not> force \<and> \<not> lb_healthySignalled lb then Inl FailedToBecomeHealthy else Inr lb))"

definition createOrUpdateService ::
  "'l serviceEnv \<Rightarrow> time \<Rightarrow> string \<Rightarrow> serviceOptions \<Rightarrow> targetOptions \<Rightarrow> 'l router \<Rightarrow> sanEffect list \<times> (serviceError + 'l serviceState)" where
  "createOrUpdateService env now name so topts r = (case serviceForName r name of
     None \<Rightarrow>
       (case newService env now name so topts (ro_hasSAN r) of
          (eff, Inl e) \<Rightarrow> (eff, Inl e)
        | (eff, Inr s) \<Rightarrow> (eff, Inr (setContainerLifecycle now (ro_lifecycle r) (serviceSetCacheStore s))))
   | Some s \<Rightarrow> updateOptions env now so topts s)"

text \<open>\<open>installLoadBalancer\<close> up to the snapshot it defers: one critical section.\<close>

definition installLoadBalancer ::
  "time \<Rightarrow> string \<Rightarrow> targetSlot \<Rightarrow> loadBalancer \<Rightarrow> serviceOptions \<Rightarrow> ('l router \<Rightarrow> sanEffect list \<times> (serviceError + 'l serviceState)) \<Rightarrow> 'l router
     \<Rightarrow> sanEffect list \<times> (routerError + 'l router \<times> loadBalancer option)" where
  "installLoadBalancer now name slot lb so getService r =
     (if checkAvailability (ro_services r) name so \<noteq> None then ([], Inl HostInUse)
      else case getService r of
             (eff, Inl e) \<Rightarrow> (eff, Inl (ServiceFailed e))
           | (eff, Inr s) \<Rightarrow>
               (case updateLoadBalancer now lb slot s of
                  (s', replaced) \<Rightarrow> (eff, Inr (r\<lparr>ro_services := smSet (ro_services r) s'\<rparr>, replaced))))"

definition installDeploy :: "'l serviceEnv \<Rightarrow> time \<Rightarrow> string \<Rightarrow> loadBalancer \<Rightarrow> serviceOptions \<Rightarrow> targetOptions \<Rightarrow> 'l router
    \<Rightarrow> sanEffect list \<times> (routerError + 'l router \<times> loadBalancer option)" where
  "installDeploy env now name lb so topts r =
     installLoadBalancer now name TargetSlotActive lb so (createOrUpdateService env now name so topts) r"

definition removeService :: "string \<Rightarrow> 'l router \<Rightarrow> routerError + 'l router" where
  "removeService name r = (case serviceForName r name of
     None \<Rightarrow> Inl ServiceNotFound
   | Some s \<Rightarrow> Inr (r\<lparr>ro_services := smRemove (ro_services r) (sv_name s)\<rparr>))"

definition purgeAvailable :: "string \<Rightarrow> 'l router \<Rightarrow> routerError option" where
  "purgeAvailable name r =
     (if serviceForName r name = None then Some ServiceNotFound else if \<not> ro_hasCacheStore r then Some CacheNotAvailable else None)"

section \<open>Operations on one service\<close>

definition routerSetRolloutSplit :: "'l serviceEnv \<Rightarrow> string \<Rightarrow> int \<Rightarrow> string list \<Rightarrow> 'l router \<Rightarrow> routerError + 'l router" where
  "routerSetRolloutSplit env name percent allowList r = (case serviceForName r name of
     None \<Rightarrow> Inl ServiceNotFound
   | Some s \<Rightarrow> (case setRolloutSplit env percent allowList s of Inl e \<Rightarrow> Inl (ServiceFailed e) | Inr s' \<Rightarrow> Inr (updateService name (\<lambda>_. s') r)))"

definition routerStopRollout :: "string \<Rightarrow> 'l router \<Rightarrow> routerError + 'l router" where
  "routerStopRollout name r = (if serviceForName r name = None then Inl ServiceNotFound else Inr (updateService name stopRollout r))"

definition pauseService :: "string \<Rightarrow> duration \<Rightarrow> 'l router \<Rightarrow> routerError + 'l router" where
  "pauseService name pauseTimeout r = (if serviceForName r name = None then Inl ServiceNotFound else Inr (updateService name (servicePause pauseTimeout) r))"

definition stopService :: "string \<Rightarrow> string \<Rightarrow> 'l router \<Rightarrow> routerError + 'l router" where
  "stopService name message r = (case serviceForName r name of
     None \<Rightarrow> Inl ServiceNotFound
   | Some s \<Rightarrow> (case serviceStop message s of Inl e \<Rightarrow> Inl (ServiceFailed e) | Inr s' \<Rightarrow> Inr (updateService name (\<lambda>_. s') r)))"

definition resumeService :: "string \<Rightarrow> 'l router \<Rightarrow> routerError + 'l router" where
  "resumeService name r = (case serviceForName r name of
     None \<Rightarrow> Inl ServiceNotFound
   | Some s \<Rightarrow> (case serviceResume s of Inl e \<Rightarrow> Inl (ServiceFailed e) | Inr s' \<Rightarrow> Inr (updateService name (\<lambda>_. s') r)))"

definition pauseStateString :: "pauseState \<Rightarrow> string" where
  "pauseStateString st = (case st of PauseStateRunning \<Rightarrow> ''running'' | PauseStatePaused \<Rightarrow> ''paused'' | PauseStateStopped \<Rightarrow> ''stopped'')"

definition describeServiceState :: "'l serviceState \<Rightarrow> string" where
  "describeServiceState s =
     (if pc_state (st_pause s) \<noteq> PauseStateRunning then pauseStateString (pc_state (st_pause s))
      else case st_idle s of
             Some c \<Rightarrow> if ic_state c \<noteq> IdleStateActive then idleStateString (ic_state c) else pauseStateString (pc_state (st_pause s))
           | None \<Rightarrow> pauseStateString (pc_state (st_pause s)))"

definition mapServices :: "('l serviceState \<Rightarrow> 'l serviceState) \<Rightarrow> 'l router \<Rightarrow> 'l router" where
  "mapServices f r = r\<lparr>ro_services := (ro_services r)\<lparr>sm_services := map (\<lambda>(n, s). (n, f s)) (sm_services (ro_services r))\<rparr>\<rparr>"

definition routerSetContainerLifecycle :: "time \<Rightarrow> bool \<Rightarrow> 'l router \<Rightarrow> 'l router" where
  "routerSetContainerLifecycle now lifecycle r = mapServices (setContainerLifecycle now lifecycle) (r\<lparr>ro_lifecycle := lifecycle\<rparr>)"

definition routerSetCacheStore :: "bool \<Rightarrow> 'l router \<Rightarrow> 'l router" where
  "routerSetCacheStore store r = mapServices serviceSetCacheStore (r\<lparr>ro_hasCacheStore := store\<rparr>)"

definition routerSetSANCertManager :: "'l serviceEnv \<Rightarrow> time \<Rightarrow> bool \<Rightarrow> 'l router \<Rightarrow> sanEffect list \<times> 'l router" where
  "routerSetSANCertManager env now manager r =
     (concat (map (\<lambda>(n, s). fst (serviceSetSANCertManager env now manager s)) (sm_services (ro_services r))),
      mapServices (\<lambda>s. snd (serviceSetSANCertManager env now manager s)) (r\<lparr>ro_hasSAN := manager\<rparr>))"

section \<open>Saving and restoring\<close>

fun allSome :: "'a option list \<Rightarrow> 'a list option" where
  "allSome [] = Some []"
| "allSome (x # xs) = (case (x, allSome xs) of (Some y, Some ys) \<Rightarrow> Some (y # ys) | _ \<Rightarrow> None)"

definition stateSnapshot :: "'l router \<Rightarrow> marshalledService list option" where
  "stateSnapshot r = allSome (map (\<lambda>(_, s). marshalService s) (sm_services (ro_services r)))"

definition decodeStateServices :: "'l serviceEnv \<Rightarrow> time \<Rightarrow> stateFile \<Rightarrow> 'l serviceState list option" where
  "decodeStateServices env now f = (case f of
     Saved mss \<Rightarrow> (case mapResult (unmarshalService env now) mss of Inl _ \<Rightarrow> None | Inr ss \<Rightarrow> Some ss)
   | _ \<Rightarrow> None)"

text \<open>\<open>writeFileAtomic\<close> leaves a complete file; here it succeeds. The services to install, and the two files.\<close>

definition restoreFiles :: "'l serviceEnv \<Rightarrow> time \<Rightarrow> 'l router \<Rightarrow> ('l serviceState list option \<times> stateFile \<times> stateFile) option" where
  "restoreFiles env now r = (case ro_file r of
     NoFile \<Rightarrow> Some (None, ro_file r, ro_backup r)
   | file \<Rightarrow>
       (case decodeStateServices env now file of
          Some ss \<Rightarrow> Some (Some ss, file, file)
        | None \<Rightarrow>
            (case decodeStateServices env now (ro_backup r) of
               Some ss \<Rightarrow> Some (Some ss, ro_backup r, ro_backup r)
             | None \<Rightarrow> None)))"

definition restoreSleepingService :: "time \<Rightarrow> 'l router \<Rightarrow> 'l serviceState \<Rightarrow> 'l serviceState" where
  "restoreSleepingService now r s = (if ro_lifecycle r then setContainerLifecycle now True s else s)"

definition restoreLastSavedState :: "'l serviceEnv \<Rightarrow> time \<Rightarrow> 'l router \<Rightarrow> 'l router option" where
  "restoreLastSavedState env now r = (case restoreFiles env now r of
     None \<Rightarrow> None
   | Some (None, _, _) \<Rightarrow> Some r
   | Some (Some ss, file, backup) \<Rightarrow>
       (let r1 = r\<lparr>ro_file := file, ro_backup := backup, ro_services := fold (\<lambda>s m. smSet m s) ss newServiceMap\<rparr>;
            r2 = mapServices (restoreSleepingService now r) r1
        in Some (if ro_recheckOnRestore r then mapServices recheckTargetHealth r2 else r2)))"

section \<open>Handlers side by side\<close>

text \<open>A rollout deploy between its look-up of the service and the installation: it holds the service's pointer, so when the
  service is removed in between it goes on with the object that was removed.\<close>

record 'l pendingRollout =
  pr_name :: string
  pr_balancer :: loadBalancer
  pr_removed :: "'l serviceState option"

record 'l routerSystem =
  rs_router :: "'l router"
  rs_rollouts :: "'l pendingRollout list"
  rs_saves :: "marshalledService list list"  \<comment> \<open>snapshots taken and not yet written\<close>

definition orphanRollouts :: "string \<Rightarrow> 'l serviceState \<Rightarrow> 'l pendingRollout list \<Rightarrow> 'l pendingRollout list" where
  "orphanRollouts name s ps = map (\<lambda>p. if pr_name p = name \<and> pr_removed p = None then p\<lparr>pr_removed := Some (serviceDispose s)\<rparr> else p) ps"

definition rolloutObject :: "'l router \<Rightarrow> 'l pendingRollout \<Rightarrow> 'l serviceState option" where
  "rolloutObject r p = (case pr_removed p of Some s \<Rightarrow> Some s | None \<Rightarrow> serviceForName r (pr_name p))"

definition setBalancer :: "targetSlot \<Rightarrow> loadBalancer \<Rightarrow> 'l serviceState \<Rightarrow> 'l serviceState" where
  "setBalancer slot lb s = (if slot = TargetSlotRollout then s\<lparr>st_rollout := Some lb\<rparr> else s\<lparr>st_active := Some lb\<rparr>)"

definition startSystem :: "'l router \<Rightarrow> 'l routerSystem" where
  "startSystem r = \<lparr>rs_router = r, rs_rollouts = [], rs_saves = []\<rparr>"

text \<open>A step is what one handler, goroutine or probe does between taking and giving back a lock. A deploy's installation is one step: \<open>initialize\<close>
  writes the options and what is derived from them field by field under the router's lock, which the requests in progress do not take.
  The idle controller of a service changes as \<open>Idle\<close> describes; here it takes any value. The start of the process is \<open>startSystem\<close>, a crash or an upgrade
  \<open>restart\<close>, which keeps the two state files and nothing else; \<open>RestoreLastSavedState\<close> runs before anything is deployed.\<close>

inductive routerStep :: "'l serviceEnv \<Rightarrow> 'l routerSystem \<Rightarrow> 'l routerSystem \<Rightarrow> bool" for env where
  deploy: "validateDeploy env inspect (ro_lifecycle (rs_router x)) so targetURLs topts = None \<Longrightarrow>
     createLoadBalancer env targetURLs readerURLs (normalizeServiceOptions so) topts force es = Inr lb \<Longrightarrow>
     installDeploy env now name lb (normalizeServiceOptions so) topts (rs_router x) = (eff, Inr (r', replaced)) \<Longrightarrow>
     routerStep env x (x\<lparr>rs_router := r'\<rparr>)"
| rollout_begin: "serviceForName (rs_router x) name = Some s \<Longrightarrow>
     createLoadBalancer env targetURLs readerURLs (sv_options s) (st_targetOptions s) force es = Inr lb \<Longrightarrow>
     routerStep env x (x\<lparr>rs_rollouts := \<lparr>pr_name = name, pr_balancer = lb, pr_removed = None\<rparr> # rs_rollouts x\<rparr>)"
| rollout_install: "rs_rollouts x = ps @ p # qs \<Longrightarrow> rolloutObject (rs_router x) p = Some s \<Longrightarrow>
     installLoadBalancer now (pr_name p) TargetSlotRollout (pr_balancer p) (sv_options s) (\<lambda>_. ([], Inr s)) (rs_router x) = (eff, Inr (r', replaced)) \<Longrightarrow>
     routerStep env x (x\<lparr>rs_router := r', rs_rollouts := ps @ qs\<rparr>)"
| remove: "serviceForName (rs_router x) name = Some s \<Longrightarrow> removeService name (rs_router x) = Inr r' \<Longrightarrow>
     routerStep env x (x\<lparr>rs_router := r', rs_rollouts := orphanRollouts name s (rs_rollouts x)\<rparr>)"
| rollout_split: "routerSetRolloutSplit env name percent allowList (rs_router x) = Inr r' \<Longrightarrow> routerStep env x (x\<lparr>rs_router := r'\<rparr>)"
| rollout_stop: "routerStopRollout name (rs_router x) = Inr r' \<Longrightarrow> routerStep env x (x\<lparr>rs_router := r'\<rparr>)"
| pause: "pauseService name timeout (rs_router x) = Inr r' \<Longrightarrow> routerStep env x (x\<lparr>rs_router := r'\<rparr>)"
| stop: "stopService name message (rs_router x) = Inr r' \<Longrightarrow> routerStep env x (x\<lparr>rs_router := r'\<rparr>)"
| resume: "resumeService name (rs_router x) = Inr r' \<Longrightarrow> routerStep env x (x\<lparr>rs_router := r'\<rparr>)"
| request: "serviceForName (rs_router x) name = Some s \<Longrightarrow> serviceRequestWithTarget env now released s req = (s', out) \<Longrightarrow>
     routerStep env x (x\<lparr>rs_router := updateService name (\<lambda>_. s') (rs_router x)\<rparr>)"
| forward: "serviceForName (rs_router x) name = Some s \<Longrightarrow> startLoadBalancerRequest now rid s req = Some (s', slot, res) \<Longrightarrow>
     routerStep env x (x\<lparr>rs_router := updateService name (\<lambda>_. s') (rs_router x)\<rparr>)"
| probe: "serviceForName (rs_router x) name = Some s \<Longrightarrow> slotBalancer slot s = Some lb \<Longrightarrow>
     routerStep env x (x\<lparr>rs_router := updateService name (setBalancer slot (probeCompleted i ok lb)) (rs_router x)\<rparr>)"
| request_end: "serviceForName (rs_router x) name = Some s \<Longrightarrow> slotBalancer slot s = Some lb \<Longrightarrow>
     routerStep env x (x\<lparr>rs_router := updateService name
       (setBalancer slot (lb\<lparr>lb_all := (lb_all lb)[i := endInflightRequest rid (lb_all lb ! i)]\<rparr>)) (rs_router x)\<rparr>)"
| sleep: "routerStep env x (x\<lparr>rs_router := updateService name serviceSuspendForSleep (rs_router x)\<rparr>)"
| wake: "routerStep env x (x\<lparr>rs_router := updateService name serviceResumeFromSleep (rs_router x)\<rparr>)"
| idle_controller: "routerStep env x (x\<lparr>rs_router := updateService name (\<lambda>s. s\<lparr>st_idle := c\<rparr>) (rs_router x)\<rparr>)"
| dynamic_redirects: "routerStep env x (x\<lparr>rs_router := updateService name (setDynamicRedirects m) (rs_router x)\<rparr>)"
| set_san: "routerSetSANCertManager env now manager (rs_router x) = (eff, r') \<Longrightarrow> routerStep env x (x\<lparr>rs_router := r'\<rparr>)"
| set_lifecycle: "routerStep env x (x\<lparr>rs_router := routerSetContainerLifecycle now lifecycle (rs_router x)\<rparr>)"
| set_cache: "routerStep env x (x\<lparr>rs_router := routerSetCacheStore store (rs_router x)\<rparr>)"
| recheck_on_restore: "routerStep env x (x\<lparr>rs_router := (rs_router x)\<lparr>ro_recheckOnRestore := True\<rparr>\<rparr>)"
| snapshot: "stateSnapshot (rs_router x) = Some mss \<Longrightarrow> routerStep env x (x\<lparr>rs_saves := mss # rs_saves x\<rparr>)"
| write_state: "rs_saves x = as @ mss # bs \<Longrightarrow>
     routerStep env x (x\<lparr>rs_router := (rs_router x)\<lparr>ro_file := Saved mss\<rparr>, rs_saves := as @ bs\<rparr>)"
| restart: "routerStep env x (startSystem (newRouter (ro_file (rs_router x)) (ro_backup (rs_router x))))"
| restore: "sm_services (ro_services (rs_router x)) = [] \<Longrightarrow> rs_rollouts x = [] \<Longrightarrow>
     restoreLastSavedState env now (rs_router x) = Some r' \<Longrightarrow> routerStep env x (x\<lparr>rs_router := r'\<rparr>)"

section \<open>Every service stays well-formed\<close>

definition lbOK :: "loadBalancer \<Rightarrow> bool" where
  "lbOK lb \<longleftrightarrow> lbInv lb \<and> (\<forall>t \<in> set (lb_all lb). validTarget t)"

lemma validTarget_identity: "targetIdentity a = targetIdentity b \<Longrightarrow> validTarget a = validTarget b"
  by (simp add: targetIdentity_def validTarget_def)

lemma validTargets_roles: "roles ts' = roles ts \<Longrightarrow> (\<forall>t \<in> set ts'. validTarget t) = (\<forall>t \<in> set ts. validTarget t)"
  unfolding all_set_conv_all_nth using roles_length roles_nth_identity validTarget_identity by metis

lemma newTargetList_valid: "newTargetList targetURLs readerURLs topts = Inr ts \<Longrightarrow> t \<in> set ts \<Longrightarrow> validTarget t"
proof -
  assume a: "newTargetList targetURLs readerURLs topts = Inr ts" and t: "t \<in> set ts"
  obtain ws rs where ws: "mapResult (\<lambda>u. newTarget u topts) targetURLs = Inr ws"
    and rs: "mapResult (\<lambda>u. newReadOnlyTarget u topts) readerURLs = Inr rs" and ts: "ts = ws @ rs"
    using a by (auto simp: newTargetList_def split: sum.split_asm)
  show ?thesis
  proof (cases "t \<in> set ws")
    case True
    then show ?thesis using mapResult_image[OF ws] newTarget_valid by blast
  next
    case False
    then obtain u where "newReadOnlyTarget u topts = Inr t" using mapResult_image[OF rs] t ts by auto
    then obtain t0 where "newTarget u topts = Inr t0" "t = t0\<lparr>tg_readonly := True\<rparr>"
      by (auto simp: newReadOnlyTarget_def dest: map_sum_Inr)
    then show ?thesis using newTarget_valid by (auto simp: validTarget_def)
  qed
qed

lemma newTargetList_length: "newTargetList targetURLs readerURLs topts = Inr ts \<Longrightarrow> length ts = length targetURLs + length readerURLs"
proof -
  have "mapResult f xs = Inr ys \<Longrightarrow> length ys = length xs" for f :: "string \<Rightarrow> targetError + target" and xs ys
    by (induction xs arbitrary: ys) (auto split: sum.split_asm)
  moreover assume "newTargetList targetURLs readerURLs topts = Inr ts"
  ultimately show ?thesis by (auto simp: newTargetList_def split: sum.split_asm)
qed

lemma balancerFor_targets: "lb_all (balancerFor env so ts) = beginAllHealthChecks ts"
  by (simp add: balancerFor_def withSessionAffinity_def withRetryPolicy_def newLoadBalancer_def)

lemma lbOK_balancerFor:
  assumes "\<And>t. t \<in> set ts \<Longrightarrow> validTarget t"
  shows "lbOK (balancerFor env so ts)"
proof -
  have "lbInv (balancerFor env so ts)" unfolding balancerFor_def
    by (intro lbInv_withSessionAffinity lbInv_withRetryPolicy lbInv_newLoadBalancer)
  moreover have "\<forall>t \<in> set (beginAllHealthChecks ts). validTarget t" using assms validTargets_roles[of "beginAllHealthChecks ts" ts] by simp
  ultimately show ?thesis by (simp add: lbOK_def balancerFor_targets)
qed

lemma updateHealthyTargets_roles: "roles (lb_all (updateHealthyTargets lb)) = roles (lb_all lb)"
  by (simp add: updateHealthyTargets_def Let_def)

lemma lbStep_roles: "lbInv lb \<Longrightarrow> roles (lb_all (lbStep e lb)) = roles (lb_all lb)"
proof (cases e)
  case (Probed i ok)
  then show ?thesis
    by (simp add: probeCompleted_def Let_def updateHealthyTargets_roles roles_update healthCheckCompleted_def split: prod.split)
next
  case (Placed now rid r)
  assume "lbInv lb"
  obtain lb' res where c: "claimTarget now rid lb r = (lb', res)" by fastforce
  then show ?thesis using claimTarget_shape(1)[OF \<open>lbInv lb\<close> c] Placed by simp
qed

lemma lbStep_lbInv: "lbInv lb \<Longrightarrow> lbInv (lbStep e lb)"
proof (cases e)
  case (Placed now rid r)
  assume "lbInv lb"
  obtain lb' res where c: "claimTarget now rid lb r = (lb', res)" by fastforce
  then show ?thesis using lbInv_claimTarget[OF \<open>lbInv lb\<close> c] Placed by simp
qed (simp add: lbInv_probeCompleted)

lemma lbRun_OK: "lbOK lb \<Longrightarrow> lbOK (lbRun es lb) \<and> roles (lb_all (lbRun es lb)) = roles (lb_all lb)"
proof (induction es arbitrary: lb)
  case (Cons e es)
  have "lbOK (lbStep e lb)" and r: "roles (lb_all (lbStep e lb)) = roles (lb_all lb)"
    using Cons.prems lbStep_roles lbStep_lbInv validTargets_roles unfolding lbOK_def by blast+
  from Cons.IH[OF this(1)] r show ?case by (simp add: lbRun_def)
qed (simp add: lbRun_def)

lemma createLoadBalancer_OK:
  assumes "createLoadBalancer env targetURLs readerURLs so topts force es = Inr lb"
  shows "lbOK lb" and "length (lb_all lb) = length targetURLs + length readerURLs"
proof -
  obtain ts where ts: "newTargetList targetURLs readerURLs topts = Inr ts" and lb: "lb = lbRun es (balancerFor env so ts)"
    using assms by (auto simp: createLoadBalancer_def Let_def split: sum.split_asm if_split_asm)
  have "lbOK (balancerFor env so ts)" using lbOK_balancerFor newTargetList_valid[OF ts] by blast
  from lbRun_OK[OF this, of es] show "lbOK lb" and "length (lb_all lb) = length targetURLs + length readerURLs"
    using newTargetList_length[OF ts] roles_length[of "lb_all lb" "beginAllHealthChecks ts"]
    by (simp_all add: lb balancerFor_targets beginAllHealthChecks_def)
qed

definition serviceOK :: "'l serviceEnv \<Rightarrow> 'l serviceState \<Rightarrow> bool" where
  "serviceOK env s \<longleftrightarrow> followsOptions env s \<and> normalizeServiceOptions (sv_options s) = sv_options s \<and> st_active s \<noteq> None
     \<and> (\<forall>lb. st_active s = Some lb \<or> st_rollout s = Some lb \<longrightarrow> lbOK lb)"

lemma buildBindings_routings:
  fixes a b :: "(string \<times> 'm service_scheme) list"
  assumes "routings a = routings b"
  shows "buildBindings a = buildBindings b"
proof -
  have bind: "bindService s rm = bindService t rm" if "routingOf s = routingOf t" for s t :: "'m service_scheme" and rm
    using that by (simp add: bindService_def routingOf_def)
  have "fold (\<lambda>(_, s). bindService s) a rm = fold (\<lambda>(_, s). bindService s) b rm" for rm
    using assms
  proof (induction a arbitrary: b rm)
    case (Cons x a)
    obtain y b' where b: "b = y # b'" using Cons.prems by (cases b) (auto simp: routings_def)
    then have "routingOf (snd x) = routingOf (snd y)" "routings a = routings b'"
      using Cons.prems by (cases x; cases y; simp add: routings_def)+
    then show ?case using b Cons.IH[of b'] bind[of "snd x" "snd y"] by (simp add: case_prod_beta)
  qed (simp add: routings_def)
  then show ?thesis by (simp add: buildBindings_def)
qed

lemma update_forall: "\<forall>s \<in> snd ` set xs. P s \<Longrightarrow> P t \<Longrightarrow> \<forall>s \<in> snd ` set (AList.update n t xs). P s"
  by (auto dest!: set_AList_update)

lemma sync_forall:
  assumes "\<forall>s \<in> snd ` set svcs. P s" and "\<And>s a b. P s \<Longrightarrow> P (setTLS a b s)"
  shows "\<forall>s \<in> snd ` set (syncTLSOptionsFromRootDomain rm svcs). P s"
proof -
  have "\<forall>s \<in> snd ` set (syncTLSOne rm n xs). P s" if "\<forall>s \<in> snd ` set xs. P s" for n xs
  proof (cases "map_of xs n")
    case (Some s)
    have "P s" using that Some by (force dest!: map_of_SomeD)
    moreover have "syncTLSOne rm n xs = xs \<or> (\<exists>a b. syncTLSOne rm n xs = AList.update n (setTLS a b s) xs)"
      using Some by (auto simp: syncTLSOne_def split: option.split)
    ultimately consider "syncTLSOne rm n xs = xs" | a b where "syncTLSOne rm n xs = AList.update n (setTLS a b s) xs" "P (setTLS a b s)"
      using assms(2) by blast
    then show ?thesis
    proof cases
      case 1
      show ?thesis unfolding 1 by (rule that)
    next
      case (2 a b)
      show ?thesis unfolding 2(1) by (rule update_forall[OF that 2(2)])
    qed
  qed (use that in \<open>simp add: syncTLSOne_def\<close>)
  then show ?thesis unfolding syncTLSOptionsFromRootDomain_def
    by (intro fold_invariant[where Q = "\<lambda>_. True" and P = "\<lambda>xs. \<forall>s \<in> snd ` set xs. P s"] assms(1)) blast+
qed

lemma rebuilt_services:
  "sm_services (updateDefaultTLSHostname (updateRequestServiceMap (m\<lparr>sm_services := svcs\<rparr>))) = syncTLSOptionsFromRootDomain (buildBindings svcs) svcs"
  "sm_bindings (updateDefaultTLSHostname (updateRequestServiceMap (m\<lparr>sm_services := svcs\<rparr>))) = buildBindings svcs"
  by (simp_all add: updateDefaultTLSHostname_def updateRequestServiceMap_def Let_def split: option.split)

lemma rebuilt_bindings:
  "sm_bindings (updateDefaultTLSHostname (updateRequestServiceMap (m\<lparr>sm_services := svcs\<rparr>)))
     = buildBindings (sm_services (updateDefaultTLSHostname (updateRequestServiceMap (m\<lparr>sm_services := svcs\<rparr>))))"
  unfolding rebuilt_services by (rule buildBindings_routings) (simp add: routings_sync)

text \<open>The TLS settings of the services agree with those of the root services.\<close>

definition optionsOf :: "(string \<times> 'm service_scheme) list \<Rightarrow> (string \<times> serviceOptions) list" where
  "optionsOf svcs = map (map_prod id sv_options) svcs"

definition tlsOf :: "serviceOptions \<Rightarrow> bool \<times> bool" where
  "tlsOf so = (so_tlsEnabled so, so_tlsRedirect so)"

definition rootTLS :: "requestServiceMap \<Rightarrow> (string \<times> serviceOptions) list \<Rightarrow> serviceOptions \<Rightarrow> bool \<times> bool" where
  "rootTLS rm os so = (case Option.bind (serviceForHost rm (case so_hosts so of [] \<Rightarrow> [] | h # _ \<Rightarrow> h)) (map_of os) of
     Some so' \<Rightarrow> tlsOf so' | None \<Rightarrow> tlsOf defaultServiceOptions)"

definition tlsSynced :: "requestServiceMap \<Rightarrow> (string \<times> serviceOptions) list \<Rightarrow> bool" where
  "tlsSynced rm os \<longleftrightarrow> (\<forall>so \<in> snd ` set os. rootPath \<notin> set (so_pathPrefixes so) \<longrightarrow> tlsOf so = rootTLS rm os so)"

lemma map_of_optionsOf: "map_of (optionsOf svcs) n = map_option sv_options (map_of svcs n)"
  by (induction svcs) (auto simp: optionsOf_def)

lemma optionsOf_update: "map_of svcs n = Some s \<Longrightarrow> sv_options t = sv_options s \<Longrightarrow> optionsOf (AList.update n t svcs) = optionsOf svcs"
  by (induction svcs) (auto simp: optionsOf_def)

lemma syncedService_rootTLS:
  "syncedService rm svcs s = (if servesRootPath s then s else setTLS (fst (rootTLS rm (optionsOf svcs) (sv_options s))) (snd (rootTLS rm (optionsOf svcs) (sv_options s))) s)"
  by (cases "serviceForHost rm (firstHost s)")
     (auto simp: syncedService_def rootTLS_def map_of_optionsOf tlsOf_def firstHost_def split: option.split)

lemma tlsOf_setTLS [simp]: "tlsOf (sv_options (setTLS a b s)) = (a, b)"
  by (simp add: tlsOf_def setTLS_def)

lemma rootTLS_setTLS [simp]: "rootTLS rm os (sv_options (setTLS a b s)) = rootTLS rm os (sv_options s)"
  by (simp add: rootTLS_def setTLS_def)

lemma tlsSynced_sync:
  fixes svcs :: "(string \<times> 'm service_scheme) list"
  assumes "wellKeyed svcs" and "\<forall>s \<in> snd ` set svcs. canonicalService s"
  shows "tlsSynced (buildBindings svcs) (optionsOf (syncTLSOptionsFromRootDomain (buildBindings svcs) svcs))"
proof -
  let ?rm = "buildBindings svcs"
  let ?new = "syncTLSOptionsFromRootDomain ?rm svcs"
  have get: "map_of ?new n = map_option (syncedService ?rm svcs) (map_of svcs n)" for n
    using sync_map_of[OF tableFor_buildBindings assms(2,1)] .
  have root: "map_of ?new n = map_of svcs n" if "serviceForHost ?rm h = Some n" for h n
    using serviceForHost_root[OF tableFor_buildBindings assms(2,1) that] by (auto simp: get syncedService_def)
  have same: "rootTLS ?rm (optionsOf ?new) so = rootTLS ?rm (optionsOf svcs) so" for so
    unfolding rootTLS_def map_of_optionsOf using root
    by (cases "serviceForHost ?rm (case so_hosts so of [] \<Rightarrow> [] | h # _ \<Rightarrow> h)") simp_all
  have keyed: "distinct (map fst ?new)" using assms(1) wellKeyed_routings[OF routings_sync, of ?rm svcs] by (simp add: wellKeyed_def)
  show ?thesis unfolding tlsSynced_def
  proof (intro ballI impI)
    fix so assume "so \<in> snd ` set (optionsOf ?new)" and r: "rootPath \<notin> set (so_pathPrefixes so)"
    then obtain n t where t: "(n, t) \<in> set ?new" "so = sv_options t" by (auto simp: optionsOf_def)
    have "map_of ?new n = Some t" using map_of_is_SomeI[OF keyed t(1)] .
    then obtain s where s: "t = syncedService ?rm svcs s" unfolding get by blast
    have "\<not> servesRootPath s" using r unfolding t(2) s syncedService_rootTLS by (auto simp: servesRootPath_def setTLS_def split: if_split_asm)
    then show "tlsOf so = rootTLS ?rm (optionsOf ?new) so" unfolding t(2) s syncedService_rootTLS same by simp
  qed
qed

definition routerInv :: "'l serviceEnv \<Rightarrow> 'l router \<Rightarrow> bool" where
  "routerInv env r \<longleftrightarrow> smInv (ro_services r) \<and> sm_bindings (ro_services r) = buildBindings (sm_services (ro_services r))
     \<and> tlsSynced (sm_bindings (ro_services r)) (optionsOf (sm_services (ro_services r)))
     \<and> (\<forall>s \<in> snd ` set (sm_services (ro_services r)). serviceOK env s)"

lemma routerInv_file [simp]: "routerInv env (r\<lparr>ro_file := f\<rparr>) = routerInv env r"
  by (simp add: routerInv_def)

lemma normalize_setTLS: "normalizeServiceOptions (so\<lparr>so_tlsEnabled := a, so_tlsRedirect := b\<rparr>) = (normalizeServiceOptions so)\<lparr>so_tlsEnabled := a, so_tlsRedirect := b\<rparr>"
  by (simp add: normalizeServiceOptions_def Let_def)

lemma serviceOK_setTLS: "serviceOK env s \<Longrightarrow> serviceOK env (setTLS a b s)"
  using serviceOp_followsOptions[OF op_tls] by (auto simp: serviceOK_def setTLS_def normalize_setTLS)

lemma canonicalService_normalized: "normalizeServiceOptions (sv_options s) = sv_options s \<Longrightarrow> canonicalService s"
proof -
  assume "normalizeServiceOptions (sv_options s) = sv_options s"
  then have "so_pathPrefixes (normalizeServiceOptions (sv_options s)) = so_pathPrefixes (sv_options s)" by simp
  then have "normalizePathPrefixes (so_pathPrefixes (sv_options s)) = so_pathPrefixes (sv_options s)"
    by (simp add: normalizeServiceOptions_def Let_def split: if_split_asm)
  then show ?thesis unfolding canonicalService_def
    by (metis normalizePathPrefixes_canonical)
qed

lemma routerInv_rebuild:
  assumes "\<forall>s \<in> snd ` set svcs. serviceOK env s" and "smInv (updateDefaultTLSHostname (updateRequestServiceMap (m\<lparr>sm_services := svcs\<rparr>)))"
    and "wellKeyed svcs"
  shows "routerInv env (r\<lparr>ro_services := updateDefaultTLSHostname (updateRequestServiceMap (m\<lparr>sm_services := svcs\<rparr>))\<rparr>)"
proof -
  have "\<forall>s \<in> snd ` set svcs. canonicalService s" using assms(1) canonicalService_normalized unfolding serviceOK_def by blast
  from tlsSynced_sync[OF assms(3) this] show ?thesis
    using assms(2) sync_forall[OF assms(1) serviceOK_setTLS] rebuilt_bindings[of svcs m] by (simp add: routerInv_def rebuilt_services)
qed

lemma routerInv_smSet:
  assumes "routerInv env r" and "serviceOK env s" and "checkAvailability (ro_services r) (sv_name s) (sv_options s) = None"
  shows "routerInv env (r\<lparr>ro_services := smSet (ro_services r) s\<rparr>)"
proof -
  have inv: "smInv (smSet (ro_services r) s)"
    using assms canonicalService_normalized by (intro smInv_smSet) (auto simp: routerInv_def serviceOK_def)
  have ok: "\<forall>t \<in> snd ` set (AList.update (sv_name s) s (sm_services (ro_services r))). serviceOK env t"
    using assms(1,2) unfolding routerInv_def by (intro update_forall) auto
  have "wellKeyed (AList.update (sv_name s) s (sm_services (ro_services r)))"
    using assms(1) by (auto simp: routerInv_def smInv_def wellKeyed_def distinct_update dest!: set_AList_update)
  with ok inv[unfolded smSet_def] show ?thesis unfolding smSet_def by (rule routerInv_rebuild)
qed

lemma routerInv_smRemove:
  assumes "routerInv env r"
  shows "routerInv env (r\<lparr>ro_services := smRemove (ro_services r) n\<rparr>)"
proof -
  have inv: "smInv (smRemove (ro_services r) n)" using assms by (intro smInv_smRemove) (simp add: routerInv_def)
  have ok: "\<forall>t \<in> snd ` set (AList.delete n (sm_services (ro_services r))). serviceOK env t"
    using assms by (auto simp: routerInv_def set_AList_delete)
  have "wellKeyed (AList.delete n (sm_services (ro_services r)))"
    using assms by (auto simp: routerInv_def smInv_def wellKeyed_def distinct_delete set_AList_delete)
  with ok inv[unfolded smRemove_def] show ?thesis unfolding smRemove_def by (rule routerInv_rebuild)
qed

lemma serviceForName_OK:
  assumes "routerInv env r" and "serviceForName r n = Some s"
  shows "serviceOK env s" and "sv_name s = n"
  using assms by (auto simp: routerInv_def serviceForName_def smGet_def smInv_def wellKeyed_def dest!: map_of_SomeD)

lemma routerInv_updateService:
  assumes "routerInv env r" and "\<And>s. serviceForName r n = Some s \<Longrightarrow> serviceOK env (f s) \<and> sv_options (f s) = sv_options s \<and> sv_name (f s) = sv_name s"
  shows "routerInv env (updateService n f r)"
proof (cases "serviceForName r n")
  case (Some s)
  let ?new = "AList.update n (f s) (sm_services (ro_services r))"
  have m: "map_of (sm_services (ro_services r)) n = Some s" using Some by (simp add: serviceForName_def smGet_def)
  have same: "routings ?new = routings (sm_services (ro_services r))" by (rule routings_update[OF m]) (use assms(2)[OF Some] in \<open>simp add: routingOf_def\<close>)
  have opts: "optionsOf ?new = optionsOf (sm_services (ro_services r))" by (rule optionsOf_update[OF m]) (use assms(2)[OF Some] in simp)
  have inv: "smInv (ro_services r)" "sm_bindings (ro_services r) = buildBindings (sm_services (ro_services r))" using assms(1) by (simp_all add: routerInv_def)
  have ok: "\<forall>t \<in> snd ` set ?new. serviceOK env t"
    using assms(1) assms(2)[OF Some] unfolding routerInv_def by (intro update_forall) auto
  then have "\<forall>t \<in> snd ` set ?new. canonicalService t" using canonicalService_normalized unfolding serviceOK_def by blast
  then have "smInv ((ro_services r)\<lparr>sm_services := ?new\<rparr>)"
    using inv(1) by (simp add: smInv_def wellKeyed_routings[OF same] exclusive_routings[OF same] tableFor_routings[OF same])
  then show ?thesis using ok Some inv(2) buildBindings_routings[OF same] assms(1) opts by (simp add: updateService_def routerInv_def)
qed (simp add: updateService_def assms(1))

lemma serviceOK_op:
  assumes "serviceOp env s s'" and "serviceOK env s"
    and "sv_options s' = sv_options s" "st_active s' = st_active s" "st_rollout s' = st_rollout s"
  shows "serviceOK env s'"
  using serviceOp_followsOptions[OF assms(1)] assms(2-5) by (simp add: serviceOK_def)

lemma lbOK_roles: "lbOK lb \<Longrightarrow> lbInv lb' \<Longrightarrow> roles (lb_all lb') = roles (lb_all lb) \<Longrightarrow> lbOK lb'"
  using validTargets_roles unfolding lbOK_def by blast

lemma lbOK_lbDispose: "lbOK lb \<Longrightarrow> lbOK (lbDispose lb)"
  by (rule lbOK_roles, assumption, simp add: lbOK_def lbInv_lbDispose, simp add: lbDispose_def)

lemma serviceOK_dispose: "serviceOK env s \<Longrightarrow> serviceOK env (serviceDispose s)"
  using serviceOp_followsOptions[OF op_dispose] lbOK_lbDispose unfolding serviceOK_def by (fastforce simp: serviceDispose_def)

lemma rejectRateLimited_keeps:
  assumes "rejectRateLimited env now s r = (s', y)"
  shows "sv_options s' = sv_options s" "sv_name s' = sv_name s" "st_active s' = st_active s" "st_rollout s' = st_rollout s"
  using assms by (auto simp: rejectRateLimited_def split: option.split_asm if_split_asm prod.split_asm)

lemma serviceOK_request:
  assumes "serviceRequestWithTarget env now released s r = (s', p)" and "serviceOK env s"
  shows "serviceOK env s'" and "sv_options s' = sv_options s" and "sv_name s' = sv_name s"
proof -
  have keeps: "sv_options s' = sv_options s \<and> sv_name s' = sv_name s \<and> st_active s' = st_active s \<and> st_rollout s' = st_rollout s"
    using serviceRequest_state[OF assms(1)] by (auto dest: rejectRateLimited_keeps)
  show "serviceOK env s'" by (rule serviceOK_op[OF op_request[OF assms(1)] assms(2)]) (simp_all add: keeps)
  show "sv_options s' = sv_options s" and "sv_name s' = sv_name s" by (simp_all add: keeps)
qed

lemma serviceOK_forward:
  assumes "startLoadBalancerRequest now rid s r = Some (s', slot, res)" and "serviceOK env s"
  shows "serviceOK env s'" and "sv_options s' = sv_options s" and "sv_name s' = sv_name s"
proof -
  obtain lb lb' where lb: "slotBalancer slot s = Some lb" and start: "lbStartRequest now rid lb r = (lb', res)"
    and s': "s' = (if slot = TargetSlotRollout then s\<lparr>st_rollout := Some lb'\<rparr> else s\<lparr>st_active := Some lb'\<rparr>)"
  proof (cases "slotBalancer (loadBalancerForRequest s r) s")
    case (Some lb)
    obtain lb' res' where "lbStartRequest now rid lb r = (lb', res')" by fastforce
    then show ?thesis using assms(1) Some by (intro that[of lb lb']) (auto simp: startLoadBalancerRequest_def Let_def)
  qed (use assms(1) in \<open>simp add: startLoadBalancerRequest_def Let_def\<close>)
  have "lbOK lb" using assms(2) lb by (auto simp: serviceOK_def slotBalancer_def split: if_split_asm)
  moreover obtain res' where c: "claimTarget now rid lb r = (lb', res')"
    using start by (auto simp: lbStartRequest_def split: prod.split_asm sum.split_asm)
  ultimately have ok: "lbOK lb'" using lbInv_claimTarget[OF _ c] claimTarget_shape(1)[OF _ c] lbOK_roles unfolding lbOK_def by blast
  have fo: "followsOptions env s'" using serviceOp_followsOptions[OF op_forward[OF assms(1)]] assms(2) unfolding serviceOK_def by blast
  show "serviceOK env s'" using assms(2) ok fo unfolding serviceOK_def s' by (auto split: if_split_asm)
  show "sv_options s' = sv_options s" and "sv_name s' = sv_name s" by (simp_all add: s')
qed

lemma updateLoadBalancer_keeps:
  assumes "updateLoadBalancer now lb slot s = (s', replaced)"
  shows "sv_options s' = sv_options s" "sv_name s' = sv_name s" "slotBalancer slot s' = Some lb"
    "slot' \<noteq> slot \<Longrightarrow> slotBalancer slot' s' = slotBalancer slot' s" "replaced = slotBalancer slot s"
    "st_pause s' = st_pause s" "st_rolloutController s' = st_rolloutController s" "st_targetOptions s' = st_targetOptions s"
proof -
  let ?s = "if slot = TargetSlotRollout then s\<lparr>st_rollout := Some lb\<rparr> else s\<lparr>st_active := Some lb\<rparr>"
  have "s' = configureIdleController now (sv_options ?s) ?s" and r: "replaced = slotBalancer slot s"
    using assms by (auto simp: updateLoadBalancer_def Let_def slotBalancer_def split: if_split_asm)
  then obtain c where s': "s' = ?s\<lparr>st_idle := c\<rparr>" using configureIdle_keeps by blast
  show "sv_options s' = sv_options s" "sv_name s' = sv_name s" "slotBalancer slot s' = Some lb" "replaced = slotBalancer slot s"
    "st_pause s' = st_pause s" "st_rolloutController s' = st_rolloutController s" "st_targetOptions s' = st_targetOptions s"
    using r by (simp_all add: s' slotBalancer_def)
  show "slot' \<noteq> slot \<Longrightarrow> slotBalancer slot' s' = slotBalancer slot' s" by (cases slot; cases slot') (simp_all add: s' slotBalancer_def)
qed

lemma serviceOK_install:
  assumes "updateLoadBalancer now lb slot s = (s', replaced)" and "lbOK lb"
    and "followsOptions env s" and "normalizeServiceOptions (sv_options s) = sv_options s"
    and "slot = TargetSlotRollout \<Longrightarrow> st_active s \<noteq> None" and "\<And>l. st_active s = Some l \<or> st_rollout s = Some l \<Longrightarrow> lbOK l"
  shows "serviceOK env s'"
proof -
  note k = updateLoadBalancer_keeps[OF assms(1)]
  have fo: "followsOptions env s'" using followsOptions_balancer[OF assms(1,3)] .
  have b: "slotBalancer slot' s' = (if slot' = slot then Some lb else slotBalancer slot' s)" for slot'
    using k(3,4) by simp
  have "st_active s' = (if slot = TargetSlotActive then Some lb else st_active s)" "st_rollout s' = (if slot = TargetSlotRollout then Some lb else st_rollout s)"
    using b[of TargetSlotActive] b[of TargetSlotRollout] by (auto simp: slotBalancer_def)
  then show ?thesis using fo assms(2,4-6) k(1) by (cases slot) (auto simp: serviceOK_def)
qed

lemma initialize_keeps:
  assumes "initialize env now so topts s = (eff, Inr s')"
  shows "sv_name s' = sv_name s" "sv_options s' = so" "st_active s' = st_active s" "st_rollout s' = st_rollout s"
proof -
  obtain cm layers a b where "s' = derived env now so (normalizeTargetTimeouts topts) cm layers a b s"
    using assms by (auto simp: initialize_def Let_def split: prod.split_asm sum.split_asm if_split_asm)
  then show "sv_name s' = sv_name s" "sv_options s' = so" "st_active s' = st_active s" "st_rollout s' = st_rollout s"
    by (simp_all add: derived_keeps)
qed

lemma setContainerLifecycle_keeps:
  "sv_name (setContainerLifecycle now l s) = sv_name s" "sv_options (setContainerLifecycle now l s) = sv_options s"
  "st_active s = None \<Longrightarrow> st_active (setContainerLifecycle now l s) = None" "st_rollout s = None \<Longrightarrow> st_rollout (setContainerLifecycle now l s) = None"
proof -
  let ?s = "s\<lparr>st_lifecycle := l\<rparr>"
  obtain c where c: "configureIdleController now (sv_options s) ?s = ?s\<lparr>st_idle := c\<rparr>" using configureIdle_keeps by blast
  show "sv_name (setContainerLifecycle now l s) = sv_name s" "sv_options (setContainerLifecycle now l s) = sv_options s"
    "st_active s = None \<Longrightarrow> st_active (setContainerLifecycle now l s) = None" "st_rollout s = None \<Longrightarrow> st_rollout (setContainerLifecycle now l s) = None"
    unfolding setContainerLifecycle_def c Let_def by (simp_all add: serviceSuspendForSleep_def split: option.split)
qed

text \<open>What \<open>createOrUpdateService\<close> hands to the installation.\<close>

lemma createOrUpdate_ready:
  assumes "createOrUpdateService env now name so topts r = (eff, Inr s)" and "routerInv env r"
  shows "sv_name s = name" "sv_options s = so" "followsOptions env s" "\<And>l. st_active s = Some l \<or> st_rollout s = Some l \<Longrightarrow> lbOK l"
proof -
  consider s0 where "serviceForName r name = None" "newService env now name so topts (ro_hasSAN r) = (eff, Inr s0)"
      "s = setContainerLifecycle now (ro_lifecycle r) (serviceSetCacheStore s0)"
    | s0 where "serviceForName r name = Some s0" "updateOptions env now so topts s0 = (eff, Inr s)"
    using assms(1) by (auto simp: createOrUpdateService_def split: option.split_asm prod.split_asm sum.split_asm)
  then have "sv_name s = name \<and> sv_options s = so \<and> followsOptions env s \<and> (\<forall>l. st_active s = Some l \<or> st_rollout s = Some l \<longrightarrow> lbOK l)"
  proof cases
    case (1 s0)
    note i = initialize_keeps[OF 1(2)[unfolded newService_def]] and f = followsOptions_initialize[OF 1(2)[unfolded newService_def]]
    have "followsOptions env (serviceSetCacheStore s0)" using serviceOp_followsOptions[OF op_cache f] .
    then have "followsOptions env s" unfolding 1(3) by (rule followsOptions_setContainerLifecycle)
    moreover have "st_active s = None" "st_rollout s = None" "sv_name s = name" "sv_options s = so"
      unfolding 1(3) using i by (simp_all add: setContainerLifecycle_keeps serviceSetCacheStore_def bareService_def)
    ultimately show ?thesis by simp
  next
    case (2 s0)
    then show ?thesis
      using initialize_keeps[OF 2(2)[unfolded updateOptions_def]] followsOptions_initialize[OF 2(2)[unfolded updateOptions_def]]
        serviceForName_OK[OF assms(2) 2(1)] by (simp add: serviceOK_def)
  qed
  then show "sv_name s = name" "sv_options s = so" "followsOptions env s" "\<And>l. st_active s = Some l \<or> st_rollout s = Some l \<Longrightarrow> lbOK l"
    by blast+
qed

section \<open>Services set one by one\<close>

definition keyed :: "'m service_scheme list \<Rightarrow> (string \<times> 'm service_scheme) list" where
  "keyed ss = map (\<lambda>s. (sv_name s, s)) ss"

text \<open>While services are set one by one, a service whose root service is not there yet takes the default TLS settings for a while.\<close>

definition tlsVariant :: "'m service_scheme \<Rightarrow> string \<times> 'm service_scheme \<Rightarrow> bool" where
  "tlsVariant s = (\<lambda>(n, t). n = sv_name s \<and> (t = s \<or> \<not> servesRootPath s \<and> (\<exists>a b. t = setTLS a b s)))"

lemma setTLS_setTLS [simp]: "setTLS a b (setTLS c d s) = setTLS a b s"
  by (simp add: setTLS_def)

lemma servesRootPath_setTLS [simp]: "servesRootPath (setTLS a b s) = servesRootPath s"
  by (simp add: setTLS_def servesRootPath_def)

lemma variant_update:
  assumes "list_all2 tlsVariant ss svcs" and "map_of svcs n = Some t" and "\<not> servesRootPath t"
  shows "list_all2 tlsVariant ss (AList.update n (setTLS a b t) svcs)"
  using assms
proof (induction ss svcs rule: list_all2_induct)
  case (Cons s ss p svcs)
  obtain k u where p: "p = (k, u)" by fastforce
  show ?case
  proof (cases "k = n")
    case True
    then have "u = t" using Cons.prems p by simp
    moreover have "tlsVariant s (k, setTLS a b u)" if "u = t"
      using Cons.hyps(1) Cons.prems(2) that p by (fastforce simp: tlsVariant_def)
    ultimately show ?thesis using True Cons.hyps(2) p by simp
  qed (use Cons p in simp)
qed simp

lemma variant_sync: "list_all2 tlsVariant ss svcs \<Longrightarrow> list_all2 tlsVariant ss (syncTLSOptionsFromRootDomain rm svcs)"
  unfolding syncTLSOptionsFromRootDomain_def
proof (rule fold_invariant[where Q = "\<lambda>_. True" and P = "list_all2 tlsVariant ss"])
  fix n xs assume "list_all2 tlsVariant ss xs"
  then show "list_all2 tlsVariant ss (syncTLSOne rm n xs)"
    using variant_update[of ss xs n] by (auto simp: syncTLSOne_def split: option.split)
qed simp_all

lemma variant_keys: "list_all2 tlsVariant ss svcs \<Longrightarrow> map fst svcs = map sv_name ss"
  by (induction rule: list_all2_induct) (auto simp: tlsVariant_def)

lemma AList_update_fresh: "n \<notin> fst ` set xs \<Longrightarrow> AList.update n v xs = xs @ [(n, v)]"
  by (induction xs) auto

lemma variant_fold:
  assumes "distinct (map sv_name ss)"
  shows "list_all2 tlsVariant ss (sm_services (fold (\<lambda>s m. smSet m s) ss newServiceMap))"
  using assms
proof (induction ss rule: rev_induct)
  case (snoc s ss)
  let ?m = "fold (\<lambda>s m. smSet m s) ss newServiceMap"
  have v: "list_all2 tlsVariant ss (sm_services ?m)" using snoc by simp
  have "sv_name s \<notin> fst ` set (sm_services ?m)" using arg_cong[OF variant_keys[OF v], of set] snoc.prems by auto
  then have "list_all2 tlsVariant (ss @ [s]) (AList.update (sv_name s) s (sm_services ?m))"
    using v by (simp add: AList_update_fresh list_all2_appendI tlsVariant_def)
  then show ?case by (simp add: smSet_def rebuilt_services variant_sync)
qed (simp add: newServiceMap_def)

lemma setTLS_tlsOf: "tlsOf (sv_options s) = (a, b) \<Longrightarrow> setTLS a b s = s"
  by (simp add: setTLS_def tlsOf_def)

lemma variant_routings: "list_all2 tlsVariant ss svcs \<Longrightarrow> routings svcs = routings (keyed ss)"
  by (induction rule: list_all2_induct) (auto simp: routings_def keyed_def tlsVariant_def routingOf_def setTLS_def)

lemma variant_root:
  assumes "list_all2 tlsVariant ss svcs" and "distinct (map sv_name ss)" and "map_of svcs n = Some t" and "servesRootPath t"
  shows "map_of (keyed ss) n = Some t"
  using assms
proof (induction ss svcs rule: list_all2_induct)
  case (Cons s ss p svcs)
  then show ?case by (cases p) (auto simp: tlsVariant_def keyed_def split: if_split_asm)
qed simp

lemma map_of_keys_eq:
  assumes "map fst xs = map fst ys" and "distinct (map fst xs)" and "\<And>n. map_of xs n = map_of ys n"
  shows "xs = ys"
proof (rule nth_equalityI)
  show len: "length xs = length ys" using assms(1) by (metis length_map)
  fix i assume i: "i < length xs"
  have "fst (xs ! i) = fst (ys ! i)" using assms(1) i len by (metis nth_map)
  moreover have "map_of xs (fst (xs ! i)) = Some (snd (xs ! i))" using i assms(2) by (intro map_of_is_SomeI) auto
  moreover have "map_of ys (fst (ys ! i)) = Some (snd (ys ! i))" using i len assms(1,2) by (intro map_of_is_SomeI) auto
  ultimately show "xs ! i = ys ! i" using assms(3) by (simp add: prod_eq_iff)
qed

lemma sync_variant:
  fixes ss :: "'m service_scheme list"
  assumes v: "list_all2 tlsVariant ss svcs" and d: "distinct (map sv_name ss)" and canon: "\<forall>s \<in> set ss. canonicalService s"
    and synced: "tlsSynced (buildBindings (keyed ss)) (optionsOf (keyed ss))"
  shows "syncTLSOptionsFromRootDomain (buildBindings svcs) svcs = keyed ss"
proof -
  let ?rm = "buildBindings svcs"
  let ?new = "syncTLSOptionsFromRootDomain ?rm svcs"
  have rt: "routings svcs = routings (keyed ss)" using v by (rule variant_routings)
  have rm: "?rm = buildBindings (keyed ss)" by (rule buildBindings_routings[OF rt])
  have "wellKeyed (keyed ss)" "\<forall>s \<in> snd ` set (keyed ss). canonicalService s" using d canon by (auto simp: wellKeyed_def keyed_def comp_def)
  then have wk: "wellKeyed svcs" and cn: "\<forall>s \<in> snd ` set svcs. canonicalService s"
    by (simp_all only: wellKeyed_routings[OF rt] canonical_routings[OF rt])
  have get: "map_of ?new n = map_option (syncedService ?rm svcs) (map_of svcs n)" for n
    using sync_map_of[OF tableFor_buildBindings cn wk] .
  have roots: "map_of (keyed ss) n = map_of svcs n" if "serviceForHost ?rm h = Some n" for h n
    using serviceForHost_root[OF tableFor_buildBindings cn wk that] variant_root[OF v d] by fastforce
  have same: "rootTLS ?rm (optionsOf svcs) so = rootTLS ?rm (optionsOf (keyed ss)) so" for so
    unfolding rootTLS_def map_of_optionsOf using roots
    by (cases "serviceForHost ?rm (case so_hosts so of [] \<Rightarrow> [] | h # _ \<Rightarrow> h)") simp_all
  have restored: "syncedService ?rm svcs t = s" if "s \<in> set ss" "tlsVariant s (n, t)" for s n t
  proof (cases "servesRootPath s")
    case True
    then show ?thesis using that(2) by (auto simp: tlsVariant_def syncedService_def)
  next
    case False
    have "sv_options s \<in> snd ` set (optionsOf (keyed ss))" using that(1) by (force simp: optionsOf_def keyed_def)
    then have "tlsOf (sv_options s) = rootTLS ?rm (optionsOf (keyed ss)) (sv_options s)"
      using synced False unfolding rm tlsSynced_def servesRootPath_def by blast
    then have "setTLS (fst (rootTLS ?rm (optionsOf svcs) (sv_options s))) (snd (rootTLS ?rm (optionsOf svcs) (sv_options s))) s = s"
      unfolding same by (intro setTLS_tlsOf) simp
    then show ?thesis using that(2) False unfolding tlsVariant_def syncedService_rootTLS by auto
  qed
  have "map_of ?new n = map_of (keyed ss) n" for n
  proof -
    have "map_option (syncedService ?rm svcs) (map_of svcs n) = map_of (keyed ss) n" if "set ss' \<subseteq> set ss" "list_all2 tlsVariant ss' svcs'"
      "map_of svcs' n = map_of svcs n" "map_of (keyed ss') n = map_of (keyed ss) n" for ss' svcs'
    proof -
      have "map_option (syncedService ?rm svcs) (map_of svcs' n) = map_of (keyed ss') n" using that(2,1)
        by (induction ss' svcs' rule: list_all2_induct) (auto simp: keyed_def restored, auto simp: tlsVariant_def)
      then show ?thesis by (simp only: that(3,4))
    qed
    from this[OF order_refl v] show ?thesis unfolding get by simp
  qed
  moreover have "map fst ?new = map fst (keyed ss)" "distinct (map fst ?new)"
    using variant_keys[OF variant_sync[OF v, of ?rm]] d by (simp_all add: keyed_def comp_def)
  ultimately show ?thesis using map_of_keys_eq[of ?new "keyed ss"] by blast
qed

lemma fold_smSet_restores:
  assumes "distinct (map sv_name ss)" and "\<forall>s \<in> set ss. canonicalService s" and "tlsSynced (buildBindings (keyed ss)) (optionsOf (keyed ss))"
  shows "sm_services (fold (\<lambda>s m. smSet m s) ss newServiceMap) = keyed ss \<and> sm_bindings (fold (\<lambda>s m. smSet m s) ss newServiceMap) = buildBindings (keyed ss)"
proof (cases ss rule: rev_cases)
  case (snoc ss' s)
  let ?m = "fold (\<lambda>s m. smSet m s) ss' newServiceMap"
  let ?svcs = "AList.update (sv_name s) s (sm_services ?m)"
  have v: "list_all2 tlsVariant ss' (sm_services ?m)" using assms(1) snoc by (intro variant_fold) simp
  have "sv_name s \<notin> fst ` set (sm_services ?m)" using arg_cong[OF variant_keys[OF v], of set] assms(1) snoc by auto
  then have v': "list_all2 tlsVariant ss ?svcs" using v snoc by (simp add: AList_update_fresh list_all2_appendI tlsVariant_def)
  have "fold (\<lambda>s m. smSet m s) ss newServiceMap = smSet ?m s" using snoc by simp
  then show ?thesis using sync_variant[OF v' assms] buildBindings_routings[OF variant_routings[OF v']] by (simp add: smSet_def rebuilt_services)
qed (simp add: newServiceMap_def keyed_def buildBindings_def)

section \<open>The invariant\<close>

lemma allSome_map: "allSome (map f xs) = (if \<exists>x \<in> set xs. f x = None then None else Some (map (the \<circ> f) xs))"
  by (induction xs) (auto split: option.split)

lemma routerInvD:
  assumes "routerInv env r"
  shows "smInv (ro_services r)" "sm_bindings (ro_services r) = buildBindings (sm_services (ro_services r))"
    "tlsSynced (sm_bindings (ro_services r)) (optionsOf (sm_services (ro_services r)))" "wellKeyed (sm_services (ro_services r))"
    "tableFor (sm_bindings (ro_services r)) (sm_services (ro_services r))" "\<forall>s \<in> snd ` set (sm_services (ro_services r)). serviceOK env s"
    "\<forall>s \<in> snd ` set (sm_services (ro_services r)). canonicalService s"
  using assms unfolding routerInv_def smInv_def by blast+

lemma stateSnapshot_defined:
  assumes "routerInv env r"
  shows "stateSnapshot r = Some (map (\<lambda>(_, s). the (marshalService s)) (sm_services (ro_services r)))"
proof -
  have "marshalService s \<noteq> None" if "s \<in> snd ` set (sm_services (ro_services r))" for s
    using assms that by (auto simp: routerInv_def serviceOK_def marshalService_def)
  then show ?thesis by (force simp: stateSnapshot_def allSome_map comp_def case_prod_beta)
qed

lemma optionsOf_routings: "optionsOf a = optionsOf b \<Longrightarrow> wellKeyed a \<Longrightarrow> wellKeyed b \<Longrightarrow> routings a = routings b"
proof (induction a arbitrary: b)
  case (Cons x a)
  then obtain y b' where b: "b = y # b'" by (cases b) (auto simp: optionsOf_def)
  then show ?case using Cons by (cases x; cases y) (auto simp: optionsOf_def routings_def wellKeyed_def routingOf_def)
qed (simp add: optionsOf_def routings_def)

text \<open>A state file holds a state the router once was in.\<close>

definition savedState :: "'l serviceEnv \<Rightarrow> stateFile \<Rightarrow> bool" where
  "savedState env f \<longleftrightarrow> (\<forall>mss. f = Saved mss \<longrightarrow> (\<exists>r. routerInv env r \<and> stateSnapshot r = Some mss))"

definition systemInv :: "'l serviceEnv \<Rightarrow> 'l routerSystem \<Rightarrow> bool" where
  "systemInv env x \<longleftrightarrow> routerInv env (rs_router x)
     \<and> (\<forall>p \<in> set (rs_rollouts x). lbOK (pr_balancer p) \<and> (\<forall>s. pr_removed p = Some s \<longrightarrow> serviceOK env s \<and> sv_name s = pr_name p))
     \<and> savedState env (ro_file (rs_router x)) \<and> savedState env (ro_backup (rs_router x))
     \<and> (\<forall>mss \<in> set (rs_saves x). savedState env (Saved mss))"

lemma routerInv_same_options:
  assumes "routerInv env r" and "optionsOf (sm_services m) = optionsOf (sm_services (ro_services r))" and "wellKeyed (sm_services m)"
    and "\<forall>s \<in> snd ` set (sm_services m). serviceOK env s" and "sm_bindings m = sm_bindings (ro_services r)"
  shows "routerInv env (r'\<lparr>ro_services := m\<rparr>)"
proof -
  note inv = routerInvD[OF assms(1)]
  have same: "routings (sm_services m) = routings (sm_services (ro_services r))" by (rule optionsOf_routings[OF assms(2,3) inv(4)])
  have canon: "\<forall>s \<in> snd ` set (sm_services m). canonicalService s" using assms(4) canonicalService_normalized unfolding serviceOK_def by blast
  have "exclusive (sm_services m)" "tableFor (sm_bindings m) (sm_services m)"
    using inv(1) unfolding assms(5) smInv_def exclusive_routings[OF same] tableFor_routings[OF same] by blast+
  then show ?thesis using inv(2,3) buildBindings_routings[OF same] canon assms by (simp add: routerInv_def smInv_def)
qed

lemma mapServices_parts:
  "sm_bindings (ro_services (mapServices f r)) = sm_bindings (ro_services r)"
  "sm_services (ro_services (mapServices f r)) = map (map_prod id f) (sm_services (ro_services r))"
  "ro_file (mapServices f r) = ro_file r" "ro_backup (mapServices f r) = ro_backup r"
  by (simp_all add: mapServices_def map_prod_def)

lemma routerInv_mapServices:
  assumes "routerInv env r" and "\<And>s. serviceOK env s \<Longrightarrow> serviceOK env (f s) \<and> sv_options (f s) = sv_options s \<and> sv_name (f s) = sv_name s"
  shows "routerInv env (mapServices f r)"
proof -
  let ?m = "(ro_services r)\<lparr>sm_services := map (\<lambda>(n, s). (n, f s)) (sm_services (ro_services r))\<rparr>"
  have ok: "serviceOK env (f s) \<and> sv_options (f s) = sv_options s \<and> sv_name (f s) = sv_name s" if "(n, s) \<in> set (sm_services (ro_services r))" for n s
    using assms(2) routerInvD(6)[OF assms(1)] that by force
  have "routerInv env (r\<lparr>ro_services := ?m\<rparr>)"
  proof (rule routerInv_same_options[OF assms(1)])
    show "optionsOf (sm_services ?m) = optionsOf (sm_services (ro_services r))" using ok by (auto simp: optionsOf_def)
    show "wellKeyed (sm_services ?m)" using ok routerInvD(4)[OF assms(1)] by (auto simp: wellKeyed_def comp_def case_prod_beta)
    show "\<forall>s \<in> snd ` set (sm_services ?m). serviceOK env s" using ok by force
  qed simp
  then show ?thesis by (simp add: mapServices_def)
qed

lemma serviceOK_balancers:
  assumes "serviceOK env s" and "followsOptions env t" and "sv_options t = sv_options s"
    and "st_active t = map_option f (st_active s)" "st_rollout t = map_option g (st_rollout s)"
    and "\<And>lb. lbOK lb \<Longrightarrow> lbOK (f lb) \<and> lbOK (g lb)"
  shows "serviceOK env t"
  using assms by (auto simp: serviceOK_def)

lemma lbOK_ops:
  "lbOK lb \<Longrightarrow> lbOK (suspendForSleep lb)" "lbOK lb \<Longrightarrow> lbOK (resumeFromSleep lb)" "lbOK lb \<Longrightarrow> lbOK (recheckHealth lb)"
  "lbOK lb \<Longrightarrow> lbOK (probeCompleted i ok lb)" "lbOK lb \<Longrightarrow> lbOK (lb\<lparr>lb_all := (lb_all lb)[i := endInflightRequest rid (lb_all lb ! i)]\<rparr>)"
  "lbOK lb \<Longrightarrow> lbOK (markAllHealthy lb)"
proof -
  assume ok: "lbOK lb"
  then have inv: "lbInv lb" by (simp add: lbOK_def)
  show "lbOK (suspendForSleep lb)" by (rule lbOK_roles[OF ok lbInv_suspendForSleep[OF inv]]) (simp add: suspendForSleep_def)
  show "lbOK (resumeFromSleep lb)" by (rule lbOK_roles[OF ok lbInv_resumeFromSleep[OF inv]]) (simp add: resumeFromSleep_def)
  show "lbOK (recheckHealth lb)" by (rule lbOK_roles[OF ok lbInv_recheckHealth[OF inv]]) (simp add: recheckHealth_def)
  show "lbOK (probeCompleted i ok lb)" using lbRun_OK[OF ok, of "[Probed i ok]"] by (simp add: lbRun_def)
  show "lbOK (lb\<lparr>lb_all := (lb_all lb)[i := endInflightRequest rid (lb_all lb ! i)]\<rparr>)"
    by (rule lbOK_roles[OF ok lbInv_endInflight[OF inv]]) (simp add: roles_update endInflightRequest_def)
  show "lbOK (markAllHealthy lb)" by (rule lbOK_roles[OF ok lbInv_markAllHealthy[OF inv]]) (simp add: markAllHealthy_def updateHealthyTargets_roles)
qed

lemma serviceOK_sleep: "serviceOK env s \<Longrightarrow> serviceOK env (serviceSuspendForSleep s)"
  by (rule serviceOK_balancers[where f = suspendForSleep and g = suspendForSleep])
     (use serviceOp_followsOptions[OF op_suspend, of env s] in \<open>auto simp: serviceOK_def serviceSuspendForSleep_def lbOK_ops\<close>)

lemma serviceOK_wake: "serviceOK env s \<Longrightarrow> serviceOK env (serviceResumeFromSleep s)"
  by (rule serviceOK_balancers[where f = resumeFromSleep and g = resumeFromSleep])
     (use serviceOp_followsOptions[OF op_wake, of env s] in \<open>auto simp: serviceOK_def serviceResumeFromSleep_def lbOK_ops\<close>)

lemma serviceOK_recheck: "serviceOK env s \<Longrightarrow> serviceOK env (recheckTargetHealth s)"
  by (rule serviceOK_balancers[where f = recheckHealth and g = recheckHealth])
     (use serviceOp_followsOptions[OF op_recheck, of env s] in \<open>auto simp: serviceOK_def recheckTargetHealth_def lbOK_ops\<close>)

lemma sleep_keeps [simp]:
  "sv_options (serviceSuspendForSleep s) = sv_options s" "sv_name (serviceSuspendForSleep s) = sv_name s"
  "sv_options (serviceResumeFromSleep s) = sv_options s" "sv_name (serviceResumeFromSleep s) = sv_name s"
  "sv_options (recheckTargetHealth s) = sv_options s" "sv_name (recheckTargetHealth s) = sv_name s"
  by (simp_all add: serviceSuspendForSleep_def serviceResumeFromSleep_def recheckTargetHealth_def)

lemma serviceOK_setBalancer:
  assumes "serviceOK env s" and "lbOK lb"
  shows "serviceOK env (setBalancer slot lb s) \<and> sv_options (setBalancer slot lb s) = sv_options s \<and> sv_name (setBalancer slot lb s) = sv_name s"
  using assms by (auto simp: setBalancer_def serviceOK_def followsOptions_def)

lemma serviceOK_lifecycle: "serviceOK env s \<Longrightarrow> serviceOK env (setContainerLifecycle now l s)"
proof -
  assume s: "serviceOK env s"
  let ?s = "s\<lparr>st_lifecycle := l\<rparr>"
  obtain c where c: "configureIdleController now (sv_options s) ?s = ?s\<lparr>st_idle := c\<rparr>" using configureIdle_keeps by blast
  have "serviceOK env (?s\<lparr>st_idle := c\<rparr>)" using s by (auto simp: serviceOK_def followsOptions_def)
  then show ?thesis using serviceOK_sleep unfolding setContainerLifecycle_def c Let_def by (auto split: option.split)
qed

lemma serviceOK_SAN:
  assumes "serviceOK env s"
  shows "serviceOK env (snd (serviceSetSANCertManager env now manager s)) \<and> sv_options (snd (serviceSetSANCertManager env now manager s)) = sv_options s
    \<and> sv_name (snd (serviceSetSANCertManager env now manager s)) = sv_name s"
proof -
  let ?s1 = "s\<lparr>st_hasSAN := manager\<rparr>"
  define t where "t = snd (serviceSetSANCertManager env now manager s)"
  have fo: "followsOptions env t" using serviceOp_followsOptions[OF op_san[of env now manager s "fst (serviceSetSANCertManager env now manager s)"]] assms
    by (simp add: t_def serviceOK_def)
  obtain eff res where i: "initialize env now (sv_options s) (st_targetOptions s) ?s1 = (eff, res)" by fastforce
  have "sv_name t = sv_name s \<and> sv_options t = sv_options s \<and> st_active t = st_active s \<and> st_rollout t = st_rollout s"
  proof (cases res)
    case (Inr s2)
    note k = initialize_keeps[OF i[unfolded Inr]]
    show ?thesis using k by (simp add: t_def serviceSetSANCertManager_def Let_def i Inr)
  qed (simp add: t_def serviceSetSANCertManager_def Let_def i)
  then show ?thesis using fo assms unfolding t_def[symmetric] by (simp add: serviceOK_def)
qed

lemma installLoadBalancer_Inr:
  assumes "installLoadBalancer now name slot lb so getService r = (eff, Inr (r', replaced))"
  obtains s s' where "checkAvailability (ro_services r) name so = None" and "getService r = (eff, Inr s)"
    and "updateLoadBalancer now lb slot s = (s', replaced)" and "r' = r\<lparr>ro_services := smSet (ro_services r) s'\<rparr>"
  using assms by (auto simp: installLoadBalancer_def split: if_split_asm prod.split_asm sum.split_asm)

lemma routerInv_installDeploy:
  assumes "installDeploy env now name lb (normalizeServiceOptions so) topts r = (eff, Inr (r', replaced))" and "routerInv env r" and "lbOK lb"
  shows "routerInv env r'"
proof -
  obtain s s' where free: "checkAvailability (ro_services r) name (normalizeServiceOptions so) = None"
    and s: "createOrUpdateService env now name (normalizeServiceOptions so) topts r = (eff, Inr s)"
    and s': "updateLoadBalancer now lb TargetSlotActive s = (s', replaced)" and r': "r' = r\<lparr>ro_services := smSet (ro_services r) s'\<rparr>"
    using assms(1) unfolding installDeploy_def by (rule installLoadBalancer_Inr)
  note c = createOrUpdate_ready[OF s assms(2)] and k = updateLoadBalancer_keeps[OF s']
  have "serviceOK env s'"
    by (rule serviceOK_install[OF s' assms(3)]) (use c normalizeServiceOptions_idem in auto)
  then show ?thesis unfolding r' using routerInv_smSet[OF assms(2), of s'] free c(1,2) k(1,2) by simp
qed

lemma routerInv_installRollout:
  assumes "installLoadBalancer now name TargetSlotRollout lb (sv_options s) (\<lambda>_. ([], Inr s)) r = (eff, Inr (r', replaced))"
    and "routerInv env r" and "lbOK lb" and "serviceOK env s" and "sv_name s = name"
  shows "routerInv env r'"
proof -
  obtain s' where free: "checkAvailability (ro_services r) name (sv_options s) = None"
    and s': "updateLoadBalancer now lb TargetSlotRollout s = (s', replaced)" and r': "r' = r\<lparr>ro_services := smSet (ro_services r) s'\<rparr>"
    using assms(1) by (elim installLoadBalancer_Inr) auto
  note k = updateLoadBalancer_keeps[OF s']
  have "serviceOK env s'"
    by (rule serviceOK_install[OF s' assms(3)]) (use assms(4) in \<open>auto simp: serviceOK_def\<close>)
  then show ?thesis unfolding r' using routerInv_smSet[OF assms(2), of s'] free assms(5) k(1,2) by simp
qed

lemma routerInv_serviceOp:
  assumes "routerInv env r" and "serviceForName r n = Some s" and "serviceOp env s s'"
    and "sv_options s' = sv_options s" "sv_name s' = sv_name s" "st_active s' = st_active s" "st_rollout s' = st_rollout s"
  shows "routerInv env (updateService n (\<lambda>_. s') r)"
  using assms(1)
proof (rule routerInv_updateService)
  fix t assume "serviceForName r n = Some t"
  then have "t = s" using assms(2) by simp
  then show "serviceOK env s' \<and> sv_options s' = sv_options t \<and> sv_name s' = sv_name t"
    using serviceOK_op[OF assms(3) serviceForName_OK(1)[OF assms(1,2)]] assms(4-7) by simp
qed

lemma updateService_const: "serviceForName r n = Some s \<Longrightarrow> updateService n f r = updateService n (\<lambda>_. f s) r"
  by (simp add: updateService_def)

text \<open>The handlers that change one service in place.\<close>

lemma routerInv_inPlace:
  assumes "routerInv env r"
    and "routerSetRolloutSplit env n percent allowList r = Inr r' \<or> routerStopRollout n r = Inr r' \<or> pauseService n timeout r = Inr r'
      \<or> stopService n message r = Inr r' \<or> resumeService n r = Inr r'"
  shows "routerInv env r'"
proof -
  obtain s where s: "serviceForName r n = Some s"
    using assms(2) by (auto simp: routerSetRolloutSplit_def routerStopRollout_def pauseService_def stopService_def resumeService_def split: option.split_asm if_split_asm)
  obtain s' where r': "r' = updateService n (\<lambda>_. s') r" and op: "serviceOp env s s'"
    and keeps: "sv_options s' = sv_options s" "sv_name s' = sv_name s" "st_active s' = st_active s" "st_rollout s' = st_rollout s"
  proof -
    consider s' where "setRolloutSplit env percent allowList s = Inr s'" "r' = updateService n (\<lambda>_. s') r"
      | "r' = updateService n (\<lambda>_. stopRollout s) r" | "r' = updateService n (\<lambda>_. servicePause timeout s) r"
      | s' where "serviceStop message s = Inr s'" "r' = updateService n (\<lambda>_. s') r" | s' where "serviceResume s = Inr s'" "r' = updateService n (\<lambda>_. s') r"
      using assms(2) s updateService_const[OF s, of stopRollout] updateService_const[OF s, of "servicePause timeout"]
      by (auto simp: routerSetRolloutSplit_def routerStopRollout_def pauseService_def stopService_def resumeService_def split: sum.split_asm)
    then show ?thesis
    proof cases
      case (1 s')
      then show ?thesis using op_split[OF 1(1)] by (intro that[of s']) (auto simp: setRolloutSplit_def split: if_split_asm)
    next
      case 2
      then show ?thesis using op_stopRollout by (intro that[of "stopRollout s"]) (auto simp: stopRollout_def)
    next
      case 3
      then show ?thesis using op_pause by (intro that[of "servicePause timeout s"]) (auto simp: servicePause_def)
    next
      case (4 s')
      then show ?thesis using op_stop[OF 4(1)] by (intro that[of s']) (auto simp: serviceStop_def split: sum.split_asm)
    next
      case (5 s')
      then show ?thesis using op_resume[OF 5(1)] by (intro that[of s']) (auto simp: serviceResume_def split: sum.split_asm)
    qed
  qed
  show ?thesis unfolding r' by (rule routerInv_serviceOp[OF assms(1) s op keeps])
qed

lemma initialized:
  assumes "snd (initialize env now so topts s) = Inr s'"
  shows "sv_name s' = sv_name s \<and> sv_options s' = so \<and> st_active s' = st_active s \<and> st_rollout s' = st_rollout s \<and> followsOptions env s'"
proof -
  have "initialize env now so topts s = (fst (initialize env now so topts s), Inr s')" using assms by (metis prod.collapse)
  note i = initialize_keeps[OF this] followsOptions_initialize[OF this]
  show ?thesis using i by simp
qed

lemma unmarshal_OK:
  assumes "unmarshalService env now (the (marshalService s)) = Inr s'" and "serviceOK env s"
  shows "serviceOK env s' \<and> sv_options s' = sv_options s \<and> sv_name s' = sv_name s"
proof -
  let ?ms = "the (marshalService s)"
  have ms: "marshalService s = Some ?ms" and norm: "normalizeServiceOptions (sv_options s) = sv_options s"
    using assms(2) by (auto simp: serviceOK_def marshalService_def)
  have cur: "legacyFields ?ms = ?ms" by (rule legacyFields_current[OF ms norm])
  have so: "ms_options ?ms = sv_options s" "ms_name ?ms = sv_name s" using assms(2) by (auto simp: serviceOK_def marshalService_def)
  from assms(1) show ?thesis
  proof (rule unmarshalService_initialize, goal_cases)
    case (1 active rollout pause)
    note ts = 1(1,2)[unfolded cur so] and i = initialized[OF 1(3)[unfolded cur so]]
    have ok: "lbOK (markAllHealthy (balancerFor env (sv_options s) active))" "lbOK (markAllHealthy (balancerFor env (sv_options s) rollout))"
      using newTargetList_valid[OF ts(1)] newTargetList_valid[OF ts(2)] by (auto intro!: lbOK_ops(6) lbOK_balancerFor)
    show ?case using i ok norm by (auto simp: serviceOK_def bareService_def split: if_split_asm)
  qed
qed

lemma mapResult_related: "mapResult f xs = Inr ys \<Longrightarrow> list_all2 (\<lambda>x y. f x = Inr y) xs ys"
  by (induction xs arbitrary: ys) (auto split: sum.split_asm)

lemma restored_services:
  assumes "routerInv env r" and "stateSnapshot r = Some mss" and "mapResult (unmarshalService env now) mss = Inr ss"
  shows "routerInv env (r'\<lparr>ro_services := fold (\<lambda>s m. smSet m s) ss newServiceMap\<rparr>)"
proof -
  let ?svcs = "sm_services (ro_services r)" and ?m = "fold (\<lambda>s m. smSet m s) ss newServiceMap"
  have "mss = map (\<lambda>(_, s). the (marshalService s)) ?svcs" using assms(2) stateSnapshot_defined[OF assms(1)] by simp
  then have l: "list_all2 (\<lambda>p s'. unmarshalService env now (the (marshalService (snd p))) = Inr s') ?svcs ss"
    using mapResult_related[OF assms(3)] by (simp add: list_all2_map1 case_prod_beta)
  have ok: "serviceOK env (snd p)" "fst p = sv_name (snd p)" if "p \<in> set ?svcs" for p
    using that routerInvD(4,6)[OF assms(1)] by (auto simp: wellKeyed_def)
  have rel: "list_all2 (\<lambda>p s'. serviceOK env s' \<and> sv_options s' = sv_options (snd p) \<and> sv_name s' = fst p) ?svcs ss"
    using l by (rule list.rel_mono_strong) (use ok unmarshal_OK in metis)
  have opts: "optionsOf (keyed ss) = optionsOf ?svcs" and names: "map sv_name ss = map fst ?svcs" and good: "\<forall>s \<in> set ss. serviceOK env s"
    using rel by (induction rule: list_all2_induct) (auto simp: optionsOf_def keyed_def)
  have d: "distinct (map sv_name ss)" using routerInvD(4)[OF assms(1)] names by (simp add: wellKeyed_def)
  then have wk: "wellKeyed (keyed ss)" by (auto simp: wellKeyed_def keyed_def comp_def)
  have bb: "buildBindings (keyed ss) = sm_bindings (ro_services r)"
    unfolding routerInvD(2)[OF assms(1)] by (rule buildBindings_routings[OF optionsOf_routings[OF opts wk routerInvD(4)[OF assms(1)]]])
  have "\<forall>s \<in> set ss. canonicalService s" using good canonicalService_normalized unfolding serviceOK_def by blast
  moreover have "tlsSynced (buildBindings (keyed ss)) (optionsOf (keyed ss))" unfolding bb opts by (rule routerInvD(3)[OF assms(1)])
  ultimately have m: "sm_services ?m = keyed ss" "sm_bindings ?m = sm_bindings (ro_services r)" using fold_smSet_restores[OF d] bb by simp_all
  show ?thesis by (rule routerInv_same_options[OF assms(1)]) (use m opts wk good in \<open>auto simp: keyed_def\<close>)
qed

lemma restoreLastSavedState_inv:
  assumes "restoreLastSavedState env now r = Some r'" and "routerInv env r" and "savedState env (ro_file r)" and "savedState env (ro_backup r)"
  shows "routerInv env r' \<and> savedState env (ro_file r') \<and> savedState env (ro_backup r')"
proof -
  obtain found f b where files: "restoreFiles env now r = Some (found, f, b)" using assms(1) by (auto simp: restoreLastSavedState_def split: option.split_asm)
  have sv: "savedState env f" "savedState env b" using files assms(3,4) by (auto simp: restoreFiles_def split: stateFile.split_asm option.split_asm)
  show ?thesis
  proof (cases found)
    case None
    then show ?thesis using assms files by (simp add: restoreLastSavedState_def)
  next
    case (Some ss)
    have "decodeStateServices env now f = Some ss"
      using files Some by (auto simp: restoreFiles_def split: stateFile.split_asm option.split_asm)
    then obtain mss where mss: "f = Saved mss" "mapResult (unmarshalService env now) mss = Inr ss"
      by (auto simp: decodeStateServices_def split: stateFile.split_asm sum.split_asm)
    then obtain r0 where r0: "routerInv env r0" "stateSnapshot r0 = Some mss" using sv(1) by (auto simp: savedState_def)
    let ?r1 = "r\<lparr>ro_file := f, ro_backup := b, ro_services := fold (\<lambda>s m. smSet m s) ss newServiceMap\<rparr>"
    have "routerInv env ?r1" using restored_services[OF r0 mss(2), of "r\<lparr>ro_file := f, ro_backup := b\<rparr>"] by simp
    then have 2: "routerInv env (mapServices (restoreSleepingService now r) ?r1)"
      by (rule routerInv_mapServices) (auto simp: restoreSleepingService_def serviceOK_lifecycle setContainerLifecycle_keeps)
    have 3: "routerInv env (mapServices recheckTargetHealth (mapServices (restoreSleepingService now r) ?r1))"
      using 2 by (rule routerInv_mapServices) (auto simp: serviceOK_recheck)
    show ?thesis using assms(1) files Some 2 3 sv by (auto simp: restoreLastSavedState_def Let_def mapServices_parts split: if_split_asm)
  qed
qed

lemma systemInv_router:
  assumes "systemInv env x" and "routerInv env r'" and "ro_file r' = ro_file (rs_router x)" and "ro_backup r' = ro_backup (rs_router x)"
  shows "systemInv env (x\<lparr>rs_router := r'\<rparr>)"
  using assms by (simp add: systemInv_def)

lemma updateService_files [simp]: "ro_file (updateService n f r) = ro_file r" "ro_backup (updateService n f r) = ro_backup r"
  by (simp_all add: updateService_def split: option.split)

lemma inPlace_files:
  assumes "routerSetRolloutSplit env n percent allowList r = Inr r' \<or> routerStopRollout n r = Inr r' \<or> pauseService n timeout r = Inr r'
      \<or> stopService n message r = Inr r' \<or> resumeService n r = Inr r'"
  shows "ro_file r' = ro_file r" "ro_backup r' = ro_backup r"
  using assms by (auto simp: routerSetRolloutSplit_def routerStopRollout_def pauseService_def stopService_def resumeService_def
      split: option.split_asm sum.split_asm if_split_asm)

lemma installLoadBalancer_files:
  assumes "installLoadBalancer now name slot lb so getService r = (eff, Inr (r', replaced))"
  shows "ro_file r' = ro_file r" "ro_backup r' = ro_backup r"
  using assms by (auto elim!: installLoadBalancer_Inr)

lemma systemInv_start:
  assumes "savedState env f" and "savedState env b"
  shows "systemInv env (startSystem (newRouter f b))"
  using smInv_newServiceMap assms
  by (auto simp: systemInv_def startSystem_def routerInv_def newRouter_def newServiceMap_def buildBindings_def tlsSynced_def optionsOf_def)

lemma systemInv_inPlace:
  assumes "systemInv env x" and "routerSetRolloutSplit env n percent allowList (rs_router x) = Inr r' \<or> routerStopRollout n (rs_router x) = Inr r'
      \<or> pauseService n timeout (rs_router x) = Inr r' \<or> stopService n message (rs_router x) = Inr r' \<or> resumeService n (rs_router x) = Inr r'"
  shows "systemInv env (x\<lparr>rs_router := r'\<rparr>)"
proof (rule systemInv_router[OF assms(1)])
  have "routerInv env (rs_router x)" using assms(1) by (simp add: systemInv_def)
  then show "routerInv env r'" by (rule routerInv_inPlace) (rule assms(2))
qed (rule inPlace_files[OF assms(2)])+

lemmas systemInv_ops = systemInv_inPlace[OF _ disjI1] systemInv_inPlace[OF _ disjI2, OF _ disjI1] systemInv_inPlace[OF _ disjI2, OF _ disjI2, OF _ disjI1]
  systemInv_inPlace[OF _ disjI2, OF _ disjI2, OF _ disjI2, OF _ disjI1] systemInv_inPlace[OF _ disjI2, OF _ disjI2, OF _ disjI2, OF _ disjI2]

lemma systemInv_update:
  assumes "systemInv env x" and "\<And>s. serviceForName (rs_router x) n = Some s \<Longrightarrow> serviceOK env s \<Longrightarrow>
      serviceOK env (f s) \<and> sv_options (f s) = sv_options s \<and> sv_name (f s) = sv_name s"
  shows "systemInv env (x\<lparr>rs_router := updateService n f (rs_router x)\<rparr>)"
proof (rule systemInv_router[OF assms(1)])
  have inv: "routerInv env (rs_router x)" using assms(1) by (simp add: systemInv_def)
  show "routerInv env (updateService n f (rs_router x))"
    by (rule routerInv_updateService[OF inv]) (use assms(2) serviceForName_OK(1)[OF inv] in blast)
qed simp_all

lemma systemInv_map:
  assumes "systemInv env x" and "\<And>s. serviceOK env s \<Longrightarrow> serviceOK env (f s) \<and> sv_options (f s) = sv_options s \<and> sv_name (f s) = sv_name s"
    and "ro_services r = ro_services (rs_router x)" "ro_file r = ro_file (rs_router x)" "ro_backup r = ro_backup (rs_router x)"
  shows "systemInv env (x\<lparr>rs_router := mapServices f r\<rparr>)"
proof (rule systemInv_router[OF assms(1)])
  have "routerInv env r = routerInv env (rs_router x)" using assms(3) by (simp add: routerInv_def)
  then have "routerInv env r" using assms(1) by (simp add: systemInv_def)
  then show "routerInv env (mapServices f r)" by (rule routerInv_mapServices[OF _ assms(2)])
qed (simp_all add: mapServices_parts assms)

lemma systemInv_step:
  assumes "routerStep env x y" and "systemInv env x"
  shows "systemInv env y"
  using assms
proof (induction rule: routerStep.induct)
  case (deploy inspect x so targetURLs topts readerURLs force es lb now name eff r' replaced)
  have "routerInv env r'"
    using routerInv_installDeploy[OF deploy.hyps(3)] createLoadBalancer_OK(1)[OF deploy.hyps(2)] deploy.prems by (simp add: systemInv_def)
  then show ?case
    using deploy.prems installLoadBalancer_files[OF deploy.hyps(3)[unfolded installDeploy_def]] by (intro systemInv_router) simp_all
next
  case (rollout_begin x name s targetURLs readerURLs force es lb)
  then show ?case using createLoadBalancer_OK(1) by (auto simp: systemInv_def)
next
  case (rollout_install x ps p qs s now eff r' replaced)
  have p: "lbOK (pr_balancer p)" "\<And>s. pr_removed p = Some s \<Longrightarrow> serviceOK env s \<and> sv_name s = pr_name p"
    using rollout_install.prems rollout_install.hyps(1) by (auto simp: systemInv_def)
  have "serviceOK env s" "sv_name s = pr_name p"
    using rollout_install.hyps(2) p(2) rollout_install.prems serviceForName_OK[of env "rs_router x" "pr_name p" s]
    by (auto simp: rolloutObject_def systemInv_def split: option.split_asm)
  then have "routerInv env r'" using routerInv_installRollout[OF rollout_install.hyps(3)] p(1) rollout_install.prems by (simp add: systemInv_def)
  then show ?case using rollout_install.prems rollout_install.hyps(1) installLoadBalancer_files[OF rollout_install.hyps(3)] by (simp add: systemInv_def)
next
  case (remove x name s r')
  have s: "serviceOK env s" "sv_name s = name" using serviceForName_OK remove unfolding systemInv_def by blast+
  have r': "r' = (rs_router x)\<lparr>ro_services := smRemove (ro_services (rs_router x)) (sv_name s)\<rparr>" using remove.hyps by (auto simp: removeService_def)
  have "routerInv env r'" unfolding r' using remove.prems by (intro routerInv_smRemove) (simp add: systemInv_def)
  moreover have "sv_name (serviceDispose s) = name" using s(2) by (simp add: serviceDispose_def)
  ultimately show ?case using remove.prems serviceOK_dispose[OF s(1)] r' by (auto simp: systemInv_def orphanRollouts_def)
next
  case (request x name s now released req s' out)
  then show ?case using serviceOK_request[OF request.hyps(2)] by (intro systemInv_update) auto
next
  case (forward x name s now rid req s' slot res)
  then show ?case using serviceOK_forward[OF forward.hyps(2)] by (intro systemInv_update) auto
next
  case (probe x name s slot lb i ok)
  have "lbOK lb" if "serviceOK env s" using that probe.hyps(2) by (auto simp: serviceOK_def slotBalancer_def split: if_split_asm)
  then show ?case using probe by (intro systemInv_update) (auto intro!: serviceOK_setBalancer lbOK_ops)
next
  case (request_end x name s slot lb i rid)
  have "lbOK lb" if "serviceOK env s" using that request_end.hyps(2) by (auto simp: serviceOK_def slotBalancer_def split: if_split_asm)
  then show ?case using request_end by (intro systemInv_update) (auto intro!: serviceOK_setBalancer lbOK_ops)
next
  case (sleep x name)
  then show ?case by (intro systemInv_update) (auto simp: serviceOK_sleep)
next
  case (wake x name)
  then show ?case by (intro systemInv_update) (auto simp: serviceOK_wake)
next
  case (idle_controller x name c)
  then show ?case by (intro systemInv_update) (auto simp: serviceOK_def followsOptions_def)
next
  case (dynamic_redirects x name m)
  then show ?case by (intro systemInv_update) (auto simp: serviceOK_def followsOptions_def setDynamicRedirects_def)
next
  case (set_san now manager x eff r')
  then have "r' = mapServices (\<lambda>s. snd (serviceSetSANCertManager env now manager s)) ((rs_router x)\<lparr>ro_hasSAN := manager\<rparr>)"
    by (simp add: routerSetSANCertManager_def)
  then show ?case using set_san.prems serviceOK_SAN by (auto intro!: systemInv_map)
next
  case (set_lifecycle x now lifecycle)
  then show ?case unfolding routerSetContainerLifecycle_def
    by (intro systemInv_map) (auto simp: serviceOK_lifecycle setContainerLifecycle_keeps)
next
  case (set_cache x store)
  then show ?case unfolding routerSetCacheStore_def
    by (intro systemInv_map) (auto simp: serviceSetCacheStore_def serviceOK_def followsOptions_def)
next
  case (recheck_on_restore x)
  then show ?case by (intro systemInv_router) (auto simp: systemInv_def routerInv_def)
next
  case (write_state x as mss bs)
  then show ?case by (simp add: systemInv_def)
next
  case (snapshot x mss)
  then show ?case by (auto simp: systemInv_def savedState_def)
next
  case (restart x)
  then show ?case by (intro systemInv_start) (simp_all add: systemInv_def)
next
  case (restore x now r')
  then show ?case using restoreLastSavedState_inv[OF restore.hyps(3)] by (simp add: systemInv_def)
qed (rule systemInv_ops, assumption, assumption)+

section \<open>Reachable states\<close>

lemma systemInv_reachable: "(routerStep env)\<^sup>*\<^sup>* x y \<Longrightarrow> systemInv env x \<Longrightarrow> systemInv env y"
  by (induction rule: rtranclp_induct) (auto intro: systemInv_step)

lemma forward_defined: "serviceOK env s \<Longrightarrow> startLoadBalancerRequest now rid s req \<noteq> None"
  by (auto simp: startLoadBalancerRequest_def Let_def slotBalancer_def loadBalancerForRequest_def usesRollout_def serviceOK_def)


section \<open>Restoring what was saved\<close>

text \<open>The files a service's options name can still be read, and its rollout slot is not an empty list of targets.\<close>

definition loadable :: "'l serviceEnv \<Rightarrow> 'l serviceState \<Rightarrow> bool" where
  "loadable env s \<longleftrightarrow> (\<forall>lb. st_rollout s = Some lb \<longrightarrow> lb_all lb \<noteq> [])
     \<and> \<not> isl (snd (createCertManager env (sv_name s) False (sv_options s)))
     \<and> (so_tlsClientCACertificatePath (sv_options s) \<noteq> [] \<longrightarrow> se_loadsClientCAs env (so_tlsClientCACertificatePath (sv_options s)))
     \<and> (so_errorPagePath (sv_options s) \<noteq> [] \<longrightarrow> se_loadsErrorPages env (so_errorPagePath (sv_options s)))"

definition restoredAs :: "'l serviceEnv \<Rightarrow> 'l serviceState \<Rightarrow> 'l serviceState \<Rightarrow> bool" where
  "restoredAs env s s' \<longleftrightarrow> sv_name s' = sv_name s \<and> sv_options s' = sv_options s \<and> followsOptions env s'
     \<and> st_rolloutController s' = st_rolloutController s \<and> pc_state (st_pause s') = pc_state (st_pause s)
     \<and> rel_option (\<lambda>lb lb'. roles (lb_all lb') = roles (writersFirst lb)) (st_active s) (st_active s')
     \<and> rel_option (\<lambda>lb lb'. roles (lb_all lb') = roles (writersFirst lb)) (st_rollout s) (st_rollout s')"

lemma restorable_OK: "serviceOK env s \<Longrightarrow> loadable env s \<Longrightarrow> restorable env s"
  by (cases "snd (createCertManager env (sv_name s) False (sv_options s))")
     (auto simp: serviceOK_def loadable_def restorable_def lbOK_def set_balancers)

lemma unmarshal_restoredAs:
  assumes "serviceOK env s" and "loadable env s"
  shows "\<exists>s'. unmarshalService env now (the (marshalService s)) = Inr s' \<and> restoredAs env s s'"
proof -
  have "marshalService s = Some (the (marshalService s))" using assms(1) by (auto simp: serviceOK_def marshalService_def)
  from service_restart_roundtrip[OF this restorable_OK[OF assms], of now]
  obtain s' where s': "unmarshalService env now (the (marshalService s)) = Inr s'" "sv_name s' = sv_name s" "sv_options s' = sv_options s" "followsOptions env s'"
    "rel_option sameTargets (st_active s) (st_active s')" "rel_option sameTargets (st_rollout s) (st_rollout s')"
    "st_rolloutController s' = st_rolloutController s" "pc_state (st_pause s') = pc_state (st_pause s)" by blast
  moreover have "rel_option (\<lambda>lb lb'. roles (lb_all lb') = roles (writersFirst lb)) o1 o2" if "rel_option sameTargets o1 o2" for o1 o2
    using that by (rule option.rel_mono_strong) (simp add: sameTargets_def roles_def)
  ultimately show ?thesis by (auto simp: restoredAs_def)
qed

lemma mapResult_all2: "(\<And>x. x \<in> set xs \<Longrightarrow> \<exists>y. f x = Inr y \<and> P x y) \<Longrightarrow> \<exists>ys. mapResult f xs = Inr ys \<and> list_all2 P xs ys"
proof (induction xs)
  case (Cons x xs)
  then obtain y ys where "f x = Inr y" "P x y" "mapResult f xs = Inr ys" "list_all2 P xs ys" by (metis list.set_intros)
  then show ?case by simp
qed simp

lemma mapResult_map: "mapResult f (map g xs) = mapResult (f \<circ> g) xs"
  by (induction xs) (auto split: sum.split)

lemma rel_map_of: "list_all2 (rel_prod (=) R) xs ys \<Longrightarrow> rel_option R (map_of xs n) (map_of ys n)"
  by (induction rule: list_all2_induct) auto

lemma restoredAs_balancers:
  assumes "restoredAs env s s'" and "sv_name t = sv_name s'" "sv_options t = sv_options s'" "followsOptions env t"
    "st_rolloutController t = st_rolloutController s'" "st_pause t = st_pause s'"
    "st_active t = map_option f (st_active s')" "st_rollout t = map_option f (st_rollout s')" and "\<And>lb. roles (lb_all (f lb)) = roles (lb_all lb)"
  shows "restoredAs env s t"
  using assms by (auto simp: restoredAs_def option.rel_map)

lemma restoredAs_recheck: "restoredAs env s s' \<Longrightarrow> restoredAs env s (recheckTargetHealth s')"
  by (rule restoredAs_balancers[where f = recheckHealth])
     (use serviceOp_followsOptions[OF op_recheck, of env s'] in \<open>auto simp: recheckTargetHealth_def recheckHealth_def restoredAs_def\<close>)

lemma restoredAs_sleeping: "restoredAs env s s' \<Longrightarrow> restoredAs env s (restoreSleepingService now r s')"
proof (cases "ro_lifecycle r")
  case True
  assume a: "restoredAs env s s'"
  let ?s = "s'\<lparr>st_lifecycle := True\<rparr>"
  obtain c where c: "configureIdleController now (sv_options s') ?s = ?s\<lparr>st_idle := c\<rparr>" using configureIdle_keeps by blast
  have t: "setContainerLifecycle now True s' = ?s\<lparr>st_idle := c\<rparr> \<or> setContainerLifecycle now True s' = serviceSuspendForSleep (?s\<lparr>st_idle := c\<rparr>)"
    unfolding setContainerLifecycle_def c Let_def by (auto split: option.split)
  have fo: "followsOptions env (setContainerLifecycle now True s')" using a by (intro followsOptions_setContainerLifecycle) (simp add: restoredAs_def)
  from t show ?thesis
  proof
    assume t: "setContainerLifecycle now True s' = ?s\<lparr>st_idle := c\<rparr>"
    show ?thesis using True a fo unfolding restoreSleepingService_def t by (auto simp: restoredAs_def)
  next
    assume t: "setContainerLifecycle now True s' = serviceSuspendForSleep (?s\<lparr>st_idle := c\<rparr>)"
    have "restoredAs env s (setContainerLifecycle now True s')"
      by (rule restoredAs_balancers[OF a, where f = suspendForSleep])
         (use fo in \<open>simp_all add: t serviceSuspendForSleep_def suspendForSleep_def\<close>)
    then show ?thesis using True by (simp add: restoreSleepingService_def)
  qed
qed (simp add: restoreSleepingService_def)

definition restoredServices :: "'l serviceEnv \<Rightarrow> time \<Rightarrow> 'l router \<Rightarrow> 'l serviceState list" where
  "restoredServices env now r = map (\<lambda>(_, s). projr (unmarshalService env now (the (marshalService s)))) (sm_services (ro_services r))"

lemma decoded_services:
  assumes "routerInv env r" and "\<forall>s \<in> snd ` set (sm_services (ro_services r)). loadable env s"
  shows "decodeStateServices env now (Saved (map (\<lambda>(_, s). the (marshalService s)) (sm_services (ro_services r)))) = Some (restoredServices env now r)"
    and "list_all2 (rel_prod (=) (restoredAs env)) (sm_services (ro_services r)) (keyed (restoredServices env now r))"
proof -
  let ?svcs = "sm_services (ro_services r)"
  have one: "\<exists>s'. unmarshalService env now (the (marshalService (snd x))) = Inr s' \<and> restoredAs env (snd x) s'" if "x \<in> set ?svcs" for x
    using that routerInvD(6)[OF assms(1)] assms(2) by (intro unmarshal_restoredAs) auto
  have "\<exists>ss. mapResult (\<lambda>x. unmarshalService env now (the (marshalService (snd x)))) ?svcs = Inr ss
      \<and> list_all2 (\<lambda>x s'. unmarshalService env now (the (marshalService (snd x))) = Inr s') ?svcs ss"
    by (rule mapResult_all2) (use one in blast)
  then obtain ss where ss: "mapResult (\<lambda>x. unmarshalService env now (the (marshalService (snd x)))) ?svcs = Inr ss"
    "list_all2 (\<lambda>x s'. unmarshalService env now (the (marshalService (snd x))) = Inr s') ?svcs ss" by blast
  have "ss = restoredServices env now r" using ss(2) unfolding restoredServices_def
    by (induction rule: list_all2_induct) (auto simp: case_prod_beta)
  then show "decodeStateServices env now (Saved (map (\<lambda>(_, s). the (marshalService s)) ?svcs)) = Some (restoredServices env now r)"
    using ss(1) by (simp add: decodeStateServices_def mapResult_map comp_def case_prod_beta)
  have names: "fst x = sv_name (snd x)" if "x \<in> set ?svcs" for x using that routerInvD(4)[OF assms(1)] by (auto simp: wellKeyed_def)
  have "rel_prod (=) (restoredAs env) x (sv_name (projr (unmarshalService env now (the (marshalService (snd x))))), projr (unmarshalService env now (the (marshalService (snd x)))))"
    if "x \<in> set ?svcs" for x
    using one[OF that] names[OF that] by (cases x) (auto simp: restoredAs_def)
  then show "list_all2 (rel_prod (=) (restoredAs env)) ?svcs (keyed (restoredServices env now r))"
    by (auto simp: restoredServices_def keyed_def list_all2_conv_all_nth case_prod_beta)
qed

lemma restored_map:
  assumes "routerInv env r" and "\<forall>s \<in> snd ` set (sm_services (ro_services r)). loadable env s"
  shows "sm_services (fold (\<lambda>s m. smSet m s) (restoredServices env now r) newServiceMap) = keyed (restoredServices env now r)
    \<and> sm_bindings (fold (\<lambda>s m. smSet m s) (restoredServices env now r) newServiceMap) = sm_bindings (ro_services r)"
proof -
  let ?svcs = "sm_services (ro_services r)" and ?ss = "restoredServices env now r"
  have rel: "list_all2 (rel_prod (=) (restoredAs env)) ?svcs (keyed ?ss)" by (rule decoded_services(2)[OF assms])
  then have opts: "optionsOf (keyed ?ss) = optionsOf ?svcs"
    by (induction rule: list_all2_induct) (auto simp: optionsOf_def restoredAs_def)
  have "map fst (keyed ?ss) = map fst ?svcs" using rel by (induction rule: list_all2_induct) auto
  then have d: "distinct (map sv_name ?ss)" using routerInvD(4)[OF assms(1)] by (simp add: keyed_def wellKeyed_def comp_def)
  then have wk: "wellKeyed (keyed ?ss)" by (auto simp: wellKeyed_def keyed_def comp_def)
  have rt: "routings (keyed ?ss) = routings ?svcs" by (rule optionsOf_routings[OF opts wk routerInvD(4)[OF assms(1)]])
  have bb: "buildBindings (keyed ?ss) = sm_bindings (ro_services r)" unfolding routerInvD(2)[OF assms(1)] by (rule buildBindings_routings[OF rt])
  have "\<forall>s \<in> snd ` set (keyed ?ss). canonicalService s" using routerInvD(7)[OF assms(1)] by (simp only: canonical_routings[OF rt])
  then have "\<forall>s \<in> set ?ss. canonicalService s" by (auto simp: keyed_def)
  moreover have "tlsSynced (buildBindings (keyed ?ss)) (optionsOf (keyed ?ss))" unfolding bb opts by (rule routerInvD(3)[OF assms(1)])
  ultimately show ?thesis using fold_smSet_restores[OF d] bb by simp
qed


section \<open>Failed deploys\<close>

text \<open>The router after a deploy, the calls made to the shared certificate manager, and the error the operator sees. The calls a service
  makes while it is being built stay made when building it fails.\<close>

definition deployService ::
  "'l serviceEnv \<Rightarrow> (string \<Rightarrow> containerCheck) \<Rightarrow> time \<Rightarrow> string \<Rightarrow> string list \<Rightarrow> string list \<Rightarrow> serviceOptions \<Rightarrow> targetOptions \<Rightarrow> bool \<Rightarrow> lbEvent list
     \<Rightarrow> 'l router \<Rightarrow> 'l router \<times> sanEffect list \<times> routerError option" where
  "deployService env inspect now name targetURLs readerURLs so0 topts force es r =
     (case validateDeploy env inspect (ro_lifecycle r) so0 targetURLs topts of
        Some e \<Rightarrow> (r, [], Some e)
      | None \<Rightarrow>
          (let so = normalizeServiceOptions so0
           in case createLoadBalancer env targetURLs readerURLs so topts force es of
                Inl e \<Rightarrow> (r, [], Some e)
              | Inr lb \<Rightarrow>
                  (case installDeploy env now name lb so topts r of
                     (eff, Inl e) \<Rightarrow> (r, eff, Some e)
                   | (eff, Inr (r', _)) \<Rightarrow> (r', eff, None))))"

text \<open>The address, the weight and the role a target's specification asks for.\<close>

definition askedRole :: "bool \<Rightarrow> string \<Rightarrow> string \<times> int \<times> bool" where
  "askedRole reader spec = (case parseTargetSpec spec of Inl _ \<Rightarrow> ([], 0, reader) | Inr (address, weight) \<Rightarrow> (address, weight, reader))"

lemma newTarget_asked:
  "newTarget spec opts = Inr t \<Longrightarrow> targetIdentity t = askedRole False spec"
  "newReadOnlyTarget spec opts = Inr t \<Longrightarrow> targetIdentity t = askedRole True spec"
  by (auto simp: newTarget_def newReadOnlyTarget_def parseTargetURL_def targetIdentity_def askedRole_def
      dest!: map_sum_Inr split: sum.split_asm prod.split_asm if_split_asm)

lemma newTargetList_roles:
  assumes "newTargetList targetURLs readerURLs topts = Inr ts"
  shows "roles ts = map (askedRole False) targetURLs @ map (askedRole True) readerURLs"
proof -
  obtain ws rs where ws: "mapResult (\<lambda>u. newTarget u topts) targetURLs = Inr ws" and rs: "mapResult (\<lambda>u. newReadOnlyTarget u topts) readerURLs = Inr rs"
    and ts: "ts = ws @ rs"
    using assms by (auto simp: newTargetList_def split: sum.split_asm)
  have "map targetIdentity ys = map g xs" if "list_all2 (\<lambda>x y. f x = Inr y) xs ys" "\<And>x y. f x = Inr y \<Longrightarrow> targetIdentity y = g x"
    for f :: "string \<Rightarrow> targetError + target" and xs ys g
    using that by (induction rule: list_all2_induct) simp_all
  from this[OF mapResult_related[OF ws]] this[OF mapResult_related[OF rs]] show ?thesis
    using newTarget_asked unfolding ts roles_def by fastforce
qed

lemma createLoadBalancer_roles:
  assumes "createLoadBalancer env targetURLs readerURLs so topts force es = Inr lb"
  shows "roles (lb_all lb) = map (askedRole False) targetURLs @ map (askedRole True) readerURLs"
proof -
  obtain ts where ts: "newTargetList targetURLs readerURLs topts = Inr ts" and lb: "lb = lbRun es (balancerFor env so ts)"
    using assms by (auto simp: createLoadBalancer_def Let_def split: sum.split_asm if_split_asm)
  have "lbOK (balancerFor env so ts)" using lbOK_balancerFor newTargetList_valid[OF ts] by blast
  from lbRun_OK[OF this, of es] show ?thesis using newTargetList_roles[OF ts] by (simp add: lb balancerFor_targets)
qed

text \<open>What a service of a name may tell the certificate manager: its directory, and its own hosts.\<close>

definition effectOf :: "string \<Rightarrow> string list \<Rightarrow> sanEffect \<Rightarrow> bool" where
  "effectOf name hosts e = (case e of SetServiceDirectory n _ \<Rightarrow> n = name | RegisterDomain h n \<Rightarrow> n = name \<and> h \<in> set hosts \<and> h \<noteq> [])"

lemma createCertManager_effects: "list_all (effectOf name (so_hosts so)) (fst (createCertManager env name san so))"
  by (auto simp: createCertManager_def Let_def effectOf_def list_all_iff)

lemma installDeploy_effects:
  assumes "installDeploy env now name lb so topts r = (eff, res)" and "routerInv env r"
  shows "list_all (effectOf name (so_hosts so)) eff"
proof -
  have init: "fst (initialize env now so topts s) = fst (createCertManager env (sv_name s) (st_hasSAN s) so)" for s
    by (auto simp: initialize_def Let_def split: prod.split sum.split)
  have "fst (createOrUpdateService env now name so topts r) = fst (createCertManager env name (case serviceForName r name of None \<Rightarrow> ro_hasSAN r | Some s \<Rightarrow> st_hasSAN s) so)"
  proof (cases "serviceForName r name")
    case None
    have "fst (createOrUpdateService env now name so topts r) = fst (newService env now name so topts (ro_hasSAN r))"
      using None by (simp add: createOrUpdateService_def split: prod.split sum.split)
    also have "\<dots> = fst (createCertManager env name (ro_hasSAN r) so)" unfolding newService_def init by (simp add: bareService_def)
    finally show ?thesis using None by simp
  next
    case (Some s)
    then show ?thesis using serviceForName_OK(2)[OF assms(2) Some] by (simp add: createOrUpdateService_def updateOptions_def init)
  qed
  moreover have "eff = [] \<or> eff = fst (createOrUpdateService env now name so topts r)"
    using assms(1) by (auto simp: installDeploy_def installLoadBalancer_def split: if_split_asm prod.split_asm sum.split_asm)
  ultimately show ?thesis using createCertManager_effects by fastforce
qed

lemma smSet_get:
  assumes "smInv m" and "canonicalService s" and "checkAvailability m (sv_name s) (sv_options s) = None"
  shows "smGet (smSet m s) n = map_option (syncedService (sm_bindings (smSet m s)) (AList.update (sv_name s) s (sm_services m)))
    (if n = sv_name s then Some s else smGet m n)"
proof -
  let ?svcs = "AList.update (sv_name s) s (sm_services m)"
  have "wellKeyed ?svcs" using assms(1) by (auto simp: smInv_def wellKeyed_def distinct_update dest!: set_AList_update)
  moreover have "\<forall>t \<in> snd ` set ?svcs. canonicalService t" using assms(1,2) unfolding smInv_def by (intro update_forall) auto
  ultimately have "smGet (smSet m s) n = map_option (syncedService (buildBindings ?svcs) ?svcs) (map_of ?svcs n)"
    by (rule smGet_sync[OF smInv_smSet[OF assms] smSet_def])
  then show ?thesis by (simp add: smSet_bindings update_conv smGet_def)
qed

lemma syncedService_keeps:
  fixes s :: "'l serviceState"
  shows "routingOf (syncedService rm svcs s) = routingOf s" "st_active (syncedService rm svcs s) = st_active s" "st_rollout (syncedService rm svcs s) = st_rollout s"
  unfolding syncedService_rootTLS by (simp_all add: setTLS_def routingOf_def)


section \<open>What handlers side by side can do\<close>

text \<open>A rollout deploy still waiting for its targets when the service is removed brings the removed service back: it
  installs the object it looked up at its start, whose active targets are disposed of.\<close>

lemma removed_service_returns:
  assumes "systemInv env x" and "rs_rollouts x = [p]" and "pr_removed p = Some (serviceDispose s)"
    and "checkAvailability (ro_services (rs_router x)) (pr_name p) (sv_options s) = None"
  shows "\<exists>y. routerStep env x y \<and> (\<exists>t. serviceForName (rs_router y) (pr_name p) = Some t \<and> st_active t = map_option lbDispose (st_active s))"
proof -
  let ?d = "serviceDispose s" and ?r = "rs_router x"
  have opts: "sv_options ?d = sv_options s" "st_active ?d = map_option lbDispose (st_active s)" by (simp_all add: serviceDispose_def)
  have d: "serviceOK env ?d" "sv_name ?d = pr_name p" "lbOK (pr_balancer p)" using assms(1-3) by (auto simp: systemInv_def)
  obtain s' replaced where u: "updateLoadBalancer 0 (pr_balancer p) TargetSlotRollout ?d = (s', replaced)" by fastforce
  note k = updateLoadBalancer_keeps[OF u]
  let ?r' = "?r\<lparr>ro_services := smSet (ro_services ?r) s'\<rparr>"
  have i: "installLoadBalancer 0 (pr_name p) TargetSlotRollout (pr_balancer p) (sv_options ?d) (\<lambda>_. ([], Inr ?d)) ?r = ([], Inr (?r', replaced))"
    using assms(4) u opts(1) by (simp add: installLoadBalancer_def)
  have step: "routerStep env x (x\<lparr>rs_router := ?r', rs_rollouts := [] @ []\<rparr>)"
    by (rule rollout_install[where p = p and s = ?d]) (use assms(2,3) i in \<open>simp_all add: rolloutObject_def\<close>)
  have inv: "routerInv env ?r" using assms(1) by (simp add: systemInv_def)
  have "canonicalService s'" using d(1) k(1) by (intro canonicalService_normalized) (simp add: serviceOK_def)
  then have "smGet (smSet (ro_services ?r) s') (pr_name p)
      = Some (syncedService (sm_bindings (smSet (ro_services ?r) s')) (AList.update (sv_name s') s' (sm_services (ro_services ?r))) s')"
    using smSet_get[OF routerInvD(1)[OF inv], of s' "pr_name p"] assms(4) k(1,2) d(2) opts(1) by simp
  moreover have "st_active s' = st_active ?d" using k(4)[of TargetSlotActive] by (simp add: slotBalancer_def)
  ultimately show ?thesis using step opts(2) by (intro exI[of _ "x\<lparr>rs_router := ?r', rs_rollouts := [] @ []\<rparr>"]) (simp add: serviceForName_def syncedService_keeps)
qed

text \<open>A snapshot is taken before the lock that orders the writes, so an older one can be the last written: after a removal
  that has been saved, the state file can hold the removed service again.\<close>

lemma older_snapshot_wins:
  assumes "stateSnapshot (rs_router x) = Some old" and "rs_saves x = []" and "serviceForName (rs_router x) name = Some s"
    and "removeService name (rs_router x) = Inr r'" and "stateSnapshot r' = Some new"
  shows "\<exists>y. (routerStep env)\<^sup>*\<^sup>* x y \<and> rs_saves y = [] \<and> stateSnapshot (rs_router y) = Some new \<and> ro_file (rs_router y) = Saved old"
proof -
  define x1 where "x1 = x\<lparr>rs_saves := [old]\<rparr>"
  define x2 where "x2 = x1\<lparr>rs_router := r', rs_rollouts := orphanRollouts name s (rs_rollouts x1)\<rparr>"
  define x3 where "x3 = x2\<lparr>rs_saves := [new, old]\<rparr>"
  define x4 where "x4 = x3\<lparr>rs_router := (rs_router x3)\<lparr>ro_file := Saved new\<rparr>, rs_saves := [old]\<rparr>"
  define x5 where "x5 = x4\<lparr>rs_router := (rs_router x4)\<lparr>ro_file := Saved old\<rparr>, rs_saves := []\<rparr>"
  note xs = x5_def x4_def x3_def x2_def x1_def
  have "routerStep env x x1" using snapshot[OF assms(1), of env] assms(2) by (simp add: x1_def)
  moreover have "routerStep env x1 x2" unfolding x2_def by (rule remove) (use assms in \<open>simp_all add: x1_def\<close>)
  moreover have "routerStep env x2 x3" using snapshot[of x2 new env] assms(5) by (simp add: xs)
  moreover have "routerStep env x3 x4" using write_state[of x3 "[]" new "[old]" env] by (simp add: x4_def x3_def)
  moreover have "routerStep env x4 x5" using write_state[of x4 "[]" old "[]" env] by (simp add: x5_def x4_def)
  ultimately have "(routerStep env)\<^sup>*\<^sup>* x x5" by (meson rtranclp.rtrancl_refl rtranclp.rtrancl_into_rtrancl)
  moreover have "stateSnapshot (rs_router x5) = Some new" using assms(5) by (simp add: xs stateSnapshot_def)
  ultimately show ?thesis by (auto simp: xs)
qed

text \<open>A service below a root service that has its own certificate takes over its TLS settings and not the certificate. With a wildcard
  host it cannot be initialised with these settings, so the state file that is saved cannot be restored.\<close>

lemma synced_wildcard_unrestorable:
  assumes "stateSnapshot r = Some mss" and "serviceForName r n = Some s" and "normalizeServiceOptions (sv_options s) = sv_options s"
    and "so_tlsEnabled (sv_options s)" and "so_tlsCertificatePath (sv_options s) = []" and "\<exists>h \<in> set (so_hosts (sv_options s)). containsStr h ''*''"
  shows "decodeStateServices env now (Saved mss) = None"
proof -
  have mem: "(n, s) \<in> set (sm_services (ro_services r))" using assms(2) by (auto simp: serviceForName_def smGet_def dest: map_of_SomeD)
  then obtain ms where ms: "marshalService s = Some ms" "ms \<in> set mss"
    using assms(1) by (force simp: stateSnapshot_def allSome_map split: if_split_asm)
  have "ms_options ms = sv_options s" using ms(1) by (auto simp: marshalService_def)
  then have "\<exists>e. snd (initialize env now (ms_options ms) topts b) = Inl e" for topts b
    using assms(4-6) by (simp add: initialize_def Let_def createCertManager_def list_ex_iff case_prod_beta)
  then have "\<exists>e. unmarshalService env now ms = Inl e"
    unfolding unmarshalService_def Let_def legacyFields_current[OF ms(1) assms(3)]
    by (auto split: prod.split sum.split)
  moreover have "(\<exists>e. f x = Inl e) \<Longrightarrow> x \<in> set xs \<Longrightarrow> \<exists>e. mapResult f xs = Inl e" for f :: "marshalledService \<Rightarrow> serviceError + 'l serviceState" and x xs
    by (induction xs) (auto split: sum.split)
  ultimately show ?thesis using ms(2) by (fastforce simp: decodeStateServices_def split: sum.split)
qed

section \<open>Examples\<close>

definition webOptions :: serviceOptions where
  "webOptions = normalizeServiceOptions (zeroServiceOptions\<lparr>so_hosts := [''web.io'']\<rparr>)"

definition webRouter :: "bool router" where
  "webRouter = fst (deployService exampleEnv (\<lambda>_. ContainerKnown) 0 ''web'' [''web1:80''] [] webOptions zeroTargetOptions True [] (newRouter NoFile NoFile))"

lemma webRouter_deployed:
  "deployService exampleEnv (\<lambda>_. ContainerKnown) 0 ''web'' [''web1:80''] [] webOptions zeroTargetOptions True [] (newRouter NoFile NoFile) = (webRouter, [], None)"
proof -
  have "snd (deployService exampleEnv (\<lambda>_. ContainerKnown) 0 ''web'' [''web1:80''] [] webOptions zeroTargetOptions True [] (newRouter NoFile NoFile)) = ([], None)"
    by code_simp
  then show ?thesis unfolding webRouter_def by (metis prod.collapse)
qed

lemma deploy_step:
  assumes "deployService env inspect now name targetURLs readerURLs so topts force es (rs_router x) = (r', eff, None)"
  shows "routerStep env x (x\<lparr>rs_router := r'\<rparr>)"
  using assms deploy
  by (cases "validateDeploy env inspect (ro_lifecycle (rs_router x)) so targetURLs topts")
     (auto simp: deployService_def Let_def split: sum.split_asm prod.split_asm)

lemma no_saved_state: "savedState env NoFile"
  by (simp add: savedState_def)

lemmas webRouter_start = no_saved_state[of exampleEnv] no_saved_state[of exampleEnv]

lemma webRouter_reachable: "(routerStep exampleEnv)\<^sup>*\<^sup>* (startSystem (newRouter NoFile NoFile)) (startSystem webRouter)"
proof -
  have "routerStep exampleEnv (startSystem (newRouter NoFile NoFile)) ((startSystem (newRouter NoFile NoFile))\<lparr>rs_router := webRouter\<rparr>)"
    by (rule deploy_step) (use webRouter_deployed in \<open>simp add: startSystem_def\<close>)
  then show ?thesis by (simp add: startSystem_def)
qed

definition webRequest :: request where
  "webRequest = emptyRequest\<lparr>req_host := ''web.io'', req_path := ''/''\<rparr>"


definition webSaved :: "marshalledService list" where
  "webSaved = the (stateSnapshot webRouter)"



text \<open>A root service with a wildcard certificate and a service below it: deployed, saved, and not restorable.\<close>

lemma wildcard_deploys_unrestorable:
  "decodeStateServices exampleEnv 9 (Saved (the (stateSnapshot (fst
     (deployService exampleEnv (\<lambda>_. ContainerKnown) 1 ''api'' [''api1:80''] [] (zeroServiceOptions\<lparr>so_hosts := [''*.web.io''], so_pathPrefixes := [''/api'']\<rparr>) zeroTargetOptions True []
     (fst (deployService exampleEnv (\<lambda>_. ContainerKnown) 0 ''web'' [''web1:80''] []
        (zeroServiceOptions\<lparr>so_hosts := [''*.web.io''], so_tlsEnabled := True, so_tlsCertificatePath := ''c'', so_tlsPrivateKeyPath := ''k''\<rparr>) zeroTargetOptions True []
        (newRouter NoFile NoFile)))))))) = None"
  by code_simp

end
