(* ===== verification/Trace_Context.thy ===== *)
theory Trace_Context
  imports Urls
begin

text \<open>
  The W3C trace context middleware (\<open>trace_context.go\<close>): what a \<open>traceparent\<close> header must look like, the header a new
  trace gets, and what the middleware forwards and logs in each mode. The bytes read from the random source are
  an argument.
\<close>

datatype traceContextMode = TraceContextOff | TraceContextPropagate | TraceContextGenerate

definition parseTraceContextMode :: "string \<Rightarrow> traceContextMode option" where
  "parseTraceContextMode value = (let mode = toLower (trimSpace value) in
     if mode = [] then Some TraceContextPropagate
     else if mode = ''off'' then Some TraceContextOff
     else if mode = ''propagate'' then Some TraceContextPropagate
     else if mode = ''generate'' then Some TraceContextGenerate
     else None)"

record traceContext =
  tc_traceID :: string
  tc_spanID :: string
  tc_flags :: string

definition tcString :: "traceContext \<Rightarrow> string" where
  "tcString tc = ''00-'' @ tc_traceID tc @ ''-'' @ tc_spanID tc @ ''-'' @ tc_flags tc"

definition isLowerHex :: "string \<Rightarrow> nat \<Rightarrow> bool" where
  "isLowerHex v n \<longleftrightarrow> length v = n \<and> list_all (\<lambda>c. let k = of_char c :: nat in 48 \<le> k \<and> k \<le> 57 \<or> 97 \<le> k \<and> k \<le> 102) v"

definition isAllZeroes :: "string \<Rightarrow> bool" where
  "isAllZeroes v \<longleftrightarrow> count_list v (CHR ''0'') = length v"

definition parseTraceparent :: "string list \<Rightarrow> traceContext option" where
  "parseTraceparent values = (case values of
     [value] \<Rightarrow>
       (case splitAt (CHR ''-'') value of
          version # traceID # spanID # flags # extra \<Rightarrow>
            if \<not> isLowerHex version 2 \<or> version = ''ff'' then None
            else if version = ''00'' \<and> extra \<noteq> [] then None
            else if \<not> isLowerHex traceID 32 \<or> isAllZeroes traceID then None
            else if \<not> isLowerHex spanID 16 \<or> isAllZeroes spanID then None
            else if \<not> isLowerHex flags 2 then None
            else Some \<lparr>tc_traceID = traceID, tc_spanID = spanID, tc_flags = flags\<rparr>
        | _ \<Rightarrow> None)
   | _ \<Rightarrow> None)"

definition newTraceContext :: "string \<Rightarrow> traceContext" where
  "newTraceContext buffer = \<lparr>tc_traceID = encodeHex (take 16 buffer), tc_spanID = encodeHex (drop 16 buffer), tc_flags = ''01''\<rparr>"

text \<open>The request handed on and the trace written to the access log.\<close>

definition traceServeHTTP :: "traceContextMode \<Rightarrow> string \<Rightarrow> request \<Rightarrow> request \<times> traceContext option" where
  "traceServeHTTP mode buffer r = (case parseTraceparent (hvalues (req_header r) ''Traceparent'') of
     Some tc \<Rightarrow> (r, Some tc)
   | None \<Rightarrow>
       if mode = TraceContextGenerate
       then (let tc = newTraceContext buffer
             in (r\<lparr>req_header := hdel (hset (req_header r) ''Traceparent'' (tcString tc)) ''Tracestate''\<rparr>, Some tc))
       else (r, None))"

definition withTraceContextMiddleware :: "traceContextMode \<Rightarrow> string \<Rightarrow> request \<Rightarrow> request \<times> traceContext option" where
  "withTraceContextMiddleware mode buffer r = (if mode = TraceContextOff then (r, None) else traceServeHTTP mode buffer r)"

section \<open>A printed trace parses\<close>

lemma splitAt_append: "c \<notin> set a \<Longrightarrow> splitAt c (a @ c # b) = a # splitAt c b"
  by (induction a) (auto split: list.split)

lemma splitAt_absent: "c \<notin> set a \<Longrightarrow> splitAt c a = [a]"
  by (induction a) auto

lemma count_list_all: "count_list xs x = length xs \<longleftrightarrow> list_all (\<lambda>y. y = x) xs"
proof (induction xs)
  case (Cons y xs)
  have "count_list xs x \<noteq> Suc (length xs)" using count_le_length[of xs x] by simp
  then show ?case using Cons.IH by auto
qed simp

lemma lowerHex_no_dash: "isLowerHex v n \<Longrightarrow> CHR ''-'' \<notin> set v"
  by (auto simp: isLowerHex_def list_all_iff Let_def)

definition validTrace :: "traceContext \<Rightarrow> bool" where
  "validTrace tc \<longleftrightarrow> isLowerHex (tc_traceID tc) 32 \<and> \<not> isAllZeroes (tc_traceID tc)
     \<and> isLowerHex (tc_spanID tc) 16 \<and> \<not> isAllZeroes (tc_spanID tc) \<and> isLowerHex (tc_flags tc) 2"

lemma parseTraceparent_tcString:
  assumes "validTrace tc"
  shows "parseTraceparent [tcString tc] = Some tc"
proof -
  have "splitAt (CHR ''-'') (tcString tc) = [''00'', tc_traceID tc, tc_spanID tc, tc_flags tc]"
  proof -
    have dash: "CHR ''-'' \<notin> set (tc_traceID tc)" "CHR ''-'' \<notin> set (tc_spanID tc)" "CHR ''-'' \<notin> set (tc_flags tc)"
      using assms lowerHex_no_dash unfolding validTrace_def by blast+
    have "tcString tc = ''00'' @ CHR ''-'' # tc_traceID tc @ CHR ''-'' # tc_spanID tc @ CHR ''-'' # tc_flags tc"
      by (simp add: tcString_def)
    then show ?thesis by (simp only: splitAt_append[OF dash(1)] splitAt_append[OF dash(2)] splitAt_absent[OF dash(3)])
        (simp add: splitAt_append dash splitAt_absent)
  qed
  moreover have "isLowerHex ''00'' 2" by code_simp
  ultimately show ?thesis using assms by (simp add: parseTraceparent_def validTrace_def)
qed

lemma parseTraceparent_valid: "parseTraceparent vs = Some tc \<Longrightarrow> validTrace tc"
  by (auto simp: parseTraceparent_def validTrace_def split: list.split_asm if_split_asm)

lemma hexDigits_lower: "list_all (\<lambda>c. isLowerHex [c] 1) ''0123456789abcdef''"
  by code_simp

lemma isLowerHex_encodeHex: "isLowerHex (encodeHex s) (2 * length s)"
proof -
  have "isLowerHex [c] 1" if "c \<in> set (encodeHex s)" for c
    using that set_encodeHex[of s] hexDigits_lower unfolding list_all_iff by blast
  then show ?thesis by (auto simp: isLowerHex_def list_all_iff)
qed

lemma isAllZeroes_encodeHex: "isAllZeroes (encodeHex s) \<Longrightarrow> set s \<subseteq> {CHR 0x00}"
proof (induction s)
  case (Cons c s)
  let ?n = "of_char c :: nat"
  have hi: "lowerHexDigit (?n div 16) = CHR ''0''" and lo: "lowerHexDigit (?n mod 16) = CHR ''0''" and rest: "isAllZeroes (encodeHex s)"
    using Cons.prems unfolding isAllZeroes_def count_list_all by (simp_all add: encodeHex_def Let_def)
  have "unhex (CHR ''0'') = Some 0" by code_simp
  then have "?n div 16 = 0" "?n mod 16 = 0"
    using unhex_digit(1)[OF nibbles(2)[OF of_char_byte[of c]]] unhex_digit(1)[of "?n mod 16"] hi lo by simp_all
  then have "c = char_of (0 :: nat)" by (metis char_of_nibbles mult_0_right add_0)
  moreover have "char_of (0 :: nat) = CHR 0x00" by code_simp
  ultimately show ?case using Cons.IH[OF rest] by simp
qed simp

lemma newTraceContext_valid:
  assumes "length buffer = 24" and "\<not> set (take 16 buffer) \<subseteq> {CHR 0x00}" and "\<not> set (drop 16 buffer) \<subseteq> {CHR 0x00}"
  shows "validTrace (newTraceContext buffer)"
proof -
  have "isLowerHex ''01'' 2" by code_simp
  then show ?thesis
    using assms isAllZeroes_encodeHex isLowerHex_encodeHex[of "take 16 buffer"] isLowerHex_encodeHex[of "drop 16 buffer"]
    by (auto simp: validTrace_def newTraceContext_def)
qed

text \<open>The access log and the target agree about a request's trace. Unless the middleware is off, the trace it logs is the
  one the forwarded header parses to; a header that was valid is forwarded as it came, in the generate mode
  every request leaves with exactly one valid \<open>traceparent\<close>, and the \<open>tracestate\<close> of a discarded trace is dropped. The
  random bytes are assumed not to be all zero, which the format forbids.\<close>

theorem trace_logged_is_forwarded:
  assumes "withTraceContextMiddleware mode buffer r = (r', logged)" and "mode \<noteq> TraceContextOff" and "length buffer = 24"
    and "\<not> set (take 16 buffer) \<subseteq> {CHR 0x00}" and "\<not> set (drop 16 buffer) \<subseteq> {CHR 0x00}"
  shows "parseTraceparent (hvalues (req_header r') ''Traceparent'') = logged
    \<and> (parseTraceparent (hvalues (req_header r) ''Traceparent'') \<noteq> None \<or> mode = TraceContextPropagate \<longrightarrow> r' = r)
    \<and> (mode = TraceContextGenerate \<longrightarrow> logged \<noteq> None)
    \<and> (r' \<noteq> r \<longrightarrow> hvalues (req_header r') ''Tracestate'' = [])"
proof (cases "parseTraceparent (hvalues (req_header r) ''Traceparent'')")
  case (Some tc)
  then have "r' = r" and "logged = Some tc" using assms(1,2) by (auto simp: withTraceContextMiddleware_def traceServeHTTP_def)
  then show ?thesis using Some by simp
next
  case None
  have keys: "canonicalHeaderKey ''Traceparent'' \<noteq> canonicalHeaderKey ''Tracestate''" by code_simp
  show ?thesis
  proof (cases "mode = TraceContextGenerate")
    case True
    then have r': "r' = r\<lparr>req_header := hdel (hset (req_header r) ''Traceparent'' (tcString (newTraceContext buffer))) ''Tracestate''\<rparr>"
      and "logged = Some (newTraceContext buffer)"
      using assms(1) None by (auto simp: withTraceContextMiddleware_def traceServeHTTP_def Let_def)
    then show ?thesis using keys None True parseTraceparent_tcString[OF newTraceContext_valid[OF assms(3-5)]]
      by (simp add: header_simps)
  next
    case False
    then show ?thesis using assms(1,2) None by (simp add: withTraceContextMiddleware_def traceServeHTTP_def)
  qed
qed

definition countingBytes :: string where
  "countingBytes = map char_of [1..<25 :: nat]"

theorem trace_logged_is_forwarded_witness:
  "parseTraceparent (hvalues (req_header (fst (withTraceContextMiddleware TraceContextGenerate countingBytes emptyRequest))) ''Traceparent'')
     = Some \<lparr>tc_traceID = ''0102030405060708090a0b0c0d0e0f10'', tc_spanID = ''1112131415161718'', tc_flags = ''01''\<rparr>"
proof -
  have ne: "TraceContextGenerate \<noteq> TraceContextOff" by simp
  have len: "length countingBytes = 24" by code_simp
  have t: "\<not> set (take 16 countingBytes) \<subseteq> {CHR 0x00}" by code_simp
  have d: "\<not> set (drop 16 countingBytes) \<subseteq> {CHR 0x00}" by code_simp
  have snd: "snd (withTraceContextMiddleware TraceContextGenerate countingBytes emptyRequest)
      = Some \<lparr>tc_traceID = ''0102030405060708090a0b0c0d0e0f10'', tc_spanID = ''1112131415161718'', tc_flags = ''01''\<rparr>"
    by code_simp
  show ?thesis using trace_logged_is_forwarded[OF surjective_pairing ne len t d, of emptyRequest] snd by simp
qed

end
