(* ===== verification/Cache_Entry.thy ===== *)
theory Cache_Entry
  imports Cache_Policy
begin

text \<open>
  Stored responses: \<open>cache_entry.go\<close> (ages and lifetimes), \<open>cache_variant.go\<close> (which entry answers which
  request, and the index of a resource that negotiates) and \<open>cache_response_writer.go\<close> (the writer that
  records a response on its way to the client). The digest is the hexadecimal SHA-256 of its argument, a
  parameter. Durations wrap as \<open>int64\<close>; the difference of two times saturates as \<open>Time.Sub\<close> does.
\<close>

section \<open>Entries\<close>

record cacheEntry =
  ce_service :: string
  ce_path :: string
  ce_varyOn :: "string list"
  ce_variantKey :: string
  ce_variants :: "string list"
  ce_statusCode :: int
  ce_header :: header
  ce_body :: string
  ce_storedAt :: time
  ce_initialAge :: duration
  ce_freshFor :: duration
  ce_staleWhileRevalidate :: duration

definition timeSub :: "time \<Rightarrow> time \<Rightarrow> duration" where
  "timeSub t u = max min_int64 (min max_int64 (t - u))"

definition age :: "cacheEntry \<Rightarrow> time \<Rightarrow> duration" where
  "age e now = (let elapsed = timeSub now (ce_storedAt e)
     in wrap64 (ce_initialAge e + (if elapsed < 0 then 0 else elapsed)))"

definition fresh :: "cacheEntry \<Rightarrow> time \<Rightarrow> bool" where
  "fresh e now \<longleftrightarrow> age e now < ce_freshFor e"

definition servable :: "cacheEntry \<Rightarrow> time \<Rightarrow> bool" where
  "servable e now \<longleftrightarrow> age e now < wrap64 (ce_freshFor e + ce_staleWhileRevalidate e)"

definition needsRevalidation :: "cacheEntry \<Rightarrow> time \<Rightarrow> bool" where
  "needsRevalidation e now \<longleftrightarrow> \<not> fresh e now \<and> servable e now"

definition ttl :: "cacheEntry \<Rightarrow> duration" where
  "ttl e = (let t = wrap64 (ce_freshFor e + ce_staleWhileRevalidate e - ce_initialAge e) in if t < 0 then 0 else t)"

definition cacheEntryOverhead :: nat where
  "cacheEntryOverhead = 256"

definition entrySize :: "cacheEntry \<Rightarrow> int" where
  "entrySize e = int (length (ce_body e) + length (ce_service e) + length (ce_path e) + length (ce_variantKey e) + cacheEntryOverhead
     + sum_list (map length (ce_varyOn e)) + sum_list (map length (ce_variants e))
     + sum_list (map (\<lambda>(name, values). length name + sum_list (map length values)) (ce_header e)))"

text \<open>A copy of an immutable value is the value, so \<open>clone\<close> is not written.\<close>

definition refreshed :: "cacheOptions \<Rightarrow> time \<Rightarrow> cacheEntry \<Rightarrow> cacheEntry" where
  "refreshed co now e =
     (let e' = e\<lparr>ce_storedAt := now, ce_initialAge := 0\<rparr>
      in case responseIsStorable co (ce_statusCode e) (ce_header e) of
           Inl _ \<Rightarrow> e'
         | Inr p \<Rightarrow> e'\<lparr>ce_freshFor := cpo_freshFor p, ce_staleWhileRevalidate := cpo_staleWhileRevalidate p\<rparr>)"

section \<open>Variants\<close>

definition entryIsResponse :: "cacheEntry \<Rightarrow> bool" where
  "entryIsResponse e \<longleftrightarrow> ce_statusCode e \<ge> 100"

definition entryIsIndex :: "cacheEntry \<Rightarrow> bool" where
  "entryIsIndex e \<longleftrightarrow> ce_statusCode e = 0 \<and> ce_varyOn e \<noteq> []"

definition storageKeyFor :: "cacheEntry \<Rightarrow> string \<Rightarrow> string" where
  "storageKeyFor e primaryKey = (if ce_variantKey e = [] then primaryKey else ce_variantKey e)"

definition variantDigestLength :: nat where
  "variantDigestLength = 16"

definition variantPreimage :: "(string \<Rightarrow> rat option) \<Rightarrow> string \<Rightarrow> string list \<Rightarrow> request \<Rightarrow> string" where
  "variantPreimage pf primaryKey varyOn r =
     writeKeyField primaryKey @ concat (map (\<lambda>f. writeKeyField f @ writeKeyField (keyValueFor pf r f)) varyOn)"

definition variantKeyFor :: "(string \<Rightarrow> string) \<Rightarrow> (string \<Rightarrow> rat option) \<Rightarrow> string \<Rightarrow> string list \<Rightarrow> request \<Rightarrow> string" where
  "variantKeyFor digest pf primaryKey varyOn r =
     (if varyOn = [] then primaryKey
      else primaryKey @ take variantDigestLength (digest (variantPreimage pf primaryKey varyOn r)))"

definition entryReadableBy :: "(string \<Rightarrow> rat option) \<Rightarrow> cacheEntry \<Rightarrow> request \<Rightarrow> bool" where
  "entryReadableBy pf e r \<longleftrightarrow> clientAcceptsEncoding pf r (hget (ce_header e) ''Content-Encoding'')"

definition entryAnswers :: "(string \<Rightarrow> string) \<Rightarrow> (string \<Rightarrow> rat option) \<Rightarrow> cacheEntry \<Rightarrow> string \<Rightarrow> request \<Rightarrow> bool" where
  "entryAnswers digest pf e primaryKey r =
     (if \<not> entryIsResponse e then False
      else if variantKeyFor digest pf primaryKey (ce_varyOn e) r \<noteq> storageKeyFor e primaryKey then False
      else entryReadableBy pf e r)"

record cacheLookup =
  cl_primary :: string
  cl_variant :: string
  cl_index :: "cacheEntry option"

definition newCacheLookup :: "string \<Rightarrow> cacheLookup" where
  "newCacheLookup primary = \<lparr>cl_primary = primary, cl_variant = primary, cl_index = None\<rparr>"

definition following :: "(string \<Rightarrow> string) \<Rightarrow> (string \<Rightarrow> rat option) \<Rightarrow> cacheLookup \<Rightarrow> cacheEntry \<Rightarrow> request \<Rightarrow> cacheLookup" where
  "following digest pf l index r =
     l\<lparr>cl_index := Some index, cl_variant := variantKeyFor digest pf (cl_primary l) (ce_varyOn index) r\<rparr>"

definition cacheVariantIndexMinTTL :: duration where
  "cacheVariantIndexMinTTL = minute"

definition newVariantIndex :: "cacheEntry \<Rightarrow> string list \<Rightarrow> cacheEntry" where
  "newVariantIndex e variants =
     \<lparr>ce_service = ce_service e, ce_path = ce_path e, ce_varyOn = ce_varyOn e, ce_variantKey = [], ce_variants = variants,
      ce_statusCode = 0, ce_header = [], ce_body = [], ce_storedAt = ce_storedAt e, ce_initialAge = 0,
      ce_freshFor = max (wrap64 (ce_freshFor e + ce_staleWhileRevalidate e)) cacheVariantIndexMinTTL,
      ce_staleWhileRevalidate = 0\<rparr>"

definition variantDigest :: "(string \<Rightarrow> string) \<Rightarrow> string \<Rightarrow> string" where
  "variantDigest digest variantKey = take variantDigestLength (digest variantKey)"

text \<open>The result: whether the entry is admitted, and the index to publish with it.\<close>

definition admitVariant ::
  "(string \<Rightarrow> string) \<Rightarrow> cacheOptions \<Rightarrow> cacheEntry option \<Rightarrow> cacheEntry \<Rightarrow> string \<Rightarrow> cacheEntry option \<times> bool" where
  "admitVariant digest co index e primaryKey =
     (if ce_varyOn e = [] then (None, True)
      else let d = variantDigest digest (storageKeyFor e primaryKey)
           in case index of
                None \<Rightarrow> (Some (newVariantIndex e [d]), True)
              | Some ix \<Rightarrow>
                  if ce_varyOn ix \<noteq> ce_varyOn e then (Some (newVariantIndex e [d]), True)
                  else if d \<in> set (ce_variants ix) then (Some (newVariantIndex e (ce_variants ix)), True)
                  else if int (length (ce_variants ix)) \<ge> maxVariants co then (None, False)
                  else (Some (newVariantIndex e (ce_variants ix @ [d])), True))"

section \<open>Recording a response\<close>

text \<open>The writer passes the response through: \<open>cw_outHeader\<close>, \<open>cw_outStatus\<close> and \<open>cw_sent\<close> are the header map,
  the status and the bytes of the client's own writer. \<open>cw_released\<close> says that \<open>onUnstorable\<close> has been called.\<close>

record cachingResponseWriter =
  cw_options :: cacheOptions
  cw_cacheStatus :: string
  cw_bodyExpected :: bool
  cw_statusCode :: int
  cw_wroteHeader :: bool
  cw_released :: bool
  cw_hijacked :: bool
  cw_capturing :: bool
  cw_refusal :: cacheRefusal
  cw_body :: string
  cw_header :: header
  cw_initialAge :: duration
  cw_policy :: cachePolicy
  cw_outHeader :: header
  cw_outStatus :: "int option"
  cw_sent :: string

definition hopByHopHeaders :: "string list" where
  "hopByHopHeaders = [''Connection'', ''Keep-Alive'', ''Proxy-Authenticate'', ''Proxy-Authorization'', ''Proxy-Connection'',
     ''TE'', ''Trailer'', ''Transfer-Encoding'', ''Upgrade'']"

definition storableHeader :: "header \<Rightarrow> header" where
  "storableHeader h = hdel (hdel (hdel (fold (\<lambda>n h. hdel h n) hopByHopHeaders h) ''Age'') ''Content-Length'') ''X-Cache''"

definition parseAgeHeader :: "string \<Rightarrow> duration" where
  "parseAgeHeader v =
     (if v = [] then 0
      else case parseInt v of None \<Rightarrow> 0 | Some seconds \<Rightarrow> if seconds < 0 then 0 else wrap64 (seconds * second))"

definition refuse :: "cacheRefusal \<Rightarrow> cachingResponseWriter \<Rightarrow> cachingResponseWriter" where
  "refuse reason w =
     w\<lparr>cw_refusal := (if cw_refusal w = RefusalNone then reason else cw_refusal w),
       cw_capturing := False, cw_body := [], cw_header := [], cw_released := True\<rparr>"

definition decide :: "cachingResponseWriter \<Rightarrow> cachingResponseWriter" where
  "decide w = (case responseIsStorable (cw_options w) (cw_statusCode w) (cw_outHeader w) of
       Inl reason \<Rightarrow> refuse reason w
     | Inr p \<Rightarrow>
         if \<not> cw_bodyExpected w then refuse RefusalHeadRequest w
         else w\<lparr>cw_capturing := True, cw_policy := p, cw_initialAge := parseAgeHeader (hget (cw_outHeader w) ''Age''),
                cw_header := storableHeader (cw_outHeader w)\<rparr>)"

definition cwWriteHeader :: "int \<Rightarrow> cachingResponseWriter \<Rightarrow> cachingResponseWriter" where
  "cwWriteHeader statusCode w =
     (if cw_wroteHeader w then w
      else (decide (w\<lparr>cw_wroteHeader := True, cw_statusCode := statusCode,
                     cw_outHeader := hset (cw_outHeader w) ''X-Cache'' (cw_cacheStatus w)\<rparr>))\<lparr>cw_outStatus := Some statusCode\<rparr>)"

definition cwWrite :: "string \<Rightarrow> cachingResponseWriter \<Rightarrow> cachingResponseWriter" where
  "cwWrite data w0 =
     (let w = (if cw_wroteHeader w0 then w0 else cwWriteHeader 200 w0);
          w' = (if \<not> cw_capturing w then w
                else if int (length (cw_body w) + length data) > coMaxBodySize (cw_options w) then refuse RefusalTooLarge w
                else w\<lparr>cw_body := cw_body w @ data\<rparr>)
      in w'\<lparr>cw_sent := cw_sent w' @ data\<rparr>)"

text \<open>\<open>supported\<close>: whether the client's writer can be hijacked.\<close>

definition cwHijack :: "bool \<Rightarrow> cachingResponseWriter \<Rightarrow> cachingResponseWriter" where
  "cwHijack supported w = (if \<not> supported then w else refuse RefusalHijacked (w\<lparr>cw_hijacked := True\<rparr>))"

definition cwFinish :: "cachingResponseWriter \<Rightarrow> cachingResponseWriter" where
  "cwFinish w = (if cw_hijacked w then w else if \<not> cw_wroteHeader w then cwWriteHeader 200 w else w)"

definition entry :: "(string \<Rightarrow> string) \<Rightarrow> (string \<Rightarrow> rat option) \<Rightarrow> string \<Rightarrow> string \<Rightarrow> request \<Rightarrow> time \<Rightarrow>
    cachingResponseWriter \<Rightarrow> cacheEntry option" where
  "entry digest pf service primaryKey r now w =
     (if \<not> cw_capturing w then None
      else Some \<lparr>ce_service = service, ce_path = req_path r, ce_varyOn = cpo_varyOn (cw_policy w),
             ce_variantKey = (if cpo_varyOn (cw_policy w) \<noteq> [] then variantKeyFor digest pf primaryKey (cpo_varyOn (cw_policy w)) r else []),
             ce_variants = [], ce_statusCode = cw_statusCode w, ce_header = cw_header w, ce_body = cw_body w,
             ce_storedAt = now, ce_initialAge = cw_initialAge w, ce_freshFor = cpo_freshFor (cw_policy w),
             ce_staleWhileRevalidate = cpo_staleWhileRevalidate (cw_policy w)\<rparr>)"

text \<open>What the handler behind the cache does with the writer: it changes the header map, sends the status,
  writes a chunk or takes the connection over.\<close>

datatype handlerAct = ASetHeader header | AWriteHeader int | AWrite string | AHijack bool

fun cwAct :: "cachingResponseWriter \<Rightarrow> handlerAct \<Rightarrow> cachingResponseWriter" where
  "cwAct w (ASetHeader h) = w\<lparr>cw_outHeader := h\<rparr>"
| "cwAct w (AWriteHeader c) = cwWriteHeader c w"
| "cwAct w (AWrite d) = cwWrite d w"
| "cwAct w (AHijack s) = cwHijack s w"

definition newRecorder :: "cacheOptions \<Rightarrow> request \<Rightarrow> cachingResponseWriter" where
  "newRecorder co r =
     \<lparr>cw_options = co, cw_cacheStatus = ''MISS'', cw_bodyExpected = (req_method r \<noteq> ''HEAD''), cw_statusCode = 0,
      cw_wroteHeader = False, cw_released = False, cw_hijacked = False, cw_capturing = False, cw_refusal = RefusalNone,
      cw_body = [], cw_header = [], cw_initialAge = 0,
      cw_policy = \<lparr>cpo_freshFor = 0, cpo_staleWhileRevalidate = 0, cpo_varyOn = []\<rparr>,
      cw_outHeader = [], cw_outStatus = None, cw_sent = []\<rparr>"

text \<open>\<open>forwardRecording\<close> up to the entry: the handler runs, then the writer is settled.\<close>

definition recorded :: "cacheOptions \<Rightarrow> request \<Rightarrow> handlerAct list \<Rightarrow> cachingResponseWriter" where
  "recorded co r acts = cwFinish (foldl cwAct (newRecorder co r) acts)"

section \<open>The recorder neither holds back nor invents\<close>

fun actData :: "handlerAct \<Rightarrow> string" where
  "actData (AWrite d) = d"
| "actData _ = []"

definition cwInv :: "cacheOptions \<Rightarrow> request \<Rightarrow> handlerAct list \<Rightarrow> cachingResponseWriter \<Rightarrow> bool" where
  "cwInv co r acts w \<longleftrightarrow>
     cw_options w = co \<and> cw_bodyExpected w = (req_method r \<noteq> ''HEAD'') \<and> cw_sent w = concat (map actData acts)
     \<and> (\<not> cw_wroteHeader w \<longrightarrow> cw_sent w = [] \<and> cw_body w = [] \<and> \<not> cw_capturing w)
     \<and> (cw_wroteHeader w \<longrightarrow> cw_outStatus w = Some (cw_statusCode w) \<and> (cw_capturing w \<or> cw_released w))
     \<and> (cw_capturing w \<longrightarrow> cw_body w = cw_sent w \<and> int (length (cw_body w)) \<le> coMaxBodySize co \<and> cw_bodyExpected w
         \<and> (\<exists>h. responseIsStorable co (cw_statusCode w) h = Inr (cw_policy w) \<and> cw_header w = storableHeader h
              \<and> cw_initialAge w = parseAgeHeader (hget h ''Age'')))"

lemma coMaxBodySize_pos: "0 < coMaxBodySize co"
  by (simp add: coMaxBodySize_def)

lemma decide_cases:
  obtains (refused) reason where "decide w = refuse reason w"
  | (kept) p where "responseIsStorable (cw_options w) (cw_statusCode w) (cw_outHeader w) = Inr p" "cw_bodyExpected w"
      "decide w = w\<lparr>cw_capturing := True, cw_policy := p, cw_initialAge := parseAgeHeader (hget (cw_outHeader w) ''Age''),
                cw_header := storableHeader (cw_outHeader w)\<rparr>"
  by (cases "responseIsStorable (cw_options w) (cw_statusCode w) (cw_outHeader w)"; cases "cw_bodyExpected w")
     (auto simp: decide_def)

lemma cwInv_WriteHeader:
  assumes "cwInv co r acts w"
  shows "cwInv co r acts (cwWriteHeader c w)" and "cw_wroteHeader (cwWriteHeader c w)"
proof -
  let ?w = "w\<lparr>cw_wroteHeader := True, cw_statusCode := c, cw_outHeader := hset (cw_outHeader w) ''X-Cache'' (cw_cacheStatus w)\<rparr>"
  have "cwInv co r acts (cwWriteHeader c w) \<and> cw_wroteHeader (cwWriteHeader c w)"
  proof (cases "cw_wroteHeader w")
    case False
    then show ?thesis using assms coMaxBodySize_pos[of co]
      by (cases rule: decide_cases[of ?w]) (auto simp: cwInv_def cwWriteHeader_def refuse_def)
  qed (use assms in \<open>simp add: cwWriteHeader_def\<close>)
  then show "cwInv co r acts (cwWriteHeader c w)" and "cw_wroteHeader (cwWriteHeader c w)" by blast+
qed

lemma cwInv_act:
  assumes "cwInv co r acts w"
  shows "cwInv co r (acts @ [a]) (cwAct w a)"
proof (cases a)
  case (AWriteHeader c)
  then show ?thesis using cwInv_WriteHeader[OF assms, of c] by (auto simp: cwInv_def)
next
  case (AWrite d)
  define w' where "w' = (if cw_wroteHeader w then w else cwWriteHeader 200 w)"
  have "cwInv co r acts w'" and "cw_wroteHeader w'" using assms cwInv_WriteHeader[OF assms, of 200] by (auto simp: w'_def)
  moreover have "cwAct w a = (let w'' = (if \<not> cw_capturing w' then w'
                else if int (length (cw_body w') + length d) > coMaxBodySize (cw_options w') then refuse RefusalTooLarge w'
                else w'\<lparr>cw_body := cw_body w' @ d\<rparr>) in w''\<lparr>cw_sent := cw_sent w'' @ d\<rparr>)"
    by (simp add: AWrite cwWrite_def w'_def[symmetric] Let_def)
  ultimately show ?thesis by (auto simp: cwInv_def AWrite Let_def refuse_def)
qed (use assms in \<open>auto simp: cwInv_def cwHijack_def refuse_def\<close>)

lemma cwInv_run: "cwInv co r acts (foldl cwAct (newRecorder co r) acts)"
proof (induction acts rule: rev_induct)
  case Nil
  then show ?case by (simp add: cwInv_def newRecorder_def)
qed (simp add: cwInv_act)

lemma cwInv_recorded: "cwInv co r acts (recorded co r acts)"
  using cwInv_run[of co r acts] cwInv_WriteHeader(1) by (auto simp: recorded_def cwFinish_def)

lemma recorded_settled: "cw_hijacked (recorded co r acts) \<or> cw_wroteHeader (recorded co r acts)"
  using cwInv_WriteHeader(2)[OF cwInv_run[of co r acts], of 200] by (auto simp: recorded_def cwFinish_def)

text \<open>The recording writer is transparent and faithful: whatever the handler does, the client receives every
  byte the handler wrote; a stored entry holds exactly those bytes, within the service's body limit, for a
  request that expects a body and for a header the storing policy accepted, without connection fields; and
  once the response has ended without a takeover, either an entry comes out of it or the requests waiting
  behind it have been released.\<close>

theorem recorder_faithful:
  "let w = recorded co r acts; data = concat (map actData acts)
   in cw_sent w = data
      \<and> (cw_hijacked w \<or> cw_capturing w \<or> cw_released w)
      \<and> (case entry digest pf service primary r now w of
            None \<Rightarrow> \<not> cw_capturing w
          | Some e \<Rightarrow> ce_body e = data \<and> int (length data) \<le> coMaxBodySize co \<and> req_method r \<noteq> ''HEAD''
              \<and> (\<exists>h p. responseIsStorable co (ce_statusCode e) h = Inr p \<and> ce_header e = storableHeader h
                   \<and> ce_freshFor e = cpo_freshFor p \<and> ce_staleWhileRevalidate e = cpo_staleWhileRevalidate p
                   \<and> ce_varyOn e = cpo_varyOn p \<and> ce_initialAge e = parseAgeHeader (hget h ''Age'')))"
  using cwInv_recorded[of co r acts] recorded_settled[of co r acts]
  by (auto simp: Let_def entry_def cwInv_def)

section \<open>Lifetimes\<close>

text \<open>With ages and windows that fit the 64-bit nanosecond clock, an entry answers requests for exactly as long
  as the store is told to keep it, counted from when it was stored; it needs revalidation exactly between
  the end of its freshness and that moment; and a clock that runs backwards never makes it older or newer
  than on arrival.\<close>

theorem entry_lifetime:
  assumes "0 \<le> ce_initialAge e" "0 \<le> ce_freshFor e" "0 \<le> ce_staleWhileRevalidate e"
    and "ce_freshFor e + ce_staleWhileRevalidate e \<le> max_int64"
    and "ce_initialAge e + max 0 (now - ce_storedAt e) \<le> max_int64"
  defines "elapsed \<equiv> max 0 (now - ce_storedAt e)"
  shows "(servable e now \<longleftrightarrow> elapsed < ttl e) \<and> (fresh e now \<longleftrightarrow> ce_initialAge e + elapsed < ce_freshFor e)
    \<and> (needsRevalidation e now \<longleftrightarrow> ce_freshFor e \<le> ce_initialAge e + elapsed \<and> elapsed < ttl e)"
proof -
  have b: "min_int64 \<le> 0" "0 < max_int64" by (simp_all add: min_int64_def max_int64_def)
  have el: "elapsed = (let el = timeSub now (ce_storedAt e) in if el < 0 then 0 else el)"
    using assms(1,5) b by (auto simp: elapsed_def timeSub_def Let_def)
  have age: "age e now = ce_initialAge e + elapsed"
    using assms(1,5) b by (simp only: age_def Let_def el[unfolded Let_def, symmetric]) (intro wrap64_id; simp add: elapsed_def)
  have sum: "wrap64 (ce_freshFor e + ce_staleWhileRevalidate e) = ce_freshFor e + ce_staleWhileRevalidate e"
    using assms(2-4) b by (intro wrap64_id) auto
  have small: "ce_initialAge e \<le> max_int64" using assms(5) by linarith
  have "wrap64 (ce_freshFor e + ce_staleWhileRevalidate e - ce_initialAge e) = ce_freshFor e + ce_staleWhileRevalidate e - ce_initialAge e"
    using assms(1-4) small by (intro wrap64_id) (auto simp: min_int64_def max_int64_def)
  then have ttl: "ttl e = max 0 (ce_freshFor e + ce_staleWhileRevalidate e - ce_initialAge e)" by (simp add: ttl_def Let_def)
  have serv: "servable e now \<longleftrightarrow> elapsed < ttl e"
    using age sum ttl by (auto simp: servable_def elapsed_def)
  have "fresh e now \<longleftrightarrow> ce_initialAge e + elapsed < ce_freshFor e" by (simp add: fresh_def age)
  with serv show ?thesis by (auto simp: needsRevalidation_def)
qed

definition sampleEntry :: cacheEntry where
  "sampleEntry = \<lparr>ce_service = ''web'', ce_path = ''/x'', ce_varyOn = [], ce_variantKey = [], ce_variants = [],
     ce_statusCode = 200, ce_header = [], ce_body = ''hi'', ce_storedAt = 0, ce_initialAge = 10 * second,
     ce_freshFor = 60 * second, ce_staleWhileRevalidate = 30 * second\<rparr>"

theorem entry_lifetime_witness:
  "servable sampleEntry (79 * second) \<and> needsRevalidation sampleEntry (79 * second) \<and> \<not> servable sampleEntry (80 * second)"
  using entry_lifetime[of sampleEntry "79 * second"] entry_lifetime[of sampleEntry "80 * second"]
  by (simp add: sampleEntry_def second_def max_int64_def ttl_def wrap64_def)

text \<open>The Age header is multiplied without a range check: a response that says it is 300 years old is read as
  having a large negative age, so an entry with a lifetime of one minute is stored and counts as fresh a
  hundred years later.\<close>

theorem overage_response_stays_fresh:
  "parseAgeHeader ''9467280000'' < 0
   \<and> fresh (sampleEntry\<lparr>ce_initialAge := parseAgeHeader ''9467280000'', ce_freshFor := 60 * second\<rparr>) (100 * 365 * 24 * 3600 * second)
   \<and> ttl (sampleEntry\<lparr>ce_initialAge := parseAgeHeader ''9467280000'', ce_freshFor := 60 * second\<rparr>) > 0"
proof -
  have neg: "parseAgeHeader ''9467280000'' = - 8979464073709551616"
    by (simp add: parseAgeHeader_def parseInt_def parseDigits_def digitVal_def Let_def hasPrefix_def wrap64_def
        second_def min_int64_def max_int64_def)
  show ?thesis unfolding neg
    by (simp add: fresh_def age_def ttl_def timeSub_def sampleEntry_def second_def wrap64_def Let_def min_int64_def max_int64_def)
qed

section \<open>A bounded number of variants\<close>

text \<open>A resource holds a bounded number of variants: an index published by the admission rule lists distinct
  digests, the admitted variant's among them, and no more than the service's limit or what it held before;
  a refusal happens only to a new variant of an index of the same shape that is full.\<close>

theorem admitVariant_bounded:
  assumes "case index of None \<Rightarrow> True | Some ix \<Rightarrow> distinct (ce_variants ix)"
  shows "case admitVariant digest co index e primary of
      (Some ix', admitted) \<Rightarrow> admitted \<and> entryIsIndex ix' \<and> ce_varyOn ix' = ce_varyOn e \<and> distinct (ce_variants ix')
        \<and> variantDigest digest (storageKeyFor e primary) \<in> set (ce_variants ix')
        \<and> (int (length (ce_variants ix')) \<le> maxVariants co \<or> (\<exists>ix. index = Some ix \<and> ce_variants ix' = ce_variants ix))
    | (None, True) \<Rightarrow> ce_varyOn e = []
    | (None, False) \<Rightarrow> (\<exists>ix. index = Some ix \<and> ce_varyOn ix = ce_varyOn e \<and> maxVariants co \<le> int (length (ce_variants ix))
        \<and> variantDigest digest (storageKeyFor e primary) \<notin> set (ce_variants ix))"
proof (cases index)
  case None
  then show ?thesis by (auto simp: admitVariant_def Let_def newVariantIndex_def entryIsIndex_def maxVariants_def)
next
  case (Some ix)
  then show ?thesis using assms
    by (auto simp: admitVariant_def Let_def newVariantIndex_def entryIsIndex_def maxVariants_def)
qed

theorem admitVariant_bounded_witness:
  "case admitVariant (\<lambda>x. x) cacheSampleOptions None (sampleEntry\<lparr>ce_varyOn := [''x-region'']\<rparr>) ''k'' of
     (Some ix', admitted) \<Rightarrow> admitted \<and> distinct (ce_variants ix') | _ \<Rightarrow> False"
proof -
  have "admitVariant (\<lambda>x. x) cacheSampleOptions None (sampleEntry\<lparr>ce_varyOn := [''x-region'']\<rparr>) ''k''
      = (Some (newVariantIndex (sampleEntry\<lparr>ce_varyOn := [''x-region'']\<rparr>) [''k'']), True)"
    by (simp add: admitVariant_def sampleEntry_def variantDigest_def variantDigestLength_def storageKeyFor_def)
  with admitVariant_bounded[where index = None and digest = "\<lambda>x. x" and co = cacheSampleOptions
      and e = "sampleEntry\<lparr>ce_varyOn := [''x-region'']\<rparr>" and primary = "''k''"]
  show ?thesis by simp
qed

end
