(* ===== verification/Cache_Store.thy ===== *)
theory Cache_Store
  imports Cache_Entry
begin

text \<open>
  The interface \<open>CacheStore\<close> of \<open>cache_store.go\<close> as a locale, and the in-process store of
  \<open>cache_store_memory.go\<close> as an interpretation of it. The container list is a list of elements, front first, each
  with the identity its map entry points at; \<open>records\<close> is the map from keys to element identities, so
  that the agreement of the two is something to prove.
\<close>

section \<open>The interface\<close>

record 's cacheStoreOps =
  so_get :: "time \<Rightarrow> string \<Rightarrow> 's \<Rightarrow> cacheEntry option \<times> 's"
  so_set :: "time \<Rightarrow> string \<Rightarrow> cacheEntry \<Rightarrow> 's \<Rightarrow> 's"
  so_purge :: "string \<Rightarrow> string \<Rightarrow> 's \<Rightarrow> nat \<times> 's"

text \<open>What a client may rely on. A lookup answers with what is held, which its client checks for freshness; no operation makes a
  key hold anything but what was set there or what it held; purging leaves nothing of the service below the prefix.\<close>

locale cache_store =
  fixes ops :: "'s cacheStoreOps"
    and inv :: "'s \<Rightarrow> bool"
    and holds :: "'s \<Rightarrow> string \<Rightarrow> cacheEntry option"
  assumes get_inv: "inv s \<Longrightarrow> inv (snd (so_get ops now k s))"
    and get_holds: "inv s \<Longrightarrow> holds (snd (so_get ops now k s)) \<subseteq>\<^sub>m holds s"
    and get_answer: "inv s \<Longrightarrow> fst (so_get ops now k s) = Some e \<Longrightarrow> holds s k = Some e"
    and set_inv: "inv s \<Longrightarrow> inv (so_set ops now k e s)"
    and set_holds: "inv s \<Longrightarrow> holds (so_set ops now k e s) k' = Some x \<Longrightarrow> k' = k \<and> x = e \<or> holds s k' = Some x"
    and purge_inv: "inv s \<Longrightarrow> inv (snd (so_purge ops svc prefix s))"
    and purge_holds: "inv s \<Longrightarrow> holds (snd (so_purge ops svc prefix s)) \<subseteq>\<^sub>m holds s"
    and purge_removes: "inv s \<Longrightarrow> holds (snd (so_purge ops svc prefix s)) k = Some e \<Longrightarrow>
       \<not> (ce_service e = svc \<and> hasPrefix (ce_path e) prefix)"

section \<open>The in-process store\<close>

record memoryCacheRecord =
  mr_key :: string
  mr_entry :: cacheEntry
  mr_size :: int

record cacheServiceUsage =
  su_entries :: int
  su_bytes :: int

type_synonym listElement = "nat \<times> memoryCacheRecord"

record memoryCacheStore =
  ms_maxBytes :: int
  ms_bytes :: int
  ms_records :: "string \<Rightarrow> nat option"
  ms_order :: "listElement list"
  ms_nextElement :: nat
  ms_evictedFresh :: int
  ms_evictedStale :: int
  ms_oversized :: int
  ms_services :: "string \<Rightarrow> cacheServiceUsage option"

definition newMemoryCacheStore :: "int \<Rightarrow> memoryCacheStore" where
  "newMemoryCacheStore maxBytes =
     \<lparr>ms_maxBytes = maxBytes, ms_bytes = 0, ms_records = Map.empty, ms_order = [], ms_nextElement = 0,
      ms_evictedFresh = 0, ms_evictedStale = 0, ms_oversized = 0, ms_services = Map.empty\<rparr>"

definition addUsage :: "string \<Rightarrow> int \<Rightarrow> (string \<Rightarrow> cacheServiceUsage option) \<Rightarrow> string \<Rightarrow> cacheServiceUsage option" where
  "addUsage service sz m =
     (let usage = (case m service of Some u \<Rightarrow> u | None \<Rightarrow> \<lparr>su_entries = 0, su_bytes = 0\<rparr>)
      in m(service \<mapsto> \<lparr>su_entries = su_entries usage + 1, su_bytes = su_bytes usage + sz\<rparr>))"

definition removeUsage :: "string \<Rightarrow> int \<Rightarrow> (string \<Rightarrow> cacheServiceUsage option) \<Rightarrow> string \<Rightarrow> cacheServiceUsage option" where
  "removeUsage service sz m = (case m service of
       None \<Rightarrow> m
     | Some usage \<Rightarrow>
         if su_entries usage - 1 \<le> 0 then m(service := None)
         else m(service \<mapsto> \<lparr>su_entries = su_entries usage - 1, su_bytes = su_bytes usage - sz\<rparr>))"

definition removeElement :: "listElement \<Rightarrow> memoryCacheStore \<Rightarrow> memoryCacheStore" where
  "removeElement el s = (case el of (i, rec) \<Rightarrow>
     s\<lparr>ms_order := filter (\<lambda>p. fst p \<noteq> i) (ms_order s), ms_records := (ms_records s)(mr_key rec := None),
       ms_bytes := ms_bytes s - mr_size rec,
       ms_services := removeUsage (ce_service (mr_entry rec)) (mr_size rec) (ms_services s)\<rparr>)"

text \<open>The element a key's map entry points at; a dangling pointer does not occur (\<open>msInv\<close>).\<close>

definition elementFor :: "memoryCacheStore \<Rightarrow> string \<Rightarrow> listElement option" where
  "elementFor s key = (case ms_records s key of
       None \<Rightarrow> None
     | Some i \<Rightarrow> (case map_of (ms_order s) i of None \<Rightarrow> None | Some rec \<Rightarrow> Some (i, rec)))"

definition moveToFront :: "listElement \<Rightarrow> memoryCacheStore \<Rightarrow> memoryCacheStore" where
  "moveToFront el s = s\<lparr>ms_order := el # filter (\<lambda>p. fst p \<noteq> fst el) (ms_order s)\<rparr>"

definition msGet :: "time \<Rightarrow> string \<Rightarrow> memoryCacheStore \<Rightarrow> cacheEntry option \<times> memoryCacheStore" where
  "msGet now key s = (case elementFor s key of
       None \<Rightarrow> (None, s)
     | Some (i, rec) \<Rightarrow>
         if \<not> servable (mr_entry rec) now then (None, removeElement (i, rec) s)
         else (Some (mr_entry rec), moveToFront (i, rec) s))"

text \<open>The eviction loop: from the back while the budget is exceeded.\<close>

function msEvict :: "time \<Rightarrow> memoryCacheStore \<Rightarrow> memoryCacheStore" where
  "msEvict now s =
     (if ms_bytes s \<le> ms_maxBytes s \<or> ms_order s = [] then s
      else let oldest = last (ms_order s);
               s' = (if fresh (mr_entry (snd oldest)) now then s\<lparr>ms_evictedFresh := ms_evictedFresh s + 1\<rparr>
                     else s\<lparr>ms_evictedStale := ms_evictedStale s + 1\<rparr>)
           in msEvict now (removeElement oldest s'))"
  by pat_completeness auto
termination
proof (relation "measure (\<lambda>(now, s). length (ms_order s))", simp, goal_cases)
  case (1 now s oldest s')
  then have "oldest \<in> set (ms_order s)" by simp
  then have "length (filter (\<lambda>p. fst p \<noteq> fst oldest) (ms_order s)) < length (ms_order s)"
    by (intro length_filter_less[of oldest]) auto
  then show ?case using 1 by (auto simp: removeElement_def split: prod.splits)
qed

declare msEvict.simps [simp del]

definition pushFront :: "string \<Rightarrow> cacheEntry \<Rightarrow> memoryCacheStore \<Rightarrow> memoryCacheStore" where
  "pushFront key e s =
     (let i = ms_nextElement s; sz = entrySize e
      in s\<lparr>ms_order := (i, \<lparr>mr_key = key, mr_entry = e, mr_size = sz\<rparr>) # ms_order s,
           ms_records := (ms_records s)(key \<mapsto> i), ms_nextElement := i + 1, ms_bytes := ms_bytes s + sz,
           ms_services := addUsage (ce_service e) sz (ms_services s)\<rparr>)"

definition msStore :: "time \<Rightarrow> string \<Rightarrow> cacheEntry \<Rightarrow> memoryCacheStore \<Rightarrow> memoryCacheStore" where
  "msStore now key e s0 =
     (let s = (case elementFor s0 key of Some el \<Rightarrow> removeElement el s0 | None \<Rightarrow> s0)
      in if entrySize e > ms_maxBytes s then s\<lparr>ms_oversized := ms_oversized s + 1\<rparr>
         else msEvict now (pushFront key e s))"

definition msSet :: "time \<Rightarrow> string \<Rightarrow> cacheEntry \<Rightarrow> memoryCacheStore \<Rightarrow> memoryCacheStore" where
  "msSet now key e s = (if ttl e \<le> 0 then s else msStore now key e s)"

definition msPurge :: "string \<Rightarrow> string \<Rightarrow> memoryCacheStore \<Rightarrow> nat \<times> memoryCacheStore" where
  "msPurge service pathPrefix s =
     fold (\<lambda>el (purged, s). if ce_service (mr_entry (snd el)) = service \<and> hasPrefix (ce_path (mr_entry (snd el))) pathPrefix
                            then (purged + 1, removeElement el s) else (purged, s)) (ms_order s) (0, s)"

definition msClose :: "memoryCacheStore \<Rightarrow> memoryCacheStore" where
  "msClose s = s\<lparr>ms_records := Map.empty, ms_order := [], ms_bytes := 0, ms_services := Map.empty\<rparr>"

definition memoryOps :: "memoryCacheStore cacheStoreOps" where
  "memoryOps = \<lparr>so_get = msGet, so_set = msSet, so_purge = msPurge\<rparr>"

section \<open>The store's invariant\<close>

definition usageOf :: "listElement list \<Rightarrow> string \<Rightarrow> cacheServiceUsage option" where
  "usageOf els svc =
     (let mine = filter (\<lambda>p. ce_service (mr_entry (snd p)) = svc) els
      in if mine = [] then None
         else Some \<lparr>su_entries = int (length mine), su_bytes = sum_list (map (mr_size \<circ> snd) mine)\<rparr>)"

definition keyIndex :: "listElement list \<Rightarrow> string \<Rightarrow> nat option" where
  "keyIndex els = map_of (map (\<lambda>p. (mr_key (snd p), fst p)) els)"

definition msHolds :: "memoryCacheStore \<Rightarrow> string \<Rightarrow> cacheEntry option" where
  "msHolds s = map_of (map (\<lambda>p. (mr_key (snd p), mr_entry (snd p))) (ms_order s))"

text \<open>All of the invariant but the budget, which the eviction loop restores.\<close>

definition msCore :: "memoryCacheStore \<Rightarrow> bool" where
  "msCore s \<longleftrightarrow>
     distinct (map fst (ms_order s)) \<and> distinct (map (mr_key \<circ> snd) (ms_order s))
     \<and> (\<forall>p \<in> set (ms_order s). fst p < ms_nextElement s \<and> mr_size (snd p) = entrySize (mr_entry (snd p)))
     \<and> ms_records s = keyIndex (ms_order s)
     \<and> ms_bytes s = sum_list (map (mr_size \<circ> snd) (ms_order s))
     \<and> ms_services s = usageOf (ms_order s)
     \<and> 0 \<le> ms_maxBytes s"

definition msInv :: "memoryCacheStore \<Rightarrow> bool" where
  "msInv s \<longleftrightarrow> msCore s \<and> ms_bytes s \<le> ms_maxBytes s"

lemma split_element:
  assumes "(i, rec) \<in> set els" and "distinct (map fst els)"
  obtains xs ys where "els = xs @ (i, rec) # ys" "filter (\<lambda>p. fst p \<noteq> i) els = xs @ ys"
proof -
  obtain xs ys where els: "els = xs @ (i, rec) # ys" using assms(1) by (meson split_list)
  then have "\<forall>p \<in> set xs \<union> set ys. fst p \<noteq> i" using assms(2) by (fastforce simp: image_iff)
  then have "filter (\<lambda>p. fst p \<noteq> i) els = xs @ ys" by (simp add: els)
  with els show thesis by (rule that)
qed

lemma usageOf_remove:
  "removeUsage (ce_service (mr_entry rec)) (mr_size rec) (usageOf (xs @ (i, rec) # ys)) = usageOf (xs @ ys)"
proof (rule ext)
  fix svc
  define fx where "fx = filter (\<lambda>p. ce_service (mr_entry (snd p)) = ce_service (mr_entry rec)) xs"
  define fy where "fy = filter (\<lambda>p. ce_service (mr_entry (snd p)) = ce_service (mr_entry rec)) ys"
  have "usageOf (xs @ (i, rec) # ys) (ce_service (mr_entry rec))
      = Some \<lparr>su_entries = int (length (fx @ fy)) + 1, su_bytes = sum_list (map (mr_size \<circ> snd) (fx @ fy)) + mr_size rec\<rparr>"
    by (simp add: usageOf_def fx_def fy_def)
  moreover have "usageOf (xs @ ys) (ce_service (mr_entry rec)) = (if fx @ fy = [] then None
      else Some \<lparr>su_entries = int (length (fx @ fy)), su_bytes = sum_list (map (mr_size \<circ> snd) (fx @ fy))\<rparr>)"
    by (simp add: usageOf_def fx_def fy_def Let_def)
  moreover have "svc \<noteq> ce_service (mr_entry rec) \<Longrightarrow> usageOf (xs @ (i, rec) # ys) svc = usageOf (xs @ ys) svc"
    by (auto simp: usageOf_def)
  ultimately show "removeUsage (ce_service (mr_entry rec)) (mr_size rec) (usageOf (xs @ (i, rec) # ys)) svc = usageOf (xs @ ys) svc"
    by (cases "fx @ fy"; cases "svc = ce_service (mr_entry rec)") (auto simp: removeUsage_def)
qed

lemma usageOf_add: "addUsage (ce_service (mr_entry rec)) (mr_size rec) (usageOf els) = usageOf ((i, rec) # els)"
  by (rule ext) (auto simp: addUsage_def usageOf_def Let_def split: option.splits)

lemma usageOf_front: "usageOf ((i, rec) # xs @ ys) = usageOf (xs @ (i, rec) # ys)"
  by (rule ext) (simp add: usageOf_def Let_def)

lemma map_of_without: "map_of (filter (\<lambda>p. fst p \<noteq> k) xs) = (map_of xs)(k := None)"
  by (induction xs) auto

lemma map_of_drop_mid:
  assumes "distinct (map f (xs @ x # ys))"
  shows "map_of (map (\<lambda>p. (f p, g p)) (xs @ ys)) = (map_of (map (\<lambda>p. (f p, g p)) (xs @ x # ys)))(f x := None)"
proof (rule ext)
  fix k
  have "map_of (map (\<lambda>p. (f p, g p)) zs) (f x) = None" if "f x \<notin> f ` set zs" for zs
    using that by (auto simp: map_of_eq_None_iff)
  then show "map_of (map (\<lambda>p. (f p, g p)) (xs @ ys)) k = ((map_of (map (\<lambda>p. (f p, g p)) (xs @ x # ys)))(f x := None)) k"
    using assms by (auto simp: map_add_def split: option.splits)
qed

lemma map_of_front:
  assumes "distinct (map f (xs @ x # ys))"
  shows "map_of (map (\<lambda>p. (f p, g p)) (x # xs @ ys)) = map_of (map (\<lambda>p. (f p, g p)) (xs @ x # ys))"
  by (subst map_of_inject_set) (use assms in \<open>auto simp: comp_def\<close>)

lemma removeElement_core:
  assumes "msCore s" and "(i, rec) \<in> set (ms_order s)"
  shows "msCore (removeElement (i, rec) s)"
    and "msHolds (removeElement (i, rec) s) = (msHolds s)(mr_key rec := None)"
    and "ms_order (removeElement (i, rec) s) = filter (\<lambda>p. fst p \<noteq> i) (ms_order s)"
    and "ms_bytes (removeElement (i, rec) s) = ms_bytes s - mr_size rec"
proof -
  obtain xs ys where o: "ms_order s = xs @ (i, rec) # ys" "filter (\<lambda>p. fst p \<noteq> i) (ms_order s) = xs @ ys"
    using split_element[OF assms(2)] assms(1) by (auto simp: msCore_def)
  have d: "distinct (map (mr_key \<circ> snd) (xs @ (i, rec) # ys))" using assms(1) o(1) by (simp add: msCore_def)
  have ord: "ms_order (removeElement (i, rec) s) = xs @ ys" using o(2) by (simp add: removeElement_def)
  show "ms_order (removeElement (i, rec) s) = filter (\<lambda>p. fst p \<noteq> i) (ms_order s)"
    and "ms_bytes (removeElement (i, rec) s) = ms_bytes s - mr_size rec" by (simp_all add: removeElement_def)
  show "msHolds (removeElement (i, rec) s) = (msHolds s)(mr_key rec := None)"
    using map_of_drop_mid[OF d, of "mr_entry \<circ> snd"] unfolding msHolds_def ord o(1) by (simp add: comp_def)
  have ix: "keyIndex (xs @ ys) = (keyIndex (xs @ (i, rec) # ys))(mr_key rec := None)"
    using map_of_drop_mid[OF d, of fst] unfolding keyIndex_def by (simp add: comp_def)
  have rest: "ms_records (removeElement (i, rec) s) = (ms_records s)(mr_key rec := None)"
    "ms_bytes (removeElement (i, rec) s) = ms_bytes s - mr_size rec"
    "ms_services (removeElement (i, rec) s) = removeUsage (ce_service (mr_entry rec)) (mr_size rec) (ms_services s)"
    "ms_nextElement (removeElement (i, rec) s) = ms_nextElement s" "ms_maxBytes (removeElement (i, rec) s) = ms_maxBytes s"
    by (simp_all add: removeElement_def)
  show "msCore (removeElement (i, rec) s)"
    using assms(1) unfolding msCore_def ord rest ix[symmetric] o(1)
    using usageOf_remove[of rec xs i ys] by (auto simp: ix)
qed

lemma elementFor_core:
  assumes "msCore s"
  shows "elementFor s k = Some (i, rec) \<Longrightarrow> (i, rec) \<in> set (ms_order s) \<and> mr_key rec = k \<and> msHolds s k = Some (mr_entry rec)"
    and "elementFor s k = None \<Longrightarrow> msHolds s k = None \<and> k \<notin> (mr_key \<circ> snd) ` set (ms_order s)"
proof -
  have ids: "distinct (map fst (ms_order s))" and keys: "distinct (map (mr_key \<circ> snd) (ms_order s))"
    and rec: "ms_records s = keyIndex (ms_order s)" using assms by (auto simp: msCore_def)
  have ix: "keyIndex (ms_order s) k = Some i \<longleftrightarrow> (\<exists>rec. (i, rec) \<in> set (ms_order s) \<and> mr_key rec = k)" for i
    using keys unfolding keyIndex_def by (subst map_of_eq_Some_iff) (force simp: comp_def image_iff)+
  have held: "(i, rec) \<in> set (ms_order s) \<Longrightarrow> mr_key rec = k \<Longrightarrow> msHolds s k = Some (mr_entry rec)" for i rec
    using keys unfolding msHolds_def by (subst map_of_eq_Some_iff) (auto simp: comp_def image_iff intro!: bexI[of _ "(i, rec)"])
  show "(i, rec) \<in> set (ms_order s) \<and> mr_key rec = k \<and> msHolds s k = Some (mr_entry rec)" if "elementFor s k = Some (i, rec)"
  proof -
    from that have "keyIndex (ms_order s) k = Some i" and m: "map_of (ms_order s) i = Some rec"
      using rec by (auto simp: elementFor_def split: option.splits)
    then obtain rec' where "(i, rec') \<in> set (ms_order s)" "mr_key rec' = k" using ix by blast
    moreover from this(1) m ids have "rec' = rec" by simp
    ultimately show ?thesis using held by blast
  qed
  show "msHolds s k = None \<and> k \<notin> (mr_key \<circ> snd) ` set (ms_order s)" if "elementFor s k = None"
  proof -
    have "k \<notin> (mr_key \<circ> snd) ` set (ms_order s)"
    proof
      assume "k \<in> (mr_key \<circ> snd) ` set (ms_order s)"
      then obtain j rec' where "(j, rec') \<in> set (ms_order s)" "mr_key rec' = k" by auto
      then have "keyIndex (ms_order s) k = Some j" and "map_of (ms_order s) j = Some rec'" using ix ids by auto
      then show False using that rec by (simp add: elementFor_def)
    qed
    then show ?thesis by (auto simp: msHolds_def map_of_eq_None_iff image_iff)
  qed
qed

lemma moveToFront_core:
  assumes "msCore s" and "(i, rec) \<in> set (ms_order s)"
  shows "msCore (moveToFront (i, rec) s)" and "msHolds (moveToFront (i, rec) s) = msHolds s"
proof -
  obtain xs ys where o: "ms_order s = xs @ (i, rec) # ys" "filter (\<lambda>p. fst p \<noteq> i) (ms_order s) = xs @ ys"
    using split_element[OF assms(2)] assms(1) by (auto simp: msCore_def)
  have d: "distinct (map (mr_key \<circ> snd) (xs @ (i, rec) # ys))" using assms(1) o(1) by (simp add: msCore_def)
  have ord: "ms_order (moveToFront (i, rec) s) = (i, rec) # xs @ ys" using o(2) by (simp add: moveToFront_def)
  show "msHolds (moveToFront (i, rec) s) = msHolds s"
    using map_of_front[OF d, of "mr_entry \<circ> snd"] unfolding msHolds_def ord o(1) by (simp add: comp_def)
  have ix: "keyIndex ((i, rec) # xs @ ys) = keyIndex (xs @ (i, rec) # ys)"
    using map_of_front[OF d, of fst] unfolding keyIndex_def by (simp add: comp_def)
  have rest: "ms_records (moveToFront (i, rec) s) = ms_records s" "ms_bytes (moveToFront (i, rec) s) = ms_bytes s"
    "ms_services (moveToFront (i, rec) s) = ms_services s" "ms_nextElement (moveToFront (i, rec) s) = ms_nextElement s"
    "ms_maxBytes (moveToFront (i, rec) s) = ms_maxBytes s" by (simp_all add: moveToFront_def)
  show "msCore (moveToFront (i, rec) s)"
    using assms(1) unfolding msCore_def ord rest ix usageOf_front o(1) by auto
qed

lemma pushFront_core:
  assumes "msCore s" and "k \<notin> (mr_key \<circ> snd) ` set (ms_order s)"
  shows "msCore (pushFront k e s)" and "msHolds (pushFront k e s) = (msHolds s)(k \<mapsto> e)"
proof -
  let ?i = "ms_nextElement s" and ?r = "\<lparr>mr_key = k, mr_entry = e, mr_size = entrySize e\<rparr>"
  have ord: "ms_order (pushFront k e s) = (?i, ?r) # ms_order s" by (simp add: pushFront_def Let_def)
  show "msHolds (pushFront k e s) = (msHolds s)(k \<mapsto> e)" unfolding msHolds_def ord by simp
  have rest: "ms_records (pushFront k e s) = (ms_records s)(k \<mapsto> ?i)" "ms_bytes (pushFront k e s) = ms_bytes s + entrySize e"
    "ms_services (pushFront k e s) = addUsage (ce_service e) (entrySize e) (ms_services s)"
    "ms_nextElement (pushFront k e s) = ?i + 1" "ms_maxBytes (pushFront k e s) = ms_maxBytes s"
    by (simp_all add: pushFront_def Let_def)
  show "msCore (pushFront k e s)"
    using assms usageOf_add[of ?r "ms_order s" ?i] unfolding msCore_def ord rest by (auto simp: keyIndex_def)
qed

lemma msCore_counters:
  "msCore (s\<lparr>ms_evictedFresh := a\<rparr>) = msCore s" "msCore (s\<lparr>ms_evictedStale := a\<rparr>) = msCore s"
  "msCore (s\<lparr>ms_oversized := a\<rparr>) = msCore s" "msHolds (s\<lparr>ms_evictedFresh := a\<rparr>) = msHolds s"
  "msHolds (s\<lparr>ms_evictedStale := a\<rparr>) = msHolds s" "msHolds (s\<lparr>ms_oversized := a\<rparr>) = msHolds s"
  by (simp_all add: msCore_def msHolds_def)

lemma removeElement_maxBytes: "ms_maxBytes (removeElement el s) = ms_maxBytes s"
  by (cases el) (simp add: removeElement_def)

lemma map_le_drop: "m(k := None) \<subseteq>\<^sub>m m"
  by (simp add: map_le_def)

lemma msEvict_core:
  assumes "msCore s"
  shows "msInv (msEvict now s) \<and> msHolds (msEvict now s) \<subseteq>\<^sub>m msHolds s \<and> ms_maxBytes (msEvict now s) = ms_maxBytes s"
  using assms
proof (induction now s rule: msEvict.induct)
  case (1 now s)
  show ?case
  proof (cases "ms_bytes s \<le> ms_maxBytes s \<or> ms_order s = []")
    case True
    moreover have "ms_bytes s \<le> ms_maxBytes s" using True "1.prems" by (auto simp: msCore_def)
    ultimately show ?thesis using "1.prems" by (simp add: msInv_def msEvict.simps[of now s])
  next
    case False
    define s' where "s' = (if fresh (mr_entry (snd (last (ms_order s)))) now then s\<lparr>ms_evictedFresh := ms_evictedFresh s + 1\<rparr>
                     else s\<lparr>ms_evictedStale := ms_evictedStale s + 1\<rparr>)"
    obtain i rec where el: "last (ms_order s) = (i, rec)" by fastforce
    have "(i, rec) \<in> set (ms_order s')" using False el last_in_set[of "ms_order s"] by (auto simp: s'_def)
    moreover have "msCore s'" "msHolds s' = msHolds s" "ms_maxBytes s' = ms_maxBytes s"
      using "1.prems" by (simp_all add: s'_def msCore_counters)
    moreover have "msEvict now s = msEvict now (removeElement (i, rec) s')"
      using False el by (subst msEvict.simps) (simp add: s'_def Let_def)
    ultimately show ?thesis
      using "1.IH"[OF False refl s'_def] removeElement_core(1,2)[of s' i rec] el
        map_le_trans[OF _ map_le_drop[of "msHolds s" "mr_key rec"]]
      by (simp add: removeElement_maxBytes fun_upd_def)
  qed
qed

lemma msStore_ok:
  assumes "msInv s"
  shows "msInv (msStore now k e s) \<and> msHolds (msStore now k e s) \<subseteq>\<^sub>m (msHolds s)(k \<mapsto> e)
    \<and> ms_maxBytes (msStore now k e s) = ms_maxBytes s"
proof -
  define s1 where "s1 = (case elementFor s k of Some el \<Rightarrow> removeElement el s | None \<Rightarrow> s)"
  have nonneg: "0 \<le> entrySize x" for x by (simp add: entrySize_def)
  have core: "msCore s" using assms by (simp add: msInv_def)
  have s1: "msCore s1 \<and> msHolds s1 = (msHolds s)(k := None) \<and> k \<notin> (mr_key \<circ> snd) ` set (ms_order s1)
      \<and> ms_maxBytes s1 = ms_maxBytes s \<and> ms_bytes s1 \<le> ms_maxBytes s"
  proof (cases "elementFor s k")
    case None
    then have "s1 = s" by (simp add: s1_def)
    moreover have "(msHolds s)(k := None) = msHolds s" using elementFor_core(2)[OF core None] by auto
    ultimately show ?thesis using elementFor_core(2)[OF core None] assms by (simp add: msInv_def)
  next
    case (Some el)
    obtain i rec where el: "el = (i, rec)" by fastforce
    have mem: "(i, rec) \<in> set (ms_order s)" and key: "mr_key rec = k" using elementFor_core(1)[OF core] Some el by blast+
    note rem = removeElement_core[OF core mem]
    have s1': "s1 = removeElement (i, rec) s" using Some el by (simp add: s1_def)
    have "msHolds s1 k = None" using rem(2) key s1' by simp
    then have "k \<notin> (mr_key \<circ> snd) ` set (ms_order s1)"
      by (auto simp: msHolds_def map_of_eq_None_iff image_iff)
    moreover have "0 \<le> mr_size rec" using core mem nonneg by (force simp: msCore_def)
    ultimately show ?thesis using rem key s1' assms by (simp add: removeElement_maxBytes msInv_def)
  qed
  show ?thesis
  proof (cases "entrySize e > ms_maxBytes s1")
    case True
    then have "msStore now k e s = s1\<lparr>ms_oversized := ms_oversized s1 + 1\<rparr>" by (simp add: msStore_def s1_def Let_def)
    moreover have "(msHolds s)(k := None) \<subseteq>\<^sub>m (msHolds s)(k \<mapsto> e)" by (simp add: map_le_def)
    ultimately show ?thesis using s1 by (simp add: msInv_def msCore_counters)
  next
    case False
    then have "msStore now k e s = msEvict now (pushFront k e s1)" by (simp add: msStore_def s1_def Let_def)
    moreover have "ms_maxBytes (pushFront k e s1) = ms_maxBytes s1" by (simp add: pushFront_def Let_def)
    ultimately show ?thesis using msEvict_core[OF pushFront_core(1)] pushFront_core(2) s1 by (metis fun_upd_upd)
  qed
qed

lemma msGet_ok:
  assumes "msInv s"
  shows "msInv (snd (msGet now k s)) \<and> msHolds (snd (msGet now k s)) \<subseteq>\<^sub>m msHolds s
    \<and> fst (msGet now k s) = (case msHolds s k of Some e \<Rightarrow> if servable e now then Some e else None | None \<Rightarrow> None)"
proof (cases "elementFor s k")
  case None
  then show ?thesis using assms elementFor_core(2)[of s k] by (simp add: msGet_def msInv_def)
next
  case (Some el)
  obtain i rec where el: "el = (i, rec)" by fastforce
  have core: "msCore s" using assms by (simp add: msInv_def)
  have mem: "(i, rec) \<in> set (ms_order s)" and held: "msHolds s k = Some (mr_entry rec)"
    using elementFor_core(1)[OF core] Some el by blast+
  have "0 \<le> mr_size rec" using core mem by (force simp: msCore_def entrySize_def)
  then show ?thesis
    using removeElement_core[OF core mem] moveToFront_core[OF core mem] assms Some el held map_le_drop
    by (auto simp: msGet_def msInv_def removeElement_maxBytes) (simp_all add: moveToFront_def)
qed

text \<open>Purging: the elements of the list are visited in order, each still in the list when its turn comes.\<close>

definition purgeMatches :: "string \<Rightarrow> string \<Rightarrow> listElement \<Rightarrow> bool" where
  "purgeMatches svc prefix el \<longleftrightarrow> ce_service (mr_entry (snd el)) = svc \<and> hasPrefix (ce_path (mr_entry (snd el))) prefix"

lemma purge_loop:
  assumes "msInv s" and "ms_order s = done @ todo" and "\<forall>el \<in> set done. \<not> purgeMatches svc prefix el"
  shows "case fold (\<lambda>el (purged, s). if purgeMatches svc prefix el then (purged + 1, removeElement el s) else (purged, s)) todo (n, s)
    of (m, s') \<Rightarrow> msInv s' \<and> msHolds s' \<subseteq>\<^sub>m msHolds s \<and> ms_maxBytes s' = ms_maxBytes s
       \<and> ms_order s' = done @ filter (\<lambda>el. \<not> purgeMatches svc prefix el) todo
       \<and> m = n + length (filter (purgeMatches svc prefix) todo)"
  using assms
proof (induction todo arbitrary: "done" n s)
  case (Cons el todo)
  obtain i rec where el: "el = (i, rec)" by fastforce
  show ?case
  proof (cases "purgeMatches svc prefix el")
    case False
    then show ?thesis using Cons.IH[of s "done @ [el]" n] Cons.prems by simp
  next
    case True
    have core: "msCore s" and mem: "(i, rec) \<in> set (ms_order s)" using Cons.prems(1,2) el by (auto simp: msInv_def)
    note rem = removeElement_core[OF core mem]
    have "0 \<le> mr_size rec" using core mem by (force simp: msCore_def entrySize_def)
    then have inv: "msInv (removeElement el s)" using Cons.prems(1) rem el by (simp add: msInv_def removeElement_maxBytes)
    have "distinct (map fst (ms_order s))" using core by (simp add: msCore_def)
    then have "\<forall>p \<in> set done \<union> set todo. fst p \<noteq> i" using Cons.prems(2) el by (fastforce simp: image_iff)
    then have ord: "ms_order (removeElement el s) = done @ todo" using rem(3) el Cons.prems(2) by simp
    have sub: "msHolds (removeElement el s) \<subseteq>\<^sub>m msHolds s" using rem(2) el map_le_drop by simp
    show ?thesis using Cons.IH[OF inv ord Cons.prems(3), of "n + 1"] True sub
      by (auto simp: removeElement_maxBytes intro: map_le_trans split: prod.splits)
  qed
qed simp

lemma msPurge_ok:
  assumes "msInv s"
  shows "msInv (snd (msPurge svc prefix s)) \<and> msHolds (snd (msPurge svc prefix s)) \<subseteq>\<^sub>m msHolds s
    \<and> ms_maxBytes (snd (msPurge svc prefix s)) = ms_maxBytes s
    \<and> ms_order (snd (msPurge svc prefix s)) = filter (\<lambda>el. \<not> purgeMatches svc prefix el) (ms_order s)
    \<and> fst (msPurge svc prefix s) = length (filter (purgeMatches svc prefix) (ms_order s))"
  using purge_loop[OF assms, of "[]" "ms_order s" svc prefix 0]
  by (simp add: msPurge_def purgeMatches_def split: prod.splits)

lemma msHolds_element: "msHolds s k = Some e \<Longrightarrow> \<exists>p \<in> set (ms_order s). mr_entry (snd p) = e"
  by (auto simp: msHolds_def dest!: map_of_SomeD)

lemma msPurge_removes:
  assumes "msInv s" and "msHolds (snd (msPurge svc prefix s)) k = Some e"
  shows "\<not> (ce_service e = svc \<and> hasPrefix (ce_path e) prefix)"
  using msHolds_element[OF assms(2)] msPurge_ok[OF assms(1), of svc prefix] by (auto simp: purgeMatches_def)

interpretation mem: cache_store memoryOps msInv msHolds
proof unfold_locales
  fix s :: memoryCacheStore and now k e svc prefix
  assume inv: "msInv s"
  show "msInv (snd (so_get memoryOps now k s))" "msHolds (snd (so_get memoryOps now k s)) \<subseteq>\<^sub>m msHolds s"
    using msGet_ok[OF inv] by (simp_all add: memoryOps_def)
  show "fst (so_get memoryOps now k s) = Some e \<Longrightarrow> msHolds s k = Some e"
    using msGet_ok[OF inv, of now k] by (auto simp: memoryOps_def split: option.splits if_splits)
  show "msInv (so_set memoryOps now k e s)" using msStore_ok[OF inv] inv by (simp add: memoryOps_def msSet_def)
  show "msHolds (so_set memoryOps now k e s) k' = Some x \<Longrightarrow> k' = k \<and> x = e \<or> msHolds s k' = Some x" for k' x
  proof (cases "ttl e \<le> 0")
    case False
    assume "msHolds (so_set memoryOps now k e s) k' = Some x"
    then have "msHolds (msStore now k e s) k' = Some x" using False by (simp add: memoryOps_def msSet_def)
    moreover have "msHolds (msStore now k e s) \<subseteq>\<^sub>m (msHolds s)(k \<mapsto> e)" using msStore_ok[OF inv] by blast
    ultimately have "((msHolds s)(k \<mapsto> e)) k' = Some x" by (metis domI map_le_def)
    then show ?thesis by (auto split: if_splits)
  qed (simp add: memoryOps_def msSet_def)
  show "msInv (snd (so_purge memoryOps svc prefix s))" "msHolds (snd (so_purge memoryOps svc prefix s)) \<subseteq>\<^sub>m msHolds s"
    using msPurge_ok[OF inv] by (simp_all add: memoryOps_def)
  show "msHolds (snd (so_purge memoryOps svc prefix s)) k = Some e \<Longrightarrow> \<not> (ce_service e = svc \<and> hasPrefix (ce_path e) prefix)"
    using msPurge_removes[OF inv] by (simp add: memoryOps_def)
qed

section \<open>The budget\<close>

datatype storeCall = SGet time string | SSet time string cacheEntry | SPurge string string | SClose

fun msCall :: "storeCall \<Rightarrow> memoryCacheStore \<Rightarrow> memoryCacheStore" where
  "msCall (SGet now k) s = snd (msGet now k s)"
| "msCall (SSet now k e) s = msSet now k e s"
| "msCall (SPurge svc p) s = snd (msPurge svc p s)"
| "msCall SClose s = msClose s"

lemma newMemoryCacheStore_inv: "0 \<le> m \<Longrightarrow> msInv (newMemoryCacheStore m)"
  by (auto simp: msInv_def msCore_def newMemoryCacheStore_def keyIndex_def usageOf_def)

lemma msCall_inv: "msInv s \<Longrightarrow> msInv (msCall c s)"
proof (cases c)
  case SClose
  assume "msInv s"
  then show ?thesis by (auto simp: SClose msClose_def msInv_def msCore_def keyIndex_def usageOf_def)
qed (use msGet_ok msStore_ok msPurge_ok in \<open>auto simp: msSet_def\<close>)

lemma msCall_maxBytes: "msInv s \<Longrightarrow> ms_maxBytes (msCall c s) = ms_maxBytes s"
proof (cases c)
  case (SGet now k)
  then show ?thesis by (auto simp: msGet_def removeElement_maxBytes moveToFront_def split: option.splits)
qed (use msStore_ok msPurge_ok in \<open>auto simp: msSet_def msClose_def\<close>)

lemma msRun_inv: "msInv s \<Longrightarrow> msInv (fold msCall cs s) \<and> ms_maxBytes (fold msCall cs s) = ms_maxBytes s"
  by (induction cs arbitrary: s) (auto simp: msCall_inv msCall_maxBytes)

text \<open>C26: However lookups, stores, purges and closings follow one another, the in-process cache stays within its byte
  budget, where every held entry counts with the size it would be measured at; its key index and recency list
  hold the same elements, one per key; and the per-service usage it reports is exactly the number and the
  size of the entries that service has in the list.\<close>

theorem memory_store_within_budget:
  fixes cs :: "storeCall list"
  assumes "0 \<le> m"
  defines "s \<equiv> fold msCall cs (newMemoryCacheStore m)"
  shows "sum_list (map (\<lambda>p. entrySize (mr_entry (snd p))) (ms_order s)) = ms_bytes s \<and> ms_bytes s \<le> m
    \<and> distinct (map (mr_key \<circ> snd) (ms_order s))
    \<and> (\<forall>k i. ms_records s k = Some i \<longleftrightarrow> (\<exists>rec. (i, rec) \<in> set (ms_order s) \<and> mr_key rec = k))
    \<and> ms_services s = usageOf (ms_order s)"
proof -
  have inv: "msInv s" and max: "ms_maxBytes s = m"
    using msRun_inv[OF newMemoryCacheStore_inv[OF assms(1)], of cs] by (simp_all add: s_def newMemoryCacheStore_def)
  then have core: "msCore s" and "ms_bytes s \<le> m" by (auto simp: msInv_def)
  moreover have "map (mr_size \<circ> snd) (ms_order s) = map (\<lambda>p. entrySize (mr_entry (snd p))) (ms_order s)"
    using core by (auto simp: msCore_def)
  moreover have "ms_records s k = Some i \<longleftrightarrow> (\<exists>rec. (i, rec) \<in> set (ms_order s) \<and> mr_key rec = k)" for k i
    using core unfolding msCore_def keyIndex_def by (auto simp: map_of_eq_Some_iff comp_def image_iff) force+
  ultimately show ?thesis by (simp add: msCore_def)
qed

theorem memory_store_within_budget_witness:
  "ms_bytes (fold msCall [SSet 0 ''a'' sampleEntry, SGet 1 ''a'', SSet 2 ''b'' sampleEntry] (newMemoryCacheStore 500)) \<le> 500"
  using memory_store_within_budget[of 500 "[SSet 0 ''a'' sampleEntry, SGet 1 ''a'', SSet 2 ''b'' sampleEntry]"] by simp

text \<open>A purge removes what it names and nothing else: no entry of the service below the prefix is left, every other
  entry stays, in its place in the recency order, and the number reported is the number removed.\<close>

theorem purge_exact:
  fixes cs :: "storeCall list"
  assumes "0 \<le> m"
  defines "s \<equiv> fold msCall cs (newMemoryCacheStore m)"
  shows "ms_order (snd (msPurge svc prefix s))
      = filter (\<lambda>p. \<not> (ce_service (mr_entry (snd p)) = svc \<and> hasPrefix (ce_path (mr_entry (snd p))) prefix)) (ms_order s)
    \<and> fst (msPurge svc prefix s) + length (ms_order (snd (msPurge svc prefix s))) = length (ms_order s)"
proof -
  have "msInv s" using msRun_inv[OF newMemoryCacheStore_inv[OF assms(1)], of cs] by (simp add: s_def)
  from msPurge_ok[OF this, of svc prefix] show ?thesis
    using sum_length_filter_compl[of "purgeMatches svc prefix" "ms_order s"] by (auto simp: purgeMatches_def)
qed

theorem purge_exact_witness:
  "fst (msPurge ''web'' ''/'' (fold msCall [SSet 0 ''a'' sampleEntry] (newMemoryCacheStore 500)))
     + length (ms_order (snd (msPurge ''web'' ''/'' (fold msCall [SSet 0 ''a'' sampleEntry] (newMemoryCacheStore 500)))))
   = length (ms_order (fold msCall [SSet 0 ''a'' sampleEntry] (newMemoryCacheStore 500)))"
  by (rule conjunct2[OF purge_exact[where m = 500 and cs = "[SSet 0 ''a'' sampleEntry]" and svc = "''web''" and prefix = "''/''"]]) simp

end
