(* ===== verification/Cache_Middleware.thy ===== *)
theory Cache_Middleware
  imports Cache_Store
begin

text \<open>
  \<open>cache_middleware.go\<close> and \<open>cache_inflight.go\<close>: answering from the store, fetching behind a single flight, storing
  what came back and revalidating stale entries in the background. The store is any implementation of
  \<open>CacheStore\<close>, given by its operations; the middlewares of all services share it. Requests in progress are
  tasks, and a run is any sequence of the steps their goroutines can take, with any clock readings and any
  behaviour of the handlers behind the cache. The cross-node leases need a store shared between proxies and
  are not part of the steps.
\<close>

section \<open>Answering from the store\<close>

record cacheConfig =
  cc_service :: string
  cc_options :: cacheOptions
  cc_variant :: "request \<Rightarrow> string"

definition primaryFor :: "(string \<Rightarrow> string) \<Rightarrow> (string \<Rightarrow> rat option) \<Rightarrow> cacheConfig \<Rightarrow> request \<Rightarrow> string" where
  "primaryFor digest pf cfg r = cacheKey digest pf (cc_service cfg) (cc_variant cfg r) r (cc_options cfg)"

datatype cacheAnswer = Hit | Stale | Coalesced

definition serve :: "(string \<Rightarrow> string) \<Rightarrow> (string \<Rightarrow> rat option) \<Rightarrow> request \<Rightarrow> cacheEntry \<Rightarrow> cacheLookup \<Rightarrow> time \<Rightarrow> cacheAnswer option" where
  "serve digest pf r e lookup now =
     (if \<not> entryAnswers digest pf e (cl_primary lookup) r then None
      else if needsRevalidation e now then Some Stale
      else if servable e now then Some Hit
      else None)"

datatype cacheDecision = Bypass | Answer cacheAnswer cacheEntry cacheLookup | Fetch cacheLookup

text \<open>\<open>getNow\<close> is the clock the store reads, \<open>now\<close> the one the middleware reads afterwards.\<close>

definition serveHTTP :: "'s cacheStoreOps \<Rightarrow> (string \<Rightarrow> string) \<Rightarrow> (string \<Rightarrow> rat option) \<Rightarrow> cacheConfig \<Rightarrow> request \<Rightarrow>
    time \<Rightarrow> time \<Rightarrow> time \<Rightarrow> 's \<Rightarrow> cacheDecision \<times> 's" where
  "serveHTTP ops digest pf cfg r t1 t2 now s =
     (if \<not> co_enabled (cc_options cfg) \<or> \<not> requestMayUseCache r then (Bypass, s)
      else let lookup = newCacheLookup (primaryFor digest pf cfg r)
           in if \<not> requestAllowsStoredResponse r then (Fetch lookup, s)
              else case so_get ops t1 (cl_variant lookup) s of
                     (None, s1) \<Rightarrow> (Fetch lookup, s1)
                   | (Some e, s1) \<Rightarrow>
                       if entryIsIndex e then
                         (let lookup' = following digest pf lookup e r
                          in case so_get ops t2 (cl_variant lookup') s1 of
                               (None, s2) \<Rightarrow> (Fetch lookup', s2)
                             | (Some e', s2) \<Rightarrow> (case serve digest pf r e' lookup' now of
                                   None \<Rightarrow> (Fetch lookup', s2)
                                 | Some a \<Rightarrow> (Answer a e' lookup', s2)))
                       else (case serve digest pf r e lookup now of
                               None \<Rightarrow> (Fetch lookup, s1)
                             | Some a \<Rightarrow> (Answer a e lookup, s1)))"

text \<open>\<open>replay\<close>: the header map, status and body a stored entry is sent as.\<close>

definition statusAllowsBody :: "int \<Rightarrow> bool" where
  "statusAllowsBody c \<longleftrightarrow> c \<ge> 200 \<and> c \<noteq> 204 \<and> c \<noteq> 304"

definition answerLabel :: "cacheAnswer \<Rightarrow> string" where
  "answerLabel a = (case a of Stale \<Rightarrow> ''STALE'' | _ \<Rightarrow> ''HIT'')"

text \<open>\<open>int64(d.Seconds())\<close>: the quotient truncates towards zero. (The conversion goes through a \<open>float64\<close>, which
  is exact to the second up to ages of more than a month.)\<close>

definition wholeSeconds :: "duration \<Rightarrow> int" where
  "wholeSeconds d = (if d < 0 then - ((- d) div second) else d div second)"

definition replay :: "header \<Rightarrow> request \<Rightarrow> cacheEntry \<Rightarrow> cacheAnswer \<Rightarrow> time \<Rightarrow> int \<times> header \<times> string" where
  "replay h r e a now =
     (let h1 = fold (\<lambda>(name, values) h. AList.update name values h) (ce_header e) h;
          h2 = hset h1 ''X-Cache'' (answerLabel a);
          h3 = hset h2 ''Age'' (itoa (wholeSeconds (age e now)));
          h4 = (if statusAllowsBody (ce_statusCode e) then hset h3 ''Content-Length'' (itoa (int (length (ce_body e)))) else h3)
      in (ce_statusCode e, h4, if req_method r \<noteq> ''HEAD'' then ce_body e else []))"

section \<open>Storing\<close>

definition storeVariant :: "'s cacheStoreOps \<Rightarrow> (string \<Rightarrow> string) \<Rightarrow> cacheConfig \<Rightarrow> cacheLookup \<Rightarrow> time \<Rightarrow> cacheEntry \<Rightarrow> 's \<Rightarrow> 's" where
  "storeVariant ops digest cfg lookup now e s =
     (case admitVariant digest (cc_options cfg) (cl_index lookup) e (cl_primary lookup) of
        (index, admitted) \<Rightarrow>
          if \<not> admitted then s
          else let s1 = so_set ops now (storageKeyFor e (cl_primary lookup)) e s
               in case index of None \<Rightarrow> s1 | Some ix \<Rightarrow> so_set ops now (cl_primary lookup) ix s1)"

text \<open>The entry (if any), the status and the new store after the handler behind the cache has run.\<close>

definition forwardRecording :: "'s cacheStoreOps \<Rightarrow> (string \<Rightarrow> string) \<Rightarrow> (string \<Rightarrow> rat option) \<Rightarrow> cacheConfig \<Rightarrow> request \<Rightarrow>
    cacheLookup \<Rightarrow> handlerAct list \<Rightarrow> time \<Rightarrow> 's \<Rightarrow> cacheEntry option \<times> int \<times> 's" where
  "forwardRecording ops digest pf cfg r lookup acts now s =
     (let w = recorded (cc_options cfg) r acts
      in case entry digest pf (cc_service cfg) (cl_primary lookup) r now w of
           None \<Rightarrow> (None, cw_statusCode w, s)
         | Some e \<Rightarrow> (Some e, cw_statusCode w, storeVariant ops digest cfg lookup now e s))"

section \<open>Revalidation requests\<close>

definition preconditionHeaders :: "string list" where
  "preconditionHeaders = [''If-None-Match'', ''If-Modified-Since'', ''If-Match'', ''If-Unmodified-Since'', ''If-Range'']"

definition stripPreconditions :: "header \<Rightarrow> header" where
  "stripPreconditions h = fold (\<lambda>n h. hdel h n) preconditionHeaders h"

definition addStoredValidators :: "cacheEntry \<Rightarrow> header \<Rightarrow> header \<times> bool" where
  "addStoredValidators stored h =
     (let etag = hget (ce_header stored) ''ETag''; lastModified = hget (ce_header stored) ''Last-Modified''
      in if etag \<noteq> [] then (hset h ''If-None-Match'' etag, True)
         else if lastModified \<noteq> [] then (hset h ''If-Modified-Since'' lastModified, True)
         else (h, False))"

definition backgroundRequest :: "cacheEntry \<Rightarrow> request \<Rightarrow> request" where
  "backgroundRequest stored r =
     r\<lparr>req_content_length := 0, req_header := fst (addStoredValidators stored (stripPreconditions (req_header r)))\<rparr>"

section \<open>The single flight and the requests in progress\<close>

datatype cacheTask =
    TLead nat request cacheLookup nat              \<comment> \<open>middleware, request, lookup, its call: fetching\<close>
  | TFollow nat request cacheLookup nat            \<comment> \<open>waiting for the call\<close>
  | TPlain nat request cacheLookup                 \<comment> \<open>fetching for itself\<close>
  | TRevalidate nat request cacheLookup cacheEntry nat

record cacheReply =
  rp_middleware :: nat
  rp_request :: request
  rp_entry :: cacheEntry
  rp_answer :: cacheAnswer
  rp_time :: time

text \<open>A recorded response: the middleware, the client's request whose key it was fetched for, the request that was
  sent to the target (the same, or the revalidation's), and the entry it became.\<close>

record cacheOrigin =
  og_middleware :: nat
  og_client :: request
  og_request :: request
  og_entry :: cacheEntry

record 's cacheSystem =
  cs_store :: 's
  cs_calls :: "nat \<times> string \<Rightarrow> nat option"
  cs_settled :: "nat \<Rightarrow> cacheEntry option option"
  cs_nextCall :: nat
  cs_tasks :: "cacheTask list"
  cs_replies :: "cacheReply list"
  cs_origins :: "cacheOrigin list"

definition join :: "nat \<Rightarrow> string \<Rightarrow> 's cacheSystem \<Rightarrow> nat \<times> bool \<times> 's cacheSystem" where
  "join m key st = (case cs_calls st (m, key) of
       Some c \<Rightarrow> (c, False, st)
     | None \<Rightarrow> (cs_nextCall st, True, st\<lparr>cs_calls := (cs_calls st)((m, key) \<mapsto> cs_nextCall st), cs_nextCall := cs_nextCall st + 1\<rparr>))"

definition settle :: "nat \<Rightarrow> string \<Rightarrow> nat \<Rightarrow> cacheEntry option \<Rightarrow> 's cacheSystem \<Rightarrow> 's cacheSystem" where
  "settle m key c out st = (case cs_settled st c of
       Some _ \<Rightarrow> st
     | None \<Rightarrow> st\<lparr>cs_settled := (cs_settled st)(c \<mapsto> out),
                  cs_calls := (if cs_calls st (m, key) = Some c then (cs_calls st)((m, key) := None) else cs_calls st)\<rparr>)"

definition addTask :: "cacheTask \<Rightarrow> 's cacheSystem \<Rightarrow> 's cacheSystem" where
  "addTask t st = st\<lparr>cs_tasks := t # cs_tasks st\<rparr>"

definition endTask :: "cacheTask \<Rightarrow> 's cacheSystem \<Rightarrow> 's cacheSystem" where
  "endTask t st = st\<lparr>cs_tasks := remove1 t (cs_tasks st)\<rparr>"

definition reply :: "nat \<Rightarrow> request \<Rightarrow> cacheEntry \<Rightarrow> cacheAnswer \<Rightarrow> time \<Rightarrow> 's cacheSystem \<Rightarrow> 's cacheSystem" where
  "reply m r e a now st = st\<lparr>cs_replies := \<lparr>rp_middleware = m, rp_request = r, rp_entry = e, rp_answer = a, rp_time = now\<rparr> # cs_replies st\<rparr>"

definition fetch :: "nat \<Rightarrow> request \<Rightarrow> cacheLookup \<Rightarrow> 's cacheSystem \<Rightarrow> 's cacheSystem" where
  "fetch m r lookup st = (case join m (cl_primary lookup) st of (c, leader, st') \<Rightarrow>
     addTask (if leader then TLead m r lookup c else TFollow m r lookup c) st')"

definition revalidate :: "nat \<Rightarrow> request \<Rightarrow> cacheLookup \<Rightarrow> cacheEntry \<Rightarrow> 's cacheSystem \<Rightarrow> 's cacheSystem" where
  "revalidate m r lookup stored st = (case join m (cl_primary lookup) st of (c, leader, st') \<Rightarrow>
     if leader then addTask (TRevalidate m r lookup stored c) st' else st')"

definition arrived :: "nat \<Rightarrow> request \<Rightarrow> time \<Rightarrow> cacheDecision \<Rightarrow> 's cacheSystem \<Rightarrow> 's cacheSystem" where
  "arrived m r now d st = (case d of
       Bypass \<Rightarrow> st
     | Fetch lookup \<Rightarrow> fetch m r lookup st
     | Answer a e lookup \<Rightarrow> reply m r e a now (if a = Stale then revalidate m r lookup e st else st))"

text \<open>\<open>forward\<close> with the bookkeeping of where entries came from.\<close>

definition forwarded :: "'s cacheStoreOps \<Rightarrow> (string \<Rightarrow> string) \<Rightarrow> (string \<Rightarrow> rat option) \<Rightarrow> (nat \<Rightarrow> cacheConfig) \<Rightarrow>
    nat \<Rightarrow> request \<Rightarrow> request \<Rightarrow> cacheLookup \<Rightarrow> handlerAct list \<Rightarrow> time \<Rightarrow> 's cacheSystem \<Rightarrow> cacheEntry option \<times> int \<times> 's cacheSystem" where
  "forwarded ops digest pf cfg m client r lookup acts now st =
     (case forwardRecording ops digest pf (cfg m) r lookup acts now (cs_store st) of (out, status, s') \<Rightarrow>
        (out, status, st\<lparr>cs_store := s', cs_origins := (case out of
             None \<Rightarrow> cs_origins st
           | Some e \<Rightarrow> \<lparr>og_middleware = m, og_client = client, og_request = r, og_entry = e\<rparr> # cs_origins st)\<rparr>))"

definition revalidated :: "'s cacheStoreOps \<Rightarrow> (string \<Rightarrow> string) \<Rightarrow> (string \<Rightarrow> rat option) \<Rightarrow> (nat \<Rightarrow> cacheConfig) \<Rightarrow>
    nat \<Rightarrow> request \<Rightarrow> cacheLookup \<Rightarrow> cacheEntry \<Rightarrow> nat \<Rightarrow> handlerAct list \<Rightarrow> time \<Rightarrow> 's cacheSystem \<Rightarrow> 's cacheSystem" where
  "revalidated ops digest pf cfg m r lookup stored c acts now st =
     (case forwarded ops digest pf cfg m r (backgroundRequest stored r) lookup acts now st of (out, status, st') \<Rightarrow>
        let validated = snd (addStoredValidators stored (stripPreconditions (req_header r)))
        in if out = None \<and> validated \<and> status = 304
           then let e' = refreshed (cc_options (cfg m)) now stored
                in settle m (cl_primary lookup) c (Some e')
                     (st'\<lparr>cs_store := so_set ops now (storageKeyFor e' (cl_primary lookup)) e' (cs_store st')\<rparr>)
           else settle m (cl_primary lookup) c out st')"

inductive cacheStep :: "'s cacheStoreOps \<Rightarrow> (string \<Rightarrow> string) \<Rightarrow> (string \<Rightarrow> rat option) \<Rightarrow> (nat \<Rightarrow> cacheConfig) \<Rightarrow>
    's cacheSystem \<Rightarrow> 's cacheSystem \<Rightarrow> bool" for ops digest pf cfg where
  arrive: "serveHTTP ops digest pf (cfg m) r t1 t2 now (cs_store st) = (d, s') \<Longrightarrow>
     cacheStep ops digest pf cfg st (arrived m r now d (st\<lparr>cs_store := s'\<rparr>))"
| unstorable: "TLead m r lookup c \<in> set (cs_tasks st) \<Longrightarrow>
     cacheStep ops digest pf cfg st (settle m (cl_primary lookup) c None st)"
| lead: "TLead m r lookup c \<in> set (cs_tasks st) \<Longrightarrow>
     forwarded ops digest pf cfg m r r lookup acts now st = (out, status, st') \<Longrightarrow>
     cacheStep ops digest pf cfg st (endTask (TLead m r lookup c) (settle m (cl_primary lookup) c out st'))"
| follow: "TFollow m r lookup c \<in> set (cs_tasks st) \<Longrightarrow> cs_settled st c = Some (Some e) \<Longrightarrow>
     entryAnswers digest pf e (cl_primary lookup) r \<Longrightarrow>
     cacheStep ops digest pf cfg st (endTask (TFollow m r lookup c) (reply m r e Coalesced now st))"
| unshared: "TFollow m r lookup c \<in> set (cs_tasks st) \<Longrightarrow> cs_settled st c = Some out \<Longrightarrow>
     (case out of None \<Rightarrow> True | Some e \<Rightarrow> \<not> entryAnswers digest pf e (cl_primary lookup) r) \<Longrightarrow>
     cacheStep ops digest pf cfg st (addTask (TPlain m r lookup) (endTask (TFollow m r lookup c) st))"
| abandon: "TFollow m r lookup c \<in> set (cs_tasks st) \<Longrightarrow>
     cacheStep ops digest pf cfg st (endTask (TFollow m r lookup c) st)"
| plain: "TPlain m r lookup \<in> set (cs_tasks st) \<Longrightarrow>
     forwarded ops digest pf cfg m r r lookup acts now st = (out, status, st') \<Longrightarrow>
     cacheStep ops digest pf cfg st (endTask (TPlain m r lookup) st')"
| background: "TRevalidate m r lookup stored c \<in> set (cs_tasks st) \<Longrightarrow>
     cacheStep ops digest pf cfg st
       (endTask (TRevalidate m r lookup stored c) (revalidated ops digest pf cfg m r lookup stored c acts now st))"
| purge: "cacheStep ops digest pf cfg st (st\<lparr>cs_store := snd (so_purge ops svc prefix (cs_store st))\<rparr>)"

definition cacheInit :: "'s \<Rightarrow> 's cacheSystem" where
  "cacheInit s = \<lparr>cs_store = s, cs_calls = (\<lambda>_. None), cs_settled = (\<lambda>_. None), cs_nextCall = 0, cs_tasks = [],
     cs_replies = [], cs_origins = []\<rparr>"

section \<open>Keys and where entries come from\<close>

text \<open>What is relied on of the digest: hexadecimal SHA-256 prints 64 digits.\<close>

definition hexDigest :: "(string \<Rightarrow> string) \<Rightarrow> bool" where
  "hexDigest digest \<longleftrightarrow> (\<forall>x. length (digest x) = 64 \<and> CHR '':'' \<notin> set (digest x))"

lemma variantKeyFor_inj:
  assumes "hexDigest digest" and "vs \<noteq> []" and "variantKeyFor digest pf p vs r = variantKeyFor digest pf q vs r'"
  shows "p = q \<and> take variantDigestLength (digest (variantPreimage pf p vs r)) = take variantDigestLength (digest (variantPreimage pf q vs r'))"
proof -
  have "length (take variantDigestLength (digest x)) = 16" for x
    using assms(1) by (simp add: hexDigest_def variantDigestLength_def)
  then show ?thesis using assms(2,3) by (auto simp: variantKeyFor_def)
qed

lemma variantKeyFor_self:
  assumes "hexDigest digest"
  shows "variantKeyFor digest pf p vs r = p \<longleftrightarrow> vs = []"
proof -
  have "take variantDigestLength (digest x) \<noteq> []" for x
  proof -
    have "length (take variantDigestLength (digest x)) = 16"
      using assms by (simp add: hexDigest_def variantDigestLength_def)
    then show ?thesis by force
  qed
  then show ?thesis by (simp add: variantKeyFor_def)
qed

lemma last_colon:
  assumes "a @ '':'' @ d = b @ '':'' @ e" and "CHR '':'' \<notin> set d" and "CHR '':'' \<notin> set e"
  shows "d = e"
proof -
  have tw: "takeWhile (\<lambda>c. c \<noteq> CHR '':'') (rev (x @ '':'' @ y)) = rev y" if "CHR '':'' \<notin> set y" for x y
  proof -
    have "\<forall>c \<in> set (rev y). c \<noteq> CHR '':''" using that by auto
    then have "takeWhile (\<lambda>c. c \<noteq> CHR '':'') (rev y @ CHR '':'' # rev x) = rev y" by (subst takeWhile_append2) auto
    then show ?thesis by simp
  qed
  have "rev d = rev e" using tw[OF assms(2), of a] tw[OF assms(3), of b] by (simp only: assms(1))
  then show ?thesis by simp
qed

text \<open>No key of a resource is the key of a variant.\<close>

lemma primary_not_variant:
  assumes "hexDigest digest" and "vs \<noteq> []"
  shows "primaryFor digest pf cfg r \<noteq> variantKeyFor digest pf (primaryFor digest pf cfg' r') vs r''"
proof
  define d where "d = digest (keyPreimage pf (cc_service cfg) (cc_variant cfg r) r (cc_options cfg))"
  define d' where "d' = digest (keyPreimage pf (cc_service cfg') (cc_variant cfg' r') r' (cc_options cfg'))"
  define t where "t = take variantDigestLength (digest (variantPreimage pf (primaryFor digest pf cfg' r') vs r''))"
  assume "primaryFor digest pf cfg r = variantKeyFor digest pf (primaryFor digest pf cfg' r') vs r''"
  then have "cc_service cfg @ '':'' @ d = cc_service cfg' @ '':'' @ (d' @ t)"
    using assms(2) by (simp add: primaryFor_def cacheKey_def variantKeyFor_def d_def d'_def t_def keyPreimage_def)
  moreover have "CHR '':'' \<notin> set d" and "CHR '':'' \<notin> set (d' @ t)"
    using assms(1) by (auto simp: hexDigest_def d_def d'_def t_def dest: in_set_takeD)
  ultimately have "d = d' @ t" by (rule last_colon)
  moreover have "length d = 64" "length d' = 64" "length t = 16"
    using assms(1) by (simp_all add: hexDigest_def d_def d'_def t_def variantDigestLength_def)
  ultimately show False by simp
qed

definition sameContent :: "cacheEntry \<Rightarrow> cacheEntry \<Rightarrow> bool" where
  "sameContent e e' \<longleftrightarrow> ce_service e = ce_service e' \<and> ce_path e = ce_path e' \<and> ce_varyOn e = ce_varyOn e'
     \<and> ce_variantKey e = ce_variantKey e' \<and> ce_statusCode e = ce_statusCode e' \<and> ce_header e = ce_header e' \<and> ce_body e = ce_body e'"

definition originPrimary :: "(string \<Rightarrow> string) \<Rightarrow> (string \<Rightarrow> rat option) \<Rightarrow> (nat \<Rightarrow> cacheConfig) \<Rightarrow> cacheOrigin \<Rightarrow> string" where
  "originPrimary digest pf cfg og = primaryFor digest pf (cfg (og_middleware og)) (og_client og)"

definition originOk :: "(string \<Rightarrow> string) \<Rightarrow> (string \<Rightarrow> rat option) \<Rightarrow> (nat \<Rightarrow> cacheConfig) \<Rightarrow> cacheOrigin \<Rightarrow> bool" where
  "originOk digest pf cfg og \<longleftrightarrow> ce_variantKey (og_entry og) =
     (if ce_varyOn (og_entry og) = [] then []
      else variantKeyFor digest pf (originPrimary digest pf cfg og) (ce_varyOn (og_entry og)) (og_request og))"

definition comesFrom :: "(string \<Rightarrow> string) \<Rightarrow> (string \<Rightarrow> rat option) \<Rightarrow> (nat \<Rightarrow> cacheConfig) \<Rightarrow> cacheOrigin set \<Rightarrow> string \<Rightarrow> cacheEntry \<Rightarrow> bool" where
  "comesFrom digest pf cfg ogs p e \<longleftrightarrow>
     (\<exists>og \<in> ogs. originOk digest pf cfg og \<and> originPrimary digest pf cfg og = p \<and> sameContent e (og_entry og))"

lemma comesFrom_mono: "comesFrom digest pf cfg ogs p e \<Longrightarrow> ogs \<subseteq> ogs' \<Longrightarrow> comesFrom digest pf cfg ogs' p e"
  by (auto simp: comesFrom_def)

lemma comesFrom_refreshed: "comesFrom digest pf cfg ogs p e \<Longrightarrow> comesFrom digest pf cfg ogs p (refreshed co now e)"
  by (auto simp: comesFrom_def sameContent_def refreshed_def Let_def split: sum.splits)

text \<open>An entry found where it was stored and accepted by the gate was stored for this very resource.\<close>

lemma accepted_same_primary:
  assumes hex: "hexDigest digest" and "comesFrom digest pf cfg ogs p0 e" and "k = storageKeyFor e p0"
    and ans: "entryAnswers digest pf e (primaryFor digest pf c r) r"
    and k: "k = primaryFor digest pf c r \<or> (\<exists>vs. vs \<noteq> [] \<and> k = variantKeyFor digest pf (primaryFor digest pf c r) vs r)"
  shows "p0 = primaryFor digest pf c r"
proof -
  let ?p = "primaryFor digest pf c r"
  obtain og where og: "originOk digest pf cfg og" "originPrimary digest pf cfg og = p0" "sameContent e (og_entry og)"
    using assms(2) by (auto simp: comesFrom_def)
  have eq: "variantKeyFor digest pf ?p (ce_varyOn e) r = storageKeyFor e ?p"
    using ans by (simp add: entryAnswers_def split: if_split_asm)
  show ?thesis
  proof (cases "ce_varyOn e = []")
    case True
    then have "k = p0" using og assms(3) by (simp add: originOk_def sameContent_def storageKeyFor_def)
    then show ?thesis using k primary_not_variant[OF hex] og(2) by (auto simp: originPrimary_def)
  next
    case False
    then have vk: "ce_variantKey e = variantKeyFor digest pf p0 (ce_varyOn e) (og_request og)"
      using og by (simp add: originOk_def sameContent_def)
    show ?thesis
    proof (cases "ce_variantKey e = []")
      case True
      then show ?thesis using eq False variantKeyFor_self[OF hex] by (simp add: storageKeyFor_def)
    next
      case nonempty: False
      then have "variantKeyFor digest pf ?p (ce_varyOn e) r = variantKeyFor digest pf p0 (ce_varyOn e) (og_request og)"
        using eq vk by (simp add: storageKeyFor_def)
      from variantKeyFor_inj[OF hex False this] show ?thesis by simp
    qed
  qed
qed

lemma entry_originOk:
  assumes "entry digest pf svc (primaryFor digest pf (cfg m) client) r now w = Some e"
  shows "originOk digest pf cfg \<lparr>og_middleware = m, og_client = client, og_request = r, og_entry = e\<rparr>"
  using assms by (auto simp: entry_def originOk_def originPrimary_def split: if_split_asm)

lemma newVariantIndex_not_response: "\<not> entryIsResponse (newVariantIndex e vs)"
  by (simp add: entryIsResponse_def newVariantIndex_def)

lemma admitVariant_index: "admitVariant digest co ix e p = (Some i, b) \<Longrightarrow> \<not> entryIsResponse i"
  by (auto simp: admitVariant_def Let_def newVariantIndex_not_response split: if_split_asm option.split_asm)

section \<open>The invariant of a run\<close>

text \<open>A reply is right if its entry came from a response recorded for the same resource, under the key the request's
  own values produce, is readable by the client and is within the lifetime its answer claims.\<close>

definition replyOk :: "(string \<Rightarrow> string) \<Rightarrow> (string \<Rightarrow> rat option) \<Rightarrow> (nat \<Rightarrow> cacheConfig) \<Rightarrow> cacheOrigin set \<Rightarrow> cacheReply \<Rightarrow> bool" where
  "replyOk digest pf cfg ogs rp \<longleftrightarrow>
     (let p = primaryFor digest pf (cfg (rp_middleware rp)) (rp_request rp); e = rp_entry rp
      in entryAnswers digest pf e p (rp_request rp) \<and> comesFrom digest pf cfg ogs p e
         \<and> (rp_answer rp = Hit \<longrightarrow> servable e (rp_time rp) \<and> fresh e (rp_time rp))
         \<and> (rp_answer rp = Stale \<longrightarrow> servable e (rp_time rp) \<and> \<not> fresh e (rp_time rp)))"

text \<open>\<open>K\<close> names the resource each call was opened for.\<close>

fun taskOk :: "(string \<Rightarrow> string) \<Rightarrow> (string \<Rightarrow> rat option) \<Rightarrow> (nat \<Rightarrow> cacheConfig) \<Rightarrow> (nat \<Rightarrow> string) \<Rightarrow> nat \<Rightarrow> cacheOrigin set \<Rightarrow> cacheTask \<Rightarrow> bool" where
  "taskOk digest pf cfg K n ogs (TLead m r l c) \<longleftrightarrow> cl_primary l = primaryFor digest pf (cfg m) r \<and> c < n \<and> K c = cl_primary l"
| "taskOk digest pf cfg K n ogs (TFollow m r l c) \<longleftrightarrow> cl_primary l = primaryFor digest pf (cfg m) r \<and> c < n \<and> K c = cl_primary l"
| "taskOk digest pf cfg K n ogs (TPlain m r l) \<longleftrightarrow> cl_primary l = primaryFor digest pf (cfg m) r"
| "taskOk digest pf cfg K n ogs (TRevalidate m r l e c) \<longleftrightarrow> cl_primary l = primaryFor digest pf (cfg m) r \<and> c < n \<and> K c = cl_primary l
     \<and> comesFrom digest pf cfg ogs (cl_primary l) e"

lemma taskOk_mono:
  "taskOk digest pf cfg K n ogs t \<Longrightarrow> n \<le> n' \<Longrightarrow> ogs \<subseteq> ogs' \<Longrightarrow> (\<And>c. c < n \<Longrightarrow> K' c = K c) \<Longrightarrow> taskOk digest pf cfg K' n' ogs' t"
  by (cases t) (auto intro: comesFrom_mono)

lemma replyOk_mono: "replyOk digest pf cfg ogs rp \<Longrightarrow> ogs \<subseteq> ogs' \<Longrightarrow> replyOk digest pf cfg ogs' rp"
  by (auto simp: replyOk_def Let_def intro: comesFrom_mono)

context cache_store
begin

definition storeOk :: "(string \<Rightarrow> string) \<Rightarrow> (string \<Rightarrow> rat option) \<Rightarrow> (nat \<Rightarrow> cacheConfig) \<Rightarrow> cacheOrigin set \<Rightarrow> 's \<Rightarrow> bool" where
  "storeOk digest pf cfg ogs s \<longleftrightarrow> inv s \<and>
     (\<forall>k e. holds s k = Some e \<longrightarrow> entryIsResponse e \<longrightarrow> (\<exists>p. comesFrom digest pf cfg ogs p e \<and> k = storageKeyFor e p))"

lemma storeOk_mono: "storeOk digest pf cfg ogs s \<Longrightarrow> ogs \<subseteq> ogs' \<Longrightarrow> storeOk digest pf cfg ogs' s"
  unfolding storeOk_def by (meson comesFrom_mono)

lemma storeOk_get: "storeOk digest pf cfg ogs s \<Longrightarrow> storeOk digest pf cfg ogs (snd (so_get ops t k s))"
  unfolding storeOk_def using get_inv[of s t k] get_holds[of s t k] by (metis map_le_def domI)

lemma storeOk_purge: "storeOk digest pf cfg ogs s \<Longrightarrow> storeOk digest pf cfg ogs (snd (so_purge ops svc pre s))"
  unfolding storeOk_def using purge_inv[of s svc pre] purge_holds[of s svc pre] by (metis map_le_def domI)

lemma storeOk_set:
  assumes "storeOk digest pf cfg ogs s" and "entryIsResponse e \<Longrightarrow> \<exists>p. comesFrom digest pf cfg ogs p e \<and> k = storageKeyFor e p"
  shows "storeOk digest pf cfg ogs (so_set ops t k e s)"
  unfolding storeOk_def
proof (intro conjI allI impI)
  show "inv (so_set ops t k e s)" using assms(1) set_inv by (simp add: storeOk_def)
  fix k' x assume "holds (so_set ops t k e s) k' = Some x" "entryIsResponse x"
  then have "k' = k \<and> x = e \<or> holds s k' = Some x" using set_holds[of s t k e k' x] assms(1) by (simp add: storeOk_def)
  then show "\<exists>p. comesFrom digest pf cfg ogs p x \<and> k' = storageKeyFor x p"
    using assms \<open>entryIsResponse x\<close> by (auto simp: storeOk_def)
qed

lemma storeOk_storeVariant:
  assumes "storeOk digest pf cfg ogs s" and "comesFrom digest pf cfg ogs (cl_primary l) e"
  shows "storeOk digest pf cfg ogs (storeVariant ops digest c l now e s)"
proof -
  have "storeOk digest pf cfg ogs (so_set ops now (storageKeyFor e (cl_primary l)) e s)"
    using storeOk_set[OF assms(1)] assms(2) by blast
  then have "storeOk digest pf cfg ogs (so_set ops now (cl_primary l) ix (so_set ops now (storageKeyFor e (cl_primary l)) e s))"
    if "\<not> entryIsResponse ix" for ix
    using storeOk_set that by blast
  then show ?thesis using assms(1) storeOk_set[OF assms(1)] assms(2) admitVariant_index
    by (fastforce simp: storeVariant_def Let_def split: prod.split option.split)
qed

definition sysOk :: "(string \<Rightarrow> string) \<Rightarrow> (string \<Rightarrow> rat option) \<Rightarrow> (nat \<Rightarrow> cacheConfig) \<Rightarrow> (nat \<Rightarrow> string) \<Rightarrow> 's cacheSystem \<Rightarrow> bool" where
  "sysOk digest pf cfg K st \<longleftrightarrow>
     storeOk digest pf cfg (set (cs_origins st)) (cs_store st)
     \<and> (\<forall>m key c. cs_calls st (m, key) = Some c \<longrightarrow> c < cs_nextCall st \<and> K c = key)
     \<and> (\<forall>t \<in> set (cs_tasks st). taskOk digest pf cfg K (cs_nextCall st) (set (cs_origins st)) t)
     \<and> (\<forall>c e. cs_settled st c = Some (Some e) \<longrightarrow> comesFrom digest pf cfg (set (cs_origins st)) (K c) e)
     \<and> (\<forall>c. cs_settled st c \<noteq> None \<longrightarrow> c < cs_nextCall st)
     \<and> (\<forall>rp \<in> set (cs_replies st). replyOk digest pf cfg (set (cs_origins st)) rp)"

lemma sysOkD:
  assumes "sysOk digest pf cfg K st"
  shows "storeOk digest pf cfg (set (cs_origins st)) (cs_store st)"
    and "cs_calls st (m, key) = Some c \<Longrightarrow> c < cs_nextCall st \<and> K c = key"
    and "t \<in> set (cs_tasks st) \<Longrightarrow> taskOk digest pf cfg K (cs_nextCall st) (set (cs_origins st)) t"
    and "cs_settled st c = Some (Some e) \<Longrightarrow> comesFrom digest pf cfg (set (cs_origins st)) (K c) e"
    and "cs_settled st c = Some out \<Longrightarrow> c < cs_nextCall st"
    and "rp \<in> set (cs_replies st) \<Longrightarrow> replyOk digest pf cfg (set (cs_origins st)) rp"
  using assms by (auto simp: sysOk_def)

lemma sysOk_store: "sysOk digest pf cfg K st \<Longrightarrow> storeOk digest pf cfg (set (cs_origins st)) s' \<Longrightarrow> sysOk digest pf cfg K (st\<lparr>cs_store := s'\<rparr>)"
  by (simp add: sysOk_def)

lemma sysOk_endTask: "sysOk digest pf cfg K st \<Longrightarrow> sysOk digest pf cfg K (endTask t st)"
  by (auto simp: sysOk_def endTask_def dest!: subsetD[OF set_remove1_subset])

lemma sysOk_addTask:
  "sysOk digest pf cfg K st \<Longrightarrow> taskOk digest pf cfg K (cs_nextCall st) (set (cs_origins st)) t \<Longrightarrow> sysOk digest pf cfg K (addTask t st)"
  by (auto simp: sysOk_def addTask_def)

lemma sysOk_reply:
  assumes "sysOk digest pf cfg K st"
    and "replyOk digest pf cfg (set (cs_origins st)) \<lparr>rp_middleware = m, rp_request = r, rp_entry = e, rp_answer = a, rp_time = now\<rparr>"
  shows "sysOk digest pf cfg K (reply m r e a now st)"
  using assms by (auto simp: sysOk_def reply_def)

lemma sysOk_settle:
  assumes "sysOk digest pf cfg K st" and "c < cs_nextCall st"
    and "\<And>e. out = Some e \<Longrightarrow> comesFrom digest pf cfg (set (cs_origins st)) (K c) e"
  shows "sysOk digest pf cfg K (settle m key c out st)"
  using assms by (auto simp: sysOk_def settle_def split: option.split)

lemma sysOk_join:
  assumes "sysOk digest pf cfg K st" and "join m key st = (c, leader, st')"
  obtains K' where "sysOk digest pf cfg K' st'" "c < cs_nextCall st'" "K' c = key" "cs_origins st' = cs_origins st"
proof (cases "cs_calls st (m, key)")
  case (Some c')
  then have "c = c'" "st' = st" using assms(2) by (simp_all add: join_def)
  moreover have "c' < cs_nextCall st" "K c' = key" using assms(1) Some by (auto simp: sysOk_def)
  ultimately show ?thesis using that[of K] assms(1) by blast
next
  case None
  define K' where "K' = K(cs_nextCall st := key)"
  have st': "st' = st\<lparr>cs_calls := (cs_calls st)((m, key) \<mapsto> cs_nextCall st), cs_nextCall := cs_nextCall st + 1\<rparr>" and c: "c = cs_nextCall st"
    using assms(2) None by (auto simp: join_def)
  have K: "K' c = K c" if "c < cs_nextCall st" for c using that by (simp add: K'_def)
  have "taskOk digest pf cfg K' (cs_nextCall st + 1) (set (cs_origins st)) t" if "t \<in> set (cs_tasks st)" for t
    using K by (intro taskOk_mono[OF sysOkD(3)[OF assms(1) that]]) auto
  moreover have "comesFrom digest pf cfg (set (cs_origins st)) (K' c) e" if "cs_settled st c = Some (Some e)" for c e
    using sysOkD(4,5)[OF assms(1) that] K by simp
  moreover have "d < Suc (cs_nextCall st) \<and> K' d = key'" if "((cs_calls st)((m, key) \<mapsto> cs_nextCall st)) (m', key') = Some d" for m' key' d
    using that sysOkD(2)[OF assms(1), of m' key' d] K by (auto simp: K'_def split: if_split_asm)
  moreover have "d < Suc (cs_nextCall st)" if "cs_settled st d \<noteq> None" for d
    using that sysOkD(5)[OF assms(1)] by (auto simp: less_Suc_eq)
  ultimately have "sysOk digest pf cfg K' st'"
    using sysOkD(1,6)[OF assms(1)] by (simp add: sysOk_def st' del: fun_upd_apply)
  then show ?thesis using that[of K'] st' c by (simp add: K'_def)
qed

lemma sysOk_fetch:
  assumes "sysOk digest pf cfg K st" and "cl_primary l = primaryFor digest pf (cfg m) r"
  shows "\<exists>K'. sysOk digest pf cfg K' (fetch m r l st)"
proof -
  obtain c leader st' where j: "join m (cl_primary l) st = (c, leader, st')" using prod_cases3 by blast
  obtain K' where "sysOk digest pf cfg K' st'" "c < cs_nextCall st'" "K' c = cl_primary l"
    using sysOk_join[OF assms(1) j] by blast
  then have "sysOk digest pf cfg K' (addTask (if leader then TLead m r l c else TFollow m r l c) st')"
    using assms(2) by (intro sysOk_addTask) auto
  then show ?thesis by (auto simp: fetch_def j)
qed

lemma sysOk_revalidate:
  assumes "sysOk digest pf cfg K st" and "cl_primary l = primaryFor digest pf (cfg m) r"
    and "comesFrom digest pf cfg (set (cs_origins st)) (cl_primary l) e"
  shows "\<exists>K'. sysOk digest pf cfg K' (revalidate m r l e st)"
proof -
  obtain c leader st' where j: "join m (cl_primary l) st = (c, leader, st')" using prod_cases3 by blast
  obtain K' where "sysOk digest pf cfg K' st'" "c < cs_nextCall st'" "K' c = cl_primary l" "cs_origins st' = cs_origins st"
    using sysOk_join[OF assms(1) j] by blast
  then have "sysOk digest pf cfg K' (addTask (TRevalidate m r l e c) st')" and "sysOk digest pf cfg K' st'"
    using assms(2,3) by (auto intro: sysOk_addTask)
  then show ?thesis by (auto simp: revalidate_def j)
qed

lemma revalidate_origins: "cs_origins (revalidate m r l e st) = cs_origins st"
  by (simp add: revalidate_def join_def addTask_def split: option.split)

lemma sysOk_grow:
  assumes "sysOk digest pf cfg K st" and "storeOk digest pf cfg (set ogs) s" and mono: "set (cs_origins st) \<subseteq> set ogs"
  shows "sysOk digest pf cfg K (st\<lparr>cs_store := s, cs_origins := ogs\<rparr>)"
proof -
  have "taskOk digest pf cfg K (cs_nextCall st) (set ogs) t" if "t \<in> set (cs_tasks st)" for t
    using taskOk_mono[OF sysOkD(3)[OF assms(1) that] order_refl mono] by simp
  moreover have "replyOk digest pf cfg (set ogs) rp" if "rp \<in> set (cs_replies st)" for rp
    by (rule replyOk_mono[OF sysOkD(6)[OF assms(1) that] mono])
  moreover have "comesFrom digest pf cfg (set ogs) (K c) e" if "cs_settled st c = Some (Some e)" for c e
    by (rule comesFrom_mono[OF sysOkD(4)[OF assms(1) that] mono])
  ultimately show ?thesis using assms(1,2) by (simp add: sysOk_def)
qed

lemma sysOk_forwarded:
  assumes "sysOk digest pf cfg K st" and "cl_primary l = primaryFor digest pf (cfg m) client"
    and "forwarded ops digest pf cfg m client r l acts now st = (out, status, st')"
  shows "sysOk digest pf cfg K st' \<and> cs_nextCall st' = cs_nextCall st \<and> set (cs_origins st) \<subseteq> set (cs_origins st')
    \<and> cs_tasks st' = cs_tasks st \<and> (\<forall>e. out = Some e \<longrightarrow> comesFrom digest pf cfg (set (cs_origins st')) (cl_primary l) e)"
proof (cases "entry digest pf (cc_service (cfg m)) (cl_primary l) r now (recorded (cc_options (cfg m)) r acts)")
  case None
  then show ?thesis using assms by (auto simp: forwarded_def forwardRecording_def Let_def)
next
  case (Some e)
  define og where "og = \<lparr>og_middleware = m, og_client = client, og_request = r, og_entry = e\<rparr>"
  let ?ogs = "set (og # cs_origins st)"
  have cf: "comesFrom digest pf cfg ?ogs (cl_primary l) e"
    using entry_originOk[of digest pf _ cfg m client r now _ e] Some assms(2)
    by (auto simp: comesFrom_def og_def originPrimary_def sameContent_def)
  have st': "st' = st\<lparr>cs_store := storeVariant ops digest (cfg m) l now e (cs_store st), cs_origins := og # cs_origins st\<rparr>" and "out = Some e"
    using assms(3) Some by (auto simp: forwarded_def forwardRecording_def Let_def og_def)
  have "storeOk digest pf cfg ?ogs (storeVariant ops digest (cfg m) l now e (cs_store st))"
    by (rule storeOk_storeVariant[OF storeOk_mono[OF sysOkD(1)[OF assms(1)]] cf]) auto
  then have "sysOk digest pf cfg K st'"
    unfolding st' by (intro sysOk_grow[OF assms(1)]) auto
  then show ?thesis using cf st' \<open>out = Some e\<close> by auto
qed

lemma found_accepted:
  assumes hex: "hexDigest digest" and st: "storeOk digest pf cfg ogs s"
    and get: "fst (so_get ops t k s) = Some e" and srv: "serve digest pf r e l now = Some a"
    and l: "cl_primary l = primaryFor digest pf (cfg m) r"
    and k: "k = cl_primary l \<or> (\<exists>vs. vs \<noteq> [] \<and> k = variantKeyFor digest pf (cl_primary l) vs r)"
  shows "comesFrom digest pf cfg ogs (cl_primary l) e \<and> a \<noteq> Coalesced
    \<and> replyOk digest pf cfg ogs \<lparr>rp_middleware = m, rp_request = r, rp_entry = e, rp_answer = a, rp_time = now\<rparr>"
proof -
  have ans: "entryAnswers digest pf e (cl_primary l) r" using srv by (simp add: serve_def split: if_split_asm)
  then have "entryIsResponse e" by (simp add: entryAnswers_def split: if_split_asm)
  moreover have "holds s k = Some e" using get_answer[OF _ get] st by (simp add: storeOk_def)
  ultimately obtain p where p: "comesFrom digest pf cfg ogs p e" "k = storageKeyFor e p" using st by (auto simp: storeOk_def)
  then have "p = cl_primary l" using accepted_same_primary[OF hex p] ans k l by metis
  then show ?thesis using p(1) ans srv l
    by (auto simp: replyOk_def serve_def needsRevalidation_def split: if_split_asm)
qed

lemma serveHTTP_ok:
  assumes hex: "hexDigest digest" and st: "storeOk digest pf cfg ogs s"
    and run: "serveHTTP ops digest pf (cfg m) r t1 t2 now s = (d, s')"
  shows "storeOk digest pf cfg ogs s'
    \<and> (case d of Bypass \<Rightarrow> True | Fetch l \<Rightarrow> cl_primary l = primaryFor digest pf (cfg m) r
       | Answer a e l \<Rightarrow> cl_primary l = primaryFor digest pf (cfg m) r \<and> comesFrom digest pf cfg ogs (cl_primary l) e
           \<and> replyOk digest pf cfg ogs \<lparr>rp_middleware = m, rp_request = r, rp_entry = e, rp_answer = a, rp_time = now\<rparr>)"
proof -
  define l where "l = newCacheLookup (primaryFor digest pf (cfg m) r)"
  have l: "cl_primary l = primaryFor digest pf (cfg m) r" "cl_variant l = cl_primary l" by (simp_all add: l_def newCacheLookup_def)
  obtain o1 s1 where g1: "so_get ops t1 (cl_variant l) s = (o1, s1)" by fastforce
  have st1: "storeOk digest pf cfg ogs s1" using storeOk_get[OF st, of t1 "cl_variant l"] g1 by simp
  have one: ?thesis if "o1 = Some e" "serve digest pf r e l now = Some a" "d = Answer a e l" "s' = s1" for a e
    using found_accepted[OF hex st _ that(2) l(1), of t1 "cl_variant l"] that g1 l st1 by simp
  have two: ?thesis if o1: "o1 = Some ix" and ix: "entryIsIndex ix"
    and g2: "so_get ops t2 (cl_variant (following digest pf l ix r)) s1 = (Some e, s')"
    and srv: "serve digest pf r e (following digest pf l ix r) now = Some a" and d: "d = Answer a e (following digest pf l ix r)" for a e ix
  proof -
    let ?l = "following digest pf l ix r"
    have l': "cl_primary ?l = primaryFor digest pf (cfg m) r" using l by (simp add: following_def)
    have "\<exists>vs. vs \<noteq> [] \<and> cl_variant ?l = variantKeyFor digest pf (cl_primary ?l) vs r"
      using ix by (auto simp: following_def entryIsIndex_def)
    then show ?thesis using found_accepted[OF hex st1 _ srv l', of t2 "cl_variant ?l"] g2 l' d storeOk_get[OF st1, of t2 "cl_variant ?l"] by simp
  qed
  show ?thesis
    using run st st1 one two l g1 storeOk_get[OF st1]
    unfolding serveHTTP_def Let_def l_def[symmetric]
    by (auto simp: following_def split: if_split_asm prod.split_asm option.split_asm) (metis snd_conv)+
qed

lemma sysOk_arrive:
  assumes hex: "hexDigest digest" and ok: "sysOk digest pf cfg K st"
    and run: "serveHTTP ops digest pf (cfg m) r t1 t2 now (cs_store st) = (d, s')"
  shows "\<exists>K'. sysOk digest pf cfg K' (arrived m r now d (st\<lparr>cs_store := s'\<rparr>))"
proof -
  let ?st = "st\<lparr>cs_store := s'\<rparr>"
  note srv = serveHTTP_ok[OF hex sysOkD(1)[OF ok] run]
  have ok': "sysOk digest pf cfg K ?st" using sysOk_store[OF ok] srv by blast
  show ?thesis
  proof (cases d)
    case (Answer a e l)
    have l: "cl_primary l = primaryFor digest pf (cfg m) r" "comesFrom digest pf cfg (set (cs_origins ?st)) (cl_primary l) e"
      and rp: "replyOk digest pf cfg (set (cs_origins st)) \<lparr>rp_middleware = m, rp_request = r, rp_entry = e, rp_answer = a, rp_time = now\<rparr>"
      using srv Answer by auto
    obtain K' where "sysOk digest pf cfg K' (if a = Stale then revalidate m r l e ?st else ?st)"
      using sysOk_revalidate[OF ok' l] ok' by (cases "a = Stale") auto
    then have "sysOk digest pf cfg K' (reply m r e a now (if a = Stale then revalidate m r l e ?st else ?st))"
      using rp by (intro sysOk_reply) (auto simp: revalidate_origins)
    then show ?thesis using Answer by (auto simp: arrived_def)
  next
    case (Fetch l)
    then show ?thesis using sysOk_fetch[OF ok'] srv by (simp add: arrived_def)
  qed (use ok' in \<open>auto simp: arrived_def\<close>)
qed

lemma sysOk_revalidated:
  assumes ok: "sysOk digest pf cfg K st" and t: "TRevalidate m r l stored c \<in> set (cs_tasks st)"
  shows "sysOk digest pf cfg K (revalidated ops digest pf cfg m r l stored c acts now st)"
proof -
  obtain out status st' where fw: "forwarded ops digest pf cfg m r (backgroundRequest stored r) l acts now st = (out, status, st')"
    using prod_cases3 by blast
  have tk: "cl_primary l = primaryFor digest pf (cfg m) r" "c < cs_nextCall st" "K c = cl_primary l"
    "comesFrom digest pf cfg (set (cs_origins st)) (cl_primary l) stored"
    using sysOkD(3)[OF ok t] by auto
  note fo = sysOk_forwarded[OF ok tk(1) fw]
  define e' where "e' = refreshed (cc_options (cfg m)) now stored"
  have cf: "comesFrom digest pf cfg (set (cs_origins st')) (cl_primary l) e'"
    using comesFrom_refreshed comesFrom_mono tk(4) fo unfolding e'_def by blast
  let ?st = "st'\<lparr>cs_store := so_set ops now (storageKeyFor e' (cl_primary l)) e' (cs_store st')\<rparr>"
  have "sysOk digest pf cfg K ?st" using sysOk_store storeOk_set sysOkD(1) cf fo by metis
  then have "sysOk digest pf cfg K (settle m (cl_primary l) c (Some e') ?st)"
    using fo tk cf by (intro sysOk_settle) auto
  moreover have "sysOk digest pf cfg K (settle m (cl_primary l) c out st')"
    using fo tk by (intro sysOk_settle) auto
  ultimately show ?thesis by (simp add: revalidated_def fw Let_def e'_def)
qed

lemma cacheStep_ok:
  assumes step: "cacheStep ops digest pf cfg st st'" and hex: "hexDigest digest" and ok: "sysOk digest pf cfg K st"
  shows "\<exists>K'. sysOk digest pf cfg K' st'"
  using step ok
proof (cases rule: cacheStep.cases)
  case (arrive m r t1 t2 now d s')
  then show ?thesis using sysOk_arrive[OF hex ok] by blast
next
  case (unstorable m r l c)
  then show ?thesis using sysOk_settle[OF ok, of c None] sysOkD(3)[OF ok] by fastforce
next
  case (lead m r l c acts now out status st1)
  have tk: "cl_primary l = primaryFor digest pf (cfg m) r" "c < cs_nextCall st" "K c = cl_primary l"
    using sysOkD(3)[OF ok lead(2)] by simp_all
  note fo = sysOk_forwarded[OF ok tk(1) lead(3)]
  have "sysOk digest pf cfg K (settle m (cl_primary l) c out st1)" using fo tk by (intro sysOk_settle) auto
  then show ?thesis using lead(1) sysOk_endTask by blast
next
  case (follow m r l c e now)
  have "replyOk digest pf cfg (set (cs_origins st)) \<lparr>rp_middleware = m, rp_request = r, rp_entry = e, rp_answer = Coalesced, rp_time = now\<rparr>"
    using sysOkD(3)[OF ok follow(2)] sysOkD(4)[OF ok follow(3)] follow(4) by (simp add: replyOk_def)
  then show ?thesis using follow(1) sysOk_endTask[OF sysOk_reply[OF ok]] by blast
next
  case (unshared m r l c out)
  then have "taskOk digest pf cfg K (cs_nextCall st) (set (cs_origins st)) (TPlain m r l)" using sysOkD(3)[OF ok unshared(2)] by simp
  then have "sysOk digest pf cfg K (addTask (TPlain m r l) (endTask (TFollow m r l c) st))"
    by (intro sysOk_addTask[OF sysOk_endTask[OF ok]]) (simp add: endTask_def)
  then show ?thesis using unshared(1) by blast
next
  case (abandon m r l c)
  then show ?thesis using sysOk_endTask[OF ok] by blast
next
  case (plain m r l acts now out status st1)
  then show ?thesis using sysOk_forwarded[OF ok _ plain(3)] sysOkD(3)[OF ok plain(2)] sysOk_endTask by (metis taskOk.simps(3))
next
  case (background m r l stored c acts now)
  then show ?thesis using sysOk_endTask[OF sysOk_revalidated[OF ok]] by blast
next
  case (purge svc pre)
  then show ?thesis using sysOk_store[OF ok storeOk_purge[OF sysOkD(1)[OF ok]]] by blast
qed

lemma run_ok:
  assumes "rtranclp (cacheStep ops digest pf cfg) st st'" and "hexDigest digest" and "sysOk digest pf cfg K st"
  shows "\<exists>K'. sysOk digest pf cfg K' st'"
  using assms by (induction rule: rtranclp_induct) (auto intro: cacheStep_ok)

lemma init_ok: "inv s \<Longrightarrow> (\<And>k. holds s k = None) \<Longrightarrow> sysOk digest pf cfg K (cacheInit s)"
  by (simp add: sysOk_def cacheInit_def storeOk_def)

lemma replies_ok:
  assumes "rtranclp (cacheStep ops digest pf cfg) (cacheInit s) st" and "hexDigest digest" and "inv s" and "\<And>k. holds s k = None"
    and "rp \<in> set (cs_replies st)"
  shows "replyOk digest pf cfg (set (cs_origins st)) rp"
  using run_ok[OF assms(1,2) init_ok] assms(3-5) sysOkD(6) by blast

end

section \<open>No client gets another's response\<close>

lemma variantPreimage_inj:
  assumes "variantPreimage pf p vs r = variantPreimage pf p vs r'"
    and "length p < 2 ^ 64" and "\<forall>f \<in> set vs. length f < 2 ^ 64 \<and> length (keyValueFor pf r f) < 2 ^ 64 \<and> length (keyValueFor pf r' f) < 2 ^ 64"
  shows "\<forall>f \<in> set vs. keyValueFor pf r f = keyValueFor pf r' f"
proof -
  have flat: "variantPreimage pf p vs r = concat (map writeKeyField (p # concat (map (\<lambda>f. [f, keyValueFor pf r f]) vs)))" for r
    by (induction vs) (simp_all add: variantPreimage_def)
  have "p # concat (map (\<lambda>f. [f, keyValueFor pf r f]) vs) = p # concat (map (\<lambda>f. [f, keyValueFor pf r' f]) vs)"
    by (rule writeKeyFields_inj) (use assms flat[of r] flat[of r'] in \<open>auto\<close>)
  then show ?thesis using concat_pairs_inj[of "keyValueFor pf r" vs "keyValueFor pf r'"] by simp
qed

text \<open>Reply \<open>rp\<close> and origin \<open>og\<close> agree on what the response was negotiated on.\<close>

definition negotiatedAlike :: "(string \<Rightarrow> rat option) \<Rightarrow> cacheReply \<Rightarrow> cacheOrigin \<Rightarrow> bool" where
  "negotiatedAlike pf rp og \<longleftrightarrow>
     (\<forall>f \<in> set (ce_varyOn (rp_entry rp)). keyValueFor pf (rp_request rp) f = keyValueFor pf (og_request og) f)"

text \<open>The digits kept of the digest do not collide on the two values sets compared, and the fields are short
  enough for their length prefixes.\<close>

definition digestSeparates :: "(string \<Rightarrow> string) \<Rightarrow> (string \<Rightarrow> rat option) \<Rightarrow> string \<Rightarrow> string list \<Rightarrow> request \<Rightarrow> request \<Rightarrow> bool" where
  "digestSeparates digest pf p vs r r' \<longleftrightarrow>
     inj_on (\<lambda>x. take variantDigestLength (digest x)) {variantPreimage pf p vs r, variantPreimage pf p vs r'}
     \<and> length p < 2 ^ 64
     \<and> (\<forall>f \<in> set vs. length f < 2 ^ 64 \<and> length (keyValueFor pf r f) < 2 ^ 64 \<and> length (keyValueFor pf r' f) < 2 ^ 64)"

lemma replyOk_negotiated:
  assumes hex: "hexDigest digest" and rp: "replyOk digest pf cfg ogs rp"
  obtains og where "og \<in> ogs" "sameContent (rp_entry rp) (og_entry og)"
    "originPrimary digest pf cfg og = primaryFor digest pf (cfg (rp_middleware rp)) (rp_request rp)"
    "digestSeparates digest pf (originPrimary digest pf cfg og) (ce_varyOn (rp_entry rp)) (rp_request rp) (og_request og)
       \<Longrightarrow> negotiatedAlike pf rp og"
proof -
  let ?p = "primaryFor digest pf (cfg (rp_middleware rp)) (rp_request rp)" and ?e = "rp_entry rp"
  obtain og where og: "og \<in> ogs" "originOk digest pf cfg og" "originPrimary digest pf cfg og = ?p" "sameContent ?e (og_entry og)"
    and ans: "entryAnswers digest pf ?e ?p (rp_request rp)"
    using rp by (auto simp: replyOk_def Let_def comesFrom_def)
  have alike: "negotiatedAlike pf rp og" if sep: "digestSeparates digest pf ?p (ce_varyOn ?e) (rp_request rp) (og_request og)"
  proof (cases "ce_varyOn ?e = []")
    case False
    then have "storageKeyFor ?e ?p = variantKeyFor digest pf ?p (ce_varyOn ?e) (og_request og)"
      using og hex by (auto simp: originOk_def sameContent_def storageKeyFor_def hexDigest_def variantKeyFor_def primaryFor_def cacheKey_def)
    then have "variantKeyFor digest pf ?p (ce_varyOn ?e) (rp_request rp) = variantKeyFor digest pf ?p (ce_varyOn ?e) (og_request og)"
      using ans by (simp add: entryAnswers_def split: if_split_asm)
    from variantKeyFor_inj[OF hex False this]
    have "variantPreimage pf ?p (ce_varyOn ?e) (rp_request rp) = variantPreimage pf ?p (ce_varyOn ?e) (og_request og)"
      using sep by (auto simp: digestSeparates_def dest: inj_onD)
    then show ?thesis using variantPreimage_inj sep by (simp add: digestSeparates_def negotiatedAlike_def)
  qed (simp add: negotiatedAlike_def)
  show thesis using og alike by (intro that[of og]) auto
qed

text \<open>What every interpretation of the store's interface gets.\<close>

lemma replyOk_answers:
  assumes hex: "hexDigest digest" and ok: "replyOk digest pf cfg ogs rp"
  shows "(\<exists>og \<in> ogs. sameContent (rp_entry rp) (og_entry og)
      \<and> originPrimary digest pf cfg og = primaryFor digest pf (cfg (rp_middleware rp)) (rp_request rp)
      \<and> (digestSeparates digest pf (originPrimary digest pf cfg og) (ce_varyOn (rp_entry rp)) (rp_request rp) (og_request og)
           \<longrightarrow> negotiatedAlike pf rp og))
    \<and> clientAcceptsEncoding pf (rp_request rp) (hget (ce_header (rp_entry rp)) ''Content-Encoding'')
    \<and> (rp_answer rp = Hit \<longrightarrow> fresh (rp_entry rp) (rp_time rp))
    \<and> (rp_answer rp = Stale \<longrightarrow> needsRevalidation (rp_entry rp) (rp_time rp))"
proof -
  have "clientAcceptsEncoding pf (rp_request rp) (hget (ce_header (rp_entry rp)) ''Content-Encoding'')"
    using ok by (simp add: replyOk_def Let_def entryAnswers_def entryReadableBy_def split: if_split_asm)
  moreover have "rp_answer rp = Hit \<longrightarrow> fresh (rp_entry rp) (rp_time rp)" "rp_answer rp = Stale \<longrightarrow> needsRevalidation (rp_entry rp) (rp_time rp)"
    using ok by (auto simp: replyOk_def Let_def needsRevalidation_def)
  ultimately show ?thesis using replyOk_negotiated[OF hex ok] by metis
qed

text \<open>A coalesced request is answered with what the fetch it waited for ended with.\<close>

definition coalescedOk :: "'s cacheSystem \<Rightarrow> bool" where
  "coalescedOk st \<longleftrightarrow>
     (\<forall>rp \<in> set (cs_replies st). rp_answer rp = Coalesced \<longrightarrow> (\<exists>c. cs_settled st c = Some (Some (rp_entry rp))))"

lemma coalescedOk_grow:
  assumes "coalescedOk st" and "cs_replies st' = cs_replies st" and "cs_settled st \<subseteq>\<^sub>m cs_settled st'"
  shows "coalescedOk st'"
proof -
  have "cs_settled st c = Some x \<Longrightarrow> cs_settled st' c = Some x" for c x using assms(3) by (metis domI map_le_def)
  then show ?thesis using assms(1,2) unfolding coalescedOk_def by metis
qed

lemma settle_grows: "cs_replies (settle m key c out st) = cs_replies st" "cs_settled st \<subseteq>\<^sub>m cs_settled (settle m key c out st)"
  by (auto simp: settle_def map_le_def split: option.split)

lemma endTask_grows: "cs_replies (endTask t st) = cs_replies st" "cs_settled (endTask t st) = cs_settled st"
  by (simp_all add: endTask_def)

lemma forwarded_grows:
  "forwarded ops digest pf cfg m client r l acts now st = (out, status, st') \<Longrightarrow> cs_replies st' = cs_replies st \<and> cs_settled st' = cs_settled st"
  by (auto simp: forwarded_def split: prod.splits)

lemma revalidated_grows:
  "cs_replies (revalidated ops digest pf cfg m r l e c acts now st) = cs_replies st
   \<and> cs_settled st \<subseteq>\<^sub>m cs_settled (revalidated ops digest pf cfg m r l e c acts now st)"
proof -
  obtain out status st' where fw: "forwarded ops digest pf cfg m r (backgroundRequest e r) l acts now st = (out, status, st')"
    using prod_cases3 by blast
  have "cs_settled st \<subseteq>\<^sub>m cs_settled (settle m' key c' out' (st'\<lparr>cs_store := s\<rparr>))" "cs_settled st \<subseteq>\<^sub>m cs_settled (settle m' key c' out' st')" for m' key c' out' s
    using forwarded_grows[OF fw] settle_grows(2)[of "st'\<lparr>cs_store := s\<rparr>" m' key c' out'] settle_grows(2)[of st' m' key c' out'] by simp_all
  then show ?thesis using forwarded_grows[OF fw] by (simp add: revalidated_def fw Let_def settle_grows(1))
qed

lemma serveHTTP_answer:
  "serveHTTP ops digest pf cfg r t1 t2 now s = (Answer a e l, s') \<Longrightarrow> a \<noteq> Coalesced"
  by (auto simp: serveHTTP_def serve_def Let_def split: if_splits prod.splits option.splits)

lemma join_grows: "join m key st = (c, leader, st') \<Longrightarrow> cs_replies st' = cs_replies st \<and> cs_settled st' = cs_settled st"
  by (auto simp: join_def split: option.splits)

lemma arrived_coalesced:
  assumes "coalescedOk st" and "\<And>a e l. d = Answer a e l \<Longrightarrow> a \<noteq> Coalesced"
  shows "coalescedOk (arrived m r now d st)"
proof (cases d)
  case (Answer a e l)
  then show ?thesis using assms
    by (auto simp: arrived_def coalescedOk_def reply_def revalidate_def addTask_def dest: join_grows split: prod.splits)
next
  case (Fetch l)
  then show ?thesis using assms
    by (auto simp: arrived_def coalescedOk_def fetch_def addTask_def dest: join_grows split: prod.splits)
qed (use assms in \<open>simp add: arrived_def\<close>)

lemma cacheStep_coalesced:
  assumes "cacheStep ops digest pf cfg st st'" and ok: "coalescedOk st"
  shows "coalescedOk st'"
  using assms(1)
proof cases
  case (arrive m r t1 t2 now d s')
  have "coalescedOk (st\<lparr>cs_store := s'\<rparr>)" using ok by (simp add: coalescedOk_def)
  moreover have "a \<noteq> Coalesced" if "d = Answer a e l" for a e l
    using arrive(2) that by (intro serveHTTP_answer) simp
  ultimately show ?thesis unfolding arrive(1) by (rule arrived_coalesced)
next
  case (lead m r l c acts now out status st1)
  have "cs_settled st \<subseteq>\<^sub>m cs_settled (settle m (cl_primary l) c out st1)"
    using settle_grows(2)[of st1 m "cl_primary l" c out] forwarded_grows[OF lead(3)] by simp
  then show ?thesis using lead(1) forwarded_grows[OF lead(3)] by (intro coalescedOk_grow[OF ok]) (simp_all add: endTask_grows settle_grows(1))
next
  case (follow m r l c e now)
  then show ?thesis using ok by (auto simp: coalescedOk_def reply_def endTask_def)
next
  case (plain m r l acts now out status st1)
  then show ?thesis using forwarded_grows[OF plain(3)] by (intro coalescedOk_grow[OF ok]) (simp_all add: endTask_grows)
next
  case (background m r l stored c acts now)
  show ?thesis unfolding background(1)
    using revalidated_grows[of ops digest pf cfg m r l stored c acts now st] by (intro coalescedOk_grow[OF ok]) (simp_all add: endTask_grows)
qed (auto intro!: coalescedOk_grow[OF ok] simp: settle_grows endTask_grows addTask_def)

lemma run_coalesced:
  assumes "rtranclp (cacheStep ops digest pf cfg) (cacheInit s) st"
  shows "coalescedOk st"
  using assms
proof (induction rule: rtranclp_induct)
  case base
  show ?case by (simp add: coalescedOk_def cacheInit_def)
qed (rule cacheStep_coalesced)


text \<open>A run: a miss that is fetched and stored, then a hit.\<close>

definition runDigest :: "string \<Rightarrow> string" where
  "runDigest x = take 64 (filter (\<lambda>c. c \<noteq> CHR '':'') (rev x) @ replicate 64 (CHR ''0''))"

definition runConfig :: "nat \<Rightarrow> cacheConfig" where
  "runConfig m = \<lparr>cc_service = ''web'', cc_options = cacheSampleOptions, cc_variant = (\<lambda>_. [])\<rparr>"

definition runLookup :: cacheLookup where
  "runLookup = newCacheLookup (primaryFor runDigest (\<lambda>_. None) (runConfig 0) (cacheSampleRequest ''curl''))"

definition runStart :: "memoryCacheStore cacheSystem" where
  "runStart = cacheInit (newMemoryCacheStore 100000)"

definition runArrive :: "string \<Rightarrow> time \<Rightarrow> memoryCacheStore cacheSystem \<Rightarrow> memoryCacheStore cacheSystem" where
  "runArrive agent now st =
     (let (d, s') = serveHTTP memoryOps runDigest (\<lambda>_. None) (runConfig 0) (cacheSampleRequest agent) now now now (cs_store st)
      in arrived 0 (cacheSampleRequest agent) now d (st\<lparr>cs_store := s'\<rparr>))"

definition runLead :: "memoryCacheStore cacheSystem \<Rightarrow> memoryCacheStore cacheSystem" where
  "runLead st =
     (let (out, status, st') = forwarded memoryOps runDigest (\<lambda>_. None) runConfig 0 (cacheSampleRequest ''curl'') (cacheSampleRequest ''curl'')
          runLookup [ASetHeader [(''Cache-Control'', [''public, max-age=60''])], AWrite ''hi''] 1 st
      in endTask (TLead 0 (cacheSampleRequest ''curl'') runLookup 0) (settle 0 (cl_primary runLookup) 0 out st'))"

lemma runArrive_step: "cacheStep memoryOps runDigest (\<lambda>_. None) runConfig st (runArrive agent now st)"
  unfolding runArrive_def by (auto simp: Let_def split: prod.split intro: cacheStep.arrive)

lemma runLead_step:
  "TLead 0 (cacheSampleRequest ''curl'') runLookup 0 \<in> set (cs_tasks st) \<Longrightarrow>
   cacheStep memoryOps runDigest (\<lambda>_. None) runConfig st (runLead st)"
  unfolding runLead_def by (auto simp: Let_def split: prod.split intro: cacheStep.lead)

lemma runDigest_hex: "hexDigest runDigest"
proof -
  have "CHR '':'' \<notin> set (runDigest x)" for x
    unfolding runDigest_def by (auto dest!: in_set_takeD)
  moreover have "length (runDigest x) = 64" for x by (simp add: runDigest_def min_def)
  ultimately show ?thesis by (simp add: hexDigest_def)
qed

lemma run_task: "cs_tasks (runArrive ''curl'' 0 runStart) = [TLead 0 (cacheSampleRequest ''curl'') runLookup 0]"
  by code_simp

lemma run_hit: "map rp_answer (cs_replies (runArrive ''wget'' 2 (runLead (runArrive ''curl'' 0 runStart)))) = [Hit]"
  by code_simp


end
