(* ===== verification/Cache_Flight.thy ===== *)
theory Cache_Flight
  imports Cache_Middleware
begin

text \<open>
  The single flight of \<open>cache_inflight.go\<close> under the steps of the cache: at most one fetch per resource that others
  can join, and nobody waiting on a fetch that no one will settle.
\<close>

section \<open>The single flight\<close>

text \<open>The flight a task is responsible for settling.\<close>

fun flightOf :: "cacheTask \<Rightarrow> (nat \<times> string \<times> nat) option" where
  "flightOf (TLead m r l c) = Some (m, cl_primary l, c)"
| "flightOf (TRevalidate m r l e c) = Some (m, cl_primary l, c)"
| "flightOf _ = None"

definition flights :: "'s cacheSystem \<Rightarrow> (nat \<times> string \<times> nat) list" where
  "flights st = List.map_filter flightOf (cs_tasks st)"

lemma flights_addTask: "flights (addTask t st) = (case flightOf t of None \<Rightarrow> flights st | Some f \<Rightarrow> f # flights st)"
  by (simp add: flights_def addTask_def map_filter_simps split: option.split)

lemma map_filter_remove1:
  "f t = None \<Longrightarrow> List.map_filter f (remove1 t ts) = List.map_filter f ts"
  by (induction ts) (auto simp: map_filter_simps split: option.split)

lemma flights_split:
  assumes "t \<in> set ts" and "flightOf t = Some f"
  shows "\<exists>xs ys. List.map_filter flightOf ts = xs @ f # ys \<and> List.map_filter flightOf (remove1 t ts) = xs @ ys"
  using assms(1)
proof (induction ts)
  case (Cons u ts)
  show ?case
  proof (cases "u = t")
    case True
    then show ?thesis using assms(2)
      by (intro exI[of _ "[]"] exI[of _ "List.map_filter flightOf ts"]) (simp add: map_filter_simps)
  next
    case False
    then obtain xs ys where "List.map_filter flightOf ts = xs @ f # ys" "List.map_filter flightOf (remove1 t ts) = xs @ ys"
      using Cons by auto
    then show ?thesis using False
      by (cases "flightOf u") (auto simp: map_filter_simps intro: exI[of _ xs] exI[of _ "_ # xs"])
  qed
qed simp

text \<open>The calls of the flights are distinct and known; the table of calls holds exactly the unsettled flights; a waiting
  task's call is settled or in flight.\<close>

definition flightInv :: "(nat \<times> string \<times> nat) list \<Rightarrow> cacheTask set \<Rightarrow> (nat \<times> string \<Rightarrow> nat option) \<Rightarrow> (nat \<Rightarrow> cacheEntry option option) \<Rightarrow> nat \<Rightarrow> bool" where
  "flightInv fl ts calls settled n \<longleftrightarrow>
     distinct (map (snd \<circ> snd) fl)
     \<and> (\<forall>m key c. (m, key, c) \<in> set fl \<longrightarrow> c < n)
     \<and> (\<forall>m key c. calls (m, key) = Some c \<longleftrightarrow> (m, key, c) \<in> set fl \<and> settled c = None)
     \<and> (\<forall>m r l c. TFollow m r l c \<in> ts \<longrightarrow> settled c \<noteq> None \<or> (m, cl_primary l, c) \<in> set fl)
     \<and> (\<forall>c. settled c \<noteq> None \<longrightarrow> c < n)"

definition flightOk :: "'s cacheSystem \<Rightarrow> bool" where
  "flightOk st \<longleftrightarrow> flightInv (flights st) (set (cs_tasks st)) (cs_calls st) (cs_settled st) (cs_nextCall st)"

lemma flightInvD:
  assumes "flightInv fl ts calls settled n"
  shows "distinct (map (snd \<circ> snd) fl)"
    and "(m, key, c) \<in> set fl \<Longrightarrow> c < n"
    and "calls (m, key) = Some c \<longleftrightarrow> (m, key, c) \<in> set fl \<and> settled c = None"
    and "TFollow m r l c \<in> ts \<Longrightarrow> settled c = None \<Longrightarrow> (m, cl_primary l, c) \<in> set fl"
    and "settled c = Some out \<Longrightarrow> c < n"
  using assms unfolding flightInv_def by blast+

lemma flightInvI:
  assumes "distinct (map (snd \<circ> snd) fl)"
    and "\<And>m key c. (m, key, c) \<in> set fl \<Longrightarrow> c < n"
    and "\<And>m key c. calls (m, key) = Some c \<longleftrightarrow> (m, key, c) \<in> set fl \<and> settled c = None"
    and "\<And>m r l c. TFollow m r l c \<in> ts \<Longrightarrow> settled c = None \<Longrightarrow> (m, cl_primary l, c) \<in> set fl"
    and "\<And>c out. settled c = Some out \<Longrightarrow> c < n"
  shows "flightInv fl ts calls settled n"
  using assms unfolding flightInv_def by blast

lemma flight_unique:
  assumes "flightInv fl ts calls settled n" and "(m, key, c) \<in> set fl" "(m', key', c) \<in> set fl"
  shows "m' = m \<and> key' = key"
  using assms inj_onD[of "snd \<circ> snd" "set fl" "(m, key, c)" "(m', key', c)"] flightInvD(1)[OF assms(1)] by (auto simp: distinct_map)

lemma flightInv_settle:
  assumes ok: "flightInv fl ts calls settled n" and mem: "(m, key, c) \<in> set fl" and "settled c = None"
  shows "flightInv fl ts (calls((m, key) := None)) (settled(c \<mapsto> out)) n"
proof (rule flightInvI)
  have mk: "calls (m, key) = Some c" using flightInvD(3)[OF ok] mem assms(3) by blast
  show "(calls((m, key) := None)) (m', key') = Some d \<longleftrightarrow> (m', key', d) \<in> set fl \<and> (settled(c \<mapsto> out)) d = None" for m' key' d
  proof (cases "d = c")
    case True
    have "(calls((m, key) := None)) (m', key') \<noteq> Some d"
    proof
      assume "(calls((m, key) := None)) (m', key') = Some d"
      then have ne: "(m', key') \<noteq> (m, key)" and "calls (m', key') = Some d" by (auto split: if_split_asm)
      then have "(m', key', c) \<in> set fl" using flightInvD(3)[OF ok] True by simp
      then show False using flight_unique[OF ok mem] ne by simp
    qed
    then show ?thesis using True by simp
  next
    case False
    then have "(m', key') \<noteq> (m, key)" if "calls (m', key') = Some d" using that mk by auto
    then show ?thesis using False flightInvD(3)[OF ok, of m' key' d] mk by auto
  qed
  show "(m', cl_primary l, d) \<in> set fl" if "TFollow m' r l d \<in> ts" "(settled(c \<mapsto> out)) d = None" for m' r l d
    using flightInvD(4)[OF ok that(1)] that(2) by (simp split: if_split_asm)
  show "d < n" if "(settled(c \<mapsto> out)) d = Some out'" for d out'
    using that flightInvD(5)[OF ok] flightInvD(2)[OF ok mem] by (simp split: if_split_asm)
qed (rule flightInvD(1)[OF ok], rule flightInvD(2)[OF ok])

lemma flightInv_end:
  assumes ok: "flightInv (xs @ (m, key, c) # ys) ts calls settled n" and c: "settled c \<noteq> None" and "ts' \<subseteq> ts"
  shows "flightInv (xs @ ys) ts' calls settled n"
proof (rule flightInvI)
  show "distinct (map (snd \<circ> snd) (xs @ ys))" using flightInvD(1)[OF ok] by auto
  show "d < n" if "(m', key', d) \<in> set (xs @ ys)" for m' key' d using flightInvD(2)[OF ok, of m' key' d] that by auto
  show "calls (m', key') = Some d \<longleftrightarrow> (m', key', d) \<in> set (xs @ ys) \<and> settled d = None" for m' key' d
    using flightInvD(3)[OF ok, of m' key' d] c by auto
  show "(m', cl_primary l, d) \<in> set (xs @ ys)" if "TFollow m' r l d \<in> ts'" "settled d = None" for m' r l d
  proof -
    have "TFollow m' r l d \<in> ts" using that(1) assms(3) by blast
    from flightInvD(4)[OF ok this that(2)] show ?thesis using that(2) c by auto
  qed
qed (rule flightInvD(5)[OF ok])

lemma flightInv_drop: "flightInv fl ts calls settled n \<Longrightarrow> ts' \<subseteq> ts \<Longrightarrow> flightInv fl ts' calls settled n"
  unfolding flightInv_def by blast

lemma flightInv_open:
  assumes ok: "flightInv fl ts calls settled n" and free: "calls (m, key) = None"
  shows "flightInv ((m, key, n) # fl) ts (calls((m, key) \<mapsto> n)) settled (Suc n)"
proof (rule flightInvI)
  have fresh: "n \<notin> (snd \<circ> snd) ` set fl" using flightInvD(2)[OF ok] by force
  have new: "settled n = None" using flightInvD(5)[OF ok, of n] by (cases "settled n") auto
  show "distinct (map (snd \<circ> snd) ((m, key, n) # fl))" using fresh flightInvD(1)[OF ok] by simp
  show "d < Suc n" if "(m', key', d) \<in> set ((m, key, n) # fl)" for m' key' d using flightInvD(2)[OF ok, of m' key' d] that by auto
  show "(calls((m, key) \<mapsto> n)) (m', key') = Some d \<longleftrightarrow> (m', key', d) \<in> set ((m, key, n) # fl) \<and> settled d = None" for m' key' d
    using flightInvD(3)[OF ok, of m' key' d] free new by auto
  show "(m', cl_primary l, d) \<in> set ((m, key, n) # fl)" if "TFollow m' r l d \<in> ts" "settled d = None" for m' r l d
    using flightInvD(4)[OF ok that] by simp
  show "d < Suc n" if "settled d = Some out" for d out using flightInvD(5)[OF ok that] by simp
qed

lemma flightInv_follow:
  assumes "flightInv fl ts calls settled n" and "calls (m, cl_primary l) = Some c"
  shows "flightInv fl (insert (TFollow m r l c) ts) calls settled n"
  using assms unfolding flightInv_def by auto

lemma flightInv_insert:
  "flightInv fl ts calls settled n \<Longrightarrow> (\<forall>m r l c. t \<noteq> TFollow m r l c) \<Longrightarrow> flightInv fl (insert t ts) calls settled n"
  unfolding flightInv_def by auto

lemma flightOk_cong:
  "cs_tasks st' = cs_tasks st \<Longrightarrow> cs_calls st' = cs_calls st \<Longrightarrow> cs_settled st' = cs_settled st \<Longrightarrow> cs_nextCall st' = cs_nextCall st \<Longrightarrow>
   flightOk st' = flightOk st"
  by (simp add: flightOk_def flights_def)

lemma flightOk_settle:
  assumes ok: "flightOk st" and t: "t \<in> set (cs_tasks st)" "flightOf t = Some (m, key, c)"
  shows "flightOk (settle m key c out st) \<and> cs_settled (settle m key c out st) c \<noteq> None \<and> cs_tasks (settle m key c out st) = cs_tasks st"
proof (cases "cs_settled st c")
  case None
  have mem: "(m, key, c) \<in> set (flights st)" using flights_split[OF t] by (auto simp: flights_def)
  then have "cs_calls st (m, key) = Some c" using ok None by (simp add: flightOk_def flightInv_def)
  then show ?thesis using flightInv_settle[OF ok[unfolded flightOk_def] mem None, of out] None
    by (simp add: settle_def flightOk_def flights_def)
qed (use ok in \<open>simp add: settle_def\<close>)

lemma flightOk_endTask:
  assumes ok: "flightOk st" and t: "t \<in> set (cs_tasks st)" and "\<And>m key c. flightOf t = Some (m, key, c) \<Longrightarrow> cs_settled st c \<noteq> None"
  shows "flightOk (endTask t st)"
proof (cases "flightOf t")
  case None
  then show ?thesis using flightInv_drop[OF ok[unfolded flightOk_def] set_remove1_subset]
    by (simp add: flightOk_def flights_def endTask_def map_filter_remove1)
next
  case (Some f)
  obtain m key c where f: "f = (m, key, c)" by (cases f)
  obtain xs ys where fl: "flights st = xs @ (m, key, c) # ys" "flights (endTask t st) = xs @ ys"
    using flights_split[OF t Some] f by (auto simp: flights_def endTask_def)
  have "flightInv (xs @ ys) (set (remove1 t (cs_tasks st))) (cs_calls st) (cs_settled st) (cs_nextCall st)"
    using flightInv_end[OF _ _ set_remove1_subset] ok fl(1) assms(3) Some f by (simp add: flightOk_def)
  then show ?thesis using fl(2) by (simp add: flightOk_def) (simp add: endTask_def)
qed

lemma flightOk_fetch: "flightOk st \<Longrightarrow> flightOk (fetch m r l st)"
  using flightInv_follow[of "flights st" "set (cs_tasks st)" "cs_calls st" "cs_settled st" "cs_nextCall st" m l _ r]
    flightInv_insert[OF flightInv_open[of "flights st" "set (cs_tasks st)" "cs_calls st" "cs_settled st" "cs_nextCall st" m "cl_primary l"], of "TLead m r l (cs_nextCall st)"]
  by (auto simp: fetch_def join_def addTask_def flightOk_def flights_def map_filter_simps split: option.split)

lemma flightOk_revalidate: "flightOk st \<Longrightarrow> flightOk (revalidate m r l e st)"
  using flightInv_insert[OF flightInv_open[of "flights st" "set (cs_tasks st)" "cs_calls st" "cs_settled st" "cs_nextCall st" m "cl_primary l"], of "TRevalidate m r l e (cs_nextCall st)"]
  by (auto simp: revalidate_def join_def addTask_def flightOk_def flights_def map_filter_simps split: option.split)

lemma flightOk_frame [simp]:
  "flightOk (st\<lparr>cs_store := s\<rparr>) = flightOk st" "flightOk (st\<lparr>cs_replies := rs\<rparr>) = flightOk st"
  by (simp_all add: flightOk_def flights_def)

lemma forwarded_frame:
  assumes "forwarded ops digest pf cfg m client r l acts now st = (out, status, st')"
  shows "cs_tasks st' = cs_tasks st" "cs_calls st' = cs_calls st" "cs_settled st' = cs_settled st" "cs_nextCall st' = cs_nextCall st"
  using assms by (auto simp: forwarded_def split: prod.split_asm)

lemma flightOk_forwarded: "forwarded ops digest pf cfg m client r l acts now st = (out, status, st') \<Longrightarrow> flightOk st' = flightOk st"
  by (intro flightOk_cong forwarded_frame)

lemma flightOk_revalidated:
  assumes ok: "flightOk st" and t: "TRevalidate m r l stored c \<in> set (cs_tasks st)"
    and st'_def: "st' = revalidated ops digest pf cfg m r l stored c acts now st"
  shows "flightOk st' \<and> cs_settled st' c \<noteq> None \<and> cs_tasks st' = cs_tasks st"
proof -
  obtain out status st1 where fw: "forwarded ops digest pf cfg m r (backgroundRequest stored r) l acts now st = (out, status, st1)"
    using prod_cases3 by blast
  have ok1: "flightOk st1" and t1: "TRevalidate m r l stored c \<in> set (cs_tasks st1)" "cs_tasks st1 = cs_tasks st"
    using flightOk_forwarded[OF fw] forwarded_frame[OF fw] ok t by auto
  have "flightOk (settle m (cl_primary l) c o' (st1\<lparr>cs_store := s\<rparr>)) \<and> cs_settled (settle m (cl_primary l) c o' (st1\<lparr>cs_store := s\<rparr>)) c \<noteq> None
      \<and> cs_tasks (settle m (cl_primary l) c o' (st1\<lparr>cs_store := s\<rparr>)) = cs_tasks st" for o' s
    using flightOk_settle[of "st1\<lparr>cs_store := s\<rparr>" "TRevalidate m r l stored c" m "cl_primary l" c o'] ok1 t1
    by simp
  from this[of _ "cs_store st1"] this show ?thesis
    unfolding st'_def revalidated_def fw by (simp add: Let_def)
qed

lemma flightOk_step:
  assumes "cacheStep ops digest pf cfg st st'" and ok: "flightOk st"
  shows "flightOk st'"
  using assms(1)
proof (cases rule: cacheStep.cases)
  case (arrive m r t1 t2 now d s')
  have "flightOk (arrived m r now d (st\<lparr>cs_store := s'\<rparr>))"
    using ok by (auto simp: arrived_def reply_def split: cacheDecision.split intro!: flightOk_fetch flightOk_revalidate)
  then show ?thesis using arrive by simp
next
  case (unstorable m r l c)
  then show ?thesis using flightOk_settle[OF ok unstorable(2)] by simp
next
  case (lead m r l c acts now out status st1)
  have "flightOk st1" "TLead m r l c \<in> set (cs_tasks st1)"
    using ok flightOk_forwarded[OF lead(3)] forwarded_frame[OF lead(3)] lead(2) by auto
  from flightOk_settle[OF this, of m "cl_primary l" c out] show ?thesis
    unfolding lead(1) using \<open>TLead m r l c \<in> set (cs_tasks st1)\<close> by (intro flightOk_endTask) auto
next
  case (follow m r l c e now)
  have "flightOk (reply m r e Coalesced now st)" using ok by (simp add: reply_def flightOk_def flights_def)
  then show ?thesis unfolding follow(1) by (rule flightOk_endTask) (use follow(2) in \<open>auto simp: reply_def\<close>)
next
  case (unshared m r l c out)
  have "flightOk (endTask (TFollow m r l c) st)" by (rule flightOk_endTask[OF ok unshared(2)]) simp
  then show ?thesis unfolding unshared(1)
    using flightInv_insert[where t = "TPlain m r l"] by (simp add: flightOk_def flights_addTask) (simp add: addTask_def)
next
  case (abandon m r l c)
  then show ?thesis using flightOk_endTask[OF ok abandon(2)] by simp
next
  case (plain m r l acts now out status st1)
  have "flightOk st1" "TPlain m r l \<in> set (cs_tasks st1)"
    using ok flightOk_forwarded[OF plain(3)] forwarded_frame[OF plain(3)] plain(2) by auto
  then show ?thesis unfolding plain(1) by (rule flightOk_endTask) simp
next
  case (background m r l stored c acts now)
  note rv = flightOk_revalidated[OF ok background(2) refl, of ops digest pf cfg acts now]
  show ?thesis unfolding background(1) using rv background(2) by (intro flightOk_endTask) auto
next
  case (purge svc pre)
  then show ?thesis using ok by (simp add: flightOk_def flights_def)
qed

lemma flightOk_run:
  "rtranclp (cacheStep ops digest pf cfg) (cacheInit s) st \<Longrightarrow> flightOk st"
proof (induction rule: rtranclp_induct)
  case base
  then show ?case by (simp add: flightOk_def flightInv_def flights_def cacheInit_def map_filter_simps)
qed (rule flightOk_step)

lemma flights_task: "f \<in> set (flights st) \<Longrightarrow> \<exists>t \<in> set (cs_tasks st). flightOf t = Some f"
  by (auto simp: flights_def List.map_filter_def)

text \<open>C22: Concurrent misses are coalesced and nobody is left waiting. In every reachable state of the cache, two fetches
  of the same resource by the same service that can still be joined are the same fetch; and a request waiting
  behind a call can go on at once, or the fetch it waits for is in progress and its completion settles the call.\<close>

theorem single_flight:
  assumes "rtranclp (cacheStep ops digest pf cfg) (cacheInit s) st"
  shows "(\<forall>m key c c'. (m, key, c) \<in> set (flights st) \<and> (m, key, c') \<in> set (flights st)
            \<and> cs_settled st c = None \<and> cs_settled st c' = None \<longrightarrow> c = c')
    \<and> distinct (map (snd \<circ> snd) (flights st))
    \<and> (\<forall>m r l c. TFollow m r l c \<in> set (cs_tasks st) \<longrightarrow>
          cs_settled st c \<noteq> None \<or> (\<exists>st'. cacheStep ops digest pf cfg st st' \<and> cs_settled st' c \<noteq> None))"
proof (intro conjI allI impI)
  have ok: "flightOk st" by (rule flightOk_run[OF assms])
  note inv = flightInvD[OF ok[unfolded flightOk_def]]
  show "distinct (map (snd \<circ> snd) (flights st))" by (rule inv(1))
  show "c = c'" if "(m, key, c) \<in> set (flights st) \<and> (m, key, c') \<in> set (flights st) \<and> cs_settled st c = None \<and> cs_settled st c' = None" for m key c c'
    using that inv(3)[of m key c] inv(3)[of m key c'] by simp
  fix m r l c
  assume "TFollow m r l c \<in> set (cs_tasks st)"
  then consider "cs_settled st c \<noteq> None" | t where "t \<in> set (cs_tasks st)" "flightOf t = Some (m, cl_primary l, c)"
    using inv(4) flights_task by blast
  then show "cs_settled st c \<noteq> None \<or> (\<exists>st'. cacheStep ops digest pf cfg st st' \<and> cs_settled st' c \<noteq> None)"
  proof cases
    case (2 t)
    show ?thesis
    proof (cases t)
      case (TLead m' r' l' c')
      then show ?thesis using cacheStep.unstorable[of m' r' l' c' st ops digest pf cfg] 2 flightOk_settle[OF ok 2, of None] by auto
    next
      case (TRevalidate m' r' l' e' c')
      then have "cs_settled (endTask t (revalidated ops digest pf cfg m' r' l' e' c' [] 0 st)) c \<noteq> None"
        using flightOk_revalidated[OF ok, of m' r' l' e' c' _ ops digest pf cfg "[]" 0] 2 by (simp add: endTask_def)
      then show ?thesis using cacheStep.background[of m' r' l' e' c' st ops digest pf cfg "[]" 0] 2 TRevalidate by auto
    qed (use 2 in auto)
  qed simp
qed

theorem single_flight_witness:
  "distinct (map (snd \<circ> snd) (flights (runArrive ''wget'' 0 (runArrive ''curl'' 0 runStart))))
   \<and> cs_tasks (runArrive ''wget'' 0 (runArrive ''curl'' 0 runStart))
       = [TFollow 0 (cacheSampleRequest ''wget'') runLookup 0, TLead 0 (cacheSampleRequest ''curl'') runLookup 0]"
proof -
  let ?st = "runArrive ''wget'' 0 (runArrive ''curl'' 0 runStart)"
  have run: "rtranclp (cacheStep memoryOps runDigest (\<lambda>_. None) runConfig) (cacheInit (newMemoryCacheStore 100000)) ?st"
    unfolding runStart_def[symmetric] 
    by (rule rtranclp.rtrancl_into_rtrancl, rule r_into_rtranclp) (rule runArrive_step)+
  moreover have "cs_tasks ?st = [TFollow 0 (cacheSampleRequest ''wget'') runLookup 0, TLead 0 (cacheSampleRequest ''curl'') runLookup 0]"
    by code_simp
  ultimately show ?thesis using conjunct1[OF conjunct2[OF single_flight[OF run]]] by blast
qed

end
