(* ===== verification/Domain_Zones.thy ===== *)
theory Domain_Zones
  imports Go_Base "HOL-Library.AList" "HOL-Library.List_Lexorder" "HOL-Library.Char_ord"
begin

text \<open>
  Which identifiers an ACME order names and who answers its challenge: the provider mapping of \<open>acme/mapping.go\<close>, the grouping
  of \<open>domain_group.go\<close>, the partitions of \<open>san_cert_zones.go\<close>, the wildcards of \<open>dynamic_wildcard.go\<close> and
  \<open>san_cert_issuance.go\<close>. The public suffix list is the parameter \<open>etld1\<close>; a DNS-01 client is a value of the type \<open>'o\<close>.
  Maps the code only walks to find a longest or to fill another map are association lists.
\<close>

section \<open>Names\<close>

definition normalizeDomainName :: "string \<Rightarrow> string" where
  "normalizeDomainName domain = toLower (trimSuffix (trimSpace domain) ''.'')"

definition normalizeZone :: "string \<Rightarrow> string" where
  "normalizeZone zone = trimSuffix (trimPrefix (toLower (trimSpace zone)) ''*.'') ''.''"

definition isWildcard :: "string \<Rightarrow> bool" where
  "isWildcard domain = hasPrefix domain ''*.''"

definition wildcardParent :: "string \<Rightarrow> string option" where
  "wildcardParent domain = (case indexOf domain ''.'' of
     None \<Rightarrow> None
   | Some dot \<Rightarrow> if dot = 0 \<or> dot = length domain - 1 then None else Some (''*.'' @ drop (dot + 1) domain))"

definition matchesWildcard :: "string \<Rightarrow> string \<Rightarrow> bool" where
  "matchesWildcard pattern domain \<longleftrightarrow> isWildcard pattern \<and> wildcardParent domain = Some pattern"

definition identifiersCover :: "string list \<Rightarrow> string \<Rightarrow> bool" where
  "identifiersCover identifiers domain \<longleftrightarrow> list_ex (\<lambda>i. i = domain \<or> matchesWildcard i domain) identifiers"

definition containsWildcard :: "string list \<Rightarrow> bool" where
  "containsWildcard domains \<longleftrightarrow> list_ex isWildcard domains"

definition zoneContains :: "string \<Rightarrow> string \<Rightarrow> bool" where
  "zoneContains zone domain \<longleftrightarrow> (let candidate = normalizeDomainName domain in candidate = zone \<or> hasSuffix candidate (''.'' @ zone))"

section \<open>Providers\<close>

record providerSelection =
  ps_default :: string
  ps_zones :: "(string \<times> string) list"

datatype providerError = ProviderNotSupported | MultipleDefaults | EmptyZone | AutoMapped | NoneMapped | DuplicateZone

definition providerAliases :: "(string \<times> string) list" where
  "providerAliases = [(''cloudflare'', ''cloudflare''), (''cf'', ''cloudflare''), (''route53'', ''route53''), (''aws'', ''route53''), (''r53'', ''route53''),
     (''digitalocean'', ''digitalocean''), (''do'', ''digitalocean''), (''gcloud'', ''gcloud''), (''google'', ''gcloud''), (''gcp'', ''gcloud''),
     (''googledns'', ''gcloud''), (''namecheap'', ''namecheap''), (''nc'', ''namecheap''), (''godaddy'', ''godaddy''), (''gd'', ''godaddy''),
     (''hetzner'', ''hetzner''), (''hz'', ''hetzner''), (''vultr'', ''vultr''), (''vr'', ''vultr''), (''auto'', ''auto''), ('''', ''''), (''none'', '''')]"

definition parseProviderName :: "string \<Rightarrow> providerError + string" where
  "parseProviderName s = (case map_of providerAliases (toLower s) of None \<Rightarrow> Inl ProviderNotSupported | Some p \<Rightarrow> Inr p)"

definition hasZones :: "providerSelection \<Rightarrow> bool" where
  "hasZones sel \<longleftrightarrow> ps_zones sel \<noteq> []"

definition betterZone :: "string \<Rightarrow> string \<times> string \<Rightarrow> string \<times> string \<Rightarrow> string \<times> string" where
  "betterZone candidate = (\<lambda>(zone, provider) (bestZone, best).
     if candidate \<noteq> zone \<and> \<not> hasSuffix candidate (''.'' @ zone) then (bestZone, best)
     else if length bestZone < length zone then (zone, provider) else (bestZone, best))"

definition providerFor :: "providerSelection \<Rightarrow> string \<Rightarrow> string \<times> string" where
  "providerFor sel domain = (case fold (betterZone (normalizeZone domain)) (ps_zones sel) ([], []) of
     (bestZone, best) \<Rightarrow> if bestZone \<noteq> [] then (best, bestZone) else (ps_default sel, []))"

fun parseProviderEntriesFrom :: "bool \<Rightarrow> providerSelection \<Rightarrow> string list \<Rightarrow> providerError + providerSelection" where
  "parseProviderEntriesFrom haveDefault sel [] = Inr sel"
| "parseProviderEntriesFrom haveDefault sel (entry0 # entries) =
     (let entry = trimSpace entry0
      in if entry = [] then parseProviderEntriesFrom haveDefault sel entries
         else case cut entry ''='' of (zone0, value, mapped) \<Rightarrow>
           if \<not> mapped then
             (case parseProviderName entry of
                Inl e \<Rightarrow> Inl e
              | Inr name \<Rightarrow> if haveDefault then Inl MultipleDefaults else parseProviderEntriesFrom True (sel\<lparr>ps_default := name\<rparr>) entries)
           else
             (let zone = normalizeZone zone0
              in if zone = [] then Inl EmptyZone
                 else case parseProviderName value of
                        Inl e \<Rightarrow> Inl e
                      | Inr name \<Rightarrow>
                          if name = ''auto'' then Inl AutoMapped else if name = [] then Inl NoneMapped
                          else if zone \<in> fst ` set (ps_zones sel) then Inl DuplicateZone
                          else parseProviderEntriesFrom haveDefault (sel\<lparr>ps_zones := ps_zones sel @ [(zone, name)]\<rparr>) entries))"

definition parseProviderEntries :: "string list \<Rightarrow> providerError + providerSelection" where
  "parseProviderEntries entries = parseProviderEntriesFrom False \<lparr>ps_default = [], ps_zones = []\<rparr> entries"

text \<open>The DNS-01 clients of one ACME identity.\<close>

record 'o dnsClients =
  dc_selection :: providerSelection
  dc_obtainer :: "'o option"
  dc_obtainers :: "(string \<times> 'o) list"

definition resolveObtainerFrom :: "'o dnsClients \<Rightarrow> string \<Rightarrow> 'o option \<times> string" where
  "resolveObtainerFrom dc domain = (case providerFor (dc_selection dc) domain of
     (provider, zone) \<Rightarrow> if zone \<noteq> [] then (map_of (dc_obtainers dc) provider, ''zone:'' @ provider) else (dc_obtainer dc, []))"

datatype orderError = SpansProviders | OutsideWildcardZone string | NeedsDNSProvider | ObtainersNotReady

definition orderObtainerFrom :: "'o dnsClients \<Rightarrow> string list \<Rightarrow> orderError + 'o option" where
  "orderObtainerFrom dc domains = (case domains of
     [] \<Rightarrow> Inr None
   | d # ds \<Rightarrow> (case resolveObtainerFrom dc d of (obtainer, key) \<Rightarrow>
       if list_ex (\<lambda>x. snd (resolveObtainerFrom dc x) \<noteq> key) ds then Inl SpansProviders else Inr obtainer))"

definition hasDNSProviderFor :: "'o dnsClients \<Rightarrow> string \<Rightarrow> bool" where
  "hasDNSProviderFor dc domain \<longleftrightarrow> (case orderObtainerFrom dc [domain] of Inr (Some _) \<Rightarrow> True | _ \<Rightarrow> False)"

definition providerPartitionKey :: "'o dnsClients \<Rightarrow> string \<Rightarrow> string" where
  "providerPartitionKey dc domain = (case providerFor (dc_selection dc) domain of (provider, zone) \<Rightarrow> if zone = [] then [] else ''zone:'' @ provider)"

section \<open>Partitions of an order\<close>

record wildcardAnchor =
  wa_zone :: string
  wa_providerKey :: string
  wa_key :: string
  wa_solvable :: bool

definition anchorFor :: "'o dnsClients \<Rightarrow> string \<Rightarrow> wildcardAnchor" where
  "anchorFor dc domain =
     (let zone = normalizeDomainName (drop 2 domain); pk = providerPartitionKey dc domain
      in if hasDNSProviderFor dc domain then \<lparr>wa_zone = zone, wa_providerKey = pk, wa_key = ''wildcard:'' @ zone @ ''|'' @ pk, wa_solvable = True\<rparr>
         else \<lparr>wa_zone = zone, wa_providerKey = pk, wa_key = ''unsolvable-wildcard:'' @ zone, wa_solvable = False\<rparr>)"

definition addAnchor :: "'o dnsClients \<Rightarrow> string \<Rightarrow> wildcardAnchor list \<Rightarrow> wildcardAnchor list" where
  "addAnchor dc domain anchors =
     (if \<not> isWildcard domain \<or> normalizeDomainName (drop 2 domain) \<in> wa_zone ` set anchors then anchors else anchors @ [anchorFor dc domain])"

definition wildcardAnchors :: "'o dnsClients \<Rightarrow> string list \<Rightarrow> wildcardAnchor list" where
  "wildcardAnchors dc domains = sort_key (\<lambda>a. - int (length (wa_zone a))) (fold (addAnchor dc) domains [])"

definition solvabilityPartitionKey :: "'o dnsClients \<Rightarrow> wildcardAnchor list \<Rightarrow> string \<Rightarrow> string" where
  "solvabilityPartitionKey dc anchors domain =
     (let pk = providerPartitionKey dc domain;
          concrete = (case find (\<lambda>a. wa_solvable a \<and> wa_providerKey a = pk \<and> zoneContains (wa_zone a) domain) anchors of
                        Some a \<Rightarrow> wa_key a | None \<Rightarrow> pk)
      in if isWildcard domain then (case find (\<lambda>a. wa_zone a = normalizeDomainName (drop 2 domain)) anchors of Some a \<Rightarrow> wa_key a | None \<Rightarrow> concrete)
         else concrete)"

text \<open>Keys in the order of their first appearance.\<close>

definition firstKeys :: "('a \<Rightarrow> 'k) \<Rightarrow> 'a list \<Rightarrow> 'k list" where
  "firstKeys key xs = rev (remdups (rev (map key xs)))"

definition splitByProviderZone :: "'o dnsClients \<Rightarrow> string list \<Rightarrow> string list list" where
  "splitByProviderZone dc domains =
     (let anchors = wildcardAnchors dc domains; key = solvabilityPartitionKey dc anchors
      in if \<not> hasZones (dc_selection dc) \<and> anchors = [] then [domains]
         else map (\<lambda>k. filter (\<lambda>d. key d = k) domains) (firstKeys key domains))"

definition outsideWildcardZones :: "string list \<Rightarrow> string" where
  "outsideWildcardZones domains =
     (let zones = map (\<lambda>d. normalizeDomainName (drop 2 d)) (filter isWildcard domains)
      in case find (\<lambda>d. \<not> isWildcard d \<and> \<not> list_ex (\<lambda>z. zoneContains z d) zones) domains of Some d \<Rightarrow> d | None \<Rightarrow> [])"

section \<open>Planning identifiers\<close>

definition mappedZoneWildcard :: "'o dnsClients \<Rightarrow> string \<Rightarrow> string option" where
  "mappedZoneWildcard dc domain =
     (if isWildcard domain then None
      else case providerFor (dc_selection dc) domain of (_, zone) \<Rightarrow>
        let name = normalizeDomainName domain; label = take (length name - length zone - 1) name
        in if zone = [] \<or> \<not> hasSuffix name (''.'' @ zone) \<or> label = [] \<or> containsStr label ''.'' then None
           else if hasDNSProviderFor dc (''*.'' @ zone) then Some (''*.'' @ zone) else None)"

definition planDynamicIdentifier :: "'o dnsClients \<Rightarrow> bool \<Rightarrow> (string \<Rightarrow> bool) \<Rightarrow> string \<Rightarrow> string" where
  "planDynamicIdentifier dc prefer held domain =
     (if \<not> prefer then domain
      else case mappedZoneWildcard dc domain of Some w \<Rightarrow> if held w then domain else w | None \<Rightarrow> domain)"

definition planDynamicIssuance :: "'o dnsClients \<Rightarrow> bool \<Rightarrow> (string \<Rightarrow> bool) \<Rightarrow> string list \<Rightarrow> string list" where
  "planDynamicIssuance dc prefer held domains = firstKeys (planDynamicIdentifier dc prefer held) domains"

datatype certStrategy = StrategyWildcard | StrategySAN | StrategyIndividual

record domainGroup =
  dg_rootDomain :: string
  dg_subdomains :: "string list"
  dg_fullDomains :: "string list"
  dg_includesApex :: bool
  dg_strategy :: certStrategy
  dg_wildcardDomain :: string

definition emptyGroup :: "string \<Rightarrow> domainGroup" where
  "emptyGroup root = \<lparr>dg_rootDomain = root, dg_subdomains = [], dg_fullDomains = [], dg_includesApex = False, dg_strategy = StrategyWildcard, dg_wildcardDomain = []\<rparr>"

definition updateGroup :: "string \<Rightarrow> (domainGroup \<Rightarrow> domainGroup) \<Rightarrow> (string \<times> domainGroup) list \<Rightarrow> (string \<times> domainGroup) list" where
  "updateGroup root f groups = AList.update root (f (case map_of groups root of Some g \<Rightarrow> g | None \<Rightarrow> emptyGroup root)) groups"

definition rootOf :: "(string \<Rightarrow> string option) \<Rightarrow> string \<Rightarrow> string" where
  "rootOf etld1 domain = (if isWildcard domain then drop 2 domain else case etld1 domain of Some r \<Rightarrow> r | None \<Rightarrow> domain)"

definition joinGroup :: "string \<Rightarrow> string \<Rightarrow> domainGroup \<Rightarrow> domainGroup" where
  "joinGroup root domain g =
     (if isWildcard domain then g\<lparr>dg_strategy := StrategyWildcard, dg_wildcardDomain := domain\<rparr>
      else let g' = g\<lparr>dg_fullDomains := dg_fullDomains g @ [domain]\<rparr>
           in if domain = root then g'\<lparr>dg_includesApex := True\<rparr>
              else g'\<lparr>dg_subdomains := dg_subdomains g' @ [trimSuffix domain (''.'' @ root)]\<rparr>)"

definition groupDomain :: "(string \<Rightarrow> string option) \<Rightarrow> string \<Rightarrow> (string \<times> domainGroup) list \<Rightarrow> (string \<times> domainGroup) list" where
  "groupDomain etld1 domain groups = (let root = rootOf etld1 domain in updateGroup root (joinGroup root domain) groups)"

record domainGrouper =
  gr_minSubdomainsForWildcard :: nat
  gr_preferWildcard :: bool
  gr_dnsProviderAvailable :: bool

definition determineStrategy :: "domainGrouper \<Rightarrow> domainGroup \<Rightarrow> domainGroup" where
  "determineStrategy gr g =
     (if dg_wildcardDomain g \<noteq> [] then g\<lparr>dg_strategy := StrategyWildcard\<rparr>
      else if gr_dnsProviderAvailable gr \<and> gr_preferWildcard gr \<and> list_all (\<lambda>s. \<not> containsStr s ''.'') (dg_subdomains g)
              \<and> gr_minSubdomainsForWildcard gr \<le> length (dg_subdomains g)
      then g\<lparr>dg_strategy := StrategyWildcard, dg_wildcardDomain := ''*.'' @ dg_rootDomain g\<rparr>
      else if 2 \<le> length (dg_fullDomains g) \<and> length (dg_fullDomains g) \<le> 100 then g\<lparr>dg_strategy := StrategySAN\<rparr>
      else g\<lparr>dg_strategy := StrategyIndividual\<rparr>)"

definition analyzeDomains :: "domainGrouper \<Rightarrow> (string \<Rightarrow> string option) \<Rightarrow> string list \<Rightarrow> domainGroup list" where
  "analyzeDomains gr etld1 domains = sort_key dg_rootDomain (map (\<lambda>(_, g). determineStrategy gr g) (fold (groupDomain etld1) domains []))"

definition getDomainsForCert :: "domainGroup \<Rightarrow> string list" where
  "getDomainsForCert g = (case dg_strategy g of
     StrategyWildcard \<Rightarrow> dg_wildcardDomain g # (if dg_includesApex g then [dg_rootDomain g] else [])
   | _ \<Rightarrow> dg_fullDomains g)"

definition planIssuanceDomains :: "'o dnsClients \<Rightarrow> domainGrouper \<Rightarrow> (string \<Rightarrow> string option) \<Rightarrow> string list \<Rightarrow> string list" where
  "planIssuanceDomains dc gr etld1 domains =
     (if dc_obtainer dc = None \<and> dc_obtainers dc = [] then domains
      else let planned = concat (map (\<lambda>g.
                 if dg_strategy g = StrategyWildcard \<and> dg_wildcardDomain g \<notin> set domains \<and> \<not> hasDNSProviderFor dc (dg_wildcardDomain g)
                 then dg_fullDomains g else getDomainsForCert g) (analyzeDomains gr etld1 domains))
           in if planned = [] then domains else planned)"

text \<open>\<open>obtainCertificateAt\<close>: who is asked for an order, first by DNS-01 and then over HTTP-01.\<close>

definition obtainCertificateAt :: "('o \<Rightarrow> string list \<Rightarrow> 'e + 'c) \<Rightarrow> 'o option \<Rightarrow> bool \<Rightarrow> 'o dnsClients \<Rightarrow> string list \<Rightarrow> orderError + 'e + 'c" where
  "obtainCertificateAt ask http httpFallback dc domains = (case orderObtainerFrom dc domains of
     Inl e \<Rightarrow> Inl e
   | Inr dns \<Rightarrow>
       if containsWildcard domains \<and> outsideWildcardZones domains \<noteq> [] then Inl (OutsideWildcardZone (outsideWildcardZones domains))
       else case dns of
              Some o1 \<Rightarrow>
                (case ask o1 domains of
                   Inr c \<Rightarrow> Inr (Inr c)
                 | Inl e \<Rightarrow> if containsWildcard domains \<or> \<not> httpFallback \<or> http = None then Inr (Inl e) else Inr (ask (the http) domains))
            | None \<Rightarrow> if containsWildcard domains then Inl NeedsDNSProvider
                      else case http of None \<Rightarrow> Inl ObtainersNotReady | Some o1 \<Rightarrow> Inr (ask o1 domains))"

section \<open>Partitions by key\<close>

lemma set_firstKeys [simp]: "set (firstKeys key xs) = key ` set xs"
  by (simp add: firstKeys_def)

lemma distinct_firstKeys [simp]: "distinct (firstKeys key xs)"
  by (simp add: firstKeys_def)

lemma mset_by_keys:
  assumes "distinct ks" and "key ` set xs \<subseteq> set ks"
  shows "mset (concat (map (\<lambda>k. filter (\<lambda>x. key x = k) xs) ks)) = mset xs"
  using assms
proof (induction ks arbitrary: xs)
  case (Cons k ks)
  let ?rest = "filter (\<lambda>x. key x \<noteq> k) xs"
  have same: "filter (\<lambda>x. key x = k') xs = filter (\<lambda>x. key x = k') ?rest" if "k' \<in> set ks" for k'
    using that Cons.prems(1) by (auto simp: filter_filter intro: filter_cong)
  have "mset (concat (map (\<lambda>k. filter (\<lambda>x. key x = k) xs) (k # ks)))
      = mset (filter (\<lambda>x. key x = k) xs) + mset (concat (map (\<lambda>k. filter (\<lambda>x. key x = k) ?rest) ks))"
    using same by (simp cong: map_cong)
  also have "mset (concat (map (\<lambda>k. filter (\<lambda>x. key x = k) ?rest) ks)) = mset ?rest"
    by (rule Cons.IH) (use Cons.prems in auto)
  also have "mset (filter (\<lambda>x. key x = k) xs) + mset ?rest = mset xs" by (simp add: multiset_partition[symmetric])
  finally show ?case .
qed simp

section \<open>Names without spaces\<close>

definition spaceFree :: "string \<Rightarrow> bool" where
  "spaceFree s \<longleftrightarrow> list_all (\<lambda>c. \<not> isSpace c) s"

lemma trimBy_none: "list_all (\<lambda>c. \<not> P c) s \<Longrightarrow> trimBy P s = s"
proof -
  assume "list_all (\<lambda>c. \<not> P c) s"
  then have "dropWhile P s = s" "dropWhile P (rev s) = rev s" by (auto simp: list_all_iff dropWhile_eq_self_iff last_rev hd_rev)
  then show ?thesis by (simp add: trimBy_def)
qed

lemma trimSpace_free: "spaceFree s \<Longrightarrow> trimSpace s = s"
  by (simp add: trimSpace_def spaceFree_def trimBy_none)

lemma lowerChar_dot: "lowerChar c = CHR ''.'' \<longleftrightarrow> c = CHR ''.''"
proof (cases "65 \<le> (of_char c :: nat) \<and> of_char c \<le> (90 :: nat)")
  case True
  then have "(of_char (lowerChar c) :: nat) = of_char c + 32" by (auto simp: lowerChar_def Let_def of_char_of)
  then have "(of_char (lowerChar c) :: nat) \<noteq> of_char CHR ''.''" "(of_char c :: nat) \<noteq> of_char CHR ''.''" using True by simp_all
  then show ?thesis by auto
qed (auto simp: lowerChar_def Let_def)

lemma trimSuffix_dot: "trimSuffix s ''.'' = (if s \<noteq> [] \<and> last s = CHR ''.'' then butlast s else s)"
  by (cases s rule: rev_cases) (auto simp: trimSuffix_def hasSuffix_iff)

lemma toLower_trimSuffix_dot: "toLower (trimSuffix s ''.'') = trimSuffix (toLower s) ''.''"
  by (cases s rule: rev_cases) (auto simp: trimSuffix_dot toLower_def lowerChar_dot)

lemma isWildcard_split: "isWildcard d \<Longrightarrow> d = ''*.'' @ drop 2 d"
  by (auto simp: isWildcard_def hasPrefix_iff)

lemma normalizeZone_wildcard:
  assumes "spaceFree d" and "isWildcard d"
  shows "normalizeZone d = normalizeDomainName (drop 2 d)"
proof -
  obtain s where d: "d = ''*.'' @ s" using isWildcard_split[OF assms(2)] by blast
  then have "spaceFree s" using assms(1) by (simp add: spaceFree_def)
  moreover have "toLower d = ''*.'' @ toLower s" unfolding d by (simp add: toLower_def) code_simp
  ultimately show ?thesis using trimSpace_free[OF assms(1)] d
    by (simp add: normalizeZone_def normalizeDomainName_def trimSpace_free toLower_trimSuffix_dot trimPrefix_def hasPrefix_iff)
qed

section \<open>Every partition is an order some solver can satisfy\<close>

lemma providerFor_zone:
  assumes "providerFor sel d = (p, z)" and "z \<noteq> []"
  shows "(z, p) \<in> set (ps_zones sel)" and "normalizeZone d = z \<or> hasSuffix (normalizeZone d) (''.'' @ z)"
proof -
  let ?P = "\<lambda>(b, q). b = [] \<or> (b, q) \<in> set (ps_zones sel) \<and> (normalizeZone d = b \<or> hasSuffix (normalizeZone d) (''.'' @ b))"
  have "?P (fold (betterZone (normalizeZone d)) (ps_zones sel) ([], []))"
    by (rule fold_invariant[where Q = "\<lambda>x. x \<in> set (ps_zones sel)"]) (auto simp: betterZone_def split: if_split_asm)
  then show "(z, p) \<in> set (ps_zones sel)" and "normalizeZone d = z \<or> hasSuffix (normalizeZone d) (''.'' @ z)"
    using assms by (auto simp: providerFor_def split: prod.split_asm if_split_asm)
qed

lemma providerAliases_plain: "list_all (\<lambda>(_, p). CHR ''|'' \<notin> set p) providerAliases"
  by code_simp

lemma parseProviderName_plain: "parseProviderName s = Inr p \<Longrightarrow> CHR ''|'' \<notin> set p"
  using providerAliases_plain by (auto simp: parseProviderName_def list_all_iff split: option.split_asm dest!: map_of_SomeD)

definition plainZones :: "providerSelection \<Rightarrow> bool" where
  "plainZones sel \<longleftrightarrow> (\<forall>(z, p) \<in> set (ps_zones sel). CHR ''|'' \<notin> set p)"

lemma plainZones_update [simp]:
  "plainZones (sel\<lparr>ps_default := d\<rparr>) = plainZones sel"
  "plainZones (sel\<lparr>ps_zones := ps_zones sel @ [(z, p)]\<rparr>) \<longleftrightarrow> plainZones sel \<and> CHR ''|'' \<notin> set p"
  by (auto simp: plainZones_def)

lemma parseProviderEntriesFrom_plain: "parseProviderEntriesFrom b sel0 es = Inr sel \<Longrightarrow> plainZones sel0 \<Longrightarrow> plainZones sel"
  by (induction b sel0 es rule: parseProviderEntriesFrom.induct)
     (auto simp: Let_def split: if_split_asm prod.split_asm sum.split_asm dest: parseProviderName_plain)

lemma parseProviderEntries_plain:
  assumes "parseProviderEntries entries = Inr sel" and "(z, p) \<in> set (ps_zones sel)"
  shows "CHR ''|'' \<notin> set p"
proof -
  have "plainZones sel" using parseProviderEntriesFrom_plain assms(1) by (auto simp: parseProviderEntries_def plainZones_def)
  then show ?thesis using assms(2) by (auto simp: plainZones_def)
qed

lemma providerPartitionKey_cases:
  assumes "parseProviderEntries entries = Inr (dc_selection dc)"
  shows "CHR ''|'' \<notin> set (providerPartitionKey dc d)" and "providerPartitionKey dc d = [] \<or> hd (providerPartitionKey dc d) = CHR ''z''"
proof -
  obtain p z where pz: "providerFor (dc_selection dc) d = (p, z)" by fastforce
  have "CHR ''|'' \<notin> set p" if "z \<noteq> []" using parseProviderEntries_plain[OF assms providerFor_zone(1)[OF pz that]] .
  then show "CHR ''|'' \<notin> set (providerPartitionKey dc d)" and "providerPartitionKey dc d = [] \<or> hd (providerPartitionKey dc d) = CHR ''z''"
    using pz by (auto simp: providerPartitionKey_def)
qed

lemma resolveObtainer_key: "snd (resolveObtainerFrom dc d) = providerPartitionKey dc d"
  by (simp add: resolveObtainerFrom_def providerPartitionKey_def split: prod.split)

lemma resolveObtainer_cong: "providerPartitionKey dc d = providerPartitionKey dc e \<Longrightarrow> resolveObtainerFrom dc d = resolveObtainerFrom dc e"
  by (auto simp: resolveObtainerFrom_def providerPartitionKey_def split: prod.split_asm if_split_asm)

lemma orderObtainer_same:
  assumes "\<And>x. x \<in> set ds \<Longrightarrow> providerPartitionKey dc x = pk" and "d \<in> set ds"
  shows "orderObtainerFrom dc ds = Inr (fst (resolveObtainerFrom dc d))"
proof (cases ds)
  case (Cons e es)
  have "resolveObtainerFrom dc e = resolveObtainerFrom dc d" using assms Cons by (intro resolveObtainer_cong) simp
  moreover have "\<not> list_ex (\<lambda>x. snd (resolveObtainerFrom dc x) \<noteq> snd (resolveObtainerFrom dc e)) es"
    using assms(1) Cons by (auto simp: list_ex_iff resolveObtainer_key)
  ultimately show ?thesis using Cons by (simp add: orderObtainerFrom_def case_prod_beta)
qed (use assms in simp)

lemma hasDNSProviderFor_resolve: "hasDNSProviderFor dc d \<longleftrightarrow> fst (resolveObtainerFrom dc d) \<noteq> None"
  by (auto simp: hasDNSProviderFor_def orderObtainerFrom_def split: prod.split option.split)

lemma anchor_fold:
  "set as \<subseteq> A \<Longrightarrow> (\<And>w. w \<in> set ds \<Longrightarrow> isWildcard w \<Longrightarrow> anchorFor dc w \<in> A) \<Longrightarrow> distinct (map wa_zone as) \<Longrightarrow>
     set (fold (addAnchor dc) ds as) \<subseteq> A \<and> distinct (map wa_zone (fold (addAnchor dc) ds as)) \<and> set as \<subseteq> set (fold (addAnchor dc) ds as)
     \<and> (\<forall>w \<in> set ds. isWildcard w \<longrightarrow> normalizeDomainName (drop 2 w) \<in> wa_zone ` set (fold (addAnchor dc) ds as))"
proof (induction ds arbitrary: as)
  case (Cons d ds)
  have z: "wa_zone (anchorFor dc d) = normalizeDomainName (drop 2 d)" by (simp add: anchorFor_def Let_def)
  have "set (addAnchor dc d as) \<subseteq> A" "distinct (map wa_zone (addAnchor dc d as))" using Cons.prems z by (auto simp: addAnchor_def)
  from Cons.IH[OF this(1) _ this(2)] Cons.prems(2)
  have *: "set (fold (addAnchor dc) ds (addAnchor dc d as)) \<subseteq> A" "distinct (map wa_zone (fold (addAnchor dc) ds (addAnchor dc d as)))"
    "set (addAnchor dc d as) \<subseteq> set (fold (addAnchor dc) ds (addAnchor dc d as))"
    "\<forall>w \<in> set ds. isWildcard w \<longrightarrow> normalizeDomainName (drop 2 w) \<in> wa_zone ` set (fold (addAnchor dc) ds (addAnchor dc d as))"
    by simp_all
  have "set as \<subseteq> set (addAnchor dc d as)" "isWildcard d \<Longrightarrow> normalizeDomainName (drop 2 d) \<in> wa_zone ` set (addAnchor dc d as)"
    using z by (auto simp: addAnchor_def)
  then show ?case using * by (auto simp: image_iff)
qed simp

lemma anchorFor_simps [simp]:
  "wa_zone (anchorFor dc w) = normalizeDomainName (drop 2 w)"
  "wa_providerKey (anchorFor dc w) = providerPartitionKey dc w"
  "wa_solvable (anchorFor dc w) = hasDNSProviderFor dc w"
  by (simp_all add: anchorFor_def Let_def)

lemma normalizeZone_determines:
  assumes "normalizeZone v = normalizeZone w"
  shows "providerPartitionKey dc v = providerPartitionKey dc w" and "hasDNSProviderFor dc v = hasDNSProviderFor dc w"
  using assms by (simp_all add: providerPartitionKey_def hasDNSProviderFor_resolve resolveObtainerFrom_def providerFor_def)

lemma anchorFor_cong:
  assumes "spaceFree v" "isWildcard v" "spaceFree w" "isWildcard w" and "normalizeDomainName (drop 2 v) = normalizeDomainName (drop 2 w)"
  shows "anchorFor dc v = anchorFor dc w"
proof -
  have "normalizeZone v = normalizeZone w" using assms by (simp add: normalizeZone_wildcard)
  from normalizeZone_determines[OF this, of dc] show ?thesis using assms(5) by (simp add: anchorFor_def Let_def)
qed

lemma wildcardAnchors_from: "a \<in> set (wildcardAnchors dc ds) \<Longrightarrow> \<exists>w \<in> set ds. isWildcard w \<and> a = anchorFor dc w"
  using anchor_fold[of "[]" "{anchorFor dc w | w. w \<in> set ds \<and> isWildcard w}" ds dc] by (auto simp: wildcardAnchors_def)

lemma wildcardAnchors_all: "w \<in> set ds \<Longrightarrow> isWildcard w \<Longrightarrow> \<exists>a \<in> set (wildcardAnchors dc ds). wa_zone a = normalizeDomainName (drop 2 w)"
  using anchor_fold[of "[]" UNIV ds dc] by (fastforce simp: wildcardAnchors_def image_iff)

lemma key_wildcard:
  assumes "\<forall>d \<in> set ds. spaceFree d" and "w \<in> set ds" "isWildcard w"
  shows "solvabilityPartitionKey dc (wildcardAnchors dc ds) w = wa_key (anchorFor dc w)"
proof -
  let ?same = "\<lambda>a. wa_zone a = normalizeDomainName (drop 2 w)"
  obtain a where a: "find ?same (wildcardAnchors dc ds) = Some a"
    using wildcardAnchors_all[OF assms(2,3), of dc] by (cases "find ?same (wildcardAnchors dc ds)") (auto simp: find_None_iff)
  then have "a \<in> set (wildcardAnchors dc ds)" and z: "?same a" by (auto simp: find_Some_iff)
  then obtain v where "v \<in> set ds" "isWildcard v" "a = anchorFor dc v" using wildcardAnchors_from by blast
  then have "a = anchorFor dc w" using anchorFor_cong[of v w dc] z assms by auto
  then show ?thesis using a assms(3) by (simp add: solvabilityPartitionKey_def Let_def)
qed

lemma key_concrete:
  assumes "\<not> isWildcard d"
  shows "solvabilityPartitionKey dc (wildcardAnchors dc ds) d = providerPartitionKey dc d \<or>
    (\<exists>w \<in> set ds. isWildcard w \<and> hasDNSProviderFor dc w \<and> providerPartitionKey dc w = providerPartitionKey dc d
       \<and> zoneContains (normalizeDomainName (drop 2 w)) d \<and> solvabilityPartitionKey dc (wildcardAnchors dc ds) d = wa_key (anchorFor dc w))"
proof -
  let ?in = "\<lambda>a. wa_solvable a \<and> wa_providerKey a = providerPartitionKey dc d \<and> zoneContains (wa_zone a) d"
  show ?thesis
  proof (cases "find ?in (wildcardAnchors dc ds)")
    case (Some a)
    then have "a \<in> set (wildcardAnchors dc ds)" and "?in a" by (auto simp: find_Some_iff)
    moreover from this obtain w where w: "w \<in> set ds" "isWildcard w" "a = anchorFor dc w" using wildcardAnchors_from by blast
    moreover have "solvabilityPartitionKey dc (wildcardAnchors dc ds) d = wa_key a" using Some assms by (simp add: solvabilityPartitionKey_def Let_def)
    ultimately show ?thesis by (intro disjI2 bexI[of _ w]) simp_all
  qed (use assms in \<open>simp add: solvabilityPartitionKey_def Let_def\<close>)
qed

lemma append_sep_eq:
  assumes "c \<notin> set ys" "c \<notin> set ys'"
  shows "xs @ c # ys = xs' @ c # ys' \<longleftrightarrow> xs = xs' \<and> ys = ys'"
proof (induction xs arbitrary: xs')
  case Nil
  then show ?case using assms by (cases xs') auto
next
  case (Cons x xs)
  show ?case
  proof (cases xs')
    case Nil
    then show ?thesis using assms by auto
  next
    case (Cons x' xs'')
    then show ?thesis using Cons.IH[of xs''] by simp
  qed
qed

lemma wa_key_inj:
  assumes "parseProviderEntries entries = Inr (dc_selection dc)" and "wa_key (anchorFor dc v) = wa_key (anchorFor dc w)"
  shows "normalizeDomainName (drop 2 v) = normalizeDomainName (drop 2 w) \<and> hasDNSProviderFor dc v = hasDNSProviderFor dc w"
  using assms(2) providerPartitionKey_cases(1)[OF assms(1)] by (auto simp: anchorFor_def Let_def append_sep_eq split: if_split_asm)

lemma wa_key_hd: "hd (wa_key (anchorFor dc w)) \<noteq> CHR ''z''" "wa_key (anchorFor dc w) \<noteq> []"
  by (simp_all add: anchorFor_def Let_def)

lemma wa_key_provider:
  assumes "parseProviderEntries entries = Inr (dc_selection dc)"
  shows "wa_key (anchorFor dc w) \<noteq> providerPartitionKey dc d"
  using wa_key_hd[of dc w] providerPartitionKey_cases(2)[OF assms, of d] by auto

lemma split_member:
  assumes free: "\<forall>d \<in> set ds. spaceFree d" and "x \<in> set ds" and k: "key = solvabilityPartitionKey dc (wildcardAnchors dc ds)"
  shows "(\<not> isWildcard x \<and> key x = providerPartitionKey dc x) \<or>
    (\<exists>w \<in> set ds. isWildcard w \<and> key x = wa_key (anchorFor dc w) \<and> providerPartitionKey dc w = providerPartitionKey dc x
       \<and> (isWildcard x \<or> hasDNSProviderFor dc w \<and> zoneContains (normalizeDomainName (drop 2 w)) x))"
proof (cases "isWildcard x")
  case True
  then show ?thesis using key_wildcard[OF free assms(2) True, of dc] assms(2) unfolding k by blast
next
  case False
  then show ?thesis using key_concrete[OF False, of dc ds] unfolding k by blast
qed

text \<open>What one order must satisfy for a solver to answer all of it.\<close>

definition coherentOrder :: "'o dnsClients \<Rightarrow> string list \<Rightarrow> bool" where
  "coherentOrder dc p \<longleftrightarrow>
     (\<forall>x \<in> set p. \<forall>y \<in> set p. providerPartitionKey dc x = providerPartitionKey dc y)
     \<and> (\<forall>v \<in> set p. \<forall>x \<in> set p. isWildcard v \<longrightarrow> \<not> isWildcard x \<longrightarrow>
          hasDNSProviderFor dc v \<and> zoneContains (normalizeDomainName (drop 2 v)) x)"

lemma split_coherent:
  assumes sel: "parseProviderEntries entries = Inr (dc_selection dc)" and free: "\<forall>d \<in> set ds. spaceFree d" and p: "p \<in> set (splitByProviderZone dc ds)"
  shows "coherentOrder dc p"
proof (cases "\<not> hasZones (dc_selection dc) \<and> wildcardAnchors dc ds = []")
  case True
  then have "p = ds" using p by (simp add: splitByProviderZone_def)
  moreover have "\<not> isWildcard w" if "w \<in> set ds" for w using wildcardAnchors_all[OF that, of dc] True by auto
  moreover have "providerPartitionKey dc x = []" for x using True by (simp add: providerPartitionKey_def providerFor_def hasZones_def)
  ultimately show ?thesis by (simp add: coherentOrder_def)
next
  case False
  define key where k: "key = solvabilityPartitionKey dc (wildcardAnchors dc ds)"
  obtain k0 where p0: "p = filter (\<lambda>d. key d = k0) ds" using p False by (auto simp: splitByProviderZone_def Let_def k)
  note member = split_member[OF free _ k] and inj = wa_key_inj[OF sel] and apart = wa_key_provider[OF sel]
  have sameZone: "providerPartitionKey dc v = providerPartitionKey dc w"
    if "v \<in> set ds" "isWildcard v" "w \<in> set ds" "isWildcard w" "wa_key (anchorFor dc v) = wa_key (anchorFor dc w)" for v w
    using inj[OF that(5)] that normalizeZone_determines(1) free by (metis normalizeZone_wildcard)
  have "providerPartitionKey dc x = providerPartitionKey dc y" if "x \<in> set p" "y \<in> set p" for x y
  proof -
    have "x \<in> set ds" "y \<in> set ds" "key x = key y" using that by (auto simp: p0)
    then show ?thesis using member[of x] member[of y] apart sameZone by metis
  qed
  moreover have "hasDNSProviderFor dc v \<and> zoneContains (normalizeDomainName (drop 2 v)) x"
    if vx: "v \<in> set p" "x \<in> set p" "isWildcard v" "\<not> isWildcard x" for v x
  proof -
    have kv: "key x = wa_key (anchorFor dc v)" using key_wildcard[OF free _ vx(3), of dc] vx(1,2) unfolding p0 k by auto
    then obtain w where "key x = wa_key (anchorFor dc w)" "hasDNSProviderFor dc w" "zoneContains (normalizeDomainName (drop 2 w)) x"
      using member[of x] vx(2,4) apart unfolding p0 by fastforce
    then show ?thesis using inj[of v w] kv by simp
  qed
  ultimately show ?thesis unfolding coherentOrder_def by blast
qed

lemma split_partitions: "mset (concat (splitByProviderZone dc ds)) = mset ds"
  by (simp add: splitByProviderZone_def Let_def mset_by_keys del: mset_concat)

lemma coherent_outside: "coherentOrder dc p \<Longrightarrow> containsWildcard p \<Longrightarrow> outsideWildcardZones p = []"
  by (auto simp: coherentOrder_def containsWildcard_def outsideWildcardZones_def list_ex_iff Let_def find_Some_iff dest!: nth_mem split: option.split)

lemma coherent_order_answered:
  assumes "coherentOrder dc p"
  shows "case obtainCertificateAt ask http fallback dc p of
           Inl SpansProviders \<Rightarrow> False
         | Inl (OutsideWildcardZone _) \<Rightarrow> False
         | Inl NeedsDNSProvider \<Rightarrow> \<forall>d \<in> set p. isWildcard d \<and> \<not> hasDNSProviderFor dc d
         | Inl ObtainersNotReady \<Rightarrow> http = None
         | Inr _ \<Rightarrow> True"
proof (cases p)
  case Nil
  then show ?thesis by (simp add: obtainCertificateAt_def orderObtainerFrom_def containsWildcard_def split: option.split)
next
  case (Cons d ds)
  have same: "providerPartitionKey dc x = providerPartitionKey dc d" if "x \<in> set p" for x
    using assms that Cons by (metis coherentOrder_def list.set_intros(1))
  have order: "orderObtainerFrom dc p = Inr (fst (resolveObtainerFrom dc x))" if "x \<in> set p" for x
    using orderObtainer_same[OF same that] by simp
  have "isWildcard x \<and> \<not> hasDNSProviderFor dc x" if "x \<in> set p" "containsWildcard p" "fst (resolveObtainerFrom dc d) = None" for x
  proof -
    have "\<not> hasDNSProviderFor dc y" if "y \<in> set p" for y
      using order[OF that] order[of d] Cons \<open>fst (resolveObtainerFrom dc d) = None\<close> by (simp add: hasDNSProviderFor_resolve)
    then show ?thesis using assms that by (auto simp: coherentOrder_def containsWildcard_def list_ex_iff)
  qed
  then show ?thesis using order[of d] Cons coherent_outside[OF assms]
    by (auto simp: obtainCertificateAt_def split: option.split sum.split)
qed

section \<open>What is ordered covers what was asked for\<close>

lemma containsStr_dot: "containsStr s ''.'' \<longleftrightarrow> CHR ''.'' \<in> set s"
  by (auto simp: containsStr_def indexOf_None_iff in_set_conv_decomp)

lemma wildcardParent_label:
  assumes "s \<noteq> []" "CHR ''.'' \<notin> set s" "r \<noteq> []"
  shows "wildcardParent (s @ ''.'' @ r) = Some (''*.'' @ r)"
  using assms indexOf_char_append[of "CHR ''.''" s r] by (simp add: wildcardParent_def)

lemma matchesWildcard_label:
  assumes "s \<noteq> []" "CHR ''.'' \<notin> set s" "r \<noteq> []"
  shows "matchesWildcard (''*.'' @ r) (s @ ''.'' @ r)"
  using wildcardParent_label[OF assms] by (simp add: matchesWildcard_def isWildcard_def hasPrefix_iff)

lemma mappedZoneWildcard_covers:
  assumes "mappedZoneWildcard dc d = Some w" and "normalizeDomainName d = d"
  shows "matchesWildcard w d" and "hasDNSProviderFor dc w" and "\<exists>z p. w = ''*.'' @ z \<and> (z, p) \<in> set (ps_zones (dc_selection dc))"
proof -
  obtain p z where pz: "providerFor (dc_selection dc) d = (p, z)" by fastforce
  let ?label = "take (length d - length z - 1) d"
  from assms pz have *: "z \<noteq> []" "hasSuffix d (''.'' @ z)" "?label \<noteq> []" "\<not> containsStr ?label ''.''" "hasDNSProviderFor dc (''*.'' @ z)" "w = ''*.'' @ z"
    by (auto simp: mappedZoneWildcard_def Let_def split: if_split_asm)
  from *(2) obtain s where d: "d = s @ ''.'' @ z" by (auto simp: hasSuffix_iff)
  then have s: "?label = s" by simp
  show "matchesWildcard w d" unfolding *(6) d by (rule matchesWildcard_label) (use * s in \<open>auto simp: containsStr_dot\<close>)
  show "hasDNSProviderFor dc w" using * by simp
  show "\<exists>z p. w = ''*.'' @ z \<and> (z, p) \<in> set (ps_zones (dc_selection dc))" using * providerFor_zone(1)[OF pz *(1)] by blast
qed

text \<open>A group after the whole list: what the domains of its root left in it.\<close>

lemma groupDomain_fold:
  "map_of (fold (groupDomain etld1) ds gs) r =
     (if r \<in> rootOf etld1 ` set ds
      then Some (fold (joinGroup r) (filter (\<lambda>d. rootOf etld1 d = r) ds) (case map_of gs r of Some g \<Rightarrow> g | None \<Rightarrow> emptyGroup r))
      else map_of gs r)"
proof (induction ds arbitrary: gs)
  case (Cons d ds)
  have "map_of (groupDomain etld1 d gs) r = (if rootOf etld1 d = r then Some (joinGroup r d (case map_of gs r of Some g \<Rightarrow> g | None \<Rightarrow> emptyGroup r)) else map_of gs r)"
    by (auto simp: groupDomain_def updateGroup_def Let_def update_conv')
  moreover have "filter (\<lambda>x. rootOf etld1 x = r) ds = []" if "r \<notin> rootOf etld1 ` set ds" using that by (auto simp: filter_empty_conv)
  ultimately show ?case by (auto simp: Cons.IH)
qed simp

lemma joinGroup_fold:
  "dg_rootDomain (fold (joinGroup r) ds g) = dg_rootDomain g"
  "dg_fullDomains (fold (joinGroup r) ds g) = dg_fullDomains g @ filter (\<lambda>d. \<not> isWildcard d) ds"
  "dg_includesApex (fold (joinGroup r) ds g) \<longleftrightarrow> dg_includesApex g \<or> r \<in> set (filter (\<lambda>d. \<not> isWildcard d) ds)"
  "dg_subdomains (fold (joinGroup r) ds g) = dg_subdomains g @ map (\<lambda>d. trimSuffix d (''.'' @ r)) (filter (\<lambda>d. \<not> isWildcard d \<and> d \<noteq> r) ds)"
  by (induction ds arbitrary: g) (auto simp: joinGroup_def Let_def)

lemma joinGroup_wildcard:
  assumes "\<And>d. d \<in> set ds \<Longrightarrow> isWildcard d \<Longrightarrow> d = w"
  shows "dg_wildcardDomain (fold (joinGroup r) ds g) = (if list_ex isWildcard ds then w else dg_wildcardDomain g)"
  using assms
proof (induction ds arbitrary: g)
  case (Cons d ds)
  have "isWildcard d \<Longrightarrow> d = w" using Cons.prems by simp
  moreover have "dg_wildcardDomain (joinGroup r d g) = (if isWildcard d then d else dg_wildcardDomain g)" by (simp add: joinGroup_def Let_def)
  ultimately show ?case using Cons.IH[of "joinGroup r d g"] Cons.prems by auto
qed simp

lemma group_of_domain:
  assumes "d \<in> set ds"
  obtains g where "determineStrategy gr g \<in> set (analyzeDomains gr etld1 ds)" and "dg_rootDomain g = rootOf etld1 d"
    and "\<not> isWildcard d \<Longrightarrow> d \<in> set (dg_fullDomains g)" and "\<not> isWildcard d \<Longrightarrow> d = rootOf etld1 d \<Longrightarrow> dg_includesApex g"
    and "\<not> isWildcard d \<Longrightarrow> d \<noteq> rootOf etld1 d \<Longrightarrow> trimSuffix d (''.'' @ rootOf etld1 d) \<in> set (dg_subdomains g)"
    and "dg_wildcardDomain g = (if ''*.'' @ rootOf etld1 d \<in> set ds then ''*.'' @ rootOf etld1 d else [])"
proof -
  let ?r = "rootOf etld1 d" let ?ds = "filter (\<lambda>x. rootOf etld1 x = ?r) ds"
  define g where "g = fold (joinGroup ?r) ?ds (emptyGroup ?r)"
  have "map_of (fold (groupDomain etld1) ds []) ?r = Some g" using assms by (simp add: groupDomain_fold g_def)
  then have "(?r, g) \<in> set (fold (groupDomain etld1) ds [])" by (rule map_of_SomeD)
  then have "determineStrategy gr g \<in> set (analyzeDomains gr etld1 ds)" by (force simp: analyzeDomains_def)
  moreover have wild: "x = ''*.'' @ ?r" if "x \<in> set ?ds" "isWildcard x" for x using that isWildcard_split[of x] by (simp add: rootOf_def)
  have "list_ex isWildcard ?ds \<longleftrightarrow> ''*.'' @ ?r \<in> set ds"
  proof
    assume "list_ex isWildcard ?ds"
    then show "''*.'' @ ?r \<in> set ds" using wild by (fastforce simp: list_ex_iff)
  next
    assume "''*.'' @ ?r \<in> set ds"
    moreover have "isWildcard (''*.'' @ ?r)" by (simp add: isWildcard_def hasPrefix_iff)
    moreover from this have "rootOf etld1 (''*.'' @ ?r) = ?r" unfolding rootOf_def by simp
    ultimately show "list_ex isWildcard ?ds" by (force simp: list_ex_iff)
  qed
  then have "dg_wildcardDomain g = (if ''*.'' @ ?r \<in> set ds then ''*.'' @ ?r else [])"
    using joinGroup_wildcard[of ?ds "''*.'' @ ?r" ?r "emptyGroup ?r"] wild by (simp add: g_def emptyGroup_def)
  ultimately show thesis using that[of g] assms by (auto simp: g_def joinGroup_fold emptyGroup_def)
qed

text \<open>What is documented of \<open>publicsuffix.EffectiveTLDPlusOne\<close>: the registrable domain is the name itself or what follows one of its dots.\<close>

definition registrable :: "(string \<Rightarrow> string option) \<Rightarrow> bool" where
  "registrable etld1 \<longleftrightarrow> (\<forall>d r. etld1 d = Some r \<longrightarrow> r \<noteq> [] \<and> (d = r \<or> (\<exists>s. s \<noteq> [] \<and> d = s @ ''.'' @ r)))"

lemma rootOf_registrable:
  assumes "registrable etld1" "\<not> isWildcard d" "d \<noteq> rootOf etld1 d"
  obtains s where "s \<noteq> []" "d = s @ ''.'' @ rootOf etld1 d" "rootOf etld1 d \<noteq> []"
proof -
  from assms(2,3) obtain r where r: "etld1 d = Some r" "rootOf etld1 d = r" by (auto simp: rootOf_def split: option.split_asm)
  then have "r \<noteq> [] \<and> (\<exists>s. s \<noteq> [] \<and> d = s @ ''.'' @ r)" using assms(1,3) unfolding registrable_def by metis
  then show thesis using that r by metis
qed

lemma trimSuffix_append [simp]: "trimSuffix (s @ t) t = s"
  by (simp add: trimSuffix_def hasSuffix_iff)

lemma set_concat_map: "x \<in> set xs \<Longrightarrow> set (f x) \<subseteq> set (concat (map f xs))"
  by auto

lemma planIssuanceDomains_covers:
  assumes law: "registrable etld1" and d: "d \<in> set ds" and asked: "isWildcard d \<or> ''*.'' @ rootOf etld1 d \<notin> set ds"
  shows "identifiersCover (planIssuanceDomains dc gr etld1 ds) d"
proof -
  let ?r = "rootOf etld1 d"
  let ?order = "\<lambda>g. if dg_strategy g = StrategyWildcard \<and> dg_wildcardDomain g \<notin> set ds \<and> \<not> hasDNSProviderFor dc (dg_wildcardDomain g)
                    then dg_fullDomains g else getDomainsForCert g"
  obtain g where g: "determineStrategy gr g \<in> set (analyzeDomains gr etld1 ds)" "dg_rootDomain g = ?r"
    and full: "\<not> isWildcard d \<Longrightarrow> d \<in> set (dg_fullDomains g)" and apex: "\<not> isWildcard d \<Longrightarrow> d = ?r \<Longrightarrow> dg_includesApex g"
    and sub: "\<not> isWildcard d \<Longrightarrow> d \<noteq> ?r \<Longrightarrow> trimSuffix d (''.'' @ ?r) \<in> set (dg_subdomains g)"
    and wild: "dg_wildcardDomain g = (if ''*.'' @ ?r \<in> set ds then ''*.'' @ ?r else [])"
    by (rule group_of_domain[OF d, of gr etld1]) blast
  have "identifiersCover (?order (determineStrategy gr g)) d"
  proof (cases "isWildcard d")
    case True
    then have "d = ''*.'' @ ?r" using isWildcard_split[OF True] by (simp add: rootOf_def)
    then have "dg_wildcardDomain g = d" "d \<noteq> []" using wild d by auto
    then show ?thesis using d by (simp add: determineStrategy_def getDomainsForCert_def identifiersCover_def)
  next
    case False
    then have none: "dg_wildcardDomain g = []" "''*.'' @ ?r \<notin> set ds" using asked wild by auto
    have "matchesWildcard (''*.'' @ ?r) d" if "d \<noteq> ?r" "\<forall>s \<in> set (dg_subdomains g). CHR ''.'' \<notin> set s"
    proof -
      note ne = that(1)
      obtain s where s: "s \<noteq> []" "d = s @ ''.'' @ ?r" "?r \<noteq> []" by (rule rootOf_registrable[OF law False ne])
      have "trimSuffix d (''.'' @ ?r) = s" by (subst s(2)) (rule trimSuffix_append)
      then have "CHR ''.'' \<notin> set s" using sub[OF False that(1)] that(2) by auto
      then show ?thesis using matchesWildcard_label[OF s(1) _ s(3)] s(2) by simp
    qed
    then show ?thesis using none g(2) full[OF False] apex[OF False]
      by (cases "d = ?r") (auto simp: determineStrategy_def getDomainsForCert_def identifiersCover_def list_ex_iff list_all_iff containsStr_dot)
  qed
  moreover have "set (?order (determineStrategy gr g)) \<subseteq> set (concat (map ?order (analyzeDomains gr etld1 ds)))" by (rule set_concat_map[OF g(1)])
  ultimately have "identifiersCover (concat (map ?order (analyzeDomains gr etld1 ds))) d" unfolding identifiersCover_def list_ex_iff by blast
  moreover have "identifiersCover ds d" using d by (auto simp: identifiersCover_def list_ex_iff)
  ultimately show ?thesis unfolding planIssuanceDomains_def Let_def by simp
qed

section \<open>The order sheet\<close>

text \<open>C25: the partitions of a batch hold exactly the batch's names, and no order placed for one of them is refused as ill-formed:
  none spans DNS providers, none carries a name outside its wildcard's zone, the order lacking a DNS provider names only wildcards no
  provider answers for, and the proxy is not ready only without an HTTP-01 client.
\<close>
theorem split_orders_solvable:
  assumes "parseProviderEntries entries = Inr (dc_selection dc)" and "\<forall>d \<in> set ds. spaceFree d"
  shows "mset (concat (splitByProviderZone dc ds)) = mset ds \<and>
    (\<forall>p \<in> set (splitByProviderZone dc ds). case obtainCertificateAt ask http fallback dc p of
        Inl SpansProviders \<Rightarrow> False
      | Inl (OutsideWildcardZone _) \<Rightarrow> False
      | Inl NeedsDNSProvider \<Rightarrow> \<forall>d \<in> set p. isWildcard d \<and> \<not> hasDNSProviderFor dc d
      | Inl ObtainersNotReady \<Rightarrow> http = None
      | Inr _ \<Rightarrow> True)"
  using split_partitions coherent_order_answered split_coherent[OF assms] by blast

theorem split_orders_solvable_witness:
  "let dc = \<lparr>dc_selection = \<lparr>ps_default = [], ps_zones = [(''a.dk'', ''hetzner'')]\<rparr>, dc_obtainer = None, dc_obtainers = [(''hetzner'', 1 :: nat)]\<rparr>;
       ds = [''*.a.dk'', ''x.a.dk'', ''*.b.dk'', ''x.b.dk'']
   in mset (concat (splitByProviderZone dc ds)) = mset ds \<and> splitByProviderZone dc ds = [[''*.a.dk'', ''x.a.dk''], [''*.b.dk''], [''x.b.dk'']]"
proof -
  let ?dc = "\<lparr>dc_selection = \<lparr>ps_default = [], ps_zones = [(''a.dk'', ''hetzner'')]\<rparr>, dc_obtainer = None, dc_obtainers = [(''hetzner'', 1 :: nat)]\<rparr>"
  let ?ds = "[''*.a.dk'', ''x.a.dk'', ''*.b.dk'', ''x.b.dk'']"
  have 1: "parseProviderEntries [''a.dk=hz''] = Inr (dc_selection ?dc)" by code_simp
  have 2: "\<forall>d \<in> set ?ds. spaceFree d" by code_simp
  have 3: "splitByProviderZone ?dc ?ds = [[''*.a.dk'', ''x.a.dk''], [''*.b.dk''], [''x.b.dk'']]" by code_simp
  show ?thesis using split_orders_solvable[OF 1 2] 3 unfolding Let_def by blast
qed

text \<open>what the planners order covers what was asked for. A dynamic name is covered by its planned identifier, which is a wildcard only for a
  mapped zone a DNS-01 client answers for and that is not on hold; a deploy batch's plan covers every wildcard in it and every name whose root is
  not itself requested as a wildcard.
\<close>
theorem planned_orders_cover:
  assumes "registrable etld1"
  shows "(\<forall>d \<in> set ds. isWildcard d \<or> ''*.'' @ rootOf etld1 d \<notin> set ds \<longrightarrow> identifiersCover (planIssuanceDomains dc gr etld1 ds) d) \<and>
    (\<forall>d \<in> set ds. normalizeDomainName d = d \<longrightarrow> identifiersCover (planDynamicIssuance dc prefer held ds) d) \<and>
    (\<forall>d \<in> set ds. normalizeDomainName d = d \<longrightarrow> planDynamicIdentifier dc prefer held d \<noteq> d \<longrightarrow>
       prefer \<and> \<not> held (planDynamicIdentifier dc prefer held d) \<and> hasDNSProviderFor dc (planDynamicIdentifier dc prefer held d)
       \<and> (\<exists>(z, p) \<in> set (ps_zones (dc_selection dc)). planDynamicIdentifier dc prefer held d = ''*.'' @ z))"
proof -
  have one: "planDynamicIdentifier dc prefer held d = d \<or> matchesWildcard (planDynamicIdentifier dc prefer held d) d" if "normalizeDomainName d = d" for d
    using mappedZoneWildcard_covers(1)[OF _ that] by (auto simp: planDynamicIdentifier_def split: option.split)
  have "identifiersCover (planDynamicIssuance dc prefer held ds) d" if "d \<in> set ds" "normalizeDomainName d = d" for d
    using one[OF that(2)] that(1) by (auto simp: identifiersCover_def planDynamicIssuance_def list_ex_iff)
  moreover have "prefer \<and> \<not> held (planDynamicIdentifier dc prefer held d) \<and> hasDNSProviderFor dc (planDynamicIdentifier dc prefer held d)
       \<and> (\<exists>(z, p) \<in> set (ps_zones (dc_selection dc)). planDynamicIdentifier dc prefer held d = ''*.'' @ z)"
    if "normalizeDomainName d = d" "planDynamicIdentifier dc prefer held d \<noteq> d" for d
    using mappedZoneWildcard_covers(2,3)[OF _ that(1)] that(2) by (fastforce simp: planDynamicIdentifier_def split: option.split_asm if_split_asm)
  ultimately show ?thesis using planIssuanceDomains_covers[OF assms] by blast
qed

theorem planned_orders_cover_witness:
  "let dc = \<lparr>dc_selection = \<lparr>ps_default = ''hetzner'', ps_zones = [(''a.dk'', ''cloudflare'')]\<rparr>, dc_obtainer = Some (1 :: nat), dc_obtainers = [(''cloudflare'', 2)]\<rparr>;
       gr = \<lparr>gr_minSubdomainsForWildcard = 2, gr_preferWildcard = True, gr_dnsProviderAvailable = True\<rparr>;
       etld1 = (\<lambda>d. if d = ''x.a.dk'' \<or> d = ''y.a.dk'' then Some ''a.dk'' else None);
       ds = [''x.a.dk'', ''y.a.dk'', ''b.dk'']
   in planIssuanceDomains dc gr etld1 ds = [''*.a.dk'', ''b.dk''] \<and> identifiersCover (planIssuanceDomains dc gr etld1 ds) ''y.a.dk''"
proof -
  let ?dc = "\<lparr>dc_selection = \<lparr>ps_default = ''hetzner'', ps_zones = [(''a.dk'', ''cloudflare'')]\<rparr>, dc_obtainer = Some (1 :: nat), dc_obtainers = [(''cloudflare'', 2)]\<rparr>"
  let ?gr = "\<lparr>gr_minSubdomainsForWildcard = 2, gr_preferWildcard = True, gr_dnsProviderAvailable = True\<rparr>"
  let ?etld1 = "\<lambda>d. if d = ''x.a.dk'' \<or> d = ''y.a.dk'' then Some ''a.dk'' else None"
  let ?ds = "[''x.a.dk'', ''y.a.dk'', ''b.dk'']"
  have "registrable ?etld1" by (auto simp: registrable_def)
  from planned_orders_cover[OF this, of ?ds ?dc ?gr]
  have "isWildcard ''y.a.dk'' \<or> ''*.'' @ rootOf ?etld1 ''y.a.dk'' \<notin> set ?ds \<longrightarrow> identifiersCover (planIssuanceDomains ?dc ?gr ?etld1 ?ds) ''y.a.dk''" by simp
  moreover have "''*.'' @ rootOf ?etld1 ''y.a.dk'' \<notin> set ?ds" by code_simp
  moreover have "planIssuanceDomains ?dc ?gr ?etld1 ?ds = [''*.a.dk'', ''b.dk'']" by code_simp
  ultimately show ?thesis unfolding Let_def by blast
qed

text \<open>A deeper name beside its root's explicit wildcard is left out of the plan.\<close>

lemma explicit_wildcard_drops_deep:
  "let dc = \<lparr>dc_selection = \<lparr>ps_default = ''hetzner'', ps_zones = []\<rparr>, dc_obtainer = Some (1 :: nat), dc_obtainers = []\<rparr>;
       gr = \<lparr>gr_minSubdomainsForWildcard = 2, gr_preferWildcard = False, gr_dnsProviderAvailable = True\<rparr>
   in planIssuanceDomains dc gr (\<lambda>d. if hasSuffix d ''.a.dk'' then Some ''a.dk'' else None) [''*.a.dk'', ''x.y.a.dk''] = [''*.a.dk'']
      \<and> \<not> identifiersCover [''*.a.dk''] ''x.y.a.dk''"
  by code_simp

end
