(* ===== verification/Quarantine.thy ===== *)
theory Quarantine
  imports Domain_Zones
begin

text \<open>
  Issuance holds: the quarantine ladder of \<open>domain_quarantine.go\<close>, the attribution of failed orders of \<open>domain_failure.go\<close> and the
  release sweep of \<open>domain_release.go\<close>. The entries are an association list; where the code ranges over the map, the order of the list stands for the
  order Go happens to pick. Failure counts are natural numbers: they start at zero and only grow.
\<close>

section \<open>The quarantine\<close>

definition hour :: duration where
  "hour = 60 * minute"

lemmas [time_consts] = hour_def

text \<open>The zero \<open>time.Time\<close>, 1 January of the year 1, as nanoseconds of the Unix epoch.\<close>

definition zeroTime :: time where
  "zeroTime = - 62135596800 * second"

datatype quarantineKind = QuarantineACME | QuarantinePreflight | QuarantineRateLimited

definition quarantineKindString :: "quarantineKind \<Rightarrow> string" where
  "quarantineKindString k = (case k of QuarantinePreflight \<Rightarrow> ''preflight'' | QuarantineRateLimited \<Rightarrow> ''rate_limited'' | QuarantineACME \<Rightarrow> ''acme'')"

definition acmeBackoffLadder :: "duration list" where
  "acmeBackoffLadder = [15 * minute, hour, 4 * hour, 24 * hour]"

definition preflightBackoffLadder :: "duration list" where
  "preflightBackoffLadder = [5 * minute, 15 * minute, hour, 4 * hour, 24 * hour]"

record quarantineEntry =
  qe_until :: time
  qe_failures :: nat
  qe_kind :: quarantineKind

type_synonym domainQuarantine = "(string \<times> quarantineEntry) list"

definition recordHold :: "domainQuarantine \<Rightarrow> string \<Rightarrow> quarantineKind \<Rightarrow> quarantineEntry" where
  "recordHold q domain kind =
     (let entry = (case map_of q domain of Some e \<Rightarrow> e | None \<Rightarrow> \<lparr>qe_until = zeroTime, qe_failures = 0, qe_kind = QuarantineACME\<rparr>)
      in entry\<lparr>qe_failures := qe_failures entry + 1, qe_kind := kind\<rparr>)"

definition ladderStep :: "duration list \<Rightarrow> nat \<Rightarrow> duration" where
  "ladderStep ladder failures = ladder ! (min failures (length ladder) - 1)"

definition recordFailure :: "time \<Rightarrow> domainQuarantine \<Rightarrow> string \<Rightarrow> quarantineKind \<Rightarrow> domainQuarantine \<times> duration" where
  "recordFailure now q domain kind =
     (let entry = recordHold q domain kind;
          backoff = ladderStep (if kind = QuarantinePreflight then preflightBackoffLadder else acmeBackoffLadder) (qe_failures entry)
      in (AList.update domain (entry\<lparr>qe_until := now + backoff\<rparr>) q, backoff))"

definition rateLimitHoldMargin :: duration where
  "rateLimitHoldMargin = minute"

definition recordRateLimited :: "time \<Rightarrow> domainQuarantine \<Rightarrow> string \<Rightarrow> time \<Rightarrow> domainQuarantine \<times> duration" where
  "recordRateLimited now q domain retryAfter =
     (let entry = recordHold q domain QuarantineRateLimited; until = retryAfter + rateLimitHoldMargin
      in if retryAfter = zeroTime \<or> until \<le> now
         then (let backoff = ladderStep acmeBackoffLadder (qe_failures entry) in (AList.update domain (entry\<lparr>qe_until := now + backoff\<rparr>) q, backoff))
         else (AList.update domain (entry\<lparr>qe_until := until\<rparr>) q, min (until - now) max_int64))"

definition isQuarantined :: "time \<Rightarrow> domainQuarantine \<Rightarrow> string \<Rightarrow> bool" where
  "isQuarantined now q domain \<longleftrightarrow> (case map_of q domain of None \<Rightarrow> False | Some e \<Rightarrow> now < qe_until e)"

definition releaseHold :: "time \<Rightarrow> domainQuarantine \<Rightarrow> string \<Rightarrow> domainQuarantine \<times> bool" where
  "releaseHold now q domain = (case map_of q domain of
     None \<Rightarrow> (q, False)
   | Some e \<Rightarrow> if \<not> now < qe_until e then (q, False) else (AList.update domain (e\<lparr>qe_until := zeroTime\<rparr>) q, True))"

definition clearHold :: "domainQuarantine \<Rightarrow> string \<Rightarrow> domainQuarantine" where
  "clearHold q domain = AList.delete domain q"

definition filterHeld :: "time \<Rightarrow> domainQuarantine \<Rightarrow> string list \<Rightarrow> string list \<times> string list" where
  "filterHeld now q domains = (filter (\<lambda>d. \<not> isQuarantined now q d) domains, filter (isQuarantined now q) domains)"

section \<open>Attribution of failed orders\<close>

record acmeProblem =
  ap_type :: string
  ap_detail :: string
  ap_subs :: "string list"

text \<open>
  An error chain as \<open>errors.Unwrap\<close> walks it: an ACME problem, a set with several branches, a wrapper, anything else.
  The first component of a node is its text.
\<close>

datatype acmeError = Problem string acmeProblem | Multi string "acmeError list" | Wrapped string acmeError | Opaque string

definition errorText :: "acmeError \<Rightarrow> string" where
  "errorText e = (case e of Problem t _ \<Rightarrow> t | Multi t _ \<Rightarrow> t | Wrapped t _ \<Rightarrow> t | Opaque t \<Rightarrow> t)"

definition acmeRateLimitedProblem :: string where
  "acmeRateLimitedProblem = ''urn:ietf:params:acme:error:rateLimited''"

definition allBranches :: "'a list option list \<Rightarrow> 'a list option" where
  "allBranches found = (if found = [] \<or> None \<in> set found then None else Some (concat (map the found)))"

fun rateLimitedProblems :: "acmeError \<Rightarrow> acmeProblem list option" where
  "rateLimitedProblems (Problem _ details) = (if ap_type details = acmeRateLimitedProblem then Some [details] else None)"
| "rateLimitedProblems (Multi _ branches) = allBranches (map rateLimitedProblems branches)"
| "rateLimitedProblems (Wrapped _ next) = rateLimitedProblems next"
| "rateLimitedProblems (Opaque _) = None"

definition plausibleHostname :: "string \<Rightarrow> bool" where
  "plausibleHostname name \<longleftrightarrow> name \<noteq> [] \<and> \<not> list_ex (\<lambda>c. c \<in> set '' /:'') name \<and> containsStr name ''.''"

text \<open>The submatches of \<open>"([^"]+)"\<close>: from each quote to the next, if anything stands between.\<close>

function quotedNames :: "string \<Rightarrow> string list" where
  "quotedNames s = (case dropWhile (\<lambda>c. c \<noteq> CHR 0x22) s of
     [] \<Rightarrow> []
   | _ # rest \<Rightarrow>
       (let name = takeWhile (\<lambda>c. c \<noteq> CHR 0x22) rest; after = dropWhile (\<lambda>c. c \<noteq> CHR 0x22) rest
        in if after = [] then [] else if name = [] then quotedNames rest else name # quotedNames (tl after)))"
  by pat_completeness auto
termination
proof (relation "measure length")
  fix s :: string and c :: char and rest name after :: string
  assume 0: "dropWhile (\<lambda>c. c \<noteq> CHR 0x22) s = c # rest"
  have *: "length rest < length s" using length_dropWhile_le[of "\<lambda>c. c \<noteq> CHR 0x22" s] by (simp add: 0)
  then show "(rest, s) \<in> measure length" by simp
  assume a: "after = dropWhile (\<lambda>c. c \<noteq> CHR 0x22) rest"
  then have "length after \<le> length rest" by (simp add: length_dropWhile_le)
  then show "(tl after, s) \<in> measure length" using * by simp
qed simp

declare quotedNames.simps [simp del]

record acmeRateLimit =
  rl_identifiers :: "string list"
  rl_retryAfter :: time

definition addName :: "string \<Rightarrow> string list \<Rightarrow> string list" where
  "addName name names = (if \<not> plausibleHostname name \<or> name \<in> set names then names else names @ [name])"

definition problemNames :: "acmeProblem \<Rightarrow> string list" where
  "problemNames p = ap_subs p @ quotedNames (ap_detail p)"

text \<open>\<open>retryTime\<close> is the regular expression and the layouts that read an advertised retry time.\<close>

definition addProblem :: "(string \<Rightarrow> time option) \<Rightarrow> acmeProblem \<Rightarrow> acmeRateLimit \<Rightarrow> acmeRateLimit" where
  "addProblem retryTime p limit =
     limit\<lparr>rl_identifiers := fold addName (problemNames p) (rl_identifiers limit),
           rl_retryAfter := (case retryTime (ap_detail p) of
              Some t \<Rightarrow> if rl_retryAfter limit < t then t else rl_retryAfter limit
            | None \<Rightarrow> rl_retryAfter limit)\<rparr>"

definition parseRateLimited :: "(string \<Rightarrow> time option) \<Rightarrow> acmeError \<Rightarrow> acmeRateLimit option" where
  "parseRateLimited retryTime err = (case rateLimitedProblems err of
     None \<Rightarrow> None
   | Some problems \<Rightarrow> Some (fold (addProblem retryTime) (sort_key ap_detail problems) \<lparr>rl_identifiers = [], rl_retryAfter = zeroTime\<rparr>))"

definition rateLimitedDomains :: "acmeRateLimit \<Rightarrow> string list \<Rightarrow> string list" where
  "rateLimitedDomains limit domains =
     (let failed = filter (\<lambda>d. list_ex (\<lambda>i. d = i \<or> d = ''*.'' @ i) (rl_identifiers limit)) domains
      in if failed \<noteq> [] then failed
         else filter (\<lambda>d. list_ex (\<lambda>i. hasSuffix d (''.'' @ i)) (rl_identifiers limit)) domains)"

definition failedDomainsFromError :: "acmeError \<Rightarrow> string list \<Rightarrow> string list" where
  "failedDomainsFromError err domains =
     (let lines = splitAt (char_of (10 :: nat)) (errorText err)
      in filter (\<lambda>d. list_ex (\<lambda>line. hasPrefix (trimSpace line) (d @ '': '')) lines) domains)"

text \<open>A probe answers whether it failed; a missing probe reports nothing.\<close>

definition probeDomains :: "string list \<Rightarrow> (string \<Rightarrow> bool) option \<Rightarrow> (string \<Rightarrow> bool) option \<Rightarrow> string list" where
  "probeDomains domains preflight unprobeable = (case preflight of
     None \<Rightarrow> []
   | Some fails \<Rightarrow> filter (\<lambda>d. \<not> (isWildcard d \<or> (case unprobeable of Some u \<Rightarrow> u d | None \<Rightarrow> False)) \<and> fails d) domains)"

definition identifyFailedDomains :: "acmeError \<Rightarrow> string list \<Rightarrow> (string \<Rightarrow> bool) option \<Rightarrow> (string \<Rightarrow> bool) option \<Rightarrow> string list" where
  "identifyFailedDomains err domains preflight unprobeable =
     (if failedDomainsFromError err domains \<noteq> [] then failedDomainsFromError err domains
      else if probeDomains domains preflight unprobeable \<noteq> [] then probeDomains domains preflight unprobeable
      else domains)"

section \<open>The release sweep\<close>

definition releaseCandidates :: "time \<Rightarrow> (string \<Rightarrow> bool) option \<Rightarrow> domainQuarantine \<Rightarrow> string list" where
  "releaseCandidates now unprobeable q =
     map fst (filter (\<lambda>(d, e). qe_kind e \<noteq> QuarantineRateLimited \<and> \<not> isWildcard d
       \<and> \<not> (case unprobeable of Some u \<Rightarrow> u d | None \<Rightarrow> False) \<and> isQuarantined now q d) q)"

fun releaseAll :: "time \<Rightarrow> domainQuarantine \<Rightarrow> string list \<Rightarrow> domainQuarantine \<times> string list" where
  "releaseAll now q [] = (q, [])"
| "releaseAll now q (d # ds) =
     (case releaseHold now q d of (q1, lifted) \<Rightarrow> case releaseAll now q1 ds of (q2, released) \<Rightarrow> (q2, if lifted then d # released else released))"

text \<open>The sweep reads the candidates from \<open>q0\<close> at \<open>t0\<close>, probes them, and lifts holds in what the quarantine is by then, \<open>q\<close> at \<open>t\<close>.\<close>

definition releaseSweep :: "(string \<Rightarrow> bool) option \<Rightarrow> (string \<Rightarrow> bool) option \<Rightarrow> time \<Rightarrow> domainQuarantine \<Rightarrow> time \<Rightarrow> domainQuarantine \<Rightarrow> domainQuarantine \<times> string list" where
  "releaseSweep preflight unprobeable t0 q0 t q =
     (let candidates = releaseCandidates t0 unprobeable q0; stillFailing = probeDomains candidates preflight unprobeable
      in releaseAll t q (filter (\<lambda>d. d \<notin> set stillFailing) candidates))"

section \<open>Holds and ladders\<close>

text \<open>What a ladder promises: at least one step, every step positive, no step shorter than the one before.\<close>

locale backoff_ladder =
  fixes ladder :: "duration list"
  assumes ladder_nonempty: "ladder \<noteq> []"
    and ladder_positive: "0 < ladder ! 0"
    and ladder_sorted: "sorted ladder"
begin

lemma step_index: "min n (length ladder) - 1 < length ladder"
  using ladder_nonempty by (cases ladder) auto

lemma step_mono: "m \<le> n \<Longrightarrow> ladderStep ladder m \<le> ladderStep ladder n"
  using step_index[of n] by (simp add: ladderStep_def sorted_nth_mono[OF ladder_sorted])

lemma step_bounds: "ladder ! 0 \<le> ladderStep ladder n" "ladderStep ladder n \<le> last ladder"
  using step_index[of n] ladder_nonempty
  by (auto simp: ladderStep_def last_conv_nth intro!: sorted_nth_mono[OF ladder_sorted])

lemma step_top: "length ladder \<le> n \<Longrightarrow> ladderStep ladder n = last ladder"
  using ladder_nonempty by (simp add: ladderStep_def last_conv_nth min_absorb2)

end

interpretation acme_ladder: backoff_ladder acmeBackoffLadder
  by unfold_locales (simp_all add: acmeBackoffLadder_def time_consts)

interpretation preflight_ladder: backoff_ladder preflightBackoffLadder
  by unfold_locales (simp_all add: preflightBackoffLadder_def time_consts)

definition failuresOf :: "domainQuarantine \<Rightarrow> string \<Rightarrow> nat" where
  "failuresOf q d = (case map_of q d of Some e \<Rightarrow> qe_failures e | None \<Rightarrow> 0)"

definition ladderFor :: "quarantineKind \<Rightarrow> duration list" where
  "ladderFor kind = (if kind = QuarantinePreflight then preflightBackoffLadder else acmeBackoffLadder)"

lemma ladderFor_laws:
  "m \<le> n \<Longrightarrow> ladderStep (ladderFor k) m \<le> ladderStep (ladderFor k) n"
  "ladderFor k ! 0 \<le> ladderStep (ladderFor k) n" "ladderStep (ladderFor k) n \<le> 24 * hour" "0 < ladderStep (ladderFor k) n"
  "length (ladderFor k) \<le> n \<Longrightarrow> ladderStep (ladderFor k) n = 24 * hour"
proof -
  show "m \<le> n \<Longrightarrow> ladderStep (ladderFor k) m \<le> ladderStep (ladderFor k) n"
    by (simp add: ladderFor_def acme_ladder.step_mono preflight_ladder.step_mono)
  show lo: "ladderFor k ! 0 \<le> ladderStep (ladderFor k) n"
    using acme_ladder.step_bounds(1) preflight_ladder.step_bounds(1) by (simp add: ladderFor_def)
  have top: "last (ladderFor k) = 24 * hour" by (simp add: ladderFor_def acmeBackoffLadder_def preflightBackoffLadder_def)
  show "ladderStep (ladderFor k) n \<le> 24 * hour"
    using acme_ladder.step_bounds(2)[of n] preflight_ladder.step_bounds(2)[of n] top by (simp add: ladderFor_def split: if_split_asm)
  show "0 < ladderStep (ladderFor k) n"
    using lo acme_ladder.ladder_positive preflight_ladder.ladder_positive by (simp add: ladderFor_def split: if_split_asm)
  show "length (ladderFor k) \<le> n \<Longrightarrow> ladderStep (ladderFor k) n = 24 * hour"
    using acme_ladder.step_top[of n] preflight_ladder.step_top[of n] top by (simp add: ladderFor_def split: if_split_asm)
qed

lemma recordHold_simps [simp]: "qe_failures (recordHold q d k) = failuresOf q d + 1" "qe_kind (recordHold q d k) = k"
  by (simp_all add: recordHold_def failuresOf_def Let_def split: option.split)

lemma map_of_recordFailure:
  "map_of (fst (recordFailure now q d k)) = (map_of q)(d \<mapsto> (recordHold q d k)\<lparr>qe_until := now + ladderStep (ladderFor k) (failuresOf q d + 1)\<rparr>)"
  by (simp add: recordFailure_def Let_def update_conv' ladderFor_def)

lemma map_of_recordRateLimited:
  "map_of (fst (recordRateLimited now q d r)) = (map_of q)(d \<mapsto> (recordHold q d QuarantineRateLimited)\<lparr>qe_until :=
     (if r = zeroTime \<or> r + minute \<le> now then now + ladderStep acmeBackoffLadder (failuresOf q d + 1) else r + minute)\<rparr>)"
  by (simp add: recordRateLimited_def Let_def update_conv' rateLimitHoldMargin_def)

lemma isQuarantined_recordFailure:
  "isQuarantined t (fst (recordFailure now q d k)) x \<longleftrightarrow>
     (if x = d then t < now + ladderStep (ladderFor k) (failuresOf q d + 1) else isQuarantined t q x)"
  by (simp add: isQuarantined_def map_of_recordFailure)

lemma isQuarantined_recordRateLimited:
  "isQuarantined t (fst (recordRateLimited now q d r)) x \<longleftrightarrow>
     (if x = d then t < (if r = zeroTime \<or> r + minute \<le> now then now + ladderStep acmeBackoffLadder (failuresOf q d + 1) else r + minute)
      else isQuarantined t q x)"
  by (simp add: isQuarantined_def map_of_recordRateLimited)

lemma failuresOf_record [simp]:
  "failuresOf (fst (recordFailure now q d k)) x = (if x = d then failuresOf q d + 1 else failuresOf q x)"
  "failuresOf (fst (recordRateLimited now q d r)) x = (if x = d then failuresOf q d + 1 else failuresOf q x)"
  by (simp_all add: failuresOf_def map_of_recordFailure map_of_recordRateLimited)

lemma map_of_clearHold: "map_of (clearHold q d) = (map_of q)(d := None)"
  by (simp add: clearHold_def delete_conv')

lemma isQuarantined_clearHold [simp]: "isQuarantined t (clearHold q d) x \<longleftrightarrow> x \<noteq> d \<and> isQuarantined t q x"
  by (simp add: isQuarantined_def map_of_clearHold)

lemma map_of_releaseHold:
  "map_of (fst (releaseHold now q d)) = (if isQuarantined now q d then (map_of q)(d \<mapsto> (the (map_of q d))\<lparr>qe_until := zeroTime\<rparr>) else map_of q)"
  by (auto simp: releaseHold_def isQuarantined_def update_conv' split: option.split)

lemma releaseHold_lifted: "snd (releaseHold now q d) \<longleftrightarrow> isQuarantined now q d"
  by (auto simp: releaseHold_def isQuarantined_def split: option.split)

text \<open>C30: recording a failure holds exactly the failed domain, from now until the end of its ladder step and no longer; the step is at least
  the ladder's first and at most 24 hours, never shorter than that of an earlier failure, and 24 hours once the ladder is climbed. A rate limit holds it
  to a minute past the advertised time, or on the ladder when none or a past one was advertised.
\<close>
theorem quarantine_holds:
  "let step = ladderStep (ladderFor kind) (failuresOf q d + 1);
       (q', applied) = recordFailure now q d kind;
       (q'', _) = recordRateLimited now q d retry
   in applied = step \<and> ladderFor kind ! 0 \<le> step \<and> step \<le> 24 * hour \<and> (length (ladderFor kind) \<le> failuresOf q' d \<longrightarrow> step = 24 * hour)
    \<and> (\<forall>k. step \<le> ladderStep (ladderFor kind) (failuresOf q' d + k))
    \<and> (\<forall>t. isQuarantined t q' d \<longleftrightarrow> t < now + step) \<and> isQuarantined now q' d \<and> isQuarantined now q'' d
    \<and> (\<forall>t. retry \<noteq> zeroTime \<longrightarrow> now < retry + minute \<longrightarrow> (isQuarantined t q'' d \<longleftrightarrow> t < retry + minute))
    \<and> (\<forall>t x. x \<noteq> d \<longrightarrow> isQuarantined t q' x = isQuarantined t q x \<and> isQuarantined t q'' x = isQuarantined t q x)"
proof -
  have kinds: "ladderFor QuarantineACME = acmeBackoffLadder" by (simp add: ladderFor_def)
  have "0 < ladderStep acmeBackoffLadder (failuresOf q d + 1)" using ladderFor_laws(4)[of QuarantineACME] by (simp add: kinds)
  then have "isQuarantined now (fst (recordRateLimited now q d retry)) d" by (simp add: isQuarantined_recordRateLimited time_consts not_le)
  moreover have "snd (recordFailure now q d kind) = ladderStep (ladderFor kind) (failuresOf q d + 1)" by (simp add: recordFailure_def Let_def ladderFor_def)
  moreover have "length (ladderFor kind) \<le> failuresOf q d + 1 \<Longrightarrow> ladderStep (ladderFor kind) (failuresOf q d + 1) = 24 * hour" by (rule ladderFor_laws(5))
  ultimately show ?thesis using ladderFor_laws(2-4)[of kind "failuresOf q d + 1"]
    by (simp add: case_prod_beta Let_def isQuarantined_recordFailure isQuarantined_recordRateLimited ladderFor_laws(1) del: length_greater_0_conv)
qed

theorem quarantine_holds_witness:
  "let (q', applied) = recordFailure 0 [(''a.dk'', \<lparr>qe_until = 0, qe_failures = 3, qe_kind = QuarantineACME\<rparr>)] ''a.dk'' QuarantineACME
   in applied = 24 * hour \<and> isQuarantined hour q' ''a.dk'' \<and> \<not> isQuarantined hour q' ''b.dk''"
proof -
  let ?q = "[(''a.dk'', \<lparr>qe_until = 0, qe_failures = 3, qe_kind = QuarantineACME\<rparr>)]"
  have 1: "snd (recordFailure 0 ?q ''a.dk'' QuarantineACME) = 24 * hour" by code_simp
  have 2: "isQuarantined hour (fst (recordFailure 0 ?q ''a.dk'' QuarantineACME)) ''a.dk''" by code_simp
  have "isQuarantined hour (fst (recordFailure 0 ?q ''a.dk'' QuarantineACME)) ''b.dk'' = isQuarantined hour ?q ''b.dk''"
    using quarantine_holds[of QuarantineACME ?q "''a.dk''" 0 0] by (simp add: case_prod_beta Let_def)
  moreover have "\<not> isQuarantined hour ?q ''b.dk''" by code_simp
  ultimately show ?thesis using 1 2 unfolding Let_def case_prod_beta by blast
qed

section \<open>The sweep lifts only what it may\<close>

lemma releaseAll_map:
  assumes "zeroTime \<le> now"
  shows "map_of (fst (releaseAll now q ds)) x =
     (if x \<in> set ds \<and> isQuarantined now q x then Some ((the (map_of q x))\<lparr>qe_until := zeroTime\<rparr>) else map_of q x)"
    and "set (snd (releaseAll now q ds)) = {d \<in> set ds. isQuarantined now q d}"
proof (induction ds arbitrary: q)
  case (Cons d ds)
  have held: "isQuarantined now (fst (releaseHold now q d)) x \<longleftrightarrow> x \<noteq> d \<and> isQuarantined now q x" for x q
    using assms by (auto simp: isQuarantined_def map_of_releaseHold)
  { case (1 q) show ?case using Cons.IH(1)[of "fst (releaseHold now q d)"]
      by (cases "x = d"; cases "isQuarantined now q d"; simp add: case_prod_beta map_of_releaseHold held) }
  { case (2 q) show ?case using Cons.IH(2)[of "fst (releaseHold now q d)"]
      by (cases "isQuarantined now q d"; auto simp add: case_prod_beta releaseHold_lifted held) }
qed simp_all

lemma releaseCandidates_iff:
  assumes "distinct (map fst q)"
  shows "d \<in> set (releaseCandidates now unprobeable q) \<longleftrightarrow>
     (\<exists>e. map_of q d = Some e \<and> now < qe_until e \<and> qe_kind e \<noteq> QuarantineRateLimited) \<and> \<not> isWildcard d
     \<and> \<not> (case unprobeable of Some u \<Rightarrow> u d | None \<Rightarrow> False)"
proof -
  have "d \<in> set (releaseCandidates now unprobeable q) \<longleftrightarrow> (\<exists>e. (d, e) \<in> set q \<and> qe_kind e \<noteq> QuarantineRateLimited) \<and> \<not> isWildcard d
     \<and> \<not> (case unprobeable of Some u \<Rightarrow> u d | None \<Rightarrow> False) \<and> isQuarantined now q d"
    by (cases unprobeable) (auto simp: releaseCandidates_def image_iff Bex_def)
  moreover have "(d, e) \<in> set q \<longleftrightarrow> map_of q d = Some e" for e using map_of_eq_Some_iff[OF assms, of d e] by blast
  ultimately show ?thesis by (cases "map_of q d") (auto simp: isQuarantined_def)
qed

text \<open>C27: a sweep that nothing overtakes lifts a hold exactly when the domain is held, its hold is not the CA's rate limit, the name is one
  the probe can speak for and its probe passes. It never counts a failure, changes a kind or touches another entry, and it reports what it lifted.
\<close>
theorem release_sweep_exact:
  assumes "distinct (map fst q)" and "zeroTime \<le> now"
  shows "let (q', released) = releaseSweep (Some fails) (Some unprobeable) now q now q
    in set released = {d. \<exists>e. map_of q d = Some e \<and> now < qe_until e \<and> qe_kind e \<noteq> QuarantineRateLimited \<and> \<not> isWildcard d \<and> \<not> unprobeable d \<and> \<not> fails d}
     \<and> (\<forall>d. map_of q' d = (if d \<in> set released then map_option (\<lambda>e. e\<lparr>qe_until := zeroTime\<rparr>) (map_of q d) else map_of q d))"
proof -
  let ?lift = "{d. \<exists>e. map_of q d = Some e \<and> now < qe_until e \<and> qe_kind e \<noteq> QuarantineRateLimited \<and> \<not> isWildcard d \<and> \<not> unprobeable d \<and> \<not> fails d}"
  let ?cs = "releaseCandidates now (Some unprobeable) q"
  let ?ds = "filter (\<lambda>d. d \<notin> set (probeDomains ?cs (Some fails) (Some unprobeable))) ?cs"
  have cs: "d \<in> set ?ds \<and> isQuarantined now q d \<longleftrightarrow> d \<in> ?lift" for d
    using releaseCandidates_iff[OF assms(1), of d now "Some unprobeable"] by (auto simp: probeDomains_def isQuarantined_def)
  have "set (snd (releaseAll now q ?ds)) = ?lift" unfolding releaseAll_map(2)[OF assms(2)] using cs by auto
  moreover have "map_of (fst (releaseAll now q ?ds)) d = (if d \<in> ?lift then map_option (\<lambda>e. e\<lparr>qe_until := zeroTime\<rparr>) (map_of q d) else map_of q d)" for d
    unfolding releaseAll_map(1)[OF assms(2)] cs by auto
  ultimately show ?thesis unfolding releaseSweep_def Let_def case_prod_beta by simp
qed

theorem release_sweep_exact_witness:
  "let q = [(''a.dk'', \<lparr>qe_until = 100, qe_failures = 2, qe_kind = QuarantinePreflight\<rparr>), (''b.dk'', \<lparr>qe_until = 100, qe_failures = 1, qe_kind = QuarantineRateLimited\<rparr>)];
       (q', released) = releaseSweep (Some (\<lambda>_. False)) (Some (\<lambda>_. False)) 50 q 50 q
   in released = [''a.dk''] \<and> map_of q' ''b.dk'' = map_of q ''b.dk''"
proof -
  let ?q = "[(''a.dk'', \<lparr>qe_until = 100, qe_failures = 2, qe_kind = QuarantinePreflight\<rparr>), (''b.dk'', \<lparr>qe_until = 100, qe_failures = 1, qe_kind = QuarantineRateLimited\<rparr>)]"
  have 1: "distinct (map fst ?q)" by simp
  have 2: "zeroTime \<le> 50" by (simp add: zeroTime_def second_def)
  have 3: "snd (releaseSweep (Some (\<lambda>_. False)) (Some (\<lambda>_. False)) 50 ?q 50 ?q) = [''a.dk'']" by code_simp
  have "map_of (fst (releaseSweep (Some (\<lambda>_. False)) (Some (\<lambda>_. False)) 50 ?q 50 ?q)) ''b.dk'' = map_of ?q ''b.dk''"
    using release_sweep_exact[OF 1 2, of "\<lambda>_. False" "\<lambda>_. False"] 3 by (simp add: case_prod_beta Let_def)
  then show ?thesis using 3 unfolding Let_def case_prod_beta by blast
qed

text \<open>A rate limit recorded while the probes run is lifted all the same: the sweep does not look at the kind again.\<close>

lemma overtaken_sweep_lifts_rate_limit:
  "let q0 = fst (recordFailure 0 [] ''a.dk'' QuarantinePreflight);
       q1 = fst (recordRateLimited second q0 ''a.dk'' (7 * 24 * hour));
       (q2, released) = releaseSweep (Some (\<lambda>_. False)) None 0 q0 (2 * second) q1
   in isQuarantined (2 * second) q1 ''a.dk'' \<and> released = [''a.dk''] \<and> \<not> isQuarantined (2 * second) q2 ''a.dk''"
  by code_simp

section \<open>Attribution does not depend on the order of a failure set\<close>

lemma set_addNames: "set (fold addName ns names) = set names \<union> {n \<in> set ns. plausibleHostname n}"
  by (induction ns arbitrary: names) (auto simp: addName_def)

lemma addProblems_identifiers:
  "set (rl_identifiers (fold (addProblem rt) ps l)) = set (rl_identifiers l) \<union> {n. plausibleHostname n \<and> (\<exists>p \<in> set ps. n \<in> set (problemNames p))}"
  by (induction ps arbitrary: l) (auto simp: addProblem_def set_addNames)

lemma addProblems_retry:
  "rl_retryAfter (fold (addProblem rt) ps l) = Max (insert (rl_retryAfter l) (\<Union>p \<in> set ps. set_option (rt (ap_detail p))))"
proof (induction ps arbitrary: l)
  case (Cons p ps)
  let ?later = "\<Union>p \<in> set ps. set_option (rt (ap_detail p))"
  have fin: "finite ?later" by (intro finite_UN_I) auto
  have "rl_retryAfter (addProblem rt p l) = Max (insert (rl_retryAfter l) (set_option (rt (ap_detail p))))"
    by (auto simp: addProblem_def split: option.split)
  moreover have "Max (insert (Max (insert t A)) ?later) = Max (insert t (A \<union> ?later))" if "finite A" for A and t :: time
  proof (cases "?later = {}")
    case False
    then have "Max (insert t A \<union> ?later) = max (Max (insert t A)) (Max ?later)" using fin that by (intro Max_Un) auto
    moreover have "Max (insert (Max (insert t A)) ?later) = max (Max (insert t A)) (Max ?later)" using fin False by (rule Max_insert)
    ultimately show ?thesis by simp
  qed simp
  ultimately show ?case by (simp add: Cons.IH)
qed simp

lemma rateLimitedProblems_Multi_perm:
  assumes "mset bs = mset cs"
  shows "rateLimitedProblems (Multi t bs) = None \<longleftrightarrow> rateLimitedProblems (Multi u cs) = None"
    and "rateLimitedProblems (Multi t bs) = Some ps \<Longrightarrow> rateLimitedProblems (Multi u cs) = Some qs \<Longrightarrow> set ps = set qs"
proof -
  have s: "set bs = set cs" "bs = [] \<longleftrightarrow> cs = []" using assms by (auto dest: mset_eq_setD)
  then show "rateLimitedProblems (Multi t bs) = None \<longleftrightarrow> rateLimitedProblems (Multi u cs) = None" by (simp add: allBranches_def)
  show "rateLimitedProblems (Multi t bs) = Some ps \<Longrightarrow> rateLimitedProblems (Multi u cs) = Some qs \<Longrightarrow> set ps = set qs"
    using s(1) by (auto simp: allBranches_def split: if_split_asm)
qed

lemma rateLimitedDomains_cong: "set (rl_identifiers l) = set (rl_identifiers m) \<Longrightarrow> rateLimitedDomains l ds = rateLimitedDomains m ds"
  by (simp add: rateLimitedDomains_def list_ex_iff Let_def)

lemma identifyFailedDomains_members: "set (identifyFailedDomains err ds preflight unprobeable) \<subseteq> set ds"
  "ds \<noteq> [] \<Longrightarrow> identifyFailedDomains err ds preflight unprobeable \<noteq> []"
  by (auto simp: identifyFailedDomains_def failedDomainsFromError_def probeDomains_def Let_def split: option.split)

lemma rateLimitedDomains_members: "set (rateLimitedDomains l ds) \<subseteq> set ds"
  by (auto simp: rateLimitedDomains_def Let_def)

text \<open>C38: whom a rejected order holds, and until when, does not depend on the order in which the ACME client's failure set lists its members:
  either both listings are rate limits or neither is, and then they blame the same members of the order until the same time.
\<close>
theorem rate_limit_attribution_stable:
  assumes "mset bs = mset cs"
  shows "case (parseRateLimited rt (Multi t bs), parseRateLimited rt (Multi u cs)) of
           (None, None) \<Rightarrow> True
         | (Some l, Some m) \<Rightarrow> rl_retryAfter l = rl_retryAfter m \<and> rateLimitedDomains l ds = rateLimitedDomains m ds \<and> set (rateLimitedDomains l ds) \<subseteq> set ds
         | _ \<Rightarrow> False"
proof (cases "rateLimitedProblems (Multi t bs)")
  case None
  moreover from this have "rateLimitedProblems (Multi u cs) = None" using rateLimitedProblems_Multi_perm(1)[OF assms] by blast
  ultimately show ?thesis by (simp add: parseRateLimited_def del: rateLimitedProblems.simps)
next
  case (Some ps)
  then obtain qs where qs: "rateLimitedProblems (Multi u cs) = Some qs" using rateLimitedProblems_Multi_perm(1)[OF assms, of t u] by auto
  have same: "set ps = set qs" using rateLimitedProblems_Multi_perm(2)[OF assms Some qs] .
  show ?thesis unfolding parseRateLimited_def Some qs
    by (simp add: addProblems_retry same rateLimitedDomains_members) (rule rateLimitedDomains_cong, simp add: addProblems_identifiers same)
qed

theorem rate_limit_attribution_stable_witness:
  "let p = (\<lambda>d. Problem '''' \<lparr>ap_type = acmeRateLimitedProblem, ap_detail = [], ap_subs = [d]\<rparr>)
   in map_option (\<lambda>l. rateLimitedDomains l [''a.dk'', ''b.dk'', ''c.dk'']) (parseRateLimited (\<lambda>_. None) (Multi '''' [p ''b.dk'', p ''a.dk''])) = Some [''a.dk'', ''b.dk'']"
proof -
  let ?p = "\<lambda>d. Problem '''' \<lparr>ap_type = acmeRateLimitedProblem, ap_detail = [], ap_subs = [d]\<rparr>"
  have 0: "mset [?p ''b.dk'', ?p ''a.dk''] = mset [?p ''a.dk'', ?p ''b.dk'']" by simp
  have 1: "map_option (\<lambda>l. rateLimitedDomains l [''a.dk'', ''b.dk'', ''c.dk'']) (parseRateLimited (\<lambda>_. None) (Multi '''' [?p ''a.dk'', ?p ''b.dk''])) = Some [''a.dk'', ''b.dk'']"
    by code_simp
  show ?thesis using rate_limit_attribution_stable[OF 0, where rt = "\<lambda>_. None" and t = "''''" and u = "''''" and ds = "[''a.dk'', ''b.dk'', ''c.dk'']"] 1
    by (auto simp: Let_def split: option.split_asm)
qed

end
