(* ===== verification/Domain_Issuer.thy ===== *)
theory Domain_Issuer
  imports Quarantine
begin

text \<open>
  The dynamic issuer of \<open>domain_issuer.go\<close>: a queue of names drained into ACME orders by concurrent workers. The manager's answers (who is allowed,
  who has a certificate), the clock, the probe and the ACME client are inputs of each step. The mutex is held for one step at a time; between the
  outcome of an order, the return of its survivors to the queue and the release of its identifiers other goroutines may run.
\<close>

section \<open>The issuer\<close>

record issueRequest =
  ir_domain :: string
  ir_service :: string
  ir_retried :: bool

record issueOrder =
  io_identifiers :: "string list"
  io_requests :: "issueRequest list"
  io_identifierOf :: "(string \<times> string) list"

text \<open>What the issuer reads of the world: the clock, the certificate manager, the settings of the services and the probe (which answers whether it failed).\<close>

record 'o issuerEnv =
  ie_now :: time
  ie_valid :: "string \<Rightarrow> bool"
  ie_certificate :: "string \<Rightarrow> bool"
  ie_allowed :: "string \<Rightarrow> bool"
  ie_batchSize :: "(string \<Rightarrow> int) option"
  ie_preflight :: "(string \<Rightarrow> bool) option"
  ie_clients :: "'o dnsClients"
  ie_prefer :: bool

record domainIssuer =
  di_queue :: "issueRequest list"
  di_queued :: "string set"
  di_inflight :: "string set"
  di_identifiers :: "string set"
  di_quarantine :: domainQuarantine

definition newDomainIssuer :: "domainQuarantine \<Rightarrow> domainIssuer" where
  "newDomainIssuer q = \<lparr>di_queue = [], di_queued = {}, di_inflight = {}, di_identifiers = {}, di_quarantine = q\<rparr>"

definition requestIssuance :: "time \<Rightarrow> string \<Rightarrow> string \<Rightarrow> domainIssuer \<Rightarrow> domainIssuer" where
  "requestIssuance now domain service i =
     (if isQuarantined now (di_quarantine i) domain \<or> domain \<in> di_queued i \<or> domain \<in> di_inflight i then i
      else i\<lparr>di_queue := di_queue i @ [\<lparr>ir_domain = domain, ir_service = service, ir_retried = False\<rparr>], di_queued := insert domain (di_queued i)\<rparr>)"

definition issuable :: "'o issuerEnv \<Rightarrow> domainIssuer \<Rightarrow> string \<Rightarrow> bool" where
  "issuable env i domain \<longleftrightarrow> domain \<notin> di_inflight i \<and> \<not> isQuarantined (ie_now env) (di_quarantine i) domain \<and> \<not> ie_valid env domain \<and> ie_allowed env domain"

text \<open>A pass over the queue that takes up to \<open>n\<close> requests, with what is left behind.\<close>

fun takeUpTo :: "nat \<Rightarrow> ('r \<Rightarrow> bool) \<Rightarrow> 'r list \<Rightarrow> 'r list \<times> 'r list" where
  "takeUpTo n P [] = ([], [])"
| "takeUpTo n P (r # rs) =
     (if 0 < n \<and> P r then (case takeUpTo (n - 1) P rs of (taken, rest) \<Rightarrow> (r # taken, rest))
      else (case takeUpTo n P rs of (taken, rest) \<Rightarrow> (taken, r # rest)))"

definition domainsOf :: "issueRequest list \<Rightarrow> string list" where
  "domainsOf rs = map ir_domain rs"

text \<open>\<open>takePending\<close> marks a name in flight as it takes it, so a name queued twice would be taken once; \<open>pendingPass\<close> is its loop.\<close>

fun pendingPass :: "'o issuerEnv \<Rightarrow> string \<Rightarrow> nat \<Rightarrow> domainIssuer \<Rightarrow> issueRequest list \<Rightarrow> string list \<times> issueRequest list \<times> domainIssuer" where
  "pendingPass env service n i [] = ([], [], i)"
| "pendingPass env service n i (r # rs) =
     (if 0 < n \<and> ir_service r = service \<and> issuable env i (ir_domain r)
      then (case pendingPass env service (n - 1)
                   (i\<lparr>di_queued := di_queued i - {ir_domain r}, di_inflight := insert (ir_domain r) (di_inflight i)\<rparr>) rs of
              (taken, rest, i') \<Rightarrow> (ir_domain r # taken, rest, i'))
      else (case pendingPass env service n i rs of (taken, rest, i') \<Rightarrow> (taken, r # rest, i')))"

definition takePending :: "'o issuerEnv \<Rightarrow> string \<Rightarrow> nat \<Rightarrow> domainIssuer \<Rightarrow> string list \<times> domainIssuer" where
  "takePending env service n i = (case pendingPass env service n i (di_queue i) of (taken, rest, i') \<Rightarrow> (taken, i'\<lparr>di_queue := rest\<rparr>))"

definition releasePending :: "string list \<Rightarrow> domainIssuer \<Rightarrow> domainIssuer" where
  "releasePending domains i = i\<lparr>di_inflight := di_inflight i - set domains\<rparr>"

definition maxTLSDomainsBatchSize :: int where
  "maxTLSDomainsBatchSize = 25"

definition batchSizeFor :: "'o issuerEnv \<Rightarrow> string \<Rightarrow> int" where
  "batchSizeFor env service = (case ie_batchSize env of
     None \<Rightarrow> 1
   | Some sizes \<Rightarrow> if 0 < sizes service then min (sizes service) maxTLSDomainsBatchSize else 1)"

definition formBatch :: "'o issuerEnv \<Rightarrow> domainIssuer \<Rightarrow> issueRequest \<Rightarrow> issueRequest list \<times> domainIssuer" where
  "formBatch env i head =
     (let joins = (\<lambda>r. ir_service r = ir_service head \<and> issuable env i (ir_domain r)
              \<and> providerPartitionKey (ie_clients env) (ir_domain r) = providerPartitionKey (ie_clients env) (ir_domain head))
      in case takeUpTo (nat (batchSizeFor env (ir_service head)) - 1) joins (di_queue i) of (others, rest) \<Rightarrow>
           (head # others, i\<lparr>di_queue := rest, di_queued := di_queued i - set (domainsOf others), di_inflight := di_inflight i \<union> set (domainsOf (head # others))\<rparr>))"

fun nextBatchFrom :: "'o issuerEnv \<Rightarrow> domainIssuer \<Rightarrow> issueRequest list \<Rightarrow> issueRequest list \<times> domainIssuer" where
  "nextBatchFrom env i [] = ([], i\<lparr>di_queue := []\<rparr>)"
| "nextBatchFrom env i (head # queue) =
     (let i' = i\<lparr>di_queue := queue, di_queued := di_queued i - {ir_domain head}\<rparr>
      in if issuable env i' (ir_domain head) then formBatch env i' head else nextBatchFrom env i' queue)"

definition nextBatch :: "'o issuerEnv \<Rightarrow> domainIssuer \<Rightarrow> issueRequest list \<times> domainIssuer" where
  "nextBatch env i = nextBatchFrom env i (di_queue i)"

definition finishBatch :: "issueRequest list \<Rightarrow> domainIssuer \<Rightarrow> domainIssuer" where
  "finishBatch batch i = i\<lparr>di_inflight := di_inflight i - set (domainsOf batch)\<rparr>"

section \<open>From a batch to orders\<close>

definition identifierFor :: "(string \<times> string) list \<Rightarrow> string \<Rightarrow> string" where
  "identifierFor m domain = (case map_of m domain of Some i \<Rightarrow> i | None \<Rightarrow> [])"

definition planIdentifiers :: "'o issuerEnv \<Rightarrow> domainQuarantine \<Rightarrow> issueRequest list \<Rightarrow> (string \<times> string) list" where
  "planIdentifiers env q requests =
     map (\<lambda>r. (ir_domain r, planDynamicIdentifier (ie_clients env) (ie_prefer env) (isQuarantined (ie_now env) q) (ir_domain r)))
       (filter (\<lambda>r. \<not> ir_retried r) requests)
     @ map (\<lambda>r. (ir_domain r, ir_domain r)) (filter ir_retried requests)"

fun planPartitions :: "(string \<times> string) list \<Rightarrow> issueRequest list \<Rightarrow> string list list \<Rightarrow> string set \<Rightarrow> issueOrder list \<times> issueRequest list \<times> string set" where
  "planPartitions m requests [] busy = ([], [], busy)"
| "planPartitions m requests (part # parts) busy =
     (let identifiers = filter (\<lambda>x. \<not> (x \<in> busy \<and> isWildcard x)) part;
          mine = filter (\<lambda>r. identifierFor m (ir_domain r) \<in> set identifiers) requests;
          drop1 = filter (\<lambda>r. identifierFor m (ir_domain r) \<notin> set identifiers \<and> identifierFor m (ir_domain r) \<in> set part) requests
      in if identifiers = [] then (case planPartitions m requests parts busy of (orders, dropped, busy') \<Rightarrow> (orders, drop1 @ dropped, busy'))
         else (case planPartitions m requests parts (busy \<union> set identifiers) of (orders, dropped, busy') \<Rightarrow>
                 (\<lparr>io_identifiers = identifiers, io_requests = mine, io_identifierOf = m\<rparr> # orders, drop1 @ dropped, busy')))"

definition planOrders :: "'o issuerEnv \<Rightarrow> issueRequest list \<Rightarrow> domainIssuer \<Rightarrow> issueOrder list \<times> issueRequest list \<times> domainIssuer" where
  "planOrders env requests i =
     (let m = planIdentifiers env (di_quarantine i) requests;
          identifiers = sort (firstKeys (\<lambda>r. identifierFor m (ir_domain r)) requests)
      in case planPartitions m requests (splitByProviderZone (ie_clients env) identifiers) (di_identifiers i) of
           (orders, dropped, busy) \<Rightarrow> (orders, dropped, i\<lparr>di_identifiers := busy\<rparr>))"

text \<open>The probes of \<open>issue\<close>, which a shutdown cuts short without holding it against the names, and the orders planned from what passed.\<close>

definition probeFails :: "'o issuerEnv \<Rightarrow> issueRequest \<Rightarrow> bool" where
  "probeFails env r \<longleftrightarrow> (case ie_preflight env of None \<Rightarrow> False | Some fails \<Rightarrow> \<not> ie_certificate env (ir_domain r) \<and> fails (ir_domain r))"

definition issueBatch :: "'o issuerEnv \<Rightarrow> bool \<Rightarrow> issueRequest list \<Rightarrow> domainIssuer \<Rightarrow> issueOrder list \<times> domainIssuer" where
  "issueBatch env shuttingDown batch i =
     (let requested = filter (\<lambda>r. \<not> probeFails env r) batch; failed = filter (probeFails env) batch;
          q = (if shuttingDown then di_quarantine i
               else fold (\<lambda>r q. fst (recordFailure (ie_now env) q (ir_domain r) QuarantinePreflight)) failed (di_quarantine i))
      in case planOrders env requested (i\<lparr>di_quarantine := q\<rparr>) of (orders, dropped, i') \<Rightarrow> (orders, finishBatch (dropped @ failed) i'))"

section \<open>The outcome of an order\<close>

definition holdAll :: "time \<Rightarrow> string list \<Rightarrow> domainQuarantine \<Rightarrow> domainQuarantine" where
  "holdAll now domains q = fold (\<lambda>d q. fst (recordFailure now q d QuarantineACME)) domains q"

definition limitAll :: "time \<Rightarrow> time \<Rightarrow> string list \<Rightarrow> domainQuarantine \<Rightarrow> domainQuarantine" where
  "limitAll now retryAfter domains q = fold (\<lambda>d q. fst (recordRateLimited now q d retryAfter)) domains q"

definition culprit :: "string list \<Rightarrow> issueOrder \<Rightarrow> issueRequest \<Rightarrow> bool" where
  "culprit failed order r \<longleftrightarrow> (let identifier = identifierFor (io_identifierOf order) (ir_domain r) in identifier \<in> set failed \<and> \<not> isWildcard identifier)"

text \<open>What a failed order does to the quarantine, and the requests that go back to the queue.\<close>

definition handleRateLimited :: "time \<Rightarrow> issueOrder \<Rightarrow> acmeRateLimit \<Rightarrow> domainQuarantine \<Rightarrow> domainQuarantine \<times> issueRequest list" where
  "handleRateLimited now order limit q =
     (let named = rateLimitedDomains limit (io_identifiers order); accountLevel = (named = []);
          failed = (if accountLevel then io_identifiers order else named);
          q1 = limitAll now (rl_retryAfter limit) failed q
      in if accountLevel then (limitAll now (rl_retryAfter limit) (domainsOf (io_requests order)) q1, [])
         else (q1, filter (\<lambda>r. \<not> culprit failed order r) (io_requests order)))"

definition handleObtainFailure :: "(string \<Rightarrow> time option) \<Rightarrow> 'o issuerEnv \<Rightarrow> issueOrder \<Rightarrow> acmeError \<Rightarrow> domainQuarantine \<Rightarrow> domainQuarantine \<times> issueRequest list" where
  "handleObtainFailure retryTime env order err q = (case parseRateLimited retryTime err of
     Some limit \<Rightarrow> handleRateLimited (ie_now env) order limit q
   | None \<Rightarrow>
       (let failed = identifyFailedDomains err (io_identifiers order) (ie_preflight env) (Some (hasDNSProviderFor (ie_clients env)));
            rest = filter (\<lambda>r. \<not> culprit failed order r) (io_requests order)
        in (holdAll (ie_now env) (domainsOf (filter ir_retried rest)) (holdAll (ie_now env) failed q),
            map (\<lambda>r. r\<lparr>ir_retried := True\<rparr>) (filter (\<lambda>r. \<not> ir_retried r) rest))))"

datatype orderResult = Issued | AdoptFailed | ObtainFailed acmeError | ShutDown

definition orderOutcome :: "(string \<Rightarrow> time option) \<Rightarrow> 'o issuerEnv \<Rightarrow> issueOrder \<Rightarrow> orderResult \<Rightarrow> domainQuarantine \<Rightarrow> domainQuarantine \<times> issueRequest list" where
  "orderOutcome retryTime env order result q = (case result of
     ShutDown \<Rightarrow> (q, [])
   | ObtainFailed err \<Rightarrow> handleObtainFailure retryTime env order err q
   | AdoptFailed \<Rightarrow> (holdAll (ie_now env) (domainsOf (io_requests order)) q, [])
   | Issued \<Rightarrow> (fold (\<lambda>d q. clearHold q d) (io_identifiers order @ domainsOf (io_requests order)) q, []))"

definition finishOrder :: "(string \<Rightarrow> time option) \<Rightarrow> 'o issuerEnv \<Rightarrow> issueOrder \<Rightarrow> orderResult \<Rightarrow> domainIssuer \<Rightarrow> issueRequest list \<times> domainIssuer" where
  "finishOrder retryTime env order result i = (case orderOutcome retryTime env order result (di_quarantine i) of
     (q, survivors) \<Rightarrow> (survivors, finishBatch (io_requests order) (i\<lparr>di_quarantine := q\<rparr>)))"

fun requeue :: "issueRequest list \<Rightarrow> domainIssuer \<Rightarrow> domainIssuer" where
  "requeue [] i = i"
| "requeue (r # rs) i =
     requeue rs (if ir_domain r \<in> di_queued i then i else i\<lparr>di_queue := di_queue i @ [r], di_queued := insert (ir_domain r) (di_queued i)\<rparr>)"

definition releaseIdentifiers :: "string list \<Rightarrow> domainIssuer \<Rightarrow> domainIssuer" where
  "releaseIdentifiers identifiers i = i\<lparr>di_identifiers := di_identifiers i - set identifiers\<rparr>"

section \<open>Interleavings\<close>

text \<open>
  The issuer with its goroutines: batches waiting for a token, orders at the CA, orders that ended with the survivors still to be queued and the identifiers
  still to be released, the names the renewer took from the queue to fill up an order, and the orders of the renewer at the CA. The latter
  carry whatever names the renewed certificate has or its zone's wildcard, with the names taken up; \<open>renewPartition\<close> looks neither at the names in
  flight nor at the identifiers of the workers' orders, so any order can begin. DNS-01 clients are named by numbers.
\<close>

record issuerSystem =
  sy_issuer :: domainIssuer
  sy_batches :: "issueRequest list list"
  sy_orders :: "issueOrder list"
  sy_closing :: "(issueRequest list \<times> string list) list"
  sy_renewing :: "string list list"
  sy_renewals :: "string list list"

definition issuerInit :: "domainQuarantine \<Rightarrow> issuerSystem" where
  "issuerInit q = \<lparr>sy_issuer = newDomainIssuer q, sy_batches = [], sy_orders = [], sy_closing = [], sy_renewing = [], sy_renewals = []\<rparr>"

inductive issuerStep :: "(string \<Rightarrow> time option) \<Rightarrow> issuerSystem \<Rightarrow> issuerSystem \<Rightarrow> bool" for retryTime where
  request: "issuerStep retryTime s (s\<lparr>sy_issuer := requestIssuance now domain service (sy_issuer s)\<rparr>)"
| quarantined: "issuerStep retryTime s (s\<lparr>sy_issuer := (sy_issuer s)\<lparr>di_quarantine := q\<rparr>\<rparr>)"
| take_up: "takePending (env :: nat issuerEnv) service n (sy_issuer s) = (taken, i) \<Longrightarrow> issuerStep retryTime s (s\<lparr>sy_issuer := i, sy_renewing := taken # sy_renewing s\<rparr>)"
| give_up: "sy_renewing s = xs @ taken # ys \<Longrightarrow> issuerStep retryTime s (s\<lparr>sy_issuer := releasePending taken (sy_issuer s), sy_renewing := xs @ ys\<rparr>)"
| renewal_begin: "issuerStep retryTime s (s\<lparr>sy_renewals := names # sy_renewals s\<rparr>)"
| renewal_end: "sy_renewals s = xs @ names # ys \<Longrightarrow> issuerStep retryTime s (s\<lparr>sy_renewals := xs @ ys\<rparr>)"
| next_batch: "nextBatch (env :: nat issuerEnv) (sy_issuer s) = (batch, i) \<Longrightarrow> issuerStep retryTime s (s\<lparr>sy_issuer := i, sy_batches := batch # sy_batches s\<rparr>)"
| issue: "sy_batches s = xs @ batch # ys \<Longrightarrow> issueBatch (env :: nat issuerEnv) shuttingDown batch (sy_issuer s) = (orders, i) \<Longrightarrow>
    issuerStep retryTime s (s\<lparr>sy_issuer := i, sy_batches := xs @ ys, sy_orders := orders @ sy_orders s\<rparr>)"
| finish: "sy_orders s = xs @ order # ys \<Longrightarrow> finishOrder retryTime (env :: nat issuerEnv) order result (sy_issuer s) = (survivors, i) \<Longrightarrow>
    issuerStep retryTime s (s\<lparr>sy_issuer := i, sy_orders := xs @ ys, sy_closing := (survivors, io_identifiers order) # sy_closing s\<rparr>)"
| requeue: "sy_closing s = xs @ (survivors, identifiers) # ys \<Longrightarrow>
    issuerStep retryTime s (s\<lparr>sy_issuer := requeue survivors (sy_issuer s), sy_closing := xs @ ([], identifiers) # ys\<rparr>)"
| close: "sy_closing s = xs @ ([], identifiers) # ys \<Longrightarrow>
    issuerStep retryTime s (s\<lparr>sy_issuer := releaseIdentifiers identifiers (sy_issuer s), sy_closing := xs @ ys\<rparr>)"

section \<open>Nothing is ordered twice\<close>

lemma takeUpTo_mset: "mset (fst (takeUpTo n P rs)) + mset (snd (takeUpTo n P rs)) = mset rs"
  by (induction n P rs rule: takeUpTo.induct) (auto split: prod.split)

lemma takeUpTo_sound: "r \<in> set (fst (takeUpTo n P rs)) \<Longrightarrow> P r" "length (fst (takeUpTo n P rs)) \<le> n"
  by (induction n P rs rule: takeUpTo.induct) (auto split: prod.split prod.split_asm if_split_asm)

lemma takeUpTo_rest: "set (snd (takeUpTo n P rs)) \<subseteq> set rs"
  using takeUpTo_mset[of n P rs] by (metis mset_subset_eq_add_right set_mset_mono set_mset_mset)

text \<open>The queue and its index agree.\<close>

definition queueOk :: "domainIssuer \<Rightarrow> bool" where
  "queueOk i \<longleftrightarrow> distinct (domainsOf (di_queue i)) \<and> di_queued i = set (domainsOf (di_queue i))"

lemma domainsOf_simps [simp]:
  "domainsOf [] = []" "domainsOf (r # rs) = ir_domain r # domainsOf rs" "domainsOf (rs @ ss) = domainsOf rs @ domainsOf ss"
  by (simp_all add: domainsOf_def)

lemma queueOk_split:
  assumes "distinct (domainsOf qs)" and "mset taken + mset rest = mset qs"
  shows "distinct (domainsOf rest)" "distinct (domainsOf taken)" "set (domainsOf qs) - set (domainsOf taken) = set (domainsOf rest)"
proof -
  have "mset (domainsOf taken @ domainsOf rest) = mset (domainsOf qs)" using assms(2) unfolding domainsOf_def by (metis map_append mset_append mset_map)
  then have "distinct (domainsOf taken @ domainsOf rest)" "set (domainsOf taken @ domainsOf rest) = set (domainsOf qs)"
    using assms(1) by (metis mset_eq_imp_distinct_iff, metis mset_eq_setD)
  then show "distinct (domainsOf rest)" "distinct (domainsOf taken)" "set (domainsOf qs) - set (domainsOf taken) = set (domainsOf rest)" by auto
qed

text \<open>What a pass over the queue leaves: \<open>taken\<close> left the queue for the flight, nothing else moved.\<close>

definition tookOff :: "domainIssuer \<Rightarrow> string list \<Rightarrow> domainIssuer \<Rightarrow> bool" where
  "tookOff i taken i' \<longleftrightarrow> queueOk i' \<and> distinct taken \<and> set taken \<inter> di_inflight i = {} \<and> di_inflight i' = di_inflight i \<union> set taken
     \<and> di_identifiers i' = di_identifiers i \<and> di_quarantine i' = di_quarantine i"

lemma formBatch_tookOff:
  assumes "queueOk i" and "issuable env i (ir_domain head)" and "ir_domain head \<notin> di_queued i"
  shows "tookOff i (domainsOf (fst (formBatch env i head))) (snd (formBatch env i head))"
proof -
  let ?joins = "\<lambda>r. ir_service r = ir_service head \<and> issuable env i (ir_domain r)
              \<and> providerPartitionKey (ie_clients env) (ir_domain r) = providerPartitionKey (ie_clients env) (ir_domain head)"
  define t where "t = takeUpTo (nat (batchSizeFor env (ir_service head)) - 1) ?joins (di_queue i)"
  have q: "distinct (domainsOf (di_queue i))" "di_queued i = set (domainsOf (di_queue i))" using assms(1) by (auto simp: queueOk_def)
  have m: "mset (fst t) + mset (snd t) = mset (di_queue i)" unfolding t_def by (rule takeUpTo_mset)
  note split = queueOk_split[OF q(1) m]
  have "set (fst t) \<subseteq> set (di_queue i)" using m by (metis mset_subset_eq_add_left set_mset_mono set_mset_mset)
  then have split_set: "set (domainsOf (fst t)) \<subseteq> set (domainsOf (di_queue i))" by (auto simp: domainsOf_def)
  have "issuable env i (ir_domain r)" if "r \<in> set (fst t)" for r using takeUpTo_sound(1)[of r _ ?joins] that unfolding t_def by blast
  then have "set (domainsOf (fst t)) \<inter> di_inflight i = {}" by (auto simp: domainsOf_def issuable_def)
  moreover have "set (domainsOf (fst t)) \<subseteq> di_queued i" using split(3) q(2) split_set by blast
  moreover have "formBatch env i head = (head # fst t, i\<lparr>di_queue := snd t, di_queued := di_queued i - set (domainsOf (fst t)), di_inflight := di_inflight i \<union> set (domainsOf (head # fst t))\<rparr>)"
    unfolding formBatch_def Let_def case_prod_beta t_def by (rule refl)
  ultimately show ?thesis using split q(2) assms(2,3) by (auto simp: tookOff_def queueOk_def issuable_def)
qed

lemma nextBatchFrom_tookOff:
  "di_queue i = queue \<Longrightarrow> queueOk i \<Longrightarrow> tookOff i (domainsOf (fst (nextBatchFrom env i queue))) (snd (nextBatchFrom env i queue))"
proof (induction queue arbitrary: i)
  case (Cons head queue)
  let ?i = "i\<lparr>di_queue := queue, di_queued := di_queued i - {ir_domain head}\<rparr>"
  have ok: "queueOk ?i" and out: "ir_domain head \<notin> di_queued ?i" using Cons.prems by (auto simp: queueOk_def)
  have "tookOff ?i taken i' \<Longrightarrow> tookOff i taken i'" for taken i' by (simp add: tookOff_def)
  then show ?case using Cons.IH[OF _ ok] formBatch_tookOff[OF ok _ out, of env] by (simp add: Let_def)
qed (simp add: tookOff_def queueOk_def)

lemma pendingPass_tookOff:
  assumes "distinct (domainsOf rs)" and "set (domainsOf rs) \<subseteq> di_queued i" and "pendingPass env service n i rs = (taken, rest, i')"
  shows "distinct (domainsOf rest) \<and> set taken \<inter> set (domainsOf rest) = {} \<and> set taken \<union> set (domainsOf rest) = set (domainsOf rs)
     \<and> distinct taken \<and> set taken \<inter> di_inflight i = {} \<and> di_inflight i' = di_inflight i \<union> set taken \<and> di_queued i' = di_queued i - set taken
     \<and> di_identifiers i' = di_identifiers i \<and> di_quarantine i' = di_quarantine i \<and> length taken \<le> n"
  using assms
proof (induction rs arbitrary: i n taken rest)
  case (Cons r rs)
  let ?i = "i\<lparr>di_queued := di_queued i - {ir_domain r}, di_inflight := insert (ir_domain r) (di_inflight i)\<rparr>"
  show ?case
  proof (cases "0 < n \<and> ir_service r = service \<and> issuable env i (ir_domain r)")
    case True
    then obtain t where t: "pendingPass env service (n - 1) ?i rs = (t, rest, i')" "taken = ir_domain r # t"
      using Cons.prems(3) by (auto split: prod.split_asm)
    have "set (domainsOf rs) \<subseteq> di_queued ?i" "distinct (domainsOf rs)" using Cons.prems(1,2) by auto
    from Cons.IH[OF this(2,1) t(1)] show ?thesis using Cons.prems(1) True t(2) by (auto simp: issuable_def)
  next
    case False
    then obtain rest' where t: "pendingPass env service n i rs = (taken, rest', i')" "rest = r # rest'"
      using Cons.prems(3) by (auto split: prod.split_asm)
    have "set (domainsOf rs) \<subseteq> di_queued i" "distinct (domainsOf rs)" using Cons.prems(1,2) by auto
    from Cons.IH[OF this(2,1) t(1)] show ?thesis using Cons.prems(1) t(2) by auto
  qed
qed auto

lemma takePending_tookOff:
  assumes "queueOk i" and "takePending (env :: nat issuerEnv) service n i = (taken, i')"
  shows "tookOff i taken i' \<and> length taken \<le> n"
proof -
  obtain rest i2 where p: "pendingPass env service n i (di_queue i) = (taken, rest, i2)" "i' = i2\<lparr>di_queue := rest\<rparr>"
    using assms(2) by (auto simp: takePending_def split: prod.split_asm)
  have "distinct (domainsOf (di_queue i))" "set (domainsOf (di_queue i)) \<subseteq> di_queued i" using assms(1) by (auto simp: queueOk_def)
  from pendingPass_tookOff[OF this p(1)] show ?thesis using assms(1) p(2) by (auto simp: tookOff_def queueOk_def)
qed

lemma mset_filter_or:
  assumes "\<And>x. x \<in> set xs \<Longrightarrow> \<not> (P x \<and> Q x)"
  shows "mset (filter P xs) + mset (filter Q xs) = mset (filter (\<lambda>x. P x \<or> Q x) xs)"
  using assms by (induction xs) auto

lemma planPartitions_Cons:
  assumes "planPartitions m requests (part # parts) busy = (orders, dropped, busy')"
  obtains ids orders' dropped' where "ids = filter (\<lambda>x. \<not> (x \<in> busy \<and> isWildcard x)) part"
    and "planPartitions m requests parts (busy \<union> set ids) = (orders', dropped', busy')"
    and "orders = (if ids = [] then orders' else \<lparr>io_identifiers = ids, io_requests = filter (\<lambda>r. identifierFor m (ir_domain r) \<in> set ids) requests, io_identifierOf = m\<rparr> # orders')"
    and "dropped = filter (\<lambda>r. identifierFor m (ir_domain r) \<notin> set ids \<and> identifierFor m (ir_domain r) \<in> set part) requests @ dropped'"
proof -
  define ids where ids: "ids = filter (\<lambda>x. \<not> (x \<in> busy \<and> isWildcard x)) part"
  obtain orders' dropped' b where rest: "planPartitions m requests parts (busy \<union> set ids) = (orders', dropped', b)" by (metis prod_cases3)
  show thesis
  proof (rule that[OF ids, of orders' dropped'])
    show "planPartitions m requests parts (busy \<union> set ids) = (orders', dropped', busy')"
      and "orders = (if ids = [] then orders' else \<lparr>io_identifiers = ids, io_requests = filter (\<lambda>r. identifierFor m (ir_domain r) \<in> set ids) requests, io_identifierOf = m\<rparr> # orders')"
      and "dropped = filter (\<lambda>r. identifierFor m (ir_domain r) \<notin> set ids \<and> identifierFor m (ir_domain r) \<in> set part) requests @ dropped'"
      using assms rest unfolding planPartitions.simps Let_def ids[symmetric] by (cases "ids = []"; auto)+
  qed
qed

lemma planPartitions_requests:
  assumes "distinct (concat parts)" and "planPartitions m requests parts busy = (orders, dropped, busy')"
  shows "mset (concat (map io_requests orders)) + mset dropped = mset (filter (\<lambda>r. identifierFor m (ir_domain r) \<in> set (concat parts)) requests)"
  using assms
proof (induction parts arbitrary: busy orders dropped busy')
  case (Cons part parts)
  let ?id = "\<lambda>r. identifierFor m (ir_domain r)"
  obtain ids orders' dropped' where ids: "ids = filter (\<lambda>x. \<not> (x \<in> busy \<and> isWildcard x)) part"
    and rest: "planPartitions m requests parts (busy \<union> set ids) = (orders', dropped', busy')"
    and res: "orders = (if ids = [] then orders' else \<lparr>io_identifiers = ids, io_requests = filter (\<lambda>r. ?id r \<in> set ids) requests, io_identifierOf = m\<rparr> # orders')"
      "dropped = filter (\<lambda>r. ?id r \<notin> set ids \<and> ?id r \<in> set part) requests @ dropped'"
    by (rule planPartitions_Cons[OF Cons.prems(2)])
  have sub: "set ids \<subseteq> set part" by (auto simp: ids)
  have apart: "set part \<inter> set (concat parts) = {}" using Cons.prems(1) by auto
  have either: "(\<lambda>r. ?id r \<in> set ids \<or> ?id r \<notin> set ids \<and> ?id r \<in> set part) = (\<lambda>r. ?id r \<in> set part)" using sub by auto
  have both: "(\<lambda>r. ?id r \<in> set part \<or> ?id r \<in> set (concat parts)) = (\<lambda>r. ?id r \<in> set (concat (part # parts)))" by auto
  have orders: "concat (map io_requests orders) = filter (\<lambda>r. ?id r \<in> set ids) requests @ concat (map io_requests orders')" by (simp add: res)
  have "mset (filter (\<lambda>r. ?id r \<in> set ids) requests) + mset (filter (\<lambda>r. ?id r \<notin> set ids \<and> ?id r \<in> set part) requests)
      = mset (filter (\<lambda>r. ?id r \<in> set part) requests)"
    using mset_filter_or[of requests "\<lambda>r. ?id r \<in> set ids" "\<lambda>r. ?id r \<notin> set ids \<and> ?id r \<in> set part"] unfolding either by blast
  moreover have "mset (filter (\<lambda>r. ?id r \<in> set part) requests) + mset (filter (\<lambda>r. ?id r \<in> set (concat parts)) requests)
      = mset (filter (\<lambda>r. ?id r \<in> set (concat (part # parts))) requests)"
    using mset_filter_or[of requests "\<lambda>r. ?id r \<in> set part" "\<lambda>r. ?id r \<in> set (concat parts)"] apart unfolding both by blast
  ultimately show ?case using Cons.IH[OF _ rest] Cons.prems(1) unfolding orders res(2) by (simp add: ac_simps) (metis (no_types, lifting) add.assoc add.commute)
qed simp

lemma planPartitions_identifiers:
  assumes "distinct (concat parts)" and "planPartitions m requests parts busy = (orders, dropped, busy')"
  shows "busy' = busy \<union> set (concat (map io_identifiers orders)) \<and> distinct (concat (map io_identifiers orders))
    \<and> set (concat (map io_identifiers orders)) \<subseteq> set (concat parts) \<and> (\<forall>x \<in> set (concat (map io_identifiers orders)). isWildcard x \<longrightarrow> x \<notin> busy)
    \<and> (\<forall>o1 \<in> set orders. io_requests o1 = filter (\<lambda>r. identifierFor m (ir_domain r) \<in> set (io_identifiers o1)) requests \<and> io_identifiers o1 \<noteq> [] \<and> io_identifierOf o1 = m)"
  using assms
proof (induction parts arbitrary: busy orders dropped busy')
  case (Cons part parts)
  obtain ids orders' dropped' where ids0: "ids = filter (\<lambda>x. \<not> (x \<in> busy \<and> isWildcard x)) part"
    and rest: "planPartitions m requests parts (busy \<union> set ids) = (orders', dropped', busy')"
    and res: "orders = (if ids = [] then orders' else \<lparr>io_identifiers = ids, io_requests = filter (\<lambda>r. identifierFor m (ir_domain r) \<in> set ids) requests, io_identifierOf = m\<rparr> # orders')"
    by (rule planPartitions_Cons[OF Cons.prems(2)])
  have ids: "set ids \<subseteq> set part" "distinct ids" "\<forall>x \<in> set ids. isWildcard x \<longrightarrow> x \<notin> busy" using Cons.prems(1) by (auto simp: ids0)
  have apart: "set part \<inter> set (concat parts) = {}" "distinct (concat parts)" using Cons.prems(1) by auto
  note IH = Cons.IH[OF apart(2) rest]
  then have "set ids \<inter> set (concat (map io_identifiers orders')) = {}" using ids(1) apart(1) by blast
  with IH show ?case using ids apart(1) unfolding res by (cases "ids = []") auto
qed simp

lemma planDynamicIdentifier_cases: "planDynamicIdentifier dc prefer held d = d \<or> isWildcard (planDynamicIdentifier dc prefer held d)"
  by (auto simp: planDynamicIdentifier_def mappedZoneWildcard_def isWildcard_def hasPrefix_iff Let_def split: option.split prod.split_asm if_split_asm)

lemma map_of_graph: "x \<in> set xs \<Longrightarrow> map_of (map (\<lambda>x. (f x, g (f x))) xs) (f x) = Some (g (f x))"
  by (induction xs) auto

lemma planIdentifiers_cases:
  assumes "distinct (domainsOf requests)" and "r \<in> set requests"
  shows "identifierFor (planIdentifiers env q requests) (ir_domain r) =
    (if ir_retried r then ir_domain r else planDynamicIdentifier (ie_clients env) (ie_prefer env) (isQuarantined (ie_now env) q) (ir_domain r))"
proof -
  let ?g = "planDynamicIdentifier (ie_clients env) (ie_prefer env) (isQuarantined (ie_now env) q)"
  let ?fresh = "map (\<lambda>r. (ir_domain r, ?g (ir_domain r))) (filter (\<lambda>r. \<not> ir_retried r) requests)"
  let ?retried = "map (\<lambda>r. (ir_domain r, id (ir_domain r))) (filter ir_retried requests)"
  have p: "planIdentifiers env q requests = ?fresh @ ?retried" by (simp add: planIdentifiers_def)
  have inj: "ir_domain s = ir_domain r \<Longrightarrow> s \<in> set requests \<Longrightarrow> s = r" for s
    using assms unfolding domainsOf_def by (metis distinct_map inj_onD)
  show ?thesis
  proof (cases "ir_retried r")
    case True
    then have "ir_domain r \<notin> fst ` set ?fresh" using inj by auto
    then have "map_of ?fresh (ir_domain r) = None" by (simp add: map_of_eq_None_iff)
    then show ?thesis using True map_of_graph[of r "filter ir_retried requests" ir_domain id] assms(2)
      by (simp add: identifierFor_def p map_add_def)
  next
    case False
    then have "ir_domain r \<notin> fst ` set ?retried" using inj by auto
    then have "map_of ?retried (ir_domain r) = None" by (simp add: map_of_eq_None_iff)
    then show ?thesis using False map_of_graph[of r "filter (\<lambda>r. \<not> ir_retried r) requests" ir_domain ?g] assms(2)
      by (simp add: identifierFor_def p map_add_def)
  qed
qed

text \<open>What a plan promises of one order.\<close>

definition orderOk :: "issueOrder \<Rightarrow> bool" where
  "orderOk o1 \<longleftrightarrow> io_identifiers o1 \<noteq> [] \<and> distinct (io_identifiers o1) \<and> {x \<in> set (io_identifiers o1). \<not> isWildcard x} \<subseteq> set (domainsOf (io_requests o1))
     \<and> set (io_identifiers o1) = (\<lambda>r. identifierFor (io_identifierOf o1) (ir_domain r)) ` set (io_requests o1)"

lemma planOrders_spec:
  assumes "distinct (domainsOf requests)" and "planOrders env requests i = (orders, dropped, i')"
  shows "mset (concat (map io_requests orders)) + mset dropped = mset requests"
    and "i' = i\<lparr>di_identifiers := di_identifiers i \<union> set (concat (map io_identifiers orders))\<rparr>"
    and "distinct (concat (map io_identifiers orders))" and "\<forall>x \<in> set (concat (map io_identifiers orders)). isWildcard x \<longrightarrow> x \<notin> di_identifiers i"
    and "\<forall>o1 \<in> set orders. orderOk o1"
proof -
  define m where "m = planIdentifiers env (di_quarantine i) requests"
  define ids where "ids = sort (firstKeys (\<lambda>r. identifierFor m (ir_domain r)) requests)"
  obtain busy where p: "planPartitions m requests (splitByProviderZone (ie_clients env) ids) (di_identifiers i) = (orders, dropped, busy)"
    and i': "i' = i\<lparr>di_identifiers := busy\<rparr>"
    using assms(2) by (auto simp: planOrders_def Let_def m_def ids_def split: prod.split_asm)
  have split: "mset (concat (splitByProviderZone (ie_clients env) ids)) = mset ids" by (rule split_partitions)
  then have d: "distinct (concat (splitByProviderZone (ie_clients env) ids))"
    using mset_eq_imp_distinct_iff[OF split] by (simp add: ids_def)
  have s: "set (concat (splitByProviderZone (ie_clients env) ids)) = (\<lambda>r. identifierFor m (ir_domain r)) ` set requests"
    using mset_eq_setD[OF split] by (simp add: ids_def)
  show "mset (concat (map io_requests orders)) + mset dropped = mset requests"
    unfolding planPartitions_requests[OF d p] s by (auto intro!: arg_cong[where f = mset] filter_True)
  note spec = planPartitions_identifiers[OF d p]
  show "i' = i\<lparr>di_identifiers := di_identifiers i \<union> set (concat (map io_identifiers orders))\<rparr>" using spec i' by simp
  show dist: "distinct (concat (map io_identifiers orders))" using spec by simp
  show "\<forall>x \<in> set (concat (map io_identifiers orders)). isWildcard x \<longrightarrow> x \<notin> di_identifiers i" using spec by blast
  show "\<forall>o1 \<in> set orders. orderOk o1"
  proof
    fix o1 assume o1: "o1 \<in> set orders"
    have r: "io_requests o1 = filter (\<lambda>r. identifierFor m (ir_domain r) \<in> set (io_identifiers o1)) requests" "io_identifiers o1 \<noteq> []" "io_identifierOf o1 = m"
      using spec o1 by blast+
    have "distinct (io_identifiers o1)" using dist o1 by (auto simp: distinct_concat_iff)
    moreover have "x \<in> set (domainsOf (io_requests o1))" if x: "x \<in> set (io_identifiers o1)" "\<not> isWildcard x" for x
    proof -
      have "x \<in> (\<lambda>r. identifierFor m (ir_domain r)) ` set requests" using spec o1 x(1) s by auto
      then obtain r where rr: "r \<in> set requests" "x = identifierFor m (ir_domain r)" by auto
      then have "x = ir_domain r" using planIdentifiers_cases[OF assms(1) rr(1), of env "di_quarantine i"] planDynamicIdentifier_cases x(2)
        unfolding m_def by (metis (no_types, lifting))
      then show ?thesis using rr x(1) unfolding r(1) domainsOf_def by force
    qed
    moreover have "x \<in> (\<lambda>r. identifierFor m (ir_domain r)) ` set (io_requests o1)" if x: "x \<in> set (io_identifiers o1)" for x
    proof -
      have "x \<in> (\<lambda>r. identifierFor m (ir_domain r)) ` set requests" using spec o1 x s by auto
      then show ?thesis using x unfolding r(1) by auto
    qed
    ultimately show "orderOk o1" using r unfolding orderOk_def by auto
  qed
qed

section \<open>The invariant of the running issuer\<close>

definition flight :: "issuerSystem \<Rightarrow> string list" where
  "flight s = concat (map domainsOf (sy_batches s)) @ concat (map (\<lambda>o1. domainsOf (io_requests o1)) (sy_orders s)) @ concat (sy_renewing s)"

definition wildcardsOut :: "issuerSystem \<Rightarrow> string list" where
  "wildcardsOut s = filter isWildcard (concat (map io_identifiers (sy_orders s)) @ concat (map snd (sy_closing s)))"

definition issuerOk :: "issuerSystem \<Rightarrow> bool" where
  "issuerOk s \<longleftrightarrow> queueOk (sy_issuer s) \<and> distinct (flight s) \<and> set (flight s) = di_inflight (sy_issuer s)
     \<and> distinct (wildcardsOut s) \<and> set (wildcardsOut s) \<subseteq> di_identifiers (sy_issuer s) \<and> (\<forall>o1 \<in> set (sy_orders s). orderOk o1)"

lemma flight_add:
  assumes "distinct f" "set f = i" "distinct t" "set t \<inter> i = {}" "mset f' = mset t + mset f"
  shows "distinct f'" "set f' = i \<union> set t"
proof -
  have m: "mset f' = mset (t @ f)" using assms(5) by simp
  show "distinct f'" using mset_eq_imp_distinct_iff[OF m] assms by auto
  show "set f' = i \<union> set t" using mset_eq_setD[OF m] assms(2) by auto
qed

lemma flight_drop:
  assumes "distinct f" "set f = i" "mset f = mset t + mset f'"
  shows "distinct f'" "set f' = i - set t"
proof -
  have m: "mset f = mset (t @ f')" using assms(3) by simp
  then have "distinct (t @ f')" "set (t @ f') = i" using mset_eq_imp_distinct_iff[OF m] mset_eq_setD[OF m] assms(1,2) by auto
  then show "distinct f'" "set f' = i - set t" by auto
qed

lemma mset_domainsOf: "mset (domainsOf rs) = image_mset ir_domain (mset rs)"
  by (simp add: domainsOf_def)

lemma domainsOf_concat: "domainsOf (concat rss) = concat (map domainsOf rss)"
  by (induction rss) simp_all

lemma requeue_queueOk: "queueOk i \<Longrightarrow> queueOk (requeue rs i)"
  by (induction rs i rule: requeue.induct) (auto simp: queueOk_def)

lemma requeue_keeps [simp]:
  "di_inflight (requeue rs i) = di_inflight i" "di_identifiers (requeue rs i) = di_identifiers i" "di_quarantine (requeue rs i) = di_quarantine i"
  by (induction rs i rule: requeue.induct) auto

lemma issueBatch_spec:
  assumes "distinct (domainsOf batch)" and "issueBatch env sd batch i = (orders, i')"
  shows "di_queue i' = di_queue i" "di_queued i' = di_queued i" "di_identifiers i' = di_identifiers i \<union> set (concat (map io_identifiers orders))"
    "\<forall>x \<in> set (concat (map io_identifiers orders)). isWildcard x \<longrightarrow> x \<notin> di_identifiers i" "distinct (concat (map io_identifiers orders))" "\<forall>o1 \<in> set orders. orderOk o1"
    "\<exists>out. mset (domainsOf batch) = mset out + mset (concat (map (\<lambda>o1. domainsOf (io_requests o1)) orders)) \<and> di_inflight i' = di_inflight i - set out"
proof -
  let ?requested = "filter (\<lambda>r. \<not> probeFails env r) batch" and ?failed = "filter (probeFails env) batch"
  obtain q dropped i2 where p: "planOrders env ?requested (i\<lparr>di_quarantine := q\<rparr>) = (orders, dropped, i2)" and i': "i' = finishBatch (dropped @ ?failed) i2"
    using assms(2) unfolding issueBatch_def Let_def by (auto split: prod.split_asm)
  have d: "distinct (domainsOf ?requested)" using assms(1) by (simp add: domainsOf_def distinct_map_filter)
  note spec = planOrders_spec[OF d p]
  show "di_queue i' = di_queue i" "di_queued i' = di_queued i" "di_identifiers i' = di_identifiers i \<union> set (concat (map io_identifiers orders))"
    using spec(2) by (simp_all add: i' finishBatch_def)
  show "\<forall>x \<in> set (concat (map io_identifiers orders)). isWildcard x \<longrightarrow> x \<notin> di_identifiers i" "distinct (concat (map io_identifiers orders))" "\<forall>o1 \<in> set orders. orderOk o1"
    using spec(3-5) by simp_all
  have "mset batch = mset ?failed + mset ?requested" by simp
  also have "\<dots> = mset (dropped @ ?failed) + mset (concat (map io_requests orders))" using spec(1)[symmetric] by (simp add: ac_simps)
  finally have "image_mset ir_domain (mset batch) = image_mset ir_domain (mset (dropped @ ?failed)) + image_mset ir_domain (mset (concat (map io_requests orders)))"
    by (metis image_mset_union)
  then have "mset (domainsOf batch) = mset (domainsOf (dropped @ ?failed)) + mset (domainsOf (concat (map io_requests orders)))"
    unfolding mset_domainsOf .
  moreover have "di_inflight i' = di_inflight i - set (domainsOf (dropped @ ?failed))" using spec(2) by (simp add: i' finishBatch_def)
  ultimately show "\<exists>out. mset (domainsOf batch) = mset out + mset (concat (map (\<lambda>o1. domainsOf (io_requests o1)) orders)) \<and> di_inflight i' = di_inflight i - set out"
    unfolding domainsOf_concat map_map comp_def by blast
qed

lemma finishOrder_spec:
  assumes "finishOrder rt env o1 result i = (survivors, i')"
  shows "di_queue i' = di_queue i" "di_queued i' = di_queued i" "di_identifiers i' = di_identifiers i" "di_inflight i' = di_inflight i - set (domainsOf (io_requests o1))"
  using assms by (auto simp: finishOrder_def finishBatch_def split: prod.split_asm)

lemma issuerStep_ok: "issuerStep rt s s' \<Longrightarrow> issuerOk s \<Longrightarrow> issuerOk s'"
proof (induction rule: issuerStep.induct)
  case (request s now domain service)
  then show ?case by (auto simp: issuerOk_def requestIssuance_def queueOk_def flight_def wildcardsOut_def)
next
  case (quarantined s q)
  then show ?case by (auto simp: issuerOk_def queueOk_def flight_def wildcardsOut_def)
next
  case (take_up env service n s taken i)
  have t: "tookOff (sy_issuer s) taken i" using takePending_tookOff take_up by (auto simp: issuerOk_def)
  have f: "distinct (flight s)" "set (flight s) = di_inflight (sy_issuer s)" using take_up.prems by (simp_all add: issuerOk_def)
  have m: "mset (flight (s\<lparr>sy_issuer := i, sy_renewing := taken # sy_renewing s\<rparr>)) = mset taken + mset (flight s)" by (simp add: flight_def)
  show ?case using flight_add[OF f _ _ m] t take_up.prems by (simp add: issuerOk_def tookOff_def wildcardsOut_def)
next
  case (give_up s xs taken ys)
  have f: "distinct (flight s)" "set (flight s) = di_inflight (sy_issuer s)" using give_up.prems by (simp_all add: issuerOk_def)
  have m: "mset (flight s) = mset taken + mset (flight (s\<lparr>sy_issuer := releasePending taken (sy_issuer s), sy_renewing := xs @ ys\<rparr>))"
    using give_up.hyps by (simp add: flight_def)
  show ?case using flight_drop[OF f m] give_up.prems by (simp add: issuerOk_def releasePending_def queueOk_def wildcardsOut_def)
next
  case (next_batch env s batch i)
  have t: "tookOff (sy_issuer s) (domainsOf batch) i" using nextBatchFrom_tookOff[of "sy_issuer s" _ env] next_batch by (auto simp: issuerOk_def nextBatch_def)
  have f: "distinct (flight s)" "set (flight s) = di_inflight (sy_issuer s)" using next_batch.prems by (simp_all add: issuerOk_def)
  have m: "mset (flight (s\<lparr>sy_issuer := i, sy_batches := batch # sy_batches s\<rparr>)) = mset (domainsOf batch) + mset (flight s)" by (simp add: flight_def)
  show ?case using flight_add[OF f _ _ m] t next_batch.prems by (simp add: issuerOk_def tookOff_def wildcardsOut_def)
next
  case (issue s xs batch ys env shuttingDown orders i)
  let ?s = "s\<lparr>sy_issuer := i, sy_batches := xs @ ys, sy_orders := orders @ sy_orders s\<rparr>"
  have f: "distinct (flight s)" "set (flight s) = di_inflight (sy_issuer s)" using issue.prems by (simp_all add: issuerOk_def)
  have d: "distinct (domainsOf batch)" using f(1) issue.hyps(1) by (simp add: flight_def)
  note spec = issueBatch_spec[OF d issue.hyps(2)]
  obtain out where out: "mset (domainsOf batch) = mset out + mset (concat (map (\<lambda>o1. domainsOf (io_requests o1)) orders))" "di_inflight i = di_inflight (sy_issuer s) - set out"
    using spec(7) by blast
  have "mset (flight s) = mset out + mset (flight ?s)" using issue.hyps(1) out(1) by (simp add: flight_def)
  from flight_drop[OF f this] have fl: "distinct (flight ?s)" "set (flight ?s) = di_inflight (sy_issuer ?s)" using out(2) by simp_all
  have w: "wildcardsOut ?s = filter isWildcard (concat (map io_identifiers orders)) @ wildcardsOut s" by (simp add: wildcardsOut_def)
  have ws: "distinct (wildcardsOut s)" "set (wildcardsOut s) \<subseteq> di_identifiers (sy_issuer s)" using issue.prems by (simp_all add: issuerOk_def)
  have "distinct (wildcardsOut ?s)" unfolding w using spec(4,5) ws by (auto simp: distinct_append disjoint_iff)
  moreover have "set (wildcardsOut ?s) \<subseteq> di_identifiers (sy_issuer ?s)" unfolding w using spec(3) ws by auto
  ultimately show ?case using issue.prems spec(1,2,6) fl by (auto simp: issuerOk_def queueOk_def)
next
  case (finish s xs order ys env result survivors i)
  let ?s = "s\<lparr>sy_issuer := i, sy_orders := xs @ ys, sy_closing := (survivors, io_identifiers order) # sy_closing s\<rparr>"
  note spec = finishOrder_spec[OF finish.hyps(2)]
  have f: "distinct (flight s)" "set (flight s) = di_inflight (sy_issuer s)" using finish.prems by (simp_all add: issuerOk_def)
  have "mset (flight s) = mset (domainsOf (io_requests order)) + mset (flight ?s)" using finish.hyps(1) by (simp add: flight_def)
  note fl = flight_drop[OF f this]
  have w: "mset (wildcardsOut ?s) = mset (wildcardsOut s)" using finish.hyps(1) by (simp add: wildcardsOut_def)
  have "distinct (wildcardsOut ?s)" "set (wildcardsOut ?s) \<subseteq> di_identifiers i"
    using finish.prems mset_eq_imp_distinct_iff[OF w] mset_eq_setD[OF w] spec(3) unfolding issuerOk_def by blast+
  moreover have "queueOk i" using finish.prems spec(1,2) by (simp add: issuerOk_def queueOk_def)
  ultimately show ?case using finish.prems finish.hyps(1) spec(4) fl by (simp add: issuerOk_def)
next
  case (requeue s xs survivors identifiers ys)
  then show ?case by (simp add: issuerOk_def requeue_queueOk flight_def wildcardsOut_def)
next
  case (close s xs identifiers ys)
  let ?s = "s\<lparr>sy_issuer := releaseIdentifiers identifiers (sy_issuer s), sy_closing := xs @ ys\<rparr>"
  have m: "mset (wildcardsOut s) = mset (filter isWildcard identifiers) + mset (wildcardsOut ?s)" using close.hyps by (simp add: wildcardsOut_def)
  have "distinct (wildcardsOut ?s)" "set (wildcardsOut ?s) = set (wildcardsOut s) - set (filter isWildcard identifiers)"
    using flight_drop[OF _ refl m] close.prems by (simp_all add: issuerOk_def)
  moreover have "set (wildcardsOut ?s) \<subseteq> Collect isWildcard" by (auto simp: wildcardsOut_def)
  ultimately show ?case using close.prems by (auto simp: issuerOk_def queueOk_def releaseIdentifiers_def flight_def)
next
  case (renewal_begin s names)
  then show ?case by (simp add: issuerOk_def flight_def wildcardsOut_def)
next
  case (renewal_end s xs names ys)
  then show ?case by (simp add: issuerOk_def flight_def wildcardsOut_def)
qed

lemma issuer_invariant: "rtranclp (issuerStep rt) (issuerInit q) s \<Longrightarrow> issuerOk s"
proof (induction rule: rtranclp_induct)
  case base
  show ?case by (simp add: issuerInit_def newDomainIssuer_def issuerOk_def queueOk_def flight_def wildcardsOut_def)
qed (rule issuerStep_ok)

lemma distinct_concat_within:
  assumes "\<forall>x \<in> set xs. distinct (f x) \<and> set (f x) \<subseteq> set (g x)" and "distinct (concat (map g xs))"
  shows "distinct (concat (map f xs))"
  using assms by (induction xs) fastforce+

lemma distinct_filters: "distinct (filter P xs) \<Longrightarrow> distinct (filter (\<lambda>x. \<not> P x) xs) \<Longrightarrow> distinct xs"
  by (induction xs) (auto split: if_split_asm)


text \<open>A run that ends with an order at the CA.\<close>

definition runEnv :: "nat issuerEnv" where
  "runEnv = \<lparr>ie_now = 0, ie_valid = (\<lambda>_. False), ie_certificate = (\<lambda>_. False), ie_allowed = (\<lambda>_. True), ie_batchSize = Some (\<lambda>_. 25), ie_preflight = None,
     ie_clients = \<lparr>dc_selection = \<lparr>ps_default = [], ps_zones = [(''a.dk'', ''hetzner'')]\<rparr>, dc_obtainer = None, dc_obtainers = [(''hetzner'', 1)]\<rparr>, ie_prefer = True\<rparr>"

definition runQueued :: domainIssuer where
  "runQueued = requestIssuance 0 ''y.a.dk'' ''web'' (requestIssuance 0 ''x.a.dk'' ''web'' (newDomainIssuer []))"

lemma wildcard_order_runs:
  "\<exists>s. rtranclp (issuerStep (\<lambda>_. None)) (issuerInit []) s \<and> map io_identifiers (sy_orders s) = [[''*.a.dk'']] \<and> sy_renewals s = []"
proof -
  let ?step = "issuerStep (\<lambda>_. None)"
  define s1 where "s1 = (issuerInit [])\<lparr>sy_issuer := requestIssuance 0 ''x.a.dk'' ''web'' (sy_issuer (issuerInit []))\<rparr>"
  define s2 where "s2 = s1\<lparr>sy_issuer := requestIssuance 0 ''y.a.dk'' ''web'' (sy_issuer s1)\<rparr>"
  define batch where "batch = nextBatch runEnv (sy_issuer s2)"
  define s3 where "s3 = s2\<lparr>sy_issuer := snd batch, sy_batches := fst batch # sy_batches s2\<rparr>"
  define out where "out = issueBatch runEnv False (fst batch) (sy_issuer s3)"
  define s4 where "s4 = s3\<lparr>sy_issuer := snd out, sy_batches := [] @ sy_batches s2, sy_orders := fst out @ sy_orders s3\<rparr>"
  have "?step (issuerInit []) s1" "?step s1 s2" unfolding s2_def s1_def by (rule issuerStep.request)+
  moreover have "?step s2 s3" unfolding s3_def by (rule issuerStep.next_batch[where env = runEnv]) (simp add: batch_def)
  moreover have "?step s3 s4" unfolding s4_def
    by (rule issuerStep.issue[where env = runEnv and shuttingDown = False and batch = "fst batch"]) (simp_all add: s3_def out_def)
  ultimately have run: "rtranclp ?step (issuerInit []) s4" by (metis (mono_tags) converse_rtranclp_into_rtranclp r_into_rtranclp)
  have "sy_orders s4 = fst (issueBatch runEnv False (fst (nextBatch runEnv runQueued)) (snd (nextBatch runEnv runQueued)))"
    by (simp add: s4_def out_def s3_def batch_def s2_def s1_def issuerInit_def runQueued_def)
  moreover have "map io_identifiers (fst (issueBatch runEnv False (fst (nextBatch runEnv runQueued)) (snd (nextBatch runEnv runQueued)))) = [[''*.a.dk'']]"
    by code_simp
  moreover have "sy_renewals s4 = []" by (simp add: s4_def s3_def s2_def s1_def issuerInit_def)
  ultimately show ?thesis using run by metis
qed


text \<open>The renewer asks for the wildcard of a zone, or for the names of a certificate, while a worker's order for the same identifier is at the CA: \<open>renew\<close> consults
  neither of the two sets by which the workers keep their orders apart.\<close>

lemma renewal_overlaps_order:
  "\<exists>s. rtranclp (issuerStep (\<lambda>_. None)) (issuerInit []) s \<and> map io_identifiers (sy_orders s) = [[''*.a.dk'']] \<and> sy_renewals s = [[''*.a.dk'']]"
proof -
  obtain s where s: "rtranclp (issuerStep (\<lambda>_. None)) (issuerInit []) s" "map io_identifiers (sy_orders s) = [[''*.a.dk'']]" "sy_renewals s = []"
    using wildcard_order_runs by (elim exE conjE) (rule that)
  define t where "t = s\<lparr>sy_renewals := [''*.a.dk''] # sy_renewals s\<rparr>"
  have "issuerStep (\<lambda>_. None) s t" unfolding t_def by (rule issuerStep.renewal_begin)
  with s(1) have "rtranclp (issuerStep (\<lambda>_. None)) (issuerInit []) t" by (rule rtranclp.rtrancl_into_rtrancl)
  moreover have "map io_identifiers (sy_orders t) = [[''*.a.dk'']]" "sy_renewals t = [[''*.a.dk'']]" using s(2,3) by (simp_all add: t_def)
  ultimately show ?thesis by (intro exI[of _ t] conjI)
qed

section \<open>Batches\<close>

lemma batchSizeFor_bounds: "1 \<le> batchSizeFor env s" "batchSizeFor env s \<le> 25"
  by (auto simp: batchSizeFor_def maxTLSDomainsBatchSize_def split: option.split)

lemma formBatch_shape:
  assumes "formBatch env i head = (batch, i')" and "issuable env i (ir_domain head)"
  shows "\<exists>others. batch = head # others \<and> int (length batch) \<le> batchSizeFor env (ir_service head)
    \<and> (\<forall>r \<in> set batch. ir_service r = ir_service head \<and> issuable env i (ir_domain r)
         \<and> providerPartitionKey (ie_clients env) (ir_domain r) = providerPartitionKey (ie_clients env) (ir_domain head))"
proof -
  let ?joins = "\<lambda>r. ir_service r = ir_service head \<and> issuable env i (ir_domain r)
              \<and> providerPartitionKey (ie_clients env) (ir_domain r) = providerPartitionKey (ie_clients env) (ir_domain head)"
  let ?n = "nat (batchSizeFor env (ir_service head)) - 1"
  have b: "batch = head # fst (takeUpTo ?n ?joins (di_queue i))" using arg_cong[OF assms(1), of fst] unfolding formBatch_def Let_def case_prod_beta fst_conv by (rule sym)
  have "length (fst (takeUpTo ?n ?joins (di_queue i))) \<le> ?n" by (rule takeUpTo_sound(2))
  then have "int (length batch) \<le> batchSizeFor env (ir_service head)" unfolding b using batchSizeFor_bounds(1)[of env "ir_service head"] by simp
  moreover have "?joins r" if "r \<in> set batch" for r
  proof (cases "r = head")
    case False
    then have "r \<in> set (fst (takeUpTo ?n ?joins (di_queue i)))" using that unfolding b by simp
    then show ?thesis by (rule takeUpTo_sound(1))
  qed (use assms(2) in blast)
  ultimately show ?thesis using b by blast
qed

text \<open>a batch is of one service, within that service's batch size and never more than 25 names, inside one DNS provider's partition, and every name of it
  was neither in flight nor held, had no valid certificate and was allowed; a queue with nothing issuable is emptied.
\<close>
theorem nextBatch_shape:
  "case nextBatch env i of (batch, i') \<Rightarrow>
     (if batch = [] then di_queue i' = [] \<and> (\<forall>r \<in> set (di_queue i). \<not> issuable env i (ir_domain r))
      else int (length batch) \<le> min 25 (batchSizeFor env (ir_service (hd batch))) \<and>
        (\<forall>r \<in> set batch. ir_service r = ir_service (hd batch) \<and> issuable env i (ir_domain r)
           \<and> providerPartitionKey (ie_clients env) (ir_domain r) = providerPartitionKey (ie_clients env) (ir_domain (hd batch))))"
proof -
  have same: "issuable env (j\<lparr>di_queue := x, di_queued := y\<rparr>) = issuable env j" for j x y by (auto simp: issuable_def)
  define shape where "shape batch \<longleftrightarrow> int (length batch) \<le> min 25 (batchSizeFor env (ir_service (hd batch))) \<and>
        (\<forall>r \<in> set batch. ir_service r = ir_service (hd batch) \<and> issuable env i (ir_domain r)
           \<and> providerPartitionKey (ie_clients env) (ir_domain r) = providerPartitionKey (ie_clients env) (ir_domain (hd batch)))" for batch :: "issueRequest list"
  define ok where "ok j = (\<lambda>(batch, i'). if batch = [] then di_queue (i' :: domainIssuer) = [] \<and> (\<forall>r \<in> set (di_queue j). \<not> issuable env i (ir_domain r))
      else shape batch)" for j :: domainIssuer
  have all: "ok j (nextBatchFrom env j queue)" if "di_queue j = queue" "issuable env j = issuable env i" for j queue
    using that
  proof (induction queue arbitrary: j)
    case (Cons head queue)
    let ?j = "j\<lparr>di_queue := queue, di_queued := di_queued j - {ir_domain head}\<rparr>"
    have eq: "issuable env ?j = issuable env i" using Cons.prems(2) by (simp only: same)
    show ?case
    proof (cases "issuable env i (ir_domain head)")
      case True
      obtain batch i' where b: "formBatch env ?j head = (batch, i')" by fastforce
      then obtain others where sh: "batch = head # others" "int (length batch) \<le> batchSizeFor env (ir_service head)"
          "\<forall>r \<in> set batch. ir_service r = ir_service head \<and> issuable env i (ir_domain r)
             \<and> providerPartitionKey (ie_clients env) (ir_domain r) = providerPartitionKey (ie_clients env) (ir_domain head)"
        using formBatch_shape[OF b] True unfolding eq by blast
      have "nextBatchFrom env j (head # queue) = (batch, i')" using True b by (simp add: Let_def eq)
      moreover have "int (length (head # others)) \<le> min 25 (batchSizeFor env (ir_service head))" using sh(2) batchSizeFor_bounds(2)[of env "ir_service head"] unfolding sh(1) by linarith
      ultimately show ?thesis using sh(3) unfolding ok_def shape_def sh(1) by (simp only: prod.case list.distinct if_False list.sel)
    next
      case False
      have "ok ?j (nextBatchFrom env ?j queue)" using Cons.IH[of ?j] eq by simp
      moreover have "nextBatchFrom env j (head # queue) = nextBatchFrom env ?j queue" using False by (simp add: Let_def eq)
      ultimately show ?thesis using False Cons.prems(1) unfolding ok_def case_prod_beta by (cases "fst (nextBatchFrom env ?j queue) = []") simp_all
    qed
  qed (simp add: ok_def)
  have "ok i (nextBatch env i)" unfolding nextBatch_def by (rule all) (rule refl)+
  then show ?thesis unfolding ok_def shape_def .
qed

theorem nextBatch_shape_witness:
  "fst (nextBatch runEnv runQueued) = [\<lparr>ir_domain = ''x.a.dk'', ir_service = ''web'', ir_retried = False\<rparr>, \<lparr>ir_domain = ''y.a.dk'', ir_service = ''web'', ir_retried = False\<rparr>]
   \<and> int (length (fst (nextBatch runEnv runQueued))) \<le> min 25 (batchSizeFor runEnv ''web'')"
proof -
  have 1: "fst (nextBatch runEnv runQueued) = [\<lparr>ir_domain = ''x.a.dk'', ir_service = ''web'', ir_retried = False\<rparr>, \<lparr>ir_domain = ''y.a.dk'', ir_service = ''web'', ir_retried = False\<rparr>]"
    by code_simp
  then show ?thesis using nextBatch_shape[of runQueued runEnv] by (simp add: case_prod_beta)
qed

section \<open>Failures make progress\<close>

lemma isQuarantined_holdAll: "isQuarantined now (holdAll now ds q) x \<longleftrightarrow> x \<in> set ds \<or> isQuarantined now q x"
proof (induction ds arbitrary: q)
  case (Cons d ds)
  show ?case using Cons.IH[of "fst (recordFailure now q d QuarantineACME)"] ladderFor_laws(4)[of QuarantineACME "failuresOf q d + 1"]
    by (auto simp: holdAll_def isQuarantined_recordFailure)
qed (simp add: holdAll_def)

lemma isQuarantined_limitAll: "isQuarantined now (limitAll now r ds q) x \<longleftrightarrow> x \<in> set ds \<or> isQuarantined now q x"
proof (induction ds arbitrary: q)
  case (Cons d ds)
  have "0 < ladderStep acmeBackoffLadder (failuresOf q d + 1)" using ladderFor_laws(4)[of QuarantineACME "failuresOf q d + 1"] by (simp add: ladderFor_def)
  then show ?case using Cons.IH[of "fst (recordRateLimited now q d r)"] by (auto simp: limitAll_def isQuarantined_recordRateLimited)
qed (simp add: limitAll_def)

text \<open>The names still asked for and the wildcards that may still be tried for them.\<close>

definition openWildcards :: "'o issuerEnv \<Rightarrow> domainQuarantine \<Rightarrow> issueRequest list \<Rightarrow> string set" where
  "openWildcards env q rs = {w. \<exists>r \<in> set rs. \<not> ir_retried r \<and> ie_prefer env \<and> mappedZoneWildcard (ie_clients env) (ir_domain r) = Some w \<and> \<not> isQuarantined (ie_now env) q w}"

definition openWork :: "'o issuerEnv \<Rightarrow> domainQuarantine \<Rightarrow> issueRequest list \<Rightarrow> nat" where
  "openWork env q rs = length rs + card (openWildcards env q rs)"

lemma finite_openWildcards [simp]: "finite (openWildcards env q rs)"
  by (rule finite_subset[of _ "(\<lambda>r. the (mappedZoneWildcard (ie_clients env) (ir_domain r))) ` set rs"]) (force simp: openWildcards_def)+

lemma openWork_less:
  assumes "length ss \<le> length rs" and "openWildcards env q' ss \<subseteq> openWildcards env q rs" and "length ss < length rs \<or> openWildcards env q' ss \<noteq> openWildcards env q rs"
  shows "openWork env q' ss < openWork env q rs"
proof -
  have "card (openWildcards env q' ss) \<le> card (openWildcards env q rs)" using assms(2) by (simp add: card_mono)
  moreover have "card (openWildcards env q' ss) < card (openWildcards env q rs)" if "openWildcards env q' ss \<noteq> openWildcards env q rs"
    using that assms(2) by (intro psubset_card_mono) auto
  ultimately show ?thesis using assms(1,3) unfolding openWork_def by linarith
qed

lemma mappedZoneWildcard_isWildcard: "mappedZoneWildcard dc d = Some w \<Longrightarrow> isWildcard w"
  by (auto simp: mappedZoneWildcard_def isWildcard_def hasPrefix_iff Let_def split: prod.split_asm if_split_asm)

text \<open>An order as it was planned: each request's identifier is its own name or a wildcard still open to it.\<close>

lemma planned_request:
  assumes "distinct (domainsOf requests)" and "planOrders env requests i = (orders, dropped, i')" and "o1 \<in> set orders" and "r \<in> set (io_requests o1)"
  shows "r \<in> set requests" and "identifierFor (io_identifierOf o1) (ir_domain r) \<in> set (io_identifiers o1)"
    and "identifierFor (io_identifierOf o1) (ir_domain r) = ir_domain r \<and> \<not> isWildcard (ir_domain r)
      \<or> isWildcard (identifierFor (io_identifierOf o1) (ir_domain r)) \<and>
         (identifierFor (io_identifierOf o1) (ir_domain r) = ir_domain r \<or> identifierFor (io_identifierOf o1) (ir_domain r) \<in> openWildcards env (di_quarantine i) (io_requests o1))"
proof -
  note spec = planOrders_spec[OF assms(1,2)]
  have "set (concat (map io_requests orders)) \<union> set dropped = set requests" using spec(1) by (metis set_mset_mset set_mset_union)
  then show r: "r \<in> set requests" using assms(3,4) by auto
  show "identifierFor (io_identifierOf o1) (ir_domain r) \<in> set (io_identifiers o1)" using spec(5) assms(3,4) by (auto simp: orderOk_def)
  define m where "m = planIdentifiers env (di_quarantine i) requests"
  obtain busy parts where p: "planPartitions m requests parts (di_identifiers i) = (orders, dropped, busy)" and d: "distinct (concat parts)"
  proof -
    let ?ids = "sort (firstKeys (\<lambda>r. identifierFor m (ir_domain r)) requests)"
    have "distinct (concat (splitByProviderZone (ie_clients env) ?ids))" by (simp add: mset_eq_imp_distinct_iff[OF split_partitions])
    moreover obtain busy where "planPartitions m requests (splitByProviderZone (ie_clients env) ?ids) (di_identifiers i) = (orders, dropped, busy)"
      using assms(2) by (auto simp: planOrders_def Let_def m_def split: prod.split_asm)
    ultimately show thesis using that by blast
  qed
  have io: "io_identifierOf o1 = m" using planPartitions_identifiers[OF d p] assms(3) by blast
  show "identifierFor (io_identifierOf o1) (ir_domain r) = ir_domain r \<and> \<not> isWildcard (ir_domain r)
      \<or> isWildcard (identifierFor (io_identifierOf o1) (ir_domain r)) \<and>
         (identifierFor (io_identifierOf o1) (ir_domain r) = ir_domain r \<or> identifierFor (io_identifierOf o1) (ir_domain r) \<in> openWildcards env (di_quarantine i) (io_requests o1))"
    unfolding io m_def planIdentifiers_cases[OF assms(1) r] using assms(4) mappedZoneWildcard_isWildcard[of "ie_clients env" "ir_domain r"]
    by (auto simp: openWildcards_def planDynamicIdentifier_def split: option.split)
qed

lemma failed_shrinks:
  assumes "orderOk o1" and "failed \<noteq> []" and "set failed \<subseteq> set (io_identifiers o1)"
    and planned: "\<And>r. r \<in> set (io_requests o1) \<Longrightarrow> identifierFor (io_identifierOf o1) (ir_domain r) = ir_domain r \<and> \<not> isWildcard (ir_domain r)
      \<or> isWildcard (identifierFor (io_identifierOf o1) (ir_domain r)) \<and> identifierFor (io_identifierOf o1) (ir_domain r) \<in> openWildcards env q (io_requests o1)"
  shows "(\<exists>r \<in> set (io_requests o1). culprit failed o1 r) \<or> (\<exists>w \<in> set failed. w \<in> openWildcards env q (io_requests o1))"
proof -
  obtain x where x: "x \<in> set failed" "x \<in> set (io_identifiers o1)" using assms(2,3) by (cases failed) auto
  then obtain r where r: "r \<in> set (io_requests o1)" "x = identifierFor (io_identifierOf o1) (ir_domain r)" using assms(1) by (auto simp: orderOk_def)
  show ?thesis using planned[OF r(1)] r x(1) by (auto simp: culprit_def Let_def)
qed

lemma length_filter_ex: "\<exists>x \<in> set xs. \<not> P x \<Longrightarrow> length (filter P xs) < length xs"
  by (meson length_filter_less)

lemma culprit_held:
  assumes "culprit failed o1 r" and "identifierFor (io_identifierOf o1) (ir_domain r) = ir_domain r \<and> \<not> isWildcard (ir_domain r)
      \<or> isWildcard (identifierFor (io_identifierOf o1) (ir_domain r)) \<and> P"
  shows "ir_domain r \<in> set failed"
  using assms by (auto simp: culprit_def Let_def)

text \<open>C31: a failed order always makes progress and loses nobody. Whatever the CA answered, fewer names are left to order, or fewer wildcards are left to try
  for them, than before the order (so a batch that keeps failing ends), and every name of the order is then either on hold or back among the survivors.
\<close>
theorem failed_order_progress:
  assumes "distinct (domainsOf requests)" and "\<forall>r \<in> set requests. \<not> isWildcard (ir_domain r)"
    and "planOrders env requests i = (orders, dropped, i')" and "o1 \<in> set orders"
    and "handleObtainFailure retryTime env o1 err (di_quarantine i) = (q', survivors)"
  shows "openWork env q' survivors < openWork env (di_quarantine i) (io_requests o1) \<and>
    (\<forall>r \<in> set (io_requests o1). isQuarantined (ie_now env) q' (ir_domain r) \<or> ir_domain r \<in> set (domainsOf survivors))"
proof -
  let ?q = "di_quarantine i" and ?now = "ie_now env" and ?rs = "io_requests o1"
  note req = planned_request[OF assms(1,3,4)]
  have planned: "identifierFor (io_identifierOf o1) (ir_domain r) = ir_domain r \<and> \<not> isWildcard (ir_domain r)
      \<or> isWildcard (identifierFor (io_identifierOf o1) (ir_domain r)) \<and> identifierFor (io_identifierOf o1) (ir_domain r) \<in> openWildcards env ?q ?rs" if "r \<in> set ?rs" for r
    using req(1)[OF that] req(3)[OF that] assms(2) by auto
  have ok: "orderOk o1" using planOrders_spec(5)[OF assms(1,3)] assms(4) by blast
  then have ids: "io_identifiers o1 \<noteq> []" and some: "?rs \<noteq> []" by (auto simp: orderOk_def)
  have fewer: "openWork env q2 (filter (\<lambda>r. \<not> culprit failed o1 r) ?rs) < openWork env ?q ?rs"
    if f: "failed \<noteq> []" "set failed \<subseteq> set (io_identifiers o1)" and q2: "\<And>x. isQuarantined ?now q2 x \<longleftrightarrow> x \<in> set failed \<or> isQuarantined ?now ?q x" for failed q2
  proof (rule openWork_less)
    show "openWildcards env q2 (filter (\<lambda>r. \<not> culprit failed o1 r) ?rs) \<subseteq> openWildcards env ?q ?rs" by (auto simp: openWildcards_def q2)
    have "w \<notin> openWildcards env q2 (filter (\<lambda>r. \<not> culprit failed o1 r) ?rs)" if "w \<in> set failed" for w using that by (simp add: openWildcards_def q2)
    then show "length (filter (\<lambda>r. \<not> culprit failed o1 r) ?rs) < length ?rs \<or> openWildcards env q2 (filter (\<lambda>r. \<not> culprit failed o1 r) ?rs) \<noteq> openWildcards env ?q ?rs"
      using failed_shrinks[OF ok f planned] length_filter_ex[of ?rs "\<lambda>r. \<not> culprit failed o1 r"] by blast
  qed simp
  show ?thesis
  proof (cases "parseRateLimited retryTime err")
    case (Some limit)
    let ?named = "rateLimitedDomains limit (io_identifiers o1)"
    show ?thesis
    proof (cases "?named = []")
      case True
      then have "survivors = []" and q': "q' = limitAll ?now (rl_retryAfter limit) (domainsOf ?rs) (limitAll ?now (rl_retryAfter limit) (io_identifiers o1) ?q)"
        using assms(5) Some by (auto simp: handleObtainFailure_def handleRateLimited_def Let_def)
      then show ?thesis using some by (auto simp: openWork_def openWildcards_def isQuarantined_limitAll domainsOf_def)
    next
      case False
      then have s: "survivors = filter (\<lambda>r. \<not> culprit ?named o1 r) ?rs" and q': "q' = limitAll ?now (rl_retryAfter limit) ?named ?q"
        using assms(5) Some by (auto simp: handleObtainFailure_def handleRateLimited_def Let_def)
      have "openWork env q' survivors < openWork env ?q ?rs" unfolding s
        by (rule fewer[OF False rateLimitedDomains_members]) (simp add: q' isQuarantined_limitAll)
      moreover have "isQuarantined ?now q' (ir_domain r)" if "r \<in> set ?rs" "culprit ?named o1 r" for r
        using culprit_held[OF that(2) planned[OF that(1)]] by (simp add: q' isQuarantined_limitAll)
      ultimately show ?thesis by (auto simp: s domainsOf_def)
    qed
  next
    case None
    let ?failed = "identifyFailedDomains err (io_identifiers o1) (ie_preflight env) (Some (hasDNSProviderFor (ie_clients env)))"
    let ?rest = "filter (\<lambda>r. \<not> culprit ?failed o1 r) ?rs"
    have s: "survivors = map (\<lambda>r. r\<lparr>ir_retried := True\<rparr>) (filter (\<lambda>r. \<not> ir_retried r) ?rest)"
      and q': "q' = holdAll ?now (domainsOf (filter ir_retried ?rest)) (holdAll ?now ?failed ?q)"
      using assms(5) None by (auto simp: handleObtainFailure_def Let_def)
    have "openWork env (holdAll ?now ?failed ?q) ?rest < openWork env ?q ?rs"
      by (rule fewer[OF identifyFailedDomains_members(2)[OF ids] identifyFailedDomains_members(1)]) (simp add: isQuarantined_holdAll)
    moreover have "openWork env q' survivors \<le> openWork env (holdAll ?now ?failed ?q) ?rest"
    proof -
      have "length survivors \<le> length ?rest" unfolding s length_map by (rule length_filter_le)
      moreover have "openWildcards env q' survivors = {}" by (auto simp: s openWildcards_def)
      ultimately show ?thesis unfolding openWork_def by simp
    qed
    moreover have "isQuarantined ?now q' (ir_domain r)" if "r \<in> set ?rs" "culprit ?failed o1 r \<or> ir_retried r" for r
      using culprit_held[OF _ planned[OF that(1)]] that by (auto simp: q' isQuarantined_holdAll domainsOf_def)
    ultimately show ?thesis by (force simp: s domainsOf_def)
  qed
qed

theorem failed_order_progress_witness:
  "let requests = fst (nextBatch runEnv runQueued); orders = fst (planOrders runEnv requests runQueued);
       (q', survivors) = handleObtainFailure (\<lambda>_. None) runEnv (hd orders) (Opaque ''refused'') (di_quarantine runQueued)
   in map ir_domain survivors = [''x.a.dk'', ''y.a.dk''] \<and> list_all ir_retried survivors \<and> openWork runEnv q' survivors < openWork runEnv (di_quarantine runQueued) (io_requests (hd orders))"
proof -
  define requests where "requests = fst (nextBatch runEnv runQueued)"
  define orders where "orders = fst (planOrders runEnv requests runQueued)"
  define res where "res = handleObtainFailure (\<lambda>_. None) runEnv (hd orders) (Opaque ''refused'') (di_quarantine runQueued)"
  have 1: "distinct (domainsOf requests)" unfolding requests_def by code_simp
  have 2: "\<forall>r \<in> set requests. \<not> isWildcard (ir_domain r)" unfolding requests_def by code_simp
  have "length orders = 1" unfolding orders_def requests_def by code_simp
  then have 3: "hd orders \<in> set orders" by (cases orders) auto
  have 4: "map ir_domain (snd res) = [''x.a.dk'', ''y.a.dk''] \<and> list_all ir_retried (snd res)" unfolding res_def orders_def requests_def by code_simp
  obtain dropped i' where p: "planOrders runEnv requests runQueued = (orders, dropped, i')" unfolding orders_def by (metis fst_conv prod_cases3)
  have "openWork runEnv (fst res) (snd res) < openWork runEnv (di_quarantine runQueued) (io_requests (hd orders))"
    using failed_order_progress[OF 1 2 p 3, of "\<lambda>_. None" "Opaque ''refused''" "fst res" "snd res"] by (simp add: res_def)
  then show ?thesis using 4 unfolding res_def orders_def requests_def Let_def case_prod_beta by blast
qed

text \<open>A rejection that names nobody is counted twice against every concrete name of the order: once as identifier, once as name.\<close>

lemma account_limit_counts_twice:
  "let o1 = \<lparr>io_identifiers = [''b.dk''], io_requests = [\<lparr>ir_domain = ''b.dk'', ir_service = ''web'', ir_retried = False\<rparr>], io_identifierOf = [(''b.dk'', ''b.dk'')]\<rparr>;
       (q, _) = handleRateLimited 0 o1 \<lparr>rl_identifiers = [], rl_retryAfter = zeroTime\<rparr> []
   in map_option qe_failures (map_of q ''b.dk'') = Some 2 \<and> map_option qe_until (map_of q ''b.dk'') = Some hour"
  by code_simp

end
