(* ===== verification/Cert_Manager.thy ===== *)
theory Cert_Manager
  imports Domain_Issuer
begin

text \<open>
  The shared certificate manager: \<open>san_cert_manager.go\<close>, \<open>san_cert_dynamic.go\<close>, \<open>san_cert_directories.go\<close> and the batch guard of
  \<open>san_cert_batch_guard.go\<close>. Its maps are association lists; the order of a list stands for the order in which Go ranges over the map. The key material is a
  value of the type \<open>'k\<close>, the certificate identifier (a truncated SHA-256 of the names) the parameter \<open>certID\<close>, and the answer of the CA an input.
\<close>

section \<open>State\<close>

record 'k managedCert =
  mc_identifier :: string
  mc_domains :: "string list"
  mc_notAfter :: time
  mc_certificate :: "'k option"
  mc_directory :: string

record http01Challenge =
  ch_domain :: string
  ch_keyAuth :: string

record ('k, 'o) certManager =
  cm_directory :: string
  cm_ready :: bool
  cm_clients :: "'o dnsClients"
  cm_grouper :: domainGrouper
  cm_certificates :: "(string \<times> 'k managedCert) list"
  cm_domainToCert :: "(string \<times> string) list"
  cm_pending :: "(string \<times> string) list"
  cm_registered :: "(string \<times> string) list"
  cm_dynamic :: "(string \<times> string) list"
  cm_serviceDirectories :: "(string \<times> string) list"
  cm_provisioning :: "string list"
  cm_tokens :: "(string \<times> http01Challenge) list"
  cm_quarantine :: "domainQuarantine option"

definition maxSANsPerCertificate :: nat where
  "maxSANsPerCertificate = 100"

definition lookupStr :: "(string \<times> string) list \<Rightarrow> string \<Rightarrow> string" where
  "lookupStr m k = (case map_of m k of Some v \<Rightarrow> v | None \<Rightarrow> [])"

definition certIDCovering :: "('k, 'o) certManager \<Rightarrow> string \<Rightarrow> string" where
  "certIDCovering m domain = (case map_of (cm_domainToCert m) domain of
     Some c \<Rightarrow> c
   | None \<Rightarrow> (case wildcardParent domain of Some parent \<Rightarrow> lookupStr (cm_domainToCert m) parent | None \<Rightarrow> []))"

definition coveringCert :: "('k, 'o) certManager \<Rightarrow> string \<Rightarrow> 'k managedCert option" where
  "coveringCert m domain = (if certIDCovering m domain = [] then None else map_of (cm_certificates m) (certIDCovering m domain))"

section \<open>Directories\<close>

definition setServiceDirectory :: "string \<Rightarrow> string \<Rightarrow> ('k, 'o) certManager \<Rightarrow> ('k, 'o) certManager" where
  "setServiceDirectory service directory m =
     (if directory = [] \<or> directory = cm_directory m then m\<lparr>cm_serviceDirectories := AList.delete service (cm_serviceDirectories m)\<rparr>
      else m\<lparr>cm_serviceDirectories := AList.update service directory (cm_serviceDirectories m)\<rparr>)"

definition directoryForService :: "('k, 'o) certManager \<Rightarrow> string \<Rightarrow> string" where
  "directoryForService m service = (case map_of (cm_serviceDirectories m) service of Some d \<Rightarrow> d | None \<Rightarrow> cm_directory m)"

definition normalizeDirectory :: "('k, 'o) certManager \<Rightarrow> string \<Rightarrow> string" where
  "normalizeDirectory m directory = (if directory = [] then cm_directory m else directory)"

definition certMatchesServiceDirectory :: "('k, 'o) certManager \<Rightarrow> 'k managedCert \<Rightarrow> string \<Rightarrow> bool" where
  "certMatchesServiceDirectory m cert service \<longleftrightarrow> normalizeDirectory m (mc_directory cert) = directoryForService m service"

definition betterOwner :: "('k, 'o) certManager \<Rightarrow> string \<Rightarrow> 'k managedCert option \<Rightarrow> string \<times> string \<Rightarrow> string \<times> string \<Rightarrow> string \<times> string" where
  "betterOwner m wildcard cert = (\<lambda>(covered, service) (bestDomain, bestService).
     if service = [] \<or> \<not> matchesWildcard wildcard covered then (bestDomain, bestService)
     else if covered \<in> fst ` set (cm_pending m) then (bestDomain, bestService)
     else if (case cert of Some c \<Rightarrow> certIDCovering m covered \<noteq> mc_identifier c | None \<Rightarrow> False) then (bestDomain, bestService)
     else if bestDomain = [] \<or> covered < bestDomain then (covered, service) else (bestDomain, bestService))"

definition optionStr :: "string \<Rightarrow> string option" where
  "optionStr s = (if s = [] then None else Some s)"

definition wildcardOwner :: "('k, 'o) certManager \<Rightarrow> string \<Rightarrow> 'k managedCert option \<Rightarrow> string option" where
  "wildcardOwner m wildcard cert = optionStr (snd (fold (betterOwner m wildcard cert) (cm_registered m @ cm_dynamic m) ([], [])))"

definition ownerOf :: "('k, 'o) certManager \<Rightarrow> string \<Rightarrow> string option" where
  "ownerOf m domain =
     (if isWildcard domain then wildcardOwner m domain None
      else if lookupStr (cm_registered m) domain \<noteq> [] then Some (lookupStr (cm_registered m) domain)
      else if lookupStr (cm_dynamic m) domain \<noteq> [] then Some (lookupStr (cm_dynamic m) domain)
      else optionStr (lookupStr (cm_pending m) domain))"

definition certOwnedDirectory :: "('k, 'o) certManager \<Rightarrow> 'k managedCert \<Rightarrow> string \<Rightarrow> string option" where
  "certOwnedDirectory m cert domain =
     map_option (directoryForService m) (if isWildcard domain then wildcardOwner m domain (Some cert) else ownerOf m domain)"

fun firstOwned :: "('k, 'o) certManager \<Rightarrow> string list \<Rightarrow> string option" where
  "firstOwned m [] = None"
| "firstOwned m (d # ds) = (case ownerOf m d of Some s \<Rightarrow> Some (directoryForService m s) | None \<Rightarrow> firstOwned m ds)"

definition directoryForDomains :: "('k, 'o) certManager \<Rightarrow> string list \<Rightarrow> string" where
  "directoryForDomains m domains = (case firstOwned m (filter (\<lambda>d. \<not> isWildcard d) domains) of
     Some directory \<Rightarrow> directory
   | None \<Rightarrow> (case firstOwned m domains of Some directory \<Rightarrow> directory | None \<Rightarrow> cm_directory m))"

definition directoryForDomain :: "('k, 'o) certManager \<Rightarrow> string \<Rightarrow> string" where
  "directoryForDomain m domain = (case ownerOf m domain of Some s \<Rightarrow> directoryForService m s | None \<Rightarrow> cm_directory m)"

definition certDirectoryMismatched :: "('k, 'o) certManager \<Rightarrow> 'k managedCert \<Rightarrow> bool" where
  "certDirectoryMismatched m cert \<longleftrightarrow>
     list_ex (\<lambda>d. case certOwnedDirectory m cert d of Some desired \<Rightarrow> desired \<noteq> normalizeDirectory m (mc_directory cert) | None \<Rightarrow> False) (mc_domains cert)"

definition desiredDirectory :: "('k, 'o) certManager \<Rightarrow> 'k managedCert \<Rightarrow> string \<Rightarrow> string" where
  "desiredDirectory m cert domain = (case certOwnedDirectory m cert domain of Some desired \<Rightarrow> desired | None \<Rightarrow> normalizeDirectory m (mc_directory cert))"

definition splitByDesiredDirectory :: "('k, 'o) certManager \<Rightarrow> 'k managedCert \<Rightarrow> string list \<Rightarrow> (string \<times> string list) list" where
  "splitByDesiredDirectory m cert domains =
     map (\<lambda>k. (k, filter (\<lambda>d. desiredDirectory m cert d = k) domains)) (firstKeys (desiredDirectory m cert) domains)"

section \<open>Registration and the allowlist\<close>

datatype managerError = NoServerName | ManagerNotReady | CertNotFound

fun firstCovering :: "time \<Rightarrow> ('k, 'o) certManager \<Rightarrow> string \<Rightarrow> string \<Rightarrow> (string \<times> 'k managedCert) list \<Rightarrow> 'k managedCert option" where
  "firstCovering now m domain service [] = None"
| "firstCovering now m domain service ((_, cert) # certs) =
     (if mc_notAfter cert - now \<le> 24 * hour \<or> \<not> certMatchesServiceDirectory m cert service \<or> domain \<notin> set (mc_domains cert)
      then firstCovering now m domain service certs else Some cert)"

definition registerDomain :: "time \<Rightarrow> string \<Rightarrow> string \<Rightarrow> ('k, 'o) certManager \<Rightarrow> managerError + ('k, 'o) certManager" where
  "registerDomain now domain service m =
     (if domain = [] then Inr m
      else if \<not> cm_ready m then Inl ManagerNotReady
      else
        (let m1 = m\<lparr>cm_registered := AList.update domain service (cm_registered m)\<rparr>
         in if (case coveringCert m1 domain of Some c \<Rightarrow> 24 * hour < mc_notAfter c - now \<and> certMatchesServiceDirectory m1 c service | None \<Rightarrow> False)
            then Inr m1
            else case firstCovering now m1 domain service (cm_certificates m1) of
                   Some c \<Rightarrow> Inr (m1\<lparr>cm_domainToCert := AList.update domain (mc_identifier c) (cm_domainToCert m1)\<rparr>)
                 | None \<Rightarrow> Inr (m1\<lparr>cm_pending := AList.update domain service (cm_pending m1)\<rparr>)))"

definition unregisterDomain :: "string \<Rightarrow> ('k, 'o) certManager \<Rightarrow> ('k, 'o) certManager" where
  "unregisterDomain domain m = m\<lparr>cm_pending := AList.delete domain (cm_pending m), cm_registered := AList.delete domain (cm_registered m)\<rparr>"

definition setDynamicDomains :: "string \<Rightarrow> string list \<Rightarrow> ('k, 'o) certManager \<Rightarrow> ('k, 'o) certManager" where
  "setDynamicDomains service domains m =
     m\<lparr>cm_dynamic := fold (\<lambda>d. AList.update d service) domains (filter (\<lambda>(_, owner). owner \<noteq> service) (cm_dynamic m))\<rparr>"

definition dynamicDomainsOf :: "string \<Rightarrow> ('k, 'o) certManager \<Rightarrow> string list" where
  "dynamicDomainsOf service m = map fst (filter (\<lambda>(_, owner). owner = service) (cm_dynamic m))"

definition coversAllowedDomain :: "('k, 'o) certManager \<Rightarrow> string \<Rightarrow> bool" where
  "coversAllowedDomain m wildcard \<longleftrightarrow> list_ex (\<lambda>(d, _). matchesWildcard wildcard d) (cm_registered m) \<or> list_ex (\<lambda>(d, _). matchesWildcard wildcard d) (cm_dynamic m)"

definition domainAllowed :: "('k, 'o) certManager \<Rightarrow> string \<Rightarrow> bool" where
  "domainAllowed m domain \<longleftrightarrow>
     (if isWildcard domain then coversAllowedDomain m domain else domain \<in> fst ` set (cm_registered m) \<or> domain \<in> fst ` set (cm_dynamic m))"

definition coversRegisteredDomain :: "('k, 'o) certManager \<Rightarrow> string \<Rightarrow> bool" where
  "coversRegisteredDomain m identifier \<longleftrightarrow>
     (if isWildcard identifier then list_ex (\<lambda>(d, _). matchesWildcard identifier d) (cm_registered m) else identifier \<in> fst ` set (cm_registered m))"

definition hasCertificate :: "('k, 'o) certManager \<Rightarrow> string \<Rightarrow> bool" where
  "hasCertificate m domain \<longleftrightarrow> certIDCovering m domain \<noteq> []"

definition hasValidCertificate :: "time \<Rightarrow> ('k, 'o) certManager \<Rightarrow> string \<Rightarrow> bool" where
  "hasValidCertificate now m domain \<longleftrightarrow> (case coveringCert m domain of
     None \<Rightarrow> False
   | Some c \<Rightarrow> mc_certificate c \<noteq> None \<and> 24 * hour < mc_notAfter c - now
       \<and> (case ownerOf m domain of Some service \<Rightarrow> certMatchesServiceDirectory m c service | None \<Rightarrow> True))"

section \<open>The handshake\<close>

text \<open>What a handshake gets: an error, a certificate, or a synchronous order; with it, the request handed to the issuer.\<close>

datatype 'k handshake = Refused managerError | Served 'k | Provision

definition getCertificate :: "time \<Rightarrow> string \<Rightarrow> ('k, 'o) certManager \<Rightarrow> 'k handshake \<times> (string \<times> string) option" where
  "getCertificate now domain m =
     (if domain = [] then (Refused NoServerName, None)
      else if \<not> cm_ready m then (Refused ManagerNotReady, None)
      else
        (let isRegistered = domain \<in> fst ` set (cm_registered m); isDynamic = domain \<in> fst ` set (cm_dynamic m);
             dynamicService = lookupStr (cm_dynamic m) domain;
             owner = (if isRegistered then lookupStr (cm_registered m) domain else dynamicService);
             cert = coveringCert m domain;
             mismatch = (case cert of Some c \<Rightarrow> (isRegistered \<or> isDynamic) \<and> \<not> certMatchesServiceDirectory m c owner | None \<Rightarrow> False);
             fallThrough = (if isRegistered then (Provision, None)
                            else if isDynamic then (Refused CertNotFound, Some (domain, dynamicService))
                            else (Refused CertNotFound, None))
         in case cert of
              None \<Rightarrow> fallThrough
            | Some c \<Rightarrow>
                (case mc_certificate c of
                   None \<Rightarrow> fallThrough
                 | Some k \<Rightarrow>
                     if 24 * hour < mc_notAfter c - now \<and> \<not> mismatch then (Served k, None)
                     else if 0 < mc_notAfter c - now \<and> \<not> (mismatch \<and> isRegistered)
                     then (Served k, if isRegistered \<or> isDynamic then Some (domain, owner) else None)
                     else fallThrough)))"

definition getServableCertForDomain :: "time \<Rightarrow> string \<Rightarrow> ('k, 'o) certManager \<Rightarrow> managerError + 'k" where
  "getServableCertForDomain now domain m = (case coveringCert m domain of
     None \<Rightarrow> Inl CertNotFound
   | Some c \<Rightarrow>
       (case mc_certificate c of
          None \<Rightarrow> Inl CertNotFound
        | Some k \<Rightarrow>
            if mc_notAfter c - now \<le> 0 then Inl CertNotFound
            else if lookupStr (cm_registered m) domain \<noteq> [] \<and> \<not> certMatchesServiceDirectory m c (lookupStr (cm_registered m) domain)
            then Inl CertNotFound else Inr k))"

section \<open>Adopting and removing certificates\<close>

definition takesOver :: "('k, 'o) certManager \<Rightarrow> 'k managedCert \<Rightarrow> string \<Rightarrow> string \<times> string \<Rightarrow> bool" where
  "takesOver m managed wildcard = (\<lambda>(domain, c).
     \<not> (c = mc_identifier managed \<or> isWildcard domain \<or> \<not> matchesWildcard wildcard domain)
     \<and> (let owner = (case map_of (cm_registered m) domain of Some s \<Rightarrow> s | None \<Rightarrow> lookupStr (cm_dynamic m) domain)
        in owner \<noteq> [] \<and> certMatchesServiceDirectory m managed owner))"

definition adoptWildcardCoverage :: "'k managedCert \<Rightarrow> ('k, 'o) certManager \<Rightarrow> ('k, 'o) certManager" where
  "adoptWildcardCoverage managed m =
     fold (\<lambda>w m. m\<lparr>cm_domainToCert := map (\<lambda>(d, c). if takesOver m managed w (d, c) then (d, mc_identifier managed) else (d, c)) (cm_domainToCert m)\<rparr>)
       (filter isWildcard (mc_domains managed)) m"

text \<open>\<open>adoptCertificateAt\<close> on a certificate that parsed: its key material and the end of its validity.\<close>

definition adoptCertificateAt :: "(string list \<Rightarrow> string) \<Rightarrow> 'k \<Rightarrow> time \<Rightarrow> string list \<Rightarrow> string \<Rightarrow> ('k, 'o) certManager \<Rightarrow> ('k, 'o) certManager" where
  "adoptCertificateAt certID key notAfter sortedDomains directory m =
     (let managed = \<lparr>mc_identifier = certID sortedDomains, mc_domains = sortedDomains, mc_notAfter = notAfter, mc_certificate = Some key, mc_directory = directory\<rparr>
      in adoptWildcardCoverage managed
           (m\<lparr>cm_certificates := AList.update (certID sortedDomains) managed (cm_certificates m),
              cm_domainToCert := fold (\<lambda>d. AList.update d (certID sortedDomains)) sortedDomains (cm_domainToCert m)\<rparr>))"

definition adoptCertificate :: "(string list \<Rightarrow> string) \<Rightarrow> 'k \<Rightarrow> time \<Rightarrow> string list \<Rightarrow> ('k, 'o) certManager \<Rightarrow> ('k, 'o) certManager" where
  "adoptCertificate certID key notAfter sortedDomains m = adoptCertificateAt certID key notAfter sortedDomains (directoryForDomains m sortedDomains) m"

definition removeCertificate :: "string \<Rightarrow> ('k, 'o) certManager \<Rightarrow> ('k, 'o) certManager" where
  "removeCertificate c m =
     m\<lparr>cm_certificates := AList.delete c (cm_certificates m), cm_domainToCert := filter (\<lambda>(_, x). x \<noteq> c) (cm_domainToCert m)\<rparr>"

text \<open>The persisted state; the key pair of a certificate is read back from its files, which may be missing.\<close>

record 'k managerState =
  ms_certificates :: "(string \<times> 'k managedCert) list"
  ms_domainMap :: "(string \<times> string) list"

definition persistState :: "('k, 'o) certManager \<Rightarrow> 'k managerState" where
  "persistState m = \<lparr>ms_certificates = map (\<lambda>(c, cert). (c, cert\<lparr>mc_certificate := None\<rparr>)) (cm_certificates m), ms_domainMap = cm_domainToCert m\<rparr>"

definition loadState :: "(string \<Rightarrow> 'k option) \<Rightarrow> 'k managerState \<Rightarrow> ('k, 'o) certManager \<Rightarrow> ('k, 'o) certManager" where
  "loadState files s m =
     m\<lparr>cm_certificates := fold (\<lambda>(c, cert). AList.update c (cert\<lparr>mc_certificate := files c\<rparr>)) (ms_certificates s) (cm_certificates m),
       cm_domainToCert := ms_domainMap s\<rparr>"

definition sanitizeFilename :: "string \<Rightarrow> string" where
  "sanitizeFilename s = map (\<lambda>c. let n = of_char c :: nat in
     if (97 \<le> n \<and> n \<le> 122) \<or> (65 \<le> n \<and> n \<le> 90) \<or> (48 \<le> n \<and> n \<le> 57) \<or> c \<in> set ''-_.'' then c else CHR ''_'') s"

section \<open>The batch guard\<close>

definition preflightTrigger :: "time \<Rightarrow> (string \<Rightarrow> bool) option \<Rightarrow> string \<Rightarrow> ('k, 'o) certManager \<Rightarrow> bool \<times> ('k, 'o) certManager" where
  "preflightTrigger now preflight domain m = (case (preflight, cm_quarantine m) of
     (Some fails, Some q) \<Rightarrow>
       if isWildcard domain \<or> hasDNSProviderFor (cm_clients m) domain then (True, m)
       else if fails domain then (False, m\<lparr>cm_quarantine := Some (fst (recordFailure now q domain QuarantinePreflight))\<rparr>)
       else (True, m\<lparr>cm_quarantine := Some (fst (releaseHold now q domain))\<rparr>)
   | _ \<Rightarrow> (True, m))"

definition filterBatchMates :: "time \<Rightarrow> (string \<Rightarrow> bool) option \<Rightarrow> string \<Rightarrow> string list \<Rightarrow> ('k, 'o) certManager \<Rightarrow> string list \<times> ('k, 'o) certManager" where
  "filterBatchMates now preflight trigger domains m = (case cm_quarantine m of
     None \<Rightarrow> (domains, m)
   | Some q \<Rightarrow>
       (let mates = filter (\<lambda>d. d \<noteq> trigger \<and> \<not> isQuarantined now q d) domains;
            unreachable = probeDomains mates preflight (Some (hasDNSProviderFor (cm_clients m)));
            q' = fold (\<lambda>d q. fst (recordFailure now q d QuarantinePreflight)) unreachable q
        in (trigger # filter (\<lambda>d. d \<notin> set unreachable) mates, m\<lparr>cm_quarantine := Some q'\<rparr>)))"

definition clearBatchQuarantine :: "string list \<Rightarrow> ('k, 'o) certManager \<Rightarrow> ('k, 'o) certManager" where
  "clearBatchQuarantine domains m = (case cm_quarantine m of None \<Rightarrow> m | Some q \<Rightarrow> m\<lparr>cm_quarantine := Some (fold (\<lambda>d q. clearHold q d) domains q)\<rparr>)"

definition attributeRateLimit :: "time \<Rightarrow> acmeRateLimit \<Rightarrow> string list \<Rightarrow> string list \<Rightarrow> domainQuarantine \<Rightarrow> domainQuarantine \<times> string list" where
  "attributeRateLimit now limit ordered requested q =
     (let named = rateLimitedDomains limit ordered
      in if named = [] \<and> rl_retryAfter limit = zeroTime then (q, requested)
         else (let culprits = (if named = [] then requested else named)
               in (fold (\<lambda>d q. fst (recordRateLimited now q d (rl_retryAfter limit))) (filter (identifiersCover culprits) requested) q,
                   filter (\<lambda>d. \<not> identifiersCover culprits d) requested)))"

definition attributeBatchFailure :: "time \<Rightarrow> (string \<Rightarrow> time option) \<Rightarrow> (string \<Rightarrow> bool) option \<Rightarrow> acmeError \<Rightarrow> string list \<Rightarrow> string list \<Rightarrow> ('k, 'o) certManager \<Rightarrow>
    string list \<times> ('k, 'o) certManager" where
  "attributeBatchFailure now retryTime preflight err ordered requested m = (case cm_quarantine m of
     None \<Rightarrow> (requested, m)
   | Some q \<Rightarrow>
       (case parseRateLimited retryTime err of
          Some limit \<Rightarrow> (case attributeRateLimit now limit ordered requested q of (q', survivors) \<Rightarrow> (survivors, m\<lparr>cm_quarantine := Some q'\<rparr>))
        | None \<Rightarrow>
            (let named = failedDomainsFromError err ordered;
                 culprits = (if named = [] then probeDomains ordered preflight (Some (hasDNSProviderFor (cm_clients m))) else named)
             in if culprits = [] then (requested, m)
                else (filter (\<lambda>d. \<not> identifiersCover culprits d) requested,
                      m\<lparr>cm_quarantine := Some (fold (\<lambda>d q. fst (recordFailure now q d QuarantineACME)) (filter (identifiersCover culprits) requested) q)\<rparr>))))"

section \<open>Provisioning on the handshake\<close>

definition restorePending :: "string list \<Rightarrow> ('k, 'o) certManager \<Rightarrow> ('k, 'o) certManager" where
  "restorePending domains m =
     m\<lparr>cm_pending := fold (\<lambda>d pending. if d \<in> fst ` set pending then pending else AList.update d [] pending) domains (cm_pending m)\<rparr>"

definition provisioningKey :: "('k, 'o) certManager \<Rightarrow> string \<Rightarrow> string" where
  "provisioningKey m domain = ''service:'' @ lookupStr (cm_registered m) domain"

definition joinsBatch :: "time \<Rightarrow> ('k, 'o) certManager \<Rightarrow> string \<Rightarrow> string \<Rightarrow> bool" where
  "joinsBatch now m domain mate \<longleftrightarrow>
     mate \<noteq> domain \<and> \<not> (case cm_quarantine m of Some q \<Rightarrow> isQuarantined now q mate | None \<Rightarrow> False)
     \<and> lookupStr (cm_registered m) mate = lookupStr (cm_registered m) domain \<and> directoryForDomain m mate = directoryForDomain m domain"

definition batchCandidates :: "time \<Rightarrow> string \<Rightarrow> ('k, 'o) certManager \<Rightarrow> string list" where
  "batchCandidates now domain m = take maxSANsPerCertificate (domain # filter (joinsBatch now m domain) (map fst (cm_pending m)))"

text \<open>
  The first half of \<open>provisionCertificate\<close>: the probe of the asking name and the claim of its service's slot. \<open>ProvisionWait\<close> is a handshake that waits for the
  order another one placed.
\<close>

datatype provisionStart = ProvisionRefused | ProvisionWait | ProvisionBatch "string list"

definition provisionClaim :: "time \<Rightarrow> (string \<Rightarrow> bool) option \<Rightarrow> string \<Rightarrow> ('k, 'o) certManager \<Rightarrow> provisionStart \<times> ('k, 'o) certManager" where
  "provisionClaim now preflight domain m0 = (case preflightTrigger now preflight domain m0 of
     (False, m) \<Rightarrow> (ProvisionRefused, m)
   | (True, m) \<Rightarrow>
       if provisioningKey m domain \<in> set (cm_provisioning m) then (ProvisionWait, m)
       else (ProvisionBatch (batchCandidates now domain m), m\<lparr>cm_provisioning := provisioningKey m domain # cm_provisioning m\<rparr>))"

text \<open>The second half, up to the order: the names asked for, the identifiers ordered, and the manager with the deferred names pending again.\<close>

definition provisionPlan :: "time \<Rightarrow> (string \<Rightarrow> bool) option \<Rightarrow> (string \<Rightarrow> string option) \<Rightarrow> string \<Rightarrow> string list \<Rightarrow> ('k, 'o) certManager \<Rightarrow>
    string list \<times> string list \<times> ('k, 'o) certManager" where
  "provisionPlan now preflight etld1 domain candidates m0 = (case filterBatchMates now preflight domain candidates m0 of (requested, m1) \<Rightarrow>
     (let m = m1\<lparr>cm_pending := filter (\<lambda>(d, _). d \<notin> set requested) (cm_pending m1)\<rparr>;
          ordered = sort (planIssuanceDomains (cm_clients m) (cm_grouper m) etld1 requested);
          parts = splitByProviderZone (cm_clients m) ordered
      in if length parts \<le> 1 then (requested, ordered, m)
         else (let chosen = (case find (\<lambda>p. identifiersCover p domain) parts of Some p \<Rightarrow> p | None \<Rightarrow> hd parts)
               in (requested, chosen, restorePending (filter (\<lambda>d. \<not> identifiersCover chosen d) requested) m))))"

datatype 'k orderAnswer = NoToken | OrderFailed acmeError | Unusable | Obtained 'k time

definition provisionFinish :: "time \<Rightarrow> (string \<Rightarrow> time option) \<Rightarrow> (string \<Rightarrow> bool) option \<Rightarrow> (string list \<Rightarrow> string) \<Rightarrow> string list \<Rightarrow> string list \<Rightarrow> 'k orderAnswer \<Rightarrow>
    ('k, 'o) certManager \<Rightarrow> 'k option \<times> ('k, 'o) certManager" where
  "provisionFinish now retryTime preflight certID requested ordered answer m = (case answer of
     NoToken \<Rightarrow> (None, restorePending requested m)
   | OrderFailed err \<Rightarrow> (case attributeBatchFailure now retryTime preflight err ordered requested m of (survivors, m') \<Rightarrow> (None, restorePending survivors m'))
   | Unusable \<Rightarrow> (None, m)
   | Obtained key notAfter \<Rightarrow> (Some key, clearBatchQuarantine requested (adoptCertificate certID key notAfter ordered m)))"

definition provisionRelease :: "string \<Rightarrow> ('k, 'o) certManager \<Rightarrow> ('k, 'o) certManager" where
  "provisionRelease key m = m\<lparr>cm_provisioning := removeAll key (cm_provisioning m)\<rparr>"

section \<open>HTTP-01 challenges\<close>

definition presentChallenge :: "string \<Rightarrow> string \<Rightarrow> string \<Rightarrow> ('k, 'o) certManager \<Rightarrow> ('k, 'o) certManager" where
  "presentChallenge domain token keyAuth m = m\<lparr>cm_tokens := AList.update token \<lparr>ch_domain = domain, ch_keyAuth = keyAuth\<rparr> (cm_tokens m)\<rparr>"

definition cleanUpChallenge :: "string \<Rightarrow> ('k, 'o) certManager \<Rightarrow> ('k, 'o) certManager" where
  "cleanUpChallenge token m = m\<lparr>cm_tokens := AList.delete token (cm_tokens m)\<rparr>"

definition requestHostname :: "string \<Rightarrow> string" where
  "requestHostname host = trimSuffix (case splitHostPort host of Some (h, _) \<Rightarrow> h | None \<Rightarrow> host) ''.''"

text \<open>The key authorization a request is answered with; otherwise the fallback handler gets it.\<close>

definition challengeAnswer :: "string \<Rightarrow> string \<Rightarrow> ('k, 'o) certManager \<Rightarrow> string option" where
  "challengeAnswer host path m = (case cutPrefix path ''/.well-known/acme-challenge/'' of
     Some token \<Rightarrow>
       if token = [] then None
       else (case map_of (cm_tokens m) token of
               None \<Rightarrow> None
             | Some c \<Rightarrow> if \<not> equalFold (requestHostname host) (ch_domain c) then None else Some (ch_keyAuth c))
   | None \<Rightarrow> None)"

section \<open>The store\<close>

text \<open>
  What holds of the store at any moment: certificates are filed under the identifier of their names, and every name mapped to a certificate is mapped to one the
  store has and that covers it.
\<close>

definition storeOk :: "(string list \<Rightarrow> string) \<Rightarrow> ('k, 'o) certManager \<Rightarrow> bool" where
  "storeOk certID m \<longleftrightarrow> distinct (map fst (cm_certificates m)) \<and> distinct (map fst (cm_domainToCert m))
     \<and> (\<forall>(c, cert) \<in> set (cm_certificates m). mc_identifier cert = c \<and> c = certID (mc_domains cert))
     \<and> (\<forall>(d, c) \<in> set (cm_domainToCert m). \<exists>cert. (c, cert) \<in> set (cm_certificates m) \<and> identifiersCover (mc_domains cert) d)"

lemma storeOk_cong: "cm_certificates m' = cm_certificates m \<Longrightarrow> cm_domainToCert m' = cm_domainToCert m \<Longrightarrow> storeOk certID m' = storeOk certID m"
  by (simp add: storeOk_def)

lemma storeOk_mapped:
  assumes "storeOk certID m" and "(d, c) \<in> set (cm_domainToCert m)"
  obtains cert where "(c, cert) \<in> set (cm_certificates m)" "identifiersCover (mc_domains cert) d"
proof -
  have "\<forall>(d, c) \<in> set (cm_domainToCert m). \<exists>cert. (c, cert) \<in> set (cm_certificates m) \<and> identifiersCover (mc_domains cert) d"
    using assms(1) unfolding storeOk_def by (elim conjE)
  from bspec[OF this assms(2)] show thesis using that by auto
qed

lemma storeOk_filed:
  assumes "storeOk certID m" and "(c, cert) \<in> set (cm_certificates m)"
  shows "mc_identifier cert = c" "c = certID (mc_domains cert)" "map_of (cm_certificates m) c = Some cert"
  using assms by (auto simp: storeOk_def)

lemma wildcardParent_isWildcard: "wildcardParent d = Some p \<Longrightarrow> isWildcard p"
  by (auto simp: wildcardParent_def isWildcard_def hasPrefix_iff split: option.split_asm if_split_asm)

lemma wildcardParent_fix: "isWildcard p \<Longrightarrow> wildcardParent p = Some i \<Longrightarrow> i = p"
proof -
  assume "isWildcard p" and i: "wildcardParent p = Some i"
  then obtain r where p: "p = ''*.'' @ r" using isWildcard_split by blast
  have "indexOf p ''.'' = Some 1" unfolding p using indexOf_char_append[of "CHR ''.''" "''*''" r] by simp
  then show "i = p" using i by (auto simp: wildcardParent_def p split: if_split_asm)
qed

lemma identifiersCover_parent:
  assumes "wildcardParent d = Some p" and "identifiersCover ids p"
  shows "identifiersCover ids d"
proof -
  have p: "isWildcard p" using wildcardParent_isWildcard[OF assms(1)] .
  from assms(2) obtain i where i: "i \<in> set ids" "i = p \<or> matchesWildcard i p" by (auto simp: identifiersCover_def list_ex_iff)
  then have "i = p" using wildcardParent_fix[OF p] by (auto simp: matchesWildcard_def)
  then show ?thesis using i(1) p assms(1) by (auto simp: identifiersCover_def list_ex_iff matchesWildcard_def)
qed

lemma store_lookup:
  assumes "storeOk certID m" and "map_of (cm_domainToCert m) d = Some c" and "map_of (cm_certificates m) c = Some cert"
  shows "identifiersCover (mc_domains cert) d"
proof -
  obtain cert' where "(c, cert') \<in> set (cm_certificates m)" "identifiersCover (mc_domains cert') d"
    by (rule storeOk_mapped[OF assms(1) map_of_SomeD[OF assms(2)]])
  moreover from this have "map_of (cm_certificates m) c = Some cert'" using assms(1) by (simp add: storeOk_def)
  ultimately show ?thesis using assms(3) by simp
qed

lemma coveringCert_covers:
  assumes "storeOk certID m" and "coveringCert m d = Some cert"
  shows "identifiersCover (mc_domains cert) d" and "(certIDCovering m d, cert) \<in> set (cm_certificates m)"
proof -
  have c: "certIDCovering m d \<noteq> []" "map_of (cm_certificates m) (certIDCovering m d) = Some cert"
    using assms(2) by (auto simp: coveringCert_def split: if_split_asm)
  then show "(certIDCovering m d, cert) \<in> set (cm_certificates m)" by (simp add: map_of_SomeD)
  show "identifiersCover (mc_domains cert) d"
  proof (cases "map_of (cm_domainToCert m) d")
    case None
    then obtain p where p: "wildcardParent d = Some p" "map_of (cm_domainToCert m) p = Some (certIDCovering m d)"
      using c(1) by (auto simp: certIDCovering_def lookupStr_def split: option.split_asm)
    show ?thesis using identifiersCover_parent[OF p(1) store_lookup[OF assms(1) p(2) c(2)]] .
  next
    case (Some x)
    then have "map_of (cm_domainToCert m) d = Some (certIDCovering m d)" by (simp add: certIDCovering_def)
    then show ?thesis using store_lookup[OF assms(1) _ c(2)] by blast
  qed
qed

lemma firstCovering_in:
  "firstCovering now m d s certs = Some cert \<Longrightarrow> \<exists>c. (c, cert) \<in> set certs \<and> d \<in> set (mc_domains cert) \<and> 24 * hour < mc_notAfter cert - now \<and> certMatchesServiceDirectory m cert s"
  by (induction now m d s certs rule: firstCovering.induct) (auto split: if_split_asm)

lemma set_AList_update_eq: "distinct (map fst al) \<Longrightarrow> set (AList.update k v al) = insert (k, v) {(a, b) \<in> set al. a \<noteq> k}"
  by (induction al) (auto simp: image_iff)

lemma storeOk_point:
  assumes "storeOk certID m" and "(c, cert) \<in> set (cm_certificates m)" and "identifiersCover (mc_domains cert) d"
  shows "storeOk certID (m\<lparr>cm_domainToCert := AList.update d c (cm_domainToCert m)\<rparr>)"
  using assms by (auto simp: storeOk_def distinct_update set_AList_update_eq)

lemma registerDomain_storeOk:
  assumes "storeOk certID m" and "registerDomain now d s m = Inr m'"
  shows "storeOk certID m'"
proof -
  define m1 where "m1 = m\<lparr>cm_registered := AList.update d s (cm_registered m)\<rparr>"
  have ok: "storeOk certID m1" using assms(1) by (simp add: storeOk_def m1_def)
  consider "m' = m" | "m' = m1" | p where "m' = m1\<lparr>cm_pending := p\<rparr>"
    | cert where "firstCovering now m1 d s (cm_certificates m1) = Some cert" "m' = m1\<lparr>cm_domainToCert := AList.update d (mc_identifier cert) (cm_domainToCert m1)\<rparr>"
  proof (cases "d = [] \<or> \<not> cm_ready m \<or> (case coveringCert m1 d of Some c \<Rightarrow> 24 * hour < mc_notAfter c - now \<and> certMatchesServiceDirectory m1 c s | None \<Rightarrow> False)")
    case True
    then have "m' = m \<or> m' = m1" using assms(2) unfolding registerDomain_def Let_def m1_def[symmetric] by (simp split: if_split_asm)
    then show thesis using that(1,2) by blast
  next
    case False
    then have r: "m' = (case firstCovering now m1 d s (cm_certificates m1) of
                   Some c \<Rightarrow> m1\<lparr>cm_domainToCert := AList.update d (mc_identifier c) (cm_domainToCert m1)\<rparr>
                 | None \<Rightarrow> m1\<lparr>cm_pending := AList.update d s (cm_pending m1)\<rparr>)"
      using assms(2) unfolding registerDomain_def Let_def m1_def[symmetric] by (simp split: if_split_asm option.split_asm)
    then show thesis using that(3,4) by (cases "firstCovering now m1 d s (cm_certificates m1)") simp_all
  qed
  then show ?thesis
  proof cases
    case 4
    then obtain c where c: "(c, cert) \<in> set (cm_certificates m1)" "d \<in> set (mc_domains cert)" using firstCovering_in by blast
    then have "mc_identifier cert = c" using ok by (auto simp: storeOk_def)
    moreover have "identifiersCover (mc_domains cert) d" using c(2) by (auto simp: identifiersCover_def list_ex_iff)
    ultimately show ?thesis using storeOk_point[OF ok c(1)] 4(2) by simp
  qed (use assms(1) ok in \<open>simp_all add: storeOk_def\<close>)
qed

lemma removeCertificate_storeOk: "storeOk certID m \<Longrightarrow> storeOk certID (removeCertificate c m)"
  by (fastforce simp: storeOk_def removeCertificate_def distinct_delete AList.delete_eq distinct_map_filter)

lemma storeOk_points:
  assumes "storeOk certID m" and "(c, cert) \<in> set (cm_certificates m)" and "\<And>d. d \<in> set ds \<Longrightarrow> identifiersCover (mc_domains cert) d"
  shows "storeOk certID (m\<lparr>cm_domainToCert := fold (\<lambda>d. AList.update d c) ds (cm_domainToCert m)\<rparr>)"
  using assms
proof (induction ds arbitrary: m)
  case (Cons d ds)
  let ?m = "m\<lparr>cm_domainToCert := AList.update d c (cm_domainToCert m)\<rparr>"
  have "storeOk certID ?m" using storeOk_point[OF Cons.prems(1,2)] Cons.prems(3) by simp
  from Cons.IH[OF this] Cons.prems show ?case by simp
qed (simp add: storeOk_def)

lemma storeOk_redirect:
  assumes "storeOk certID m" and "(c, cert) \<in> set (cm_certificates m)" and "\<And>d x. P (d, x) \<Longrightarrow> identifiersCover (mc_domains cert) d"
  shows "storeOk certID (m\<lparr>cm_domainToCert := map (\<lambda>(d, x). if P (d, x) then (d, c) else (d, x)) (cm_domainToCert m)\<rparr>)"
proof -
  have "fst \<circ> (\<lambda>(d, x). if P (d, x) then (d, c) else (d, x)) = fst" by auto
  then have "distinct (map fst (map (\<lambda>(d, x). if P (d, x) then (d, c) else (d, x)) (cm_domainToCert m)))" using assms(1) by (simp add: storeOk_def)
  then show ?thesis using assms unfolding storeOk_def by (auto simp del: map_map simp: case_prod_beta split: if_split_asm)
qed

lemma adoptWildcardCoverage_storeOk:
  assumes "storeOk certID m" and "(mc_identifier managed, managed) \<in> set (cm_certificates m)"
  shows "storeOk certID (adoptWildcardCoverage managed m) \<and> cm_certificates (adoptWildcardCoverage managed m) = cm_certificates m"
proof -
  let ?f = "\<lambda>w m. m\<lparr>cm_domainToCert := map (\<lambda>(d, c). if takesOver m managed w (d, c) then (d, mc_identifier managed) else (d, c)) (cm_domainToCert m)\<rparr>"
  have "storeOk certID (fold ?f ws m) \<and> cm_certificates (fold ?f ws m) = cm_certificates m" if "set ws \<subseteq> set (mc_domains managed)" for ws
    using that assms
  proof (induction ws arbitrary: m)
    case (Cons w ws)
    have "storeOk certID (?f w m)"
      by (rule storeOk_redirect[OF Cons.prems(2,3)]) (use Cons.prems(1) in \<open>auto simp: takesOver_def identifiersCover_def list_ex_iff\<close>)
    from Cons.IH[OF _ this] Cons.prems show ?case by simp
  qed simp
  from this[of "filter isWildcard (mc_domains managed)"] show ?thesis by (auto simp: adoptWildcardCoverage_def)
qed

lemma adoptCertificateAt_storeOk:
  assumes "storeOk certID m" and "inj certID"
  shows "storeOk certID (adoptCertificateAt certID key t ds dir m)"
proof -
  let ?c = "\<lparr>mc_identifier = certID ds, mc_domains = ds, mc_notAfter = t, mc_certificate = Some key, mc_directory = dir\<rparr>"
  let ?m = "m\<lparr>cm_certificates := AList.update (certID ds) ?c (cm_certificates m)\<rparr>"
  have same: "mc_domains cert = ds" if "(certID ds, cert) \<in> set (cm_certificates m)" for cert
    using that assms by (auto simp: storeOk_def dest: injD)
  have d: "distinct (map fst (cm_certificates m))" using assms(1) by (simp add: storeOk_def)
  have 1: "storeOk certID ?m" using assms(1) same unfolding storeOk_def by (fastforce simp: distinct_update set_AList_update_eq[OF d])
  have 2: "(certID ds, ?c) \<in> set (cm_certificates ?m)" by (simp add: set_AList_update_eq[OF d])
  have "storeOk certID (?m\<lparr>cm_domainToCert := fold (\<lambda>d. AList.update d (certID ds)) ds (cm_domainToCert ?m)\<rparr>)"
    by (rule storeOk_points[OF 1 2]) (auto simp: identifiersCover_def list_ex_iff)
  from adoptWildcardCoverage_storeOk[OF this, of ?c] 2 show ?thesis by (simp add: adoptCertificateAt_def Let_def)
qed

lemma preflightTrigger_store: "cm_certificates (snd (preflightTrigger now pf d m)) = cm_certificates m" "cm_domainToCert (snd (preflightTrigger now pf d m)) = cm_domainToCert m"
  by (auto simp: preflightTrigger_def split: option.split)

lemma filterBatchMates_store: "cm_certificates (snd (filterBatchMates now pf d ds m)) = cm_certificates m" "cm_domainToCert (snd (filterBatchMates now pf d ds m)) = cm_domainToCert m"
  by (auto simp: filterBatchMates_def Let_def split: option.split)

lemma attributeBatchFailure_store:
  "cm_certificates (snd (attributeBatchFailure now rt pf err o1 r m)) = cm_certificates m" "cm_domainToCert (snd (attributeBatchFailure now rt pf err o1 r m)) = cm_domainToCert m"
  by (auto simp: attributeBatchFailure_def Let_def split: option.split prod.split)

lemmas guard_store = preflightTrigger_store filterBatchMates_store attributeBatchFailure_store

lemma restorePending_store [simp]: "cm_certificates (restorePending ds m) = cm_certificates m" "cm_domainToCert (restorePending ds m) = cm_domainToCert m"
  by (simp_all add: restorePending_def)

lemma clearBatchQuarantine_store [simp]: "cm_certificates (clearBatchQuarantine ds m) = cm_certificates m" "cm_domainToCert (clearBatchQuarantine ds m) = cm_domainToCert m"
  by (simp_all add: clearBatchQuarantine_def split: option.split)

lemma provisionClaim_store:
  assumes "provisionClaim now pf d m = (r, m')"
  shows "cm_certificates m' = cm_certificates m" "cm_domainToCert m' = cm_domainToCert m"
  using assms preflightTrigger_store[of now pf d m] by (auto simp: provisionClaim_def split: prod.split_asm bool.split_asm if_split_asm)

lemma provisionPlan_store:
  assumes "provisionPlan now pf etld1 d ds m = (r, o1, m')"
  shows "cm_certificates m' = cm_certificates m" "cm_domainToCert m' = cm_domainToCert m"
  using assms filterBatchMates_store[of now pf d ds m] by (auto simp: provisionPlan_def Let_def split: prod.split_asm if_split_asm)

lemma provisionFinish_storeOk:
  assumes "storeOk certID m" "inj certID" "provisionFinish now rt pf certID r o1 answer m = (k, m')"
  shows "storeOk certID m'"
proof (cases answer)
  case (Obtained key t)
  then have "m' = clearBatchQuarantine r (adoptCertificate certID key t o1 m)" using assms(3) by (simp add: provisionFinish_def)
  then show ?thesis using adoptCertificateAt_storeOk[OF assms(1,2)] by (simp add: storeOk_cong[OF clearBatchQuarantine_store] adoptCertificate_def)
next
  case (OrderFailed err)
  then have "cm_certificates m' = cm_certificates m" "cm_domainToCert m' = cm_domainToCert m"
    using assms(3) attributeBatchFailure_store[of now rt pf err o1 r m] by (auto simp: provisionFinish_def split: prod.split_asm)
  then show ?thesis using storeOk_cong assms(1) by blast
qed (use assms storeOk_cong[OF restorePending_store] in \<open>auto simp: provisionFinish_def\<close>)

lemma restart_storeOk:
  assumes "storeOk certID m" and "cm_certificates m0 = []"
  shows "storeOk certID (loadState files (persistState m) m0)"
proof -
  let ?load = "\<lambda>(c, cert). (c, cert\<lparr>mc_certificate := files c\<rparr>)"
  have up: "fold (\<lambda>(c, cert). AList.update c (cert\<lparr>mc_certificate := files c\<rparr>)) xs ys = ys @ map ?load xs"
    if "distinct (map fst xs)" "fst ` set xs \<inter> fst ` set ys = {}" for xs and ys :: "(string \<times> 'a managedCert) list"
    using that
  proof (induction xs arbitrary: ys)
    case (Cons x xs)
    have "AList.update (fst x) v ys = ys @ [(fst x, v)]" for v :: "'a managedCert" using Cons.prems(2) by (induction ys) auto
    then show ?case using Cons.IH[of "ys @ [?load x]"] Cons.prems by (auto simp: case_prod_beta)
  qed simp
  define cs where "cs = map (\<lambda>(c, cert). (c, cert\<lparr>mc_certificate := None\<rparr>)) (cm_certificates m)"
  have fst: "map fst cs = map fst (cm_certificates m)" by (simp add: cs_def case_prod_beta comp_def)
  then have "fold (\<lambda>(c, cert). AList.update c (cert\<lparr>mc_certificate := files c\<rparr>)) cs [] = map ?load cs" using up[of cs "[]"] assms(1) by (simp add: storeOk_def)
  then have c: "cm_certificates (loadState files (persistState m) m0) = map (\<lambda>(c, cert). (c, cert\<lparr>mc_certificate := files c\<rparr>)) (cm_certificates m)"
    using assms(2) by (simp add: loadState_def persistState_def cs_def comp_def case_prod_beta)
  moreover have "cm_domainToCert (loadState files (persistState m) m0) = cm_domainToCert m" by (simp add: loadState_def persistState_def)
  moreover have "map fst (map ?load (cm_certificates m)) = map fst (cm_certificates m)" by (simp add: comp_def case_prod_beta)
  moreover have "\<exists>cert. (c, cert) \<in> set (map ?load (cm_certificates m)) \<and> identifiersCover (mc_domains cert) d" if dc: "(d, c) \<in> set (cm_domainToCert m)" for d c
  proof -
    obtain cert where cert: "(c, cert) \<in> set (cm_certificates m)" "identifiersCover (mc_domains cert) d" by (rule storeOk_mapped[OF assms(1) dc])
    have "(c, cert\<lparr>mc_certificate := files c\<rparr>) \<in> set (map ?load (cm_certificates m))" using imageI[OF cert(1), of ?load] by simp
    then show ?thesis using cert(2) by (intro exI[of _ "cert\<lparr>mc_certificate := files c\<rparr>"]) simp
  qed
  ultimately show ?thesis using assms(1) unfolding storeOk_def by (auto simp del: map_map)
qed

section \<open>Every way the manager moves\<close>

inductive managerStep :: "(string list \<Rightarrow> string) \<Rightarrow> (string \<Rightarrow> string option) \<Rightarrow> (string \<Rightarrow> time option) \<Rightarrow> ('k, 'o) certManager \<Rightarrow> ('k, 'o) certManager \<Rightarrow> bool"
  for certID etld1 retryTime where
  register: "registerDomain now d service m = Inr m' \<Longrightarrow> managerStep certID etld1 retryTime m m'"
| unregister: "managerStep certID etld1 retryTime m (unregisterDomain d m)"
| learn: "managerStep certID etld1 retryTime m (setDynamicDomains service ds m)"
| direct: "managerStep certID etld1 retryTime m (setServiceDirectory service directory m)"
| ready: "managerStep certID etld1 retryTime m (m\<lparr>cm_ready := True\<rparr>)"
| hold: "managerStep certID etld1 retryTime m (m\<lparr>cm_quarantine := q\<rparr>)"
| claim: "provisionClaim now preflight d m = (start, m') \<Longrightarrow> managerStep certID etld1 retryTime m m'"
| plan: "provisionPlan now preflight etld1 d candidates m = (requested, ordered, m') \<Longrightarrow> managerStep certID etld1 retryTime m m'"
| finish: "provisionFinish now retryTime preflight certID requested ordered answer m = (k, m') \<Longrightarrow> managerStep certID etld1 retryTime m m'"
| release: "managerStep certID etld1 retryTime m (provisionRelease key m)"
| adopt: "managerStep certID etld1 retryTime m (adoptCertificateAt certID k notAfter ds directory m)"
| remove: "managerStep certID etld1 retryTime m (removeCertificate c m)"
| present: "managerStep certID etld1 retryTime m (presentChallenge d token keyAuth m)"
| clean_up: "managerStep certID etld1 retryTime m (cleanUpChallenge token m)"
| restart: "cm_certificates m0 = [] \<Longrightarrow> managerStep certID etld1 retryTime m (loadState files (persistState m) m0)"

definition managerInit :: "string \<Rightarrow> 'o dnsClients \<Rightarrow> domainGrouper \<Rightarrow> ('k, 'o) certManager" where
  "managerInit directory clients grouper = \<lparr>cm_directory = directory, cm_ready = False, cm_clients = clients, cm_grouper = grouper, cm_certificates = [], cm_domainToCert = [],
     cm_pending = [], cm_registered = [], cm_dynamic = [], cm_serviceDirectories = [], cm_provisioning = [], cm_tokens = [], cm_quarantine = None\<rparr>"

lemma managerStep_storeOk:
  assumes "managerStep certID etld1 rt m m'" and "storeOk certID m" and "inj certID"
  shows "storeOk certID m'"
  using assms
proof (induction rule: managerStep.induct)
  case register then show ?case by (blast intro: registerDomain_storeOk)
next
  case claim then show ?case using storeOk_cong[OF provisionClaim_store] by blast
next
  case plan then show ?case using storeOk_cong[OF provisionPlan_store] by blast
next
  case finish then show ?case by (blast intro: provisionFinish_storeOk)
next
  case adopt then show ?case by (blast intro: adoptCertificateAt_storeOk)
next
  case remove then show ?case by (blast intro: removeCertificate_storeOk)
next
  case restart then show ?case by (blast intro: restart_storeOk)
qed (auto simp: storeOk_def unregisterDomain_def setDynamicDomains_def setServiceDirectory_def provisionRelease_def presentChallenge_def cleanUpChallenge_def)

lemma manager_storeOk:
  assumes "rtranclp (managerStep certID etld1 rt) (managerInit directory clients grouper) m" and "inj certID"
  shows "storeOk certID m"
  using assms(1)
proof (induction rule: rtranclp_induct)
  case base
  show ?case by (simp add: storeOk_def managerInit_def)
qed (rule managerStep_storeOk[OF _ _ assms(2)])

section \<open>What a handshake can get\<close>

lemma getCertificate_sound:
  assumes "storeOk certID m" and "getCertificate now d m = (answer, request)"
  shows "(\<forall>k. answer = Served k \<longrightarrow> (\<exists>cert. coveringCert m d = Some cert \<and> mc_certificate cert = Some k \<and> identifiersCover (mc_domains cert) d \<and> now < mc_notAfter cert))
    \<and> (answer = Provision \<longrightarrow> d \<in> fst ` set (cm_registered m) \<and> cm_ready m)
    \<and> (\<forall>x s. request = Some (x, s) \<longrightarrow> x = d \<and> domainAllowed m d \<or> isWildcard d)"
  using assms(2) coveringCert_covers(1)[OF assms(1), of d]
  by (auto simp: getCertificate_def Let_def domainAllowed_def time_consts split: if_split_asm option.split_asm)


text \<open>An identifier function without collisions, and the manager after one order.\<close>

definition plainID :: "string list \<Rightarrow> string" where
  "plainID ds = ''san:'' @ concat (map (\<lambda>d. replicate (length d) (CHR ''1'') @ ''0'' @ d) ds)"

lemma plainID_inj: "inj plainID"
proof -
  let ?f = "\<lambda>ds :: string list. concat (map (\<lambda>d. replicate (length d) (CHR ''1'') @ ''0'' @ d) ds)"
  have "?f xs = ?f ys \<Longrightarrow> xs = ys" for xs ys
  proof (induction xs arbitrary: ys)
    case (Cons x xs)
    then obtain y ys' where ys: "ys = y # ys'" by (cases ys) auto
    have tw: "length (takeWhile ((=) (CHR ''1'')) (replicate n (CHR ''1'') @ CHR ''0'' # r)) = n" for n r by (induction n) auto
    have "replicate (length x) (CHR ''1'') @ CHR ''0'' # x @ ?f xs = replicate (length y) (CHR ''1'') @ CHR ''0'' # y @ ?f ys'" using Cons.prems by (simp add: ys)
    moreover from arg_cong[OF this, of "\<lambda>l. length (takeWhile ((=) (CHR ''1'')) l)"] have "length x = length y" by (simp only: tw)
    ultimately have "x = y" "?f xs = ?f ys'" by simp_all
    then show ?case using Cons.IH ys by simp
  next
    case Nil
    then show ?case by (cases ys) auto
  qed
  then show ?thesis by (auto simp: plainID_def inj_def)
qed

definition runDay :: duration where
  "runDay = 24 * hour"

definition runManager :: "(nat, nat) certManager" where
  "runManager = adoptCertificateAt plainID 7 (90 * runDay) [''a.dk''] ''prod''
     (case registerDomain 0 ''a.dk'' ''web'' ((managerInit ''prod'' \<lparr>dc_selection = \<lparr>ps_default = [], ps_zones = []\<rparr>, dc_obtainer = None, dc_obtainers = []\<rparr>
        \<lparr>gr_minSubdomainsForWildcard = 2, gr_preferWildcard = False, gr_dnsProviderAvailable = False\<rparr>)\<lparr>cm_ready := True\<rparr>) of Inr m \<Rightarrow> m)"


section \<open>Registration, batches and plans\<close>

lemma directory_cong:
  assumes "cm_directory m' = cm_directory m" and "cm_serviceDirectories m' = cm_serviceDirectories m"
  shows "certMatchesServiceDirectory m' c s = certMatchesServiceDirectory m c s"
  using assms by (simp add: certMatchesServiceDirectory_def normalizeDirectory_def directoryForService_def split: option.split)

lemma quarantine_irrelevant [simp]:
  "certIDCovering (m\<lparr>cm_quarantine := q\<rparr>) = certIDCovering m" "directoryForService (m\<lparr>cm_quarantine := q\<rparr>) = directoryForService m"
  "betterOwner (m\<lparr>cm_quarantine := q\<rparr>) = betterOwner m" "wildcardOwner (m\<lparr>cm_quarantine := q\<rparr>) = wildcardOwner m"
  "ownerOf (m\<lparr>cm_quarantine := q\<rparr>) = ownerOf m" "directoryForDomain (m\<lparr>cm_quarantine := q\<rparr>) = directoryForDomain m"
proof -
  show 1: "certIDCovering (m\<lparr>cm_quarantine := q\<rparr>) = certIDCovering m" "directoryForService (m\<lparr>cm_quarantine := q\<rparr>) = directoryForService m"
    by (rule ext, simp add: certIDCovering_def directoryForService_def split: option.split)+
  show 2: "betterOwner (m\<lparr>cm_quarantine := q\<rparr>) = betterOwner m" by (intro ext) (simp add: betterOwner_def 1 split: prod.split option.split)
  show 3: "wildcardOwner (m\<lparr>cm_quarantine := q\<rparr>) = wildcardOwner m" by (intro ext) (simp add: wildcardOwner_def 2)
  show 4: "ownerOf (m\<lparr>cm_quarantine := q\<rparr>) = ownerOf m" by (intro ext) (simp add: ownerOf_def 3)
  show "directoryForDomain (m\<lparr>cm_quarantine := q\<rparr>) = directoryForDomain m" by (intro ext) (simp add: directoryForDomain_def 1 4 split: option.split)
qed

lemma update_keeps: "set al \<subseteq> set (AList.update k v al) \<union> {(k, s) | s. True}"
  by (induction al) auto

text \<open>registering a host leaves it either covered for more than a day by a certificate of the directory its service wants, or pending an order; nothing else is
  forgotten, and before the manager is ready it is refused.
\<close>
theorem registerDomain_covered_or_pending:
  assumes "storeOk certID m" and "\<forall>ds. certID ds \<noteq> []" and "d \<noteq> []"
  shows "case registerDomain now d service m of
     Inl e \<Rightarrow> e = ManagerNotReady \<and> \<not> cm_ready m
   | Inr m' \<Rightarrow> map_of (cm_registered m') d = Some service \<and> set (cm_pending m) \<subseteq> set (cm_pending m') \<union> {(d, s) | s. True} \<and> cm_certificates m' = cm_certificates m \<and>
       (d \<in> fst ` set (cm_pending m') \<or>
        (\<exists>cert. coveringCert m' d = Some cert \<and> 24 * hour < mc_notAfter cert - now \<and> certMatchesServiceDirectory m' cert service))"
proof (cases "cm_ready m")
  case True
  define m1 where "m1 = m\<lparr>cm_registered := AList.update d service (cm_registered m)\<rparr>"
  have ok: "storeOk certID m1" using assms(1) by (simp add: storeOk_def m1_def)
  have reg: "map_of (cm_registered m1) d = Some service" by (simp add: m1_def update_conv')
  show ?thesis
  proof (cases "case coveringCert m1 d of Some c \<Rightarrow> 24 * hour < mc_notAfter c - now \<and> certMatchesServiceDirectory m1 c service | None \<Rightarrow> False")
    case covered: True
    then have "registerDomain now d service m = Inr m1" using True assms(3) unfolding registerDomain_def Let_def m1_def[symmetric] by simp
    then show ?thesis using covered reg by (auto simp: m1_def split: option.split_asm)
  next
    case False
    note uncovered = this
    show ?thesis
    proof (cases "firstCovering now m1 d service (cm_certificates m1)")
      case None
      then have r: "registerDomain now d service m = Inr (m1\<lparr>cm_pending := AList.update d service (cm_pending m1)\<rparr>)"
        using uncovered True assms(3) unfolding registerDomain_def Let_def m1_def[symmetric] by simp
      have "(d, service) \<in> set (AList.update d service (cm_pending m))" by (meson map_of_SomeD update_Some_unfold)
      moreover have "set (cm_pending m) \<subseteq> set (AList.update d service (cm_pending m)) \<union> {(d, s) | s. True}"
        by (rule update_keeps)
      ultimately show ?thesis using reg unfolding r by (simp add: m1_def) (metis fst_conv image_eqI)
    next
      case (Some cert)
      then have r: "registerDomain now d service m = Inr (m1\<lparr>cm_domainToCert := AList.update d (mc_identifier cert) (cm_domainToCert m1)\<rparr>)"
        using uncovered True assms(3) unfolding registerDomain_def Let_def m1_def[symmetric] by simp
      obtain c where c: "(c, cert) \<in> set (cm_certificates m1)" "24 * hour < mc_notAfter cert - now" "certMatchesServiceDirectory m1 cert service"
        using firstCovering_in[OF Some] by blast
      then have "mc_identifier cert = c" "c \<noteq> []" "map_of (cm_certificates m1) c = Some cert" using storeOk_filed[OF ok c(1)] assms(2) by metis+
      moreover have "certMatchesServiceDirectory (m1\<lparr>cm_domainToCert := x\<rparr>) cert service" for x using c(3) directory_cong[of "m1\<lparr>cm_domainToCert := x\<rparr>" m1] by simp
      ultimately show ?thesis using reg c(2) unfolding r by (simp add: coveringCert_def certIDCovering_def update_conv') (auto simp: m1_def)
    qed
  qed
qed (use assms(3) in \<open>simp add: registerDomain_def\<close>)

theorem registerDomain_covered_or_pending_witness:
  "case registerDomain 0 ''b.dk'' ''web'' runManager of Inl _ \<Rightarrow> False | Inr m' \<Rightarrow> map_of (cm_registered m') ''b.dk'' = Some ''web'' \<and> ''b.dk'' \<in> fst ` set (cm_pending m')"
proof -
  have 1: "storeOk plainID runManager" unfolding runManager_def
    by (rule adoptCertificateAt_storeOk[OF _ plainID_inj])
       (simp add: registerDomain_def managerInit_def coveringCert_def certIDCovering_def lookupStr_def Let_def storeOk_def split: option.split)
  have 2: "\<forall>ds. plainID ds \<noteq> []" "''b.dk'' \<noteq> []" by (simp_all add: plainID_def)
  have 3: "case registerDomain 0 ''b.dk'' ''web'' runManager of Inl _ \<Rightarrow> False | Inr m' \<Rightarrow> ''b.dk'' \<in> fst ` set (cm_pending m')" by code_simp
  show ?thesis using registerDomain_covered_or_pending[OF 1 2, where now = 0 and service = "''web''"] 3 by (auto split: sum.split_asm)
qed

text \<open>a handshake that claims its service's slot gets a batch of at most 100 names led by its own, every other one pending, not on hold, of the same service and
  the same ACME directory; until the slot is released no other handshake of that service gets a batch.
\<close>
theorem provisionClaim_batch:
  assumes "provisionClaim now preflight d m = (ProvisionBatch ds, m')"
  shows "length ds \<le> 100 \<and> hd ds = d \<and> ds \<noteq> [] \<and>
    (\<forall>x \<in> set (tl ds). x \<noteq> d \<and> x \<in> fst ` set (cm_pending m) \<and> lookupStr (cm_registered m) x = lookupStr (cm_registered m) d \<and> directoryForDomain m x = directoryForDomain m d
       \<and> \<not> (case cm_quarantine m' of Some q \<Rightarrow> isQuarantined now q x | None \<Rightarrow> False)) \<and>
    (\<forall>e now' pf. lookupStr (cm_registered m) e = lookupStr (cm_registered m) d \<longrightarrow> (\<forall>b. fst (provisionClaim now' pf e m') \<noteq> ProvisionBatch b))"
proof -
  obtain m1 where m1: "preflightTrigger now preflight d m = (True, m1)" and r: "ds = batchCandidates now d m1" "m' = m1\<lparr>cm_provisioning := provisioningKey m1 d # cm_provisioning m1\<rparr>"
    using assms by (auto simp: provisionClaim_def split: prod.split_asm bool.split_asm if_split_asm)
  have q: "snd (preflightTrigger n pf x k) = k\<lparr>cm_quarantine := cm_quarantine (snd (preflightTrigger n pf x k))\<rparr>" for n pf x and k :: "('a, 'b) certManager"
    by (auto simp: preflightTrigger_def split: option.split)
  have eq: "m1 = m\<lparr>cm_quarantine := cm_quarantine m1\<rparr>" using q[of now preflight d m] m1 by simp
  have reg: "cm_registered m1 = cm_registered m" "cm_pending m1 = cm_pending m" by (subst eq, simp)+
  have dir: "directoryForDomain m1 x = directoryForDomain m x" for x by (subst eq) simp
  have ds: "ds = take 100 (d # filter (joinsBatch now m1 d) (map fst (cm_pending m1)))" using r(1) by (simp add: batchCandidates_def maxSANsPerCertificate_def)
  have "joinsBatch now m1 d x \<and> x \<in> fst ` set (cm_pending m1)" if "x \<in> set (tl ds)" for x
    using that unfolding ds by (auto simp: numeral_eq_Suc dest!: in_set_takeD)
  then have "\<forall>x \<in> set (tl ds). x \<noteq> d \<and> x \<in> fst ` set (cm_pending m) \<and> lookupStr (cm_registered m) x = lookupStr (cm_registered m) d \<and> directoryForDomain m x = directoryForDomain m d
       \<and> \<not> (case cm_quarantine m' of Some q \<Rightarrow> isQuarantined now q x | None \<Rightarrow> False)"
    unfolding joinsBatch_def dir reg r(2) by simp
  moreover have "fst (provisionClaim now' pf e m') \<noteq> ProvisionBatch b" if same: "lookupStr (cm_registered m) e = lookupStr (cm_registered m) d" for e now' pf b
  proof -
    have "cm_provisioning (snd (preflightTrigger now' pf e m')) = cm_provisioning m'" "cm_registered (snd (preflightTrigger now' pf e m')) = cm_registered m'" by (subst q, simp)+
    then show ?thesis using same by (auto simp: provisionClaim_def provisioningKey_def r(2) reg split: prod.split bool.split)
  qed
  moreover have "length ds \<le> 100" "hd ds = d" "ds \<noteq> []" unfolding ds by simp_all
  ultimately show ?thesis by blast
qed

definition runPending :: "(nat, nat) certManager" where
  "runPending = runManager\<lparr>cm_registered := [(''a.dk'', ''web''), (''b.dk'', ''web''), (''c.dk'', ''other'')], cm_pending := [(''a.dk'', ''web''), (''b.dk'', ''web''), (''c.dk'', ''other'')]\<rparr>"

theorem provisionClaim_batch_witness:
  "fst (provisionClaim 0 None ''a.dk'' runPending) = ProvisionBatch [''a.dk'', ''b.dk''] \<and>
   (\<forall>b. fst (provisionClaim 5 None ''b.dk'' (snd (provisionClaim 0 None ''a.dk'' runPending))) \<noteq> ProvisionBatch b)"
proof -
  have 1: "fst (provisionClaim 0 None ''a.dk'' runPending) = ProvisionBatch [''a.dk'', ''b.dk'']" by code_simp
  then have 2: "provisionClaim 0 None ''a.dk'' runPending = (ProvisionBatch [''a.dk'', ''b.dk''], snd (provisionClaim 0 None ''a.dk'' runPending))" by (metis prod.collapse)
  have 3: "lookupStr (cm_registered runPending) ''b.dk'' = lookupStr (cm_registered runPending) ''a.dk''" by code_simp
  show ?thesis using provisionClaim_batch[OF 2] 1 3 by blast
qed

lemma filterBatchMates_members:
  assumes "filterBatchMates now pf d ds m = (requested, m')"
  shows "set requested \<subseteq> insert d (set ds)" and "d \<in> set ds \<Longrightarrow> d \<in> set requested" and "cm_pending m' = cm_pending m" "cm_clients m' = cm_clients m" "cm_grouper m' = cm_grouper m"
  using assms by (auto simp: filterBatchMates_def Let_def split: option.split_asm)

lemma restorePending_keys: "fst ` set (cm_pending (restorePending ds m)) = fst ` set (cm_pending m) \<union> set ds"
proof -
  have "fst ` set (fold (\<lambda>d p. if d \<in> fst ` set p then p else AList.update d [] p) ds p) = fst ` set p \<union> set ds" for p :: "(string \<times> string) list"
  proof (induction ds arbitrary: p)
    case (Cons d ds)
    show ?case by (cases "d \<in> fst ` set p") (simp_all only: fold_simps if_True if_False Cons.IH dom_update, auto)
  qed simp
  then show ?thesis by (simp add: restorePending_def)
qed

lemma planned_covered_partition:
  assumes "identifiersCover ids d"
  shows "\<exists>p \<in> set (splitByProviderZone dc (sort ids)). identifiersCover p d"
proof -
  have "set (concat (splitByProviderZone dc (sort ids))) = set ids" using mset_eq_setD[OF split_partitions[of dc "sort ids"]] by simp
  moreover obtain i where i: "i \<in> set ids" "i = d \<or> matchesWildcard i d" using assms unfolding identifiersCover_def list_ex_iff by blast
  ultimately obtain p where "p \<in> set (splitByProviderZone dc (sort ids))" "i \<in> set p" by (metis UN_E set_concat)
  then show ?thesis using i(2) unfolding identifiersCover_def list_ex_iff by blast
qed

text \<open>the order a handshake places covers the name it was asked for, and no name of its batch is lost on the way: each is covered by the order or still pending,
  as long as no name is asked for beside its own root's explicit wildcard.
\<close>
theorem provisionPlan_loses_nobody:
  assumes "registrable etld1" and "d \<in> set candidates" and "set candidates \<subseteq> insert d (fst ` set (cm_pending m))"
    and "\<forall>x \<in> set candidates. isWildcard x \<or> ''*.'' @ rootOf etld1 x \<notin> set candidates"
    and "provisionPlan now preflight etld1 d candidates m = (requested, ordered, m')"
  shows "identifiersCover ordered d \<and> (\<forall>x \<in> set candidates. identifiersCover ordered x \<or> x \<in> fst ` set (cm_pending m'))"
proof -
  obtain m1 where f: "filterBatchMates now preflight d candidates m = (requested, m1)"
    using assms(5) by (auto simp: provisionPlan_def Let_def split: prod.split_asm if_split_asm)
  note mates = filterBatchMates_members[OF f]
  let ?m = "m1\<lparr>cm_pending := filter (\<lambda>(x, _). x \<notin> set requested) (cm_pending m1)\<rparr>"
  let ?ids = "planIssuanceDomains (cm_clients m) (cm_grouper m) etld1 requested"
  let ?parts = "splitByProviderZone (cm_clients m) (sort ?ids)"
  have sel: "cm_clients ?m = cm_clients m" "cm_grouper ?m = cm_grouper m" using mates(4,5) by simp_all
  have sub: "set requested \<subseteq> set candidates" and dr: "d \<in> set requested" using mates(1,2) assms(2) by auto
  have cover: "identifiersCover ?ids x" if "x \<in> set requested" for x
    using planIssuanceDomains_covers[OF assms(1) that] assms(4) sub that by blast
  have unordered: "x \<in> fst ` set (cm_pending ?m)" if "x \<in> set candidates" "x \<notin> set requested" for x
    using that assms(3) dr mates(3) by (force simp: image_iff)
  show ?thesis
  proof (cases "length ?parts \<le> 1")
    case True
    then have "ordered = sort ?ids" "m' = ?m" using assms(5) unfolding provisionPlan_def f prod.case Let_def by (simp_all add: mates(4,5))
    moreover have "identifiersCover (sort ?ids) x" if "x \<in> set requested" for x using cover[OF that] by (simp add: identifiersCover_def list_ex_iff)
    ultimately show ?thesis using dr unordered by blast
  next
    case False
    define chosen where "chosen = (case find (\<lambda>p. identifiersCover p d) ?parts of Some p \<Rightarrow> p | None \<Rightarrow> hd ?parts)"
    have r: "ordered = chosen" "m' = restorePending (filter (\<lambda>x. \<not> identifiersCover chosen x) requested) ?m"
      using False assms(5) unfolding provisionPlan_def f prod.case Let_def sel chosen_def[symmetric] by (simp, auto)
    obtain p where p: "find (\<lambda>p. identifiersCover p d) ?parts = Some p"
      using planned_covered_partition[OF cover[OF dr], of "cm_clients m"] by (cases "find (\<lambda>p. identifiersCover p d) ?parts") (auto simp: find_None_iff)
    then have "identifiersCover p d" by (auto simp: find_Some_iff)
    then have "identifiersCover chosen d" by (simp add: chosen_def p)
    then show ?thesis using unordered unfolding r restorePending_keys by auto
  qed
qed

theorem provisionPlan_loses_nobody_witness:
  "let (requested, ordered, m') = provisionPlan 0 None (\<lambda>_. None) ''a.dk'' [''a.dk'', ''b.dk''] runPending
   in ordered = [''a.dk'', ''b.dk''] \<and> identifiersCover ordered ''a.dk'' \<and> identifiersCover ordered ''b.dk''"
proof -
  let ?p = "provisionPlan 0 None (\<lambda>_. None) ''a.dk'' [''a.dk'', ''b.dk''] runPending"
  obtain requested ordered m' where p: "?p = (requested, ordered, m')" by (metis prod_cases3)
  have o1: "fst (snd ?p) = [''a.dk'', ''b.dk'']" by code_simp
  have 1: "registrable (\<lambda>_. None)" by (simp add: registrable_def)
  have 2: "set [''a.dk'', ''b.dk''] \<subseteq> insert ''a.dk'' (fst ` set (cm_pending runPending))" by (simp add: runPending_def)
  have 3: "\<forall>x \<in> set [''a.dk'', ''b.dk'']. isWildcard x \<or> ''*.'' @ rootOf (\<lambda>_. None) x \<notin> set [''a.dk'', ''b.dk'']" by code_simp
  have "identifiersCover ordered ''a.dk''" using provisionPlan_loses_nobody[OF 1 _ 2 3 p] by simp
  moreover have "identifiersCover [''a.dk'', ''b.dk''] ''b.dk''" by code_simp
  ultimately show ?thesis using p o1 by (simp add: Let_def)
qed

text \<open>Beside an explicit wildcard for its root a deeper name is neither ordered nor pending, and its handshake is answered with a certificate that does not cover it.\<close>

definition runWild :: "(nat, nat) certManager" where
  "runWild = runManager\<lparr>cm_clients := \<lparr>dc_selection = \<lparr>ps_default = ''hetzner'', ps_zones = []\<rparr>, dc_obtainer = Some 1, dc_obtainers = []\<rparr>,
     cm_registered := [(''*.a.dk'', ''web''), (''x.y.a.dk'', ''web'')], cm_pending := [(''*.a.dk'', ''web''), (''x.y.a.dk'', ''web'')]\<rparr>"

lemma explicit_wildcard_misserves:
  "let etld1 = (\<lambda>d. if hasSuffix d ''.a.dk'' then Some ''a.dk'' else None);
       (requested, ordered, m') = provisionPlan 0 None etld1 ''x.y.a.dk'' [''x.y.a.dk'', ''*.a.dk''] runWild;
       (answer, _) = provisionFinish 0 (\<lambda>_. None) None plainID requested ordered (Obtained 9 (90 * runDay)) m'
   in ordered = [''*.a.dk''] \<and> \<not> identifiersCover ordered ''x.y.a.dk'' \<and> ''x.y.a.dk'' \<notin> fst ` set (cm_pending m') \<and> answer = Some 9"
  by code_simp

text \<open>
  A wildcard collapsed from one service's names without the apex is ordered at the directory of whichever service owns the smallest covered name: here two names
  of a production service are ordered at the staging directory of another.
\<close>

definition runShared :: "(nat, nat) certManager" where
  "runShared = runWild\<lparr>cm_registered := [(''a1.a.dk'', ''stage''), (''b1.a.dk'', ''web''), (''b2.a.dk'', ''web'')], cm_pending := [(''b1.a.dk'', ''web''), (''b2.a.dk'', ''web'')],
     cm_serviceDirectories := [(''stage'', ''staging'')], cm_grouper := \<lparr>gr_minSubdomainsForWildcard = 2, gr_preferWildcard = True, gr_dnsProviderAvailable = True\<rparr>\<rparr>"

lemma wildcard_order_at_foreign_directory:
  "let etld1 = (\<lambda>d. if hasSuffix d ''.a.dk'' then Some ''a.dk'' else None);
       (requested, ordered, m') = provisionPlan 0 None etld1 ''b1.a.dk'' [''b1.a.dk'', ''b2.a.dk''] runShared
   in directoryForService runShared ''web'' = ''prod'' \<and> ordered = [''*.a.dk''] \<and> directoryForDomains m' ordered = ''staging''"
  by code_simp

text \<open>A certificate that cannot be used takes its whole batch out of the pending set.\<close>

lemma unusable_certificate_forgets_batch:
  "let (requested, ordered, m') = provisionPlan 0 None (\<lambda>_. None) ''a.dk'' [''a.dk'', ''b.dk''] runPending;
       (_, m'') = provisionFinish 0 (\<lambda>_. None) None plainID requested ordered Unusable m'
   in ''b.dk'' \<in> fst ` set (cm_pending runPending) \<and> ''b.dk'' \<notin> fst ` set (cm_pending m'')"
  by code_simp

section \<open>Directories\<close>

lemma splitByDesiredDirectory_homogeneous:
  "mset (concat (map snd (splitByDesiredDirectory m cert ds))) = mset ds"
  "(k, p) \<in> set (splitByDesiredDirectory m cert ds) \<Longrightarrow> p \<noteq> [] \<and> (\<forall>d \<in> set p. desiredDirectory m cert d = k)"
proof -
  have "map snd (splitByDesiredDirectory m cert ds) = map (\<lambda>k. filter (\<lambda>d. desiredDirectory m cert d = k) ds) (firstKeys (desiredDirectory m cert) ds)"
    by (simp add: splitByDesiredDirectory_def)
  then show "mset (concat (map snd (splitByDesiredDirectory m cert ds))) = mset ds" using mset_by_keys[of "firstKeys (desiredDirectory m cert) ds" "desiredDirectory m cert" ds] by simp
  show "(k, p) \<in> set (splitByDesiredDirectory m cert ds) \<Longrightarrow> p \<noteq> [] \<and> (\<forall>d \<in> set p. desiredDirectory m cert d = k)"
    by (auto simp: splitByDesiredDirectory_def filter_empty_conv)
qed

lemma challengeAnswer_host:
  assumes "challengeAnswer host path m = Some keyAuth"
  obtains token c where "path = ''/.well-known/acme-challenge/'' @ token" "map_of (cm_tokens m) token = Some c" "keyAuth = ch_keyAuth c" "equalFold (requestHostname host) (ch_domain c)"
  using assms by (auto simp: challengeAnswer_def cutPrefix_def hasPrefix_iff split: option.split_asm if_split_asm)

lemma challenge_cleaned: "challengeAnswer host (''/.well-known/acme-challenge/'' @ token) (cleanUpChallenge token m) = None"
  by (simp add: challengeAnswer_def cutPrefix_def hasPrefix_iff cleanUpChallenge_def delete_conv')

end
