(* ===== verification/Cert_Archive.thy ===== *)
theory Cert_Archive
  imports Cert_Manager
begin

text \<open>
  The backup of the certificate store: collecting and checking the files (\<open>cert_store_export.go\<close>), the strict reader of an archive (\<open>cert_store_archive.go\<close>) and its
  restoration (\<open>cert_store_restore.go\<close>). Contents of files are values of a type \<open>'b\<close>; what the libraries make of them (JSON, PEM, X.509) is the record \<open>certLib\<close>.
  A tarball is the list of its entries with the bytes its headers and payloads take once decompressed. A restore stops at a step that meets a file where it needs a
  directory or a directory where it needs a file; any other I/O failure, like a crash, stops it after some number of its steps. The temporary files and the empty
  directories such a restore leaves behind and the resolution of the output path through links are not modelled.
\<close>

section \<open>Files and library functions\<close>

record certLeaf =
  lf_names :: "string list"
  lf_notBefore :: time
  lf_notAfter :: time

type_synonym certRecord = "unit managedCert"

text \<open>A decoded state file: either map may be missing (\<open>null\<close>), and so may a record.\<close>

record storedState =
  sf_certificates :: "(string \<times> certRecord option) list option"
  sf_domainMap :: "(string \<times> string) list option"

record 'b certLib =
  cl_decodeState :: "'b \<Rightarrow> storedState \<Rightarrow> storedState option"
  cl_marshal :: "storedState \<Rightarrow> 'b"
  cl_jsonValid :: "'b \<Rightarrow> bool"
  cl_parsePair :: "'b \<Rightarrow> 'b \<Rightarrow> certLeaf option"
  cl_usableKey :: "'b \<Rightarrow> bool"
  cl_size :: "'b \<Rightarrow> nat"

definition emptyState :: storedState where
  "emptyState = \<lparr>sf_certificates = None, sf_domainMap = None\<rparr>"

text \<open>Go decodes JSON onto a value, and what the text does not mention stays: \<open>cl_decodeState\<close> takes the old value. Elsewhere that is the empty one.\<close>

definition parseState :: "'b certLib \<Rightarrow> 'b \<Rightarrow> storedState option" where
  "parseState lib data = cl_decodeState lib data emptyState"

definition stateCerts :: "storedState \<Rightarrow> (string \<times> certRecord option) list" where
  "stateCerts s = (case sf_certificates s of Some cs \<Rightarrow> cs | None \<Rightarrow> [])"

definition stateDomainMap :: "storedState \<Rightarrow> (string \<times> string) list" where
  "stateDomainMap s = (case sf_domainMap s of Some ds \<Rightarrow> ds | None \<Rightarrow> [])"

datatype stateError =
    NotAStateFile
  | NullCertificate string
  | MismatchedIdentifier string
  | UnsafeDirectory string
  | CollidingDirectories string string
  | MissingCertificate string string
  | UncoveredDomain string string

text \<open>The check of the certificates, with the identifiers that own the directories seen so far.\<close>

fun validateCertificates :: "(string \<times> certRecord option) list \<Rightarrow> (string \<times> string) list \<Rightarrow> stateError option" where
  "validateCertificates [] dirs = None"
| "validateCertificates ((c, r) # cs) dirs = (case r of
     None \<Rightarrow> Some (NullCertificate c)
   | Some cert \<Rightarrow>
       if mc_identifier cert \<noteq> c then Some (MismatchedIdentifier c)
       else (let dir = sanitizeFilename c
             in if dir = [] \<or> dir = ''.'' \<or> dir = ''..'' then Some (UnsafeDirectory c)
                else case map_of dirs dir of
                       Some earlier \<Rightarrow> Some (CollidingDirectories earlier c)
                     | None \<Rightarrow> validateCertificates cs (AList.update dir c dirs)))"

fun validateMappings :: "(string \<times> certRecord option) list \<Rightarrow> (string \<times> string) list \<Rightarrow> stateError option" where
  "validateMappings certs [] = None"
| "validateMappings certs ((d, c) # ds) = (case map_of certs c of
     Some (Some cert) \<Rightarrow> if \<not> identifiersCover (mc_domains cert) d then Some (UncoveredDomain d c) else validateMappings certs ds
   | _ \<Rightarrow> Some (MissingCertificate d c))"

definition validateManagerState :: "storedState \<Rightarrow> stateError option" where
  "validateManagerState s = (case (sf_certificates s, sf_domainMap s) of
     (Some certs, Some domains) \<Rightarrow> (case validateCertificates certs [] of Some e \<Rightarrow> Some e | None \<Rightarrow> validateMappings certs domains)
   | _ \<Rightarrow> Some NotAStateFile)"

section \<open>Reading an archive\<close>

datatype entryKind = RegularEntry | DirectoryEntry | OtherEntry

record 'b tarEntry =
  te_name :: string
  te_kind :: entryKind
  te_data :: 'b
  te_header :: nat
  te_payload :: nat

text \<open>\<open>tb_sound\<close> says that the stream decompresses to its end and its checksum holds.\<close>

record 'b tarball =
  tb_entries :: "'b tarEntry list"
  tb_tail :: nat
  tb_sound :: bool

record 'b archiveCertPair =
  ap_certPEM :: 'b
  ap_keyPEM :: 'b
  ap_leaf :: certLeaf

datatype certArchiveWarning = WarnMissingCertificate string | WarnAccountKey string

record 'b certStoreArchive =
  ca_state :: storedState
  ca_hasState :: bool
  ca_accountKey :: "'b option"
  ca_dynamicDomains :: "'b option"
  ca_extraAccountKeys :: "(string \<times> 'b) list"
  ca_certs :: "(string \<times> 'b archiveCertPair) list"
  ca_warnings :: "certArchiveWarning list"

datatype archiveError =
    UnreadableArchive
  | TooManyBytes
  | TooManyHeaderBytes
  | TooManyEntries
  | NotARegularFile string
  | NotAStorePath string
  | StateUnparseable
  | UnexpectedEntry string
  | EmptyArchive
  | HalfPair string string
  | PairUnparseable string
  | CertificatesWithoutState
  | UntrustworthyState stateError
  | NamesDisagree string
  | ExpiryDisagrees string

definition maxCertArchiveBytes :: int where
  "maxCertArchiveBytes = 512 * 1048576"

definition maxCertArchiveEntries :: int where
  "maxCertArchiveEntries = 100000"

definition maxCertArchiveHeaderBytes :: int where
  "maxCertArchiveHeaderBytes = 64 * 1048576"

text \<open>\<open>path.Clean\<close>: the components that remain, the last one first.\<close>

definition cleanStep :: "bool \<Rightarrow> string \<Rightarrow> string list \<Rightarrow> string list" where
  "cleanStep rooted c stack =
     (if c = [] \<or> c = ''.'' then stack
      else if c = ''..'' then (case stack of [] \<Rightarrow> if rooted then [] else [''..''] | t # ts \<Rightarrow> if t = ''..'' then ''..'' # stack else ts)
      else c # stack)"

definition pathClean :: "string \<Rightarrow> string" where
  "pathClean p =
     (let rooted = hasPrefix p ''/'';
          out = joinWith ''/'' (rev (fold (cleanStep rooted) (splitAt (CHR ''/'') p) []))
      in if rooted then ''/'' @ out else if out = [] then ''.'' else out)"

definition isExtraAccountKeyFile :: "string \<Rightarrow> bool" where
  "isExtraAccountKeyFile name \<longleftrightarrow> name = ''acme_user_staging.json'' \<or>
     (hasPrefix name ''acme_user_'' \<and>
      (let rest = drop 10 name
       in hasSuffix rest ''.json'' \<and>
          (let hash = take (length rest - 5) rest
           in length hash = 8 \<and> list_all (\<lambda>c. let n = of_char c :: nat in (48 \<le> n \<and> n \<le> 57) \<or> (97 \<le> n \<and> n \<le> 102)) hash)))"

type_synonym 'b rawCerts = "(string \<times> (string \<times> 'b) list) list"

definition rawFiles :: "'b rawCerts \<Rightarrow> string \<Rightarrow> (string \<times> 'b) list" where
  "rawFiles raw dir = (case map_of raw dir of Some fs \<Rightarrow> fs | None \<Rightarrow> [])"

definition placeEntry :: "'b certLib \<Rightarrow> string \<Rightarrow> 'b \<Rightarrow> 'b certStoreArchive \<times> 'b rawCerts \<Rightarrow> archiveError + 'b certStoreArchive \<times> 'b rawCerts" where
  "placeEntry lib name data = (\<lambda>(a, raw).
     if name \<noteq> pathClean name \<or> hasPrefix name ''/'' \<or> hasPrefix name ''..'' then Inl (NotAStorePath name)
     else if name = ''acme.state'' then
       (case cl_decodeState lib data (ca_state a) of None \<Rightarrow> Inl StateUnparseable | Some s \<Rightarrow> Inr (a\<lparr>ca_state := s, ca_hasState := True\<rparr>, raw))
     else if name = ''certs/acme_user.json'' then Inr (a\<lparr>ca_accountKey := Some data\<rparr>, raw)
     else if name = ''dynamic-domains.state'' then Inr (a\<lparr>ca_dynamicDomains := Some data\<rparr>, raw)
     else if hasPrefix name ''certs/'' then
       (let rest = drop 6 name
        in if isExtraAccountKeyFile rest then Inr (a\<lparr>ca_extraAccountKeys := AList.update rest data (ca_extraAccountKeys a)\<rparr>, raw)
           else case cut rest ''/'' of
                  (dir, base, found) \<Rightarrow>
                    if found \<and> dir \<noteq> [] \<and> dir = sanitizeFilename dir \<and> (base = ''cert.pem'' \<or> base = ''key.pem'')
                    then Inr (a, AList.update dir (AList.update base data (rawFiles raw dir)) raw)
                    else Inl (UnexpectedEntry name))
     else Inl (UnexpectedEntry name))"

record 'b readProgress =
  rp_remaining :: int
  rp_header :: int
  rp_entries :: int
  rp_files :: nat
  rp_archive :: "'b certStoreArchive"
  rp_raw :: "'b rawCerts"

text \<open>The walk over the entries. The cap counts every decompressed byte, the header budget what reading a header consumed, metadata records included.\<close>

fun readEntries :: "'b certLib \<Rightarrow> 'b tarEntry list \<Rightarrow> 'b readProgress \<Rightarrow> archiveError + 'b readProgress" where
  "readEntries lib [] p = Inr p"
| "readEntries lib (e # es) p =
     (if rp_remaining p < int (te_header e) then Inl TooManyBytes
      else if maxCertArchiveHeaderBytes < rp_header p + int (te_header e) then Inl TooManyHeaderBytes
      else if maxCertArchiveEntries < rp_entries p + 1 then Inl TooManyEntries
      else
        (let p1 = p\<lparr>rp_remaining := rp_remaining p - int (te_header e), rp_header := rp_header p + int (te_header e), rp_entries := rp_entries p + 1\<rparr>
         in case te_kind e of
              DirectoryEntry \<Rightarrow> readEntries lib es p1
            | OtherEntry \<Rightarrow> Inl (NotARegularFile (te_name e))
            | RegularEntry \<Rightarrow>
                if rp_remaining p1 < int (te_payload e) then Inl TooManyBytes
                else case placeEntry lib (te_name e) (te_data e) (rp_archive p1, rp_raw p1) of
                       Inl err \<Rightarrow> Inl err
                     | Inr (a, raw) \<Rightarrow> readEntries lib es
                         (p1\<lparr>rp_remaining := rp_remaining p1 - int (te_payload e), rp_files := rp_files p1 + 1, rp_archive := a, rp_raw := raw\<rparr>)))"

text \<open>Over the directories in sorted order.\<close>

fun assembleCertPairs :: "'b certLib \<Rightarrow> 'b rawCerts \<Rightarrow> string list \<Rightarrow> 'b certStoreArchive \<Rightarrow> archiveError + 'b certStoreArchive" where
  "assembleCertPairs lib raw [] a = Inr a"
| "assembleCertPairs lib raw (dir # dirs) a = (case map_of (rawFiles raw dir) ''cert.pem'' of
     None \<Rightarrow> Inl (HalfPair dir ''cert.pem'')
   | Some c \<Rightarrow> (case map_of (rawFiles raw dir) ''key.pem'' of
       None \<Rightarrow> Inl (HalfPair dir ''key.pem'')
     | Some k \<Rightarrow> (case cl_parsePair lib c k of
         None \<Rightarrow> Inl (PairUnparseable dir)
       | Some l \<Rightarrow> assembleCertPairs lib raw dirs (a\<lparr>ca_certs := AList.update dir \<lparr>ap_certPEM = c, ap_keyPEM = k, ap_leaf = l\<rparr> (ca_certs a)\<rparr>))))"

definition checkAccountKeys :: "'b certLib \<Rightarrow> 'b certStoreArchive \<Rightarrow> 'b certStoreArchive" where
  "checkAccountKeys lib a =
     (let usable = (\<lambda>k. cl_usableKey lib k);
          a1 = (case ca_accountKey a of
                  Some k \<Rightarrow> if usable k then a else a\<lparr>ca_accountKey := None, ca_warnings := ca_warnings a @ [WarnAccountKey ''acme_user.json'']\<rparr>
                | None \<Rightarrow> a)
      in a1\<lparr>ca_extraAccountKeys := filter (\<lambda>(_, k). usable k) (ca_extraAccountKeys a1),
            ca_warnings := ca_warnings a1 @ map WarnAccountKey (sort (map fst (filter (\<lambda>(_, k). \<not> usable k) (ca_extraAccountKeys a1))))\<rparr>)"

definition sortedCopy :: "string list \<Rightarrow> string list" where
  "sortedCopy domains = sort domains"

fun validateRecords :: "(string \<times> certRecord option) list \<Rightarrow> string list \<Rightarrow> 'b certStoreArchive \<Rightarrow> archiveError + 'b certStoreArchive" where
  "validateRecords certs [] a = Inr a"
| "validateRecords certs (c # cs) a = (case (map_of certs c, map_of (ca_certs a) (sanitizeFilename c)) of
     (Some (Some r), Some pair) \<Rightarrow>
       if sortedCopy (mc_domains r) \<noteq> sortedCopy (lf_names (ap_leaf pair)) then Inl (NamesDisagree c)
       else if mc_notAfter r div second \<noteq> lf_notAfter (ap_leaf pair) div second then Inl (ExpiryDisagrees c)
       else validateRecords certs cs a
   | _ \<Rightarrow> validateRecords certs cs (a\<lparr>ca_warnings := ca_warnings a @ [WarnMissingCertificate c]\<rparr>))"

definition validateArchive :: "'b certLib \<Rightarrow> 'b certStoreArchive \<Rightarrow> archiveError + 'b certStoreArchive" where
  "validateArchive lib a0 =
     (let a = checkAccountKeys lib a0
      in if \<not> ca_hasState a then (if ca_certs a \<noteq> [] then Inl CertificatesWithoutState else Inr a)
         else case validateManagerState (ca_state a) of
                Some e \<Rightarrow> Inl (UntrustworthyState e)
              | None \<Rightarrow> validateRecords (stateCerts (ca_state a)) (sort (map fst (stateCerts (ca_state a)))) a)"

definition emptyArchive :: "'b certStoreArchive" where
  "emptyArchive = \<lparr>ca_state = emptyState, ca_hasState = False, ca_accountKey = None, ca_dynamicDomains = None,
     ca_extraAccountKeys = [], ca_certs = [], ca_warnings = []\<rparr>"

definition readCertStoreArchive :: "'b certLib \<Rightarrow> 'b tarball \<Rightarrow> archiveError + 'b certStoreArchive" where
  "readCertStoreArchive lib tb =
     (case readEntries lib (tb_entries tb) \<lparr>rp_remaining = maxCertArchiveBytes, rp_header = 0, rp_entries = 0, rp_files = 0, rp_archive = emptyArchive, rp_raw = []\<rparr> of
        Inl e \<Rightarrow> Inl e
      | Inr p \<Rightarrow>
          if rp_remaining p < int (tb_tail tb) then Inl TooManyBytes
          else if \<not> tb_sound tb then Inl UnreadableArchive
          else if rp_files p = 0 then Inl EmptyArchive
          else case assembleCertPairs lib (rp_raw p) (sort (map fst (rp_raw p))) (rp_archive p) of
                 Inl e \<Rightarrow> Inl e
               | Inr a \<Rightarrow> validateArchive lib a)"

section \<open>Exporting a store\<close>

datatype 'b storeNode = FileNode 'b | DirNode "(string \<times> 'b) list"

text \<open>The store on disk: the two state files and the certificate directory, which may not exist, listed by name.\<close>

record 'b certDisk =
  cd_state :: "'b option"
  cd_dynamic :: "'b option"
  cd_certs :: "(string \<times> 'b storeNode) list option"

datatype exportWarning =
    NotJSON string
  | LegacyCacheNotExported
  | PairIncomplete string string
  | PairDoesNotParse string
  | UnexpectedFile string
  | MissingOnDisk string
  | ReaderWarning certArchiveWarning

datatype exportError =
    StateUnreadable
  | StateRefused stateError
  | CertsWithoutState
  | CertStoreEmpty
  | StagedUnverified archiveError

type_synonym 'b archiveFile = "string \<times> 'b"

definition collectStateEntry :: "'b certLib \<Rightarrow> 'b certDisk \<Rightarrow> exportError + storedState option \<times> 'b archiveFile list" where
  "collectStateEntry lib disk = (case cd_state disk of
     None \<Rightarrow> Inr (None, [])
   | Some data \<Rightarrow> (case parseState lib data of
       None \<Rightarrow> Inl StateUnreadable
     | Some s \<Rightarrow> (case validateManagerState s of
         Some e \<Rightarrow> Inl (StateRefused e)
       | None \<Rightarrow> Inr (Some s, [(''acme.state'', data)]))))"

definition certEntry :: "string \<Rightarrow> string \<Rightarrow> string" where
  "certEntry dir base = ''certs/'' @ dir @ ''/'' @ base"

definition collectCertPair :: "'b certLib \<Rightarrow> string \<Rightarrow> (string \<times> 'b) list \<Rightarrow> exportWarning + 'b archiveFile list" where
  "collectCertPair lib dir files = (case map_of files ''cert.pem'' of
     None \<Rightarrow> Inl (PairIncomplete dir ''cert.pem'')
   | Some c \<Rightarrow> (case map_of files ''key.pem'' of
       None \<Rightarrow> Inl (PairIncomplete dir ''key.pem'')
     | Some k \<Rightarrow> (case cl_parsePair lib c k of
         None \<Rightarrow> Inl (PairDoesNotParse dir)
       | Some _ \<Rightarrow> Inr [(certEntry dir ''cert.pem'', c), (certEntry dir ''key.pem'', k)])))"

definition collectOptionalJSON :: "'b certLib \<Rightarrow> string \<Rightarrow> 'b option \<Rightarrow> 'b archiveFile list \<times> exportWarning list" where
  "collectOptionalJSON lib name file = (case file of
     None \<Rightarrow> ([], [])
   | Some data \<Rightarrow> if cl_jsonValid lib data then ([(name, data)], []) else ([], [NotJSON name]))"

definition collectNode :: "'b certLib \<Rightarrow> string \<times> 'b storeNode \<Rightarrow> 'b archiveFile list \<times> exportWarning list" where
  "collectNode lib = (\<lambda>(name, node). case node of
     FileNode data \<Rightarrow>
       if name = ''acme_user.json'' then collectOptionalJSON lib ''certs/acme_user.json'' (Some data)
       else if isExtraAccountKeyFile name then collectOptionalJSON lib (''certs/'' @ name) (Some data)
       else ([], [UnexpectedFile name])
   | DirNode files \<Rightarrow>
       if name = ''http01'' then ([], [LegacyCacheNotExported])
       else (case collectCertPair lib name files of Inl w \<Rightarrow> ([], [w]) | Inr fs \<Rightarrow> (fs, [])))"

definition diskFile :: "'b certDisk \<Rightarrow> string \<Rightarrow> string \<Rightarrow> 'b option" where
  "diskFile disk dir base = (case cd_certs disk of
     None \<Rightarrow> None
   | Some nodes \<Rightarrow> (case map_of nodes dir of Some (DirNode fs) \<Rightarrow> map_of fs base | _ \<Rightarrow> None))"

definition warnMissingStateCerts :: "'b certDisk \<Rightarrow> storedState option \<Rightarrow> exportWarning list" where
  "warnMissingStateCerts disk s = (case s of
     None \<Rightarrow> []
   | Some st \<Rightarrow> map MissingOnDisk (filter (\<lambda>c. diskFile disk (sanitizeFilename c) ''cert.pem'' = None) (sort (map fst (stateCerts st)))))"

definition collectCertsEntries :: "'b certLib \<Rightarrow> 'b certDisk \<Rightarrow> storedState option \<Rightarrow> 'b archiveFile list \<times> exportWarning list" where
  "collectCertsEntries lib disk s = (case cd_certs disk of
     None \<Rightarrow> ([], warnMissingStateCerts disk s)
   | Some nodes \<Rightarrow> (concat (map (fst \<circ> collectNode lib) nodes), concat (map (snd \<circ> collectNode lib) nodes) @ warnMissingStateCerts disk s))"

text \<open>\<open>frame\<close> is what the header of a file takes in the tarball and \<open>tail\<close> what follows the last file.\<close>

definition writeTar :: "'b certLib \<Rightarrow> ('b archiveFile \<Rightarrow> nat) \<Rightarrow> nat \<Rightarrow> 'b archiveFile list \<Rightarrow> 'b tarball" where
  "writeTar lib frame tail files =
     \<lparr>tb_entries = map (\<lambda>f. \<lparr>te_name = fst f, te_kind = RegularEntry, te_data = snd f, te_header = frame f, te_payload = cl_size lib (snd f)\<rparr>) files, tb_tail = tail, tb_sound = True\<rparr>"

definition exportCertificateStore :: "'b certLib \<Rightarrow> ('b archiveFile \<Rightarrow> nat) \<Rightarrow> nat \<Rightarrow> 'b certDisk \<Rightarrow> exportError + 'b tarball \<times> exportWarning list" where
  "exportCertificateStore lib frame tail disk = (case collectStateEntry lib disk of
     Inl e \<Rightarrow> Inl e
   | Inr (s, stateFiles) \<Rightarrow>
       (let (certFiles, w1) = collectCertsEntries lib disk s;
            (dynamicFiles, w2) = collectOptionalJSON lib ''dynamic-domains.state'' (cd_dynamic disk);
            certsWithoutState = list_ex (\<lambda>(name, _). name \<noteq> ''certs/acme_user.json'' \<and> \<not> isExtraAccountKeyFile (trimPrefix name ''certs/'')) certFiles;
            files = sort_key fst (stateFiles @ certFiles @ dynamicFiles)
        in if stateFiles = [] \<and> certsWithoutState then Inl CertsWithoutState
           else if files = [] then Inl CertStoreEmpty
           else case readCertStoreArchive lib (writeTar lib frame tail files) of
                  Inl e \<Rightarrow> Inl (StagedUnverified e)
                | Inr a \<Rightarrow> Inr (writeTar lib frame tail files,
                    w1 @ w2 @ map ReaderWarning (filter (\<lambda>w. case w of WarnMissingCertificate _ \<Rightarrow> False | _ \<Rightarrow> True) (ca_warnings a)))))"

section \<open>Restoring an archive\<close>

text \<open>A restore is a sequence of steps on the disk, each of which is done or not; a certificate pair is two renames, once both files are staged.\<close>

datatype 'b restoreStep =
    PutCertFile string string 'b
  | PutAccountKey string 'b
  | PutDynamicDomains 'b
  | PutState 'b
  | RemoveCertDir string

definition nodesOf :: "'b certDisk \<Rightarrow> (string \<times> 'b storeNode) list" where
  "nodesOf disk = (case cd_certs disk of Some nodes \<Rightarrow> nodes | None \<Rightarrow> [])"

fun applyStep :: "'b restoreStep \<Rightarrow> 'b certDisk \<Rightarrow> 'b certDisk" where
  "applyStep (PutCertFile dir base data) disk =
     disk\<lparr>cd_certs := Some (AList.update dir (DirNode (AList.update base data (case map_of (nodesOf disk) dir of Some (DirNode fs) \<Rightarrow> fs | _ \<Rightarrow> []))) (nodesOf disk))\<rparr>"
| "applyStep (PutAccountKey name data) disk = disk\<lparr>cd_certs := Some (AList.update name (FileNode data) (nodesOf disk))\<rparr>"
| "applyStep (PutDynamicDomains data) disk = disk\<lparr>cd_dynamic := Some data\<rparr>"
| "applyStep (PutState data) disk = disk\<lparr>cd_state := Some data\<rparr>"
| "applyStep (RemoveCertDir dir) disk = disk\<lparr>cd_certs := map_option (AList.delete dir) (cd_certs disk)\<rparr>"

definition keyFile :: "'b certDisk \<Rightarrow> string \<Rightarrow> 'b option" where
  "keyFile disk n = (case map_of (nodesOf disk) n of Some (FileNode d) \<Rightarrow> Some d | _ \<Rightarrow> None)"

definition isDir :: "'b certDisk \<Rightarrow> string \<Rightarrow> bool" where
  "isDir disk n \<longleftrightarrow> (case map_of (nodesOf disk) n of Some (DirNode _) \<Rightarrow> True | _ \<Rightarrow> False)"

text \<open>\<open>MkdirAll\<close> fails where a file has the directory's name, and a file cannot be renamed onto a directory.\<close>

fun blocked :: "'b restoreStep \<Rightarrow> 'b certDisk \<Rightarrow> bool" where
  "blocked (PutCertFile dir _ _) disk \<longleftrightarrow> keyFile disk dir \<noteq> None"
| "blocked (PutAccountKey name _) disk \<longleftrightarrow> isDir disk name"
| "blocked _ _ \<longleftrightarrow> False"

text \<open>The steps done, the disk they leave, and whether these were all.\<close>

fun runSteps :: "'b restoreStep list \<Rightarrow> 'b certDisk \<Rightarrow> 'b restoreStep list \<times> 'b certDisk \<times> bool" where
  "runSteps [] disk = ([], disk, True)"
| "runSteps (s # steps) disk =
     (if blocked s disk then ([], disk, False)
      else case runSteps steps (applyStep s disk) of (did, disk', all) \<Rightarrow> (s # did, disk', all))"

definition writeCertificateFiles :: "string \<Rightarrow> 'b archiveCertPair \<Rightarrow> 'b restoreStep list" where
  "writeCertificateFiles certID pair =
     [PutCertFile (sanitizeFilename certID) ''cert.pem'' (ap_certPEM pair), PutCertFile (sanitizeFilename certID) ''key.pem'' (ap_keyPEM pair)]"

text \<open>The identifiers were checked by the reader, so that the refusal of an unsafe directory here is never reached (\<open>restore_confined\<close>).\<close>

definition removeStaleCertDirs :: "'b certStoreArchive \<Rightarrow> 'b restoreStep list" where
  "removeStaleCertDirs a =
     map (\<lambda>c. RemoveCertDir (sanitizeFilename c)) (filter (\<lambda>c. map_of (ca_certs a) (sanitizeFilename c) = None) (sort (map fst (stateCerts (ca_state a)))))"

definition restoreSteps :: "'b certLib \<Rightarrow> 'b certStoreArchive \<Rightarrow> 'b restoreStep list" where
  "restoreSteps lib a =
     concat (map (\<lambda>dir. case map_of (ca_certs a) dir of Some pair \<Rightarrow> writeCertificateFiles dir pair | None \<Rightarrow> []) (sort (map fst (ca_certs a))))
     @ (case ca_accountKey a of Some k \<Rightarrow> [PutAccountKey ''acme_user.json'' k] | None \<Rightarrow> [])
     @ map (\<lambda>name. PutAccountKey name (the (map_of (ca_extraAccountKeys a) name))) (sort (map fst (ca_extraAccountKeys a)))
     @ (case ca_dynamicDomains a of Some d \<Rightarrow> [PutDynamicDomains d] | None \<Rightarrow> [])
     @ (if ca_hasState a then [PutState (cl_marshal lib (ca_state a))] else [])
     @ removeStaleCertDirs a"

definition certStoreOccupied :: "'b certDisk \<Rightarrow> bool" where
  "certStoreOccupied disk \<longleftrightarrow> cd_state disk \<noteq> None \<or> cd_dynamic disk \<noteq> None \<or> nodesOf disk \<noteq> []"

text \<open>A restore that stops half-way reports an error; the model keeps the steps it did and the disk it left.\<close>

datatype 'b restoreError = RestoreUnreadable archiveError | CertStoreNotEmpty | RestoreStopped "'b restoreStep list" "'b certDisk"

definition restoreCertificateStore :: "'b certLib \<Rightarrow> bool \<Rightarrow> 'b tarball \<Rightarrow> 'b certDisk \<Rightarrow> 'b restoreError + 'b restoreStep list \<times> 'b certDisk" where
  "restoreCertificateStore lib force tb disk = (case readCertStoreArchive lib tb of
     Inl e \<Rightarrow> Inl (RestoreUnreadable e)
   | Inr a \<Rightarrow> if \<not> force \<and> certStoreOccupied disk then Inl CertStoreNotEmpty
              else case runSteps (restoreSteps lib a) disk of (did, disk', all) \<Rightarrow> if all then Inr (did, disk') else Inl (RestoreStopped did disk'))"

record archiveCertInfo =
  ai_identifier :: string
  ai_domains :: "string list"
  ai_notAfter :: time

record certArchiveReport =
  ar_certificates :: "archiveCertInfo list"
  ar_domainMappings :: nat
  ar_hasAccountKey :: bool
  ar_hasDynamicDomains :: bool
  ar_warnings :: "certArchiveWarning list"

text \<open>The identifier of a directory is the one the state gives it; a valid state gives it at most one.\<close>

definition verifyCertificateArchive :: "'b certLib \<Rightarrow> 'b tarball \<Rightarrow> archiveError + certArchiveReport" where
  "verifyCertificateArchive lib tb = (case readCertStoreArchive lib tb of
     Inl e \<Rightarrow> Inl e
   | Inr a \<Rightarrow>
       (let idByDir = fold (\<lambda>c. AList.update (sanitizeFilename c) c) (map fst (stateCerts (ca_state a))) [];
            info = (\<lambda>dir pair. \<lparr>ai_identifier = (case map_of idByDir dir of Some c \<Rightarrow> if c = [] then dir else c | None \<Rightarrow> dir),
                                 ai_domains = sortedCopy (lf_names (ap_leaf pair)), ai_notAfter = lf_notAfter (ap_leaf pair)\<rparr>)
        in Inr \<lparr>ar_certificates = concat (map (\<lambda>dir. case map_of (ca_certs a) dir of Some pair \<Rightarrow> [info dir pair] | None \<Rightarrow> []) (sort (map fst (ca_certs a)))),
                ar_domainMappings = length (stateDomainMap (ca_state a)), ar_hasAccountKey = (ca_accountKey a \<noteq> None),
                ar_hasDynamicDomains = (ca_dynamicDomains a \<noteq> None), ar_warnings = ca_warnings a\<rparr>))"

text \<open>What \<open>loadState\<close> reads back for a certificate.\<close>

definition loadPair :: "'b certLib \<Rightarrow> 'b certDisk \<Rightarrow> string \<Rightarrow> ('b \<times> 'b) option" where
  "loadPair lib disk c = (case (diskFile disk (sanitizeFilename c) ''cert.pem'', diskFile disk (sanitizeFilename c) ''key.pem'') of
     (Some cp, Some kp) \<Rightarrow> if cl_parsePair lib cp kp \<noteq> None then Some (cp, kp) else None
   | _ \<Rightarrow> None)"

section \<open>The names an archive may use\<close>

definition safeDir :: "string \<Rightarrow> bool" where
  "safeDir dir \<longleftrightarrow> dir \<noteq> [] \<and> dir \<noteq> ''.'' \<and> dir \<noteq> ''..'' \<and> CHR ''/'' \<notin> set dir"

lemma sanitizeFilename_plain: "CHR ''/'' \<notin> set (sanitizeFilename s)"
  by (auto simp: sanitizeFilename_def Let_def split: if_split_asm)

lemma sanitizeFilename_idem [simp]: "sanitizeFilename (sanitizeFilename s) = sanitizeFilename s"
  by (auto simp: sanitizeFilename_def Let_def)

lemma cut_found:
  assumes "cut s [c] = (a, b, True)"
  shows "s = a @ c # b \<and> c \<notin> set a"
proof (cases "c \<in> set s")
  case True
  then obtain u v where "s = u @ c # v" "c \<notin> set u" by (meson split_list_first)
  then show ?thesis using assms cut_char_append[of c u v] by simp
next
  case False
  then show ?thesis using assms by (simp add: cut_char_absent)
qed

lemma extra_key_plain: "isExtraAccountKeyFile name \<Longrightarrow> CHR ''/'' \<notin> set name"
proof -
  assume a: "isExtraAccountKeyFile name"
  show ?thesis
  proof (cases "name = ''acme_user_staging.json''")
    case False
    then obtain rest hash where r: "name = ''acme_user_'' @ rest" "rest = hash @ ''.json''" "list_all (\<lambda>c. let n = of_char c :: nat in (48 \<le> n \<and> n \<le> 57) \<or> (97 \<le> n \<and> n \<le> 102)) hash"
      using a by (auto simp: isExtraAccountKeyFile_def hasPrefix_iff hasSuffix_iff Let_def)
    have "CHR ''/'' \<notin> set hash" using r(3) by (auto simp: list_all_iff Let_def)
    then show ?thesis using r(1,2) by simp
  qed simp
qed

lemma dotted_names_unclean:
  "pathClean ''certs/./cert.pem'' \<noteq> ''certs/./cert.pem''" "pathClean ''certs/./key.pem'' \<noteq> ''certs/./key.pem''"
  "pathClean ''certs/../cert.pem'' \<noteq> ''certs/../cert.pem''" "pathClean ''certs/../key.pem'' \<noteq> ''certs/../key.pem''"
  by code_simp+

lemma placeEntry_unclean: "name \<noteq> pathClean name \<Longrightarrow> placeEntry lib name data (a, raw) = Inl (NotAStorePath name)"
  unfolding placeEntry_def by simp

text \<open>Where an accepted entry goes, read off its name.\<close>

lemma placeEntry_cases:
  assumes "placeEntry lib name data (a, raw) = Inr (a', raw')"
  obtains (State) s where "name = ''acme.state''" "cl_decodeState lib data (ca_state a) = Some s" "a' = a\<lparr>ca_state := s, ca_hasState := True\<rparr>" "raw' = raw"
  | (Account) "name = ''certs/acme_user.json''" "a' = a\<lparr>ca_accountKey := Some data\<rparr>" "raw' = raw"
  | (Dynamic) "name = ''dynamic-domains.state''" "a' = a\<lparr>ca_dynamicDomains := Some data\<rparr>" "raw' = raw"
  | (Extra) n where "name = ''certs/'' @ n" "isExtraAccountKeyFile n" "a' = a\<lparr>ca_extraAccountKeys := AList.update n data (ca_extraAccountKeys a)\<rparr>" "raw' = raw"
  | (Cert) dir base where "name = certEntry dir base" "safeDir dir" "sanitizeFilename dir = dir" "base \<in> {''cert.pem'', ''key.pem''}" "a' = a"
      "raw' = AList.update dir (AList.update base data (rawFiles raw dir)) raw"
proof -
  have clean: "name = pathClean name" using assms placeEntry_unclean[of name lib data a raw] by (cases "name = pathClean name") simp_all
  consider "name \<in> {''acme.state'', ''certs/acme_user.json'', ''dynamic-domains.state''}"
    | "name \<notin> {''acme.state'', ''certs/acme_user.json'', ''dynamic-domains.state''}" "\<exists>n. name = ''certs/'' @ n \<and> isExtraAccountKeyFile n"
    | "name \<notin> {''acme.state'', ''certs/acme_user.json'', ''dynamic-domains.state''}" "\<nexists>n. name = ''certs/'' @ n \<and> isExtraAccountKeyFile n"
    by blast
  then show ?thesis
  proof cases
    case 1
    then show ?thesis using assms State Account Dynamic by (auto simp: placeEntry_def split: if_split_asm option.split_asm)
  next
    case 2
    then obtain n where n: "name = ''certs/'' @ n" "isExtraAccountKeyFile n" by blast
    then show ?thesis using 2(1) assms Extra[of n] by (auto simp: placeEntry_def hasPrefix_def split: if_split_asm)
  next
    case 3
    then obtain rest where rest: "name = ''certs/'' @ rest" "\<not> isExtraAccountKeyFile rest"
      using assms by (auto simp: placeEntry_def hasPrefix_iff[of name "''certs/''"] split: if_split_asm)
    obtain dir base found where c: "cut rest ''/'' = (dir, base, found)" by (metis prod_cases3)
    have ok: "found" "dir \<noteq> []" "dir = sanitizeFilename dir" "base = ''cert.pem'' \<or> base = ''key.pem''" "a' = a"
        "raw' = AList.update dir (AList.update base data (rawFiles raw dir)) raw"
      using 3(1) rest assms c by (auto simp: placeEntry_def split: if_split_asm)
    have split: "rest = dir @ ''/'' @ base" "CHR ''/'' \<notin> set dir" using cut_found[of rest "CHR ''/''" dir base] c ok(1) by auto
    have "dir \<noteq> ''.''" "dir \<noteq> ''..''"
      using clean ok(4) dotted_names_unclean unfolding rest(1) split(1) by auto
    then show ?thesis using Cert[of dir base] ok split rest(1) by (simp add: certEntry_def safeDir_def)
  qed
qed

section \<open>What the reader takes from the entries\<close>

definition stateEntries :: "'b archiveFile list \<Rightarrow> 'b archiveFile list" where
  "stateEntries files = filter (\<lambda>f. fst f = ''acme.state'') files"

lemma stateEntries_absent: "map_of seen ''acme.state'' = None \<longleftrightarrow> stateEntries seen = []"
  by (force simp: map_of_eq_None_iff stateEntries_def filter_empty_conv)

text \<open>The archive after the entries \<open>seen\<close>, the last one first: each slot holds what was last written under its name; a second state file would be decoded onto the first.\<close>

definition slotsOk :: "'b certLib \<Rightarrow> 'b archiveFile list \<Rightarrow> 'b certStoreArchive \<Rightarrow> bool" where
  "slotsOk lib seen a \<longleftrightarrow>
     ca_hasState a = (map_of seen ''acme.state'' \<noteq> None) \<and> (\<forall>d. stateEntries seen = [(''acme.state'', d)] \<longrightarrow> parseState lib d = Some (ca_state a))
   \<and> ca_accountKey a = map_of seen ''certs/acme_user.json'' \<and> ca_dynamicDomains a = map_of seen ''dynamic-domains.state''
   \<and> (\<forall>n. map_of (ca_extraAccountKeys a) n = (if isExtraAccountKeyFile n then map_of seen (''certs/'' @ n) else None)) \<and> distinct (map fst (ca_extraAccountKeys a))
   \<and> ca_certs a = [] \<and> ca_warnings a = [] \<and> (\<not> ca_hasState a \<longrightarrow> ca_state a = emptyState)"

definition rawOk :: "'b archiveFile list \<Rightarrow> 'b rawCerts \<Rightarrow> bool" where
  "rawOk seen raw \<longleftrightarrow>
     distinct (map fst raw) \<and> (\<forall>dir fs. (dir, fs) \<in> set raw \<longrightarrow> safeDir dir \<and> sanitizeFilename dir = dir \<and> fs \<noteq> [] \<and> fst ` set fs \<subseteq> {''cert.pem'', ''key.pem''})
   \<and> (\<forall>dir base. safeDir dir \<longrightarrow> base \<in> {''cert.pem'', ''key.pem''} \<longrightarrow> map_of (rawFiles raw dir) base = map_of seen (certEntry dir base))"

definition placed :: "'b certLib \<Rightarrow> 'b archiveFile list \<Rightarrow> 'b certStoreArchive \<Rightarrow> 'b rawCerts \<Rightarrow> bool" where
  "placed lib seen a raw \<longleftrightarrow> slotsOk lib seen a \<and> rawOk seen raw"

lemma placed_empty: "placed lib [] emptyArchive []"
  by (simp add: placed_def slotsOk_def rawOk_def emptyArchive_def rawFiles_def stateEntries_def)

lemma certEntry_plain_inj:
  assumes "certEntry dir base = certEntry dir' base'" "CHR ''/'' \<notin> set dir" "CHR ''/'' \<notin> set dir'"
  shows "dir = dir' \<and> base = base'"
proof -
  have "dir @ CHR ''/'' # base = dir' @ CHR ''/'' # base'" using assms(1) by (simp add: certEntry_def)
  then have "cut (dir @ CHR ''/'' # base) ''/'' = cut (dir' @ CHR ''/'' # base') ''/''" by simp
  then show ?thesis using assms(2,3) by (simp add: cut_char_append)
qed

lemma certEntry_inj: "certEntry dir base = certEntry dir' base' \<Longrightarrow> safeDir dir \<Longrightarrow> safeDir dir' \<Longrightarrow> dir = dir' \<and> base = base'"
  using certEntry_plain_inj[of dir base dir' base'] by (simp add: safeDir_def)

lemma certEntry_other:
  "certEntry dir base \<noteq> ''acme.state''" "certEntry dir base \<noteq> ''dynamic-domains.state''"
  "isExtraAccountKeyFile n \<Longrightarrow> certEntry dir base \<noteq> ''certs/'' @ n"
  "base \<in> {''cert.pem'', ''key.pem''} \<Longrightarrow> certEntry dir base \<noteq> ''certs/acme_user.json''"
proof -
  show "isExtraAccountKeyFile n \<Longrightarrow> certEntry dir base \<noteq> ''certs/'' @ n"
  proof
    assume a: "isExtraAccountKeyFile n" and "certEntry dir base = ''certs/'' @ n"
    then have "n = dir @ ''/'' @ base" by (simp add: certEntry_def)
    then show False using extra_key_plain[OF a] by simp
  qed
  show "base \<in> {''cert.pem'', ''key.pem''} \<Longrightarrow> certEntry dir base \<noteq> ''certs/acme_user.json''"
  proof
    assume "certEntry dir base = ''certs/acme_user.json''"
    then have "dir @ ''/'' @ base = ''acme_user.json''" by (simp add: certEntry_def)
    then have "CHR ''/'' \<in> set ''acme_user.json''" by (metis in_set_conv_decomp append_Cons append_Nil)
    then show False by simp
  qed
qed (simp_all add: certEntry_def)

lemma extra_key_other: "isExtraAccountKeyFile n \<Longrightarrow> n \<noteq> ''acme_user.json''"
  by (auto simp: isExtraAccountKeyFile_def hasPrefix_def)

lemma rawFiles_update: "rawFiles (AList.update dir fs raw) d = (if d = dir then fs else rawFiles raw d)"
  by (simp add: rawFiles_def update_conv')

lemma rawFiles_bases:
  assumes "\<forall>dir fs. (dir, fs) \<in> set raw \<longrightarrow> fst ` set fs \<subseteq> S"
  shows "fst ` set (rawFiles raw dir) \<subseteq> S"
proof (cases "map_of raw dir")
  case (Some fs)
  then show ?thesis using assms map_of_SomeD[OF Some] by (simp add: rawFiles_def)
qed (simp add: rawFiles_def)

lemma AList_update_not_Nil [simp]: "AList.update k v al \<noteq> []"
  by (cases al) auto

lemma rawOk_other:
  assumes "rawOk seen raw" and "\<And>dir base. base \<in> {''cert.pem'', ''key.pem''} \<Longrightarrow> certEntry dir base \<noteq> name"
  shows "rawOk ((name, data) # seen) raw"
  using assms by (auto simp: rawOk_def)

lemma rawOk_update:
  assumes p: "rawOk seen raw" and c: "safeDir dir" "sanitizeFilename dir = dir" "base \<in> {''cert.pem'', ''key.pem''}"
  shows "rawOk ((certEntry dir base, data) # seen) (AList.update dir (AList.update base data (rawFiles raw dir)) raw)"
  unfolding rawOk_def
proof (intro conjI allI impI)
  show "distinct (map fst (AList.update dir (AList.update base data (rawFiles raw dir)) raw))" using p by (simp add: rawOk_def distinct_update)
next
  fix d b
  assume b: "safeDir d" "b \<in> {''cert.pem'', ''key.pem''}"
  have "map_of (rawFiles raw d) b = map_of seen (certEntry d b)" using p b unfolding rawOk_def by blast
  moreover have "certEntry d b = certEntry dir base \<longleftrightarrow> d = dir \<and> b = base" using certEntry_inj[OF _ b(1) c(1)] by auto
  ultimately show "map_of (rawFiles (AList.update dir (AList.update base data (rawFiles raw dir)) raw) d) b = map_of ((certEntry dir base, data) # seen) (certEntry d b)"
    by (auto simp: rawFiles_update update_conv')
next
  fix d fs
  assume "(d, fs) \<in> set (AList.update dir (AList.update base data (rawFiles raw dir)) raw)"
  then have d: "(d, fs) = (dir, AList.update base data (rawFiles raw dir)) \<or> (d, fs) \<in> set raw" by (rule set_AList_update)
  have "fst ` set (rawFiles raw dir) \<subseteq> {''cert.pem'', ''key.pem''}" using p rawFiles_bases[of raw] by (simp add: rawOk_def)
  then have new: "fst ` set (AList.update base data (rawFiles raw dir)) \<subseteq> {''cert.pem'', ''key.pem''}" using c(3) by (simp add: keys_AList_update)
  have old: "(d, fs) \<in> set raw \<Longrightarrow> safeDir d \<and> sanitizeFilename d = d \<and> fs \<noteq> [] \<and> fst ` set fs \<subseteq> {''cert.pem'', ''key.pem''}" using p unfolding rawOk_def by blast
  have "safeDir d \<and> sanitizeFilename d = d \<and> fs \<noteq> [] \<and> fst ` set fs \<subseteq> {''cert.pem'', ''key.pem''}"
    using d
  proof
    assume "(d, fs) = (dir, AList.update base data (rawFiles raw dir))"
    then show ?thesis using new c by simp
  qed (rule old)
  then show "safeDir d" "sanitizeFilename d = d" "fs \<noteq> []" "fst ` set fs \<subseteq> {''cert.pem'', ''key.pem''}" by blast+
qed

lemma placed_step:
  assumes p: "placed lib seen a raw" and e: "placeEntry lib name data (a, raw) = Inr (a', raw')"
  shows "placed lib ((name, data) # seen) a' raw'"
proof -
  have s: "slotsOk lib seen a" and r: "rawOk seen raw" using p by (simp_all add: placed_def)
  from e show ?thesis
  proof (cases rule: placeEntry_cases)
    case (State s')
    have "rawOk ((name, data) # seen) raw" by (rule rawOk_other[OF r]) (use certEntry_other State(1) in blast)
    moreover have "parseState lib d = Some s'" if "stateEntries ((name, data) # seen) = [(''acme.state'', d)]" for d
    proof -
      have "stateEntries seen = []" "d = data" using that State(1) by (simp_all add: stateEntries_def)
      then have "ca_state a = emptyState" using s stateEntries_absent[of seen] by (simp add: slotsOk_def)
      then show ?thesis using State(2) \<open>d = data\<close> by (simp add: parseState_def)
    qed
    ultimately show ?thesis using s State by (simp add: placed_def slotsOk_def)
  next
    case Account
    have "rawOk ((name, data) # seen) raw" by (rule rawOk_other[OF r]) (use certEntry_other Account(1) in blast)
    then show ?thesis using s Account extra_key_other by (auto simp: placed_def slotsOk_def stateEntries_def)
  next
    case Dynamic
    have "rawOk ((name, data) # seen) raw" by (rule rawOk_other[OF r]) (use certEntry_other Dynamic(1) in blast)
    then show ?thesis using s Dynamic by (simp add: placed_def slotsOk_def stateEntries_def)
  next
    case (Extra n)
    have "rawOk ((name, data) # seen) raw" by (rule rawOk_other[OF r]) (use certEntry_other Extra(1,2) in blast)
    then show ?thesis using s extra_key_other[OF Extra(2)] by (auto simp: Extra placed_def slotsOk_def stateEntries_def update_conv' distinct_update)
  next
    case (Cert dir base)
    have ne: "''acme.state'' \<noteq> name" "''dynamic-domains.state'' \<noteq> name" "''certs/acme_user.json'' \<noteq> name"
      using certEntry_other(1,2)[of dir base] certEntry_other(4)[OF Cert(4), of dir] unfolding Cert(1) by simp_all
    moreover have "''certs/'' @ n \<noteq> name" if "isExtraAccountKeyFile n" for n
      using certEntry_other(3)[OF that, of dir base] unfolding Cert(1) by (rule not_sym)
    ultimately have "slotsOk lib ((name, data) # seen) a" using s by (simp add: slotsOk_def stateEntries_def)
    then show ?thesis using rawOk_update[OF r Cert(2-4)] by (simp add: placed_def Cert)
  qed
qed

definition regularFiles :: "'b tarEntry list \<Rightarrow> 'b archiveFile list" where
  "regularFiles es = map (\<lambda>e. (te_name e, te_data e)) (filter (\<lambda>e. te_kind e = RegularEntry) es)"

lemma readEntries_placed:
  assumes "readEntries lib es p = Inr p'" and "placed lib seen (rp_archive p) (rp_raw p)"
  shows "placed lib (rev (regularFiles es) @ seen) (rp_archive p') (rp_raw p')"
  using assms
proof (induction es arbitrary: p seen)
  case (Cons e es)
  let ?p1 = "p\<lparr>rp_remaining := rp_remaining p - int (te_header e), rp_header := rp_header p + int (te_header e), rp_entries := rp_entries p + 1\<rparr>"
  show ?case
  proof (cases "te_kind e")
    case DirectoryEntry
    then have "readEntries lib es ?p1 = Inr p'" using Cons.prems(1) by (simp add: Let_def split: if_split_asm)
    from Cons.IH[OF this] show ?thesis using Cons.prems(2) DirectoryEntry by (simp add: regularFiles_def)
  next
    case OtherEntry
    then show ?thesis using Cons.prems(1) by (simp add: Let_def split: if_split_asm)
  next
    case RegularEntry
    then obtain a raw where pl: "placeEntry lib (te_name e) (te_data e) (rp_archive p, rp_raw p) = Inr (a, raw)"
      using Cons.prems(1) by (auto simp: Let_def split: if_split_asm sum.split_asm)
    let ?p2 = "?p1\<lparr>rp_remaining := rp_remaining ?p1 - int (te_payload e), rp_files := rp_files ?p1 + 1, rp_archive := a, rp_raw := raw\<rparr>"
    have "readEntries lib es ?p2 = Inr p'" using Cons.prems(1) RegularEntry pl by (simp add: Let_def split: if_split_asm)
    from Cons.IH[OF this] show ?thesis using placed_step[OF Cons.prems(2) pl] RegularEntry by (simp add: regularFiles_def)
  qed
qed (simp add: regularFiles_def)

definition rawPair :: "'b certLib \<Rightarrow> 'b rawCerts \<Rightarrow> string \<Rightarrow> 'b archiveCertPair option" where
  "rawPair lib raw d = (case (map_of (rawFiles raw d) ''cert.pem'', map_of (rawFiles raw d) ''key.pem'') of
     (Some c, Some k) \<Rightarrow> map_option (\<lambda>l. \<lparr>ap_certPEM = c, ap_keyPEM = k, ap_leaf = l\<rparr>) (cl_parsePair lib c k) | _ \<Rightarrow> None)"

lemma assemble_step:
  assumes "assembleCertPairs lib raw (dir # dirs) a = Inr a'"
  obtains p where "rawPair lib raw dir = Some p" "assembleCertPairs lib raw dirs (a\<lparr>ca_certs := AList.update dir p (ca_certs a)\<rparr>) = Inr a'"
  using assms that by (auto simp: rawPair_def split: option.split_asm)

lemma assemble_certs:
  assumes "assembleCertPairs lib raw dirs a = Inr a'" and "distinct dirs"
  shows "\<exists>cs. a' = a\<lparr>ca_certs := cs\<rparr>" and "map_of (ca_certs a') d = (if d \<in> set dirs then rawPair lib raw d else map_of (ca_certs a) d)"
    and "distinct (map fst (ca_certs a)) \<Longrightarrow> distinct (map fst (ca_certs a'))"
  using assms
proof (induction dirs arbitrary: a)
  case Nil
  { case 1 then show ?case by (intro exI[of _ "ca_certs a"]) simp }
  { case 2 then show ?case by simp }
  { case 3 then show ?case by simp }
next
  case (Cons dir dirs)
  { case 1
    obtain p where "assembleCertPairs lib raw dirs (a\<lparr>ca_certs := AList.update dir p (ca_certs a)\<rparr>) = Inr a'" using 1(1) by (rule assemble_step)
    from Cons.IH(1)[OF this] show ?case using 1(2) by auto }
  { case 2
    obtain p where p: "rawPair lib raw dir = Some p" "assembleCertPairs lib raw dirs (a\<lparr>ca_certs := AList.update dir p (ca_certs a)\<rparr>) = Inr a'" using 2(1) by (rule assemble_step)
    from Cons.IH(2)[OF p(2)] show ?case using 2(2) p(1) by (auto simp: update_conv') }
  { case 3
    obtain p where p: "assembleCertPairs lib raw dirs (a\<lparr>ca_certs := AList.update dir p (ca_certs a)\<rparr>) = Inr a'" using 3(2) by (rule assemble_step)
    from Cons.IH(3)[OF _ p] show ?case using 3 by (simp add: distinct_update) }
qed

lemma validateRecords_archive:
  assumes "validateRecords certs cs a = Inr a'"
  shows "\<exists>w. a' = a\<lparr>ca_warnings := w\<rparr>"
  using assms
proof (induction certs cs a rule: validateRecords.induct)
  case (1 certs a)
  then show ?case by (intro exI[of _ "ca_warnings a"]) simp
next
  case (2 certs c cs a)
  then show ?case by (auto split: option.split_asm if_split_asm prod.split_asm)
qed

lemma checkAccountKeys_fields [simp]:
  "ca_state (checkAccountKeys lib a) = ca_state a" "ca_hasState (checkAccountKeys lib a) = ca_hasState a" "ca_certs (checkAccountKeys lib a) = ca_certs a"
  "ca_dynamicDomains (checkAccountKeys lib a) = ca_dynamicDomains a" "ca_extraAccountKeys (checkAccountKeys lib a) = filter (\<lambda>(_, k). cl_usableKey lib k) (ca_extraAccountKeys a)"
  "ca_accountKey (checkAccountKeys lib a) = (case ca_accountKey a of Some k \<Rightarrow> if cl_usableKey lib k then Some k else None | None \<Rightarrow> None)"
  by (auto simp: checkAccountKeys_def Let_def split: option.split)

lemma validateArchive_fields:
  assumes "validateArchive lib a = Inr a'"
  shows "\<exists>w. a' = (checkAccountKeys lib a)\<lparr>ca_warnings := w\<rparr>" and "ca_hasState a' \<Longrightarrow> validateManagerState (ca_state a') = None"
    and "\<not> ca_hasState a' \<Longrightarrow> ca_certs a' = []"
proof -
  have 1: "\<exists>w. a' = (checkAccountKeys lib a)\<lparr>ca_warnings := w\<rparr>"
  proof (cases "ca_hasState a")
    case True
    then show ?thesis using assms validateRecords_archive by (auto simp: validateArchive_def Let_def split: option.split_asm)
  next
    case False
    then show ?thesis using assms by (intro exI[of _ "ca_warnings a'"]) (auto simp: validateArchive_def Let_def split: if_split_asm)
  qed
  then show "\<exists>w. a' = (checkAccountKeys lib a)\<lparr>ca_warnings := w\<rparr>" .
  show "ca_hasState a' \<Longrightarrow> validateManagerState (ca_state a') = None" "\<not> ca_hasState a' \<Longrightarrow> ca_certs a' = []"
    using assms 1 by (auto simp: validateArchive_def Let_def split: option.split_asm if_split_asm)
qed

text \<open>An accepted archive, slot by slot.\<close>

lemma readArchive_contents:
  assumes "readCertStoreArchive lib tb = Inr a" and "seen = rev (regularFiles (tb_entries tb))"
  shows "ca_hasState a = (map_of seen ''acme.state'' \<noteq> None)"
    and "\<And>d. stateEntries seen = [(''acme.state'', d)] \<Longrightarrow> parseState lib d = Some (ca_state a)"
    and "ca_accountKey a = (case map_of seen ''certs/acme_user.json'' of Some k \<Rightarrow> if cl_usableKey lib k then Some k else None | None \<Rightarrow> None)"
    and "ca_dynamicDomains a = map_of seen ''dynamic-domains.state''"
    and "distinct (map fst (ca_extraAccountKeys a))" and "\<And>n k. map_of (ca_extraAccountKeys a) n = Some k \<longleftrightarrow> isExtraAccountKeyFile n \<and> map_of seen (''certs/'' @ n) = Some k \<and> cl_usableKey lib k"
    and "distinct (map fst (ca_certs a))" and "\<And>dir p. (dir, p) \<in> set (ca_certs a) \<Longrightarrow> safeDir dir \<and> sanitizeFilename dir = dir"
    and "\<And>dir p. safeDir dir \<Longrightarrow> map_of (ca_certs a) dir = Some p \<longleftrightarrow>
          map_of seen (certEntry dir ''cert.pem'') = Some (ap_certPEM p) \<and> map_of seen (certEntry dir ''key.pem'') = Some (ap_keyPEM p) \<and> cl_parsePair lib (ap_certPEM p) (ap_keyPEM p) = Some (ap_leaf p)"
    and "ca_hasState a \<Longrightarrow> validateManagerState (ca_state a) = None"
    and "\<not> ca_hasState a \<Longrightarrow> ca_certs a = [] \<and> stateCerts (ca_state a) = []"
proof -
  obtain p b where p: "readEntries lib (tb_entries tb) \<lparr>rp_remaining = maxCertArchiveBytes, rp_header = 0, rp_entries = 0, rp_files = 0, rp_archive = emptyArchive, rp_raw = []\<rparr> = Inr p"
    and b: "assembleCertPairs lib (rp_raw p) (sort (map fst (rp_raw p))) (rp_archive p) = Inr b" and v: "validateArchive lib b = Inr a"
    using assms(1) by (auto simp: readCertStoreArchive_def split: sum.split_asm if_split_asm)
  have pl: "placed lib seen (rp_archive p) (rp_raw p)" using readEntries_placed[OF p, of "[]"] placed_empty[of lib] by (simp add: assms(2))
  have asm: "\<exists>cs. b = (rp_archive p)\<lparr>ca_certs := cs\<rparr>" "distinct (map fst (ca_certs b))"
    "\<And>d. map_of (ca_certs b) d = (if d \<in> set (map fst (rp_raw p)) then rawPair lib (rp_raw p) d else None)"
    using assemble_certs[OF b] pl by (simp_all add: placed_def slotsOk_def rawOk_def)
  obtain w where a: "a = (checkAccountKeys lib b)\<lparr>ca_warnings := w\<rparr>" using validateArchive_fields(1)[OF v] by blast
  have fields: "ca_state a = ca_state (rp_archive p)" "ca_hasState a = ca_hasState (rp_archive p)" "ca_certs a = ca_certs b" "ca_dynamicDomains a = ca_dynamicDomains (rp_archive p)"
    "ca_extraAccountKeys a = filter (\<lambda>(_, k). cl_usableKey lib k) (ca_extraAccountKeys (rp_archive p))"
    "ca_accountKey a = (case ca_accountKey (rp_archive p) of Some k \<Rightarrow> if cl_usableKey lib k then Some k else None | None \<Rightarrow> None)"
    using asm(1) by (auto simp: a)
  show "ca_hasState a = (map_of seen ''acme.state'' \<noteq> None)" "\<And>d. stateEntries seen = [(''acme.state'', d)] \<Longrightarrow> parseState lib d = Some (ca_state a)"
    "ca_accountKey a = (case map_of seen ''certs/acme_user.json'' of Some k \<Rightarrow> if cl_usableKey lib k then Some k else None | None \<Rightarrow> None)"
    "ca_dynamicDomains a = map_of seen ''dynamic-domains.state''"
    using pl unfolding fields placed_def slotsOk_def by (blast, blast, simp, blast)
  have ex: "distinct (map fst (ca_extraAccountKeys (rp_archive p)))"
    "\<And>n. map_of (ca_extraAccountKeys (rp_archive p)) n = (if isExtraAccountKeyFile n then map_of seen (''certs/'' @ n) else None)" using pl unfolding placed_def slotsOk_def rawOk_def by blast+
  show "distinct (map fst (ca_extraAccountKeys a))" using ex(1) unfolding fields by (simp add: distinct_map_filter)
  show "map_of (ca_extraAccountKeys a) n = Some k \<longleftrightarrow> isExtraAccountKeyFile n \<and> map_of seen (''certs/'' @ n) = Some k \<and> cl_usableKey lib k" for n k
  proof -
    have "map_of (ca_extraAccountKeys a) n = Some k \<longleftrightarrow> map_of (ca_extraAccountKeys (rp_archive p)) n = Some k \<and> cl_usableKey lib k"
      unfolding fields using ex(1) by (simp add: distinct_map_filter)
    then show ?thesis by (auto simp: ex(2))
  qed
  have keys: "set (map fst (ca_certs b)) \<subseteq> set (map fst (rp_raw p))"
  proof
    fix d
    assume "d \<in> set (map fst (ca_certs b))"
    then have "map_of (ca_certs b) d \<noteq> None" by (simp add: map_of_eq_None_iff)
    then show "d \<in> set (map fst (rp_raw p))" unfolding asm(3) by (simp split: if_split_asm)
  qed
  have raws: "\<forall>dir fs. (dir, fs) \<in> set (rp_raw p) \<longrightarrow> safeDir dir \<and> sanitizeFilename dir = dir \<and> fs \<noteq> [] \<and> fst ` set fs \<subseteq> {''cert.pem'', ''key.pem''}" using pl unfolding placed_def slotsOk_def rawOk_def by blast
  show "distinct (map fst (ca_certs a))" using asm(2) by (simp add: fields)
  show "safeDir dir \<and> sanitizeFilename dir = dir" if "(dir, q) \<in> set (ca_certs a)" for dir q
  proof -
    have "dir \<in> set (map fst (rp_raw p))" using that keys unfolding fields by force
    then show ?thesis using raws by auto
  qed
  show "map_of (ca_certs a) dir = Some q \<longleftrightarrow> map_of seen (certEntry dir ''cert.pem'') = Some (ap_certPEM q) \<and> map_of seen (certEntry dir ''key.pem'') = Some (ap_keyPEM q)
      \<and> cl_parsePair lib (ap_certPEM q) (ap_keyPEM q) = Some (ap_leaf q)" if "safeDir dir" for dir q
  proof -
    have f: "map_of (rawFiles (rp_raw p) dir) ''cert.pem'' = map_of seen (certEntry dir ''cert.pem'')" "map_of (rawFiles (rp_raw p) dir) ''key.pem'' = map_of seen (certEntry dir ''key.pem'')"
      using pl that unfolding placed_def rawOk_def by blast+
    have "dir \<in> set (map fst (rp_raw p))" if "map_of seen (certEntry dir ''cert.pem'') \<noteq> None"
      using that unfolding f[symmetric] by (auto simp: rawFiles_def map_of_eq_None_iff split: option.split_asm dest: map_of_SomeD) (metis fst_conv image_eqI map_of_SomeD)
    then show ?thesis unfolding fields asm(3) rawPair_def f by (auto split: option.split)
  qed
  show "ca_hasState a \<Longrightarrow> validateManagerState (ca_state a) = None" by (rule validateArchive_fields(2)[OF v])
  show "\<not> ca_hasState a \<Longrightarrow> ca_certs a = [] \<and> stateCerts (ca_state a) = []"
    using validateArchive_fields(3)[OF v] pl by (auto simp: fields placed_def slotsOk_def stateCerts_def emptyState_def)
qed

section \<open>What a restore leaves on disk\<close>

declare applyStep.simps [simp del]

lemma diskFile_steps [simp]:
  "diskFile (applyStep (PutCertFile dir base data) disk) d b = (if d = dir \<and> b = base then Some data else diskFile disk d b)"
  "diskFile (applyStep (PutAccountKey name data) disk) d b = (if d = name then None else diskFile disk d b)"
  "diskFile (applyStep (RemoveCertDir dir) disk) d b = (if d = dir then None else diskFile disk d b)"
  "diskFile (applyStep (PutDynamicDomains data) disk) d b = diskFile disk d b" "diskFile (applyStep (PutState data) disk) d b = diskFile disk d b"
  by (auto simp: applyStep.simps diskFile_def nodesOf_def update_conv' delete_conv' split: option.split storeNode.split)

fun touches :: "string \<Rightarrow> 'b restoreStep \<Rightarrow> bool" where
  "touches d (PutCertFile dir base data) = (d = dir)"
| "touches d (PutAccountKey name data) = (d = name)"
| "touches d (RemoveCertDir dir) = (d = dir)"
| "touches d _ = False"

lemma fold_untouched:
  assumes "\<forall>s \<in> set steps. \<not> touches d s"
  shows "diskFile (fold applyStep steps disk) d b = diskFile disk d b"
  using assms
proof (induction steps arbitrary: disk)
  case (Cons s steps)
  then have "diskFile (applyStep s disk) d b = diskFile disk d b" by (cases s) auto
  then show ?case using Cons by simp
qed simp

text \<open>The steps that run are the first ones, each of them free to.\<close>

fun unblocked :: "'b restoreStep list \<Rightarrow> 'b certDisk \<Rightarrow> bool" where
  "unblocked [] disk \<longleftrightarrow> True"
| "unblocked (s # steps) disk \<longleftrightarrow> \<not> blocked s disk \<and> unblocked steps (applyStep s disk)"

lemma unblocked_append [simp]: "unblocked (xs @ ys) disk \<longleftrightarrow> unblocked xs disk \<and> unblocked ys (fold applyStep xs disk)"
  by (induction xs arbitrary: disk) auto

lemma unblocked_take: "unblocked steps disk \<Longrightarrow> unblocked (take n steps) disk"
  by (metis append_take_drop_id unblocked_append)

lemma runSteps_unblocked: "unblocked steps disk \<Longrightarrow> runSteps steps disk = (steps, fold applyStep steps disk, True)"
  by (induction steps arbitrary: disk) auto

lemma runSteps_prefix:
  assumes "runSteps steps disk = (did, disk', all)"
  shows "\<exists>k. did = take k steps \<and> (all \<longrightarrow> did = steps)" and "disk' = fold applyStep did disk" and "unblocked did disk"
proof -
  have "(\<exists>k. did = take k steps \<and> (all \<longrightarrow> did = steps)) \<and> disk' = fold applyStep did disk \<and> unblocked did disk"
    using assms
  proof (induction steps arbitrary: disk did)
    case (Cons s steps)
    show ?case
    proof (cases "blocked s disk")
      case False
      then obtain did' where r: "runSteps steps (applyStep s disk) = (did', disk', all)" "did = s # did'" using Cons.prems by (auto split: prod.split_asm)
      from Cons.IH[OF r(1)] obtain k where "did' = take k steps" "all \<longrightarrow> did' = steps" "disk' = fold applyStep did' (applyStep s disk)" "unblocked did' (applyStep s disk)" by blast
      then show ?thesis using False by (auto simp: r(2) intro!: exI[of _ "Suc k"])
    qed (use Cons.prems in \<open>auto intro!: exI[of _ 0]\<close>)
  qed simp
  then show "\<exists>k. did = take k steps \<and> (all \<longrightarrow> did = steps)" "disk' = fold applyStep did disk" "unblocked did disk" by blast+
qed

lemma restored_steps:
  assumes "restoreCertificateStore lib force tb disk = Inr (steps, disk') \<or> restoreCertificateStore lib force tb disk = Inl (RestoreStopped steps disk')"
    and "readCertStoreArchive lib tb = Inr a"
  shows "\<exists>k. steps = take k (restoreSteps lib a)" and "disk' = fold applyStep steps disk" and "unblocked steps disk"
proof -
  obtain all where "runSteps (restoreSteps lib a) disk = (steps, disk', all)"
    using assms by (auto simp: restoreCertificateStore_def split: if_split_asm prod.split_asm)
  from runSteps_prefix[OF this] show "\<exists>k. steps = take k (restoreSteps lib a)" "disk' = fold applyStep steps disk" "unblocked steps disk" by blast+
qed

text \<open>A step that is not blocked changes the files of a directory only when it writes into it or removes it.\<close>

fun alters :: "string \<Rightarrow> 'b restoreStep \<Rightarrow> bool" where
  "alters d (PutCertFile dir base data) \<longleftrightarrow> d = dir"
| "alters d (RemoveCertDir dir) \<longleftrightarrow> d = dir"
| "alters d _ \<longleftrightarrow> False"

lemma unblocked_keeps:
  assumes "unblocked steps disk" and "\<forall>s \<in> set steps. \<not> alters d s"
  shows "diskFile (fold applyStep steps disk) d b = diskFile disk d b"
  using assms
proof (induction steps arbitrary: disk)
  case (Cons s steps)
  have "diskFile disk n b = None" if "\<not> isDir disk n" for n
    using that by (auto simp: diskFile_def isDir_def nodesOf_def split: option.split_asm storeNode.split_asm option.split storeNode.split)
  then have "diskFile (applyStep s disk) d b = diskFile disk d b" using Cons.prems by (cases s) auto
  then show ?case using Cons by simp
qed simp

definition pairSteps :: "'b certStoreArchive \<Rightarrow> 'b restoreStep list" where
  "pairSteps a = concat (map (\<lambda>dir. case map_of (ca_certs a) dir of Some pair \<Rightarrow> writeCertificateFiles dir pair | None \<Rightarrow> []) (sort (map fst (ca_certs a))))"

definition keySteps :: "'b certStoreArchive \<Rightarrow> 'b restoreStep list" where
  "keySteps a = (case ca_accountKey a of Some k \<Rightarrow> [PutAccountKey ''acme_user.json'' k] | None \<Rightarrow> [])
     @ map (\<lambda>name. PutAccountKey name (the (map_of (ca_extraAccountKeys a) name))) (sort (map fst (ca_extraAccountKeys a)))
     @ (case ca_dynamicDomains a of Some d \<Rightarrow> [PutDynamicDomains d] | None \<Rightarrow> [])"

lemma restoreSteps_split:
  "restoreSteps lib a = (pairSteps a @ keySteps a) @ (if ca_hasState a then [PutState (cl_marshal lib (ca_state a))] else []) @ removeStaleCertDirs a"
  by (simp add: restoreSteps_def pairSteps_def keySteps_def)

definition keyFileName :: "string \<Rightarrow> bool" where
  "keyFileName n \<longleftrightarrow> n = ''acme_user.json'' \<or> isExtraAccountKeyFile n"

definition archiveOk :: "'b certStoreArchive \<Rightarrow> bool" where
  "archiveOk a \<longleftrightarrow> distinct (map fst (ca_certs a)) \<and> (\<forall>dir \<in> fst ` set (ca_certs a). safeDir dir \<and> sanitizeFilename dir = dir) \<and> distinct (map fst (ca_extraAccountKeys a))
     \<and> (\<forall>n \<in> fst ` set (ca_extraAccountKeys a). isExtraAccountKeyFile n)
     \<and> (\<forall>c \<in> fst ` set (stateCerts (ca_state a)). safeDir (sanitizeFilename c))"

lemma validateCertificates_safe: "validateCertificates cs dirs = None \<Longrightarrow> \<forall>c \<in> fst ` set cs. safeDir (sanitizeFilename c)"
  by (induction cs dirs rule: validateCertificates.induct) (auto simp: safeDir_def sanitizeFilename_plain Let_def split: option.split_asm if_split_asm)

lemma validState_safe: "validateManagerState s = None \<Longrightarrow> \<forall>c \<in> fst ` set (stateCerts s). safeDir (sanitizeFilename c)"
proof -
  assume "validateManagerState s = None"
  then have "validateCertificates (stateCerts s) [] = None" by (auto simp: validateManagerState_def stateCerts_def split: option.split_asm)
  then show ?thesis by (rule validateCertificates_safe)
qed

lemma readArchive_ok:
  assumes "readCertStoreArchive lib tb = Inr a"
  shows "archiveOk a"
proof -
  note r = readArchive_contents[OF assms refl]
  have "\<forall>dir \<in> fst ` set (ca_certs a). safeDir dir \<and> sanitizeFilename dir = dir" using r(8) by force
  moreover have "\<forall>n \<in> fst ` set (ca_extraAccountKeys a). isExtraAccountKeyFile n"
    using r(5,6) by (metis (no_types, lifting) eq_fst_iff imageE map_of_eq_Some_iff prod.collapse)
  moreover have "\<forall>c \<in> fst ` set (stateCerts (ca_state a)). safeDir (sanitizeFilename c)"
    using r(10,11) validState_safe by (cases "ca_hasState a") auto
  ultimately show ?thesis using r(5,7) by (simp add: archiveOk_def)
qed

lemma pairSteps_touch:
  assumes "archiveOk a" and "s \<in> set (pairSteps a)" and "touches d s"
  shows "d \<in> fst ` set (ca_certs a)"
proof -
  obtain dir pair where "dir \<in> fst ` set (ca_certs a)" "s \<in> set (writeCertificateFiles dir pair)"
    using assms(2) by (auto simp: pairSteps_def split: option.split_asm)
  moreover from this have "sanitizeFilename dir = dir" using assms(1) unfolding archiveOk_def by blast
  ultimately have "d = dir" using assms(3) by (auto simp: writeCertificateFiles_def)
  then show ?thesis using \<open>dir \<in> _\<close> by simp
qed

lemma keySteps_touch: "archiveOk a \<Longrightarrow> s \<in> set (keySteps a) \<Longrightarrow> touches d s \<Longrightarrow> keyFileName d"
  by (auto simp: keySteps_def archiveOk_def keyFileName_def split: option.split_asm)

lemma pairSteps_write:
  assumes "archiveOk a" and "map_of (ca_certs a) d = Some p"
  shows "diskFile (fold applyStep (pairSteps a) disk) d ''cert.pem'' = Some (ap_certPEM p) \<and> diskFile (fold applyStep (pairSteps a) disk) d ''key.pem'' = Some (ap_keyPEM p)"
proof -
  let ?f = "\<lambda>dir. case map_of (ca_certs a) dir of Some pair \<Rightarrow> writeCertificateFiles dir pair | None \<Rightarrow> []"
  have "d \<in> set (sort (map fst (ca_certs a)))" using assms(2) by (force dest: map_of_SomeD)
  then obtain us vs where split: "sort (map fst (ca_certs a)) = us @ d # vs" by (meson split_list)
  have "distinct (us @ d # vs)" using assms(1) unfolding split[symmetric] by (simp add: archiveOk_def)
  moreover have san: "\<forall>dir \<in> set (us @ d # vs). sanitizeFilename dir = dir" unfolding split[symmetric] using assms(1) by (simp add: archiveOk_def)
  ultimately have "\<forall>s \<in> set (concat (map ?f vs)). \<not> touches d s"
    by (auto simp: writeCertificateFiles_def split: option.split_asm)
  then have "diskFile (fold applyStep (concat (map ?f vs)) e) d b = diskFile e d b" for e b by (rule fold_untouched)
  then show ?thesis using san assms(2) by (simp add: pairSteps_def split writeCertificateFiles_def)
qed

definition noClash :: "'b certStoreArchive \<Rightarrow> bool" where
  "noClash a \<longleftrightarrow> (\<forall>dir \<in> fst ` set (ca_certs a). \<not> keyFileName dir)"

text \<open>From the moment all pairs are written they stay as they are.\<close>

lemma pairs_stay:
  assumes "archiveOk a" "unblocked (pairSteps a @ steps) disk" "map_of (ca_certs a) d = Some p" "set steps \<subseteq> set (keySteps a) \<union> {PutState x} \<union> set (removeStaleCertDirs a)"
  shows "diskFile (fold applyStep (pairSteps a @ steps) disk) d ''cert.pem'' = Some (ap_certPEM p) \<and> diskFile (fold applyStep (pairSteps a @ steps) disk) d ''key.pem'' = Some (ap_keyPEM p)"
proof -
  have "\<not> alters d s" if "s \<in> set steps" for s
  proof
    assume t: "alters d s"
    from that assms(4) consider "s \<in> set (keySteps a)" | "s = PutState x" | "s \<in> set (removeStaleCertDirs a)" by blast
    then show False by cases (use t assms(3) in \<open>auto simp: keySteps_def removeStaleCertDirs_def split: option.split_asm\<close>)
  qed
  then show ?thesis using pairSteps_write[OF assms(1,3), of disk] assms(2) by (simp add: unblocked_keeps)
qed

lemma restored_pair:
  assumes "archiveOk a" "unblocked (restoreSteps lib a) disk" "c \<in> fst ` set (stateCerts (ca_state a))"
  shows "map_of (ca_certs a) (sanitizeFilename c) = Some p \<Longrightarrow> diskFile (fold applyStep (restoreSteps lib a) disk) (sanitizeFilename c) ''cert.pem'' = Some (ap_certPEM p)
      \<and> diskFile (fold applyStep (restoreSteps lib a) disk) (sanitizeFilename c) ''key.pem'' = Some (ap_keyPEM p)"
    and "map_of (ca_certs a) (sanitizeFilename c) = None \<Longrightarrow> diskFile (fold applyStep (restoreSteps lib a) disk) (sanitizeFilename c) b = None"
proof -
  let ?steps = "keySteps a @ (if ca_hasState a then [PutState (cl_marshal lib (ca_state a))] else []) @ removeStaleCertDirs a"
  have all: "restoreSteps lib a = pairSteps a @ ?steps" by (simp add: restoreSteps_split)
  show "diskFile (fold applyStep (restoreSteps lib a) disk) (sanitizeFilename c) ''cert.pem'' = Some (ap_certPEM p)
      \<and> diskFile (fold applyStep (restoreSteps lib a) disk) (sanitizeFilename c) ''key.pem'' = Some (ap_keyPEM p)"
    if "map_of (ca_certs a) (sanitizeFilename c) = Some p"
    unfolding all by (rule pairs_stay[OF assms(1) assms(2)[unfolded all] that, of "cl_marshal lib (ca_state a)"]) auto
  show "diskFile (fold applyStep (restoreSteps lib a) disk) (sanitizeFilename c) b = None" if none: "map_of (ca_certs a) (sanitizeFilename c) = None"
  proof -
    have "RemoveCertDir (sanitizeFilename c) \<in> set (removeStaleCertDirs a)" using assms(3) none by (auto simp: removeStaleCertDirs_def)
    then obtain us vs where split: "removeStaleCertDirs a = us @ RemoveCertDir (sanitizeFilename c) # vs" by (meson split_list)
    have gone: "diskFile (fold applyStep vs e) d b = None" if "diskFile e d b = None" "set vs \<subseteq> set (removeStaleCertDirs a)" for vs e d
      using that by (induction vs arbitrary: e) (auto simp: removeStaleCertDirs_def)
    have vs: "set vs \<subseteq> set (removeStaleCertDirs a)" by (auto simp: split)
    have "restoreSteps lib a = (pairSteps a @ keySteps a @ (if ca_hasState a then [PutState (cl_marshal lib (ca_state a))] else []) @ us) @ [RemoveCertDir (sanitizeFilename c)] @ vs"
      by (simp add: all split)
    then show ?thesis using gone[OF _ vs] by (simp only: fold_append comp_apply) simp
  qed
qed

text \<open>The names a restore may write to or delete.\<close>

fun confined :: "'b restoreStep \<Rightarrow> bool" where
  "confined (PutCertFile dir base data) \<longleftrightarrow> safeDir dir \<and> base \<in> {''cert.pem'', ''key.pem''}"
| "confined (PutAccountKey name data) \<longleftrightarrow> name = ''acme_user.json'' \<or> isExtraAccountKeyFile name"
| "confined (RemoveCertDir dir) \<longleftrightarrow> safeDir dir"
| "confined _ \<longleftrightarrow> True"

text \<open>C21: whatever an archive holds, restoring it, to the end or up to the step that stops it, writes and deletes nothing outside the store: every path it touches is one of the two state files, one of the account
  key files, a certificate or key file in a directory that is a single, plain path component, or such a directory.
\<close>
theorem restore_confined:
  assumes "restoreCertificateStore lib force tb disk = Inr (steps, disk') \<or> restoreCertificateStore lib force tb disk = Inl (RestoreStopped steps disk')"
  shows "list_all confined steps \<and> disk' = fold applyStep steps disk"
proof -
  obtain a where a: "readCertStoreArchive lib tb = Inr a" using assms by (cases "readCertStoreArchive lib tb") (auto simp: restoreCertificateStore_def)
  note ok = readArchive_ok[OF a] and did = restored_steps[OF assms a]
  have "list_all confined (pairSteps a)"
    using ok by (auto simp: list_all_iff pairSteps_def writeCertificateFiles_def archiveOk_def split: option.split_asm)
  moreover have "list_all confined (keySteps a)" using ok by (auto simp: list_all_iff keySteps_def archiveOk_def split: option.split)
  moreover have "list_all confined (removeStaleCertDirs a)" using ok by (auto simp: list_all_iff removeStaleCertDirs_def archiveOk_def)
  ultimately have "list_all confined (restoreSteps lib a)" by (simp add: restoreSteps_split)
  then show ?thesis using did(1,2) by (auto simp: list_all_iff dest: in_set_takeD)
qed

text \<open>An archive is verified with the eyes of a restore: what a restore into an empty store refuses to read is refused with the same error.\<close>

lemma verify_predicts_restore:
  assumes "\<not> certStoreOccupied disk"
  shows "verifyCertificateArchive lib tb = Inl e \<longleftrightarrow> restoreCertificateStore lib force tb disk = Inl (RestoreUnreadable e)"
  using assms by (auto simp: verifyCertificateArchive_def restoreCertificateStore_def Let_def split: sum.split prod.split)

lemma cd_state_fold: "\<forall>s \<in> set steps. \<forall>x. s \<noteq> PutState x \<Longrightarrow> cd_state (fold applyStep steps disk) = cd_state disk"
proof (induction steps arbitrary: disk)
  case (Cons s steps)
  then have "cd_state (applyStep s disk) = cd_state disk" by (cases s) (auto simp: applyStep.simps)
  then show ?case using Cons by simp
qed simp

lemma no_state_steps: "s \<in> set (pairSteps a @ keySteps a) \<Longrightarrow> s \<noteq> PutState x"
  by (auto simp: pairSteps_def keySteps_def writeCertificateFiles_def split: option.split_asm)

lemma restore_puts_state:
  assumes "\<exists>x. PutState x \<in> set (take k (restoreSteps lib a))"
  shows "cd_state (fold applyStep (take k (restoreSteps lib a)) disk) = Some (cl_marshal lib (ca_state a))"
proof -
  let ?s = "PutState (cl_marshal lib (ca_state a))"
  obtain x where x: "PutState x \<in> set (take k (restoreSteps lib a))" using assms by blast
  have only: "s = ?s" if "s \<in> set (restoreSteps lib a)" "s = PutState y" for s y
    using that no_state_steps[of s a y] by (auto simp: restoreSteps_split removeStaleCertDirs_def split: if_split_asm)
  have "?s \<in> set (take k (restoreSteps lib a))" using x only[of "PutState x" x] in_set_takeD[OF x] by simp
  then obtain us vs where split: "take k (restoreSteps lib a) = us @ ?s # vs" "?s \<notin> set vs" by (metis split_list_last)
  have "\<forall>s \<in> set vs. \<forall>y. s \<noteq> PutState y"
  proof (intro ballI allI notI)
    fix s y assume "s \<in> set vs" "s = PutState y"
    moreover from this have "s \<in> set (restoreSteps lib a)" using split(1) by (metis Un_iff in_set_takeD list.set_intros(2) set_append)
    ultimately show False using only split(2) by blast
  qed
  then show ?thesis by (simp add: split(1) cd_state_fold applyStep.simps)
qed

text \<open>The steps of an interrupted restore that include the new state file include everything that comes before it.\<close>

lemma steps_with_state:
  assumes "archiveOk a" and "ca_hasState a \<or> stateCerts (ca_state a) = []" and "did = take k (restoreSteps lib a)"
  shows "(\<exists>x. PutState x \<in> set did) \<Longrightarrow> \<exists>steps. did = pairSteps a @ steps
      \<and> set steps \<subseteq> set (keySteps a) \<union> {PutState (cl_marshal lib (ca_state a))} \<union> set (removeStaleCertDirs a)"
    and "\<nexists>x. PutState x \<in> set did \<Longrightarrow> set did \<subseteq> set (pairSteps a @ keySteps a)"
proof -
  let ?A = "pairSteps a @ keySteps a"
  let ?B = "(if ca_hasState a then [PutState (cl_marshal lib (ca_state a))] else []) @ removeStaleCertDirs a"
  have did: "did = take k ?A @ take (k - length ?A) ?B" using assms(3) by (simp add: restoreSteps_split)
  have A: "PutState x \<notin> set (take k ?A)" for x using no_state_steps[of "PutState x" a x] by (meson in_set_takeD)
  show "\<exists>steps. did = pairSteps a @ steps \<and> set steps \<subseteq> set (keySteps a) \<union> {PutState (cl_marshal lib (ca_state a))} \<union> set (removeStaleCertDirs a)"
    if "\<exists>x. PutState x \<in> set did"
  proof -
    have "\<not> k \<le> length ?A" using that A by (auto simp: did)
    then have "did = pairSteps a @ (keySteps a @ take (k - length ?A) ?B)" by (simp add: did)
    moreover have "set (keySteps a @ take (k - length ?A) ?B) \<subseteq> set (keySteps a) \<union> {PutState (cl_marshal lib (ca_state a))} \<union> set (removeStaleCertDirs a)"
      using set_take_subset[of "k - length ?A" ?B] by (auto split: if_split_asm)
    ultimately show ?thesis by blast
  qed
  show "set did \<subseteq> set ?A" if none: "\<nexists>x. PutState x \<in> set did"
  proof (cases "ca_hasState a")
    case True
    then have "k \<le> length ?A" using none by (cases "k - length ?A") (auto simp: did)
    then show ?thesis using set_take_subset[of k ?A] by (simp add: did)
  next
    case False
    then have "?B = []" using assms(2) by (simp add: removeStaleCertDirs_def)
    then show ?thesis using set_take_subset[of k ?A] by (simp only: did) simp
  qed
qed

text \<open>C16: a restore may stop after any of its steps, at an obstacle in the store or by a crash. As long as the new state file is not in place the old one is, and
  every directory of the store that the archive does not hold is as it was: nothing the old state names is deleted before the new state is committed. Once the new
  one is in place every certificate pair of the archive is complete on disk. So an interrupted restore never leaves a state file that names certificates which
  were not written yet. (The directories the archive holds itself are overwritten one after another before the state is.)
\<close>
theorem interrupted_restore:
  assumes "restoreCertificateStore lib force tb disk = Inr (steps, disk') \<or> restoreCertificateStore lib force tb disk = Inl (RestoreStopped steps disk')"
    and "readCertStoreArchive lib tb = Inr a" and "here = fold applyStep (take n steps) disk"
  shows "if \<exists>x. PutState x \<in> set (take n steps)
     then cd_state here = Some (cl_marshal lib (ca_state a))
       \<and> (\<forall>dir p. map_of (ca_certs a) dir = Some p \<longrightarrow> diskFile here dir ''cert.pem'' = Some (ap_certPEM p) \<and> diskFile here dir ''key.pem'' = Some (ap_keyPEM p))
     else cd_state here = cd_state disk \<and> (\<forall>dir base. dir \<notin> fst ` set (ca_certs a) \<longrightarrow> diskFile here dir base = diskFile disk dir base)"
proof -
  note ok = readArchive_ok[OF assms(2)] and did = restored_steps[OF assms(1,2)]
  obtain k where k: "take n steps = take k (restoreSteps lib a)" using did(1) by (metis take_take)
  note free = unblocked_take[OF did(3), of n]
  have st: "ca_hasState a \<or> stateCerts (ca_state a) = []" using readArchive_contents(11)[OF assms(2) refl] by blast
  note prefix = steps_with_state[OF ok st k]
  show ?thesis
  proof (cases "\<exists>x. PutState x \<in> set (take n steps)")
    case True
    from prefix(1)[OF True] obtain ss where ss: "take n steps = pairSteps a @ ss"
      "set ss \<subseteq> set (keySteps a) \<union> {PutState (cl_marshal lib (ca_state a))} \<union> set (removeStaleCertDirs a)" by blast
    have "cd_state here = Some (cl_marshal lib (ca_state a))"
      unfolding assms(3) using True restore_puts_state[of k lib a disk] k by simp
    moreover have "diskFile here dir ''cert.pem'' = Some (ap_certPEM p) \<and> diskFile here dir ''key.pem'' = Some (ap_keyPEM p)" if "map_of (ca_certs a) dir = Some p" for dir p
      unfolding assms(3) ss(1) by (rule pairs_stay[OF ok free[unfolded ss(1)] that ss(2)])
    ultimately show ?thesis using True by simp
  next
    case False
    have "cd_state here = cd_state disk" unfolding assms(3) using False by (intro cd_state_fold) blast
    moreover have "diskFile here dir base = diskFile disk dir base" if "dir \<notin> fst ` set (ca_certs a)" for dir base
    proof -
      have "\<not> alters dir s" if "s \<in> set (pairSteps a @ keySteps a)" for s
      proof
        assume r: "alters dir s"
        then have "s \<notin> set (keySteps a)" by (auto simp: keySteps_def split: option.split_asm)
        then have "s \<in> set (pairSteps a)" using that by simp
        moreover have "touches dir s" using r by (cases s) auto
        ultimately show False using pairSteps_touch[OF ok] \<open>dir \<notin> _\<close> by blast
      qed
      then have "\<forall>s \<in> set (take n steps). \<not> alters dir s" using prefix(2)[OF False] by blast
      then show ?thesis unfolding assms(3) by (rule unblocked_keeps[OF free])
    qed
    ultimately show ?thesis using False by simp
  qed
qed

section \<open>Exporting and restoring\<close>

definition diskOk :: "'b certDisk \<Rightarrow> bool" where
  "diskOk disk \<longleftrightarrow> distinct (map fst (nodesOf disk)) \<and> (\<forall>n \<in> fst ` set (nodesOf disk). n \<noteq> [] \<and> CHR ''/'' \<notin> set n)
     \<and> (\<forall>n fs. (n, DirNode fs) \<in> set (nodesOf disk) \<longrightarrow> \<not> keyFileName n)"

text \<open>The files an export archives, by name.\<close>

inductive exported :: "'b certLib \<Rightarrow> 'b certDisk \<Rightarrow> string \<Rightarrow> 'b \<Rightarrow> bool" for lib disk where
  state: "cd_state disk = Some data \<Longrightarrow> exported lib disk ''acme.state'' data"
| dynamic: "cd_dynamic disk = Some data \<Longrightarrow> cl_jsonValid lib data \<Longrightarrow> exported lib disk ''dynamic-domains.state'' data"
| key: "(n, FileNode data) \<in> set (nodesOf disk) \<Longrightarrow> keyFileName n \<Longrightarrow> cl_jsonValid lib data \<Longrightarrow> exported lib disk (''certs/'' @ n) data"
| cert: "(dir, DirNode fs) \<in> set (nodesOf disk) \<Longrightarrow> dir \<noteq> ''http01'' \<Longrightarrow> map_of fs ''cert.pem'' = Some c \<Longrightarrow> map_of fs ''key.pem'' = Some k \<Longrightarrow>
    cl_parsePair lib c k \<noteq> None \<Longrightarrow> (base, data) \<in> {(''cert.pem'', c), (''key.pem'', k)} \<Longrightarrow> exported lib disk (certEntry dir base) data"

lemma pair_files: "(name, data) \<in> set [(f p, c), (f q, k)] \<longleftrightarrow> (\<exists>base. (base, data) \<in> {(p, c), (q, k)} \<and> name = f base)"
  by auto

lemma collectNode_files:
  "(name, data) \<in> set (fst (collectNode lib (n, node))) \<longleftrightarrow>
     (case node of
        FileNode d \<Rightarrow> keyFileName n \<and> cl_jsonValid lib d \<and> name = ''certs/'' @ n \<and> data = d
      | DirNode fs \<Rightarrow> n \<noteq> ''http01'' \<and> (\<exists>c k. map_of fs ''cert.pem'' = Some c \<and> map_of fs ''key.pem'' = Some k \<and> cl_parsePair lib c k \<noteq> None
           \<and> (\<exists>base. (base, data) \<in> {(''cert.pem'', c), (''key.pem'', k)} \<and> name = certEntry n base)))"
proof (cases node)
  case (FileNode d)
  then show ?thesis by (auto simp: collectNode_def collectOptionalJSON_def keyFileName_def)
next
  case (DirNode fs)
  show ?thesis
  proof (cases "n = ''http01'' \<or> map_of fs ''cert.pem'' = None \<or> map_of fs ''key.pem'' = None")
    case True
    then have "fst (collectNode lib (n, node)) = []" using DirNode by (elim disjE) (simp_all add: collectNode_def collectCertPair_def split: option.split)
    then show ?thesis using True DirNode by auto
  next
    case False
    then obtain c k where ck: "map_of fs ''cert.pem'' = Some c" "map_of fs ''key.pem'' = Some k" "n \<noteq> ''http01''" by (metis not_None_eq)
    then have "fst (collectNode lib (n, node)) = (if cl_parsePair lib c k = None then [] else [(certEntry n ''cert.pem'', c), (certEntry n ''key.pem'', k)])"
      using DirNode by (simp add: collectNode_def collectCertPair_def split: option.split)
    then show ?thesis unfolding DirNode using ck pair_files[of name data "certEntry n" "''cert.pem''" c "''key.pem''" k] by (simp del: set_simps(2) insert_iff)
  qed
qed

lemma exported_files:
  assumes "exportCertificateStore lib frame tail disk = Inr (tb, ws)"
  shows "(name, data) \<in> set (regularFiles (tb_entries tb)) \<longleftrightarrow> exported lib disk name data" and "\<exists>a. readCertStoreArchive lib tb = Inr a"
proof -
  obtain s stateFiles where s: "collectStateEntry lib disk = Inr (s, stateFiles)" using assms by (auto simp: exportCertificateStore_def split: sum.split_asm)
  obtain certFiles w1 where c: "collectCertsEntries lib disk s = (certFiles, w1)" by (cases "collectCertsEntries lib disk s")
  obtain dynFiles w2 where d: "collectOptionalJSON lib ''dynamic-domains.state'' (cd_dynamic disk) = (dynFiles, w2)" by (cases "collectOptionalJSON lib ''dynamic-domains.state'' (cd_dynamic disk)")
  let ?files = "sort_key fst (stateFiles @ certFiles @ dynFiles)"
  have tb: "tb = writeTar lib frame tail ?files" and "\<exists>a. readCertStoreArchive lib (writeTar lib frame tail ?files) = Inr a"
    using assms by (auto simp: exportCertificateStore_def s c d Let_def split: if_split_asm sum.split_asm)
  then show "\<exists>a. readCertStoreArchive lib tb = Inr a" by simp
  have "regularFiles (tb_entries tb) = ?files" by (simp add: tb writeTar_def regularFiles_def comp_def)
  then have F: "(name, data) \<in> set (regularFiles (tb_entries tb)) \<longleftrightarrow> (name, data) \<in> set stateFiles \<or> (name, data) \<in> set certFiles \<or> (name, data) \<in> set dynFiles" by auto
  moreover have S: "(name, data) \<in> set stateFiles \<longleftrightarrow> name = ''acme.state'' \<and> cd_state disk = Some data"
    using s by (auto simp: collectStateEntry_def split: option.split_asm)
  moreover have D: "(name, data) \<in> set dynFiles \<longleftrightarrow> name = ''dynamic-domains.state'' \<and> cd_dynamic disk = Some data \<and> cl_jsonValid lib data"
    using d by (auto simp: collectOptionalJSON_def split: option.split_asm if_split_asm)
  moreover have C: "(name, data) \<in> set certFiles \<longleftrightarrow> (\<exists>n node. (n, node) \<in> set (nodesOf disk) \<and> (name, data) \<in> set (fst (collectNode lib (n, node))))"
    using c by (fastforce simp: collectCertsEntries_def nodesOf_def split: option.split_asm)
  moreover have "exported lib disk name data" if node: "(n, node) \<in> set (nodesOf disk)" "(name, data) \<in> set (fst (collectNode lib (n, node)))" for n node
  proof (cases node)
    case (FileNode d)
    then show ?thesis using node exported.key[of n d disk lib] by (simp add: collectNode_files)
  next
    case (DirNode fs)
    then obtain c k base where "n \<noteq> ''http01''" "map_of fs ''cert.pem'' = Some c" "map_of fs ''key.pem'' = Some k" "cl_parsePair lib c k \<noteq> None"
      "(base, data) \<in> {(''cert.pem'', c), (''key.pem'', k)}" "name = certEntry n base"
      using node(2) unfolding collectNode_files by auto
    then show ?thesis using exported.cert[of n fs disk c k lib base data] node(1) DirNode by simp
  qed
  ultimately have forth: "(name, data) \<in> set (regularFiles (tb_entries tb)) \<Longrightarrow> exported lib disk name data" by (metis exported.state exported.dynamic)
  have conv: "(name, data) \<in> set (regularFiles (tb_entries tb))" if "exported lib disk name data"
    using that
  proof cases
    case (key n)
    then have "(name, data) \<in> set (fst (collectNode lib (n, FileNode data)))" by (simp add: collectNode_files)
    then have "(name, data) \<in> set certFiles" by (intro iffD2[OF C]) (rule exI, rule exI, rule conjI[OF key(2)])
    then show ?thesis by (simp only: F simp_thms)
  next
    case (cert dir fs c k base)
    then have "(name, data) \<in> set (fst (collectNode lib (dir, DirNode fs)))" by (auto simp: collectNode_files)
    then have "(name, data) \<in> set certFiles" by (intro iffD2[OF C]) (rule exI, rule exI, rule conjI[OF cert(2)])
    then show ?thesis by (simp only: F simp_thms)
  next
    case state
    then have "(name, data) \<in> set stateFiles" by (intro iffD2[OF S] conjI)
    then show ?thesis by (simp only: F simp_thms)
  next
    case dynamic
    then have "(name, data) \<in> set dynFiles" by (intro iffD2[OF D] conjI)
    then show ?thesis by (simp only: F simp_thms)
  qed
  show "(name, data) \<in> set (regularFiles (tb_entries tb)) \<longleftrightarrow> exported lib disk name data" by (rule iffI) (erule forth, erule conv)
qed

lemma exported_state_once:
  assumes "exportCertificateStore lib frame tail disk = Inr (tb, ws)" and "cd_state disk = Some x"
  shows "stateEntries (regularFiles (tb_entries tb)) = [(''acme.state'', x)]"
proof -
  obtain s where s: "collectStateEntry lib disk = Inr (s, [(''acme.state'', x)])"
    using assms by (auto simp: exportCertificateStore_def collectStateEntry_def split: option.split_asm)
  obtain certFiles w1 where c: "collectCertsEntries lib disk s = (certFiles, w1)" by (cases "collectCertsEntries lib disk s")
  obtain dynFiles w2 where d: "collectOptionalJSON lib ''dynamic-domains.state'' (cd_dynamic disk) = (dynFiles, w2)" by (cases "collectOptionalJSON lib ''dynamic-domains.state'' (cd_dynamic disk)")
  let ?files = "sort_key fst ((''acme.state'', x) # certFiles @ dynFiles)"
  have tb: "tb = writeTar lib frame tail ?files"
    using assms by (auto simp: exportCertificateStore_def s c d Let_def split: if_split_asm sum.split_asm)
  have "regularFiles (tb_entries tb) = ?files" by (simp add: tb writeTar_def regularFiles_def comp_def)
  moreover have "stateEntries dynFiles = []" using d by (auto simp: stateEntries_def collectOptionalJSON_def split: option.split_asm if_split_asm)
  moreover have "stateEntries certFiles = []"
  proof -
    have "name \<noteq> ''acme.state''" if m: "(name, v) \<in> set certFiles" for name v
    proof -
      obtain n node where "(name, v) \<in> set (fst (collectNode lib (n, node)))"
        using m c by (fastforce simp: collectCertsEntries_def split: option.split_asm)
      then show ?thesis by (auto simp: collectNode_files certEntry_def split: storeNode.split_asm)
    qed
    then show ?thesis by (auto simp: stateEntries_def filter_empty_conv)
  qed
  moreover have "stateEntries ?files = sort_key fst (stateEntries ((''acme.state'', x) # certFiles @ dynFiles))" unfolding stateEntries_def by (rule filter_sort)
  ultimately show ?thesis by (simp add: stateEntries_def)
qed

text \<open>Each name is exported once.\<close>

lemma node_unique: "diskOk disk \<Longrightarrow> (n, x) \<in> set (nodesOf disk) \<Longrightarrow> (n, y) \<in> set (nodesOf disk) \<Longrightarrow> x = y"
  using eq_key_imp_eq_value by (auto simp: diskOk_def)

inductive_cases exported_stateE: "exported lib disk ''acme.state'' data"
inductive_cases exported_dynamicE: "exported lib disk ''dynamic-domains.state'' data"

lemma keyFileName_plain: "keyFileName n \<Longrightarrow> CHR ''/'' \<notin> set n"
  using extra_key_plain by (auto simp: keyFileName_def)

lemma exported_key_iff:
  assumes "keyFileName n"
  shows "exported lib disk (''certs/'' @ n) data \<longleftrightarrow> (n, FileNode data) \<in> set (nodesOf disk) \<and> cl_jsonValid lib data"
proof
  assume "exported lib disk (''certs/'' @ n) data"
  then show "(n, FileNode data) \<in> set (nodesOf disk) \<and> cl_jsonValid lib data"
  proof cases
    case (cert dir fs c k base)
    then have "n = dir @ ''/'' @ base" by (simp add: certEntry_def)
    then show ?thesis using keyFileName_plain[OF assms] by simp
  qed auto
next
  assume h: "(n, FileNode data) \<in> set (nodesOf disk) \<and> cl_jsonValid lib data"
  show "exported lib disk (''certs/'' @ n) data" by (rule exported.key) (use h assms in simp_all)
qed

lemma exported_cert_iff:
  assumes "diskOk disk" "safeDir dir" "base \<in> {''cert.pem'', ''key.pem''}"
  shows "exported lib disk (certEntry dir base) data \<longleftrightarrow> dir \<noteq> ''http01'' \<and> diskFile disk dir base = Some data \<and>
     (\<exists>c k. diskFile disk dir ''cert.pem'' = Some c \<and> diskFile disk dir ''key.pem'' = Some k \<and> cl_parsePair lib c k \<noteq> None)"
proof -
  have dir: "(dir, DirNode fs) \<in> set (nodesOf disk) \<Longrightarrow> diskFile disk dir b = map_of fs b" for fs b
    using assms(1) by (auto simp: diskOk_def diskFile_def nodesOf_def split: option.split_asm)
  show ?thesis
  proof
    assume "exported lib disk (certEntry dir base) data"
    then show "dir \<noteq> ''http01'' \<and> diskFile disk dir base = Some data \<and> (\<exists>c k. diskFile disk dir ''cert.pem'' = Some c \<and> diskFile disk dir ''key.pem'' = Some k \<and> cl_parsePair lib c k \<noteq> None)"
    proof cases
      case state
      then show ?thesis using certEntry_other(1)[of dir base] by simp
    next
      case dynamic
      then show ?thesis using certEntry_other(2)[of dir base] by simp
    next
      case (key n)
      then have "n = dir @ ''/'' @ base" by (simp add: certEntry_def)
      then show ?thesis using keyFileName_plain[OF key(3)] by simp
    next
      case (cert dir' fs c k base')
      have "CHR ''/'' \<notin> set dir'" using assms(1) cert(2) by (force simp: diskOk_def)
      then have eq: "dir' = dir" "base' = base" using certEntry_plain_inj[OF cert(1)] assms(2) by (simp_all add: safeDir_def)
      note cert = cert[unfolded eq]
      have "diskFile disk dir b = map_of fs b" for b by (rule dir[OF cert(2)])
      then show ?thesis using cert(3-7) by auto
    qed
  next
    assume h: "dir \<noteq> ''http01'' \<and> diskFile disk dir base = Some data \<and> (\<exists>c k. diskFile disk dir ''cert.pem'' = Some c \<and> diskFile disk dir ''key.pem'' = Some k \<and> cl_parsePair lib c k \<noteq> None)"
    then obtain fs where fs: "(dir, DirNode fs) \<in> set (nodesOf disk)"
      by (auto simp: diskFile_def nodesOf_def split: option.split_asm storeNode.split_asm dest: map_of_SomeD)
    obtain c k where ck: "map_of fs ''cert.pem'' = Some c" "map_of fs ''key.pem'' = Some k" "cl_parsePair lib c k \<noteq> None" using h dir[OF fs] by auto
    have bd: "(base, data) \<in> {(''cert.pem'', c), (''key.pem'', k)}" using h dir[OF fs] ck(1,2) assms(3) by auto
    show "exported lib disk (certEntry dir base) data" by (rule exported.cert[OF fs _ ck bd]) (use h in simp)
  qed
qed

lemma map_of_functional:
  assumes "\<And>v w. (k, v) \<in> set xs \<Longrightarrow> (k, w) \<in> set xs \<Longrightarrow> v = w"
  shows "map_of xs k = Some v \<longleftrightarrow> (k, v) \<in> set xs"
proof
  assume kv: "(k, v) \<in> set xs"
  then have "map_of xs k \<noteq> None" by (simp add: map_of_eq_None_iff rev_image_eqI)
  then obtain w where w: "map_of xs k = Some w" by blast
  then show "map_of xs k = Some v" using assms[OF kv map_of_SomeD[OF w]] by simp
qed (rule map_of_SomeD)

lemma keyFile_iff: "diskOk disk \<Longrightarrow> keyFile disk n = Some d \<longleftrightarrow> (n, FileNode d) \<in> set (nodesOf disk)"
proof -
  assume "diskOk disk"
  then have "(n, FileNode d) \<in> set (nodesOf disk) \<longleftrightarrow> map_of (nodesOf disk) n = Some (FileNode d)" by (simp add: diskOk_def)
  then show ?thesis by (simp add: keyFile_def split: option.split storeNode.split)
qed

text \<open>What the archive of an export holds, in terms of the disk it was taken from.\<close>

lemma archive_of_export:
  assumes e: "exportCertificateStore lib frame tail disk = Inr (tb, ws)" and d: "diskOk disk" and a: "readCertStoreArchive lib tb = Inr a"
  shows "ca_hasState a = (cd_state disk \<noteq> None)" and "\<And>x. cd_state disk = Some x \<Longrightarrow> parseState lib x = Some (ca_state a)"
    and "ca_dynamicDomains a = (case cd_dynamic disk of Some x \<Rightarrow> if cl_jsonValid lib x then Some x else None | None \<Rightarrow> None)"
    and "\<And>k. ca_accountKey a = Some k \<longleftrightarrow> keyFile disk ''acme_user.json'' = Some k \<and> cl_jsonValid lib k \<and> cl_usableKey lib k"
    and "\<And>n k. map_of (ca_extraAccountKeys a) n = Some k \<longleftrightarrow> isExtraAccountKeyFile n \<and> keyFile disk n = Some k \<and> cl_jsonValid lib k \<and> cl_usableKey lib k"
    and "\<And>dir p. safeDir dir \<Longrightarrow> map_of (ca_certs a) dir = Some p \<longleftrightarrow> dir \<noteq> ''http01'' \<and> diskFile disk dir ''cert.pem'' = Some (ap_certPEM p)
          \<and> diskFile disk dir ''key.pem'' = Some (ap_keyPEM p) \<and> cl_parsePair lib (ap_certPEM p) (ap_keyPEM p) = Some (ap_leaf p)"
proof -
  let ?seen = "rev (regularFiles (tb_entries tb))"
  note r = readArchive_contents[OF a refl]
  have st: "exported lib disk ''acme.state'' x \<longleftrightarrow> cd_state disk = Some x" for x
    by (auto simp: certEntry_def elim: exported_stateE intro: exported.state)
  have dy: "exported lib disk ''dynamic-domains.state'' x \<longleftrightarrow> cd_dynamic disk = Some x \<and> cl_jsonValid lib x" for x
    by (auto simp: certEntry_def elim: exported_dynamicE intro: exported.dynamic)
  have ky: "keyFileName n \<Longrightarrow> exported lib disk (''certs/'' @ n) x \<longleftrightarrow> keyFile disk n = Some x \<and> cl_jsonValid lib x" for n x
    using exported_key_iff[of n lib disk x] keyFile_iff[OF d, of n x] by simp
  have look: "map_of ?seen name = Some x \<longleftrightarrow> exported lib disk name x" if "\<And>v w. exported lib disk name v \<Longrightarrow> exported lib disk name w \<Longrightarrow> v = w" for name x
    using map_of_functional[of name ?seen x] that exported_files(1)[OF e] by auto
  have S: "map_of ?seen ''acme.state'' = Some x \<longleftrightarrow> cd_state disk = Some x" for x using look[of "''acme.state''" x] st by simp
  have D: "map_of ?seen ''dynamic-domains.state'' = Some x \<longleftrightarrow> cd_dynamic disk = Some x \<and> cl_jsonValid lib x" for x using look[of "''dynamic-domains.state''" x] dy by simp
  have K: "keyFileName n \<Longrightarrow> map_of ?seen (''certs/'' @ n) = Some x \<longleftrightarrow> keyFile disk n = Some x \<and> cl_jsonValid lib x" for n x
    using look[of "''certs/'' @ n" x] ky[of n] by (metis option.inject)
  have C: "map_of ?seen (certEntry dir base) = Some x \<longleftrightarrow> exported lib disk (certEntry dir base) x" if "safeDir dir" "base \<in> {''cert.pem'', ''key.pem''}" for dir base x
    by (rule look) (use exported_cert_iff[OF d that] in simp)
  show "ca_hasState a = (cd_state disk \<noteq> None)" unfolding r(1) using S by (metis not_None_eq)
  show "parseState lib x = Some (ca_state a)" if "cd_state disk = Some x" for x
    by (rule r(2)) (simp add: stateEntries_def rev_filter[symmetric] exported_state_once[OF e that, unfolded stateEntries_def])
  show "ca_dynamicDomains a = (case cd_dynamic disk of Some x \<Rightarrow> if cl_jsonValid lib x then Some x else None | None \<Rightarrow> None)"
  proof -
    have "map_of ?seen ''dynamic-domains.state'' = (case cd_dynamic disk of Some x \<Rightarrow> if cl_jsonValid lib x then Some x else None | None \<Rightarrow> None)"
      by (rule option_eqI) (auto simp: D split: option.split)
    then show ?thesis by (simp add: r(4))
  qed
  show "ca_accountKey a = Some k \<longleftrightarrow> keyFile disk ''acme_user.json'' = Some k \<and> cl_jsonValid lib k \<and> cl_usableKey lib k" for k
    unfolding r(3) using K[of "''acme_user.json''"] by (auto simp: keyFileName_def split: option.split)
  show "map_of (ca_extraAccountKeys a) n = Some k \<longleftrightarrow> isExtraAccountKeyFile n \<and> keyFile disk n = Some k \<and> cl_jsonValid lib k \<and> cl_usableKey lib k" for n k
    unfolding r(6) using K[of n] by (auto simp: keyFileName_def)
  show "map_of (ca_certs a) dir = Some p \<longleftrightarrow> dir \<noteq> ''http01'' \<and> diskFile disk dir ''cert.pem'' = Some (ap_certPEM p)
          \<and> diskFile disk dir ''key.pem'' = Some (ap_keyPEM p) \<and> cl_parsePair lib (ap_certPEM p) (ap_keyPEM p) = Some (ap_leaf p)" if s: "safeDir dir" for dir p
    unfolding r(9)[OF s] C[OF s insertI1] C[OF s insertI2[OF singletonI]] exported_cert_iff[OF d s insertI1] exported_cert_iff[OF d s insertI2[OF singletonI]] by auto
qed

lemma keyFile_steps [simp]:
  "keyFile (applyStep (PutCertFile dir base data) disk) n = (if n = dir then None else keyFile disk n)"
  "keyFile (applyStep (PutAccountKey name data) disk) n = (if n = name then Some data else keyFile disk n)"
  "keyFile (applyStep (RemoveCertDir dir) disk) n = (if n = dir then None else keyFile disk n)"
  "keyFile (applyStep (PutDynamicDomains data) disk) n = keyFile disk n" "keyFile (applyStep (PutState data) disk) n = keyFile disk n"
  by (auto simp: applyStep.simps keyFile_def nodesOf_def update_conv' delete_conv' split: option.split storeNode.split)

lemma keyFile_untouched:
  assumes "\<forall>s \<in> set steps. \<not> touches n s"
  shows "keyFile (fold applyStep steps disk) n = keyFile disk n"
  using assms
proof (induction steps arbitrary: disk)
  case (Cons s steps)
  then have "keyFile (applyStep s disk) n = keyFile disk n" by (cases s) auto
  then show ?case using Cons by simp
qed simp

lemma keyFile_fold_keys:
  assumes "\<forall>s \<in> set steps. \<exists>m. s = PutAccountKey m (v m)" and "n \<in> {m. \<exists>s \<in> set steps. s = PutAccountKey m (v m)}"
  shows "keyFile (fold applyStep steps disk) n = Some (v n)"
  using assms
proof (induction steps arbitrary: disk)
  case (Cons s steps)
  obtain m where m: "s = PutAccountKey m (v m)" using Cons.prems(1) by auto
  show ?case
  proof (cases "n \<in> {m. \<exists>s \<in> set steps. s = PutAccountKey m (v m)}")
    case True
    then show ?thesis using Cons by simp
  next
    case False
    then have "n = m" using Cons.prems(2) m by auto
    moreover have "\<forall>s \<in> set steps. \<not> touches n s" using False Cons.prems(1) by fastforce
    ultimately show ?thesis by (simp add: m keyFile_untouched)
  qed
qed simp

text \<open>In a store whose directories have other names than its account keys nothing is in the way of a step.\<close>

definition namesApart :: "'b certDisk \<Rightarrow> bool" where
  "namesApart disk \<longleftrightarrow> (\<forall>n. if keyFileName n then \<not> isDir disk n else keyFile disk n = None)"

lemma isDir_steps [simp]:
  "isDir (applyStep (PutCertFile dir base data) disk) n = (n = dir \<or> isDir disk n)"
  "isDir (applyStep (PutAccountKey name data) disk) n = (n \<noteq> name \<and> isDir disk n)"
  "isDir (applyStep (RemoveCertDir dir) disk) n = (n \<noteq> dir \<and> isDir disk n)"
  "isDir (applyStep (PutDynamicDomains data) disk) n = isDir disk n" "isDir (applyStep (PutState data) disk) n = isDir disk n"
  by (auto simp: applyStep.simps isDir_def nodesOf_def update_conv' delete_conv' split: option.split storeNode.split)

fun stepApart :: "'b restoreStep \<Rightarrow> bool" where
  "stepApart (PutCertFile dir base data) \<longleftrightarrow> \<not> keyFileName dir"
| "stepApart (PutAccountKey name data) \<longleftrightarrow> keyFileName name"
| "stepApart _ \<longleftrightarrow> True"

lemma unblocked_apart: "namesApart disk \<Longrightarrow> \<forall>s \<in> set steps. stepApart s \<Longrightarrow> unblocked steps disk"
proof (induction steps arbitrary: disk)
  case (Cons s steps)
  then have "namesApart (applyStep s disk)" "\<not> blocked s disk" by (cases s; auto simp: namesApart_def split: if_split_asm; metis option.distinct(1))+
  then show ?case using Cons by simp
qed simp

lemma restore_unblocked:
  assumes "archiveOk a" "noClash a" "\<not> certStoreOccupied disk"
  shows "unblocked (restoreSteps lib a) disk"
proof (rule unblocked_apart)
  show "namesApart disk" using assms(3) by (simp add: namesApart_def certStoreOccupied_def isDir_def keyFile_def)
  have "stepApart s" if "s \<in> set (pairSteps a)" for s
    using that assms(1,2) by (auto simp: pairSteps_def writeCertificateFiles_def noClash_def archiveOk_def split: option.split_asm)
  moreover have "stepApart s" if "s \<in> set (keySteps a)" for s
    using that assms(1) by (auto simp: keySteps_def keyFileName_def archiveOk_def split: option.split_asm)
  ultimately show "\<forall>s \<in> set (restoreSteps lib a). stepApart s" by (auto simp: restoreSteps_split removeStaleCertDirs_def)
qed

text \<open>The account keys after a restore over a store that held none.\<close>

lemma restored_keys:
  assumes "archiveOk a" "noClash a" "keyFileName n" "\<And>c r. (c, r) \<in> set (stateCerts (ca_state a)) \<Longrightarrow> \<not> keyFileName (sanitizeFilename c)" "keyFile disk n = None"
  shows "keyFile (fold applyStep (restoreSteps lib a) disk) n = (if n = ''acme_user.json'' then ca_accountKey a else map_of (ca_extraAccountKeys a) n)"
proof -
  let ?P = "pairSteps a"
  let ?K1 = "case ca_accountKey a of Some k \<Rightarrow> [PutAccountKey ''acme_user.json'' k] | None \<Rightarrow> []"
  let ?names = "sort (map fst (ca_extraAccountKeys a))"
  let ?K2 = "map (\<lambda>name. PutAccountKey name (the (map_of (ca_extraAccountKeys a) name))) ?names"
  let ?R = "(case ca_dynamicDomains a of Some d \<Rightarrow> [PutDynamicDomains d] | None \<Rightarrow> []) @ (if ca_hasState a then [PutState (cl_marshal lib (ca_state a))] else []) @ removeStaleCertDirs a"
  have all: "restoreSteps lib a = ?P @ ?K1 @ ?K2 @ ?R" by (simp add: restoreSteps_def pairSteps_def)
  have "\<forall>s \<in> set ?P. \<not> touches n s" using pairSteps_touch[OF assms(1)] assms(2,3) by (auto simp: noClash_def)
  then have P: "keyFile (fold applyStep ?P disk) n = None" by (simp add: keyFile_untouched assms(5))
  have "\<forall>s \<in> set ?R. \<not> touches n s" using assms(3,4) by (auto simp: removeStaleCertDirs_def split: option.split_asm)
  then have R: "keyFile (fold applyStep ?R e) n = keyFile e n" for e by (rule keyFile_untouched)
  have extra: "isExtraAccountKeyFile m" if "m \<in> set ?names" for m using assms(1) that by (auto simp: archiveOk_def)
  have K2: "keyFile (fold applyStep ?K2 e) n = (if n \<in> set ?names then map_of (ca_extraAccountKeys a) n else keyFile e n)" for e
  proof (cases "n \<in> set ?names")
    case True
    then have "map_of (ca_extraAccountKeys a) n \<noteq> None" by (simp add: map_of_eq_None_iff)
    moreover have "keyFile (fold applyStep ?K2 e) n = Some (the (map_of (ca_extraAccountKeys a) n))"
      by (rule keyFile_fold_keys[where v = "\<lambda>m. the (map_of (ca_extraAccountKeys a) m)"]) (use True in auto)
    ultimately show ?thesis using True by simp
  next
    case False
    then have "\<forall>s \<in> set ?K2. \<not> touches n s" by auto
    then show ?thesis using False by (simp add: keyFile_untouched)
  qed
  have K1: "keyFile (fold applyStep ?K1 e) n = (if n = ''acme_user.json'' \<and> ca_accountKey a \<noteq> None then ca_accountKey a else keyFile e n)" for e
    by (auto split: option.split)
  have run: "fold applyStep (restoreSteps lib a) disk = fold applyStep ?R (fold applyStep ?K2 (fold applyStep ?K1 (fold applyStep ?P disk)))"
    by (simp only: all fold_append comp_apply)
  have "keyFile (fold applyStep (restoreSteps lib a) disk) n =
      (if n \<in> set ?names then map_of (ca_extraAccountKeys a) n else if n = ''acme_user.json'' then ca_accountKey a else None)"
    unfolding run R K2 K1 P by simp
  moreover have "n \<notin> set ?names \<Longrightarrow> map_of (ca_extraAccountKeys a) n = None" by (simp add: map_of_eq_None_iff)
  moreover have "n \<in> set ?names \<Longrightarrow> n \<noteq> ''acme_user.json''" using extra extra_key_other by blast
  ultimately show ?thesis by presburger
qed

definition plainIds :: "storedState \<Rightarrow> bool" where
  "plainIds s \<longleftrightarrow> (\<forall>c \<in> fst ` set (stateCerts s). \<not> keyFileName (sanitizeFilename c) \<and> sanitizeFilename c \<noteq> ''http01'')"

lemma cd_dynamic_fold:
  "\<forall>s \<in> set steps. \<forall>x. s \<noteq> PutDynamicDomains x \<Longrightarrow> cd_dynamic (fold applyStep steps disk) = cd_dynamic disk"
proof (induction steps arbitrary: disk)
  case (Cons s steps)
  then have "cd_dynamic (applyStep s disk) = cd_dynamic disk" by (cases s) (auto simp: applyStep.simps)
  then show ?case using Cons by simp
qed simp

lemma restored_files:
  assumes "\<not> certStoreOccupied disk"
  shows "cd_dynamic (fold applyStep (restoreSteps lib a) disk) = ca_dynamicDomains a"
    and "cd_state (fold applyStep (restoreSteps lib a) disk) = (if ca_hasState a then Some (cl_marshal lib (ca_state a)) else None)"
proof -
  let ?S = "if ca_hasState a then [PutState (cl_marshal lib (ca_state a))] else []"
  have stale: "\<forall>s \<in> set (removeStaleCertDirs a). \<forall>x. s \<noteq> PutDynamicDomains x \<and> s \<noteq> PutState x" by (auto simp: removeStaleCertDirs_def)
  have pairs: "\<forall>s \<in> set (pairSteps a). \<forall>x. s \<noteq> PutDynamicDomains x" by (auto simp: pairSteps_def writeCertificateFiles_def split: option.split_asm)
  have fresh: "cd_dynamic disk = None" "cd_state disk = None" using assms by (auto simp: certStoreOccupied_def)
  have keys: "cd_dynamic (fold applyStep (keySteps a) e) = (case ca_dynamicDomains a of Some d \<Rightarrow> Some d | None \<Rightarrow> cd_dynamic e)" for e
  proof -
    let ?K = "(case ca_accountKey a of Some k \<Rightarrow> [PutAccountKey ''acme_user.json'' k] | None \<Rightarrow> [])
       @ map (\<lambda>name. PutAccountKey name (the (map_of (ca_extraAccountKeys a) name))) (sort (map fst (ca_extraAccountKeys a)))"
    have "cd_dynamic (fold applyStep ?K e) = cd_dynamic e" by (rule cd_dynamic_fold) (auto split: option.split)
    then show ?thesis by (simp add: keySteps_def applyStep.simps split: option.split)
  qed
  show "cd_dynamic (fold applyStep (restoreSteps lib a) disk) = ca_dynamicDomains a"
    unfolding restoreSteps_split fold_append comp_apply using stale pairs by (simp add: cd_dynamic_fold keys fresh applyStep.simps split: option.split)
  show "cd_state (fold applyStep (restoreSteps lib a) disk) = (if ca_hasState a then Some (cl_marshal lib (ca_state a)) else None)"
    unfolding restoreSteps_split fold_append comp_apply using stale no_state_steps[of _ a]
    by (simp add: cd_state_fold fresh applyStep.simps)
qed

text \<open>C13: a store that could be exported comes back. The archive of an export is accepted by a restore into an empty store, which then holds the same certificate state, for
  every certificate of it the pair the old store would have loaded, or none where there was none, the same domain state and the same account keys, as far as each was
  valid JSON and a usable key. JSON is assumed to decode what it encoded.
\<close>
theorem export_restore_roundtrip:
  assumes json: "\<forall>s. parseState lib (cl_marshal lib s) = Some s"
    and e: "exportCertificateStore lib frame tail disk = Inr (tb, ws)" and ok: "diskOk disk" and plain: "\<forall>x s. cd_state disk = Some x \<longrightarrow> parseState lib x = Some s \<longrightarrow> plainIds s"
    and free: "\<not> certStoreOccupied fresh"
  shows "\<exists>steps restored. restoreCertificateStore lib False tb fresh = Inr (steps, restored)
    \<and> Option.bind (cd_state restored) (parseState lib) = Option.bind (cd_state disk) (parseState lib)
    \<and> (\<forall>s. Option.bind (cd_state disk) (parseState lib) = Some s \<longrightarrow> (\<forall>c \<in> fst ` set (stateCerts s). loadPair lib restored c = loadPair lib disk c))
    \<and> cd_dynamic restored = (case cd_dynamic disk of Some x \<Rightarrow> if cl_jsonValid lib x then Some x else None | None \<Rightarrow> None)
    \<and> (\<forall>n k. keyFileName n \<longrightarrow> (keyFile restored n = Some k \<longleftrightarrow> keyFile disk n = Some k \<and> cl_jsonValid lib k \<and> cl_usableKey lib k))"
proof -
  obtain a where a: "readCertStoreArchive lib tb = Inr a" using exported_files(2)[OF e] by blast
  let ?steps = "restoreSteps lib a"
  let ?r = "fold applyStep ?steps fresh"
  note arch = archive_of_export[OF e ok a] and aok = readArchive_ok[OF a]
  have clash: "noClash a"
    unfolding noClash_def
  proof
    fix dir
    assume dir: "dir \<in> fst ` set (ca_certs a)"
    then obtain p where "map_of (ca_certs a) dir = Some p" by (metis map_of_eq_None_iff not_None_eq)
    moreover have "safeDir dir" using aok dir unfolding archiveOk_def by blast
    ultimately have "diskFile disk dir ''cert.pem'' \<noteq> None" using arch(6) by auto
    then obtain fs where "(dir, DirNode fs) \<in> set (nodesOf disk)"
      by (auto simp: diskFile_def nodesOf_def split: option.split_asm storeNode.split_asm dest: map_of_SomeD)
    then show "\<not> keyFileName dir" using ok unfolding diskOk_def by blast
  qed
  note go = restore_unblocked[OF aok clash free, of lib]
  have run: "restoreCertificateStore lib False tb fresh = Inr (?steps, ?r)" using free by (simp add: restoreCertificateStore_def a runSteps_unblocked[OF go])
  have st: "Option.bind (cd_state disk) (parseState lib) = (if ca_hasState a then Some (ca_state a) else None)"
    using arch(1,2) by (cases "cd_state disk") auto
  have ids: "c \<in> fst ` set (stateCerts (ca_state a)) \<Longrightarrow> \<not> keyFileName (sanitizeFilename c) \<and> sanitizeFilename c \<noteq> ''http01''" for c
  proof (cases "ca_hasState a")
    case True
    then obtain x where "cd_state disk = Some x" using arch(1) by auto
    then have "plainIds (ca_state a)" using plain arch(2) by blast
    then show "c \<in> fst ` set (stateCerts (ca_state a)) \<Longrightarrow> ?thesis" unfolding plainIds_def by blast
  next
    case False
    then show "c \<in> fst ` set (stateCerts (ca_state a)) \<Longrightarrow> ?thesis" using readArchive_contents(11)[OF a refl] by simp
  qed
  have "Option.bind (cd_state ?r) (parseState lib) = Option.bind (cd_state disk) (parseState lib)"
    using st json by (simp add: restored_files[OF free])
  moreover have "loadPair lib ?r c = loadPair lib disk c" if c: "c \<in> fst ` set (stateCerts (ca_state a))" for c
  proof -
    have s: "safeDir (sanitizeFilename c)" using aok c unfolding archiveOk_def by blast
    note pair = arch(6)[OF s]
    show ?thesis
    proof (cases "map_of (ca_certs a) (sanitizeFilename c)")
      case None
      then have "\<not> (diskFile disk (sanitizeFilename c) ''cert.pem'' = Some x \<and> diskFile disk (sanitizeFilename c) ''key.pem'' = Some y \<and> cl_parsePair lib x y = Some l)" for x y l
        using pair[of "\<lparr>ap_certPEM = x, ap_keyPEM = y, ap_leaf = l\<rparr>"] ids[OF c] by auto
      then have "loadPair lib disk c = None" by (auto simp: loadPair_def split: option.split)
      then show ?thesis using restored_pair(2)[OF aok go c None] by (simp add: loadPair_def)
    next
      case (Some p)
      then show ?thesis using restored_pair(1)[OF aok go c Some] pair[of p] by (simp add: loadPair_def)
    qed
  qed
  moreover have "keyFile ?r n = Some k \<longleftrightarrow> keyFile disk n = Some k \<and> cl_jsonValid lib k \<and> cl_usableKey lib k" if n: "keyFileName n" for n k
  proof -
    have "keyFile fresh n = None" using free by (simp add: keyFile_def certStoreOccupied_def)
    then have "keyFile ?r n = (if n = ''acme_user.json'' then ca_accountKey a else map_of (ca_extraAccountKeys a) n)"
      by (intro restored_keys[OF aok clash n]) (use ids in force)+
    then show ?thesis using arch(4,5) n by (auto simp: keyFileName_def)
  qed
  ultimately show ?thesis using run st arch(3) restored_files(1)[OF free] by (intro exI[of _ ?steps] exI[of _ ?r]) (simp split: if_split_asm)
qed

section \<open>Witnesses\<close>

text \<open>Contents that are a state or a text, a pair of equal texts being a certificate for the name it spells.\<close>

definition runLib :: "(storedState + string) certLib" where
  "runLib = \<lparr>cl_decodeState = (\<lambda>d _. case d of Inl s \<Rightarrow> Some s | Inr _ \<Rightarrow> None), cl_marshal = Inl, cl_jsonValid = (\<lambda>_. True),
     cl_parsePair = (\<lambda>c k. case (c, k) of (Inr x, Inr y) \<Rightarrow> if x = y then Some \<lparr>lf_names = [x], lf_notBefore = 0, lf_notAfter = 90\<rparr> else None | _ \<Rightarrow> None),
     cl_usableKey = (\<lambda>d. d \<noteq> Inr ''junk''), cl_size = (\<lambda>_. 1)\<rparr>"

definition runState :: storedState where
  "runState = \<lparr>sf_certificates = Some [(''san:1'', Some \<lparr>mc_identifier = ''san:1'', mc_domains = [''a.dk''], mc_notAfter = 90, mc_certificate = None, mc_directory = []\<rparr>)],
     sf_domainMap = Some [(''a.dk'', ''san:1'')]\<rparr>"

definition runDisk :: "(storedState + string) certDisk" where
  "runDisk = \<lparr>cd_state = Some (Inl runState), cd_dynamic = None,
     cd_certs = Some [(''acme_user.json'', FileNode (Inr ''key'')), (''san_1'', DirNode [(''cert.pem'', Inr ''a.dk''), (''key.pem'', Inr ''a.dk'')])]\<rparr>"

definition freshDisk :: "(storedState + string) certDisk" where
  "freshDisk = \<lparr>cd_state = None, cd_dynamic = None, cd_certs = None\<rparr>"

definition runTarball :: "(storedState + string) tarball" where
  "runTarball = writeTar runLib (\<lambda>_. 2) 4 [(''acme.state'', Inl runState), (''certs/acme_user.json'', Inr ''key''), (''certs/san_1/cert.pem'', Inr ''a.dk''), (''certs/san_1/key.pem'', Inr ''a.dk'')]"

lemma run_export: "exportCertificateStore runLib (\<lambda>_. 2) 4 runDisk = Inr (runTarball, [])"
  by code_simp

lemma restore_confined_witness:
  "\<exists>steps disk'. restoreCertificateStore runLib False runTarball freshDisk = Inr (steps, disk') \<and> length steps = 4 \<and> list_all confined steps"
proof -
  have "case restoreCertificateStore runLib False runTarball freshDisk of Inl _ \<Rightarrow> False | Inr (steps, _) \<Rightarrow> length steps = 4" by code_simp
  then obtain steps disk' where "restoreCertificateStore runLib False runTarball freshDisk = Inr (steps, disk')" "length steps = 4" by (auto split: sum.split_asm)
  then show ?thesis using restore_confined by blast
qed

lemma interrupted_restore_witness:
  "\<exists>a steps disk'. restoreCertificateStore runLib False runTarball freshDisk = Inr (steps, disk') \<and> readCertStoreArchive runLib runTarball = Inr a \<and> map fst (ca_certs a) = [''san_1'']
     \<and> cd_state (fold applyStep (take 3 steps) freshDisk) = None \<and> cd_state (fold applyStep (take 4 steps) freshDisk) = Some (Inl runState)
     \<and> (\<forall>dir p. map_of (ca_certs a) dir = Some p \<longrightarrow> diskFile (fold applyStep (take 4 steps) freshDisk) dir ''cert.pem'' = Some (ap_certPEM p))"
proof -
  obtain a steps disk' where a: "readCertStoreArchive runLib runTarball = Inr a" and r: "restoreCertificateStore runLib False runTarball freshDisk = Inr (steps, disk')"
    and s: "cd_state (fold applyStep (take 3 steps) freshDisk) = None" "cd_state (fold applyStep (take 4 steps) freshDisk) = Some (Inl runState)" and n: "map fst (ca_certs a) = [''san_1'']"
  proof -
    have "case readCertStoreArchive runLib runTarball of Inl _ \<Rightarrow> False | Inr a \<Rightarrow> map fst (ca_certs a) = [''san_1'']" by code_simp
    moreover have "case restoreCertificateStore runLib False runTarball freshDisk of Inl _ \<Rightarrow> False | Inr (steps, _) \<Rightarrow>
        cd_state (fold applyStep (take 3 steps) freshDisk) = None \<and> cd_state (fold applyStep (take 4 steps) freshDisk) = Some (Inl runState)" by code_simp
    ultimately show thesis using that by (auto split: sum.split_asm)
  qed
  note interrupted_restore[OF disjI1[OF r] a refl, of 4]
  then have "\<forall>dir p. map_of (ca_certs a) dir = Some p \<longrightarrow> diskFile (fold applyStep (take 4 steps) freshDisk) dir ''cert.pem'' = Some (ap_certPEM p)"
    using s(2) by (auto simp: freshDisk_def split: if_split_asm)
  with a r s n show ?thesis by (intro exI conjI) assumption+
qed

lemma export_restore_roundtrip_witness:
  "\<exists>steps restored. restoreCertificateStore runLib False runTarball freshDisk = Inr (steps, restored)
     \<and> loadPair runLib restored ''san:1'' = Some (Inr ''a.dk'', Inr ''a.dk'') \<and> keyFile restored ''acme_user.json'' = Some (Inr ''key'')"
proof -
  have json: "\<forall>s. parseState runLib (cl_marshal runLib s) = Some s" by (simp add: runLib_def parseState_def)
  have "diskOk runDisk" by (simp add: diskOk_def runDisk_def nodesOf_def keyFileName_def isExtraAccountKeyFile_def hasPrefix_def)
  moreover have "plainIds runState" by (simp add: plainIds_def stateCerts_def runState_def) code_simp
  then have "\<forall>x s. cd_state runDisk = Some x \<longrightarrow> parseState runLib x = Some s \<longrightarrow> plainIds s" by (simp add: runDisk_def runLib_def parseState_def)
  moreover have "\<not> certStoreOccupied freshDisk" by code_simp
  ultimately obtain steps restored where r: "restoreCertificateStore runLib False runTarball freshDisk = Inr (steps, restored)"
    "\<forall>s. Option.bind (cd_state runDisk) (parseState runLib) = Some s \<longrightarrow> (\<forall>c \<in> fst ` set (stateCerts s). loadPair runLib restored c = loadPair runLib runDisk c)"
    "\<forall>n k. keyFileName n \<longrightarrow> (keyFile restored n = Some k \<longleftrightarrow> keyFile runDisk n = Some k \<and> cl_jsonValid runLib k \<and> cl_usableKey runLib k)"
    using export_restore_roundtrip[OF json run_export] by blast
  have "loadPair runLib restored ''san:1'' = loadPair runLib runDisk ''san:1''" using r(2) by (simp add: runDisk_def runLib_def parseState_def runState_def stateCerts_def)
  moreover have "loadPair runLib runDisk ''san:1'' = Some (Inr ''a.dk'', Inr ''a.dk'')" by code_simp
  moreover have "keyFile runDisk ''acme_user.json'' = Some (Inr ''key'') \<and> cl_jsonValid runLib (Inr ''key'') \<and> cl_usableKey runLib (Inr ''key'')" by code_simp
  ultimately show ?thesis using r(1,3) by (simp add: keyFileName_def)
qed

text \<open>
  A directory whose name is not in the form the proxy writes, a hand-made copy for example, is archived when its pair parses, and then refused by the reader: the
  whole export fails over it, where a directory with half a pair is skipped with a warning.
\<close>

lemma odd_directory_fails_export:
  "exportCertificateStore runLib (\<lambda>_. 2) 4 (runDisk\<lparr>cd_certs := Some [(''old copy'', DirNode [(''cert.pem'', Inr ''a.dk''), (''key.pem'', Inr ''a.dk'')])]\<rparr>)
     = Inl (StagedUnverified (UnexpectedEntry ''certs/old copy/cert.pem''))"
  by code_simp

end
