(* ===== verification/Cache_Store_File.thy ===== *)
theory Cache_Store_File
  imports Cache_Middleware "HOL-Library.Countable_Set"
begin

text \<open>
  The store that keeps entries as files (\<open>cache_store_file.go\<close>), as a second interpretation of \<open>cache_store\<close>. The directory is part of the state: a file
  holds an envelope or something that cannot be decoded, and has a size. The container list holds the records, front first; the index is a map from keys to
  records, so that their agreement is something to prove. File names are a digest of the key (a parameter); whether a write fails and how large an encoded
  entry is are parameters too. Each operation is taken as a whole, the read and the write of a file included, which the program does outside its lock.
\<close>

section \<open>State and operations\<close>

record fileCacheRecord =
  fr_key :: string
  fr_service :: string
  fr_path :: string
  fr_size :: int
  fr_expires :: time
  fr_fresh :: time
  fr_filename :: string

record cacheFile =
  cf_envelope :: "(string \<times> cacheEntry) option"
  cf_size :: nat

record fileCacheStore =
  fs_maxBytes :: int
  fs_records :: "string \<Rightarrow> fileCacheRecord option"
  fs_order :: "fileCacheRecord list"
  fs_bytes :: int
  fs_services :: "string \<Rightarrow> cacheServiceUsage option"
  fs_evictedFresh :: int
  fs_evictedStale :: int
  fs_oversized :: int
  fs_files :: "(string \<times> cacheFile) list"

definition filenameForKey :: "(string \<Rightarrow> string) \<Rightarrow> string \<Rightarrow> string" where
  "filenameForKey digest key = digest key @ ''.entry''"

definition fsIndex :: "time \<Rightarrow> string \<Rightarrow> cacheEntry \<Rightarrow> string \<Rightarrow> int \<Rightarrow> fileCacheStore \<Rightarrow> fileCacheStore" where
  "fsIndex now key e filename sz s =
     (let r = \<lparr>fr_key = key, fr_service = ce_service e, fr_path = ce_path e, fr_size = sz, fr_expires = now + ttl e,
               fr_fresh = now + wrap64 (ce_freshFor e - age e now), fr_filename = filename\<rparr>
      in s\<lparr>fs_order := r # fs_order s, fs_records := (fs_records s)(key \<mapsto> r), fs_bytes := fs_bytes s + sz,
           fs_services := addUsage (ce_service e) sz (fs_services s)\<rparr>)"

definition fsDropIndex :: "fileCacheRecord \<Rightarrow> fileCacheStore \<Rightarrow> fileCacheStore" where
  "fsDropIndex r s =
     s\<lparr>fs_order := remove1 r (fs_order s), fs_records := (fs_records s)(fr_key r := None), fs_bytes := fs_bytes s - fr_size r,
       fs_services := removeUsage (fr_service r) (fr_size r) (fs_services s)\<rparr>"

definition fsRemoveElement :: "fileCacheRecord \<Rightarrow> fileCacheStore \<Rightarrow> fileCacheStore" where
  "fsRemoveElement r s = (fsDropIndex r s)\<lparr>fs_files := AList.delete (fr_filename r) (fs_files s)\<rparr>"

definition fsForget :: "string \<Rightarrow> fileCacheStore \<Rightarrow> fileCacheStore" where
  "fsForget key s = (case fs_records s key of Some r \<Rightarrow> fsRemoveElement r s | None \<Rightarrow> s)"

definition readEnvelope :: "fileCacheStore \<Rightarrow> string \<Rightarrow> (string \<times> cacheEntry) option" where
  "readEnvelope s filename = (case map_of (fs_files s) filename of Some f \<Rightarrow> cf_envelope f | None \<Rightarrow> None)"

definition fsGet :: "time \<Rightarrow> string \<Rightarrow> fileCacheStore \<Rightarrow> cacheEntry option \<times> fileCacheStore" where
  "fsGet now key s = (case fs_records s key of
     None \<Rightarrow> (None, s)
   | Some r \<Rightarrow>
       if fr_expires r < now then (None, fsRemoveElement r s)
       else (let s1 = s\<lparr>fs_order := r # remove1 r (fs_order s)\<rparr>
             in case readEnvelope s1 (fr_filename r) of
                  Some (_, e) \<Rightarrow> (Some e, s1)
                | None \<Rightarrow> (None, fsForget key s1)))"

definition fsWriteFile :: "(string \<Rightarrow> string) \<Rightarrow> (string \<Rightarrow> cacheEntry \<Rightarrow> nat) \<Rightarrow> string \<Rightarrow> cacheEntry \<Rightarrow> fileCacheStore \<Rightarrow> fileCacheStore" where
  "fsWriteFile digest encoded key e s =
     s\<lparr>fs_files := AList.update (filenameForKey digest key) \<lparr>cf_envelope = Some (key, e), cf_size = encoded key e\<rparr> (fs_files s)\<rparr>"

text \<open>The eviction loop: from the back while the budget is exceeded.\<close>

function fsEvict :: "time \<Rightarrow> fileCacheStore \<Rightarrow> fileCacheStore" where
  "fsEvict now s =
     (if fs_bytes s \<le> fs_maxBytes s \<or> fs_order s = [] then s
      else let oldest = last (fs_order s);
               s' = (if now < fr_fresh oldest then s\<lparr>fs_evictedFresh := fs_evictedFresh s + 1\<rparr> else s\<lparr>fs_evictedStale := fs_evictedStale s + 1\<rparr>)
           in fsEvict now (fsRemoveElement oldest s'))"
  by pat_completeness auto
termination
proof (relation "measure (\<lambda>(now, s). length (fs_order s))", simp, goal_cases)
  case (1 now s oldest s')
  then have "oldest \<in> set (fs_order s)" "fs_order s' = fs_order s" by auto
  then have "length (remove1 oldest (fs_order s')) < length (fs_order s)"
    using length_pos_if_in_set[of oldest "fs_order s"] by (simp add: length_remove1)
  then show ?case by (simp add: fsRemoveElement_def fsDropIndex_def)
qed

declare fsEvict.simps [simp del]

definition fsStore :: "time \<Rightarrow> string \<Rightarrow> cacheEntry \<Rightarrow> string \<Rightarrow> int \<Rightarrow> fileCacheStore \<Rightarrow> fileCacheStore" where
  "fsStore now key e filename sz s =
     (let s1 = (case fs_records s key of Some r \<Rightarrow> fsDropIndex r s | None \<Rightarrow> s)
      in fsEvict now (fsIndex now key e filename sz s1))"

definition fsSet :: "(string \<Rightarrow> string) \<Rightarrow> (string \<Rightarrow> cacheEntry \<Rightarrow> nat) \<Rightarrow> (string \<Rightarrow> bool) \<Rightarrow> time \<Rightarrow> string \<Rightarrow> cacheEntry \<Rightarrow> fileCacheStore \<Rightarrow> fileCacheStore" where
  "fsSet digest encoded fails now key e s =
     (if ttl e \<le> 0 then s
      else if fs_maxBytes s < entrySize e then s\<lparr>fs_oversized := fs_oversized s + 1\<rparr>
      else if fails key then s
      else fsStore now key e (filenameForKey digest key) (entrySize e) (fsWriteFile digest encoded key e s))"

definition fsPurge :: "string \<Rightarrow> string \<Rightarrow> fileCacheStore \<Rightarrow> nat \<times> fileCacheStore" where
  "fsPurge service pathPrefix s =
     fold (\<lambda>r (purged, s). if fr_service r = service \<and> hasPrefix (fr_path r) pathPrefix then (purged + 1, fsRemoveElement r s) else (purged, s)) (fs_order s) (0, s)"

definition fsClose :: "fileCacheStore \<Rightarrow> fileCacheStore" where
  "fsClose s = s\<lparr>fs_records := Map.empty, fs_order := [], fs_bytes := 0, fs_services := Map.empty\<rparr>"

definition fsRestore :: "time \<Rightarrow> string \<times> cacheFile \<Rightarrow> fileCacheStore \<Rightarrow> fileCacheStore" where
  "fsRestore now = (\<lambda>(name, f) s.
     if \<not> hasSuffix name ''.entry'' then s
     else case cf_envelope f of
            None \<Rightarrow> s\<lparr>fs_files := AList.delete name (fs_files s)\<rparr>
          | Some (key, e) \<Rightarrow> if \<not> servable e now then s\<lparr>fs_files := AList.delete name (fs_files s)\<rparr> else fsIndex now key e name (int (cf_size f)) s)"

text \<open>Opening a directory; its files are read in the order of their names.\<close>

definition newFileCacheStore :: "time \<Rightarrow> int \<Rightarrow> (string \<times> cacheFile) list \<Rightarrow> fileCacheStore" where
  "newFileCacheStore now maxBytes files =
     fold (fsRestore now) (sort_key fst files)
       \<lparr>fs_maxBytes = (if maxBytes \<le> 0 then 256 * 1048576 else maxBytes), fs_records = Map.empty, fs_order = [], fs_bytes = 0, fs_services = Map.empty,
        fs_evictedFresh = 0, fs_evictedStale = 0, fs_oversized = 0, fs_files = files\<rparr>"

definition fileOps :: "(string \<Rightarrow> string) \<Rightarrow> (string \<Rightarrow> cacheEntry \<Rightarrow> nat) \<Rightarrow> (string \<Rightarrow> bool) \<Rightarrow> fileCacheStore cacheStoreOps" where
  "fileOps digest encoded fails = \<lparr>so_get = fsGet, so_set = fsSet digest encoded fails, so_purge = fsPurge\<rparr>"

section \<open>The invariant\<close>

definition fileUsage :: "fileCacheRecord list \<Rightarrow> string \<Rightarrow> cacheServiceUsage option" where
  "fileUsage rs svc =
     (let mine = filter (\<lambda>r. fr_service r = svc) rs
      in if mine = [] then None else Some \<lparr>su_entries = int (length mine), su_bytes = sum_list (map fr_size mine)\<rparr>)"

text \<open>Index, list, byte count and usage agree.\<close>

definition fsIndexOk :: "fileCacheStore \<Rightarrow> bool" where
  "fsIndexOk s \<longleftrightarrow> distinct (map fr_key (fs_order s)) \<and> fs_records s = map_of (map (\<lambda>r. (fr_key r, r)) (fs_order s))
     \<and> fs_bytes s = sum_list (map fr_size (fs_order s)) \<and> fs_services s = fileUsage (fs_order s)
     \<and> (\<forall>r \<in> set (fs_order s). 0 \<le> fr_size r) \<and> 0 \<le> fs_maxBytes s"

text \<open>A record's file is there, under the name its key asks for, and holds its key.\<close>

definition recordFile :: "(string \<Rightarrow> string) \<Rightarrow> (string \<times> cacheFile) list \<Rightarrow> fileCacheRecord \<Rightarrow> bool" where
  "recordFile digest files r \<longleftrightarrow> fr_filename r = filenameForKey digest (fr_key r)
     \<and> (\<exists>f e. map_of files (fr_filename r) = Some f \<and> cf_envelope f = Some (fr_key r, e) \<and> ce_service e = fr_service r \<and> ce_path e = fr_path r)"

definition fsFilesOk :: "(string \<Rightarrow> string) \<Rightarrow> fileCacheStore \<Rightarrow> bool" where
  "fsFilesOk digest s \<longleftrightarrow> inj digest \<and> (\<forall>r \<in> set (fs_order s). recordFile digest (fs_files s) r) \<and> distinct (map fst (fs_files s))"

text \<open>Every entry file of the directory is some record's, but for \<open>names\<close>.\<close>

definition noOrphans :: "string set \<Rightarrow> fileCacheStore \<Rightarrow> bool" where
  "noOrphans names s \<longleftrightarrow> (\<forall>name \<in> fst ` set (fs_files s). hasSuffix name ''.entry'' \<longrightarrow> name \<in> names \<union> fr_filename ` set (fs_order s))"

definition fsInv :: "(string \<Rightarrow> string) \<Rightarrow> fileCacheStore \<Rightarrow> bool" where
  "fsInv digest s \<longleftrightarrow> fsIndexOk s \<and> fsFilesOk digest s \<and> noOrphans {} s"

definition fsHolds :: "fileCacheStore \<Rightarrow> string \<Rightarrow> cacheEntry option" where
  "fsHolds s key = (case fs_records s key of Some r \<Rightarrow> map_option snd (readEnvelope s (fr_filename r)) | None \<Rightarrow> None)"

lemma filename_inj: "inj digest \<Longrightarrow> filenameForKey digest k = filenameForKey digest k' \<longleftrightarrow> k = k'"
  by (auto simp: filenameForKey_def dest: injD)

lemma fileUsage_remove: "removeUsage (fr_service r) (fr_size r) (fileUsage (xs @ r # ys)) = fileUsage (xs @ ys)"
proof (rule ext)
  fix svc
  define fx where "fx = filter (\<lambda>q. fr_service q = fr_service r) xs"
  define fy where "fy = filter (\<lambda>q. fr_service q = fr_service r) ys"
  have "fileUsage (xs @ r # ys) (fr_service r) = Some \<lparr>su_entries = int (length (fx @ fy)) + 1, su_bytes = sum_list (map fr_size (fx @ fy)) + fr_size r\<rparr>"
    by (simp add: fileUsage_def fx_def fy_def)
  moreover have "fileUsage (xs @ ys) (fr_service r) = (if fx @ fy = [] then None
      else Some \<lparr>su_entries = int (length (fx @ fy)), su_bytes = sum_list (map fr_size (fx @ fy))\<rparr>)"
    by (simp add: fileUsage_def fx_def fy_def Let_def)
  moreover have "svc \<noteq> fr_service r \<Longrightarrow> fileUsage (xs @ r # ys) svc = fileUsage (xs @ ys) svc" by (auto simp: fileUsage_def)
  ultimately show "removeUsage (fr_service r) (fr_size r) (fileUsage (xs @ r # ys)) svc = fileUsage (xs @ ys) svc"
    by (cases "fx @ fy"; cases "svc = fr_service r") (auto simp: removeUsage_def)
qed

lemma fileUsage_add: "addUsage (fr_service r) (fr_size r) (fileUsage rs) = fileUsage (r # rs)"
  by (rule ext) (auto simp: addUsage_def fileUsage_def Let_def split: option.splits)

lemma fileUsage_front: "fileUsage (r # xs @ ys) = fileUsage (xs @ r # ys)"
  by (rule ext) (simp add: fileUsage_def Let_def)

lemma order_split:
  assumes "fsIndexOk s" and "r \<in> set (fs_order s)"
  obtains xs ys where "fs_order s = xs @ r # ys" "remove1 r (fs_order s) = xs @ ys" "\<forall>q \<in> set (xs @ ys). fr_key q \<noteq> fr_key r"
proof -
  obtain xs ys where o: "fs_order s = xs @ r # ys" using assms(2) by (meson split_list)
  have d: "distinct (map fr_key (xs @ r # ys))" using assms(1) o by (simp add: fsIndexOk_def)
  then have "r \<notin> set xs" by auto
  then have "remove1 r (fs_order s) = xs @ ys" by (simp add: o remove1_append)
  moreover have "fr_key r \<notin> fr_key ` set (xs @ ys)" using d by auto
  then have "\<forall>q \<in> set (xs @ ys). fr_key q \<noteq> fr_key r" by (metis imageI)
  ultimately show thesis by (rule that[OF o])
qed

lemma record_iff: "fsIndexOk s \<Longrightarrow> fs_records s k = Some r \<longleftrightarrow> r \<in> set (fs_order s) \<and> fr_key r = k"
  unfolding fsIndexOk_def by (auto simp: map_of_eq_Some_iff comp_def)

lemma record_none: "fsIndexOk s \<Longrightarrow> fs_records s k = None \<longleftrightarrow> k \<notin> fr_key ` set (fs_order s)"
  unfolding fsIndexOk_def by (simp add: map_of_eq_None_iff image_image)

lemma dropIndex_ok:
  assumes "fsIndexOk s" and "r \<in> set (fs_order s)"
  shows "fsIndexOk (fsDropIndex r s)" and "fs_order (fsDropIndex r s) = remove1 r (fs_order s)"
    and "set (fs_order (fsDropIndex r s)) = {q \<in> set (fs_order s). fr_key q \<noteq> fr_key r}" and "fs_bytes (fsDropIndex r s) \<le> fs_bytes s"
    and "fs_files (fsDropIndex r s) = fs_files s" and "fs_maxBytes (fsDropIndex r s) = fs_maxBytes s"
proof -
  obtain xs ys where o: "fs_order s = xs @ r # ys" "remove1 r (fs_order s) = xs @ ys" "\<forall>q \<in> set (xs @ ys). fr_key q \<noteq> fr_key r" by (rule order_split[OF assms])
  have d: "distinct (map fr_key (xs @ r # ys))" using assms(1) o(1) by (simp add: fsIndexOk_def)
  note ix = map_of_drop_mid[OF d, of "\<lambda>r. r"]
  have eqs: "fs_order (fsDropIndex r s) = xs @ ys" "fs_records (fsDropIndex r s) = (fs_records s)(fr_key r := None)" "fs_bytes (fsDropIndex r s) = fs_bytes s - fr_size r"
    "fs_services (fsDropIndex r s) = removeUsage (fr_service r) (fr_size r) (fs_services s)" "fs_maxBytes (fsDropIndex r s) = fs_maxBytes s"
    using o(2) by (simp_all add: fsDropIndex_def)
  show "fsIndexOk (fsDropIndex r s)"
    using assms(1) d unfolding fsIndexOk_def eqs ix o(1) by (auto simp: fileUsage_remove)
  show "set (fs_order (fsDropIndex r s)) = {q \<in> set (fs_order s). fr_key q \<noteq> fr_key r}" using o(1,3) unfolding eqs by auto
  show "fs_bytes (fsDropIndex r s) \<le> fs_bytes s" using assms by (auto simp: eqs fsIndexOk_def)
qed (simp_all add: fsDropIndex_def)

lemma index_ok:
  assumes "fsIndexOk s" and "k \<notin> fr_key ` set (fs_order s)" and "0 \<le> sz"
  shows "fsIndexOk (fsIndex now k e name sz s)"
    and "\<exists>r. fs_order (fsIndex now k e name sz s) = r # fs_order s \<and> fr_key r = k \<and> fr_service r = ce_service e \<and> fr_path r = ce_path e \<and> fr_filename r = name"
    and "fs_files (fsIndex now k e name sz s) = fs_files s" and "fs_maxBytes (fsIndex now k e name sz s) = fs_maxBytes s"
proof -
  let ?r = "\<lparr>fr_key = k, fr_service = ce_service e, fr_path = ce_path e, fr_size = sz, fr_expires = now + ttl e,
               fr_fresh = now + wrap64 (ce_freshFor e - age e now), fr_filename = name\<rparr>"
  show "fsIndexOk (fsIndex now k e name sz s)"
    using assms fileUsage_add[of ?r "fs_order s"] unfolding fsIndexOk_def by (simp add: fsIndex_def Let_def)
qed (simp_all add: fsIndex_def Let_def)

lemma front_ok:
  assumes "fsIndexOk s" and "r \<in> set (fs_order s)"
  shows "fsIndexOk (s\<lparr>fs_order := r # remove1 r (fs_order s)\<rparr>)" and "set (r # remove1 r (fs_order s)) = set (fs_order s)"
proof -
  obtain xs ys where o: "fs_order s = xs @ r # ys" "remove1 r (fs_order s) = xs @ ys" "\<forall>q \<in> set (xs @ ys). fr_key q \<noteq> fr_key r" by (rule order_split[OF assms])
  have d: "distinct (map fr_key (xs @ r # ys))" using assms(1) o(1) by (simp add: fsIndexOk_def)
  have "fsIndexOk (s\<lparr>fs_order := r # xs @ ys\<rparr>)"
    using assms(1) d map_of_front[OF d, of "\<lambda>r. r"] fileUsage_front[of r xs ys] unfolding fsIndexOk_def o(1) by auto
  then show "fsIndexOk (s\<lparr>fs_order := r # remove1 r (fs_order s)\<rparr>)" by (simp only: o(2))
  show "set (r # remove1 r (fs_order s)) = set (fs_order s)" unfolding o(2) using o(1) by auto
qed

text \<open>What a store holds depends on its records and files only.\<close>

lemma holds_iff:
  assumes "fsIndexOk s" and "fsFilesOk digest s"
  shows "fsHolds s k = Some e \<longleftrightarrow> k \<in> fr_key ` set (fs_order s) \<and> (\<exists>f. map_of (fs_files s) (filenameForKey digest k) = Some f \<and> cf_envelope f = Some (k, e))"
proof (cases "fs_records s k")
  case None
  then show ?thesis using record_none[OF assms(1), of k] by (simp add: fsHolds_def)
next
  case (Some r)
  then have r: "r \<in> set (fs_order s)" "fr_key r = k" using record_iff[OF assms(1)] by blast+
  then have "recordFile digest (fs_files s) r" using assms(2) by (simp add: fsFilesOk_def)
  then show ?thesis using r Some by (auto simp: fsHolds_def recordFile_def readEnvelope_def)
qed

lemma recordFile_delete: "recordFile digest files r \<Longrightarrow> fr_filename r \<noteq> name \<Longrightarrow> recordFile digest (AList.delete name files) r"
  by (auto simp: recordFile_def delete_conv')

lemma removeFile_ok:
  assumes "fsInv digest s" and "r \<in> set (fs_order s)"
  shows "fsInv digest (fsRemoveElement r s)" and "fsHolds (fsRemoveElement r s) = (fsHolds s)(fr_key r := None)"
    and "fs_order (fsRemoveElement r s) = remove1 r (fs_order s)" and "fs_maxBytes (fsRemoveElement r s) = fs_maxBytes s" and "fs_bytes (fsRemoveElement r s) \<le> fs_bytes s"
proof -
  let ?s = "fsRemoveElement r s"
  have ix: "fsIndexOk s" and fl: "fsFilesOk digest s" and orp: "noOrphans {} s" using assms(1) by (auto simp: fsInv_def)
  note drop = dropIndex_ok[OF ix assms(2)]
  have eqs: "fs_order ?s = fs_order (fsDropIndex r s)" "fs_records ?s = fs_records (fsDropIndex r s)" "fs_files ?s = AList.delete (fr_filename r) (fs_files s)"
    by (simp_all add: fsRemoveElement_def)
  have ix': "fsIndexOk ?s" using drop(1) by (simp add: fsIndexOk_def fsRemoveElement_def)
  have name: "q \<in> set (fs_order s) \<Longrightarrow> fr_filename q = filenameForKey digest (fr_key q)" for q using fl by (auto simp: fsFilesOk_def recordFile_def)
  have inj: "inj digest" using fl by (simp add: fsFilesOk_def)
  have fl': "fsFilesOk digest ?s"
    using fl name[OF assms(2)] name unfolding fsFilesOk_def eqs drop(3) by (auto intro!: recordFile_delete simp: filename_inj distinct_delete)
  have orp': "noOrphans {} ?s"
    unfolding noOrphans_def
  proof (intro ballI impI)
    fix n
    assume n: "n \<in> fst ` set (fs_files ?s)" "hasSuffix n ''.entry''"
    then have "n \<in> fst ` set (fs_files s)" "n \<noteq> fr_filename r" unfolding eqs set_AList_delete by auto
    then obtain q where q: "q \<in> set (fs_order s)" "n = fr_filename q" using orp n(2) unfolding noOrphans_def by blast
    then have "fr_key q \<noteq> fr_key r" using \<open>n \<noteq> fr_filename r\<close> name[OF q(1)] name[OF assms(2)] by auto
    then show "n \<in> {} \<union> fr_filename ` set (fs_order ?s)" using q unfolding eqs drop(3) by blast
  qed
  show "fsInv digest ?s" using ix' fl' orp' by (simp add: fsInv_def)
  show "fsHolds ?s = (fsHolds s)(fr_key r := None)"
  proof (rule ext, rule option_eqI)
    fix k e
    show "fsHolds ?s k = Some e \<longleftrightarrow> ((fsHolds s)(fr_key r := None)) k = Some e"
      using name[OF assms(2)] unfolding holds_iff[OF ix' fl'] eqs drop(3) by (auto simp: holds_iff[OF ix fl] delete_conv' filename_inj[OF inj])
  qed
  show "fs_order ?s = remove1 r (fs_order s)" "fs_maxBytes ?s = fs_maxBytes s" by (simp_all add: fsRemoveElement_def fsDropIndex_def)
  show "fs_bytes ?s \<le> fs_bytes s" using drop(4) by (simp add: fsRemoveElement_def)
qed

lemma counters_ok [simp]:
  "fsInv digest (s\<lparr>fs_evictedFresh := a\<rparr>) = fsInv digest s" "fsInv digest (s\<lparr>fs_evictedStale := a\<rparr>) = fsInv digest s" "fsInv digest (s\<lparr>fs_oversized := a\<rparr>) = fsInv digest s"
  by (simp_all add: fsInv_def fsIndexOk_def fsFilesOk_def noOrphans_def)

lemma counters_hold [simp]:
  "fsHolds (s\<lparr>fs_evictedFresh := a\<rparr>) = fsHolds s" "fsHolds (s\<lparr>fs_evictedStale := a\<rparr>) = fsHolds s" "fsHolds (s\<lparr>fs_oversized := a\<rparr>) = fsHolds s"
  by (rule ext, simp add: fsHolds_def readEnvelope_def split: option.split)+

lemma evict_ok:
  assumes "fsInv digest s"
  shows "fsInv digest (fsEvict now s) \<and> fsHolds (fsEvict now s) \<subseteq>\<^sub>m fsHolds s \<and> fs_maxBytes (fsEvict now s) = fs_maxBytes s \<and> fs_bytes (fsEvict now s) \<le> fs_maxBytes s"
  using assms
proof (induction now s rule: fsEvict.induct)
  case (1 now s)
  show ?case
  proof (cases "fs_bytes s \<le> fs_maxBytes s \<or> fs_order s = []")
    case True
    moreover have "fs_bytes s \<le> fs_maxBytes s" using True "1.prems" by (auto simp: fsInv_def fsIndexOk_def)
    ultimately show ?thesis using "1.prems" by (simp add: fsEvict.simps[of now s])
  next
    case False
    let ?o = "last (fs_order s)"
    define s' where "s' = (if now < fr_fresh ?o then s\<lparr>fs_evictedFresh := fs_evictedFresh s + 1\<rparr> else s\<lparr>fs_evictedStale := fs_evictedStale s + 1\<rparr>)"
    have s': "fsInv digest s'" "fsHolds s' = fsHolds s" "fs_maxBytes s' = fs_maxBytes s" "?o \<in> set (fs_order s')" using False "1.prems" by (auto simp: s'_def)
    note rem = removeFile_ok[OF s'(1,4)]
    have "fsEvict now s = fsEvict now (fsRemoveElement ?o s')" using False by (subst fsEvict.simps) (simp add: s'_def Let_def)
    then show ?thesis using "1.IH"[OF False refl s'_def rem(1)] rem(2,4) s'(2,3) map_le_trans[OF _ map_le_drop[of "fsHolds s" "fr_key ?o"]] by (simp add: fun_upd_def)
  qed
qed

lemma recordFile_update:
  "recordFile digest files r \<Longrightarrow> fr_filename r \<noteq> name \<Longrightarrow> recordFile digest (AList.update name f files) r"
  by (auto simp: recordFile_def update_conv')

text \<open>Writing a file, dropping the record it replaces and indexing it, before the eviction.\<close>

lemma written_ok:
  fixes encoded :: "string \<Rightarrow> cacheEntry \<Rightarrow> nat" and k :: string and e :: cacheEntry and now :: time
  assumes "fsInv digest s"
  defines "s0 \<equiv> fsWriteFile digest encoded k e s"
  defines "s1 \<equiv> (case fs_records s0 k of Some r \<Rightarrow> fsDropIndex r s0 | None \<Rightarrow> s0)"
  defines "s2 \<equiv> fsIndex now k e (filenameForKey digest k) (entrySize e) s1"
  shows "fsInv digest s2" and "fsHolds s2 = (fsHolds s)(k \<mapsto> e)" and "fs_maxBytes s2 = fs_maxBytes s"
proof -
  let ?n = "filenameForKey digest k" and ?f = "\<lparr>cf_envelope = Some (k, e), cf_size = encoded k e\<rparr>"
  have ix: "fsIndexOk s" and fl: "fsFilesOk digest s" and orp: "noOrphans {} s" and inj: "inj digest" using assms(1) by (auto simp: fsInv_def fsFilesOk_def)
  have s0: "fsIndexOk s0" "fs_order s0 = fs_order s" "fs_files s0 = AList.update ?n ?f (fs_files s)" "fs_maxBytes s0 = fs_maxBytes s"
    using ix by (simp_all add: s0_def fsWriteFile_def fsIndexOk_def)
  have s1: "fsIndexOk s1 \<and> set (fs_order s1) = {q \<in> set (fs_order s). fr_key q \<noteq> k} \<and> fs_files s1 = fs_files s0 \<and> fs_maxBytes s1 = fs_maxBytes s"
  proof (cases "fs_records s0 k")
    case None
    then show ?thesis using record_none[OF s0(1), of k] s0 by (auto simp: s1_def)
  next
    case (Some r)
    then have "r \<in> set (fs_order s0)" "fr_key r = k" using record_iff[OF s0(1)] by blast+
    then show ?thesis using dropIndex_ok[OF s0(1), of r] Some s0 by (simp add: s1_def)
  qed
  have "0 \<le> entrySize e" by (simp add: entrySize_def)
  then obtain r where i: "fsIndexOk s2" "fs_order s2 = r # fs_order s1" "fr_key r = k" "fr_service r = ce_service e" "fr_path r = ce_path e" "fr_filename r = ?n"
      "fs_files s2 = AList.update ?n ?f (fs_files s)" "fs_maxBytes s2 = fs_maxBytes s"
    using index_ok[of s1 k "entrySize e" now e ?n] s1 s0(3) unfolding s2_def by fastforce
  have name: "q \<in> set (fs_order s) \<Longrightarrow> fr_filename q = filenameForKey digest (fr_key q)" for q using fl by (auto simp: fsFilesOk_def recordFile_def)
  have "recordFile digest (fs_files s2) q" if "q \<in> set (fs_order s2)" for q
  proof (cases "q = r")
    case True
    then show ?thesis using i by (simp add: recordFile_def update_conv')
  next
    case False
    then have "q \<in> set (fs_order s)" "fr_key q \<noteq> k" using that i(2) s1 by auto
    then show ?thesis using fl name[of q] unfolding i(7) by (auto simp: fsFilesOk_def filename_inj[OF inj] intro!: recordFile_update)
  qed
  then have fl': "fsFilesOk digest s2" using fl unfolding fsFilesOk_def i(7) by (simp add: distinct_update)
  have orp': "noOrphans {} s2"
    unfolding noOrphans_def
  proof (intro ballI impI)
    fix n
    assume n: "n \<in> fst ` set (fs_files s2)" "hasSuffix n ''.entry''"
    show "n \<in> {} \<union> fr_filename ` set (fs_order s2)"
    proof (cases "n = ?n")
      case True
      then show ?thesis using i(2,6) by simp
    next
      case False
      then have "n \<in> fst ` set (fs_files s)" using n(1) unfolding i(7) keys_AList_update by simp
      then obtain q where q: "q \<in> set (fs_order s)" "n = fr_filename q" using orp n(2) unfolding noOrphans_def by blast
      then have "q \<in> set (fs_order s1)" using False name[of q] s1 by auto
      then show ?thesis using q(2) i(2) by simp
    qed
  qed
  show "fsInv digest s2" using i(1) fl' orp' by (simp add: fsInv_def)
  show "fsHolds s2 = (fsHolds s)(k \<mapsto> e)"
  proof (rule ext, rule option_eqI)
    fix k' e'
    have keys: "fr_key ` set (fs_order s2) = insert k (fr_key ` set (fs_order s))" using i(2,3) s1 by auto
    show "fsHolds s2 k' = Some e' \<longleftrightarrow> ((fsHolds s)(k \<mapsto> e)) k' = Some e'"
      unfolding holds_iff[OF i(1) fl'] keys i(7) by (auto simp: holds_iff[OF ix fl] update_conv' filename_inj[OF inj])
  qed
  show "fs_maxBytes s2 = fs_maxBytes s" by (rule i(8))
qed

lemma fsSet_cases:
  "fsSet digest encoded fails now k e s = s \<and> (ttl e \<le> 0 \<or> fails k)
   \<or> fsSet digest encoded fails now k e s = s\<lparr>fs_oversized := fs_oversized s + 1\<rparr> \<and> fs_maxBytes s < entrySize e
   \<or> fsSet digest encoded fails now k e s = fsStore now k e (filenameForKey digest k) (entrySize e) (fsWriteFile digest encoded k e s)"
  by (simp add: fsSet_def)

lemma fsSet_ok:
  assumes "fsInv digest s"
  shows "fsInv digest (fsSet digest encoded fails now k e s) \<and> fsHolds (fsSet digest encoded fails now k e s) \<subseteq>\<^sub>m (fsHolds s)(k \<mapsto> e)
    \<or> fsInv digest (fsSet digest encoded fails now k e s) \<and> fsHolds (fsSet digest encoded fails now k e s) = fsHolds s"
    and "fs_maxBytes (fsSet digest encoded fails now k e s) = fs_maxBytes s" and "fs_bytes s \<le> fs_maxBytes s \<Longrightarrow> fs_bytes (fsSet digest encoded fails now k e s) \<le> fs_maxBytes s"
    and "0 < ttl e \<Longrightarrow> entrySize e \<le> fs_maxBytes s \<Longrightarrow> \<not> fails k \<Longrightarrow> fs_bytes (fsSet digest encoded fails now k e s) \<le> fs_maxBytes s"
proof -
  note ev = evict_ok[OF written_ok(1)[OF assms, of now k e encoded], of now] and wr = written_ok(2,3)[OF assms, of now k e encoded]
  consider "fsSet digest encoded fails now k e s = s" "ttl e \<le> 0 \<or> fails k" | "fsSet digest encoded fails now k e s = s\<lparr>fs_oversized := fs_oversized s + 1\<rparr>" "fs_maxBytes s < entrySize e"
    | "fsSet digest encoded fails now k e s = fsStore now k e (filenameForKey digest k) (entrySize e) (fsWriteFile digest encoded k e s)"
    using fsSet_cases[of digest encoded fails now k e s] by blast
  note cs = this
  show "fsInv digest (fsSet digest encoded fails now k e s) \<and> fsHolds (fsSet digest encoded fails now k e s) \<subseteq>\<^sub>m (fsHolds s)(k \<mapsto> e)
    \<or> fsInv digest (fsSet digest encoded fails now k e s) \<and> fsHolds (fsSet digest encoded fails now k e s) = fsHolds s"
    and "fs_maxBytes (fsSet digest encoded fails now k e s) = fs_maxBytes s"
    using cs by (cases; use assms ev wr in \<open>simp add: fsStore_def Let_def\<close>)+
  show "fs_bytes s \<le> fs_maxBytes s \<Longrightarrow> fs_bytes (fsSet digest encoded fails now k e s) \<le> fs_maxBytes s"
    using cs by (cases; use assms ev wr in \<open>simp add: fsStore_def Let_def\<close>)
  show "0 < ttl e \<Longrightarrow> entrySize e \<le> fs_maxBytes s \<Longrightarrow> \<not> fails k \<Longrightarrow> fs_bytes (fsSet digest encoded fails now k e s) \<le> fs_maxBytes s"
    using cs by (cases; use assms ev wr in \<open>simp add: fsStore_def Let_def\<close>)
qed

lemma fsGet_ok:
  assumes "fsInv digest s"
  shows "fsInv digest (snd (fsGet now k s))" and "fsHolds (snd (fsGet now k s)) \<subseteq>\<^sub>m fsHolds s"
    and "fst (fsGet now k s) = (case fs_records s k of Some r \<Rightarrow> if fr_expires r < now then None else fsHolds s k | None \<Rightarrow> None)"
    and "fs_maxBytes (snd (fsGet now k s)) = fs_maxBytes s" and "fs_bytes (snd (fsGet now k s)) \<le> fs_bytes s"
proof -
  have "fsInv digest (snd (fsGet now k s)) \<and> fsHolds (snd (fsGet now k s)) \<subseteq>\<^sub>m fsHolds s
    \<and> fst (fsGet now k s) = (case fs_records s k of Some r \<Rightarrow> if fr_expires r < now then None else fsHolds s k | None \<Rightarrow> None)
    \<and> fs_maxBytes (snd (fsGet now k s)) = fs_maxBytes s \<and> fs_bytes (snd (fsGet now k s)) \<le> fs_bytes s"
  proof (cases "fs_records s k")
    case None
    then show ?thesis using assms by (simp add: fsGet_def)
  next
    case (Some r)
    have ix: "fsIndexOk s" and fl: "fsFilesOk digest s" and orp: "noOrphans {} s" using assms by (auto simp: fsInv_def)
    have r: "r \<in> set (fs_order s)" "fr_key r = k" using record_iff[OF ix] Some by blast+
    show ?thesis
    proof (cases "fr_expires r < now")
      case True
      then show ?thesis using removeFile_ok[OF assms r(1)] Some map_le_drop[of "fsHolds s" k] r(2) by (simp add: fsGet_def)
    next
      case False
      let ?s = "s\<lparr>fs_order := r # remove1 r (fs_order s)\<rparr>"
      note front = front_ok[OF ix r(1)]
      have "set (fs_order ?s) = set (fs_order s)" using front(2) by simp
      then have "fsInv digest ?s" using front(1) fl orp unfolding fsInv_def fsFilesOk_def noOrphans_def by simp
      moreover have "fsHolds ?s = fsHolds s" by (rule ext) (simp add: fsHolds_def readEnvelope_def split: option.split)
      moreover obtain e where e: "readEnvelope s (fr_filename r) = Some (fr_key r, e)" using fl r(1) by (auto simp: fsFilesOk_def recordFile_def readEnvelope_def)
      moreover have "readEnvelope ?s n = readEnvelope s n" for n by (simp add: readEnvelope_def)
      ultimately show ?thesis using Some False by (simp add: fsGet_def Let_def fsHolds_def)
    qed
  qed
  then show "fsInv digest (snd (fsGet now k s))" and "fsHolds (snd (fsGet now k s)) \<subseteq>\<^sub>m fsHolds s"
    and "fst (fsGet now k s) = (case fs_records s k of Some r \<Rightarrow> if fr_expires r < now then None else fsHolds s k | None \<Rightarrow> None)"
    and "fs_maxBytes (snd (fsGet now k s)) = fs_maxBytes s" and "fs_bytes (snd (fsGet now k s)) \<le> fs_bytes s" by blast+
qed

definition filePurgeMatches :: "string \<Rightarrow> string \<Rightarrow> fileCacheRecord \<Rightarrow> bool" where
  "filePurgeMatches svc prefix r \<longleftrightarrow> fr_service r = svc \<and> hasPrefix (fr_path r) prefix"

lemma filePurge_loop:
  assumes "fsInv digest s" and "fs_order s = seen @ todo"
  shows "case fold (\<lambda>r (purged, s). if filePurgeMatches svc prefix r then (purged + 1, fsRemoveElement r s) else (purged, s)) todo (n, s)
    of (m, s') \<Rightarrow> fsInv digest s' \<and> fsHolds s' \<subseteq>\<^sub>m fsHolds s \<and> fs_maxBytes s' = fs_maxBytes s \<and> fs_bytes s' \<le> fs_bytes s
       \<and> fs_order s' = seen @ filter (\<lambda>r. \<not> filePurgeMatches svc prefix r) todo \<and> m = n + length (filter (filePurgeMatches svc prefix) todo)"
  using assms
proof (induction todo arbitrary: seen n s)
  case (Cons r todo)
  show ?case
  proof (cases "filePurgeMatches svc prefix r")
    case False
    then show ?thesis using Cons.IH[of s "seen @ [r]" n] Cons.prems by simp
  next
    case True
    have mem: "r \<in> set (fs_order s)" using Cons.prems(2) by simp
    note rem = removeFile_ok[OF Cons.prems(1) mem]
    have "distinct (map fr_key (fs_order s))" using Cons.prems(1) by (simp add: fsInv_def fsIndexOk_def)
    then have "r \<notin> set seen" using Cons.prems(2) by auto
    then have ord: "fs_order (fsRemoveElement r s) = seen @ todo" using rem(3) Cons.prems(2) by (simp add: remove1_append)
    have "fsHolds (fsRemoveElement r s) \<subseteq>\<^sub>m fsHolds s" using rem(2) map_le_drop by simp
    then show ?thesis using Cons.IH[OF rem(1) ord, of "n + 1"] True rem(4,5)
      by (auto intro: map_le_trans split: prod.splits)
  qed
qed simp

lemma fsPurge_ok:
  assumes "fsInv digest s"
  shows "fsInv digest (snd (fsPurge svc prefix s))" and "fsHolds (snd (fsPurge svc prefix s)) \<subseteq>\<^sub>m fsHolds s"
    and "fs_maxBytes (snd (fsPurge svc prefix s)) = fs_maxBytes s" and "fs_bytes (snd (fsPurge svc prefix s)) \<le> fs_bytes s"
    and "fs_order (snd (fsPurge svc prefix s)) = filter (\<lambda>r. \<not> filePurgeMatches svc prefix r) (fs_order s)"
  using filePurge_loop[OF assms, of "[]" "fs_order s" svc prefix 0]
  by (simp_all add: fsPurge_def filePurgeMatches_def split: prod.splits)

lemma fsPurge_removes:
  assumes "fsInv digest s" and "fsHolds (snd (fsPurge svc prefix s)) k = Some e"
  shows "\<not> (ce_service e = svc \<and> hasPrefix (ce_path e) prefix)"
proof -
  let ?s = "snd (fsPurge svc prefix s)"
  have ix: "fsIndexOk ?s" and fl: "fsFilesOk digest ?s" using fsPurge_ok(1)[OF assms(1)] by (auto simp: fsInv_def)
  obtain r f where r: "r \<in> set (fs_order ?s)" "fr_key r = k" "map_of (fs_files ?s) (filenameForKey digest k) = Some f" "cf_envelope f = Some (k, e)"
    using assms(2) unfolding holds_iff[OF ix fl] by blast
  then have "ce_service e = fr_service r \<and> ce_path e = fr_path r" using fl by (auto simp: fsFilesOk_def recordFile_def)
  moreover have "\<not> filePurgeMatches svc prefix r" using r(1) fsPurge_ok(5)[OF assms(1)] by simp
  ultimately show ?thesis by (simp add: filePurgeMatches_def)
qed

section \<open>Opening a directory\<close>

text \<open>An entry file that can be decoded is under the name of its key.\<close>

definition dirOk :: "(string \<Rightarrow> string) \<Rightarrow> (string \<times> cacheFile) list \<Rightarrow> bool" where
  "dirOk digest files \<longleftrightarrow> inj digest \<and> distinct (map fst files)
     \<and> (\<forall>(name, f) \<in> set files. \<forall>k e. hasSuffix name ''.entry'' \<longrightarrow> cf_envelope f = Some (k, e) \<longrightarrow> name = filenameForKey digest k)"

definition keptFile :: "time \<Rightarrow> string \<times> cacheFile \<Rightarrow> bool" where
  "keptFile now = (\<lambda>(name, f). hasSuffix name ''.entry'' \<longrightarrow> (case cf_envelope f of Some (k, e) \<Rightarrow> servable e now | None \<Rightarrow> False))"

definition restoredKeys :: "time \<Rightarrow> (string \<times> cacheFile) list \<Rightarrow> string set" where
  "restoredKeys now files = {k. \<exists>name f e. (name, f) \<in> set files \<and> hasSuffix name ''.entry'' \<and> cf_envelope f = Some (k, e) \<and> servable e now}"

definition reopened :: "(string \<Rightarrow> string) \<Rightarrow> time \<Rightarrow> (string \<times> cacheFile) list \<Rightarrow> (string \<times> cacheFile) list \<Rightarrow> (string \<times> cacheFile) list \<Rightarrow> fileCacheStore \<Rightarrow> bool" where
  "reopened digest now files seen todo s \<longleftrightarrow> fsIndexOk s \<and> fsFilesOk digest s \<and> noOrphans (fst ` set todo) s
     \<and> fr_key ` set (fs_order s) = restoredKeys now seen \<and> fs_files s = filter (\<lambda>x. x \<notin> set seen \<or> keptFile now x) files"

lemma entry_suffix [simp]: "hasSuffix (filenameForKey digest k) ''.entry''"
  by (simp add: filenameForKey_def hasSuffix_iff)

lemma delete_dropped:
  assumes "distinct (map fst files)" and "x \<in> set files" and "\<not> keptFile now x"
  shows "AList.delete (fst x) (filter (\<lambda>y. y \<notin> set seen \<or> keptFile now y) files) = filter (\<lambda>y. y \<notin> set (seen @ [x]) \<or> keptFile now y) files"
proof -
  have eq: "((y \<notin> set seen \<or> keptFile now y) \<and> fst y \<noteq> fst x) = (y \<notin> set (seen @ [x]) \<or> keptFile now y)" if "y \<in> set files" for y
  proof (cases "fst y = fst x")
    case True
    then have "y = x" using assms(1,2) that by (meson distinct_map inj_onD)
    then show ?thesis using assms(3) by simp
  qed auto
  show ?thesis unfolding AList.delete_eq filter_filter
  proof (rule filter_cong[OF refl])
    fix y
    assume "y \<in> set files"
    from eq[OF this] show "((y \<notin> set seen \<or> keptFile now y) \<and> (case y of (k', uu) \<Rightarrow> fst x \<noteq> k')) = (y \<notin> set (seen @ [x]) \<or> keptFile now y)"
      by (cases y) auto
  qed
qed

lemma reopen_step:
  assumes ok: "reopened digest now files seen (x # todo) s" and dir: "dirOk digest files" and x: "x \<in> set files" "x \<notin> set seen" and sub: "set seen \<subseteq> set files" "set todo \<subseteq> set files"
    and d: "x \<notin> set todo"
  shows "reopened digest now files (seen @ [x]) todo (fsRestore now x s)"
proof -
  obtain name f where xf: "x = (name, f)" by (cases x)
  have ix: "fsIndexOk s" and fl: "fsFilesOk digest s" and orp: "noOrphans (fst ` set (x # todo)) s" and keys: "fr_key ` set (fs_order s) = restoredKeys now seen"
    and files: "fs_files s = filter (\<lambda>y. y \<notin> set seen \<or> keptFile now y) files" using ok by (simp_all add: reopened_def)
  have uniq: "y \<in> set files \<Longrightarrow> fst y = fst x \<Longrightarrow> y = x" for y using dir x(1) unfolding dirOk_def by (meson distinct_map inj_onD)
  show ?thesis
  proof (cases "hasSuffix name ''.entry'' \<and> keptFile now x")
    case True
    then obtain k e where e: "cf_envelope f = Some (k, e)" "servable e now" by (auto simp: keptFile_def xf split: option.split_asm)
    have n: "name = filenameForKey digest k" using dir x(1) True e(1) unfolding dirOk_def xf by blast
    have new: "k \<notin> fr_key ` set (fs_order s)"
    proof
      assume "k \<in> fr_key ` set (fs_order s)"
      then obtain name' f' e' where y: "(name', f') \<in> set seen" "hasSuffix name' ''.entry''" "cf_envelope f' = Some (k, e')" unfolding keys restoredKeys_def by blast
      moreover have "(name', f') \<in> set files" using y(1) sub(1) by blast
      ultimately have "name' = name" using dir n unfolding dirOk_def by blast
      then show False using uniq[OF \<open>(name', f') \<in> set files\<close>] y(1) x(2) by (simp add: xf)
    qed
    have run: "fsRestore now x s = fsIndex now k e name (int (cf_size f)) s" using True e by (simp add: fsRestore_def xf)
    obtain r where i: "fsIndexOk (fsRestore now x s)" "fs_order (fsRestore now x s) = r # fs_order s" "fr_key r = k" "fr_service r = ce_service e" "fr_path r = ce_path e"
      "fr_filename r = name" "fs_files (fsRestore now x s) = fs_files s"
      using index_ok[OF ix new, of "int (cf_size f)" now e name] unfolding run by fastforce
    have "map_of (fs_files s) name = Some f"
    proof (rule map_of_is_SomeI)
      show "distinct (map fst (fs_files s))" using fl by (simp add: fsFilesOk_def)
      show "(name, f) \<in> set (fs_files s)" using x xf True by (simp add: files)
    qed
    then have "recordFile digest (fs_files s) r" using i e(1) n by (simp add: recordFile_def)
    then have "fsFilesOk digest (fsRestore now x s)" using fl unfolding fsFilesOk_def i(2,7) by auto
    moreover have "noOrphans (fst ` set todo) (fsRestore now x s)" using orp i(2,6,7) unfolding noOrphans_def by (auto simp: xf)
    moreover have "fr_key ` set (fs_order (fsRestore now x s)) = restoredKeys now (seen @ [x])" using i(2,3) keys True e by (auto simp: restoredKeys_def xf)
    moreover have "fs_files (fsRestore now x s) = filter (\<lambda>y. y \<notin> set (seen @ [x]) \<or> keptFile now y) files" using True i(7) files by (auto intro: filter_cong)
    ultimately show ?thesis using i(1) by (simp add: reopened_def)
  next
    case False
    have keys': "restoredKeys now (seen @ [x]) = restoredKeys now seen" using False by (auto simp: restoredKeys_def keptFile_def xf)
    show ?thesis
    proof (cases "hasSuffix name ''.entry''")
      case True
      then have run: "fsRestore now x s = s\<lparr>fs_files := AList.delete (fst x) (fs_files s)\<rparr>" using False by (auto simp: fsRestore_def keptFile_def xf split: option.split)
      have away: "fr_filename r \<noteq> name" if r: "r \<in> set (fs_order s)" for r
      proof
        assume at: "fr_filename r = name"
        have "fr_key r \<in> restoredKeys now seen" using keys r by blast
        then obtain name' f' e' where y: "(name', f') \<in> set seen" "hasSuffix name' ''.entry''" "cf_envelope f' = Some (fr_key r, e')"
          unfolding restoredKeys_def by blast
        moreover have "fr_filename r = filenameForKey digest (fr_key r)" using fl r by (simp add: fsFilesOk_def recordFile_def)
        moreover have "name' = filenameForKey digest (fr_key r)" using dir sub(1) y unfolding dirOk_def by blast
        ultimately have "fst (name', f') = fst x" using at by (simp add: xf)
        then show False using uniq[of "(name', f')"] sub(1) y(1) x(2) by auto
      qed
      have fl': "fsFilesOk digest (fsRestore now x s)" using fl away unfolding fsFilesOk_def run by (auto intro!: recordFile_delete simp: xf distinct_delete)
      have "noOrphans (fst ` set todo) (fsRestore now x s)"
        unfolding noOrphans_def
      proof (intro ballI impI)
        fix n
        assume n: "n \<in> fst ` set (fs_files (fsRestore now x s))" "hasSuffix n ''.entry''"
        then have "n \<in> fst ` set (fs_files s)" "n \<noteq> fst x" by (auto simp: run set_AList_delete)
        then have "n \<in> fst ` set (x # todo) \<union> fr_filename ` set (fs_order s)" using orp n(2) unfolding noOrphans_def by blast
        then show "n \<in> fst ` set todo \<union> fr_filename ` set (fs_order (fsRestore now x s))" using \<open>n \<noteq> fst x\<close> by (simp add: run)
      qed
      moreover have "fs_files (fsRestore now x s) = filter (\<lambda>y. y \<notin> set (seen @ [x]) \<or> keptFile now y) files"
      proof -
        have "fs_files (fsRestore now x s) = AList.delete (fst x) (filter (\<lambda>y. y \<notin> set seen \<or> keptFile now y) files)" unfolding run files[symmetric] by simp
        then show ?thesis using delete_dropped[of files x now seen] dir x(1) False True by (simp only: dirOk_def xf simp_thms)
      qed
      moreover have "fsIndexOk (fsRestore now x s)" using ix by (simp add: run fsIndexOk_def)
      ultimately show ?thesis using fl' keys keys' by (simp add: reopened_def run)
    next
      case no: False
      then have run: "fsRestore now x s = s" by (simp add: fsRestore_def xf)
      have "keptFile now x" using no by (simp add: keptFile_def xf)
      then have "fs_files s = filter (\<lambda>y. y \<notin> set (seen @ [x]) \<or> keptFile now y) files" using files by (auto intro: filter_cong)
      moreover have "noOrphans (fst ` set todo) s" using orp no unfolding noOrphans_def by (auto simp: xf)
      ultimately show ?thesis using ix fl keys keys' by (simp add: reopened_def run)
    qed
  qed
qed

lemma reopen_loop:
  assumes "reopened digest now files seen todo s" and "dirOk digest files" and "distinct (seen @ todo)" and "set (seen @ todo) \<subseteq> set files"
  shows "reopened digest now files (seen @ todo) [] (fold (fsRestore now) todo s)"
  using assms
proof (induction todo arbitrary: seen s)
  case (Cons x todo)
  have "reopened digest now files (seen @ [x]) todo (fsRestore now x s)" by (rule reopen_step[OF Cons.prems(1,2)]) (use Cons.prems(3,4) in auto)
  from Cons.IH[OF this Cons.prems(2)] show ?case using Cons.prems(3,4) by simp
qed simp

lemma reopen_ok:
  assumes "dirOk digest files"
  shows "fsInv digest (newFileCacheStore now m files)"
    and "fsHolds (newFileCacheStore now m files) k = Some e \<longleftrightarrow>
      servable e now \<and> (\<exists>f. map_of files (filenameForKey digest k) = Some f \<and> cf_envelope f = Some (k, e))"
proof -
  let ?s = "newFileCacheStore now m files" and ?names = "sort_key fst files"
  let ?init = "\<lparr>fs_maxBytes = (if m \<le> 0 then 256 * 1048576 else m), fs_records = Map.empty, fs_order = [], fs_bytes = 0, fs_services = Map.empty,
        fs_evictedFresh = 0, fs_evictedStale = 0, fs_oversized = 0, fs_files = files\<rparr>"
  have "distinct files" using assms by (simp add: dirOk_def distinct_map)
  moreover have s0: "reopened digest now files [] ?names ?init"
    using assms by (auto simp: reopened_def fsIndexOk_def fsFilesOk_def noOrphans_def dirOk_def restoredKeys_def fileUsage_def)
  ultimately have "reopened digest now files ?names [] (fold (fsRestore now) ?names ?init)" using reopen_loop[OF s0 assms] by simp
  then have r: "reopened digest now files ?names [] ?s" by (simp only: newFileCacheStore_def)
  then have ix: "fsIndexOk ?s" and fl: "fsFilesOk digest ?s" and keys: "fr_key ` set (fs_order ?s) = restoredKeys now files" and fs: "fs_files ?s = filter (keptFile now) files"
    by (simp_all add: reopened_def restoredKeys_def cong: filter_cong)
  show "fsInv digest ?s" using r by (simp add: fsInv_def reopened_def)
  have d: "distinct (map fst files)" "distinct (map fst (fs_files ?s))" using assms fs by (simp_all add: dirOk_def distinct_map_filter)
  show "fsHolds ?s k = Some e \<longleftrightarrow> servable e now \<and> (\<exists>f. map_of files (filenameForKey digest k) = Some f \<and> cf_envelope f = Some (k, e))"
  proof
    assume "fsHolds ?s k = Some e"
    then obtain f where f: "map_of (fs_files ?s) (filenameForKey digest k) = Some f" "cf_envelope f = Some (k, e)" unfolding holds_iff[OF ix fl] by blast
    then have "(filenameForKey digest k, f) \<in> set files" "keptFile now (filenameForKey digest k, f)" using map_of_SomeD[OF f(1)] fs by simp_all
    then show "servable e now \<and> (\<exists>f. map_of files (filenameForKey digest k) = Some f \<and> cf_envelope f = Some (k, e))" using f(2) d(1) by (auto simp: keptFile_def)
  next
    assume "servable e now \<and> (\<exists>f. map_of files (filenameForKey digest k) = Some f \<and> cf_envelope f = Some (k, e))"
    then obtain f where f: "servable e now" "(filenameForKey digest k, f) \<in> set files" "cf_envelope f = Some (k, e)" using map_of_SomeD by fast
    then have "(filenameForKey digest k, f) \<in> set (fs_files ?s)" using fs by (simp add: keptFile_def)
    then have "map_of (fs_files ?s) (filenameForKey digest k) = Some f" using d(2) by simp
    moreover have "k \<in> restoredKeys now files" unfolding restoredKeys_def using f entry_suffix by blast
    ultimately show "fsHolds ?s k = Some e" unfolding holds_iff[OF ix fl] keys using f(3) by blast
  qed
qed

lemma inv_dirOk:
  assumes "fsInv digest s"
  shows "dirOk digest (fs_files s)"
proof -
  have fl: "fsFilesOk digest s" and orp: "noOrphans {} s" using assms by (auto simp: fsInv_def)
  have "name = filenameForKey digest k" if f: "(name, f) \<in> set (fs_files s)" "hasSuffix name ''.entry''" "cf_envelope f = Some (k, e)" for name f k e
  proof -
    obtain r where r: "r \<in> set (fs_order s)" "name = fr_filename r" using orp f(1,2) unfolding noOrphans_def by force
    then have "recordFile digest (fs_files s) r" "map_of (fs_files s) name = Some f" using fl f(1) by (simp_all add: fsFilesOk_def)
    then show ?thesis using r(2) f(3) by (auto simp: recordFile_def)
  qed
  then show ?thesis using fl unfolding dirOk_def fsFilesOk_def by blast
qed

section \<open>The store over a run\<close>

fun fsCall :: "(string \<Rightarrow> string) \<Rightarrow> (string \<Rightarrow> cacheEntry \<Rightarrow> nat) \<Rightarrow> (string \<Rightarrow> bool) \<Rightarrow> storeCall \<Rightarrow> fileCacheStore \<Rightarrow> fileCacheStore" where
  "fsCall digest encoded fails (SGet now k) s = snd (fsGet now k s)"
| "fsCall digest encoded fails (SSet now k e) s = fsSet digest encoded fails now k e s"
| "fsCall digest encoded fails (SPurge svc p) s = snd (fsPurge svc p s)"
| "fsCall digest encoded fails SClose s = s"

text \<open>A run from a directory, the calls one after another; a closed store is not called again, so that closing ends the run.\<close>

definition callsOf :: "storeCall list \<Rightarrow> storeCall list" where
  "callsOf calls = takeWhile (\<lambda>c. c \<noteq> SClose) calls"

definition fsRun :: "(string \<Rightarrow> string) \<Rightarrow> (string \<Rightarrow> cacheEntry \<Rightarrow> nat) \<Rightarrow> (string \<Rightarrow> bool) \<Rightarrow> storeCall list \<Rightarrow> fileCacheStore \<Rightarrow> fileCacheStore" where
  "fsRun digest encoded fails calls s = fold (fsCall digest encoded fails) (callsOf calls) s"

text \<open>A call that stores an entry.\<close>

fun stores :: "(string \<Rightarrow> bool) \<Rightarrow> int \<Rightarrow> storeCall \<Rightarrow> bool" where
  "stores fails m (SSet now k e) \<longleftrightarrow> 0 < ttl e \<and> entrySize e \<le> m \<and> \<not> fails k"
| "stores fails m _ \<longleftrightarrow> False"

lemma fsCall_ok:
  assumes "fsInv digest s"
  shows "fsInv digest (fsCall digest encoded fails c s)" and "fs_maxBytes (fsCall digest encoded fails c s) = fs_maxBytes s"
    and "fs_bytes s \<le> fs_maxBytes s \<Longrightarrow> fs_bytes (fsCall digest encoded fails c s) \<le> fs_maxBytes s"
proof -
  have "fsInv digest (fsSet digest encoded fails now k e s)" for now k e using fsSet_ok(1)[OF assms] by blast
  then show "fsInv digest (fsCall digest encoded fails c s)" using assms fsGet_ok(1)[OF assms] fsPurge_ok(1)[OF assms] by (cases c) auto
  show "fs_maxBytes (fsCall digest encoded fails c s) = fs_maxBytes s" using fsGet_ok(4)[OF assms] fsSet_ok(2)[OF assms] fsPurge_ok(3)[OF assms] by (cases c) auto
  show "fs_bytes (fsCall digest encoded fails c s) \<le> fs_maxBytes s" if "fs_bytes s \<le> fs_maxBytes s"
    using that fsGet_ok(5)[OF assms] fsSet_ok(3)[OF assms] fsPurge_ok(4)[OF assms] order_trans[OF _ that] by (cases c) auto
qed

lemma fsCall_stores: "fsInv digest s \<Longrightarrow> stores fails (fs_maxBytes s) c \<Longrightarrow> fs_bytes (fsCall digest encoded fails c s) \<le> fs_maxBytes s"
  using fsSet_ok(4) by (cases c) auto

lemma fsRun_ok:
  assumes "fsInv digest s"
  shows "fsInv digest (fsRun digest encoded fails calls s)" and "fs_maxBytes (fsRun digest encoded fails calls s) = fs_maxBytes s"
    and "fs_bytes s \<le> fs_maxBytes s \<or> list_ex (stores fails (fs_maxBytes s)) (callsOf calls) \<Longrightarrow> fs_bytes (fsRun digest encoded fails calls s) \<le> fs_maxBytes s"
proof -
  have "fsInv digest (fold (fsCall digest encoded fails) cs s) \<and> fs_maxBytes (fold (fsCall digest encoded fails) cs s) = fs_maxBytes s
      \<and> (fs_bytes s \<le> fs_maxBytes s \<or> list_ex (stores fails (fs_maxBytes s)) cs \<longrightarrow> fs_bytes (fold (fsCall digest encoded fails) cs s) \<le> fs_maxBytes s)"
    if "fsInv digest s" for cs s
    using that
  proof (induction cs arbitrary: s)
    case (Cons c cs)
    note ok = fsCall_ok[OF Cons.prems, of encoded fails c] and st = fsCall_stores[OF Cons.prems, of fails c encoded]
    from Cons.IH[OF ok(1)] show ?case unfolding ok(2) using ok(3) st by auto
  qed simp
  from this[OF assms] show "fsInv digest (fsRun digest encoded fails calls s)" "fs_maxBytes (fsRun digest encoded fails calls s) = fs_maxBytes s"
    "fs_bytes s \<le> fs_maxBytes s \<or> list_ex (stores fails (fs_maxBytes s)) (callsOf calls) \<Longrightarrow> fs_bytes (fsRun digest encoded fails calls s) \<le> fs_maxBytes s"
    unfolding fsRun_def by blast+
qed

lemma restore_maxBytes: "fs_maxBytes (fold (fsRestore now) files s) = fs_maxBytes s"
  by (induction files arbitrary: s) (auto simp: fsRestore_def fsIndex_def Let_def split: option.split)

lemma new_maxBytes: "0 < m \<Longrightarrow> fs_maxBytes (newFileCacheStore now m files) = m"
  by (simp add: newFileCacheStore_def restore_maxBytes)

text \<open>Only the keys in use matter for the digest: where it separates those, an injective function has the same values.\<close>

lemma inj_extension:
  fixes f :: "string \<Rightarrow> string"
  assumes "inj_on f K" and "finite K"
  shows "\<exists>g. inj g \<and> (\<forall>k \<in> K. g k = f k)"
proof -
  let ?A = "- K" and ?B = "- (f ` K)"
  have inf: "infinite ?A" "infinite ?B" using assms(2) infinite_UNIV_listI[where ?'a = char] by (metis Diff_infinite_finite Compl_eq_Diff_UNIV finite_imageI)+
  have "bij_betw (from_nat_into ?B \<circ> to_nat_on ?A) ?A ?B"
    by (rule bij_betw_trans[OF to_nat_on_infinite bij_betw_from_nat_into]) (simp_all add: inf)
  then have h: "inj_on (from_nat_into ?B \<circ> to_nat_on ?A) ?A" "(from_nat_into ?B \<circ> to_nat_on ?A) ` ?A \<subseteq> ?B" by (auto simp: bij_betw_def)
  let ?g = "\<lambda>k. if k \<in> K then f k else (from_nat_into ?B \<circ> to_nat_on ?A) k"
  have "inj_on ?g (K \<union> ?A)" by (rule inj_on_disjoint_Un) (use assms(1) h in \<open>auto simp: comp_def\<close>)
  then have "inj ?g" by simp
  moreover have "\<forall>k \<in> K. ?g k = f k" by simp
  ultimately show ?thesis by (intro exI[of _ ?g]) blast
qed

definition fileKeys :: "(string \<times> cacheFile) list \<Rightarrow> string list" where
  "fileKeys files = map fst (List.map_filter (\<lambda>(_, f). cf_envelope f) files)"

definition callKeys :: "storeCall list \<Rightarrow> string list" where
  "callKeys calls = List.map_filter (\<lambda>c. case c of SSet _ k _ \<Rightarrow> Some k | _ \<Rightarrow> None) calls"

text \<open>A directory as a store leaves it, for keys its digest tells apart: an entry file that can be decoded has the name of the key in it.\<close>

definition storeDir :: "(string \<Rightarrow> string) \<Rightarrow> string list \<Rightarrow> (string \<times> cacheFile) list \<Rightarrow> bool" where
  "storeDir digest keys files \<longleftrightarrow> inj_on digest (set (fileKeys files @ keys)) \<and> distinct (map fst files)
     \<and> (\<forall>(name, f) \<in> set files. hasSuffix name ''.entry'' \<longrightarrow> (case cf_envelope f of Some (k, e) \<Rightarrow> name = filenameForKey digest k | None \<Rightarrow> True))"

lemma storeDir_dirOk:
  assumes "storeDir digest keys files"
  shows "\<exists>digest'. dirOk digest' files \<and> (\<forall>k \<in> set keys. digest' k = digest k)"
proof -
  obtain digest' where d: "inj digest'" "\<forall>k \<in> set (fileKeys files @ keys). digest' k = digest k"
    using inj_extension[of digest "set (fileKeys files @ keys)"] assms by (auto simp: storeDir_def)
  have "k \<in> set (fileKeys files)" if "(name, f) \<in> set files" "cf_envelope f = Some (k, e)" for name f k e
    using that by (force simp: fileKeys_def map_filter_def)
  then have "dirOk digest' files" using assms d by (fastforce simp: dirOk_def storeDir_def filenameForKey_def)
  then show ?thesis using d(2) by auto
qed

lemma fsRun_digest:
  assumes "\<forall>k \<in> set (callKeys calls). digest' k = digest k"
  shows "fsRun digest encoded fails calls s = fsRun digest' encoded fails calls s"
proof -
  have "fsCall digest encoded fails c s = fsCall digest' encoded fails c s" if "c \<in> set (callsOf calls)" for c s
  proof (cases c)
    case (SSet now k e)
    then have "k \<in> set (callKeys calls)" using that by (force simp: callKeys_def map_filter_def callsOf_def dest: set_takeWhileD)
    then have "filenameForKey digest' k = filenameForKey digest k" using assms by (simp add: filenameForKey_def)
    then show ?thesis by (simp add: SSet fsSet_def fsWriteFile_def)
  qed simp_all
  then show ?thesis unfolding fsRun_def by (intro fold_cong) auto
qed


section \<open>The interface\<close>

interpretation disk: cache_store "fileOps digest encoded fails" "fsInv digest" fsHolds
  for digest encoded fails
proof unfold_locales
  fix s :: fileCacheStore and now k e svc prefix
  assume inv: "fsInv digest s"
  let ?ops = "fileOps digest encoded fails"
  show "fsInv digest (snd (so_get ?ops now k s))" "fsHolds (snd (so_get ?ops now k s)) \<subseteq>\<^sub>m fsHolds s" using fsGet_ok(1,2)[OF inv] by (simp_all add: fileOps_def)
  show "fst (so_get ?ops now k s) = Some e \<Longrightarrow> fsHolds s k = Some e" using fsGet_ok(3)[OF inv, of now k] by (simp add: fileOps_def split: option.split_asm if_split_asm)
  show "fsInv digest (so_set ?ops now k e s)" using fsSet_ok(1)[OF inv, of encoded fails now k e] by (auto simp: fileOps_def)
  show "k' = k \<and> x = e \<or> fsHolds s k' = Some x" if h: "fsHolds (so_set ?ops now k e s) k' = Some x" for k' x
  proof -
    have "fsHolds (so_set ?ops now k e s) \<subseteq>\<^sub>m (fsHolds s)(k \<mapsto> e) \<or> fsHolds (so_set ?ops now k e s) = fsHolds s" using fsSet_ok(1)[OF inv, of encoded fails now k e] by (simp add: fileOps_def) blast
    then have "((fsHolds s)(k \<mapsto> e)) k' = Some x \<or> fsHolds s k' = Some x" using h by (metis domI map_le_def)
    then show ?thesis by (auto split: if_split_asm)
  qed
  show "fsInv digest (snd (so_purge ?ops svc prefix s))" "fsHolds (snd (so_purge ?ops svc prefix s)) \<subseteq>\<^sub>m fsHolds s" using fsPurge_ok(1,2)[OF inv] by (simp_all add: fileOps_def)
  show "fsHolds (snd (so_purge ?ops svc prefix s)) k = Some e \<Longrightarrow> \<not> (ce_service e = svc \<and> hasPrefix (ce_path e) prefix)" using fsPurge_removes[OF inv] by (simp add: fileOps_def)
qed

text \<open>So what holds of the cache over any store holds over this one: its answers are meant for the client, and fresh or inside the stale window.\<close>

lemma file_cache_answers:
  assumes "rtranclp (cacheStep (fileOps name encoded fails) digest pf cfg) (cacheInit (newFileCacheStore start m [])) st"
    and "hexDigest digest" and "inj name" and "rp \<in> set (cs_replies st)"
  shows "(\<exists>og \<in> set (cs_origins st). sameContent (rp_entry rp) (og_entry og)
      \<and> originPrimary digest pf cfg og = primaryFor digest pf (cfg (rp_middleware rp)) (rp_request rp)
      \<and> (digestSeparates digest pf (originPrimary digest pf cfg og) (ce_varyOn (rp_entry rp)) (rp_request rp) (og_request og)
           \<longrightarrow> negotiatedAlike pf rp og))
    \<and> clientAcceptsEncoding pf (rp_request rp) (hget (ce_header (rp_entry rp)) ''Content-Encoding'')
    \<and> (rp_answer rp = Hit \<longrightarrow> fresh (rp_entry rp) (rp_time rp))
    \<and> (rp_answer rp = Stale \<longrightarrow> needsRevalidation (rp_entry rp) (rp_time rp))"
proof (rule replyOk_answers[OF assms(2)])
  have dir: "dirOk name []" using assms(3) by (simp add: dirOk_def)
  have "fsHolds (newFileCacheStore start m []) k = None" for k
    using reopen_ok(2)[OF dir, of start m k] by (metis map_of.simps(1) not_Some_eq)
  then show "replyOk digest pf cfg (set (cs_origins st)) rp" using disk.replies_ok[OF assms(1,2) reopen_ok(1)[OF dir] _ assms(4)] by blast
qed

section \<open>Witnesses and shortcomings\<close>


text \<open>
  A reopened store counts an entry's whole lifetime from the moment of the restart: it goes on answering with the entry, and charging it to the budget, when the store that
  wrote it would have dropped it. The middleware checks the age again, so that the client is not served with it.
\<close>

lemma reopened_store_answers_late:
  "let s = fsSet (\<lambda>k. k) (\<lambda>_ _. 5) (\<lambda>_. False) 0 ''k'' sampleEntry (newFileCacheStore 0 10000 []);
       s' = newFileCacheStore (79 * second) 10000 (fs_files s)
   in fst (fsGet (150 * second) ''k'' s) = None \<and> fst (fsGet (150 * second) ''k'' s') = Some sampleEntry \<and> \<not> servable sampleEntry (150 * second)"
  by code_simp

text \<open>Nor does it enforce the budget: files count with the size they have on disk, which is not the size they were admitted with.\<close>

lemma reopened_store_over_budget:
  "let s = fsSet (\<lambda>k. k) (\<lambda>_ _. 1000) (\<lambda>_. False) 0 ''k'' sampleEntry (newFileCacheStore 0 600 [])
   in fs_bytes s \<le> 600 \<and> fs_bytes (newFileCacheStore second 600 (fs_files s)) = 1000"
  by code_simp

end
