(* ===== verification/Cert_Renewer.thy ===== *)
theory Cert_Renewer
  imports Cert_Manager
begin

text \<open>
  The background renewer of \<open>domain_renewal.go\<close>. The renewer and the manager share one quarantine; it is the manager's here. The CA's answer to an
  order, the renewal information it publishes and the leaf certificate's start of validity are inputs. What the renewer submits is kept as a log of orders.
\<close>

section \<open>When to renew\<close>

definition fallbackCertLifetime :: duration where
  "fallbackCertLifetime = 90 * 24 * hour"

definition renewalJitterMax :: duration where
  "renewalJitterMax = 6 * hour"

definition quarantineCompactionWindow :: duration where
  "quarantineCompactionWindow = 7 * 24 * hour"

definition registeredQuarantineCompactionWindow :: duration where
  "registeredQuarantineCompactionWindow = 14 * 24 * hour"

text \<open>FNV-1a on 64 bits; the jitter is its remainder.\<close>

definition fnv64a :: "string \<Rightarrow> 64 word" where
  "fnv64a s = fold (\<lambda>c h. xor h (word_of_nat (of_char c)) * 1099511628211) s 14695981039346656037"

definition certJitter :: "string \<Rightarrow> duration" where
  "certJitter c = uint (fnv64a c) mod renewalJitterMax"

text \<open>\<open>- lifetime / 3\<close> with Go's division, which rounds towards zero.\<close>

definition minusThird :: "duration \<Rightarrow> duration" where
  "minusThird lifetime = (if 0 \<le> lifetime then - (lifetime div 3) else (- lifetime) div 3)"

text \<open>\<open>leaf\<close> is the start of validity of a parsed leaf, \<open>ari\<close> what the CA's renewal information says of the moment, when it answers.\<close>

definition renewalThreshold :: "time option \<Rightarrow> 'k managedCert \<Rightarrow> time" where
  "renewalThreshold leaf cert =
     (let lifetime = (case leaf of Some notBefore \<Rightarrow> mc_notAfter cert - notBefore | None \<Rightarrow> fallbackCertLifetime)
      in mc_notAfter cert + minusThird lifetime + certJitter (mc_identifier cert))"

definition shouldRenew :: "time \<Rightarrow> time option \<Rightarrow> bool option \<Rightarrow> 'k managedCert \<Rightarrow> bool" where
  "shouldRenew now leaf ari cert =
     (case (leaf, ari) of (Some _, Some suggested) \<Rightarrow> suggested | _ \<Rightarrow> \<not> now < renewalThreshold leaf cert)"

section \<open>What to renew\<close>

definition certIDForDomain :: "('k, 'o) certManager \<Rightarrow> string \<Rightarrow> string" where
  "certIDForDomain m domain = lookupStr (cm_domainToCert m) domain"

definition renewableDomains :: "('k, 'o) certManager \<Rightarrow> 'k managedCert \<Rightarrow> string list" where
  "renewableDomains m cert = filter (\<lambda>d. domainAllowed m d \<and> certIDForDomain m d = mc_identifier cert) (mc_domains cert)"

definition certStillServes :: "('k, 'o) certManager \<Rightarrow> 'k managedCert \<Rightarrow> bool" where
  "certStillServes m cert \<longleftrightarrow> list_ex (\<lambda>d. certIDForDomain m d = mc_identifier cert) (mc_domains cert)"

definition retireCertificate :: "time \<Rightarrow> 'k managedCert \<Rightarrow> ('k, 'o) certManager \<Rightarrow> ('k, 'o) certManager" where
  "retireCertificate now cert m = (if certStillServes m cert \<and> now < mc_notAfter cert then m else removeCertificate (mc_identifier cert) m)"

definition compactionWindowFor :: "('k, 'o) certManager \<Rightarrow> string list \<Rightarrow> duration" where
  "compactionWindowFor m domains = (if list_ex (coversRegisteredDomain m) domains then registeredQuarantineCompactionWindow else quarantineCompactionWindow)"

definition holds :: "('k, 'o) certManager \<Rightarrow> domainQuarantine" where
  "holds m = (case cm_quarantine m of Some q \<Rightarrow> q | None \<Rightarrow> [])"

definition holdFor :: "time \<Rightarrow> quarantineKind \<Rightarrow> string list \<Rightarrow> ('k, 'o) certManager \<Rightarrow> ('k, 'o) certManager" where
  "holdFor now kind domains m = m\<lparr>cm_quarantine := Some (fold (\<lambda>d q. fst (recordFailure now q d kind)) domains (holds m))\<rparr>"

definition holdUntil :: "time \<Rightarrow> time \<Rightarrow> string list \<Rightarrow> ('k, 'o) certManager \<Rightarrow> ('k, 'o) certManager" where
  "holdUntil now retryAfter domains m = m\<lparr>cm_quarantine := Some (limitAll now retryAfter domains (holds m))\<rparr>"

definition isDynamic :: "('k, 'o) certManager \<Rightarrow> string \<Rightarrow> bool" where
  "isDynamic m d \<longleftrightarrow> d \<in> fst ` set (cm_dynamic m)"

definition preflightMembers :: "time \<Rightarrow> (string \<Rightarrow> bool) option \<Rightarrow> string list \<Rightarrow> ('k, 'o) certManager \<Rightarrow> string list \<times> ('k, 'o) certManager" where
  "preflightMembers now preflight domains m = (case preflight of
     None \<Rightarrow> ([], m)
   | Some fails \<Rightarrow>
       (let unreachable = probeDomains (filter (\<lambda>d. \<not> isWildcard d \<and> isDynamic m d) domains) preflight (Some (hasDNSProviderFor (cm_clients m)))
        in (unreachable, holdFor now QuarantinePreflight unreachable m)))"

definition dynamicServiceFor :: "('k, 'o) certManager \<Rightarrow> string list \<Rightarrow> string option" where
  "dynamicServiceFor m domains = map_option (\<lambda>d. lookupStr (cm_dynamic m) d) (find (isDynamic m) domains)"

text \<open>The hooks to the issuer: the batch size of a service and the queued names it hands over.\<close>

record topUp =
  tu_batchSize :: "string \<Rightarrow> int"
  tu_takePending :: "string \<Rightarrow> int \<Rightarrow> string list"

definition topUpBatch :: "time \<Rightarrow> (string \<Rightarrow> bool) option \<Rightarrow> topUp option \<Rightarrow> string list \<Rightarrow> ('k, 'o) certManager \<Rightarrow> string list \<times> string list \<times> ('k, 'o) certManager" where
  "topUpBatch now preflight hooks domains m = (case (hooks, dynamicServiceFor m domains) of
     (Some h, Some service) \<Rightarrow>
       if tu_batchSize h service \<le> 1 \<or> tu_batchSize h service \<le> int (length domains) then (domains, [], m)
       else (let taken = tu_takePending h service (tu_batchSize h service - int (length domains));
                 refused = filter (\<lambda>d. case preflight of Some fails \<Rightarrow> \<not> hasCertificate m d \<and> fails d | None \<Rightarrow> False) taken;
                 kept = filter (\<lambda>d. \<not> (case preflight of Some fails \<Rightarrow> \<not> hasCertificate m d \<and> fails d | None \<Rightarrow> False)) taken
             in (domains @ kept, kept, if refused = [] then m else holdFor now QuarantinePreflight refused m))
   | _ \<Rightarrow> (domains, [], m))"

section \<open>Orders\<close>

record renewalOrder =
  ro_directory :: string
  ro_domains :: "string list"
  ro_replaces :: bool
  ro_accepted :: bool

datatype 'k renewalAnswer = Throttled | Rejected acmeError | Aborted | Garbled | Renewed 'k time

definition handleRenewalFailure :: "time \<Rightarrow> (string \<Rightarrow> time option) \<Rightarrow> (string \<Rightarrow> bool) option \<Rightarrow> string list \<Rightarrow> acmeError \<Rightarrow> ('k, 'o) certManager \<Rightarrow>
    acmeRateLimit option \<times> ('k, 'o) certManager" where
  "handleRenewalFailure now retryTime preflight domains err m = (case parseRateLimited retryTime err of
     Some limit \<Rightarrow>
       (let named = rateLimitedDomains limit domains
        in if named = [] then (Some limit, holdUntil now (rl_retryAfter limit) domains m) else (None, holdUntil now (rl_retryAfter limit) named m))
   | None \<Rightarrow>
       (let probe = map_option (\<lambda>fails d. isDynamic m d \<and> fails d) preflight;
            failed = identifyFailedDomains err domains probe (Some (hasDNSProviderFor (cm_clients m)))
        in (None, holdFor now QuarantineACME failed m)))"

text \<open>\<open>renewPartition\<close>: the new certificate's identifier, whether the CA took the order, the account's limit, the manager.\<close>

definition renewPartition :: "time \<Rightarrow> (string \<Rightarrow> time option) \<Rightarrow> (string \<Rightarrow> bool) option \<Rightarrow> (string list \<Rightarrow> string) \<Rightarrow> 'k renewalAnswer \<Rightarrow> string list \<Rightarrow> string \<Rightarrow> ('k, 'o) certManager \<Rightarrow>
    string option \<times> bool \<times> acmeRateLimit option \<times> ('k, 'o) certManager" where
  "renewPartition now retryTime preflight certID answer domains directory m = (case answer of
     Throttled \<Rightarrow> (None, False, None, m)
   | Aborted \<Rightarrow> (None, False, None, m)
   | Rejected err \<Rightarrow> (case handleRenewalFailure now retryTime preflight domains err m of (limit, m') \<Rightarrow> (None, False, limit, m'))
   | Garbled \<Rightarrow> (None, True, None, m)
   | Renewed key notAfter \<Rightarrow>
       (Some (certID domains), True, None,
        (adoptCertificateAt certID key notAfter domains directory m)\<lparr>cm_quarantine := Some (fold (\<lambda>d q. clearHold q d) domains (holds m))\<rparr>))"

text \<open>The state of a renewal as its orders go out: the log, the new identifiers, whether every partition has a successor and whether the marker is spent.\<close>

record ('k, 'o) renewal =
  rn_manager :: "('k, 'o) certManager"
  rn_log :: "renewalOrder list"
  rn_new :: "string list"
  rn_renewedAll :: bool
  rn_ariConsumed :: bool

fun renewPartitions :: "time \<Rightarrow> (string \<Rightarrow> time option) \<Rightarrow> (string \<Rightarrow> bool) option \<Rightarrow> (string list \<Rightarrow> string) \<Rightarrow> (string \<Rightarrow> string list \<Rightarrow> 'k renewalAnswer) \<Rightarrow> bool \<Rightarrow> string \<Rightarrow> string \<Rightarrow>
    string list list \<Rightarrow> ('k, 'o) renewal \<Rightarrow> ('k, 'o) renewal" where
  "renewPartitions now rt pf certID ask replaces recorded directory [] s = s"
| "renewPartitions now rt pf certID ask replaces recorded directory (p # ps) s =
     (let marker = (replaces \<and> \<not> rn_ariConsumed s \<and> directory = recorded)
      in case renewPartition now rt pf certID (ask directory p) p directory (rn_manager s) of (renewed, accepted, limit, m) \<Rightarrow>
        let s1 = s\<lparr>rn_manager := m, rn_log := rn_log s @ [\<lparr>ro_directory = directory, ro_domains = p, ro_replaces = marker, ro_accepted = accepted\<rparr>],
                   rn_ariConsumed := rn_ariConsumed s \<or> (marker \<and> accepted)\<rparr>
        in case limit of
             Some l \<Rightarrow> s1\<lparr>rn_renewedAll := False, rn_manager := holdUntil now (rl_retryAfter l) (concat ps) (rn_manager s1)\<rparr>
           | None \<Rightarrow>
               (case renewed of
                  None \<Rightarrow> renewPartitions now rt pf certID ask replaces recorded directory ps (s1\<lparr>rn_renewedAll := False\<rparr>)
                | Some c \<Rightarrow> renewPartitions now rt pf certID ask replaces recorded directory ps (s1\<lparr>rn_new := rn_new s1 @ [c]\<rparr>)))"

fun renewDirectories :: "time \<Rightarrow> (string \<Rightarrow> time option) \<Rightarrow> (string \<Rightarrow> bool) option \<Rightarrow> (string list \<Rightarrow> string) \<Rightarrow> (string \<Rightarrow> string list \<Rightarrow> 'k renewalAnswer) \<Rightarrow> bool \<Rightarrow> string \<Rightarrow>
    (string \<times> string list) list \<Rightarrow> ('k, 'o) renewal \<Rightarrow> ('k, 'o) renewal" where
  "renewDirectories now rt pf certID ask replaces recorded [] s = s"
| "renewDirectories now rt pf certID ask replaces recorded ((directory, domains) # parts) s =
     renewDirectories now rt pf certID ask replaces recorded parts
       (renewPartitions now rt pf certID ask replaces recorded directory (splitByProviderZone (cm_clients (rn_manager s)) domains) s)"

text \<open>
  The members an order is placed for: \<open>Inl\<close> when the renewal waits for the blocked ones. The result lists the members with those topped up.
\<close>

definition renewMembers :: "time \<Rightarrow> (string \<Rightarrow> bool) option \<Rightarrow> topUp option \<Rightarrow> 'k managedCert \<Rightarrow> ('k, 'o) certManager \<Rightarrow>
    ('k, 'o) certManager + string list \<times> string list \<times> ('k, 'o) certManager" where
  "renewMembers now preflight hooks cert m =
     (let allowed = renewableDomains m cert;
          (free, held) = filterHeld now (holds m) allowed;
          window = compactionWindowFor m allowed;
          early = window < mc_notAfter cert - now
      in if free = [] then Inl m
         else if held \<noteq> [] \<and> early then Inl m
         else case preflightMembers now preflight free m of (unreachable, m1) \<Rightarrow>
           if unreachable \<noteq> [] \<and> early then Inl m1
           else (let domains = filter (\<lambda>d. d \<notin> set unreachable) free
                 in if domains = [] then Inl m1
                    else Inr (topUpBatch now preflight hooks domains m1)))"

definition renew :: "time \<Rightarrow> (string \<Rightarrow> time option) \<Rightarrow> (string \<Rightarrow> bool) option \<Rightarrow> topUp option \<Rightarrow> (string list \<Rightarrow> string) \<Rightarrow> (string \<Rightarrow> string list \<Rightarrow> 'k renewalAnswer) \<Rightarrow> bool \<Rightarrow>
    'k managedCert \<Rightarrow> ('k, 'o) certManager \<Rightarrow> bool \<times> renewalOrder list \<times> ('k, 'o) certManager" where
  "renew now rt preflight hooks certID ask haveARI cert m =
     (if renewableDomains m cert = [] then (False, [], m)
      else case renewMembers now preflight hooks cert m of
        Inl m1 \<Rightarrow> (True, [], m1)
      | Inr (domains0, toppedUp, m1) \<Rightarrow>
          (let domains1 = sort domains0;
               planned = planDynamicIssuance (cm_clients m1) (gr_preferWildcard (cm_grouper m1)) (isQuarantined now (holds m1)) domains1;
               replaces = (haveARI \<and> planned = domains1);
               s = renewDirectories now rt preflight certID ask replaces (normalizeDirectory m1 (mc_directory cert)) (splitByDesiredDirectory m1 cert planned)
                     \<lparr>rn_manager = m1, rn_log = [], rn_new = [], rn_renewedAll = True, rn_ariConsumed = False\<rparr>
           in (False, rn_log s,
               if rn_renewedAll s \<and> mc_identifier cert \<notin> set (rn_new s) then removeCertificate (mc_identifier cert) (rn_manager s) else rn_manager s)))"

text \<open>One pass over the certificates held when it starts; what ARI, the leaf and the CA say is asked per certificate.\<close>

definition reconcileOne :: "time \<Rightarrow> (string \<Rightarrow> time option) \<Rightarrow> (string \<Rightarrow> bool) option \<Rightarrow> topUp option \<Rightarrow> (string list \<Rightarrow> string) \<Rightarrow> (string \<Rightarrow> string list \<Rightarrow> 'k renewalAnswer) \<Rightarrow>
    ('k managedCert \<Rightarrow> time option) \<Rightarrow> ('k managedCert \<Rightarrow> bool option) \<Rightarrow> 'k managedCert \<Rightarrow> nat \<times> ('k, 'o) certManager \<Rightarrow> nat \<times> ('k, 'o) certManager" where
  "reconcileOne now rt preflight hooks certID ask leaf ari cert = (\<lambda>(deferred, m).
     if renewableDomains m cert = [] then (deferred, retireCertificate now cert m)
     else if certDirectoryMismatched m cert \<or> shouldRenew now (leaf cert) (ari cert) cert
     then (case renew now rt preflight hooks certID ask (leaf cert \<noteq> None) cert m of (waits, _, m') \<Rightarrow> (if waits then deferred + 1 else deferred, m'))
     else (deferred, m))"

definition reconcile :: "time \<Rightarrow> (string \<Rightarrow> time option) \<Rightarrow> (string \<Rightarrow> bool) option \<Rightarrow> topUp option \<Rightarrow> (string list \<Rightarrow> string) \<Rightarrow> (string \<Rightarrow> string list \<Rightarrow> 'k renewalAnswer) \<Rightarrow>
    ('k managedCert \<Rightarrow> time option) \<Rightarrow> ('k managedCert \<Rightarrow> bool option) \<Rightarrow> ('k, 'o) certManager \<Rightarrow> nat \<times> ('k, 'o) certManager" where
  "reconcile now rt preflight hooks certID ask leaf ari m = fold (reconcileOne now rt preflight hooks certID ask leaf ari) (map snd (cm_certificates m)) (0, m)"

section \<open>Renewal starts before expiry\<close>

lemma certJitter_bounds: "0 \<le> certJitter c" "certJitter c < renewalJitterMax"
  by (simp_all add: certJitter_def renewalJitterMax_def time_consts)

text \<open>The lifetime the fallback window is taken from: that of the parsed leaf, or the one assumed of a certificate whose leaf cannot be parsed.\<close>

definition assumedLifetime :: "time option \<Rightarrow> 'k managedCert \<Rightarrow> duration" where
  "assumedLifetime leaf cert = (case leaf of Some notBefore \<Rightarrow> mc_notAfter cert - notBefore | None \<Rightarrow> 90 * 24 * hour)"



text \<open>The bound of 18 hours is the right one: a certificate of twelve hours can fall due after it has expired.\<close>

lemma short_certificate_due_late:
  assumes "leaf = Some 0" and "mc_notAfter cert = 12 * hour" and "4 * hour < certJitter (mc_identifier cert)"
  shows "mc_notAfter cert < renewalThreshold leaf cert"
  using assms by (simp add: renewalThreshold_def minusThird_def time_consts)

section \<open>What an order does to the name map\<close>

lemma map_of_redirect:
  "map_of (map (\<lambda>(d, c). if P (d, c) then (d, k) else (d, c)) al) x = map_option (\<lambda>c. if P (x, c) then k else c) (map_of al x)"
  by (induction al) auto

lemma adoptWildcardCoverage_maps:
  "map_of (cm_domainToCert (adoptWildcardCoverage managed n)) x = map_of (cm_domainToCert n) x \<or>
   map_of (cm_domainToCert n) x \<noteq> None \<and> map_of (cm_domainToCert (adoptWildcardCoverage managed n)) x = Some (mc_identifier managed)"
proof -
  let ?f = "\<lambda>w m. m\<lparr>cm_domainToCert := map (\<lambda>(d, c). if takesOver m managed w (d, c) then (d, mc_identifier managed) else (d, c)) (cm_domainToCert m)\<rparr>"
  have "map_of (cm_domainToCert (fold ?f ws n)) x = map_of (cm_domainToCert n) x \<or>
     map_of (cm_domainToCert n) x \<noteq> None \<and> map_of (cm_domainToCert (fold ?f ws n)) x = Some (mc_identifier managed)" for ws
  proof (induction ws arbitrary: n)
    case (Cons w ws)
    have "map_of (cm_domainToCert (?f w n)) x = map_of (cm_domainToCert n) x \<or> map_of (cm_domainToCert n) x \<noteq> None \<and> map_of (cm_domainToCert (?f w n)) x = Some (mc_identifier managed)"
      by (cases "map_of (cm_domainToCert n) x") (simp_all add: map_of_redirect)
    then show ?case using Cons.IH[of "?f w n"] unfolding fold_simps by argo
  qed simp
  then show ?thesis unfolding adoptWildcardCoverage_def by blast
qed

lemma adopt_maps:
  assumes "storeOk certID m"
  shows "d \<in> set ds \<Longrightarrow> map_of (cm_domainToCert (adoptCertificateAt certID key t ds dir m)) d = Some (certID ds)"
    and "map_of (cm_domainToCert m) x = Some c \<Longrightarrow>
      map_of (cm_domainToCert (adoptCertificateAt certID key t ds dir m)) x = Some c \<or> map_of (cm_domainToCert (adoptCertificateAt certID key t ds dir m)) x = Some (certID ds)"
proof -
  let ?c = "\<lparr>mc_identifier = certID ds, mc_domains = ds, mc_notAfter = t, mc_certificate = Some key, mc_directory = dir\<rparr>"
  define m1 where "m1 = m\<lparr>cm_certificates := AList.update (certID ds) ?c (cm_certificates m), cm_domainToCert := fold (\<lambda>d. AList.update d (certID ds)) ds (cm_domainToCert m)\<rparr>"
  have adopt: "adoptCertificateAt certID key t ds dir m = adoptWildcardCoverage ?c m1" by (simp add: adoptCertificateAt_def Let_def m1_def)
  have f: "map_of (fold (\<lambda>d. AList.update d k) es al) x = (if x \<in> set es then Some k else map_of al x)" for es k x and al :: "(string \<times> string) list"
    by (induction es arbitrary: al) (auto simp: update_conv')
  have w: "map_of (cm_domainToCert (adoptWildcardCoverage ?c n)) x = map_of (cm_domainToCert n) x \<or>
      map_of (cm_domainToCert n) x \<noteq> None \<and> map_of (cm_domainToCert (adoptWildcardCoverage ?c n)) x = Some (certID ds)" for n x
    using adoptWildcardCoverage_maps[of ?c n x] by simp
  show "d \<in> set ds \<Longrightarrow> map_of (cm_domainToCert (adoptCertificateAt certID key t ds dir m)) d = Some (certID ds)"
    using w[of m1 d] unfolding adopt by (auto simp: m1_def f)
  show "map_of (cm_domainToCert m) x = Some c \<Longrightarrow>
      map_of (cm_domainToCert (adoptCertificateAt certID key t ds dir m)) x = Some c \<or> map_of (cm_domainToCert (adoptCertificateAt certID key t ds dir m)) x = Some (certID ds)"
    using w[of m1 x] unfolding adopt by (auto simp: m1_def f)
qed

section \<open>A renewal loses no name\<close>

text \<open>What the steps of a renewal keep: the store's invariant, every mapping (possibly to a new certificate), the clients.\<close>

definition renewKeeps :: "(string list \<Rightarrow> string) \<Rightarrow> ('k, 'o) renewal \<Rightarrow> ('k, 'o) renewal \<Rightarrow> bool" where
  "renewKeeps certID s s' \<longleftrightarrow> (storeOk certID (rn_manager s) \<longrightarrow> storeOk certID (rn_manager s')) \<and> cm_clients (rn_manager s') = cm_clients (rn_manager s)
     \<and> (storeOk certID (rn_manager s) \<longrightarrow> (\<forall>x c. map_of (cm_domainToCert (rn_manager s)) x = Some c \<longrightarrow>
          (\<exists>c'. map_of (cm_domainToCert (rn_manager s')) x = Some c' \<and> (c' = c \<or> c' \<in> set (rn_new s')))))
     \<and> set (rn_new s) \<subseteq> set (rn_new s') \<and> (rn_renewedAll s' \<longrightarrow> rn_renewedAll s)"

lemma renewKeeps_refl: "renewKeeps certID s s"
  by (simp add: renewKeeps_def)

lemma renewKeeps_trans:
  assumes "renewKeeps certID s s'" and "renewKeeps certID s' s''"
  shows "renewKeeps certID s s''"
proof -
  have "\<exists>c''. map_of (cm_domainToCert (rn_manager s'')) x = Some c'' \<and> (c'' = c \<or> c'' \<in> set (rn_new s''))"
    if asm: "storeOk certID (rn_manager s)" "map_of (cm_domainToCert (rn_manager s)) x = Some c" for x c
  proof -
    obtain c' where "map_of (cm_domainToCert (rn_manager s')) x = Some c'" "c' = c \<or> c' \<in> set (rn_new s')" using assms(1) asm unfolding renewKeeps_def by blast
    moreover from this obtain c'' where "map_of (cm_domainToCert (rn_manager s'')) x = Some c''" "c'' = c' \<or> c'' \<in> set (rn_new s'')"
      using assms asm unfolding renewKeeps_def by blast
    ultimately show ?thesis using assms(2) unfolding renewKeeps_def by blast
  qed
  then show ?thesis using assms unfolding renewKeeps_def by auto
qed

lemma hold_store [simp]:
  "cm_certificates (holdFor now k ds m) = cm_certificates m" "cm_domainToCert (holdFor now k ds m) = cm_domainToCert m" "cm_clients (holdFor now k ds m) = cm_clients m"
  "cm_certificates (holdUntil now r ds m) = cm_certificates m" "cm_domainToCert (holdUntil now r ds m) = cm_domainToCert m" "cm_clients (holdUntil now r ds m) = cm_clients m"
  "cm_directory (holdFor now k ds m) = cm_directory m"
  by (simp_all add: holdFor_def holdUntil_def)

lemma handleRenewalFailure_store:
  assumes "handleRenewalFailure now rt pf ds err m = (l, m')"
  shows "cm_certificates m' = cm_certificates m" "cm_domainToCert m' = cm_domainToCert m" "cm_clients m' = cm_clients m"
  using assms by (auto simp: handleRenewalFailure_def Let_def split: option.split_asm if_split_asm)

lemma adoptWildcardCoverage_clients [simp]: "cm_clients (adoptWildcardCoverage managed n) = cm_clients n"
proof -
  have "cm_clients (fold (\<lambda>w m. m\<lparr>cm_domainToCert := map (\<lambda>(d, c). if takesOver m managed w (d, c) then (d, mc_identifier managed) else (d, c)) (cm_domainToCert m)\<rparr>) ws n) = cm_clients n" for ws
    by (induction ws arbitrary: n) simp_all
  then show ?thesis by (simp only: adoptWildcardCoverage_def)
qed

lemma adopt_clients [simp]: "cm_clients (adoptCertificateAt certID key t ds dir m) = cm_clients m"
  by (simp add: adoptCertificateAt_def Let_def)

lemma renewPartition_cases:
  assumes "renewPartition now rt pf certID answer p directory m = (renewed, accepted, limit, m')"
  obtains "renewed = None" "cm_certificates m' = cm_certificates m" "cm_domainToCert m' = cm_domainToCert m" "cm_clients m' = cm_clients m"
  | key t q where "renewed = Some (certID p)" "limit = None" "accepted" "m' = (adoptCertificateAt certID key t p directory m)\<lparr>cm_quarantine := q\<rparr>"
  using assms handleRenewalFailure_store[of now rt pf p _ m] by (cases answer) (auto simp: renewPartition_def split: prod.split_asm)

lemma renewPartitions_keeps:
  assumes "inj certID"
  shows "renewKeeps certID s (renewPartitions now rt pf certID ask replaces recorded directory ps s)"
proof (induction ps arbitrary: s)
  case (Cons p ps)
  obtain renewed accepted limit m where r: "renewPartition now rt pf certID (ask directory p) p directory (rn_manager s) = (renewed, accepted, limit, m)" by (metis prod_cases4)
  define marker where "marker = (replaces \<and> \<not> rn_ariConsumed s \<and> directory = recorded)"
  define s1 where "s1 = s\<lparr>rn_manager := m, rn_log := rn_log s @ [\<lparr>ro_directory = directory, ro_domains = p, ro_replaces = marker, ro_accepted = accepted\<rparr>],
                   rn_ariConsumed := rn_ariConsumed s \<or> (marker \<and> accepted)\<rparr>"
  have eq: "renewPartitions now rt pf certID ask replaces recorded directory (p # ps) s = (case limit of
             Some l \<Rightarrow> s1\<lparr>rn_renewedAll := False, rn_manager := holdUntil now (rl_retryAfter l) (concat ps) (rn_manager s1)\<rparr>
           | None \<Rightarrow>
               (case renewed of
                  None \<Rightarrow> renewPartitions now rt pf certID ask replaces recorded directory ps (s1\<lparr>rn_renewedAll := False\<rparr>)
                | Some c \<Rightarrow> renewPartitions now rt pf certID ask replaces recorded directory ps (s1\<lparr>rn_new := rn_new s1 @ [c]\<rparr>)))"
    unfolding renewPartitions.simps Let_def r prod.case marker_def[symmetric] s1_def[symmetric] ..
  from r show ?case
  proof (cases rule: renewPartition_cases)
    case 1
    have keep: "renewKeeps certID s (s1\<lparr>rn_renewedAll := False, rn_manager := n\<rparr>)"
      if "cm_certificates n = cm_certificates m" "cm_domainToCert n = cm_domainToCert m" "cm_clients n = cm_clients m" for n
      using 1 that storeOk_cong[of n "rn_manager s" certID] by (auto simp: renewKeeps_def s1_def)
    have "renewKeeps certID s (s1\<lparr>rn_renewedAll := False\<rparr>)" using 1 storeOk_cong[of m "rn_manager s" certID] by (auto simp: renewKeeps_def s1_def)
    then have "renewKeeps certID s (renewPartitions now rt pf certID ask replaces recorded directory ps (s1\<lparr>rn_renewedAll := False\<rparr>))"
      using renewKeeps_trans Cons.IH by blast
    moreover have "renewKeeps certID s (s1\<lparr>rn_renewedAll := False, rn_manager := holdUntil now (rl_retryAfter l) (concat ps) (rn_manager s1)\<rparr>)" for l
      by (rule keep) (simp_all add: s1_def)
    ultimately show ?thesis unfolding eq 1(1) by (cases limit) simp_all
  next
    case (2 key t q)
    let ?a = "adoptCertificateAt certID key t p directory (rn_manager s)"
    have "storeOk certID m" if "storeOk certID (rn_manager s)"
      using adoptCertificateAt_storeOk[OF that assms, of key t p directory] storeOk_cong[of m ?a certID] by (simp add: 2(4))
    moreover have "\<exists>c'. map_of (cm_domainToCert m) x = Some c' \<and> (c' = c \<or> c' = certID p)"
      if "storeOk certID (rn_manager s)" "map_of (cm_domainToCert (rn_manager s)) x = Some c" for x c
      using adopt_maps(2)[OF that, of key t p directory] by (auto simp: 2(4))
    ultimately have "renewKeeps certID s (s1\<lparr>rn_new := rn_new s1 @ [certID p]\<rparr>)" by (auto simp: renewKeeps_def s1_def 2(4))
    then show ?thesis unfolding eq 2(1,2) using renewKeeps_trans Cons.IH by fastforce
  qed
qed (simp add: renewKeeps_refl)

lemma renewDirectories_keeps:
  assumes "inj certID"
  shows "renewKeeps certID s (renewDirectories now rt pf certID ask replaces recorded parts s)"
proof (induction parts arbitrary: s)
  case (Cons part parts)
  obtain directory ds where p: "part = (directory, ds)" by fastforce
  show ?case unfolding p renewDirectories.simps by (rule renewKeeps_trans[OF renewPartitions_keeps[OF assms] Cons.IH])
qed (simp add: renewKeeps_refl)

text \<open>Names whose certificate is one of those the renewal obtained.\<close>

definition renewedNames :: "('k, 'o) renewal \<Rightarrow> string set" where
  "renewedNames s = {d. \<exists>c \<in> set (rn_new s). map_of (cm_domainToCert (rn_manager s)) d = Some c}"

lemma renewedNames_mono:
  assumes "renewKeeps certID s s'" and "storeOk certID (rn_manager s)"
  shows "renewedNames s \<subseteq> renewedNames s'"
  using assms unfolding renewedNames_def renewKeeps_def by fastforce

lemma renewPartitions_renewed:
  assumes "inj certID" and "storeOk certID (rn_manager s)" and "rn_renewedAll (renewPartitions now rt pf certID ask replaces recorded directory ps s)"
  shows "set (concat ps) \<subseteq> renewedNames (renewPartitions now rt pf certID ask replaces recorded directory ps s)"
  using assms(2,3)
proof (induction ps arbitrary: s)
  case (Cons p ps)
  obtain renewed accepted limit m where r: "renewPartition now rt pf certID (ask directory p) p directory (rn_manager s) = (renewed, accepted, limit, m)" by (metis prod_cases4)
  define s1 where "s1 = s\<lparr>rn_manager := m, rn_log := rn_log s @ [\<lparr>ro_directory = directory, ro_domains = p, ro_replaces = (replaces \<and> \<not> rn_ariConsumed s \<and> directory = recorded), ro_accepted = accepted\<rparr>],
                   rn_ariConsumed := rn_ariConsumed s \<or> ((replaces \<and> \<not> rn_ariConsumed s \<and> directory = recorded) \<and> accepted)\<rparr>"
  have eq: "renewPartitions now rt pf certID ask replaces recorded directory (p # ps) s = (case limit of
             Some l \<Rightarrow> s1\<lparr>rn_renewedAll := False, rn_manager := holdUntil now (rl_retryAfter l) (concat ps) (rn_manager s1)\<rparr>
           | None \<Rightarrow>
               (case renewed of
                  None \<Rightarrow> renewPartitions now rt pf certID ask replaces recorded directory ps (s1\<lparr>rn_renewedAll := False\<rparr>)
                | Some c \<Rightarrow> renewPartitions now rt pf certID ask replaces recorded directory ps (s1\<lparr>rn_new := rn_new s1 @ [c]\<rparr>)))"
    unfolding renewPartitions.simps Let_def r prod.case s1_def[symmetric] ..
  have no: "\<not> rn_renewedAll (renewPartitions now rt pf certID ask replaces recorded directory ps (s1\<lparr>rn_renewedAll := False\<rparr>))"
    using renewPartitions_keeps[OF assms(1), of "s1\<lparr>rn_renewedAll := False\<rparr>" now rt pf ask replaces recorded directory ps] by (auto simp: renewKeeps_def)
  have nolimit: "limit = None" using Cons.prems(2) unfolding eq by (cases limit) simp_all
  moreover from this obtain c where "renewed = Some c" using Cons.prems(2) no unfolding eq by (cases renewed) simp_all
  ultimately have "\<exists>key t q. m = (adoptCertificateAt certID key t p directory (rn_manager s))\<lparr>cm_quarantine := q\<rparr> \<and> renewed = Some (certID p)"
    by (cases rule: renewPartition_cases[OF r]) auto
  then obtain key t q where a: "m = (adoptCertificateAt certID key t p directory (rn_manager s))\<lparr>cm_quarantine := q\<rparr>" "renewed = Some (certID p)" by blast
  let ?s2 = "s1\<lparr>rn_new := rn_new s1 @ [certID p]\<rparr>"
  have res: "renewPartitions now rt pf certID ask replaces recorded directory (p # ps) s = renewPartitions now rt pf certID ask replaces recorded directory ps ?s2"
    unfolding eq a(2) nolimit by simp
  have ok: "storeOk certID (rn_manager ?s2)"
    using adoptCertificateAt_storeOk[OF Cons.prems(1) assms(1), of key t p directory] storeOk_cong[of m "adoptCertificateAt certID key t p directory (rn_manager s)" certID] by (simp add: s1_def a(1))
  have "set p \<subseteq> renewedNames ?s2" using adopt_maps(1)[OF Cons.prems(1)] by (auto simp: renewedNames_def s1_def a(1))
  also have "\<dots> \<subseteq> renewedNames (renewPartitions now rt pf certID ask replaces recorded directory ps ?s2)"
    by (rule renewedNames_mono[OF renewPartitions_keeps[OF assms(1)] ok])
  finally show ?case using Cons.IH[OF ok] Cons.prems(2) unfolding res by auto
qed simp

lemma renewDirectories_renewed:
  assumes "inj certID" and "storeOk certID (rn_manager s)" and "rn_renewedAll (renewDirectories now rt pf certID ask replaces recorded parts s)"
  shows "set (concat (map snd parts)) \<subseteq> renewedNames (renewDirectories now rt pf certID ask replaces recorded parts s)"
  using assms(2,3)
proof (induction parts arbitrary: s)
  case (Cons part parts)
  obtain directory ds where p: "part = (directory, ds)" by fastforce
  let ?ps = "splitByProviderZone (cm_clients (rn_manager s)) ds"
  let ?s1 = "renewPartitions now rt pf certID ask replaces recorded directory ?ps s"
  have step: "renewDirectories now rt pf certID ask replaces recorded (part # parts) s = renewDirectories now rt pf certID ask replaces recorded parts ?s1" by (simp add: p)
  have ok: "storeOk certID (rn_manager ?s1)" using renewPartitions_keeps[OF assms(1), of s] Cons.prems(1) unfolding renewKeeps_def by blast
  have keeps: "renewKeeps certID ?s1 (renewDirectories now rt pf certID ask replaces recorded parts ?s1)" by (rule renewDirectories_keeps[OF assms(1)])
  then have "rn_renewedAll ?s1" using Cons.prems(2) unfolding step renewKeeps_def by blast
  then have "set (concat ?ps) \<subseteq> renewedNames ?s1" by (rule renewPartitions_renewed[OF assms(1) Cons.prems(1)])
  moreover have "set (concat ?ps) = set ds" using mset_eq_setD[OF split_partitions] .
  ultimately have "set ds \<subseteq> renewedNames (renewDirectories now rt pf certID ask replaces recorded parts ?s1)"
    using renewedNames_mono[OF keeps ok] by blast
  then show ?case using Cons.IH[OF ok] Cons.prems(2) unfolding step by (simp add: p)
qed simp

section \<open>The marker\<close>

definition markerOk :: "string \<Rightarrow> ('k, 'o) renewal \<Rightarrow> bool" where
  "markerOk recorded s \<longleftrightarrow> length (filter (\<lambda>o1. ro_replaces o1 \<and> ro_accepted o1) (rn_log s)) = (if rn_ariConsumed s then 1 else 0)
     \<and> (\<forall>o1 \<in> set (rn_log s). ro_replaces o1 \<longrightarrow> ro_directory o1 = recorded)"

lemma renewPartitions_marker:
  "markerOk recorded s \<Longrightarrow> markerOk recorded (renewPartitions now rt pf certID ask replaces recorded directory ps s)"
proof (induction ps arbitrary: s)
  case (Cons p ps)
  obtain renewed accepted limit m where r: "renewPartition now rt pf certID (ask directory p) p directory (rn_manager s) = (renewed, accepted, limit, m)" by (metis prod_cases4)
  define marker where "marker = (replaces \<and> \<not> rn_ariConsumed s \<and> directory = recorded)"
  define s1 where "s1 = s\<lparr>rn_manager := m, rn_log := rn_log s @ [\<lparr>ro_directory = directory, ro_domains = p, ro_replaces = marker, ro_accepted = accepted\<rparr>],
                   rn_ariConsumed := rn_ariConsumed s \<or> (marker \<and> accepted)\<rparr>"
  have ok: "markerOk recorded s1" using Cons.prems by (auto simp: markerOk_def s1_def marker_def)
  have "markerOk recorded (s1\<lparr>rn_renewedAll := x\<rparr>)" "markerOk recorded (s1\<lparr>rn_new := n\<rparr>)" "markerOk recorded (s1\<lparr>rn_renewedAll := x, rn_manager := k\<rparr>)" for x n k
    using ok by (simp_all add: markerOk_def)
  then show ?case unfolding renewPartitions.simps Let_def r prod.case marker_def[symmetric] s1_def[symmetric]
    using Cons.IH by (auto split: option.split)
qed simp

lemma renewDirectories_marker:
  "markerOk recorded s \<Longrightarrow> markerOk recorded (renewDirectories now rt pf certID ask replaces recorded parts s)"
proof (induction parts arbitrary: s)
  case (Cons part parts)
  obtain directory ds where p: "part = (directory, ds)" by fastforce
  show ?case unfolding p renewDirectories.simps by (rule Cons.IH[OF renewPartitions_marker[OF Cons.prems]])
qed simp

section \<open>The renewal as a whole\<close>

definition renewBlocked :: "time \<Rightarrow> (string \<Rightarrow> bool) option \<Rightarrow> ('k, 'o) certManager \<Rightarrow> string \<Rightarrow> bool" where
  "renewBlocked now preflight m x \<longleftrightarrow> isQuarantined now (holds m) x \<or>
     (case preflight of None \<Rightarrow> False | Some fails \<Rightarrow> \<not> isWildcard x \<and> isDynamic m x \<and> \<not> hasDNSProviderFor (cm_clients m) x \<and> fails x)"

lemma topUpBatch_spec:
  assumes "topUpBatch now pf hooks ds m = (ds', kept, m')"
  shows "set ds \<subseteq> set ds'" "cm_certificates m' = cm_certificates m" "cm_domainToCert m' = cm_domainToCert m" "cm_directory m' = cm_directory m"
  using assms by (auto simp: topUpBatch_def Let_def split: option.split_asm if_split_asm)

lemma preflightMembers_spec:
  assumes "preflightMembers now pf ds m = (unreachable, m')"
  shows "cm_certificates m' = cm_certificates m" "cm_domainToCert m' = cm_domainToCert m" "cm_directory m' = cm_directory m"
    "d \<in> set unreachable \<Longrightarrow> d \<in> set ds \<and> (case pf of None \<Rightarrow> False | Some fails \<Rightarrow> \<not> isWildcard d \<and> isDynamic m d \<and> \<not> hasDNSProviderFor (cm_clients m) d \<and> fails d)"
  using assms by (auto simp: preflightMembers_def probeDomains_def Let_def split: option.split_asm)

lemma renewMembers_waits:
  assumes "renewMembers now pf hooks cert m = Inl m'"
  shows "cm_certificates m' = cm_certificates m" "cm_domainToCert m' = cm_domainToCert m"
  using assms preflightMembers_spec(1,2)[of now pf _ m]
  by (auto simp: renewMembers_def Let_def filterHeld_def split: prod.split_asm if_split_asm)

lemma renewMembers_orders:
  assumes "renewMembers now pf hooks cert m = Inr (ds, kept, m')"
  shows "cm_certificates m' = cm_certificates m" "cm_domainToCert m' = cm_domainToCert m" "cm_directory m' = cm_directory m"
    and "x \<in> set (renewableDomains m cert) \<Longrightarrow> \<not> renewBlocked now pf m x \<or> compactionWindowFor m (renewableDomains m cert) < mc_notAfter cert - now \<Longrightarrow> x \<in> set ds"
proof -
  let ?allowed = "renewableDomains m cert"
  let ?free = "filter (\<lambda>d. \<not> isQuarantined now (holds m) d) ?allowed"
  let ?early = "compactionWindowFor m ?allowed < mc_notAfter cert - now"
  obtain unreachable m1 where p: "preflightMembers now pf ?free m = (unreachable, m1)" by fastforce
  have r: "topUpBatch now pf hooks (filter (\<lambda>d. d \<notin> set unreachable) ?free) m1 = (ds, kept, m')"
    and waits: "\<not> (filter (isQuarantined now (holds m)) ?allowed \<noteq> [] \<and> ?early)" "\<not> (unreachable \<noteq> [] \<and> ?early)"
    using assms unfolding renewMembers_def Let_def filterHeld_def prod.case p by (auto split: if_split_asm)
  note pre = preflightMembers_spec[OF p] and top = topUpBatch_spec[OF r]
  show "cm_certificates m' = cm_certificates m" "cm_domainToCert m' = cm_domainToCert m" "cm_directory m' = cm_directory m" using pre(1-3) top(2-4) by simp_all
  show "x \<in> set ds" if x: "x \<in> set ?allowed" "\<not> renewBlocked now pf m x \<or> ?early"
  proof -
    have "\<not> isQuarantined now (holds m) x" using x waits(1) by (auto simp: renewBlocked_def filter_empty_conv)
    moreover have "x \<notin> set unreachable" using x(2) waits(2) pre(4)[of x] by (auto simp: renewBlocked_def split: option.split_asm)
    ultimately show ?thesis using x(1) top(1) by auto
  qed
qed

lemma covered_if_mapped:
  assumes "storeOk certID m" and "\<forall>ds. certID ds \<noteq> []" and "map_of (cm_domainToCert m) x \<noteq> None \<or> (\<exists>w. wildcardParent x = Some w \<and> map_of (cm_domainToCert m) w \<noteq> None)"
  shows "\<exists>cert. coveringCert m x = Some cert"
proof -
  obtain y c where y: "map_of (cm_domainToCert m) y = Some c" "certIDCovering m x = c"
    using assms(3) by (cases "map_of (cm_domainToCert m) x") (auto simp: certIDCovering_def lookupStr_def)
  obtain cert where "(c, cert) \<in> set (cm_certificates m)" by (rule storeOk_mapped[OF assms(1) map_of_SomeD[OF y(1)]])
  from storeOk_filed[OF assms(1) this] show ?thesis using y(2) assms(2) by (metis coveringCert_def)
qed

lemma removeCertificate_mapped:
  assumes "storeOk certID m" and "map_of (cm_domainToCert m) x = Some c" and "c \<noteq> k"
  shows "map_of (cm_domainToCert (removeCertificate k m)) x = Some c"
proof -
  have "(x, c) \<in> set (filter (\<lambda>(_, v). v \<noteq> k) (cm_domainToCert m))" using map_of_SomeD[OF assms(2)] assms(3) by simp
  moreover have "distinct (map fst (filter (\<lambda>(_, v). v \<noteq> k) (cm_domainToCert m)))" using assms(1) by (simp add: storeOk_def distinct_map_filter)
  ultimately show ?thesis by (simp add: removeCertificate_def)
qed

lemma planned_identifier:
  assumes "x \<in> set ds" and "normalizeDomainName x = x"
  obtains i where "i \<in> set (planDynamicIssuance dc prefer h ds)" "i = x \<or> wildcardParent x = Some i"
proof (rule that[of "planDynamicIdentifier dc prefer h x"])
  show "planDynamicIdentifier dc prefer h x \<in> set (planDynamicIssuance dc prefer h ds)" using assms(1) by (simp add: planDynamicIssuance_def)
  show "planDynamicIdentifier dc prefer h x = x \<or> wildcardParent x = Some (planDynamicIdentifier dc prefer h x)"
    using mappedZoneWildcard_covers(1)[OF _ assms(2)] by (auto simp: planDynamicIdentifier_def matchesWildcard_def split: option.split)
qed

lemma renewed_store_covers:
  fixes s0 :: "('k, 'o) renewal"
  assumes "inj certID" and "storeOk certID (rn_manager s0)" and "map_of (cm_domainToCert (rn_manager s0)) x = Some cid"
    and "i \<in> set (concat (map snd parts))" and "i = x \<or> wildcardParent x = Some i"
  shows "let s = renewDirectories now rt pf certID ask replaces recorded parts s0;
             m' = (if rn_renewedAll s \<and> cid \<notin> set (rn_new s) then removeCertificate cid (rn_manager s) else rn_manager s)
         in map_of (cm_domainToCert m') x \<noteq> None \<or> (\<exists>w. wildcardParent x = Some w \<and> map_of (cm_domainToCert m') w \<noteq> None)"
proof -
  define s where "s = renewDirectories now rt pf certID ask replaces recorded parts s0"
  have keeps: "renewKeeps certID s0 s" unfolding s_def by (rule renewDirectories_keeps[OF assms(1)])
  have ok: "storeOk certID (rn_manager s)" using keeps assms(2) unfolding renewKeeps_def by blast
  show ?thesis
  proof (cases "rn_renewedAll s \<and> cid \<notin> set (rn_new s)")
    case True
    have "i \<in> renewedNames s" using renewDirectories_renewed[OF assms(1,2)] assms(4) True unfolding s_def by blast
    then obtain c where c: "c \<in> set (rn_new s)" "map_of (cm_domainToCert (rn_manager s)) i = Some c" by (auto simp: renewedNames_def)
    have "c \<noteq> cid" using c(1) True by blast
    from removeCertificate_mapped[OF ok c(2) this] show ?thesis using True assms(5) unfolding Let_def s_def[symmetric] by auto
  next
    case False
    have "map_of (cm_domainToCert (rn_manager s)) x \<noteq> None" using keeps assms(2,3) unfolding renewKeeps_def by blast
    then show ?thesis using False unfolding Let_def s_def[symmetric] by auto
  qed
qed

text \<open>C17: a renewal, whatever the CA answers and however its orders split, never leaves a name it was responsible for without a certificate that covers it, as
  long as the name is neither on hold nor unreachable, or the certificate is still outside its compaction window. The old certificate goes only when every order has
  a successor. The marker that names the predecessor rides only orders at the directory that issued it and is accepted at most once.
\<close>
theorem renew_keeps_names_served:
  assumes "storeOk certID m" and "inj certID" and "\<forall>ds. certID ds \<noteq> []" and "(mc_identifier cert, cert) \<in> set (cm_certificates m)"
    and "renew now rt preflight hooks certID ask haveARI cert m = (waits, log, m')"
  shows "storeOk certID m'
    \<and> (\<forall>x \<in> set (renewableDomains m cert). normalizeDomainName x = x \<longrightarrow>
         \<not> renewBlocked now preflight m x \<or> compactionWindowFor m (renewableDomains m cert) < mc_notAfter cert - now \<longrightarrow>
         (\<exists>c. coveringCert m' x = Some c \<and> identifiersCover (mc_domains c) x))
    \<and> length (filter (\<lambda>o1. ro_replaces o1 \<and> ro_accepted o1) log) \<le> 1
    \<and> (\<forall>o1 \<in> set log. ro_replaces o1 \<longrightarrow> ro_directory o1 = normalizeDirectory m (mc_directory cert))"
proof -
  let ?cid = "mc_identifier cert"
  have mapped: "map_of (cm_domainToCert m) x = Some ?cid" if "x \<in> set (renewableDomains m cert)" for x
  proof -
    have "?cid \<noteq> []" using storeOk_filed(2)[OF assms(1,4)] assms(3) by metis
    then show ?thesis using that by (auto simp: renewableDomains_def certIDForDomain_def lookupStr_def split: option.split_asm)
  qed
  have done_if: "\<exists>c. coveringCert n x = Some c \<and> identifiersCover (mc_domains c) x"
    if "storeOk certID n" "map_of (cm_domainToCert n) x \<noteq> None \<or> (\<exists>w. wildcardParent x = Some w \<and> map_of (cm_domainToCert n) w \<noteq> None)" for n :: "('a, 'b) certManager" and x
    using covered_if_mapped[OF that(1) assms(3) that(2)] coveringCert_covers(1)[OF that(1)] by blast
  show ?thesis
  proof (cases "renewableDomains m cert = [] \<or> (\<exists>n. renewMembers now preflight hooks cert m = Inl n)")
    case True
    then have "cm_certificates m' = cm_certificates m" "cm_domainToCert m' = cm_domainToCert m" "log = []"
      using assms(5) renewMembers_waits[of now preflight hooks cert m] by (auto simp: renew_def split: if_split_asm)
    then have "storeOk certID m'" "\<And>x. x \<in> set (renewableDomains m cert) \<Longrightarrow> map_of (cm_domainToCert m') x \<noteq> None" "log = []"
      using storeOk_cong assms(1) mapped by auto
    then show ?thesis using done_if by simp
  next
    case False
    then obtain ds0 kept m1 where mem: "renewMembers now preflight hooks cert m = Inr (ds0, kept, m1)" by (metis prod_cases3 sum.exhaust)
    note orders = renewMembers_orders[OF mem]
    define planned where "planned = planDynamicIssuance (cm_clients m1) (gr_preferWildcard (cm_grouper m1)) (isQuarantined now (holds m1)) (sort ds0)"
    define s0 where "s0 = \<lparr>rn_manager = m1, rn_log = [], rn_new = [], rn_renewedAll = True, rn_ariConsumed = False\<rparr>"
    define s where "s = renewDirectories now rt preflight certID ask (haveARI \<and> planned = sort ds0) (normalizeDirectory m1 (mc_directory cert)) (splitByDesiredDirectory m1 cert planned) s0"
    have res: "log = rn_log s" "m' = (if rn_renewedAll s \<and> ?cid \<notin> set (rn_new s) then removeCertificate ?cid (rn_manager s) else rn_manager s)"
      using assms(5) False mem unfolding renew_def Let_def planned_def[symmetric] s0_def[symmetric] s_def[symmetric] by (auto simp: planned_def s0_def s_def)
    have ok1: "storeOk certID (rn_manager s0)" using storeOk_cong[OF orders(1,2)] assms(1) by (simp add: s0_def)
    have keeps: "renewKeeps certID s0 s" unfolding s_def by (rule renewDirectories_keeps[OF assms(2)])
    then have ok: "storeOk certID (rn_manager s)" using ok1 unfolding renewKeeps_def by blast
    then have ok': "storeOk certID m'" unfolding res(2) by (simp add: removeCertificate_storeOk)
    have cover: "map_of (cm_domainToCert m') x \<noteq> None \<or> (\<exists>w. wildcardParent x = Some w \<and> map_of (cm_domainToCert m') w \<noteq> None)"
      if x: "x \<in> set (renewableDomains m cert)" "normalizeDomainName x = x" "x \<in> set ds0" for x
    proof -
      obtain i where i: "i \<in> set planned" "i = x \<or> wildcardParent x = Some i"
        unfolding planned_def using planned_identifier[OF _ x(2)] x(3) by (metis set_sort)
      have "map_of (cm_domainToCert (rn_manager s0)) x = Some ?cid" using mapped[OF x(1)] orders(2) by (simp add: s0_def)
      moreover have "i \<in> set (concat (map snd (splitByDesiredDirectory m1 cert planned)))" using mset_eq_setD[OF splitByDesiredDirectory_homogeneous(1)] i(1) by metis
      ultimately show ?thesis unfolding res(2) s_def using renewed_store_covers[OF assms(2) ok1 _ _ i(2)] by (metis (no_types, lifting))
    qed
    have "markerOk (normalizeDirectory m1 (mc_directory cert)) s" unfolding s_def by (rule renewDirectories_marker) (simp add: markerOk_def s0_def)
    moreover have "normalizeDirectory m1 (mc_directory cert) = normalizeDirectory m (mc_directory cert)" by (simp add: normalizeDirectory_def orders(3))
    ultimately have "length (filter (\<lambda>o1. ro_replaces o1 \<and> ro_accepted o1) log) \<le> 1" "\<forall>o1 \<in> set log. ro_replaces o1 \<longrightarrow> ro_directory o1 = normalizeDirectory m (mc_directory cert)"
      by (auto simp: markerOk_def res(1) split: if_split_asm)
    then show ?thesis using ok' done_if[OF ok'] cover orders(4) by blast
  qed
qed

definition runCert :: "nat managedCert" where
  "runCert = \<lparr>mc_identifier = plainID [''a.dk''], mc_domains = [''a.dk''], mc_notAfter = 90 * runDay, mc_certificate = Some 7, mc_directory = ''prod''\<rparr>"

theorem renew_keeps_names_served_witness:
  "let (waits, log, m') = renew (80 * runDay) (\<lambda>_. None) None None plainID (\<lambda>_ _. Renewed 8 (170 * runDay)) True runCert runManager
   in \<not> waits \<and> map ro_domains log = [[''a.dk'']] \<and> map_option mc_certificate (coveringCert m' ''a.dk'') = Some (Some 8) \<and> length (filter (\<lambda>o1. ro_replaces o1 \<and> ro_accepted o1) log) \<le> 1"
proof -
  let ?r = "renew (80 * runDay) (\<lambda>_. None) None None plainID (\<lambda>_ _. Renewed 8 (170 * runDay)) True runCert runManager"
  obtain waits log m' where r: "?r = (waits, log, m')" by (metis prod_cases3)
  have ok: "storeOk plainID runManager" unfolding runManager_def
    by (rule adoptCertificateAt_storeOk[OF _ plainID_inj])
       (simp add: registerDomain_def managerInit_def coveringCert_def certIDCovering_def lookupStr_def Let_def storeOk_def split: option.split)
  have ne: "\<forall>ds. plainID ds \<noteq> []" by (simp add: plainID_def)
  have "map_of (cm_certificates runManager) (mc_identifier runCert) = Some runCert" by code_simp
  then have mem: "(mc_identifier runCert, runCert) \<in> set (cm_certificates runManager)" by (rule map_of_SomeD)
  have "\<not> fst ?r \<and> map ro_domains (fst (snd ?r)) = [[''a.dk'']] \<and> map_option mc_certificate (coveringCert (snd (snd ?r)) ''a.dk'') = Some (Some 8)" by code_simp
  then show ?thesis using renew_keeps_names_served[OF ok plainID_inj ne mem r] unfolding r by simp
qed

text \<open>
  Collapsing to a zone's wildcard does not sort again: the certificate is filed under the identifier of the unsorted list, although adoption asks for the sorted one.
\<close>

lemma collapsed_renewal_unsorted:
  "let dc = \<lparr>dc_selection = \<lparr>ps_default = [], ps_zones = [(''b.dk'', ''hetzner'')]\<rparr>, dc_obtainer = None, dc_obtainers = [(''hetzner'', 1 :: nat)]\<rparr>;
       planned = planDynamicIssuance dc True (\<lambda>_. False) (sort [''x.b.dk'', ''b.dk''])
   in planned = [''b.dk'', ''*.b.dk''] \<and> splitByProviderZone dc planned = [planned] \<and> planned \<noteq> sort planned"
  by code_simp

section \<open>A pass over all certificates\<close>

lemma renew_storeOk:
  assumes "storeOk certID m" "inj certID"
  shows "storeOk certID (snd (snd (renew now rt pf hooks certID ask ari cert m)))"
proof (cases "renewableDomains m cert = [] \<or> (\<exists>n. renewMembers now pf hooks cert m = Inl n)")
  case True
  then show ?thesis using assms(1) renewMembers_waits[of now pf hooks cert m] storeOk_cong[of _ m certID] by (auto simp: renew_def)
next
  case False
  then obtain ds0 kept m1 where mem: "renewMembers now pf hooks cert m = Inr (ds0, kept, m1)" by (metis prod_cases3 sum.exhaust)
  have ok1: "storeOk certID m1" using storeOk_cong[OF renewMembers_orders(1,2)[OF mem]] assms(1) by blast
  have "storeOk certID (rn_manager (renewDirectories now rt pf certID ask r d parts \<lparr>rn_manager = m1, rn_log = [], rn_new = [], rn_renewedAll = True, rn_ariConsumed = False\<rparr>))" for r d parts
    using renewDirectories_keeps[OF assms(2), of "\<lparr>rn_manager = m1, rn_log = [], rn_new = [], rn_renewedAll = True, rn_ariConsumed = False\<rparr>"] ok1 unfolding renewKeeps_def by simp
  then show ?thesis using False mem by (simp add: renew_def Let_def removeCertificate_storeOk)
qed

lemma reconcile_storeOk:
  assumes "storeOk certID m" "inj certID"
  shows "storeOk certID (snd (reconcile now rt pf hooks certID ask leaf ari m))"
proof -
  have one: "storeOk certID (snd (reconcileOne now rt pf hooks certID ask leaf ari cert p))" if "storeOk certID (snd p)" for cert p
  proof -
    obtain n m1 where p: "p = (n, m1)" by fastforce
    show ?thesis using that renew_storeOk[of certID m1 now rt pf hooks ask "leaf cert \<noteq> None" cert] assms(2)
      by (auto simp: p reconcileOne_def retireCertificate_def removeCertificate_storeOk case_prod_beta)
  qed
  have "storeOk certID (snd (fold (reconcileOne now rt pf hooks certID ask leaf ari) cs p))" if "storeOk certID (snd p)" for cs p
    using that by (induction cs arbitrary: p) (simp_all add: one)
  from this[of "(0, m)"] show ?thesis using assms(1) by (simp add: reconcile_def)
qed

end
