(* ===== verification/Dynamic_Domains.thy ===== *)
theory Dynamic_Domains
  imports Cert_Renewer Service_Options
begin

text \<open>
  Domains learned at run time: the payload of a domain source (\<open>domain_source.go\<close>), the conditional polling of it (\<open>source_poller.go\<close>) and the
  coordinator that applies a poll to the allowlist, the issuer and the quarantine, with its guard against mass removals (\<open>dynamic_domains.go\<close>). Decoding the JSON
  body is an input, and so is whether the router still knows the service. The comparison with \<open>0.30\<close> is exact: the rounding of the product in double precision
  never crosses an integer.
\<close>

section \<open>The payload of a source\<close>

datatype sourceError = ListTooLarge | ListUnparseable | TooManyDomains

definition maxDomainListBody :: nat where
  "maxDomainListBody = 1048576"

definition maxDomainListEntries :: nat where
  "maxDomainListEntries = 10000"

definition addDomain :: "string \<Rightarrow> string list \<Rightarrow> string list" where
  "addDomain raw domains =
     (let domain = normalizeDomainName raw
      in if isWildcard domain \<or> \<not> validDynamicDomain domain \<or> domain \<in> set domains then domains else domains @ [domain])"

definition parseDomainList :: "nat \<Rightarrow> string list option \<Rightarrow> sourceError + string list" where
  "parseDomainList bytes payload =
     (if maxDomainListBody < bytes then Inl ListTooLarge
      else case payload of
             None \<Rightarrow> Inl ListUnparseable
           | Some raws \<Rightarrow> if maxDomainListEntries < length raws then Inl TooManyDomains else Inr (fold addDomain raws []))"

section \<open>The coordinator\<close>

record serviceDomainState =
  sd_domains :: "string list"
  sd_etag :: string

record shrinkHold =
  sh_removals :: "string list"
  sh_polls :: nat

record serviceSettings =
  ss_source :: string
  ss_interval :: duration
  ss_batchSize :: int
  ss_host :: string

text \<open>\<open>dd_sources\<close> holds the entity tag of each running poller. Manager and issuer see one quarantine.\<close>

record ('k, 'o) dynamicDomains =
  dd_manager :: "('k, 'o) certManager"
  dd_issuer :: domainIssuer
  dd_sources :: "(string \<times> string) list"
  dd_settings :: "(string \<times> serviceSettings) list"
  dd_states :: "(string \<times> serviceDomainState) list"
  dd_holds :: "(string \<times> shrinkHold) list"

definition setQuarantine :: "domainQuarantine \<Rightarrow> ('k, 'o) dynamicDomains \<Rightarrow> ('k, 'o) dynamicDomains" where
  "setQuarantine q dd = dd\<lparr>dd_manager := (dd_manager dd)\<lparr>cm_quarantine := Some q\<rparr>, dd_issuer := (dd_issuer dd)\<lparr>di_quarantine := q\<rparr>\<rparr>"

definition clearHolds :: "string list \<Rightarrow> ('k, 'o) dynamicDomains \<Rightarrow> ('k, 'o) dynamicDomains" where
  "clearHolds domains dd = setQuarantine (fold (\<lambda>d q. clearHold q d) domains (di_quarantine (dd_issuer dd))) dd"

definition requestMissing :: "time \<Rightarrow> string \<Rightarrow> string list \<Rightarrow> ('k, 'o) dynamicDomains \<Rightarrow> ('k, 'o) dynamicDomains" where
  "requestMissing now service domains dd =
     dd\<lparr>dd_issuer := fold (\<lambda>d i. if hasValidCertificate now (dd_manager dd) d then i else requestIssuance now d service i) domains (dd_issuer dd)\<rparr>"

definition diffDomains :: "string list \<Rightarrow> string list \<Rightarrow> string list \<times> string list" where
  "diffDomains previous current = (filter (\<lambda>d. d \<notin> set previous) current, filter (\<lambda>d. d \<notin> set current) previous)"

definition shrinkGuardConfirmations :: nat where
  "shrinkGuardConfirmations = 3"

definition overThreshold :: "string list \<Rightarrow> string list \<Rightarrow> bool" where
  "overThreshold previous removed \<longleftrightarrow> 3 * length previous < 10 * length removed"

definition evaluateShrinkHold :: "string \<Rightarrow> string list \<Rightarrow> string list \<Rightarrow> (string \<times> shrinkHold) list \<Rightarrow> bool \<times> (string \<times> shrinkHold) list" where
  "evaluateShrinkHold service previous removed hs =
     (if \<not> overThreshold previous removed then (False, AList.delete service hs)
      else let polls = (case map_of hs service of Some h \<Rightarrow> sh_polls h | None \<Rightarrow> 0) + 1
           in if shrinkGuardConfirmations \<le> polls then (False, AList.delete service hs)
              else (True, AList.update service \<lparr>sh_removals = removed, sh_polls = polls\<rparr> hs))"

definition stateDomains :: "string \<Rightarrow> ('k, 'o) dynamicDomains \<Rightarrow> string list" where
  "stateDomains service dd = (case map_of (dd_states dd) service of Some s \<Rightarrow> sd_domains s | None \<Rightarrow> [])"

definition applyDomains :: "time \<Rightarrow> bool \<Rightarrow> string \<Rightarrow> string list \<Rightarrow> ('k, 'o) dynamicDomains \<Rightarrow> ('k, 'o) dynamicDomains" where
  "applyDomains now known service domains dd =
     (if \<not> known \<or> service \<notin> fst ` set (dd_sources dd) then dd
      else
        (let previous = stateDomains service dd;
             (added, removed) = diffDomains previous domains;
             (held, hs) = evaluateShrinkHold service previous removed (dd_holds dd);
             applying = (if held then previous @ added else domains);
             sources = (if held then AList.update service [] (dd_sources dd) else dd_sources dd);
             dd1 = dd\<lparr>dd_holds := hs, dd_sources := sources,
                      dd_states := AList.update service \<lparr>sd_domains = applying, sd_etag = lookupStr sources service\<rparr> (dd_states dd),
                      dd_manager := setDynamicDomains service applying (dd_manager dd)\<rparr>;
             dd2 = (if held then dd1 else clearHolds removed dd1)
         in requestMissing now service domains dd2))"

definition serviceRemoved :: "string \<Rightarrow> ('k, 'o) dynamicDomains \<Rightarrow> ('k, 'o) dynamicDomains" where
  "serviceRemoved name dd =
     (let dd1 = dd\<lparr>dd_sources := AList.delete name (dd_sources dd), dd_settings := AList.delete name (dd_settings dd),
                   dd_states := AList.delete name (dd_states dd), dd_holds := AList.delete name (dd_holds dd)\<rparr>
      in if name \<notin> fst ` set (dd_sources dd) \<and> name \<notin> fst ` set (dd_states dd) then dd1
         else (let dd2 = clearHolds (stateDomains name dd) dd1 in dd2\<lparr>dd_manager := setDynamicDomains name [] (dd_manager dd2)\<rparr>))"

definition serviceDeployed :: "time \<Rightarrow> string \<Rightarrow> serviceOptions \<Rightarrow> ('k, 'o) dynamicDomains \<Rightarrow> ('k, 'o) dynamicDomains" where
  "serviceDeployed now name options dd =
     (if \<not> so_tlsEnabled options \<or> so_tlsDomainsSource options = [] then serviceRemoved name dd
      else
        (let settings = \<lparr>ss_source = so_tlsDomainsSource options, ss_interval = so_tlsDomainsInterval options, ss_batchSize = so_tlsDomainsBatchSize options,
                         ss_host = (if hasConfiguredHosts options then hd (so_hosts options) else [])\<rparr>;
             state = (case map_of (dd_states dd) name of Some s \<Rightarrow> s | None \<Rightarrow> \<lparr>sd_domains = [], sd_etag = []\<rparr>);
             dd1 = dd\<lparr>dd_settings := AList.update name settings (dd_settings dd), dd_holds := AList.delete name (dd_holds dd),
                      dd_states := AList.update name state (dd_states dd), dd_sources := AList.update name (sd_etag state) (dd_sources dd),
                      dd_manager := setDynamicDomains name (sd_domains state) (dd_manager dd)\<rparr>
         in requestMissing now name (sd_domains state) dd1))"

definition requestIssuanceAfterRelease :: "time \<Rightarrow> string \<Rightarrow> ('k, 'o) dynamicDomains \<Rightarrow> ('k, 'o) dynamicDomains" where
  "requestIssuanceAfterRelease now domain dd =
     (if hasValidCertificate now (dd_manager dd) domain then dd
      else case map_of (cm_dynamic (dd_manager dd)) domain of
             Some service \<Rightarrow> dd\<lparr>dd_issuer := requestIssuance now domain service (dd_issuer dd)\<rparr>
           | None \<Rightarrow> dd)"

definition retryHolds :: "time \<Rightarrow> string \<Rightarrow> ('k, 'o) dynamicDomains \<Rightarrow> nat \<times> ('k, 'o) dynamicDomains" where
  "retryHolds now domain dd =
     (let held = filter (\<lambda>c. domain = [] \<or> c = domain) (map fst (di_quarantine (dd_issuer dd)))
      in (length held, fold (requestIssuanceAfterRelease now) held (clearHolds held dd)))"

definition releaseProbeInterval :: "duration \<Rightarrow> duration" where
  "releaseProbeInterval configured = (if configured = 0 then minute else configured)"

definition settingsBatchSize :: "('k, 'o) dynamicDomains \<Rightarrow> string \<Rightarrow> int" where
  "settingsBatchSize dd service = (case map_of (dd_settings dd) service of Some s \<Rightarrow> ss_batchSize s | None \<Rightarrow> 0)"

datatype endpointError = ServiceUnknown | NoActiveTargets | NoHealthyTargets

text \<open>The router's answer: no such service, no active load balancer, or the addresses of the healthy targets.\<close>

definition endpointFor :: "('k, 'o) dynamicDomains \<Rightarrow> string \<Rightarrow> string list option option \<Rightarrow> endpointError + string \<times> string" where
  "endpointFor dd service targets = (case targets of
     None \<Rightarrow> Inl ServiceUnknown
   | Some None \<Rightarrow> Inl NoActiveTargets
   | Some (Some []) \<Rightarrow> Inl NoHealthyTargets
   | Some (Some (t # _)) \<Rightarrow> Inr (''http://'' @ t, case map_of (dd_settings dd) service of Some s \<Rightarrow> ss_host s | None \<Rightarrow> []))"

datatype probeError = ProbeUnreachable | ProbeStatus nat | ProbeOtherServer

text \<open>The answer to the probe is nothing, or a status with the bytes one read of the body gave.\<close>

definition preflightProbe :: "string \<Rightarrow> (nat \<times> string) option \<Rightarrow> probeError option" where
  "preflightProbe nonce answer = (case answer of
     None \<Rightarrow> Some ProbeUnreachable
   | Some (status, bytes) \<Rightarrow>
       if status \<noteq> 200 then Some (ProbeStatus status)
       else if trimSpace (take (length nonce + 1) bytes) \<noteq> nonce then Some ProbeOtherServer else None)"

section \<open>Polling\<close>

text \<open>What came back of one request: nothing usable, \<open>304\<close>, or a body with its entity tag.\<close>

datatype sourceResponse = PollFailed | NotModified | SourceBody string nat "string list option"

definition pollSource :: "time \<Rightarrow> bool \<Rightarrow> string \<Rightarrow> sourceResponse \<Rightarrow> ('k, 'o) dynamicDomains \<Rightarrow> ('k, 'o) dynamicDomains" where
  "pollSource now known service response dd = (case response of
     PollFailed \<Rightarrow> dd
   | NotModified \<Rightarrow> dd
   | SourceBody etag bytes payload \<Rightarrow>
       if service \<notin> fst ` set (dd_sources dd) then dd
       else (let dd1 = dd\<lparr>dd_sources := AList.update service etag (dd_sources dd)\<rparr>
             in case parseDomainList bytes payload of
                  Inl _ \<Rightarrow> dd1\<lparr>dd_sources := AList.update service (lookupStr (dd_sources dd) service) (dd_sources dd1)\<rparr>
                | Inr domains \<Rightarrow> applyDomains now known service domains dd1))"

definition sourceEndpoint :: "string \<Rightarrow> (string \<times> string) option \<Rightarrow> (string \<times> string) option" where
  "sourceEndpoint source resolved =
     (if \<not> hasPrefix source ''/'' then Some (source, [])
      else map_option (\<lambda>(base, host). (trimSuffix base ''/'' @ source, host)) resolved)"

section \<open>What a source can put on the allowlist\<close>

lemma splitAt_chars: "x \<in> set s \<Longrightarrow> x \<noteq> c \<Longrightarrow> \<exists>l \<in> set (splitAt c s). x \<in> set l"
  by (induction c s rule: splitAt.induct) (auto split: list.split list.split_asm)

abbreviation labelChar :: "char \<Rightarrow> bool" where
  "labelChar c \<equiv> lowerLetter c \<or> decimalDigit c \<or> c = CHR ''-''"

lemma labelChar_plain: "labelChar c \<Longrightarrow> lowerChar c = c \<and> \<not> isSpace c \<and> c \<noteq> CHR ''*'' \<and> c \<noteq> CHR ''.''"
  by (auto simp: lowerLetter_def decimalDigit_def lowerChar_def isSpace_def Let_def)

lemma validDynamicDomain_chars:
  assumes "validDynamicDomain d" and "x \<in> set d"
  shows "x = CHR ''.'' \<or> labelChar x"
proof (cases "x = CHR ''.''")
  case False
  then obtain l where "l \<in> set (splitAt (CHR ''.'') d)" "x \<in> set l" using splitAt_chars[OF assms(2)] by blast
  then show ?thesis using assms(1) by (auto simp: validDynamicDomain_def validLabel_def list_all_iff Let_def)
qed simp

lemma splitAt_last: "splitAt c s \<noteq> [] \<and> (s \<noteq> [] \<longrightarrow> last s = c \<longrightarrow> last (splitAt c s) = [] \<and> tl (splitAt c s) \<noteq> [])"
  by (induction c s rule: splitAt.induct) (auto split: list.split list.split_asm)

text \<open>The names of a source are in the normal form the issuance code compares in.\<close>

lemma validDynamicDomain_normal:
  assumes "validDynamicDomain d"
  shows "normalizeDomainName d = d" and "spaceFree d" and "\<not> isWildcard d"
proof -
  note chars = validDynamicDomain_chars[OF assms]
  have plain: "lowerChar x = x" "\<not> isSpace x" "x \<noteq> CHR ''*''" if "x \<in> set d" for x
    using chars[OF that] labelChar_plain[of x] by (auto simp: lowerChar_def isSpace_def Let_def)
  show free: "spaceFree d" using plain(2) by (simp add: spaceFree_def list_all_iff)
  show "\<not> isWildcard d"
  proof
    assume "isWildcard d"
    then have "CHR ''*'' \<in> set d" by (auto simp: isWildcard_def hasPrefix_iff)
    then show False using plain(3) by blast
  qed
  have "d \<noteq> []" "last d \<noteq> CHR ''.''"
    using assms splitAt_last[of "CHR ''.''" d] by (auto simp: validDynamicDomain_def validLabel_def list_all_iff Let_def split: if_split_asm)
  then have "trimSuffix d ''.'' = d" by (simp add: trimSuffix_dot)
  moreover have "toLower d = d" using plain(1) by (simp add: toLower_def map_idI)
  ultimately show "normalizeDomainName d = d" by (simp add: normalizeDomainName_def trimSpace_free[OF free])
qed

lemma fold_addDomain:
  "distinct ds \<Longrightarrow> distinct (fold addDomain raws ds) \<and> length (fold addDomain raws ds) \<le> length ds + length raws
      \<and> set (fold addDomain raws ds) = set ds \<union> {d \<in> normalizeDomainName ` set raws. validDynamicDomain d \<and> \<not> isWildcard d}"
proof (induction raws arbitrary: ds)
  case (Cons raw raws)
  have step: "distinct (addDomain raw ds)" "length (addDomain raw ds) \<le> length ds + 1"
    "set (addDomain raw ds) = set ds \<union> {d. d = normalizeDomainName raw \<and> validDynamicDomain d \<and> \<not> isWildcard d}"
    using Cons.prems by (auto simp: addDomain_def Let_def)
  then show ?case using Cons.IH[OF step(1)] by auto
qed simp

text \<open>C39: whatever a source sends, what reaches the allowlist is a list of at most 10000 distinct, syntactically valid host names in normal form: no wildcard, no space,
  no trailing dot, no upper case; an oversized or undecodable body is refused as a whole.
\<close>
theorem parseDomainList_valid:
  "case parseDomainList bytes payload of
     Inl e \<Rightarrow> maxDomainListBody < bytes \<or> payload = None \<or> maxDomainListEntries < length (the payload)
   | Inr ds \<Rightarrow> bytes \<le> maxDomainListBody \<and> length ds \<le> 10000 \<and> distinct ds \<and> list_all (\<lambda>d. validDynamicDomain d \<and> normalizeDomainName d = d \<and> spaceFree d \<and> \<not> isWildcard d) ds
       \<and> set ds = {d \<in> normalizeDomainName ` set (the payload). validDynamicDomain d \<and> \<not> isWildcard d}"
proof -
  show ?thesis
  proof (cases "bytes \<le> maxDomainListBody \<and> payload \<noteq> None \<and> length (the payload) \<le> maxDomainListEntries")
    case True
    then obtain raws where p: "payload = Some raws" by blast
    then have parsed: "parseDomainList bytes payload = Inr (fold addDomain raws [])" using True by (simp add: parseDomainList_def)
    have "list_all (\<lambda>d. validDynamicDomain d \<and> normalizeDomainName d = d \<and> spaceFree d \<and> \<not> isWildcard d) (fold addDomain raws [])"
      using validDynamicDomain_normal by (simp add: list_all_iff fold_addDomain)
    then show ?thesis using True fold_addDomain[of "[]" raws] unfolding parsed by (simp add: p maxDomainListEntries_def)
  next
    case False
    then show ?thesis by (auto simp: parseDomainList_def split: option.split)
  qed
qed

section \<open>Mass removals\<close>

definition heldPolls :: "string \<Rightarrow> ('k, 'o) dynamicDomains \<Rightarrow> nat" where
  "heldPolls service dd = (case map_of (dd_holds dd) service of Some h \<Rightarrow> sh_polls h | None \<Rightarrow> 0)"

definition removedBy :: "string \<Rightarrow> string list \<Rightarrow> ('k, 'o) dynamicDomains \<Rightarrow> string list" where
  "removedBy service domains dd = snd (diffDomains (stateDomains service dd) domains)"

lemma requestMissing_keeps [simp]:
  "dd_holds (requestMissing now s ds dd) = dd_holds dd" "dd_states (requestMissing now s ds dd) = dd_states dd" "dd_sources (requestMissing now s ds dd) = dd_sources dd"
  "dd_manager (requestMissing now s ds dd) = dd_manager dd"
  by (simp_all add: requestMissing_def)

lemma clearHolds_keeps [simp]:
  "dd_holds (clearHolds ds dd) = dd_holds dd" "dd_states (clearHolds ds dd) = dd_states dd" "dd_sources (clearHolds ds dd) = dd_sources dd"
  "cm_dynamic (dd_manager (clearHolds ds dd)) = cm_dynamic (dd_manager dd)"
  by (simp_all add: clearHolds_def setQuarantine_def)

lemma applyDomains_step:
  fixes dd dd' :: "('k, 'o) dynamicDomains"
  assumes "service \<in> fst ` set (dd_sources dd)"
    and dd'_def: "dd' = applyDomains now True service domains dd" and over_def: "over = overThreshold (stateDomains service dd) (removedBy service domains dd)"
  shows "service \<in> fst ` set (dd_sources dd')"
    and "heldPolls service dd' = (if over \<and> heldPolls service dd < 2 then heldPolls service dd + 1 else 0)"
    and "stateDomains service dd' = (if over \<and> heldPolls service dd < 2 then stateDomains service dd @ fst (diffDomains (stateDomains service dd) domains) else domains)"
    and "over \<and> heldPolls service dd < 2 \<Longrightarrow> lookupStr (dd_sources dd') service = []"
    and "cm_dynamic (dd_manager dd') = cm_dynamic (setDynamicDomains service (stateDomains service dd') (dd_manager dd))"
proof -
  let ?rem = "removedBy service domains dd"
  have ev: "evaluateShrinkHold service (stateDomains service dd) ?rem (dd_holds dd) =
      (if over \<and> heldPolls service dd < 2 then (True, AList.update service \<lparr>sh_removals = ?rem, sh_polls = heldPolls service dd + 1\<rparr> (dd_holds dd)) else (False, AList.delete service (dd_holds dd)))"
    by (auto simp: evaluateShrinkHold_def over_def heldPolls_def shrinkGuardConfirmations_def Let_def split: option.split)
  have dd': "dd' = (if over \<and> heldPolls service dd < 2
      then requestMissing now service domains (dd\<lparr>dd_holds := AList.update service \<lparr>sh_removals = ?rem, sh_polls = heldPolls service dd + 1\<rparr> (dd_holds dd), dd_sources := AList.update service [] (dd_sources dd),
             dd_states := AList.update service \<lparr>sd_domains = stateDomains service dd @ fst (diffDomains (stateDomains service dd) domains), sd_etag = lookupStr (AList.update service [] (dd_sources dd)) service\<rparr> (dd_states dd),
             dd_manager := setDynamicDomains service (stateDomains service dd @ fst (diffDomains (stateDomains service dd) domains)) (dd_manager dd)\<rparr>)
      else requestMissing now service domains (clearHolds ?rem (dd\<lparr>dd_holds := AList.delete service (dd_holds dd), dd_sources := dd_sources dd,
             dd_states := AList.update service \<lparr>sd_domains = domains, sd_etag = lookupStr (dd_sources dd) service\<rparr> (dd_states dd),
             dd_manager := setDynamicDomains service domains (dd_manager dd)\<rparr>)))"
    using assms(1) unfolding dd'_def applyDomains_def by (simp add: Let_def case_prod_beta removedBy_def[symmetric] ev)
  show "service \<in> fst ` set (dd_sources dd')" using assms(1) unfolding dd' by (simp add: dom_update)
  show "heldPolls service dd' = (if over \<and> heldPolls service dd < 2 then heldPolls service dd + 1 else 0)"
    unfolding dd' by (simp add: heldPolls_def update_conv' delete_conv')
  show *: "stateDomains service dd' = (if over \<and> heldPolls service dd < 2 then stateDomains service dd @ fst (diffDomains (stateDomains service dd) domains) else domains)"
    unfolding dd' by (simp add: stateDomains_def update_conv')
  show "over \<and> heldPolls service dd < 2 \<Longrightarrow> lookupStr (dd_sources dd') service = []" unfolding dd' by (simp add: lookupStr_def update_conv')
  show "cm_dynamic (dd_manager dd') = cm_dynamic (setDynamicDomains service (stateDomains service dd') (dd_manager dd))" unfolding * unfolding dd' by simp
qed


lemma fold_update_owner: "map_of (fold (\<lambda>d. AList.update d s) ds m) d = (if d \<in> set ds then Some s else map_of m d)"
  by (induction ds arbitrary: m) (auto simp: update_conv')

lemma map_of_filter_other: "map_of (filter (\<lambda>(_, o'). o' \<noteq> s) m) d \<noteq> Some s"
  by (induction m) auto

lemma setDynamicDomains_owner: "map_of (cm_dynamic (setDynamicDomains service ds m)) d = Some service \<longleftrightarrow> d \<in> set ds"
  by (simp add: setDynamicDomains_def fold_update_owner map_of_filter_other)

text \<open>The guard as a specification: the applied set and the number of mass removals in a row that were not believed yet.\<close>

definition guardStep :: "string set \<Rightarrow> string set \<times> nat \<Rightarrow> string set \<times> nat" where
  "guardStep polled = (\<lambda>(applied, doubts).
     if 10 * card (applied - polled) \<le> 3 * card applied \<or> 2 \<le> doubts then (polled, 0) else (applied \<union> polled, doubts + 1))"

definition guardView :: "string \<Rightarrow> ('k, 'o) dynamicDomains \<Rightarrow> string set \<times> nat" where
  "guardView service dd = (set (stateDomains service dd), heldPolls service dd)"

lemma applyDomains_other:
  assumes "s \<noteq> service"
  shows "guardView s (applyDomains now known service domains dd) = guardView s dd"
  using assms by (auto simp: applyDomains_def evaluateShrinkHold_def guardView_def stateDomains_def heldPolls_def update_conv' delete_conv' Let_def split: prod.split option.split)

text \<open>C9: an applied poll implements the guard of the specification: the applied set and the count of doubted polls of the service move by \<open>guardStep\<close>, no other service's
  do, and the names the allowlist attributes to the service are exactly its applied set.
\<close>
theorem applyDomains_refines_guard:
  fixes dd :: "('k, 'o) dynamicDomains"
  assumes "service \<in> fst ` set (dd_sources dd)" and "distinct (stateDomains service dd)"
  shows "guardView s (applyDomains now True service domains dd) = (if s = service then guardStep (set domains) (guardView service dd) else guardView s dd)
    \<and> {d. map_of (cm_dynamic (dd_manager (applyDomains now True service domains dd))) d = Some service} = fst (guardStep (set domains) (guardView service dd))"
proof -
  let ?S = "stateDomains service dd"
  note step = applyDomains_step[OF assms(1) refl refl]
  have "length (removedBy service domains dd) = card (set ?S - set domains)"
    using distinct_card[of "removedBy service domains dd"] assms(2) by (simp add: removedBy_def diffDomains_def set_diff_eq)
  moreover have "length ?S = card (set ?S)" using assms(2) by (simp add: distinct_card)
  ultimately have over: "overThreshold ?S (removedBy service domains dd) \<longleftrightarrow> \<not> 10 * card (set ?S - set domains) \<le> 3 * card (set ?S)"
    by (simp add: overThreshold_def not_le)
  have grown: "set (?S @ fst (diffDomains ?S domains)) = set ?S \<union> set domains" by (auto simp: diffDomains_def)
  have main: "guardView service (applyDomains now True service domains dd) = guardStep (set domains) (guardView service dd)"
    using grown by (auto simp: guardView_def guardStep_def step(2,3) over)
  have "{d. map_of (cm_dynamic (dd_manager (applyDomains now True service domains dd))) d = Some service} = fst (guardView service (applyDomains now True service domains dd))"
    unfolding step(5) by (simp add: setDynamicDomains_owner guardView_def)
  then show ?thesis using main by (simp add: applyDomains_other)
qed

definition afterPolls :: "string \<Rightarrow> (time \<times> string list) list \<Rightarrow> ('k, 'o) dynamicDomains \<Rightarrow> nat \<Rightarrow> ('k, 'o) dynamicDomains" where
  "afterPolls service polls dd k = fold (\<lambda>(now, domains). applyDomains now True service domains) (take k polls) dd"

definition massRemoval :: "string \<Rightarrow> (time \<times> string list) list \<Rightarrow> ('k, 'o) dynamicDomains \<Rightarrow> nat \<Rightarrow> bool" where
  "massRemoval service polls dd k \<longleftrightarrow> (let here = afterPolls service polls dd k in overThreshold (stateDomains service here) (removedBy service (snd (polls ! k)) here))"

lemma afterPolls_Suc:
  "k < length polls \<Longrightarrow> afterPolls service polls dd (Suc k) = applyDomains (fst (polls ! k)) True service (snd (polls ! k)) (afterPolls service polls dd k)"
  by (simp add: afterPolls_def take_Suc_conv_app_nth split_beta)

lemma afterPolls_source: "service \<in> fst ` set (dd_sources dd) \<Longrightarrow> k \<le> length polls \<Longrightarrow> service \<in> fst ` set (dd_sources (afterPolls service polls dd k))"
  by (induction k) (simp_all add: afterPolls_Suc applyDomains_step(1)[OF _ refl refl], simp add: afterPolls_def)

lemma doubted_before:
  assumes "service \<in> fst ` set (dd_sources dd)" "heldPolls service dd = 0" "k \<le> length polls" "0 < heldPolls service (afterPolls service polls dd k)"
  shows "\<exists>j. k = Suc j \<and> massRemoval service polls dd j \<and> heldPolls service (afterPolls service polls dd k) = heldPolls service (afterPolls service polls dd j) + 1
    \<and> set (stateDomains service (afterPolls service polls dd j)) \<subseteq> set (stateDomains service (afterPolls service polls dd k))"
proof (cases k)
  case 0
  then show ?thesis using assms(2,4) by (simp add: afterPolls_def)
next
  case (Suc j)
  then have j: "j < length polls" using assms(3) by simp
  have "service \<in> fst ` set (dd_sources (afterPolls service polls dd j))" using afterPolls_source assms(1) j by (metis less_imp_le)
  note step = applyDomains_step[OF this refl refl]
  show ?thesis using assms(4) j unfolding Suc afterPolls_Suc[OF j] by (simp add: step massRemoval_def Let_def split: if_split_asm)
qed

text \<open>C12: a poll that takes away more than 30 percent of a service's names evicts nobody unless the two polls before it took away as much too, and neither of
  those evicted anyone: one truncated or empty answer never empties the allowlist.
\<close>
theorem mass_removal_needs_three_polls:
  fixes dd :: "('k, 'o) dynamicDomains"
  assumes src: "service \<in> fst ` set (dd_sources dd)" "heldPolls service dd = 0" and k: "k < length polls"
    and over: "massRemoval service polls dd k"
    and lost: "\<not> set (stateDomains service (afterPolls service polls dd k)) \<subseteq> set (stateDomains service (afterPolls service polls dd (Suc k)))"
  shows "2 \<le> k \<and> massRemoval service polls dd (k - 1) \<and> massRemoval service polls dd (k - 2)
    \<and> set (stateDomains service (afterPolls service polls dd (k - 2))) \<subseteq> set (stateDomains service (afterPolls service polls dd k))"
proof -
  have "service \<in> fst ` set (dd_sources (afterPolls service polls dd k))" using afterPolls_source src(1) k by (metis less_imp_le)
  note step = applyDomains_step[OF this refl refl]
  have "\<not> heldPolls service (afterPolls service polls dd k) < 2"
    using over lost by (auto simp: afterPolls_Suc[OF k] step massRemoval_def Let_def)
  then have h: "2 \<le> heldPolls service (afterPolls service polls dd k)" by simp
  then obtain j where j: "k = Suc j" "massRemoval service polls dd j" "1 \<le> heldPolls service (afterPolls service polls dd j)"
    "set (stateDomains service (afterPolls service polls dd j)) \<subseteq> set (stateDomains service (afterPolls service polls dd k))"
    using doubted_before[OF src less_imp_le[OF k]] by auto
  then obtain i where i: "j = Suc i" "massRemoval service polls dd i"
    "set (stateDomains service (afterPolls service polls dd i)) \<subseteq> set (stateDomains service (afterPolls service polls dd j))"
    using doubted_before[OF src, of j polls] k by auto
  show ?thesis using i j by auto
qed

section \<open>Witnesses and the limits of the guard\<close>

definition runDomains :: "(nat, nat) dynamicDomains" where
  "runDomains = \<lparr>dd_manager = managerInit ''prod'' \<lparr>dc_selection = \<lparr>ps_default = [], ps_zones = []\<rparr>, dc_obtainer = None, dc_obtainers = []\<rparr>
                    \<lparr>gr_minSubdomainsForWildcard = 2, gr_preferWildcard = False, gr_dnsProviderAvailable = False\<rparr>,
     dd_issuer = newDomainIssuer [], dd_sources = [(''shop'', []), (''blog'', [])], dd_settings = [],
     dd_states = [(''shop'', \<lparr>sd_domains = [''a.dk'', ''b.dk'', ''c.dk'', ''d.dk''], sd_etag = []\<rparr>)], dd_holds = []\<rparr>"

definition runPolls :: "(time \<times> string list) list" where
  "runPolls = [(0, [''a.dk'']), (1, [''b.dk'']), (2, [''c.dk''])]"

lemma parseDomainList_valid_witness:
  "parseDomainList 60 (Some [''Shop.Dk.'', '' shop.dk'', ''*.shop.dk'', ''10.0.0.1'', ''b-.dk'']) = Inr [''shop.dk'']
     \<and> parseDomainList 1048577 (Some []) = Inl ListTooLarge \<and> parseDomainList 2 None = Inl ListUnparseable \<and> spaceFree ''shop.dk''"
proof -
  have one: "parseDomainList 60 (Some [''Shop.Dk.'', '' shop.dk'', ''*.shop.dk'', ''10.0.0.1'', ''b-.dk'']) = Inr [''shop.dk'']"
  proof -
    have "fold addDomain [''Shop.Dk.'', '' shop.dk'', ''*.shop.dk'', ''10.0.0.1'', ''b-.dk''] [] = [''shop.dk'']" by code_simp
    then show ?thesis by (simp add: parseDomainList_def maxDomainListBody_def maxDomainListEntries_def)
  qed
  have "parseDomainList 1048577 (Some []) = Inl ListTooLarge" "parseDomainList 2 None = Inl ListUnparseable"
    by (simp_all add: parseDomainList_def maxDomainListBody_def)
  then show ?thesis using one parseDomainList_valid[of 60 "Some [''Shop.Dk.'', '' shop.dk'', ''*.shop.dk'', ''10.0.0.1'', ''b-.dk'']"] by (simp add: one)
qed

lemma applyDomains_refines_guard_witness:
  "guardView ''shop'' (applyDomains 0 True ''shop'' [''a.dk'', ''e.dk''] runDomains) = ({''a.dk'', ''b.dk'', ''c.dk'', ''d.dk'', ''e.dk''}, 1)"
proof -
  have "''shop'' \<in> fst ` set (dd_sources runDomains)" "distinct (stateDomains ''shop'' runDomains)" by code_simp+
  moreover have "guardStep (set [''a.dk'', ''e.dk'']) (guardView ''shop'' runDomains) = ({''a.dk'', ''b.dk'', ''c.dk'', ''d.dk'', ''e.dk''}, 1)" by code_simp
  ultimately show ?thesis using applyDomains_refines_guard[of "''shop''" runDomains "''shop''" 0 "[''a.dk'', ''e.dk'']"] by simp
qed

lemma mass_removal_needs_three_polls_witness:
  "massRemoval ''shop'' runPolls runDomains 0 \<and> massRemoval ''shop'' runPolls runDomains 1 \<and> stateDomains ''shop'' (afterPolls ''shop'' runPolls runDomains 3) = [''c.dk'']"
proof -
  have "''shop'' \<in> fst ` set (dd_sources runDomains)" "heldPolls ''shop'' runDomains = 0" "2 < length runPolls" "massRemoval ''shop'' runPolls runDomains 2"
    "\<not> set (stateDomains ''shop'' (afterPolls ''shop'' runPolls runDomains 2)) \<subseteq> set (stateDomains ''shop'' (afterPolls ''shop'' runPolls runDomains (Suc 2)))"
    "stateDomains ''shop'' (afterPolls ''shop'' runPolls runDomains 3) = [''c.dk'']"
    by code_simp+
  then show ?thesis using mass_removal_needs_three_polls[of "''shop''" runDomains 2 runPolls] by simp
qed

text \<open>
  The guard counts polls, not removals: three mass removals in a row that take away different names count as each other's confirmation, and a name that was missing from
  the last poll only is evicted with the rest.
\<close>

lemma confirmations_need_not_agree:
  "''a.dk'' \<in> set (snd (runPolls ! 0)) \<and> ''b.dk'' \<in> set (snd (runPolls ! 1))
     \<and> stateDomains ''shop'' (afterPolls ''shop'' runPolls runDomains 3) = [''c.dk'']"
  by code_simp

text \<open>
  A name two services report has one owner on the allowlist, the last to report it; when that one drops it, it leaves the allowlist although the other service
  still lists it, and comes back only when the other service's source sends a new body.
\<close>

lemma shared_domain_lost:
  "let dd = applyDomains 2 True ''shop'' [''b.dk'', ''c.dk'', ''d.dk''] (applyDomains 1 True ''shop'' [''a.dk'', ''b.dk'', ''c.dk'', ''d.dk'']
              (applyDomains 0 True ''blog'' [''a.dk''] runDomains))
   in ''a.dk'' \<in> set (stateDomains ''blog'' dd) \<and> \<not> domainAllowed (dd_manager dd) ''a.dk'' \<and> pollSource 3 True ''blog'' NotModified dd = dd"
proof -
  let ?dd = "applyDomains 2 True ''shop'' [''b.dk'', ''c.dk'', ''d.dk''] (applyDomains 1 True ''shop'' [''a.dk'', ''b.dk'', ''c.dk'', ''d.dk'']
              (applyDomains 0 True ''blog'' [''a.dk''] runDomains))"
  have "''a.dk'' \<in> set (stateDomains ''blog'' ?dd)" "\<not> domainAllowed (dd_manager ?dd) ''a.dk''" by code_simp+
  then show ?thesis by (simp add: Let_def pollSource_def)
qed

end
