(* ===== verification/Dynamic_Redirects.thy ===== *)
theory Dynamic_Redirects
  imports Dynamic_Domains Redirects
begin

text \<open>
  Redirect maps polled from applications (\<open>dynamic_redirects.go\<close>, \<open>dynamic_redirect_state.go\<close>, the poll loop of \<open>source_poller.go\<close>) and the endpoint that asks for
  a new poll (\<open>refresh_nudge.go\<close>, \<open>dynamic_redirects_handler.go\<close>). The manager's maps are keyed by service and every locked section touches one service, so the state is
  one record per service: the service objects the router has had under that name with the map each serves, the pollers created for it, and the calls in progress. A
  deploy or a removal and the apply of a payload leave the lock between their steps; each stretch under the lock, each wait and each hand-over is one step. Metrics
  (\<open>counts\<close>) are left out, as is the timer of the poll loop: a running poller may poll at any time.
\<close>

section \<open>Payloads\<close>

type_synonym redirectHosts = "(string \<times> redirectHostConfig) list"

definition maxRedirectListBody :: nat where
  "maxRedirectListBody = 10 * 1048576"

definition maxRedirectHosts :: nat where
  "maxRedirectHosts = 100000"

definition maxRedirectPathRules :: nat where
  "maxRedirectPathRules = 100000"

datatype redirectPayloadError = RedirectsTooLarge | RedirectsUnparseable | NoHostsKey | TooManyRedirectHosts | TooManyRedirectRules

text \<open>The size of the body and what JSON makes of it: nothing, or the hosts, which may be missing.\<close>

definition parseRedirectPayload :: "nat \<Rightarrow> redirectHosts option option \<Rightarrow> redirectPayloadError + redirectHosts" where
  "parseRedirectPayload bytes payload =
     (if maxRedirectListBody < bytes then Inl RedirectsTooLarge
      else case payload of
             None \<Rightarrow> Inl RedirectsUnparseable
           | Some None \<Rightarrow> Inl NoHostsKey
           | Some (Some hosts) \<Rightarrow>
               if maxRedirectHosts < length hosts then Inl TooManyRedirectHosts
               else if maxRedirectPathRules < sum_list (map (\<lambda>(_, h). length (rh_paths h)) hosts) then Inl TooManyRedirectRules
               else Inr hosts)"

definition redirectCounts :: "dynamicRedirectMap option \<Rightarrow> nat \<times> nat" where
  "redirectCounts m = (case m of None \<Rightarrow> (0, 0) | Some m \<Rightarrow> (length (dm_hosts m), dm_ruleCount m))"

section \<open>State\<close>

record serviceRedirectState =
  rs_hosts :: redirectHosts
  rs_etag :: string
  rs_fetchedAt :: time
  rs_source :: string

datatype pollPhase =
    PollIdle
  | PollApply nat redirectHosts
  | PollInstall nat "dynamicRedirectMap option"
  | PollSave

record redirectPoller =
  rq_source :: string
  rq_etag :: string
  rq_running :: bool
  rq_cancelled :: bool
  rq_phase :: pollPhase

datatype redirectCall =
    DeployCall string
  | DeployStop "nat option" nat redirectHosts
  | DeployInstall nat redirectHosts
  | RemoveCall
  | RemoveStop "nat option"
  | RemoveEvict
  | RemoveSave

record serviceRedirects =
  sr_objects :: "dynamicRedirectMap option list"
  sr_known :: "nat option"
  sr_source :: "nat option"
  sr_state :: "serviceRedirectState option"
  sr_pollers :: "redirectPoller list"
  sr_calls :: "redirectCall list"

abbreviation phaseOf :: "serviceRedirects \<Rightarrow> nat \<Rightarrow> pollPhase" where
  "phaseOf s i \<equiv> rq_phase (sr_pollers s ! i)"

abbreviation runningPoller :: "serviceRedirects \<Rightarrow> nat \<Rightarrow> bool" where
  "runningPoller s i \<equiv> i < length (sr_pollers s) \<and> rq_running (sr_pollers s ! i)"

definition nextCall :: "redirectCall \<Rightarrow> redirectCall list \<Rightarrow> serviceRedirects \<Rightarrow> serviceRedirects" where
  "nextCall c cs s = s\<lparr>sr_calls := cs @ remove1 c (sr_calls s)\<rparr>"

definition setPoller :: "nat \<Rightarrow> (redirectPoller \<Rightarrow> redirectPoller) \<Rightarrow> serviceRedirects \<Rightarrow> serviceRedirects" where
  "setPoller i f s = s\<lparr>sr_pollers := (sr_pollers s)[i := f (sr_pollers s ! i)]\<rparr>"

definition setMap :: "nat \<Rightarrow> dynamicRedirectMap option \<Rightarrow> serviceRedirects \<Rightarrow> serviceRedirects" where
  "setMap obj m s = s\<lparr>sr_objects := (sr_objects s)[obj := m]\<rparr>"

section \<open>Deploys and removals\<close>

text \<open>The router's half of a deploy and of a removal, before it calls the manager.\<close>

definition routerDeploys :: "string \<Rightarrow> serviceRedirects \<Rightarrow> serviceRedirects" where
  "routerDeploys source s =
     (let s1 = (case sr_known s of Some _ \<Rightarrow> s | None \<Rightarrow> s\<lparr>sr_known := Some (length (sr_objects s)), sr_objects := sr_objects s @ [None]\<rparr>)
      in s1\<lparr>sr_calls := (if source = [] then RemoveCall else DeployCall source) # sr_calls s1\<rparr>)"

definition routerRemoves :: "serviceRedirects \<Rightarrow> serviceRedirects" where
  "routerRemoves s = s\<lparr>sr_known := None, sr_calls := RemoveCall # sr_calls s\<rparr>"

definition deployLocked :: "string \<Rightarrow> serviceRedirects \<Rightarrow> serviceRedirects" where
  "deployLocked source s =
     (let st = (case sr_state s of Some st \<Rightarrow> st | None \<Rightarrow> \<lparr>rs_hosts = [], rs_etag = [], rs_fetchedAt = 0, rs_source = []\<rparr>);
          st' = (if rs_source st \<noteq> source then st\<lparr>rs_etag := [], rs_source := source\<rparr> else st);
          poller = length (sr_pollers s)
      in (nextCall (DeployCall source) [DeployStop (sr_source s) poller (rs_hosts st')] s)
           \<lparr>sr_state := Some st', sr_source := Some poller,
            sr_pollers := sr_pollers s @ [\<lparr>rq_source = source, rq_etag = rs_etag st', rq_running = False, rq_cancelled = False, rq_phase = PollIdle\<rparr>]\<rparr>)"

definition installMap :: "(redirectHosts \<Rightarrow> dynamicRedirectMap) \<Rightarrow> redirectHosts \<Rightarrow> serviceRedirects \<Rightarrow> serviceRedirects" where
  "installMap compile hosts s = (case sr_known s of Some obj \<Rightarrow> setMap obj (Some (compile hosts)) s | None \<Rightarrow> s)"

definition deployInstall :: "(redirectHosts \<Rightarrow> dynamicRedirectMap) \<Rightarrow> nat \<Rightarrow> redirectHosts \<Rightarrow> serviceRedirects \<Rightarrow> serviceRedirects" where
  "deployInstall compile new persisted s =
     setPoller new (\<lambda>p. p\<lparr>rq_running := True\<rparr>)
       (nextCall (DeployInstall new persisted) [] (if persisted = [] then s else installMap compile persisted s))"

definition removeLocked :: "serviceRedirects \<Rightarrow> serviceRedirects" where
  "removeLocked s =
     (if sr_source s = None \<and> sr_state s = None then nextCall RemoveCall [] s
      else (nextCall RemoveCall [RemoveStop (sr_source s)] s)\<lparr>sr_source := None, sr_state := None\<rparr>)"

definition removeEvict :: "serviceRedirects \<Rightarrow> serviceRedirects" where
  "removeEvict s = nextCall RemoveEvict [RemoveSave] (case sr_known s of Some obj \<Rightarrow> setMap obj None s | None \<Rightarrow> s)"

section \<open>Polls\<close>

text \<open>A body arrives: the new ETag is stored before it is parsed and taken back when it is rejected. The service is looked up before the lock is taken.\<close>

definition pollBody :: "(redirectHosts \<Rightarrow> dynamicRedirectMap) \<Rightarrow> nat \<Rightarrow> string \<Rightarrow> nat \<Rightarrow> redirectHosts option option \<Rightarrow> serviceRedirects \<Rightarrow> serviceRedirects" where
  "pollBody compile i etag bytes payload s = (case parseRedirectPayload bytes payload of
     Inl _ \<Rightarrow> s
   | Inr hosts \<Rightarrow> (case sr_known s of
       None \<Rightarrow> setPoller i (\<lambda>p. p\<lparr>rq_etag := etag\<rparr>) s
     | Some obj \<Rightarrow>
         if hosts \<noteq> [] \<and> fst (redirectCounts (Some (compile hosts))) = 0 then s
         else setPoller i (\<lambda>p. p\<lparr>rq_etag := etag, rq_phase := PollApply obj hosts\<rparr>) s))"

definition pollCommit :: "(redirectHosts \<Rightarrow> dynamicRedirectMap) \<Rightarrow> time \<Rightarrow> nat \<Rightarrow> nat \<Rightarrow> redirectHosts \<Rightarrow> serviceRedirects \<Rightarrow> serviceRedirects" where
  "pollCommit compile now i obj hosts s =
     (if sr_source s \<noteq> Some i then setPoller i (\<lambda>p. p\<lparr>rq_phase := PollIdle\<rparr>) s
      else (let install = (if fst (redirectCounts (Some (compile hosts))) > 0 then Some (compile hosts) else None);
                p = sr_pollers s ! i
            in (setPoller i (\<lambda>p. p\<lparr>rq_phase := PollInstall obj install\<rparr>) s)
                 \<lparr>sr_state := Some \<lparr>rs_hosts = hosts, rs_etag = rq_etag p, rs_fetchedAt = now, rs_source = rq_source p\<rparr>\<rparr>))"

definition pollInstall :: "nat \<Rightarrow> nat \<Rightarrow> dynamicRedirectMap option \<Rightarrow> serviceRedirects \<Rightarrow> serviceRedirects" where
  "pollInstall i obj m s = setPoller i (\<lambda>p. p\<lparr>rq_phase := PollSave\<rparr>) (setMap obj m s)"

definition pollerExit :: "nat \<Rightarrow> serviceRedirects \<Rightarrow> serviceRedirects" where
  "pollerExit i s = setPoller i (\<lambda>p. p\<lparr>rq_running := False\<rparr>) s"

definition pollerCancel :: "nat \<Rightarrow> serviceRedirects \<Rightarrow> serviceRedirects" where
  "pollerCancel i s = setPoller i (\<lambda>p. p\<lparr>rq_cancelled := True\<rparr>) s"

text \<open>\<open>Stop\<close> has returned: the poller was cancelled and its loop is over, or it was never started.\<close>

definition pollerStopped :: "serviceRedirects \<Rightarrow> nat option \<Rightarrow> bool" where
  "pollerStopped s p \<longleftrightarrow> (case p of None \<Rightarrow> True | Some i \<Rightarrow> i < length (sr_pollers s) \<and> rq_cancelled (sr_pollers s ! i) \<and> \<not> rq_running (sr_pollers s ! i))"

section \<open>Steps\<close>

text \<open>With \<open>serial\<close> a deploy or removal of a service begins only when the one before it is over.\<close>

inductive svcStep :: "(redirectHosts \<Rightarrow> dynamicRedirectMap) \<Rightarrow> bool \<Rightarrow> serviceRedirects \<Rightarrow> serviceRedirects \<Rightarrow> bool" for compile serial where
  deploys: "(serial \<longrightarrow> sr_calls s = []) \<Longrightarrow> svcStep compile serial s (routerDeploys source s)"
| removes: "(serial \<longrightarrow> sr_calls s = []) \<Longrightarrow> svcStep compile serial s (routerRemoves s)"
| deploy_locked: "DeployCall source \<in> set (sr_calls s) \<Longrightarrow> svcStep compile serial s (deployLocked source s)"
| deploy_cancel: "DeployStop (Some p) new ps \<in> set (sr_calls s) \<Longrightarrow> svcStep compile serial s (pollerCancel p s)"
| deploy_stopped: "DeployStop prev new ps \<in> set (sr_calls s) \<Longrightarrow> pollerStopped s prev \<Longrightarrow>
    svcStep compile serial s (nextCall (DeployStop prev new ps) [DeployInstall new ps] s)"
| deploy_install: "DeployInstall new ps \<in> set (sr_calls s) \<Longrightarrow> svcStep compile serial s (deployInstall compile new ps s)"
| remove_locked: "RemoveCall \<in> set (sr_calls s) \<Longrightarrow> svcStep compile serial s (removeLocked s)"
| remove_cancel: "RemoveStop (Some p) \<in> set (sr_calls s) \<Longrightarrow> svcStep compile serial s (pollerCancel p s)"
| remove_stopped: "RemoveStop src \<in> set (sr_calls s) \<Longrightarrow> pollerStopped s src \<Longrightarrow> svcStep compile serial s (nextCall (RemoveStop src) [RemoveEvict] s)"
| remove_evict: "RemoveEvict \<in> set (sr_calls s) \<Longrightarrow> svcStep compile serial s (removeEvict s)"
| poll_body: "runningPoller s i \<Longrightarrow> phaseOf s i = PollIdle \<Longrightarrow> svcStep compile serial s (pollBody compile i etag bytes payload s)"
| poll_commit: "runningPoller s i \<Longrightarrow> phaseOf s i = PollApply obj hosts \<Longrightarrow> svcStep compile serial s (pollCommit compile now i obj hosts s)"
| poll_install: "runningPoller s i \<Longrightarrow> phaseOf s i = PollInstall obj m \<Longrightarrow> svcStep compile serial s (pollInstall i obj m s)"
| poller_exit: "runningPoller s i \<Longrightarrow> rq_cancelled (sr_pollers s ! i) \<Longrightarrow> phaseOf s i = PollIdle \<Longrightarrow> svcStep compile serial s (pollerExit i s)"

text \<open>The steps that end with a save of the state.\<close>

inductive saveStep :: "serviceRedirects \<Rightarrow> serviceRedirects \<Rightarrow> bool" where
  remove_saved: "RemoveSave \<in> set (sr_calls s) \<Longrightarrow> saveStep s (nextCall RemoveSave [] s)"
| poll_saved: "runningPoller s i \<Longrightarrow> phaseOf s i = PollSave \<Longrightarrow> saveStep s (setPoller i (\<lambda>p. p\<lparr>rq_phase := PollIdle\<rparr>) s)"

type_synonym redirectFile = "string \<Rightarrow> serviceRedirectState option"

record dynamicRedirects =
  dr_services :: "string \<Rightarrow> serviceRedirects"
  dr_file :: redirectFile

definition saveState :: "dynamicRedirects \<Rightarrow> redirectFile" where
  "saveState d = (\<lambda>name. sr_state (dr_services d name))"

inductive redirectsStep :: "(redirectHosts \<Rightarrow> dynamicRedirectMap) \<Rightarrow> bool \<Rightarrow> dynamicRedirects \<Rightarrow> dynamicRedirects \<Rightarrow> bool" for compile serial where
  quiet: "svcStep compile serial (dr_services d name) s \<Longrightarrow> redirectsStep compile serial d (d\<lparr>dr_services := (dr_services d)(name := s)\<rparr>)"
| saves: "saveStep (dr_services d name) s \<Longrightarrow> redirectsStep compile serial d (d\<lparr>dr_services := (dr_services d)(name := s), dr_file := saveState d\<rparr>)"

text \<open>A start with the state a file holds, before the router has any service.\<close>

definition newDynamicRedirectManager :: "redirectFile \<Rightarrow> dynamicRedirects" where
  "newDynamicRedirectManager saved =
     \<lparr>dr_services = (\<lambda>name. \<lparr>sr_objects = [], sr_known = None, sr_source = None, sr_state = saved name, sr_pollers = [], sr_calls = []\<rparr>), dr_file = saved\<rparr>"

section \<open>What is served is what is recorded\<close>

definition hostsOf :: "dynamicRedirectMap option \<Rightarrow> (string \<times> compiledHostRedirect) list" where
  "hostsOf m = (case m of Some m \<Rightarrow> dm_hosts m | None \<Rightarrow> [])"

definition recordedHosts :: "(redirectHosts \<Rightarrow> dynamicRedirectMap) \<Rightarrow> serviceRedirects \<Rightarrow> (string \<times> compiledHostRedirect) list" where
  "recordedHosts compile s = (case sr_state s of Some st \<Rightarrow> dm_hosts (compile (rs_hosts st)) | None \<Rightarrow> [])"

abbreviation servedHosts :: "serviceRedirects \<Rightarrow> nat \<Rightarrow> (string \<times> compiledHostRedirect) list" where
  "servedHosts s obj \<equiv> hostsOf (sr_objects s ! obj)"

text \<open>Once poller \<open>i\<close> is through with what it is doing, the service object will serve \<open>h\<close>.\<close>

definition inSync :: "serviceRedirects \<Rightarrow> nat \<Rightarrow> nat \<Rightarrow> (string \<times> compiledHostRedirect) list \<Rightarrow> bool" where
  "inSync s i obj h \<longleftrightarrow> i < length (sr_pollers s) \<and> (case phaseOf s i of
     PollApply obj' _ \<Rightarrow> obj' = obj \<and> servedHosts s obj = h
   | PollInstall obj' m \<Rightarrow> obj' = obj \<and> hostsOf m = h
   | _ \<Rightarrow> servedHosts s obj = h)"

definition awaited :: "serviceRedirects \<Rightarrow> nat option \<Rightarrow> (string \<times> compiledHostRedirect) list \<Rightarrow> bool" where
  "awaited s p h \<longleftrightarrow> (\<forall>obj. sr_known s = Some obj \<longrightarrow> (case p of None \<Rightarrow> servedHosts s obj = [] | Some i \<Rightarrow> inSync s i obj h))"

definition persistedAs :: "serviceRedirects \<Rightarrow> redirectHosts \<Rightarrow> bool" where
  "persistedAs s ps \<longleftrightarrow> (\<exists>st. sr_state s = Some st \<and> rs_hosts st = ps)"

fun callOk :: "(redirectHosts \<Rightarrow> dynamicRedirectMap) \<Rightarrow> serviceRedirects \<Rightarrow> redirectCall list \<Rightarrow> bool" where
  "callOk compile s [] \<longleftrightarrow> awaited s (sr_source s) (recordedHosts compile s) \<and> (sr_known s = None \<longrightarrow> sr_source s = None)"
| "callOk compile s [DeployCall source] \<longleftrightarrow> awaited s (sr_source s) (recordedHosts compile s) \<and> sr_known s \<noteq> None"
| "callOk compile s [RemoveCall] \<longleftrightarrow> awaited s (sr_source s) (recordedHosts compile s)"
| "callOk compile s [DeployStop prev new ps] \<longleftrightarrow> sr_known s \<noteq> None \<and> sr_source s = Some new \<and> new < length (sr_pollers s) \<and> \<not> rq_running (sr_pollers s ! new) \<and> prev \<noteq> Some new
     \<and> persistedAs s ps \<and> (ps = [] \<longrightarrow> awaited s prev [])"
| "callOk compile s [DeployInstall new ps] \<longleftrightarrow> sr_known s \<noteq> None \<and> sr_source s = Some new \<and> new < length (sr_pollers s) \<and> \<not> rq_running (sr_pollers s ! new)
     \<and> persistedAs s ps \<and> (ps = [] \<longrightarrow> awaited s None [])"
| "callOk compile s [RemoveStop src] \<longleftrightarrow> sr_source s = None"
| "callOk compile s [RemoveEvict] \<longleftrightarrow> sr_source s = None"
| "callOk compile s [RemoveSave] \<longleftrightarrow> sr_source s = None \<and> awaited s None []"
| "callOk compile s (_ # _ # _) \<longleftrightarrow> False"

text \<open>A running poller is the current one, or a call waits for it; only a running poller is busy.\<close>

definition pollersOk :: "serviceRedirects \<Rightarrow> bool" where
  "pollersOk s \<longleftrightarrow> (\<forall>i < length (sr_pollers s).
     (rq_phase (sr_pollers s ! i) \<noteq> PollIdle \<longrightarrow> rq_running (sr_pollers s ! i))
   \<and> (rq_running (sr_pollers s ! i) \<longrightarrow> sr_source s = Some i \<or> (\<exists>new ps. DeployStop (Some i) new ps \<in> set (sr_calls s)) \<or> RemoveStop (Some i) \<in> set (sr_calls s)))"

fun phaseObject :: "pollPhase \<Rightarrow> nat option" where
  "phaseObject (PollApply obj _) = Some obj"
| "phaseObject (PollInstall obj _) = Some obj"
| "phaseObject _ = None"

definition objectsOk :: "serviceRedirects \<Rightarrow> bool" where
  "objectsOk s \<longleftrightarrow> (\<forall>obj. sr_known s = Some obj \<longrightarrow> obj < length (sr_objects s)) \<and> (\<forall>i. sr_source s = Some i \<longrightarrow> i < length (sr_pollers s))
   \<and> (\<forall>i < length (sr_pollers s). \<forall>obj. phaseObject (phaseOf s i) = Some obj \<longrightarrow> obj < length (sr_objects s))"

definition svcOk :: "(redirectHosts \<Rightarrow> dynamicRedirectMap) \<Rightarrow> serviceRedirects \<Rightarrow> bool" where
  "svcOk compile s \<longleftrightarrow> callOk compile s (sr_calls s) \<and> pollersOk s \<and> objectsOk s"

lemma ok_state [simp]: "pollersOk (s\<lparr>sr_state := x\<rparr>) = pollersOk s" "objectsOk (s\<lparr>sr_state := x\<rparr>) = objectsOk s"
  by (simp_all add: pollersOk_def objectsOk_def)

lemma callOk_single: "callOk compile s cs \<Longrightarrow> c \<in> set cs \<Longrightarrow> cs = [c]"
  by (cases cs; cases "tl cs") auto

lemma nextCall_single: "sr_calls s = [c] \<Longrightarrow> nextCall c cs s = s\<lparr>sr_calls := cs\<rparr>"
  by (simp add: nextCall_def)

lemma setPoller_simps [simp]:
  "sr_objects (setPoller i f s) = sr_objects s" "sr_known (setPoller i f s) = sr_known s" "sr_source (setPoller i f s) = sr_source s" "sr_state (setPoller i f s) = sr_state s"
  "sr_calls (setPoller i f s) = sr_calls s" "length (sr_pollers (setPoller i f s)) = length (sr_pollers s)"
  by (simp_all add: setPoller_def)

lemma setPoller_nth [simp]: "j < length (sr_pollers s) \<Longrightarrow> sr_pollers (setPoller i f s) ! j = (if j = i then f (sr_pollers s ! j) else sr_pollers s ! j)"
  by (simp add: setPoller_def nth_list_update)

lemma poller_if [simp]:
  "rq_phase (if b then p else q) = (if b then rq_phase p else rq_phase q)" "rq_running (if b then p else q) = (if b then rq_running p else rq_running q)"
  by simp_all

lemma setMap_simps [simp]:
  "sr_known (setMap obj m s) = sr_known s" "sr_source (setMap obj m s) = sr_source s" "sr_state (setMap obj m s) = sr_state s" "sr_calls (setMap obj m s) = sr_calls s"
  "sr_pollers (setMap obj m s) = sr_pollers s" "length (sr_objects (setMap obj m s)) = length (sr_objects s)"
  by (simp_all add: setMap_def)

lemma setMap_nth [simp]: "o' < length (sr_objects s) \<Longrightarrow> sr_objects (setMap obj m s) ! o' = (if o' = obj then m else sr_objects s ! o')"
  by (simp add: setMap_def nth_list_update)

lemma recordedHosts_setPoller [simp]: "recordedHosts compile (setPoller i f s) = recordedHosts compile s"
  by (simp add: recordedHosts_def)

text \<open>Which poller can be running, by the call in progress.\<close>

lemma running_who:
  assumes "svcOk compile s" and "runningPoller s i"
  obtains (current) "sr_source s = Some i" "sr_calls s = [] \<or> (\<exists>src. sr_calls s = [DeployCall src]) \<or> sr_calls s = [RemoveCall]"
  | (superseded) new ps where "sr_calls s = [DeployStop (Some i) new ps]"
  | (removed) "sr_calls s = [RemoveStop (Some i)]"
proof -
  have c: "callOk compile s (sr_calls s)" using assms(1) by (simp add: svcOk_def)
  have "sr_source s = Some i \<or> (\<exists>new ps. DeployStop (Some i) new ps \<in> set (sr_calls s)) \<or> RemoveStop (Some i) \<in> set (sr_calls s)"
    using assms by (auto simp: svcOk_def pollersOk_def)
  then consider "sr_source s = Some i" | new ps where "sr_calls s = [DeployStop (Some i) new ps]" | "sr_calls s = [RemoveStop (Some i)]"
    using callOk_single[OF c] by blast
  then show thesis
  proof cases
    case 1
    have "rq_running (sr_pollers s ! i)" using assms(2) by simp
    then show thesis using 1 c current superseded removed by (cases "(compile, s, sr_calls s)" rule: callOk.cases) auto
  qed (use superseded removed in blast)+
qed

lemma poll_callOk:
  assumes ok: "svcOk compile s" and run: "runningPoller s i"
    and same: "sr_known s' = sr_known s" "sr_source s' = sr_source s" "sr_calls s' = sr_calls s" "length (sr_pollers s') = length (sr_pollers s)"
    and others: "\<And>j. j < length (sr_pollers s) \<Longrightarrow> j \<noteq> i \<Longrightarrow> sr_pollers s' ! j = sr_pollers s ! j"
    and mine: "sr_source s = Some i \<Longrightarrow> awaited s (Some i) (recordedHosts compile s) \<Longrightarrow> awaited s' (Some i) (recordedHosts compile s')"
    and theirs: "sr_source s \<noteq> Some i \<Longrightarrow> sr_state s' = sr_state s \<and> (awaited s (Some i) [] \<longrightarrow> awaited s' (Some i) [])"
  shows "callOk compile s' (sr_calls s')"
proof -
  have c: "callOk compile s (sr_calls s)" using ok by (simp add: svcOk_def)
  from ok run show ?thesis
  proof (cases rule: running_who)
    case current
    then show ?thesis using c mine same by auto
  next
    case (superseded new ps)
    then have new: "sr_source s = Some new" "new \<noteq> i" "new < length (sr_pollers s)" using c by auto
    then show ?thesis using c superseded theirs same others[of new] by (auto simp: persistedAs_def)
  next
    case removed
    then show ?thesis using c same by simp
  qed
qed

lemma phase_awaited:
  assumes "awaited s (Some i) h" and "i < length (sr_pollers s)" and "phaseOf s i = PollIdle \<or> phaseOf s i = PollSave \<or> (\<exists>obj hosts. phaseOf s i = PollApply obj hosts)"
    and "\<And>p. rq_phase (f p) = PollIdle \<or> rq_phase (f p) = PollSave \<or> (\<exists>obj hosts. rq_phase (f p) = PollApply obj hosts \<and> sr_known s = Some obj)"
  shows "awaited (setPoller i f s) (Some i) h"
  unfolding awaited_def
proof (intro allI impI)
  fix obj
  assume "sr_known (setPoller i f s) = Some obj"
  then have k: "sr_known s = Some obj" by simp
  then have "servedHosts s obj = h" using assms(1,3) by (auto simp: awaited_def inSync_def)
  then show "case Some i of None \<Rightarrow> servedHosts (setPoller i f s) obj = [] | Some i' \<Rightarrow> inSync (setPoller i f s) i' obj h"
    using assms(2) assms(4)[of "sr_pollers s ! i"] k by (auto simp: inSync_def)
qed

lemma pollersOk_running:
  assumes "pollersOk s" and "runningPoller s i" and "\<And>p. rq_running (f p) = rq_running p"
  shows "pollersOk (setPoller i f s)"
  using assms unfolding pollersOk_def by (auto simp: setPoller_def nth_list_update)

lemma objectsOk_phase:
  assumes "objectsOk s" and "\<And>p obj. phaseObject (rq_phase (f p)) = Some obj \<Longrightarrow> obj < length (sr_objects s)"
  shows "objectsOk (setPoller i f s)"
  using assms(1) assms(2)[of "sr_pollers s ! i"] unfolding objectsOk_def by (auto split: if_split_asm)

lemma pollBody_ok:
  assumes "svcOk compile s" and "runningPoller s i" and "phaseOf s i = PollIdle"
  shows "svcOk compile (pollBody compile i etag bytes payload s)"
proof -
  have step: "svcOk compile (setPoller i f s)"
    if f: "\<And>p. rq_running (f p) = rq_running p" "\<And>p. rq_phase p = PollIdle \<Longrightarrow> rq_phase (f p) = PollIdle \<or> (\<exists>obj hosts. rq_phase (f p) = PollApply obj hosts \<and> sr_known s = Some obj)" for f
  proof -
    define g where "g = (\<lambda>_ :: redirectPoller. f (sr_pollers s ! i))"
    have g: "setPoller i f s = setPoller i g s" by (simp add: setPoller_def g_def)
    have ph: "rq_phase (g p) = PollIdle \<or> (\<exists>obj hosts. rq_phase (g p) = PollApply obj hosts \<and> sr_known s = Some obj)" for p using f(2) assms(3) by (simp add: g_def)
    have "callOk compile (setPoller i g s) (sr_calls (setPoller i g s))"
      by (rule poll_callOk[OF assms(1,2)]) (use assms(2,3) ph in \<open>auto intro!: phase_awaited\<close>)
    moreover have "pollersOk (setPoller i f s)" using assms(1,2) f(1) by (intro pollersOk_running) (auto simp: svcOk_def)
    moreover have "objectsOk (setPoller i g s)"
    proof (rule objectsOk_phase)
      show "objectsOk s" using assms(1) by (simp add: svcOk_def)
      show "obj < length (sr_objects s)" if "phaseObject (rq_phase (g p)) = Some obj" for p obj
        using that ph[of p] assms(1) by (auto simp: svcOk_def objectsOk_def)
    qed
    ultimately show ?thesis unfolding svcOk_def g by simp
  qed
  show ?thesis
  proof (cases "parseRedirectPayload bytes payload")
    case (Inl e)
    then show ?thesis using assms(1) by (simp add: pollBody_def)
  next
    case (Inr hosts)
    then show ?thesis using assms(1) by (auto simp: pollBody_def intro!: step split: option.split)
  qed
qed

lemma phase_object:
  assumes "svcOk compile s" and "i < length (sr_pollers s)"
  shows "phaseOf s i = PollApply obj hosts \<Longrightarrow> obj < length (sr_objects s)" and "phaseOf s i = PollInstall obj m \<Longrightarrow> obj < length (sr_objects s)"
  using assms by (auto simp: svcOk_def objectsOk_def)

lemma pollIdle_ok:
  assumes "svcOk compile s" and "runningPoller s i" and "phaseOf s i = PollIdle \<or> phaseOf s i = PollSave \<or> (\<exists>obj hosts. phaseOf s i = PollApply obj hosts)"
  shows "svcOk compile (setPoller i (\<lambda>p. p\<lparr>rq_phase := PollIdle\<rparr>) s)"
  unfolding svcOk_def
proof (intro conjI)
  let ?f = "\<lambda>p. p\<lparr>rq_phase := PollIdle\<rparr> :: redirectPoller"
  show "callOk compile (setPoller i ?f s) (sr_calls (setPoller i ?f s))"
    by (rule poll_callOk[OF assms(1,2)]) (use assms(2,3) in \<open>auto intro!: phase_awaited\<close>)
  show "pollersOk (setPoller i ?f s)" using assms(1,2) by (intro pollersOk_running) (auto simp: svcOk_def)
  show "objectsOk (setPoller i ?f s)" using assms(1) by (intro objectsOk_phase) (auto simp: svcOk_def)
qed

lemma pollCommit_ok:
  assumes "svcOk compile s" and "runningPoller s i" and "phaseOf s i = PollApply obj hosts"
  shows "svcOk compile (pollCommit compile now i obj hosts s)"
proof (cases "sr_source s = Some i")
  case False
  then show ?thesis using pollIdle_ok[OF assms(1,2)] assms(3) by (simp add: pollCommit_def)
next
  case True
  let ?m = "if fst (redirectCounts (Some (compile hosts))) > 0 then Some (compile hosts) else None" and ?p = "sr_pollers s ! i"
  let ?f = "\<lambda>p. p\<lparr>rq_phase := PollInstall obj ?m\<rparr> :: redirectPoller"
  let ?s = "(setPoller i ?f s)\<lparr>sr_state := Some \<lparr>rs_hosts = hosts, rs_etag = rq_etag ?p, rs_fetchedAt = now, rs_source = rq_source ?p\<rparr>\<rparr>"
  have run: "pollCommit compile now i obj hosts s = ?s" using True by (simp add: pollCommit_def Let_def)
  have m: "hostsOf ?m = dm_hosts (compile hosts)" by (auto simp: hostsOf_def redirectCounts_def)
  have aw: "awaited s (Some i) (recordedHosts compile s) \<Longrightarrow> awaited ?s (Some i) (recordedHosts compile ?s)"
    using assms(2,3) m unfolding awaited_def inSync_def by (auto simp: recordedHosts_def)
  have "callOk compile ?s (sr_calls ?s)" by (rule poll_callOk[OF assms(1,2)]) (use True aw in auto)
  moreover have "pollersOk (setPoller i ?f s)" using assms(1,2) by (intro pollersOk_running) (auto simp: svcOk_def)
  then have "pollersOk ?s" by (simp only: ok_state)
  moreover have "objectsOk (setPoller i ?f s)" using assms(1) phase_object(1)[OF assms(1) _ assms(3)] assms(2) by (intro objectsOk_phase) (auto simp: svcOk_def)
  then have "objectsOk ?s" by (simp only: ok_state)
  ultimately show ?thesis unfolding svcOk_def run by simp
qed

lemma pollInstall_ok:
  assumes "svcOk compile s" and "runningPoller s i" and "phaseOf s i = PollInstall obj m"
  shows "svcOk compile (pollInstall i obj m s)"
proof -
  let ?f = "\<lambda>p. p\<lparr>rq_phase := PollSave\<rparr> :: redirectPoller"
  let ?s = "setPoller i ?f (setMap obj m s)"
  have o: "obj < length (sr_objects s)" using phase_object(2)[OF assms(1) _ assms(3)] assms(2) by simp
  have aw: "awaited s (Some i) h \<Longrightarrow> awaited ?s (Some i) h" for h
    using assms(2,3) o unfolding awaited_def inSync_def by auto
  have "callOk compile ?s (sr_calls ?s)" by (rule poll_callOk[OF assms(1,2)]) (use aw in \<open>auto simp: recordedHosts_def\<close>)
  moreover have "pollersOk (setMap obj m s)" "objectsOk (setMap obj m s)" using assms(1) by (simp_all add: svcOk_def pollersOk_def objectsOk_def)
  then have "pollersOk ?s" "objectsOk ?s" using assms(2) by (auto intro!: pollersOk_running objectsOk_phase)
  ultimately show ?thesis by (simp add: svcOk_def pollInstall_def)
qed

lemma pollerCancel_ok:
  assumes "svcOk compile s"
  shows "svcOk compile (pollerCancel p s)"
proof (cases "p < length (sr_pollers s)")
  case True
  let ?s = "setPoller p (\<lambda>q. q\<lparr>rq_cancelled := True\<rparr>) s"
  have same: "rq_phase (sr_pollers ?s ! j) = phaseOf s j" "rq_running (sr_pollers ?s ! j) = rq_running (sr_pollers s ! j)" if "j < length (sr_pollers s)" for j using that by simp_all
  have sync: "inSync ?s j obj h = inSync s j obj h" for j obj h by (cases "j < length (sr_pollers s)") (simp_all add: inSync_def split: pollPhase.split)
  then have aw: "awaited ?s q h = awaited s q h" for q h by (cases q) (simp_all add: awaited_def sync)
  have "callOk compile ?s (sr_calls s)"
    using assms unfolding svcOk_def by (cases "(compile, s, sr_calls s)" rule: callOk.cases) (auto simp: aw persistedAs_def)
  moreover have "pollersOk ?s" "objectsOk ?s" using assms unfolding svcOk_def pollersOk_def objectsOk_def by auto
  ultimately show ?thesis by (simp add: svcOk_def pollerCancel_def)
next
  case False
  then have "pollerCancel p s = s" by (simp add: pollerCancel_def setPoller_def list_update_beyond)
  then show ?thesis using assms by simp
qed

lemma pollerExit_ok:
  assumes "svcOk compile s" and "runningPoller s i" and "phaseOf s i = PollIdle"
  shows "svcOk compile (pollerExit i s)"
proof -
  let ?s = "setPoller i (\<lambda>q. q\<lparr>rq_running := False\<rparr>) s"
  have sync: "inSync ?s j obj h = inSync s j obj h" for j obj h by (cases "j < length (sr_pollers s)") (simp_all add: inSync_def split: pollPhase.split)
  then have aw: "awaited ?s q h = awaited s q h" for q h by (cases q) (simp_all add: awaited_def sync)
  have "callOk compile ?s (sr_calls ?s)" by (rule poll_callOk[OF assms(1,2)]) (use aw in auto)
  moreover have "pollersOk ?s" "objectsOk ?s" using assms unfolding svcOk_def pollersOk_def objectsOk_def by (auto simp: setPoller_def nth_list_update)
  ultimately show ?thesis by (simp add: svcOk_def pollerExit_def)
qed

lemma awaited_calls [simp]: "awaited (s\<lparr>sr_calls := cs\<rparr>) p h = awaited s p h"
proof -
  have "inSync (s\<lparr>sr_calls := cs\<rparr>) i obj h = inSync s i obj h" for i obj by (simp add: inSync_def split: pollPhase.split)
  then show ?thesis by (cases p) (simp_all add: awaited_def)
qed

lemma deploys_ok:
  assumes ok: "svcOk compile s" and no: "sr_calls s = []"
  shows "svcOk compile (routerDeploys source s)"
proof -
  have p: "pollersOk s" and o: "objectsOk s" and a: "awaited s (sr_source s) (recordedHosts compile s)" and k: "sr_known s = None \<Longrightarrow> sr_source s = None"
    using ok no by (auto simp: svcOk_def)
  let ?c = "if source = [] then RemoveCall else DeployCall source"
  show ?thesis
  proof (cases "sr_known s")
    case (Some obj)
    let ?s = "s\<lparr>sr_calls := [?c]\<rparr>"
    have run: "routerDeploys source s = ?s" using Some no by (simp add: routerDeploys_def)
    have "callOk compile ?s [?c]" using Some a by (cases "source = []") (simp_all add: recordedHosts_def)
    moreover have "pollersOk ?s" using p no by (auto simp: pollersOk_def)
    moreover have "objectsOk ?s" using o by (simp add: objectsOk_def)
    ultimately show ?thesis by (simp add: run svcOk_def)
  next
    case None
    let ?s = "s\<lparr>sr_known := Some (length (sr_objects s)), sr_objects := sr_objects s @ [None], sr_calls := [?c]\<rparr>"
    have run: "routerDeploys source s = ?s" using None no by (simp add: routerDeploys_def)
    have "callOk compile ?s [?c]" using k[OF None] by (simp add: awaited_def hostsOf_def)
    moreover have "pollersOk ?s" using p no by (auto simp: pollersOk_def)
    moreover have "objectsOk ?s" using o unfolding objectsOk_def by (auto intro: less_SucI)
    ultimately show ?thesis by (simp add: run svcOk_def)
  qed
qed

lemma removes_ok:
  assumes "svcOk compile s" and "sr_calls s = []"
  shows "svcOk compile (routerRemoves s)"
proof -
  have run: "routerRemoves s = s\<lparr>sr_known := None, sr_calls := [RemoveCall]\<rparr>" using assms(2) by (simp add: routerRemoves_def)
  have "pollersOk (routerRemoves s)" using assms by (auto simp: svcOk_def pollersOk_def run)
  moreover have "objectsOk (routerRemoves s)" using assms by (simp add: svcOk_def objectsOk_def run)
  ultimately show ?thesis by (simp add: svcOk_def run awaited_def)
qed

lemma awaited_append:
  "awaited s (Some i) h \<Longrightarrow> awaited (s\<lparr>sr_state := st, sr_source := src, sr_pollers := sr_pollers s @ ps, sr_calls := cs\<rparr>) (Some i) h"
  unfolding awaited_def inSync_def by (auto simp: nth_append split: pollPhase.split)

lemma deployLocked_ok:
  assumes "svcOk compile s" and "sr_calls s = [DeployCall source]" and empty: "dm_hosts (compile []) = []"
  shows "svcOk compile (deployLocked source s)"
proof -
  define st where "st = (case sr_state s of Some st \<Rightarrow> st | None \<Rightarrow> \<lparr>rs_hosts = [], rs_etag = [], rs_fetchedAt = 0, rs_source = []\<rparr>)"
  define st' where "st' = (if rs_source st \<noteq> source then st\<lparr>rs_etag := [], rs_source := source\<rparr> else st)"
  define q where "q = \<lparr>rq_source = source, rq_etag = rs_etag st', rq_running = False, rq_cancelled = False, rq_phase = PollIdle\<rparr>"
  let ?new = "length (sr_pollers s)"
  let ?s = "s\<lparr>sr_state := Some st', sr_source := Some ?new, sr_pollers := sr_pollers s @ [q], sr_calls := [DeployStop (sr_source s) ?new (rs_hosts st')]\<rparr>"
  have run: "deployLocked source s = ?s"
    using assms(2) by (simp add: deployLocked_def Let_def nextCall_single st_def[symmetric] st'_def[symmetric] q_def[symmetric])
  have ok: "awaited s (sr_source s) (recordedHosts compile s)" "sr_known s \<noteq> None" and p: "pollersOk s" and o: "objectsOk s" using assms by (auto simp: svcOk_def)
  have hosts: "rs_hosts st' = rs_hosts st" by (simp add: st'_def)
  have "awaited s (sr_source s) []" if "rs_hosts st' = []"
  proof -
    have "recordedHosts compile s = []" using that empty unfolding hosts by (auto simp: recordedHosts_def st_def split: option.split_asm)
    then show ?thesis using ok(1) by simp
  qed
  then have aw: "awaited ?s (sr_source s) []" if "rs_hosts st' = []"
    using that awaited_append by (cases "sr_source s") (auto simp: awaited_def)
  have i: "\<And>i. sr_source s = Some i \<Longrightarrow> i < ?new" using o by (simp add: objectsOk_def)
  have "callOk compile ?s (sr_calls ?s)" using ok(2) aw i by (auto simp: persistedAs_def q_def)
  moreover have "pollersOk ?s"
    unfolding pollersOk_def
  proof (intro allI impI)
    fix j
    assume "j < length (sr_pollers ?s)"
    then consider "j < ?new" | "j = ?new" by (auto simp: less_Suc_eq)
    then show "(rq_phase (sr_pollers ?s ! j) \<noteq> PollIdle \<longrightarrow> rq_running (sr_pollers ?s ! j))
      \<and> (rq_running (sr_pollers ?s ! j) \<longrightarrow> sr_source ?s = Some j \<or> (\<exists>new ps. DeployStop (Some j) new ps \<in> set (sr_calls ?s)) \<or> RemoveStop (Some j) \<in> set (sr_calls ?s))"
      using p assms(2) by cases (auto simp: pollersOk_def nth_append q_def)
  qed
  moreover have "objectsOk ?s" using o unfolding objectsOk_def by (auto simp: nth_append q_def less_Suc_eq)
  ultimately show ?thesis by (simp add: run svcOk_def)
qed

lemma deployStopped_ok:
  assumes "svcOk compile s" and "sr_calls s = [DeployStop prev new ps]" and "pollerStopped s prev"
  shows "svcOk compile (s\<lparr>sr_calls := [DeployInstall new ps]\<rparr>)"
proof -
  have c: "callOk compile s [DeployStop prev new ps]" and p: "pollersOk s" and o: "objectsOk s" using assms by (simp_all add: svcOk_def)
  have "awaited s None []" if "ps = []"
  proof -
    have "awaited s prev []" using c that by simp
    moreover have "phaseOf s i = PollIdle" "i < length (sr_pollers s)" if "prev = Some i" for i using that assms(3) p by (auto simp: pollerStopped_def pollersOk_def)
    ultimately show ?thesis by (cases prev) (auto simp: awaited_def inSync_def)
  qed
  then have "callOk compile (s\<lparr>sr_calls := [DeployInstall new ps]\<rparr>) [DeployInstall new ps]" using c by (auto simp: persistedAs_def awaited_def)
  moreover have "pollersOk (s\<lparr>sr_calls := [DeployInstall new ps]\<rparr>)"
    using p assms(2,3) unfolding pollersOk_def by (fastforce simp: pollerStopped_def)
  moreover have "objectsOk (s\<lparr>sr_calls := [DeployInstall new ps]\<rparr>)" using o by (simp add: objectsOk_def)
  ultimately show ?thesis by (simp add: svcOk_def)
qed

lemma deployInstall_ok:
  assumes "svcOk compile s" and "sr_calls s = [DeployInstall new ps]" and empty: "dm_hosts (compile []) = []"
  shows "svcOk compile (deployInstall compile new ps s)"
proof -
  have c: "callOk compile s [DeployInstall new ps]" and p: "pollersOk s" and o: "objectsOk s" using assms by (simp_all add: svcOk_def)
  obtain obj where k: "sr_known s = Some obj" "obj < length (sr_objects s)" using c o by (auto simp: objectsOk_def)
  define t where "t = (if ps = [] then s else setMap obj (Some (compile ps)) s)"
  let ?s = "setPoller new (\<lambda>p. p\<lparr>rq_running := True\<rparr>) (t\<lparr>sr_calls := []\<rparr>)"
  have t: "sr_pollers t = sr_pollers s" "sr_source t = Some new" "sr_known t = Some obj" "sr_state t = sr_state s" "length (sr_objects t) = length (sr_objects s)"
    using k c by (simp_all add: t_def)
  have new: "new < length (sr_pollers s)" "phaseOf s new = PollIdle" using c p by (auto simp: pollersOk_def)
  have run: "deployInstall compile new ps s = ?s" using assms(2) k by (simp add: deployInstall_def installMap_def nextCall_def t_def)
  have "servedHosts t obj = recordedHosts compile s"
    using c k empty by (auto simp: persistedAs_def recordedHosts_def awaited_def hostsOf_def t_def)
  then have "callOk compile ?s []" using new t by (simp add: awaited_def inSync_def recordedHosts_def)
  moreover have others: "\<not> rq_running (sr_pollers s ! j) \<and> phaseOf s j = PollIdle" if "j < length (sr_pollers s)" "j \<noteq> new" for j
  proof -
    have "\<not> runningPoller s j" by (rule notI, erule running_who[OF assms(1)]) (use assms(2) in simp_all)
    then show ?thesis using that(1) p by (auto simp: pollersOk_def)
  qed
  have "pollersOk ?s"
    unfolding pollersOk_def
  proof (intro allI impI)
    fix j
    assume "j < length (sr_pollers ?s)"
    then show "(phaseOf ?s j \<noteq> PollIdle \<longrightarrow> rq_running (sr_pollers ?s ! j)) \<and> (rq_running (sr_pollers ?s ! j) \<longrightarrow> sr_source ?s = Some j
        \<or> (\<exists>new ps. DeployStop (Some j) new ps \<in> set (sr_calls ?s)) \<or> RemoveStop (Some j) \<in> set (sr_calls ?s))"
      using others[of j] t by (cases "j = new") simp_all
  qed
  moreover have "objectsOk ?s" using o k new unfolding objectsOk_def by (auto simp: t split: if_split_asm)
  ultimately show ?thesis by (simp add: run svcOk_def)
qed

lemma removeLocked_ok:
  assumes "svcOk compile s" and "sr_calls s = [RemoveCall]"
  shows "svcOk compile (removeLocked s)"
proof (cases "sr_source s = None \<and> sr_state s = None")
  case True
  then show ?thesis using assms by (simp add: removeLocked_def nextCall_single svcOk_def pollersOk_def objectsOk_def awaited_def)
next
  case False
  let ?s = "s\<lparr>sr_calls := [RemoveStop (sr_source s)], sr_source := None, sr_state := None\<rparr>"
  have "removeLocked s = ?s" using False assms(2) by (simp add: removeLocked_def nextCall_single)
  moreover have "pollersOk ?s" using assms unfolding svcOk_def pollersOk_def by simp
  moreover have "objectsOk ?s" using assms by (simp add: svcOk_def objectsOk_def)
  ultimately show ?thesis by (simp add: svcOk_def)
qed

lemma removeStopped_ok:
  assumes "svcOk compile s" and "sr_calls s = [RemoveStop src]" and "pollerStopped s src"
  shows "svcOk compile (s\<lparr>sr_calls := [RemoveEvict]\<rparr>)"
proof -
  have p: "pollersOk s" and o: "objectsOk s" and c: "sr_source s = None" using assms by (simp_all add: svcOk_def)
  have "pollersOk (s\<lparr>sr_calls := [RemoveEvict]\<rparr>)"
    using p c assms(2,3) unfolding pollersOk_def by (auto simp: pollerStopped_def)
  moreover have "objectsOk (s\<lparr>sr_calls := [RemoveEvict]\<rparr>)" using o by (simp add: objectsOk_def)
  ultimately show ?thesis using c by (simp add: svcOk_def)
qed

lemma no_runner:
  assumes "svcOk compile s" and "sr_calls s = [RemoveEvict] \<or> sr_calls s = [RemoveSave]" and "i < length (sr_pollers s)"
  shows "\<not> rq_running (sr_pollers s ! i) \<and> phaseOf s i = PollIdle"
  using assms by (auto simp: svcOk_def pollersOk_def)

lemma removeEvict_ok:
  assumes "svcOk compile s" and "sr_calls s = [RemoveEvict]"
  shows "svcOk compile (removeEvict s)"
proof -
  have o: "objectsOk s" and c: "sr_source s = None" using assms by (simp_all add: svcOk_def)
  define t where "t = (case sr_known s of Some obj \<Rightarrow> setMap obj None s | None \<Rightarrow> s)"
  have t: "sr_calls t = [RemoveEvict]" "sr_source t = None" "sr_known t = sr_known s" "sr_pollers t = sr_pollers s" "length (sr_objects t) = length (sr_objects s)"
    using assms(2) c by (simp_all add: t_def split: option.split)
  have "awaited t None []" using o by (auto simp: t_def awaited_def objectsOk_def hostsOf_def split: option.split)
  then have "callOk compile (t\<lparr>sr_calls := [RemoveSave]\<rparr>) [RemoveSave]" using t(2) by (simp add: awaited_def)
  moreover have "pollersOk (t\<lparr>sr_calls := [RemoveSave]\<rparr>)" using no_runner[OF assms(1) disjI1[OF assms(2)]] t(4) by (simp add: pollersOk_def)
  moreover have "objectsOk (t\<lparr>sr_calls := [RemoveSave]\<rparr>)" using o t by (simp add: objectsOk_def)
  ultimately show ?thesis using nextCall_single[OF t(1)] by (simp add: removeEvict_def svcOk_def t_def)
qed

lemma removeSaved_ok:
  assumes "svcOk compile s" and "sr_calls s = [RemoveSave]"
  shows "svcOk compile (s\<lparr>sr_calls := []\<rparr>)"
proof -
  have o: "objectsOk s" and c: "sr_source s = None" "awaited s None []" using assms by (simp_all add: svcOk_def)
  have "callOk compile (s\<lparr>sr_calls := []\<rparr>) []" using c by (simp add: awaited_def)
  moreover have "pollersOk (s\<lparr>sr_calls := []\<rparr>)" using no_runner[OF assms(1) disjI2[OF assms(2)]] by (simp add: pollersOk_def)
  moreover have "objectsOk (s\<lparr>sr_calls := []\<rparr>)" using o by (simp add: objectsOk_def)
  ultimately show ?thesis by (simp add: svcOk_def)
qed

text \<open>All that is needed of the compiler of maps: nothing comes of nothing.\<close>

locale redirect_compiler =
  fixes compile :: "redirectHosts \<Rightarrow> dynamicRedirectMap"
  assumes compile_empty: "dm_hosts (compile []) = []"
begin

lemma svcStep_ok:
  assumes step: "svcStep compile True s s'" and ok: "svcOk compile s"
  shows "svcOk compile s'"
proof -
  have call: "c \<in> set (sr_calls s) \<Longrightarrow> sr_calls s = [c]" for c using callOk_single ok by (auto simp: svcOk_def)
  from step show ?thesis
  proof cases
    case (deploy_stopped prev new ps)
    then show ?thesis using deployStopped_ok[OF ok call] nextCall_single[OF call] by metis
  next
    case (remove_stopped src)
    then show ?thesis using removeStopped_ok[OF ok call] nextCall_single[OF call] by metis
  qed (use ok call compile_empty in \<open>auto intro: deploys_ok removes_ok deployLocked_ok deployInstall_ok removeLocked_ok removeEvict_ok pollerCancel_ok pollBody_ok pollCommit_ok pollInstall_ok pollerExit_ok\<close>)
qed

lemma saveStep_ok:
  assumes "saveStep s s'" and ok: "svcOk compile s"
  shows "svcOk compile s'"
  using assms(1)
proof cases
  case remove_saved
  have c: "sr_calls s = [RemoveSave]" by (rule callOk_single[of compile s]) (use ok remove_saved in \<open>auto simp: svcOk_def\<close>)
  then show ?thesis using removeSaved_ok[OF ok c] nextCall_single[OF c, of "[]"] remove_saved(1) by simp
next
  case (poll_saved i)
  then show ?thesis using pollIdle_ok[OF ok, of i] by blast
qed

lemma run_ok:
  assumes "rtranclp (redirectsStep compile True) (newDynamicRedirectManager saved) d"
  shows "svcOk compile (dr_services d name)"
  using assms
proof (induction arbitrary: name rule: rtranclp_induct)
  case base
  then show ?case by (simp add: newDynamicRedirectManager_def svcOk_def pollersOk_def objectsOk_def awaited_def)
next
  case (step d d')
  from step(2) show ?case using step(3) svcStep_ok saveStep_ok by cases (auto simp: fun_upd_def)
qed

text \<open>At rest, a service without a source serves nothing, and one with a source serves what was last recorded for it.\<close>

lemma at_rest:
  assumes "rtranclp (redirectsStep compile True) (newDynamicRedirectManager saved) d" and "s = dr_services d name" and "sr_calls s = []" and "sr_known s = Some obj"
  shows "sr_source s = None \<Longrightarrow> servedHosts s obj = []"
    and "sr_source s = Some i \<Longrightarrow> \<forall>obj m. phaseOf s i \<noteq> PollInstall obj m \<Longrightarrow> servedHosts s obj = recordedHosts compile s"
proof -
  have "callOk compile s []" using run_ok[OF assms(1), of name] assms(2,3) by (simp add: svcOk_def)
  then have a: "awaited s (sr_source s) (recordedHosts compile s)" by simp
  show "sr_source s = None \<Longrightarrow> servedHosts s obj = []" using a assms(4) by (simp add: awaited_def)
  show "sr_source s = Some i \<Longrightarrow> \<forall>obj m. phaseOf s i \<noteq> PollInstall obj m \<Longrightarrow> servedHosts s obj = recordedHosts compile s"
    using a assms(4) by (cases "phaseOf s i") (auto simp: awaited_def inSync_def)
qed

end

interpretation maps: redirect_compiler "compileRedirectMap rx parseURL" for rx parseURL
  by unfold_locales (simp add: compileRedirectMap_def)

lemma decision_by_hosts: "hostsOf m = hostsOf m' \<Longrightarrow> dynamicRedirectURL rx m current desired = dynamicRedirectURL rx m' current desired"
  by (cases m; cases m') (simp_all add: hostsOf_def dynamicRedirectURL_def)


section \<open>Asking for a poll\<close>

definition redirectEndpointFor :: "string \<Rightarrow> string list option option \<Rightarrow> endpointError + string \<times> string" where
  "redirectEndpointFor host targets = (case targets of
     None \<Rightarrow> Inl ServiceUnknown
   | Some None \<Rightarrow> Inl NoActiveTargets
   | Some (Some []) \<Rightarrow> Inl NoHealthyTargets
   | Some (Some (t # _)) \<Rightarrow> Inr (''http://'' @ t, host))"

definition hasRedirectSources :: "string list \<Rightarrow> dynamicRedirects \<Rightarrow> bool" where
  "hasRedirectSources names d \<longleftrightarrow> list_ex (\<lambda>n. sr_source (dr_services d n) \<noteq> None) names"

definition refreshMinInterval :: duration where
  "refreshMinInterval = 10 * second"

definition tryClaimRefresh :: "time \<Rightarrow> time \<Rightarrow> bool \<times> time" where
  "tryClaimRefresh now lastRefresh = (if now - lastRefresh < refreshMinInterval then (False, lastRefresh) else (True, now))"

definition bearerToken :: "request \<Rightarrow> string option" where
  "bearerToken r = cutPrefix (hget (req_header r) ''Authorization'') ''Bearer ''"

definition tokensEqual :: "(string \<Rightarrow> string) \<Rightarrow> string \<Rightarrow> string \<Rightarrow> bool" where
  "tokensEqual digest a b \<longleftrightarrow> digest a = digest b"

datatype nudgeAnswer = NudgeHidden | NudgeMethodNotAllowed | NudgeUnauthorized | NudgeTooManyRequests | NudgeAccepted

text \<open>The answer, and the time of the last refresh after it; sources are nudged exactly when it is accepted.\<close>

definition serveNudge :: "(string \<Rightarrow> string) \<Rightarrow> string \<Rightarrow> bool \<Rightarrow> time \<Rightarrow> request \<Rightarrow> time \<Rightarrow> nudgeAnswer \<times> time" where
  "serveNudge digest token hasSources now r lastRefresh =
     (if token = [] \<or> \<not> hasSources then (NudgeHidden, lastRefresh)
      else if req_method r \<noteq> ''POST'' then (NudgeMethodNotAllowed, lastRefresh)
      else case bearerToken r of
             None \<Rightarrow> (NudgeUnauthorized, lastRefresh)
           | Some t \<Rightarrow>
               if \<not> tokensEqual digest t token then (NudgeUnauthorized, lastRefresh)
               else case tryClaimRefresh now lastRefresh of
                      (False, l) \<Rightarrow> (NudgeTooManyRequests, l)
                    | (True, l) \<Rightarrow> (NudgeAccepted, l))"

definition redirectsRefreshPath :: string where
  "redirectsRefreshPath = ''/.kamal-proxy/redirects/refresh''"

text \<open>The wrapper around the proxy's handler: \<open>None\<close> is a request that goes on to it.\<close>

definition wrapRefresh :: "(string \<Rightarrow> string) \<Rightarrow> string \<Rightarrow> bool \<Rightarrow> time \<Rightarrow> request \<Rightarrow> time \<Rightarrow> (nudgeAnswer \<times> time) option" where
  "wrapRefresh digest token hasSources now r lastRefresh =
     (if req_path r = redirectsRefreshPath then Some (serveNudge digest token hasSources now r lastRefresh) else None)"

text \<open>Only the holder of the token moves anything, and no faster than once per interval; to everybody else the time of the last refresh stays unknown and unchanged.\<close>

lemma nudge_guarded:
  assumes "serveNudge digest token hasSources now r lastRefresh = (answer, l)"
  shows "answer \<in> {NudgeAccepted, NudgeTooManyRequests} \<Longrightarrow>
      token \<noteq> [] \<and> hasSources \<and> req_method r = ''POST'' \<and> (\<exists>t. hget (req_header r) ''Authorization'' = ''Bearer '' @ t \<and> digest t = digest token)"
    and "l = (if answer = NudgeAccepted then now else lastRefresh)" and "answer = NudgeAccepted \<Longrightarrow> refreshMinInterval \<le> now - lastRefresh"
  using assms by (auto simp: serveNudge_def tryClaimRefresh_def bearerToken_def cutPrefix_def hasPrefix_iff tokensEqual_def split: if_split_asm option.split_asm prod.split_asm)

section \<open>Runs\<close>

lemma lift_run:
  assumes "rtranclp (svcStep compile serial) (dr_services d name) s"
  shows "rtranclp (redirectsStep compile serial) d (d\<lparr>dr_services := (dr_services d)(name := s)\<rparr>)"
  using assms
proof (induction rule: rtranclp_induct)
  case (step s s')
  have one: "redirectsStep compile serial (d\<lparr>dr_services := (dr_services d)(name := s)\<rparr>) (d\<lparr>dr_services := (dr_services d)(name := s')\<rparr>)"
    using redirectsStep.quiet[of compile serial "d\<lparr>dr_services := (dr_services d)(name := s)\<rparr>" name s'] step(2) by simp
  show ?case by (rule rtranclp.rtrancl_into_rtrancl[OF step(3) one])
qed simp

text \<open>A service that is deployed after a restart and redirects by the saved map before any poll.\<close>

definition savedHosts :: redirectHosts where
  "savedHosts = [(''a.io'', \<lparr>rh_redirectTo = [], rh_status = 0, rh_preservePath = False, rh_trailingSlash = ''strip'', rh_paths = []\<rparr>)]"

definition savedFile :: redirectFile where
  "savedFile name = (if name = ''shop'' then Some \<lparr>rs_hosts = savedHosts, rs_etag = ''v1'', rs_fetchedAt = 5, rs_source = ''/r''\<rparr> else None)"

definition runCompile :: "redirectHosts \<Rightarrow> dynamicRedirectMap" where
  "runCompile = compileRedirectMap literalRegex (\<lambda>_. None)"

definition bootService :: serviceRedirects where
  "bootService = dr_services (newDynamicRedirectManager savedFile) ''shop''"

definition stoppedService :: serviceRedirects where
  "stoppedService = nextCall (DeployStop None 0 savedHosts) [DeployInstall 0 savedHosts] (deployLocked ''/r'' (routerDeploys ''/r'' bootService))"

definition deployedService :: serviceRedirects where
  "deployedService = deployInstall runCompile 0 savedHosts stoppedService"

lemma run_stopped: "rtranclp (svcStep runCompile serial) bootService stoppedService"
proof -
  have "svcStep runCompile serial bootService (routerDeploys ''/r'' bootService)" by (rule svcStep.deploys) (simp add: bootService_def newDynamicRedirectManager_def)
  moreover have "DeployCall ''/r'' \<in> set (sr_calls (routerDeploys ''/r'' bootService))" by code_simp
  then have "svcStep runCompile serial (routerDeploys ''/r'' bootService) (deployLocked ''/r'' (routerDeploys ''/r'' bootService))" by (rule svcStep.deploy_locked)
  moreover have "svcStep runCompile serial (deployLocked ''/r'' (routerDeploys ''/r'' bootService)) stoppedService"
    unfolding stoppedService_def by (rule svcStep.deploy_stopped) code_simp+
  ultimately show ?thesis by (meson rtranclp.rtrancl_into_rtrancl rtranclp.rtrancl_refl)
qed


text \<open>
  Calls for one service that overlap break this. A deploy with a source, caught before it installs the saved map, is overtaken by a deploy without one, which evicts the map;
  the first then installs it, and the service keeps redirecting although nothing is configured and nothing will ever update or evict the map.
\<close>

definition removedService :: serviceRedirects where
  "removedService = (let s = pollerCancel 0 (removeLocked (routerDeploys [] stoppedService))
     in nextCall RemoveSave [] (removeEvict (nextCall (RemoveStop (Some 0)) [RemoveEvict] s)))"

lemma overlapping_deploys_leave_redirects:
  "(let s = deployInstall runCompile 0 savedHosts removedService
    in sr_calls s = [] \<and> sr_source s = None \<and> sr_state s = None \<and> sr_known s = Some 0 \<and> sr_objects s ! 0 = Some (runCompile savedHosts))
   \<and> rtranclp (\<lambda>s s'. svcStep runCompile False s s' \<or> saveStep s s') bootService (deployInstall runCompile 0 savedHosts removedService)"
proof (intro conjI)
  let ?R = "\<lambda>s s'. svcStep runCompile False s s' \<or> saveStep s s'"
  let ?a = "routerDeploys [] stoppedService"
  let ?b = "removeLocked ?a"
  let ?c = "pollerCancel 0 ?b"
  let ?d = "nextCall (RemoveStop (Some 0)) [RemoveEvict] ?c"
  let ?e = "removeEvict ?d"
  show "let s = deployInstall runCompile 0 savedHosts removedService
    in sr_calls s = [] \<and> sr_source s = None \<and> sr_state s = None \<and> sr_known s = Some 0 \<and> sr_objects s ! 0 = Some (runCompile savedHosts)"
    unfolding Let_def by (intro conjI; code_simp)
  note next_step = rtranclp.rtrancl_into_rtrancl
  have r0: "rtranclp ?R bootService stoppedService" by (rule rtranclp_mono[THEN predicate2D, OF _ run_stopped[of False]]) blast
  have r1: "?R stoppedService ?a" by (rule disjI1, rule svcStep.deploys) simp
  have "RemoveCall \<in> set (sr_calls ?a)" by code_simp
  then have r2: "?R ?a ?b" by (blast intro: svcStep.remove_locked)
  have "RemoveStop (Some 0) \<in> set (sr_calls ?b)" by code_simp
  then have r3: "?R ?b ?c" by (blast intro: svcStep.remove_cancel)
  have "RemoveStop (Some 0) \<in> set (sr_calls ?c)" "pollerStopped ?c (Some 0)" by code_simp+
  then have r4: "?R ?c ?d" by (blast intro: svcStep.remove_stopped)
  have "RemoveEvict \<in> set (sr_calls ?d)" by code_simp
  then have r5: "?R ?d ?e" by (blast intro: svcStep.remove_evict)
  have "RemoveSave \<in> set (sr_calls ?e)" by code_simp
  then have r6: "?R ?e removedService" using saveStep.remove_saved[of ?e] by (simp add: removedService_def Let_def)
  have "DeployInstall 0 savedHosts \<in> set (sr_calls removedService)" by code_simp
  then have r7: "?R removedService (deployInstall runCompile 0 savedHosts removedService)" by (blast intro: svcStep.deploy_install)
  show "rtranclp ?R bootService (deployInstall runCompile 0 savedHosts removedService)"
    by (rule next_step[OF next_step[OF next_step[OF next_step[OF next_step[OF next_step[OF next_step[OF r0 r1] r2] r3] r4] r5] r6] r7])
qed

end
