(* ===== verification/Spec2Isabelle.thy ===== *)
theory Spec2Isabelle
  imports Router Trace_Context Cache_Flight Cert_Archive Cache_Store_File Dynamic_Redirects
begin

text \<open>
  A verification of an HTTP reverse proxy for deployments without downtime, written in Go. All sources named here are under
  \<open>src/internal/server/\<close>.

  \<^bold>\<open>The program.\<close> A router holds named services. A service has hosts, path prefixes and options, an active
  load balancer and, during a rollout, a second one; a load balancer holds targets, which are probed and forward requests. A request
  is routed by host and longest prefix, passes the checks of its service (deny and allow lists, TLS, redirects, rate limit,
  credentials, pause), then the cache, the idle controller and the load balancer. Deploys, rollouts, removals, pauses and
  saves of the state run beside the requests. A shared certificate manager answers TLS handshakes; names come from deploys and from polled
  domain lists, an issuer and a renewer order certificates for them in batches, and a quarantine holds names whose orders fail.

  \<^bold>\<open>Theories and what they model.\<close>
  \<^item> \<open>Go_Base\<close>, \<open>Http\<close>, \<open>Urls\<close>, \<open>Options\<close>: strings, integers of 64 bits, headers, requests, URLs and the option structs that
    the components share.
  \<^item> \<open>Path_Prefixes\<close>, \<open>Service_Map\<close> (\<open>path_timeouts.go\<close>, \<open>service_map.go\<close>): the routing table as a map from hosts to bindings sorted
    by prefix length. The invariant \<open>smInv\<close> (distinct names, exclusive bindings, the table is the one the services ask for) is
    kept by every operation; a routed request reaches the most specific binding.
  \<^item> \<open>Targets\<close>, \<open>Target_Proxy\<close>, \<open>Load_Balancer\<close>, \<open>Retry\<close> (\<open>target.go\<close>, \<open>target_weight.go\<close>, \<open>load_balancer.go\<close>, \<open>session_affinity.go\<close>,
    \<open>retry.go\<close>): specifications and weights of targets, health, draining, placement, affinity, retries.
  \<^item> \<open>Pause\<close>, \<open>Idle\<close>, \<open>Rate_Limit\<close>, \<open>Rollout\<close> (\<open>pause_controller.go\<close>, \<open>idle_controller.go\<close>, \<open>rate_limit.go\<close>, \<open>token_bucket.go\<close>,
    \<open>rollout_controller.go\<close>): the controllers of a service as step relations over their locked sections.
  \<^item> \<open>Client_Address\<close>, \<open>Basic_Auth\<close>, \<open>Redirects\<close>, \<open>Header_Rules\<close>, \<open>Trace_Context\<close>, \<open>Compression\<close>: the checks and transformations of
    a request.
  \<^item> \<open>Cache_Policy\<close>, \<open>Cache_Entry\<close>, \<open>Cache_Store\<close>, \<open>Cache_Middleware\<close>, \<open>Cache_Flight\<close> (\<open>cache_*.go\<close>): what may be stored, under
    which key, for how long, the LRU store in memory and, in \<open>Cache_Store_File\<close>, the one on disk (interpretations of the locale \<open>cache_store\<close>), and the
    middleware over any such store, with its shared fetches in any interleaving. A reopened directory holds what the closed store held.
  \<^item> \<open>Service_Options\<close>, \<open>Service\<close> (\<open>service.go\<close>, \<open>service_options_validation.go\<close>, \<open>service_cache.go\<close>, \<open>service_idle.go\<close>): the
    validation chain, the state derived from options, the order of the checks, saving and restoring.
  \<^item> \<open>Router\<close> (\<open>router.go\<close>, \<open>router_idle.go\<close>): deploys and the other handlers, interleaved where they hold no lock, the saved state
    and its restoration.
  \<^item> \<open>Domain_Zones\<close> (\<open>acme/mapping.go\<close>, \<open>acme/provider.go\<close>, \<open>san_cert_zones.go\<close>, \<open>dynamic_wildcard.go\<close>, \<open>san_cert_issuance.go\<close>, \<open>domain_group.go\<close>): names, zones
    and providers, the identifiers planned for a batch, its partitions and the choice of obtainer. Every planned order covers what was asked for and
    can be solved by one provider.
  \<^item> \<open>Quarantine\<close> (\<open>domain_quarantine.go\<close>, \<open>domain_failure.go\<close>, \<open>domain_release.go\<close>): the ladders of backoff (interpretations of the locale
    \<open>backoff_ladder\<close>), the attribution of failed orders and the release sweep.
  \<^item> \<open>Domain_Issuer\<close> (\<open>domain_issuer.go\<close>): the queue, batches and orders as a step relation \<open>issuerStep\<close>, whose invariant \<open>issuerOk\<close> keeps orders apart;
    a measure shows that failing orders end.
  \<^item> \<open>Cert_Manager\<close> (\<open>san_cert_manager.go\<close>, \<open>san_cert_dynamic.go\<close>, \<open>san_cert_directories.go\<close>, \<open>san_cert_batch_guard.go\<close>): the certificate store and its
    operations as a step relation \<open>managerStep\<close>, the handshake, the provisioning of a batch in its locked sections.
  \<^item> \<open>Cert_Renewer\<close> (\<open>domain_renewal.go\<close>): when a certificate falls due and what a renewal does to the names it serves.
  \<^item> \<open>Dynamic_Domains\<close> (\<open>domain_source.go\<close>, \<open>source_poller.go\<close>, \<open>dynamic_domains.go\<close>): domain lists, polls and the guard against mass removals, which refines
    the abstract machine \<open>guardStep\<close>.
  \<^item> \<open>Dynamic_Redirects\<close> (\<open>dynamic_redirects.go\<close>, \<open>dynamic_redirect_state.go\<close>, \<open>refresh_nudge.go\<close>): redirect maps polled from applications; the steps of deploys, removals
    and polls interleave where the code holds no lock, and the invariant \<open>svcOk\<close> keeps what a service serves in step with what is recorded for it.
  \<^item> \<open>Cert_Archive\<close> (\<open>cert_store_archive.go\<close>, \<open>cert_store_export.go\<close>, \<open>cert_store_restore.go\<close>): the backup of the certificate store. An archive is a list of tar
    entries read by a strict reader; a restore is a sequence of writes that may stop anywhere. Exported stores come back, restores stay inside the store.

  \<^bold>\<open>Code that is not in the repository\<close> is a parameter: regular expressions, SHA-256, the token bucket of
  \<open>golang.org/x/time\<close>, JSON decoding (a state file either holds marshalled services or cannot be decoded), reading certificate and
  error page files, random bytes, DNS and ACME.

  \<^bold>\<open>Bounds.\<close> Loops over lists are structural recursions; the retry loop carries fuel, and \<open>retry_loop_ends\<close> gives the amount that
  is enough. Durations and ages are integers with the wrap-around of 64 bits written out where the code multiplies
  or adds them. Go maps are association lists; where the iteration order of a map could matter the lemmas show that it does not
  (the TLS synchronisation) or the text says which order is taken.

  \<^bold>\<open>Not modelled.\<close> Sockets and the reverse proxy of the Go library, encoders of compressed bodies, buffering and error page writers,
  the Redis store, accounts, keys and certificate files, the import of certificates, metrics, logging
  and the command line.
\<close>

end
